(* ===== verification/Prelude.thy ===== *)
theory Prelude
  imports Main "HOL-Library.Word"
begin

text \<open>
  Shared vocabulary of the development: machine integers at their C width, the error codes of
  include/qoraal/errordef.h, addresses (0 is NULL), the collections of rewrite rules the component
  theories add to, and generic lemmas on lists that several components use.
\<close>

unbundle bit_operations_syntax

section \<open>Machine types\<close>

type_synonym u8 = "8 word"
type_synonym u16 = "16 word"
type_synonym u32 = "32 word"
type_synonym u64 = "64 word"
type_synonym addr = nat

abbreviation (input) NULL :: addr where
  "NULL \<equiv> 0"

section \<open>Collections of rewrite rules\<close>

named_theorems err_codes "numeric values of the error codes"
named_theorems list_ops "abstract list operations of the intrusive lists"
named_theorems st_ops "field effects of component operations"

section \<open>Error codes (include/qoraal/errordef.h)\<close>

definition EOK :: int where [err_codes]: "EOK = 0"
definition EFAIL :: int where [err_codes]: "EFAIL = - 1"
definition QORAAL_ERROR :: int where [err_codes]: "QORAAL_ERROR = - 2300"
definition E_TIMEOUT :: int where [err_codes]: "E_TIMEOUT = QORAAL_ERROR - 2"
definition E_NOMEM :: int where [err_codes]: "E_NOMEM = QORAAL_ERROR - 4"
definition E_PARM :: int where [err_codes]: "E_PARM = QORAAL_ERROR - 5"
definition E_BUSY :: int where [err_codes]: "E_BUSY = QORAAL_ERROR - 6"
definition E_NOIMPL :: int where [err_codes]: "E_NOIMPL = QORAAL_ERROR - 7"
definition E_NOTFOUND :: int where [err_codes]: "E_NOTFOUND = QORAAL_ERROR - 8"
definition E_SRCH :: int where [err_codes]: "E_SRCH = QORAAL_ERROR - 9"
definition E_UNEXP :: int where [err_codes]: "E_UNEXP = QORAAL_ERROR - 10"
definition E_BOF :: int where [err_codes]: "E_BOF = QORAAL_ERROR - 18"

section \<open>Signed tick comparison\<close>

text \<open>
  The code compares tick counts as \<open>(int32_t)(a - b)\<close>: the difference of two 32-bit counts, read
  as two's complement.
\<close>

definition tick_diff :: "u32 \<Rightarrow> u32 \<Rightarrow> int" where
  "tick_diff a b = sint (a - b)"

lemma tick_diff_self [simp]: "tick_diff a a = 0"
  by (simp add: tick_diff_def)

section \<open>Lists without repetition\<close>

lemma remove1_append_notin [simp]: "x \<notin> set xs \<Longrightarrow> remove1 x (xs @ ys) = xs @ remove1 x ys"
  by (simp add: remove1_append)

lemma sorted_wrt_remove1: "sorted_wrt P xs \<Longrightarrow> sorted_wrt P (remove1 x xs)"
  by (induction xs) (auto dest: notin_set_remove1 set_remove1_subset[THEN subsetD])


section \<open>Words as numbers\<close>

lemma unat_u32_of_int: "0 \<le> v \<Longrightarrow> v < 4294967296 \<Longrightarrow> unat (word_of_int v :: u32) = nat v"
  by (simp add: unsigned_of_int take_bit_int_eq_self)

lemma unat_u32_add: "unat (a :: u32) + unat b < 4294967296 \<Longrightarrow> unat (a + b) = unat a + unat b"
  by (simp add: unat_word_ariths)

lemma sint_u32_small: "unat (w :: u32) < 2147483648 \<Longrightarrow> sint w = int (unat w)"
proof -
  assume w: "unat w < 2147483648"
  have u: "uint w = int (unat w)" by simp
  have "int (unat w) < int 2147483648" using w by (simp only: of_nat_less_iff)
  then have "uint w < 2 ^ 31" unfolding u [symmetric] by simp
  moreover have "0 \<le> uint w" by simp
  ultimately have "signed_take_bit 31 (uint w) = uint w"
    by (intro signed_take_bit_int_eq_self) linarith+
  then show ?thesis unfolding u [symmetric] by (simp add: sint_uint)
qed

lemma unat_u32_of_nat: "n < 4294967296 \<Longrightarrow> unat (of_nat n :: u32) = n"
  by (simp add: unsigned_of_nat take_bit_nat_eq_self)

lemma unat_u32_pred: "unat (w :: u32) = Suc k \<Longrightarrow> unat (w - 1) = k"
  by (metis diff_Suc_1 old.nat.distinct(2) unat_minus_one unsigned_0)

lemma u32_and_exp: "(w :: u32) AND 2 ^ n = 0 \<longleftrightarrow> \<not> bit w n"
proof -
  have b: "bit (w AND 2 ^ n) i \<longleftrightarrow> bit w n \<and> i = n" for i
    by (auto simp: bit_simps dest: bit_imp_le_length)
  show ?thesis using bit_eq_iff [of "w AND 2 ^ n" 0] bit_imp_le_length [of w n] by (auto simp: b)
qed

lemma u32_less: "unat (a :: u32) < 4294967296"
  using unsigned_less [of a] by simp

text \<open>The characters of a literal of the source.\<close>

definition bytes :: "string \<Rightarrow> u8 list" where
  "bytes s = map (\<lambda>c. of_nat (of_char c)) s"

section \<open>Printed numbers\<close>

text \<open>Decimal digits, at least \<open>w\<close> of them, as \<open>printf\<close> prints them; 0x30 is the digit zero.\<close>

function dec_digits :: "nat \<Rightarrow> nat \<Rightarrow> u8 list" where
  "dec_digits w n =
     (if n < 10 \<and> w \<le> 1 then [0x30 + of_nat n] else dec_digits (w - 1) (n div 10) @ [0x30 + of_nat (n mod 10)])"
  by pat_completeness auto

termination
  by (relation "measure (\<lambda>(w, n). w + n)") (auto simp: not_less add_mono_thms_linordered_field intro: add_less_le_mono add_le_less_mono)

declare dec_digits.simps [simp del]

lemma dec_digits_snoc: "dec_digits 1 n = (if n < 10 then [] else dec_digits 1 (n div 10)) @ [0x30 + of_nat (n mod 10)]"
proof -
  have "dec_digits 0 m = dec_digits 1 m" for m by (subst (1 2) dec_digits.simps) simp
  then show ?thesis by (subst dec_digits.simps) simp
qed

end
