(* ===== verification/Lists.thy ===== *)
theory Lists
  imports Prelude
begin

text \<open>
  The intrusive lists of include/qoraal/common/lists.h and lists_inline.h. The memory of the link
  fields is a function \<open>nx\<close> from the address of an object to the content of its next field (the
  macro \<open>LISTS_NEXT_REF\<close> at a fixed offset); an operation takes and returns it. The
  loops follow links, so they are partial functions: \<open>None\<close> means the loop never ends, which
  happens on a cyclic list. The relations \<open>is_list\<close>, \<open>linked_rel\<close>, \<open>fifo_rel\<close> connect a list in
  memory with a HOL list; every operation is shown to implement the obvious list function, and
  the contract of the queues is a locale with an interpretation for each implementation.
\<close>

section \<open>Data\<close>

type_synonym links = "addr \<Rightarrow> addr"

record stack_t =
  st_head :: addr

record linked_t =
  l_head :: addr
  l_tail :: addr

record fifo_t =
  f_head :: addr
  f_tail :: addr

section \<open>Stack operations\<close>

definition stack_init :: "stack_t \<Rightarrow> stack_t" where
  "stack_init ll = ll\<lparr>st_head := NULL\<rparr>"

definition stack_head :: "stack_t \<Rightarrow> addr" where
  "stack_head ll = st_head ll"

definition stack_next :: "links \<Rightarrow> addr \<Rightarrow> addr" where
  "stack_next nx obj = nx obj"

definition stack_add_head :: "links \<Rightarrow> stack_t \<Rightarrow> addr \<Rightarrow> links \<times> stack_t" where
  "stack_add_head nx ll obj =
     (let nx' = (if st_head ll \<noteq> NULL then nx(obj := st_head ll) else nx(obj := NULL))
      in (nx', ll\<lparr>st_head := obj\<rparr>))"

definition stack_add_next :: "links \<Rightarrow> addr \<Rightarrow> addr \<Rightarrow> links" where
  "stack_add_next nx obj add =
     (let lst = nx obj; nx' = nx(add := lst) in nx'(obj := add))"

definition stack_remove_head :: "links \<Rightarrow> stack_t \<Rightarrow> stack_t" where
  "stack_remove_head nx ll =
     (if st_head ll \<noteq> NULL then ll\<lparr>st_head := nx (st_head ll)\<rparr> else ll)"

definition stack_remove_next :: "links \<Rightarrow> addr \<Rightarrow> links" where
  "stack_remove_next nx obj =
     (let next = nx obj; lst = (if next \<noteq> NULL then nx next else NULL)
      in nx(obj := lst))"

text \<open>The search loop of \<open>stack_remove\<close> and \<open>linked_remove\<close>: it returns \<open>(previous, start)\<close>.\<close>

partial_function (option) find_prev :: "links \<Rightarrow> addr \<Rightarrow> addr \<Rightarrow> addr \<Rightarrow> (addr \<times> addr) option" where
  "find_prev nx obj previous start =
     (if start \<noteq> NULL \<and> start \<noteq> obj then find_prev nx obj start (nx start)
      else Some (previous, start))"

text \<open>The walk to the last object: it returns the last non-NULL object seen.\<close>

partial_function (option) find_last :: "links \<Rightarrow> addr \<Rightarrow> addr \<Rightarrow> addr option" where
  "find_last nx previous start =
     (if start \<noteq> NULL then find_last nx start (nx start) else Some previous)"

definition stack_add_tail :: "links \<Rightarrow> stack_t \<Rightarrow> addr \<Rightarrow> (links \<times> stack_t) option" where
  "stack_add_tail nx ll add =
     (case find_last nx NULL (stack_head ll) of
        None \<Rightarrow> None
      | Some previous \<Rightarrow>
          if previous \<noteq> NULL then Some (stack_add_next nx previous add, ll)
          else Some (stack_add_head nx ll add))"

definition stack_remove :: "links \<Rightarrow> stack_t \<Rightarrow> addr \<Rightarrow> (addr \<times> links \<times> stack_t) option" where
  "stack_remove nx ll obj =
     (case find_prev nx obj NULL (stack_head ll) of
        None \<Rightarrow> None
      | Some (previous, start) \<Rightarrow>
          if start = obj then
            if previous = NULL then Some (obj, nx, stack_remove_head nx ll)
            else Some (obj, stack_remove_next nx previous, ll)
          else Some (NULL, nx, ll))"

section \<open>FIFO operations\<close>

definition fifo_init :: "fifo_t \<Rightarrow> fifo_t" where
  "fifo_init ll = ll\<lparr>f_head := NULL, f_tail := NULL\<rparr>"

definition fifo_is_empty :: "fifo_t \<Rightarrow> bool" where
  "fifo_is_empty ll \<longleftrightarrow> f_head ll = NULL"

definition fifo_queue :: "links \<Rightarrow> fifo_t \<Rightarrow> addr \<Rightarrow> links \<times> fifo_t" where
  "fifo_queue nx ll add =
     (let nx' = nx(add := NULL) in
      if f_head ll = NULL then (nx', ll\<lparr>f_head := add, f_tail := add\<rparr>)
      else (nx'(f_tail ll := add), ll\<lparr>f_tail := add\<rparr>))"

definition fifo_dequeue :: "links \<Rightarrow> fifo_t \<Rightarrow> addr \<times> fifo_t" where
  "fifo_dequeue nx ll =
     (let head = f_head ll in
      if head \<noteq> NULL then
        (let ll' = ll\<lparr>f_head := nx (f_head ll)\<rparr> in
         if f_head ll' = NULL then (head, ll'\<lparr>f_tail := NULL\<rparr>) else (head, ll'))
      else (head, ll))"

definition fifo_first :: "fifo_t \<Rightarrow> addr" where
  "fifo_first ll = f_head ll"

definition fifo_last :: "fifo_t \<Rightarrow> addr" where
  "fifo_last ll = f_tail ll"

section \<open>Linked list operations\<close>

definition linked_init :: "linked_t \<Rightarrow> linked_t" where
  "linked_init ll = ll\<lparr>l_head := NULL, l_tail := NULL\<rparr>"

definition linked_head :: "linked_t \<Rightarrow> addr" where
  "linked_head ll = l_head ll"

definition linked_tail :: "linked_t \<Rightarrow> addr" where
  "linked_tail ll = l_tail ll"

definition linked_next :: "links \<Rightarrow> addr \<Rightarrow> addr" where
  "linked_next nx obj = nx obj"

definition linked_add_head :: "links \<Rightarrow> linked_t \<Rightarrow> addr \<Rightarrow> links \<times> linked_t" where
  "linked_add_head nx ll add =
     (if l_head ll = NULL then (nx(add := NULL), ll\<lparr>l_tail := add, l_head := add\<rparr>)
      else (nx(add := l_head ll), ll\<lparr>l_head := add\<rparr>))"

text \<open>The result is the memory, the list added to, and the emptied source list.\<close>

definition linked_add_head_list ::
    "links \<Rightarrow> linked_t \<Rightarrow> linked_t \<Rightarrow> links \<times> linked_t \<times> linked_t" where
  "linked_add_head_list nx ll add =
     (let (nx', ll') = (if l_head ll = NULL then (nx, ll\<lparr>l_tail := l_tail add\<rparr>)
                        else (nx(l_tail add := l_head ll), ll));
          ll'' = ll'\<lparr>l_head := l_head add\<rparr>
      in (nx', ll'', add\<lparr>l_head := NULL, l_tail := NULL\<rparr>))"

definition linked_add_tail :: "links \<Rightarrow> linked_t \<Rightarrow> addr \<Rightarrow> (links \<times> linked_t) option" where
  "linked_add_tail nx ll add =
     (let nx' = nx(add := NULL) in
      if l_head ll = NULL then Some (nx', ll\<lparr>l_head := add, l_tail := add\<rparr>)
      else
        (case (if l_tail ll = NULL then find_last nx' NULL (l_head ll) else Some (l_tail ll)) of
           None \<Rightarrow> None
         | Some t \<Rightarrow> Some (nx'(t := add), ll\<lparr>l_tail := add\<rparr>)))"

definition linked_add_next :: "links \<Rightarrow> linked_t \<Rightarrow> addr \<Rightarrow> addr \<Rightarrow> links \<times> linked_t" where
  "linked_add_next nx ll obj add =
     (let lst = nx obj;
          nx' = (nx(add := lst))(obj := add)
      in if obj = l_tail ll then (nx'(add := NULL), ll\<lparr>l_tail := add\<rparr>) else (nx', ll))"

definition linked_remove_head :: "links \<Rightarrow> linked_t \<Rightarrow> linked_t" where
  "linked_remove_head nx ll =
     (let ll' = (if l_head ll \<noteq> NULL then ll\<lparr>l_head := nx (l_head ll)\<rparr> else ll)
      in if l_head ll' = NULL then ll'\<lparr>l_tail := NULL\<rparr> else ll')"

definition linked_remove_next :: "links \<Rightarrow> linked_t \<Rightarrow> addr \<Rightarrow> links \<times> linked_t" where
  "linked_remove_next nx ll obj =
     (let next = nx obj in
      if next \<noteq> NULL then
        (let nx' = nx(obj := nx next) in
         if nx' obj = NULL then (nx', ll\<lparr>l_tail := obj\<rparr>) else (nx', ll))
      else (nx, ll))"

definition linked_remove :: "links \<Rightarrow> linked_t \<Rightarrow> addr \<Rightarrow> (addr \<times> links \<times> linked_t) option" where
  "linked_remove nx ll obj =
     (case find_prev nx obj NULL (linked_head ll) of
        None \<Rightarrow> None
      | Some (previous, start) \<Rightarrow>
          if start = obj then
            if previous = NULL then Some (obj, nx, linked_remove_head nx ll)
            else (let (nx', ll') = linked_remove_next nx ll previous in Some (obj, nx', ll'))
          else Some (NULL, nx, ll))"


section \<open>Lists in memory\<close>

fun is_list :: "links \<Rightarrow> addr \<Rightarrow> addr list \<Rightarrow> bool" where
  "is_list nx p [] \<longleftrightarrow> p = NULL"
| "is_list nx p (x # xs) \<longleftrightarrow> p = x \<and> x \<noteq> NULL \<and> is_list nx (nx x) xs"

definition stack_rel :: "links \<Rightarrow> stack_t \<Rightarrow> addr list \<Rightarrow> bool" where
  "stack_rel nx ll xs \<longleftrightarrow> is_list nx (st_head ll) xs"

definition linked_rel :: "links \<Rightarrow> linked_t \<Rightarrow> addr list \<Rightarrow> bool" where
  "linked_rel nx ll xs \<longleftrightarrow>
     is_list nx (l_head ll) xs \<and> l_tail ll = (if xs = [] then NULL else last xs)"

definition fifo_rel :: "links \<Rightarrow> fifo_t \<Rightarrow> addr list \<Rightarrow> bool" where
  "fifo_rel nx ll xs \<longleftrightarrow>
     is_list nx (f_head ll) xs \<and> f_tail ll = (if xs = [] then NULL else last xs)"

lemma is_list_NULL [simp]: "is_list nx NULL xs \<longleftrightarrow> xs = []"
  by (cases xs) auto

lemma is_list_nonnull: "is_list nx p xs \<Longrightarrow> x \<in> set xs \<Longrightarrow> x \<noteq> NULL"
  by (induction xs arbitrary: p) auto

lemma is_list_unique: "is_list nx p xs \<Longrightarrow> is_list nx p ys \<Longrightarrow> xs = ys"
proof (induction xs arbitrary: p ys)
  case (Cons x xs)
  then show ?case by (cases ys) auto
qed simp

lemma is_list_mid: "is_list nx p (xs @ y # ys) \<Longrightarrow> y \<noteq> NULL \<and> is_list nx (nx y) ys"
  by (induction xs arbitrary: p) auto

lemma is_list_tail: "is_list nx p (xs @ ys) \<Longrightarrow> \<exists>q. is_list nx q ys"
  by (induction xs arbitrary: p) auto

lemma is_list_distinct: "is_list nx p xs \<Longrightarrow> distinct xs"
proof (induction xs arbitrary: p)
  case (Cons x xs)
  have "x \<notin> set xs"
  proof
    assume "x \<in> set xs"
    then obtain ys zs where xs: "xs = ys @ x # zs" by (auto dest: split_list)
    with Cons.prems have "is_list nx (nx x) (ys @ x # zs)" by simp
    then obtain q where "is_list nx q (x # zs)" by (auto dest: is_list_tail)
    then have "is_list nx x (x # zs)" by auto
    moreover have "is_list nx x (x # ys @ x # zs)" using Cons.prems xs by auto
    ultimately have "x # zs = x # ys @ x # zs" by (rule is_list_unique)
    then show False by simp
  qed
  then show ?case using Cons by auto
qed simp

lemma is_list_upd [simp]: "y \<notin> set xs \<Longrightarrow> is_list (nx(y := z)) p xs = is_list nx p xs"
  by (induction xs arbitrary: p) auto

text \<open>Replacing what follows an object.\<close>

lemma is_list_relink:
  assumes "is_list nx p (xs @ y # ys)" and "is_list nx q zs" and "y \<notin> set zs"
  shows "is_list (nx(y := q)) p (xs @ y # zs)"
  using assms
proof (induction xs arbitrary: p)
  case (Cons x xs)
  have "distinct (x # xs @ y # ys)" using Cons.prems(1) is_list_distinct by fastforce
  then have "x \<noteq> y" by auto
  then show ?case using Cons by auto
qed auto

section \<open>The loops end on well-formed lists\<close>

lemma find_last_is_list:
  "is_list nx start xs \<Longrightarrow> find_last nx prev start = Some (if xs = [] then prev else last xs)"
  by (induction xs arbitrary: prev start) (auto simp: find_last.simps)

lemma find_prev_is_list:
  assumes "is_list nx start xs"
  shows "find_prev nx obj prev start =
     Some (if obj \<in> set xs
           then (let ys = takeWhile (\<lambda>x. x \<noteq> obj) xs in (if ys = [] then prev else last ys, obj))
           else (if xs = [] then prev else last xs, NULL))"
  using assms
  by (induction xs arbitrary: prev start) (auto simp: find_prev.simps Let_def)


section \<open>The abstract operations\<close>

text \<open>What the operations do to the HOL list a list in memory stands for.\<close>

definition ll_add_head :: "addr list \<Rightarrow> addr \<Rightarrow> addr list" where [list_ops]:
  "ll_add_head xs x = x # xs"

definition ll_add_tail :: "addr list \<Rightarrow> addr \<Rightarrow> addr list" where [list_ops]:
  "ll_add_tail xs x = xs @ [x]"

fun ll_add_next :: "addr list \<Rightarrow> addr \<Rightarrow> addr \<Rightarrow> addr list" where
  "ll_add_next [] obj x = []"
| "ll_add_next (y # ys) obj x = (if y = obj then y # x # ys else y # ll_add_next ys obj x)"

definition ll_remove :: "addr list \<Rightarrow> addr \<Rightarrow> addr list" where [list_ops]:
  "ll_remove xs x = remove1 x xs"

definition ll_remove_head :: "addr list \<Rightarrow> addr list" where [list_ops]:
  "ll_remove_head xs = tl xs"

definition ll_head :: "addr list \<Rightarrow> addr" where
  "ll_head xs = (case xs of [] \<Rightarrow> NULL | x # _ \<Rightarrow> x)"

lemma ll_head_simps [simp]: "ll_head [] = NULL" "ll_head (x # xs) = x"
  by (simp_all add: ll_head_def)

lemma ll_add_next_split: "obj \<notin> set xs \<Longrightarrow> ll_add_next (xs @ obj # ys) obj x = xs @ obj # x # ys"
  by (induction xs) auto

lemma set_ll_add_next: "obj \<in> set xs \<Longrightarrow> set (ll_add_next xs obj x) = insert x (set xs)"
  by (induction xs) auto

lemma distinct_ll_add_next: "distinct xs \<Longrightarrow> x \<notin> set xs \<Longrightarrow> distinct (ll_add_next xs obj x)"
proof (induction xs)
  case (Cons y ys)
  have "set (ll_add_next ys obj x) \<subseteq> insert x (set ys)"
    by (induction ys) auto
  with Cons show ?case by auto
qed simp

lemma length_ll_add_next: "obj \<in> set xs \<Longrightarrow> length (ll_add_next xs obj x) = Suc (length xs)"
  by (induction xs) auto

section \<open>Each operation implements its list function\<close>

lemma stack_add_head_rel:
  assumes "stack_rel nx ll xs" "x \<notin> set xs" "x \<noteq> NULL"
  shows "stack_add_head nx ll x = (nx', ll') \<Longrightarrow> stack_rel nx' ll' (ll_add_head xs x)"
  using assms by (auto simp: stack_rel_def stack_add_head_def Let_def list_ops split: if_splits)

lemma stack_remove_next_list:
  assumes "is_list nx p (xs @ a # b # ys)"
  shows "is_list (stack_remove_next nx a) p (xs @ a # ys)"
proof -
  from assms have d: "distinct (xs @ a # b # ys)" by (rule is_list_distinct)
  from assms is_list_mid [of nx p "xs @ [a]" b ys] have b: "b \<noteq> NULL" "is_list nx (nx b) ys" by auto
  from assms is_list_mid [of nx p xs a "b # ys"] have "nx a = b" by auto
  then have "stack_remove_next nx a = nx(a := nx b)" using b by (simp add: stack_remove_next_def)
  moreover have "is_list (nx(a := nx b)) p (xs @ a # ys)"
    using assms b d by (intro is_list_relink) auto
  ultimately show ?thesis by simp
qed

lemma find_prev_split:
  assumes "is_list nx start (xs @ obj # ys)"
  shows "find_prev nx obj NULL start = Some (if xs = [] then NULL else last xs, obj)"
proof -
  have "obj \<notin> set xs" using is_list_distinct [OF assms] by auto
  then have "takeWhile (\<lambda>x. x \<noteq> obj) (xs @ obj # ys) = xs"
    by (induction xs) auto
  then show ?thesis using find_prev_is_list [OF assms, of obj NULL] by (simp add: Let_def)
qed

lemma remove1_split: "distinct (xs @ obj # ys) \<Longrightarrow> remove1 obj (xs @ obj # ys) = xs @ ys"
  by (simp add: remove1_append)

lemma stack_remove_rel:
  assumes r: "stack_rel nx ll xs" and n: "obj \<noteq> NULL"
  shows "\<exists>nx' ll'. stack_remove nx ll obj = Some (if obj \<in> set xs then obj else NULL, nx', ll') \<and>
           stack_rel nx' ll' (ll_remove xs obj)"
proof (cases "obj \<in> set xs")
  case False
  with r n show ?thesis
    using find_prev_is_list [of nx "st_head ll" xs obj NULL]
    by (auto simp: stack_remove_def stack_rel_def stack_head_def list_ops remove1_idem)
next
  case True
  then obtain ys zs where xs: "xs = ys @ obj # zs" by (auto dest: split_list)
  from r xs have l: "is_list nx (st_head ll) (ys @ obj # zs)" by (simp add: stack_rel_def)
  note rem = remove1_split [OF is_list_distinct [OF l]]
  show ?thesis
  proof (cases ys rule: rev_cases)
    case Nil
    with l xs n show ?thesis
      by (auto simp: stack_remove_def stack_rel_def stack_head_def list_ops find_prev_split
          stack_remove_head_def find_prev.simps)
  next
    case (snoc us a)
    with l have a: "a \<noteq> NULL" using is_list_mid [of nx "st_head ll" us a "obj # zs"] by simp
    with l snoc xs rem True stack_remove_next_list [of nx "st_head ll" us a obj zs] show ?thesis
      by (simp add: stack_remove_def stack_rel_def stack_head_def list_ops find_prev_split [OF l])
  qed
qed

lemma linked_add_head_rel:
  assumes "linked_rel nx ll xs" "x \<notin> set xs" "x \<noteq> NULL"
  shows "linked_add_head nx ll x = (nx', ll') \<Longrightarrow> linked_rel nx' ll' (ll_add_head xs x)"
  using assms by (cases xs) (auto simp: linked_rel_def linked_add_head_def list_ops)

lemma is_list_snoc:
  assumes "is_list nx p xs" "xs \<noteq> []" "x \<notin> set xs" "x \<noteq> NULL"
  shows "is_list (nx(x := NULL, last xs := x)) p (xs @ [x])"
proof -
  obtain ys y where xs: "xs = ys @ [y]" using assms(2) by (cases xs rule: rev_cases) auto
  have "is_list (nx(x := NULL)) p (ys @ y # [])" using assms xs by simp
  moreover have "is_list (nx(x := NULL)) x [x]" using assms(4) by simp
  moreover have "y \<notin> set [x]" using assms xs by auto
  ultimately show ?thesis using xs is_list_relink [of "nx(x := NULL)" p ys y "[]" x "[x]"] by simp
qed

lemma linked_add_tail_rel:
  assumes "linked_rel nx ll xs" "x \<notin> set xs" "x \<noteq> NULL"
  shows "\<exists>nx' ll'. linked_add_tail nx ll x = Some (nx', ll') \<and> linked_rel nx' ll' (ll_add_tail xs x)"
proof (cases "xs = []")
  case True
  with assms show ?thesis by (auto simp: linked_rel_def linked_add_tail_def list_ops)
next
  case False
  then have "last xs \<noteq> NULL" using assms(1) is_list_nonnull by (auto simp: linked_rel_def)
  moreover have "l_head ll \<noteq> NULL" using False assms(1) by (cases xs) (auto simp: linked_rel_def)
  ultimately show ?thesis using False assms is_list_snoc [of nx "l_head ll" xs x]
    by (simp add: linked_rel_def linked_add_tail_def list_ops)
qed

text \<open>When only the head is known (the tail is NULL), the walk finds the tail.\<close>

lemma linked_add_tail_lost_tail:
  assumes "is_list nx (l_head ll) xs" "l_tail ll = NULL" "x \<notin> set xs" "x \<noteq> NULL"
  shows "\<exists>nx' ll'. linked_add_tail nx ll x = Some (nx', ll') \<and> linked_rel nx' ll' (ll_add_tail xs x)"
proof (cases "xs = []")
  case False
  then have "l_head ll \<noteq> NULL" using assms(1) by (cases xs) auto
  moreover have "find_last (nx(x := NULL)) NULL (l_head ll) = Some (last xs)"
    using assms False by (subst find_last_is_list [of _ _ xs]) auto
  ultimately show ?thesis using False assms is_list_snoc [of nx "l_head ll" xs x]
    by (simp add: linked_rel_def linked_add_tail_def list_ops)
qed (use assms in \<open>auto simp: linked_rel_def linked_add_tail_def list_ops\<close>)

lemma linked_add_next_rel:
  assumes r: "linked_rel nx ll xs" and "obj \<in> set xs" "x \<notin> set xs" "x \<noteq> NULL"
  shows "linked_add_next nx ll obj x = (nx', ll') \<Longrightarrow> linked_rel nx' ll' (ll_add_next xs obj x)"
proof -
  assume op: "linked_add_next nx ll obj x = (nx', ll')"
  obtain ys zs where xs: "xs = ys @ obj # zs" using assms(2) by (auto dest: split_list)
  from r xs have l: "is_list nx (l_head ll) (ys @ obj # zs)" by (simp add: linked_rel_def)
  then have d: "distinct (ys @ obj # zs)" by (rule is_list_distinct)
  have z: "is_list nx (nx obj) zs" using is_list_mid [OF l] by simp
  have "is_list (nx(x := nx obj)) (l_head ll) (ys @ obj # zs)" using l assms xs by simp
  moreover have "is_list (nx(x := nx obj)) x (x # zs)" using z assms xs by simp
  moreover have "obj \<notin> set (x # zs)" using d assms xs by auto
  ultimately have new: "is_list (nx(x := nx obj, obj := x)) (l_head ll) (ys @ obj # x # zs)"
    by (rule is_list_relink)
  have tl: "obj = l_tail ll \<longleftrightarrow> zs = []" using r xs d by (auto simp: linked_rel_def split: if_splits)
  have "zs = [] \<Longrightarrow> nx obj = NULL" using z by simp
  moreover have "x \<noteq> obj" using assms by auto
  ultimately have nx': "nx' = nx(x := nx obj, obj := x)"
    using op tl by (auto simp: linked_add_next_def Let_def split: if_splits)
  have "l_head ll' = l_head ll" "l_tail ll' = (if zs = [] then x else l_tail ll)"
    using op tl by (auto simp: linked_add_next_def Let_def split: if_splits)
  with new nx' r xs d show ?thesis
    by (auto simp: linked_rel_def ll_add_next_split)
qed

lemma linked_remove_head_rel:
  "linked_rel nx ll xs \<Longrightarrow> linked_rel nx (linked_remove_head nx ll) (ll_remove_head xs)"
  by (cases xs; cases "tl xs") (auto simp: linked_rel_def linked_remove_head_def list_ops Let_def)

lemma linked_remove_next_rel:
  assumes r: "linked_rel nx ll (xs @ a # b # ys)"
  shows "linked_remove_next nx ll a = (nx', ll') \<Longrightarrow> linked_rel nx' ll' (xs @ a # ys)"
proof -
  assume op: "linked_remove_next nx ll a = (nx', ll')"
  from r have l: "is_list nx (l_head ll) (xs @ a # b # ys)" by (simp add: linked_rel_def)
  have b: "b \<noteq> NULL" "is_list nx (nx b) ys" and a: "nx a = b"
    using is_list_mid [of nx "l_head ll" "xs @ [a]" b ys] is_list_mid [of nx "l_head ll" xs a "b # ys"] l
    by auto
  then have eq: "nx' = stack_remove_next nx a"
    using op by (auto simp: linked_remove_next_def stack_remove_next_def Let_def split: if_splits)
  have "nx b = NULL \<longleftrightarrow> ys = []" using b by (cases ys) auto
  then have "l_head ll' = l_head ll" "l_tail ll' = (if ys = [] then a else l_tail ll)"
    using op a b by (auto simp: linked_remove_next_def Let_def split: if_splits)
  with eq r stack_remove_next_list [OF l] show ?thesis by (auto simp: linked_rel_def)
qed

lemma linked_remove_rel:
  assumes r: "linked_rel nx ll xs" and n: "obj \<noteq> NULL"
  shows "\<exists>nx' ll'. linked_remove nx ll obj = Some (if obj \<in> set xs then obj else NULL, nx', ll') \<and>
           linked_rel nx' ll' (ll_remove xs obj)"
proof (cases "obj \<in> set xs")
  case False
  with r n show ?thesis
    using find_prev_is_list [of nx "l_head ll" xs obj NULL]
    by (auto simp: linked_remove_def linked_rel_def linked_head_def list_ops remove1_idem)
next
  case True
  then obtain ys zs where xs: "xs = ys @ obj # zs" by (auto dest: split_list)
  from r xs have l: "is_list nx (l_head ll) (ys @ obj # zs)" by (simp add: linked_rel_def)
  note rem = remove1_split [OF is_list_distinct [OF l]]
  show ?thesis
  proof (cases ys rule: rev_cases)
    case Nil
    then have "linked_remove nx ll obj = Some (obj, nx, linked_remove_head nx ll)"
      by (simp add: linked_remove_def linked_head_def find_prev_split [OF l])
    with Nil xs linked_remove_head_rel [OF r] show ?thesis by (simp add: list_ops)
  next
    case (snoc us a)
    with l have "a \<noteq> NULL" using is_list_mid [of nx "l_head ll" us a "obj # zs"] by simp
    moreover obtain nx' ll' where op: "linked_remove_next nx ll a = (nx', ll')" by fastforce
    moreover have "linked_rel nx' ll' (us @ a # zs)"
      using r xs snoc linked_remove_next_rel [OF _ op] by simp
    ultimately show ?thesis using snoc xs rem
      by (simp add: linked_remove_def linked_head_def list_ops find_prev_split [OF l])
  qed
qed

lemma linked_add_head_list_rel:
  assumes "linked_rel nx ll xs" "linked_rel nx add ys" "ys \<noteq> []" "set xs \<inter> set ys = {}"
  shows "linked_add_head_list nx ll add = (nx', ll', add') \<Longrightarrow>
     linked_rel nx' ll' (ys @ xs) \<and> linked_rel nx' add' []"
proof -
  assume op: "linked_add_head_list nx ll add = (nx', ll', add')"
  obtain zs z where ys: "ys = zs @ [z]" using assms(3) by (cases ys rule: rev_cases) auto
  show ?thesis
  proof (cases xs)
    case Nil
    with op assms show ?thesis by (auto simp: linked_rel_def linked_add_head_list_def)
  next
    case (Cons x us)
    have "is_list (nx(z := x)) (l_head add) (zs @ z # xs)"
      using assms ys Cons by (intro is_list_relink [of nx "l_head add" zs z "[]"]) (auto simp: linked_rel_def)
    with Cons op assms ys show ?thesis
      by (auto simp: linked_rel_def linked_add_head_list_def)
  qed
qed

lemma fifo_queue_rel:
  assumes "fifo_rel nx ll xs" "x \<notin> set xs" "x \<noteq> NULL"
  shows "fifo_queue nx ll x = (nx', ll') \<Longrightarrow> fifo_rel nx' ll' (ll_add_tail xs x)"
proof -
  assume op: "fifo_queue nx ll x = (nx', ll')"
  show ?thesis
  proof (cases "xs = []")
    case True
    with op assms show ?thesis by (auto simp: fifo_rel_def fifo_queue_def list_ops)
  next
    case False
    then have "f_head ll \<noteq> NULL" using assms(1) by (cases xs) (auto simp: fifo_rel_def)
    with False op assms is_list_snoc [of nx "f_head ll" xs x] show ?thesis
      by (auto simp: fifo_rel_def fifo_queue_def list_ops)
  qed
qed

lemma fifo_dequeue_rel:
  assumes "fifo_rel nx ll xs"
  shows "fifo_dequeue nx ll = (r, ll') \<Longrightarrow> r = ll_head xs \<and> fifo_rel nx ll' (ll_remove_head xs)"
  using assms
  by (cases xs; cases "tl xs")
    (auto simp: fifo_rel_def fifo_dequeue_def list_ops Let_def split: if_splits)


section \<open>The queue contract\<close>

text \<open>
  What a client of a queue relies on: \<open>rel s xs\<close> says the provider's state \<open>s\<close> holds the objects
  \<open>xs\<close>, oldest first. Both list kinds provide it.
\<close>

fun add_all :: "('s \<Rightarrow> addr \<Rightarrow> 's option) \<Rightarrow> 's \<Rightarrow> addr list \<Rightarrow> 's option" where
  "add_all add s [] = Some s"
| "add_all add s (x # xs) = (case add s x of None \<Rightarrow> None | Some s' \<Rightarrow> add_all add s' xs)"

fun drain :: "('s \<Rightarrow> addr) \<Rightarrow> ('s \<Rightarrow> 's) \<Rightarrow> nat \<Rightarrow> 's \<Rightarrow> addr list" where
  "drain head remove 0 s = []"
| "drain head remove (Suc n) s = head s # drain head remove n (remove s)"

locale queue_contract =
  fixes rel :: "'s \<Rightarrow> addr list \<Rightarrow> bool"
    and add_tail :: "'s \<Rightarrow> addr \<Rightarrow> 's option"
    and head :: "'s \<Rightarrow> addr"
    and remove_head :: "'s \<Rightarrow> 's"
  assumes rel_distinct: "rel s xs \<Longrightarrow> distinct xs"
    and add_tail_rel: "rel s xs \<Longrightarrow> x \<notin> set xs \<Longrightarrow> x \<noteq> NULL \<Longrightarrow>
           \<exists>s'. add_tail s x = Some s' \<and> rel s' (xs @ [x])"
    and head_rel: "rel s xs \<Longrightarrow> head s = ll_head xs"
    and remove_head_rel: "rel s xs \<Longrightarrow> rel (remove_head s) (tl xs)"
begin

lemma add_all_rel:
  "rel s xs \<Longrightarrow> distinct (xs @ ys) \<Longrightarrow> NULL \<notin> set ys \<Longrightarrow>
     \<exists>s'. add_all add_tail s ys = Some s' \<and> rel s' (xs @ ys)"
proof (induction ys arbitrary: s xs)
  case (Cons y ys)
  then obtain s1 where s1: "add_tail s y = Some s1" "rel s1 (xs @ [y])"
    using add_tail_rel [of s xs y] by auto
  with Cons.IH [of s1 "xs @ [y]"] Cons.prems show ?case by auto
qed auto

lemma drain_rel: "rel s xs \<Longrightarrow> n \<le> length xs \<Longrightarrow> drain head remove_head n s = take n xs"
proof (induction n arbitrary: s xs)
  case (Suc n)
  then obtain y ys where xs: "xs = y # ys" by (cases xs) auto
  with Suc show ?case using head_rel [of s xs] remove_head_rel [of s xs] by auto
qed simp

lemma fifo_order:
  assumes "rel s []" "distinct xs" "NULL \<notin> set xs"
  shows "\<exists>s'. add_all add_tail s xs = Some s' \<and> drain head remove_head (length xs) s' = xs"
proof -
  from add_all_rel [of s "[]" xs] assms obtain s' where "add_all add_tail s xs = Some s'" "rel s' xs"
    by auto
  then show ?thesis using drain_rel [of s' xs "length xs"] by auto
qed

end

text \<open>A linked list adds insertion and removal anywhere.\<close>

locale list_contract = queue_contract rel add_tail head remove_head
  for rel :: "'s \<Rightarrow> addr list \<Rightarrow> bool" and add_tail head remove_head +
  fixes remove :: "'s \<Rightarrow> addr \<Rightarrow> (addr \<times> 's) option"
    and add_next :: "'s \<Rightarrow> addr \<Rightarrow> addr \<Rightarrow> 's"
    and add_head :: "'s \<Rightarrow> addr \<Rightarrow> 's"
  assumes remove_rel: "rel s xs \<Longrightarrow> x \<noteq> NULL \<Longrightarrow>
      \<exists>s'. remove s x = Some (if x \<in> set xs then x else NULL, s') \<and> rel s' (remove1 x xs)"
    and add_next_rel: "rel s xs \<Longrightarrow> y \<in> set xs \<Longrightarrow> x \<notin> set xs \<Longrightarrow> x \<noteq> NULL \<Longrightarrow>
      rel (add_next s y x) (ll_add_next xs y x)"
    and add_head_rel: "rel s xs \<Longrightarrow> x \<notin> set xs \<Longrightarrow> x \<noteq> NULL \<Longrightarrow> rel (add_head s x) (x # xs)"
begin

lemma remove_then_add_tail:
  assumes "rel s xs" "x \<noteq> NULL"
  shows "\<exists>r s1 s2. remove s x = Some (r, s1) \<and> add_tail s1 x = Some s2 \<and> rel s2 (remove1 x xs @ [x])"
proof -
  from remove_rel [OF assms] obtain s1 where
    "remove s x = Some (if x \<in> set xs then x else NULL, s1)" "rel s1 (remove1 x xs)" by auto
  moreover have "x \<notin> set (remove1 x xs)" using rel_distinct [OF assms(1)] by simp
  ultimately show ?thesis using add_tail_rel assms(2) by (metis (no_types, lifting))
qed

lemma insert_remove_id:
  assumes "rel s xs" "y \<in> set xs" "x \<notin> set xs" "x \<noteq> NULL"
  shows "\<exists>s'. remove (add_next s y x) x = Some (x, s') \<and> rel s' xs"
proof -
  have "rel (add_next s y x) (ll_add_next xs y x)" using assms by (rule add_next_rel)
  moreover have "remove1 x (ll_add_next xs y x) = xs" using assms(2,3) by (induction xs) auto
  moreover have "x \<in> set (ll_add_next xs y x)" using assms(2) by (simp add: set_ll_add_next)
  ultimately show ?thesis using remove_rel assms(4) by (metis (full_types))
qed

end

text \<open>The providers: \<open>linked_t\<close> and \<open>fifo_t\<close> over the link memory.\<close>

definition lk_rel :: "links \<times> linked_t \<Rightarrow> addr list \<Rightarrow> bool" where
  "lk_rel = (\<lambda>(nx, ll) xs. linked_rel nx ll xs)"

definition lk_add_tail :: "links \<times> linked_t \<Rightarrow> addr \<Rightarrow> (links \<times> linked_t) option" where
  "lk_add_tail = (\<lambda>(nx, ll) x. linked_add_tail nx ll x)"

definition lk_head :: "links \<times> linked_t \<Rightarrow> addr" where
  "lk_head = (\<lambda>(nx, ll). linked_head ll)"

definition lk_remove_head :: "links \<times> linked_t \<Rightarrow> links \<times> linked_t" where
  "lk_remove_head = (\<lambda>(nx, ll). (nx, linked_remove_head nx ll))"

definition lk_remove :: "links \<times> linked_t \<Rightarrow> addr \<Rightarrow> (addr \<times> links \<times> linked_t) option" where
  "lk_remove = (\<lambda>(nx, ll) x. linked_remove nx ll x)"

definition lk_add_next :: "links \<times> linked_t \<Rightarrow> addr \<Rightarrow> addr \<Rightarrow> links \<times> linked_t" where
  "lk_add_next = (\<lambda>(nx, ll) y x. linked_add_next nx ll y x)"

definition lk_add_head :: "links \<times> linked_t \<Rightarrow> addr \<Rightarrow> links \<times> linked_t" where
  "lk_add_head = (\<lambda>(nx, ll) x. linked_add_head nx ll x)"

definition ff_rel :: "links \<times> fifo_t \<Rightarrow> addr list \<Rightarrow> bool" where
  "ff_rel = (\<lambda>(nx, ll) xs. fifo_rel nx ll xs)"

definition ff_queue :: "links \<times> fifo_t \<Rightarrow> addr \<Rightarrow> (links \<times> fifo_t) option" where
  "ff_queue = (\<lambda>(nx, ll) x. Some (fifo_queue nx ll x))"

definition ff_first :: "links \<times> fifo_t \<Rightarrow> addr" where
  "ff_first = (\<lambda>(nx, ll). fifo_first ll)"

definition ff_dequeue :: "links \<times> fifo_t \<Rightarrow> links \<times> fifo_t" where
  "ff_dequeue = (\<lambda>(nx, ll). (nx, snd (fifo_dequeue nx ll)))"

lemmas lk_defs = lk_rel_def lk_add_tail_def lk_head_def lk_remove_head_def lk_remove_def
  lk_add_next_def lk_add_head_def

lemmas ff_defs = ff_rel_def ff_queue_def ff_first_def ff_dequeue_def

lemma is_list_head: "is_list nx p xs \<Longrightarrow> p = ll_head xs"
  by (cases xs) auto

interpretation lk: list_contract lk_rel lk_add_tail lk_head lk_remove_head lk_remove lk_add_next
  lk_add_head
proof (unfold_locales, goal_cases)
  case (1 s xs) then show ?case by (auto simp: lk_defs linked_rel_def intro: is_list_distinct)
next
  case (2 s xs x) then show ?case using linked_add_tail_rel by (auto simp: lk_defs list_ops)
next
  case (3 s xs) then show ?case by (auto simp: lk_defs linked_rel_def linked_head_def dest: is_list_head)
next
  case (4 s xs) then show ?case using linked_remove_head_rel by (auto simp: lk_defs list_ops)
next
  case (5 s xs x) then show ?case using linked_remove_rel [of "fst s" "snd s" xs x]
    by (auto simp: lk_defs list_ops split: prod.splits if_splits)
next
  case (6 s xs y x)
  then show ?case using linked_add_next_rel [of "fst s" "snd s" xs y x]
    by (cases "linked_add_next (fst s) (snd s) y x") (auto simp: lk_defs split: prod.splits)
next
  case (7 s xs x)
  then show ?case using linked_add_head_rel [of "fst s" "snd s" xs x]
    by (cases "linked_add_head (fst s) (snd s) x") (auto simp: lk_defs list_ops split: prod.splits)
qed

interpretation ff: queue_contract ff_rel ff_queue ff_first ff_dequeue
proof (unfold_locales, goal_cases)
  case (1 s xs) then show ?case by (auto simp: ff_defs fifo_rel_def intro: is_list_distinct)
next
  case (2 s xs x)
  then show ?case using fifo_queue_rel [of "fst s" "snd s" xs x]
    by (cases "fifo_queue (fst s) (snd s) x") (auto simp: ff_defs list_ops split: prod.splits)
next
  case (3 s xs) then show ?case by (auto simp: ff_defs fifo_rel_def fifo_first_def dest: is_list_head)
next
  case (4 s xs)
  then show ?case using fifo_dequeue_rel [of "fst s" "snd s" xs]
    by (cases "fifo_dequeue (fst s) (snd s)") (auto simp: ff_defs list_ops split: prod.splits)
qed

section \<open>Properties\<close>

text \<open>The linked list is a FIFO when used with \<open>linked_add_tail\<close> and \<open>linked_remove_head\<close>: adding
  any distinct objects to an empty list in memory terminates, and taking heads returns exactly
  these objects in the order they were added.
\<close>

theorem linked_fifo_order:
  assumes "linked_rel nx ll []" and "distinct xs" and "NULL \<notin> set xs"
  shows "\<exists>s'. add_all lk_add_tail (nx, ll) xs = Some s' \<and>
     drain lk_head lk_remove_head (length xs) s' = xs"
  using assms lk.fifo_order [of "(nx, ll)" xs] by (simp add: lk_rel_def)

text \<open>
  C28: \<open>linked_remove\<close> ends on every well-formed list, returns the object if and only if it was a
  member (else NULL), and the memory afterwards holds the list without that object, with the tail
  pointer updated; the object can then be added again at the tail.
\<close>

theorem linked_remove_refines:
  assumes "linked_rel nx ll xs" and "obj \<noteq> NULL"
  shows "\<exists>nx' ll'. linked_remove nx ll obj = Some (if obj \<in> set xs then obj else NULL, nx', ll') \<and>
     linked_rel nx' ll' (remove1 obj xs) \<and>
     (\<exists>nx2 ll2. linked_add_tail nx' ll' obj = Some (nx2, ll2) \<and>
        linked_rel nx2 ll2 (remove1 obj xs @ [obj]))"
proof -
  obtain nx' ll' where r: "linked_remove nx ll obj = Some (if obj \<in> set xs then obj else NULL, nx', ll')"
    "linked_rel nx' ll' (remove1 obj xs)"
    using linked_remove_rel [OF assms] by (auto simp: list_ops)
  moreover have "obj \<notin> set (remove1 obj xs)"
    using lk.rel_distinct [of "(nx, ll)" xs] assms(1) by (simp add: lk_rel_def)
  ultimately show ?thesis using linked_add_tail_rel assms(2) by (auto simp: list_ops)
qed


theorem linked_fifo_order_witness:
  "linked_rel (\<lambda>_. NULL) \<lparr>l_head = NULL, l_tail = NULL\<rparr> [] \<and>
   (\<exists>s'. add_all lk_add_tail (\<lambda>_. NULL, \<lparr>l_head = NULL, l_tail = NULL\<rparr>) [3, 5, 4] = Some s' \<and>
      drain lk_head lk_remove_head 3 s' = [3, 5, 4])"
proof -
  have h: "linked_rel (\<lambda>_. NULL) \<lparr>l_head = NULL, l_tail = NULL\<rparr> []" by (simp add: linked_rel_def)
  from linked_fifo_order [OF h, of "[3, 5, 4]"] h show ?thesis by (simp add: eval_nat_numeral)
qed

theorem linked_remove_refines_witness:
  "\<exists>nx' ll'. linked_remove ((\<lambda>_. NULL)(7 := 9)) \<lparr>l_head = 7, l_tail = 9\<rparr> 9 = Some (9, nx', ll') \<and>
     linked_rel nx' ll' [7]"
proof -
  have h: "linked_rel ((\<lambda>_. NULL)(7 := 9)) \<lparr>l_head = 7, l_tail = 9\<rparr> [7, 9]"
    by (simp add: linked_rel_def)
  from linked_remove_refines [OF h, of 9] show ?thesis by auto
qed

end
