(* ===== verification/Rtclib.thy ===== *)
theory Rtclib
  imports Prelude "HOL-Library.Signed_Division"
begin

text \<open>
  The real time clock library, src/common/rtclib.c and include/qoraal/common/rtclib.h: calendar
  dates, Julian day numbers, time of day. A C division of signed values is \<open>sdiv\<close> (it truncates);
  unsigned 32-bit arithmetic is on words; the byte and half-word fields of the unions are words,
  so that an assignment truncates as in C. The current time (\<open>qoraal_current_time\<close>, supplied by the
  platform) is a parameter. The lemmas show that the closed formulas for Julian days count the days
  of the Gregorian calendar, and that the conversions are inverse to each other.
\<close>

section \<open>Data\<close>

record RTCLIB_DATE_T =
  d_day :: u8
  d_month :: u8
  d_year :: u16

record RTCLIB_TIME_T =
  t_second :: u8
  t_minute :: u8
  t_hour :: u8
  t_day :: u8

definition RTCLIB_EPOCH_GDAY :: u32 where
  "RTCLIB_EPOCH_GDAY = 2440588"

definition RTCLIB_SET_ALARM_MAX :: u32 where
  "RTCLIB_SET_ALARM_MAX = (604800 div 2) - 1"

text \<open>The words \<open>RTCLOCK_FIRST_DATE = 0x07DC0C16\<close> and \<open>RTCLOCK_FIRST_TIME = 0\<close> through the unions.\<close>

definition RTCLOCK_FIRST_DATE :: RTCLIB_DATE_T where
  "RTCLOCK_FIRST_DATE = \<lparr>d_day = 0x16, d_month = 0x0C, d_year = 0x07DC\<rparr>"

definition RTCLOCK_FIRST_TIME :: RTCLIB_TIME_T where
  "RTCLOCK_FIRST_TIME = \<lparr>t_second = 0, t_minute = 0, t_hour = 0, t_day = 0\<rparr>"

section \<open>Operations\<close>

definition rtc_get_jday :: "RTCLIB_DATE_T \<Rightarrow> int" where
  "rtc_get_jday d =
     (let I = uint (d_year d); J = uint (d_month d); K = uint (d_day d)
      in K - 32075 + (1461 * (I + 4800 + (J - 14) sdiv 12)) sdiv 4 +
         (367 * (J - 2 - ((J - 14) sdiv 12) * 12)) sdiv 12 -
         (3 * ((I + 4900 + (J - 14) sdiv 12) sdiv 100)) sdiv 4)"

definition rtc_get_gdate :: "u32 \<Rightarrow> RTCLIB_DATE_T" where
  "rtc_get_gdate jday =
     (let L = sint (jday + 68569);
          N = (4 * L) sdiv 146097;
          L = L - (146097 * N + 3) sdiv 4;
          I = (4000 * (L + 1)) sdiv 1461001;
          L = L - (1461 * I) sdiv 4 + 31;
          J = (80 * L) sdiv 2447;
          K = L - (2447 * J) sdiv 80;
          L = J sdiv 11;
          J = J + 2 - 12 * L;
          I = 100 * (N - 49) + I + L
      in \<lparr>d_day = word_of_int K, d_month = word_of_int J, d_year = word_of_int I\<rparr>)"

text \<open>A NULL output pointer is \<open>None\<close>: the corresponding output is not written.\<close>

definition rtc_localtime ::
    "u32 \<Rightarrow> RTCLIB_DATE_T option \<Rightarrow> RTCLIB_TIME_T option \<Rightarrow>
     RTCLIB_DATE_T option \<times> RTCLIB_TIME_T option" where
  "rtc_localtime timestamp date time =
     (let date' = map_option (\<lambda>_.
            let day = timestamp div (24 * 60 * 60) + RTCLIB_EPOCH_GDAY in rtc_get_gdate day) date;
          time' = map_option (\<lambda>_.
            let seconds = timestamp mod (24 * 60 * 60);
                hour = ucast (seconds div (60 * 60)) :: u8;
                minute = ucast ((seconds - ucast hour * 60 * 60) div 60) :: u8;
                second = ucast (seconds - ucast hour * 60 * 60 - ucast minute * 60) :: u8
            in \<lparr>t_second = second, t_minute = minute, t_hour = hour, t_day = 0\<rparr>) time
      in (date', time'))"

definition rtc_get_time :: "u32 \<Rightarrow> RTCLIB_TIME_T" where
  "rtc_get_time current = the (snd (rtc_localtime current None (Some RTCLOCK_FIRST_TIME)))"

definition rtc_get_date :: "u32 \<Rightarrow> RTCLIB_DATE_T" where
  "rtc_get_date current = the (fst (rtc_localtime current (Some RTCLOCK_FIRST_DATE) None))"

definition rtc_mktime :: "RTCLIB_DATE_T \<Rightarrow> RTCLIB_TIME_T \<Rightarrow> u32" where
  "rtc_mktime date time =
     (let days = word_of_int (rtc_get_jday date) :: u32;
          days = (if days > RTCLIB_EPOCH_GDAY then days - RTCLIB_EPOCH_GDAY else 0)
      in days * 24 * 60 * 60 + ucast (t_hour time) * 60 * 60 + ucast (t_minute time) * 60 +
         ucast (t_second time))"

definition rtc_time_add :: "RTCLIB_TIME_T \<Rightarrow> u32 \<Rightarrow> RTCLIB_TIME_T" where
  "rtc_time_add from0 secs =
     (let secs = (if secs > RTCLIB_SET_ALARM_MAX then RTCLIB_SET_ALARM_MAX else secs);
          minutes = secs div 60;
          hours = minutes div 60;
          days = hours div 24;
          secs = secs mod 60;
          minutes = minutes mod 60;
          hours = hours mod 24;
          second = ucast (ucast (t_second from0) + secs) :: u8;
          minute = ucast (ucast (t_minute from0) + (minutes + ucast second div 60)) :: u8;
          hour = ucast (ucast (t_hour from0) + (hours + ucast minute div 60)) :: u8;
          day = ucast (ucast (t_day from0) + (days + ucast hour div 24)) :: u8
      in \<lparr>t_second = second mod 60, t_minute = minute mod 60, t_hour = hour mod 24, t_day = day\<rparr>)"

definition rtc_time_compare :: "RTCLIB_TIME_T \<Rightarrow> RTCLIB_TIME_T \<Rightarrow> int" where
  "rtc_time_compare time1 time2 =
     (if t_hour time2 = t_hour time1 then
        if t_minute time2 = t_minute time1 then uint (t_second time2) - uint (t_second time1)
        else (uint (t_minute time2) - uint (t_minute time1)) * 60
      else (uint (t_hour time2) - uint (t_hour time1)) * 60 * 60)"

definition rtc_seconds_diff :: "RTCLIB_TIME_T \<Rightarrow> RTCLIB_TIME_T \<Rightarrow> u32" where
  "rtc_seconds_diff time1 time2 =
     (let seconds = (uint (t_hour time2) - uint (t_hour time1)) * 60 * 60 +
                    (uint (t_minute time2) - uint (t_minute time1)) * 60 +
                    (uint (t_second time2) - uint (t_second time1))
      in if seconds < 0 then
           (let seconds = (24 - uint (t_hour time1)) * 60 * 60 +
                          (60 - uint (t_minute time1)) * 60 +
                          (60 - uint (t_second time1));
                seconds = seconds + (uint (t_hour time2) * 60 * 60 +
                          uint (t_minute time2) * 60 + uint (t_second time2))
            in word_of_int seconds)
         else word_of_int seconds)"

definition rtc_days_diff :: "RTCLIB_DATE_T \<Rightarrow> RTCLIB_DATE_T \<Rightarrow> int" where
  "rtc_days_diff date1 date2 =
     (if date1 = date2 then 0 else rtc_get_jday date2 - rtc_get_jday date1)"

definition rtc_date_compare :: "RTCLIB_DATE_T \<Rightarrow> RTCLIB_DATE_T \<Rightarrow> int" where
  "rtc_date_compare date1 date2 =
     (if d_year date2 = d_year date1 then
        if d_month date2 = d_month date1 then uint (d_day date2) - uint (d_day date1)
        else uint (d_month date2) - uint (d_month date1)
      else uint (d_year date2) - uint (d_year date1))"

text \<open>The two reads of the current time are separate parameters.\<close>

definition rtc_seconds_elapsed :: "u32 \<Rightarrow> u32 \<Rightarrow> RTCLIB_DATE_T \<Rightarrow> RTCLIB_TIME_T \<Rightarrow> u32" where
  "rtc_seconds_elapsed current1 current2 date time =
     (let today = rtc_get_date current1; now = rtc_get_time current2;
          cmp = rtc_date_compare date today
      in if cmp < 0 then 0
         else if cmp = 0 \<and> rtc_time_compare time now \<le> 0 then 0
         else (let seconds = rtc_mktime date time; seconds2 = rtc_mktime today now
               in if seconds2 \<le> seconds then 0 else seconds2 - seconds))"

definition rtc_time :: "u32 \<Rightarrow> u32" where
  "rtc_time now = (if now = 0 then rtc_mktime RTCLOCK_FIRST_DATE RTCLOCK_FIRST_TIME else now)"

section \<open>The Gregorian calendar\<close>

text \<open>The reference: days counted year by year and month by month.\<close>

definition leap_year :: "nat \<Rightarrow> bool" where
  "leap_year y \<longleftrightarrow> 4 dvd y \<and> (\<not> 100 dvd y \<or> 400 dvd y)"

definition month_days :: "nat \<Rightarrow> nat \<Rightarrow> nat" where
  "month_days y m = [31, if leap_year y then 29 else 28, 31, 30, 31, 30, 31, 31, 30, 31, 30, 31] ! (m - 1)"

fun days_before_year :: "nat \<Rightarrow> nat" where
  "days_before_year 0 = 0"
| "days_before_year (Suc y) = days_before_year y + (if leap_year y then 366 else 365)"

fun days_before_month :: "nat \<Rightarrow> nat \<Rightarrow> nat" where
  "days_before_month y 0 = 0"
| "days_before_month y (Suc 0) = 0"
| "days_before_month y (Suc (Suc m)) = days_before_month y (Suc m) + month_days y (Suc m)"

definition valid_date :: "RTCLIB_DATE_T \<Rightarrow> bool" where
  "valid_date d \<longleftrightarrow> 1 \<le> d_year d \<and> 1 \<le> d_month d \<and> d_month d \<le> 12 \<and> 1 \<le> d_day d \<and>
     unat (d_day d) \<le> month_days (unat (d_year d)) (unat (d_month d))"

text \<open>Days since 1 January of year 0 (proleptic Gregorian), which is Julian day 1721060.\<close>

definition civil_days :: "RTCLIB_DATE_T \<Rightarrow> nat" where
  "civil_days d = days_before_year (unat (d_year d)) +
     days_before_month (unat (d_year d)) (unat (d_month d)) + unat (d_day d) - 1"

lemma days_before_year_closed:
  "days_before_year (Suc y) = 365 * Suc y + y div 4 + y div 400 + 1 - y div 100"
proof (induction y)
  case (Suc y)
  have "Suc y div 4 = y div 4 + (if 4 dvd Suc y then 1 else 0)"
    "Suc y div 100 = y div 100 + (if 100 dvd Suc y then 1 else 0)"
    "Suc y div 400 = y div 400 + (if 400 dvd Suc y then 1 else 0)"
    by (simp_all add: div_Suc dvd_eq_mod_eq_0)
  moreover have "y div 100 \<le> y div 4" by (rule div_le_mono2) simp_all
  moreover have "100 dvd Suc y \<Longrightarrow> 4 dvd Suc y" by (rule dvd_trans [of 4 100]) simp_all
  moreover have "400 dvd Suc y \<Longrightarrow> 100 dvd Suc y" by (rule dvd_trans [of 100 400]) simp_all
  moreover have "days_before_year (Suc (Suc y)) =
      days_before_year (Suc y) + (if leap_year (Suc y) then 366 else 365)" by simp
  ultimately show ?case unfolding Suc leap_year_def by (simp split: if_splits)
qed (simp add: leap_year_def)

lemma sdiv_nonneg: "0 \<le> a \<Longrightarrow> 0 < b \<Longrightarrow> (a::int) sdiv b = a div b"
  by (cases "a = 0") (simp_all add: signed_divide_int_def)

lemma sdiv_small_neg: "- b < a \<Longrightarrow> a \<le> 0 \<Longrightarrow> (a::int) sdiv b = 0"
  by (cases "a = 0") (simp_all add: signed_divide_int_def)


text \<open>The Julian day formula, by month.\<close>

definition jday_year_part :: "int \<Rightarrow> int" where
  "jday_year_part y = (1461 * (y + 4800)) div 4 - (3 * ((y + 4900) div 100)) div 4"

lemma rtc_get_jday_by_month:
  assumes "1 \<le> d_month d" "d_month d \<le> 12"
  shows "rtc_get_jday d = uint (d_day d) - 32075 +
     (if d_month d \<le> 2 then jday_year_part (uint (d_year d) - 1) + (367 * (uint (d_month d) + 10)) div 12
      else jday_year_part (uint (d_year d)) + (367 * (uint (d_month d) - 2)) div 12)"
proof -
  define J where "J = uint (d_month d)"
  have J: "1 \<le> J" "J \<le> 12" using assms by (simp_all add: J_def word_le_def)
  have s: "(J - 14) sdiv 12 = (if J \<le> 2 then - 1 else 0)"
  proof (cases "J \<le> 2")
    case True
    with J have "J = 1 \<or> J = 2" by auto
    then show ?thesis by (auto simp: signed_divide_int_def)
  qed (use J sdiv_small_neg in auto)
  have c: "d_month d \<le> 2 \<longleftrightarrow> J \<le> 2" by (simp add: J_def word_le_def)
  have Y: "0 \<le> uint (d_year d)" by simp
  show ?thesis unfolding rtc_get_jday_def Let_def J_def [symmetric] s c jday_year_part_def
    using J Y by (simp add: sdiv_nonneg algebra_simps pos_imp_zdiv_nonneg_iff)
qed


lemma div_bounds:
  fixes a :: int
  assumes "0 < b"
  shows "b * (a div b) \<le> a" "a < b * (a div b) + b"
  using pos_mod_bound [OF assms, of a] pos_mod_sign [OF assms, of a] minus_mod_eq_mult_div [of a b]
  by linarith+

lemma upto12:
  fixes m :: int
  assumes "1 \<le> m" "m \<le> 12"
  shows "m = 1 \<or> m = 2 \<or> m = 3 \<or> m = 4 \<or> m = 5 \<or> m = 6 \<or> m = 7 \<or> m = 8 \<or> m = 9 \<or>
      m = 10 \<or> m = 11 \<or> m = 12"
  using assms by arith

lemma jday_year_part_closed:
  assumes "0 \<le> y"
  shows "jday_year_part y = 365 * y + y div 4 - y div 100 + y div 400 + 1753164"
proof -
  have "(1461 * (y + 4800)) div 4 = 365 * y + y div 4 + 1753200" by simp
  moreover have "(y + 4900) div 100 = y div 100 + 49" by simp
  moreover have "(3 * (c + 49)) div 4 = c - c div 4 + 36" for c :: int
    using div_bounds [of 4 c] div_bounds [of 4 "3 * c + 147"] by simp
  moreover have "y div 400 = y div 100 div 4" by (simp add: zdiv_zmult2_eq)
  ultimately show ?thesis by (simp add: jday_year_part_def)
qed

lemma days_before_month_closed:
  assumes "1 \<le> m" "m \<le> 12"
  shows "int (days_before_month y m) =
     (if m \<le> 2 then (367 * (int m + 10)) div 12 - 336
      else (367 * (int m - 2)) div 12 + (if leap_year y then 30 else 29))"
proof -
  have "m = 1 \<or> m = 2 \<or> m = 3 \<or> m = 4 \<or> m = 5 \<or> m = 6 \<or> m = 7 \<or> m = 8 \<or> m = 9 \<or>
      m = 10 \<or> m = 11 \<or> m = 12"
    using assms by arith
  then show ?thesis
    by (elim disjE) (simp_all add: eval_nat_numeral month_days_def)
qed

lemma days_before_year_int:
  "int (days_before_year (Suc y)) = 365 * int y + int y div 4 + int y div 400 + 366 - int y div 100"
proof -
  have "y div 100 \<le> y div 4" by (rule div_le_mono2) simp_all
  then show ?thesis unfolding days_before_year_closed by (simp add: zdiv_int of_nat_diff)
qed

lemma jday_counts_days:
  assumes "valid_date d"
  shows "rtc_get_jday d = 1721060 + int (civil_days d)"
proof -
  define y where "y = unat (d_year d)"
  define mo where "mo = unat (d_month d)"
  have v: "1 \<le> y" "1 \<le> mo" "mo \<le> 12" "1 \<le> unat (d_day d)"
    using assms by (simp_all add: valid_date_def word_le_nat_alt y_def mo_def)
  have u: "uint (d_year d) = int y" "uint (d_month d) = int mo"
    by (simp_all add: y_def mo_def)
  have c: "d_month d \<le> 2 \<longleftrightarrow> mo \<le> 2" by (simp add: mo_def word_le_nat_alt)
  obtain y' where y': "y = Suc y'" using v by (cases y) auto
  have civ: "int (civil_days d) = int (days_before_year y) + int (days_before_month y mo) +
      uint (d_day d) - 1"
    using v by (simp add: civil_days_def y_def mo_def of_nat_diff)
  show ?thesis
  proof (cases "mo \<le> 2")
    case True
    have "rtc_get_jday d = uint (d_day d) - 32075 + jday_year_part (int y') +
        (367 * (int mo + 10)) div 12"
      using assms True y' by (simp add: rtc_get_jday_by_month valid_date_def c u)
    moreover have "jday_year_part (int y') =
        365 * int y' + int y' div 4 - int y' div 100 + int y' div 400 + 1753164"
      by (rule jday_year_part_closed) simp
    moreover have "int (days_before_month y mo) = (367 * (int mo + 10)) div 12 - 336"
      unfolding days_before_month_closed [OF v(2,3)] using True by simp
    moreover have "int (days_before_year y) =
        365 * int y' + int y' div 4 + int y' div 400 + 366 - int y' div 100"
      unfolding y' by (rule days_before_year_int)
    ultimately show ?thesis using civ by linarith
  next
    case False
    have "rtc_get_jday d = uint (d_day d) - 32075 + jday_year_part (int y) +
        (367 * (int mo - 2)) div 12"
      using assms False by (simp add: rtc_get_jday_by_month valid_date_def c u)
    moreover have "int (days_before_year (Suc y)) =
        int (days_before_year y) + (if leap_year y then 366 else 365)" by simp
    moreover have "jday_year_part (int y) =
        365 * int y + int y div 4 - int y div 100 + int y div 400 + 1753164"
      by (rule jday_year_part_closed) simp
    moreover have "int (days_before_month y mo) =
        (367 * (int mo - 2)) div 12 + (if leap_year y then 30 else 29)"
      unfolding days_before_month_closed [OF v(2,3)] using False by simp
    ultimately show ?thesis using civ days_before_year_int [of y] by (auto split: if_splits)
  qed
qed

section \<open>From Julian days back to dates\<close>

text \<open>The steps of \<open>rtc_get_gdate\<close> on integers, each with its range.\<close>

lemma century_step:
  fixes L :: int
  assumes "0 \<le> L" and N: "N = (4 * L) div 146097"
  shows "0 \<le> L - (146097 * N + 3) div 4" "L - (146097 * N + 3) div 4 \<le> 36524"
  using div_bounds [of 146097 "4 * L"] div_bounds [of 4 "146097 * N + 3"] assms by linarith+

lemma year_step:
  fixes L :: int
  assumes "0 \<le> L" "L \<le> 36524" and I: "I = (4000 * (L + 1)) div 1461001"
  shows "0 \<le> I \<and> I \<le> 99 \<and> 31 \<le> L - (1461 * I) div 4 + 31 \<and> L - (1461 * I) div 4 + 31 \<le> 396"
proof -
  have a: "1461001 * I \<le> 4000 * L + 4000" "4000 * L + 4000 < 1461001 * I + 1461001"
    using div_bounds [of 1461001 "4000 * L + 4000"] by (simp_all add: I)
  have b: "4 * ((1461 * I) div 4) \<le> 1461 * I" "1461 * I < 4 * ((1461 * I) div 4) + 4"
    by (rule div_bounds; simp)+
  have "0 \<le> I" "I \<le> 99" using a assms(1,2) by linarith+
  moreover have "31 \<le> L - (1461 * I) div 4 + 31" "L - (1461 * I) div 4 + 31 \<le> 396"
    using a b assms(1,2) by linarith+
  ultimately show ?thesis by blast
qed

lemma month_step:
  fixes L :: int
  assumes "31 \<le> L" "L \<le> 396" and J: "J = (80 * L) div 2447"
  shows "1 \<le> J \<and> J \<le> 12 \<and> 1 \<le> L - (2447 * J) div 80 \<and> L - (2447 * J) div 80 \<le> 31 \<and>
     (2447 * J) div 80 = (367 * J) div 12"
proof -
  have a: "2447 * J \<le> 80 * L" "80 * L < 2447 * J + 2447"
    unfolding J by (rule div_bounds; simp)+
  with assms(1,2) have j: "1 \<le> J" "J \<le> 12" by linarith+
  from upto12 [OF j] show ?thesis using a by (elim disjE) simp_all
qed


lemma gdate_parts:
  assumes "1721120 \<le> uint jday" "uint jday \<le> 5373484"
  obtains N I J K :: int where
    "rtc_get_gdate jday = \<lparr>d_day = word_of_int K, d_month = word_of_int (J + 2 - 12 * (J div 11)),
       d_year = word_of_int (100 * (N - 49) + I + J div 11)\<rparr>"
    "49 \<le> N" "N \<le> 149" "0 \<le> I" "I \<le> 99" "1 \<le> J" "J \<le> 12" "1 \<le> K" "K \<le> 31"
    "uint jday + 68569 = (146097 * N + 3) div 4 + (1461 * I) div 4 - 31 + (367 * J) div 12 + K"
proof -
  define L0 where "L0 = uint jday + 68569"
  define N where "N = (4 * L0) div 146097"
  define L1 where "L1 = L0 - (146097 * N + 3) div 4"
  define I where "I = (4000 * (L1 + 1)) div 1461001"
  define L2 where "L2 = L1 - (1461 * I) div 4 + 31"
  define J where "J = (80 * L2) div 2447"
  define K where "K = L2 - (2447 * J) div 80"
  have L0: "1789689 \<le> L0" "L0 \<le> 5442053" using assms by (simp_all add: L0_def)
  have sL: "sint (jday + 68569) = L0"
  proof -
    have "uint (jday + 68569) = L0" using assms by (simp add: L0_def uint_word_ariths)
    then show ?thesis using L0 by (simp add: sint_uint signed_take_bit_int_eq_self)
  qed
  have N: "49 \<le> N" "N \<le> 149"
    using L0 div_bounds [of 146097 "4 * L0"] by (simp_all add: N_def)
  have L1: "0 \<le> L1" "L1 \<le> 36524" using century_step [of L0 N] L0 by (simp_all add: L1_def N_def)
  have I: "0 \<le> I" "I \<le> 99" "31 \<le> L2" "L2 \<le> 396"
    using year_step [OF L1 I_def] by (simp_all add: L2_def)
  have J: "1 \<le> J" "J \<le> 12" "1 \<le> K" "K \<le> 31" "(2447 * J) div 80 = (367 * J) div 12"
    using month_step [OF I(3,4) J_def] by (simp_all add: K_def)
  have sN: "(4 * L0) sdiv 146097 = N" using L0 by (simp add: N_def sdiv_nonneg)
  have sL1: "L0 - (146097 * N + 3) sdiv 4 = L1" using N by (simp add: L1_def sdiv_nonneg)
  have sI: "(4000 * (L1 + 1)) sdiv 1461001 = I" using L1 by (simp add: I_def sdiv_nonneg)
  have sL2: "L1 - (1461 * I) sdiv 4 + 31 = L2" using I by (simp add: L2_def sdiv_nonneg)
  have sJ: "(80 * L2) sdiv 2447 = J" using I by (simp add: J_def sdiv_nonneg)
  have sK: "L2 - (2447 * J) sdiv 80 = K" using J by (simp add: K_def sdiv_nonneg)
  have sM: "J sdiv 11 = J div 11" using J by (simp add: sdiv_nonneg)
  have "rtc_get_gdate jday = \<lparr>d_day = word_of_int K, d_month = word_of_int (J + 2 - 12 * (J div 11)),
       d_year = word_of_int (100 * (N - 49) + I + J div 11)\<rparr>"
    by (simp only: rtc_get_gdate_def Let_def sL sN sL1 sI sL2 sJ sK sM)
  moreover have "uint jday + 68569 =
      (146097 * N + 3) div 4 + (1461 * I) div 4 - 31 + (367 * J) div 12 + K"
    using J(5) by (simp add: K_def L2_def L1_def L0_def)
  ultimately show thesis using that N I J by blast
qed

lemma month_of_index:
  assumes "1 \<le> J" "J \<le> (12::int)"
  shows "1 \<le> J + 2 - 12 * (J div 11) \<and> J + 2 - 12 * (J div 11) \<le> 12 \<and>
     (J + 2 - 12 * (J div 11) \<le> 2 \<longleftrightarrow> J div 11 = 1) \<and> (J div 11 = 0 \<or> J div 11 = 1)"
  using upto12 [OF assms] by (elim disjE) simp_all

lemma uint_of_int_u8: "0 \<le> k \<Longrightarrow> k < 256 \<Longrightarrow> uint (word_of_int k :: u8) = k"
  by (simp add: uint_word_of_int)

lemma uint_of_int_u16: "0 \<le> k \<Longrightarrow> k < 65536 \<Longrightarrow> uint (word_of_int k :: u16) = k"
  by (simp add: uint_word_of_int)

lemma jday_gdate:
  assumes "1721120 \<le> uint jday" "uint jday \<le> 5373484"
  shows "rtc_get_jday (rtc_get_gdate jday) = uint jday"
proof -
  obtain N I J K :: int where g:
    "rtc_get_gdate jday = \<lparr>d_day = word_of_int K, d_month = word_of_int (J + 2 - 12 * (J div 11)),
       d_year = word_of_int (100 * (N - 49) + I + J div 11)\<rparr>"
    and r: "49 \<le> N" "N \<le> 149" "0 \<le> I" "I \<le> 99" "1 \<le> J" "J \<le> 12" "1 \<le> K" "K \<le> 31"
    and jd: "uint jday + 68569 =
      (146097 * N + 3) div 4 + (1461 * I) div 4 - 31 + (367 * J) div 12 + K"
    using gdate_parts [OF assms] by metis
  define Y where "Y = 100 * (N - 49) + I"
  define Q where "Q = J div 11"
  define M where "M = J + 2 - 12 * Q"
  define W where "W = Y + Q"
  have mo: "1 \<le> M" "M \<le> 12" "M \<le> 2 \<longleftrightarrow> Q = 1" "Q = 0 \<or> Q = 1"
    using month_of_index [OF r(5,6)] by (simp_all add: M_def Q_def)
  have Y: "0 \<le> Y" "Y \<le> 10099" using r by (simp_all add: Y_def)
  have g': "rtc_get_gdate jday = \<lparr>d_day = word_of_int K, d_month = word_of_int M, d_year = word_of_int W\<rparr>"
    unfolding g M_def W_def Q_def Y_def by (rule refl)
  have um: "uint (word_of_int M :: u8) = M" using mo by (intro uint_of_int_u8) auto
  have uk: "uint (word_of_int K :: u8) = K" using r by (intro uint_of_int_u8) auto
  have uy: "uint (word_of_int W :: u16) = W" unfolding W_def using mo Y by (intro uint_of_int_u16) auto
  have "jday_year_part Y = 36525 * N + (1461 * I) div 4 - 36525 - (3 * N) div 4"
  proof -
    have "1461 * (Y + 4800) = 4 * (36525 * N - 36525) + 1461 * I" by (simp add: Y_def)
    then have "(1461 * (Y + 4800)) div 4 = 36525 * N - 36525 + (1461 * I) div 4" by simp
    moreover have "(Y + 4900) div 100 = N"
    proof -
      have "Y + 4900 = 100 * N + I" by (simp add: Y_def)
      then show ?thesis using r by (simp add: div_mult_self4)
    qed
    ultimately show ?thesis by (simp add: jday_year_part_def)
  qed
  moreover have "(146097 * N + 3) div 4 = 36525 * N - (3 * N) div 4"
    using div_bounds [of 4 "146097 * N + 3"] div_bounds [of 4 "3 * N"] by simp
  moreover have "rtc_get_jday (rtc_get_gdate jday) =
      K - 32075 + jday_year_part Y + (367 * J) div 12"
  proof -
    have w: "d_month (rtc_get_gdate jday) \<le> 2 \<longleftrightarrow> M \<le> 2"
      "1 \<le> d_month (rtc_get_gdate jday)" "d_month (rtc_get_gdate jday) \<le> 12"
      using mo by (simp_all add: g' word_le_def um)
    have "J = M - 2 + 12 * Q" by (simp add: M_def)
    moreover have "uint (d_month (rtc_get_gdate jday)) = M" "uint (d_day (rtc_get_gdate jday)) = K"
      by (simp_all add: g' um uk)
    moreover have "uint (d_year (rtc_get_gdate jday)) = W" by (simp add: g' uy)
    then have "uint (d_year (rtc_get_gdate jday)) = Y + Q" unfolding W_def .
    ultimately show ?thesis
      unfolding rtc_get_jday_by_month [OF w(2,3)] w(1)
      using mo by auto
  qed
  ultimately show ?thesis using jd by linarith
qed


section \<open>Times of day\<close>

definition valid_time :: "RTCLIB_TIME_T \<Rightarrow> bool" where
  "valid_time t \<longleftrightarrow> t_hour t < 24 \<and> t_minute t < 60 \<and> t_second t < 60"

definition day_seconds :: "RTCLIB_TIME_T \<Rightarrow> nat" where
  "day_seconds t = unat (t_hour t) * 3600 + unat (t_minute t) * 60 + unat (t_second t)"

lemma unat_ucast_small: "unat (x :: u32) < 256 \<Longrightarrow> unat (ucast x :: u8) = unat x"
  by (simp add: unsigned_ucast_eq take_bit_nat_eq_self)

lemma unat_ucast_up: "unat (ucast (x :: u8) :: u32) = unat x"
  by (simp add: unsigned_ucast_eq take_bit_nat_eq_self less_trans [OF unsigned_less])


lemma localtime_fields:
  fixes ts :: u32
  defines "n \<equiv> unat ts mod 86400"
  shows "unat (t_hour (rtc_get_time ts)) = n div 3600"
    "unat (t_minute (rtc_get_time ts)) = (n - n div 3600 * 3600) div 60"
    "unat (t_second (rtc_get_time ts)) = n - n div 3600 * 3600 - (n - n div 3600 * 3600) div 60 * 60"
proof -
  define s where "s = ts mod 86400"
  have s: "unat s = n" by (simp add: s_def n_def unat_mod)
  have n: "n < 86400" by (simp add: n_def)
  define h where "h = (ucast (s div 3600) :: u8)"
  have h: "unat h = n div 3600" using n by (simp add: h_def unat_ucast_small unat_div s)
  define r where "r = s - 3600 * ucast h"
  have uh: "unat (3600 * ucast h :: u32) = n div 3600 * 3600"
    using n by (simp add: unat_word_ariths unat_ucast_up h)
  have "n div 3600 * 3600 \<le> n" by simp
  then have r: "unat r = n - n div 3600 * 3600"
    unfolding r_def using uh s by (subst unat_sub) (simp_all add: word_le_nat_alt)
  define m where "m = (ucast (r div 60) :: u8)"
  have rb: "n - n div 3600 * 3600 < 3600" by (simp add: minus_div_mult_eq_mod)
  then have m: "unat m = (n - n div 3600 * 3600) div 60"
    by (simp add: m_def unat_ucast_small unat_div r)
  have um: "unat (ucast m * 60 :: u32) = (n - n div 3600 * 3600) div 60 * 60"
    using rb by (simp add: unat_word_ariths unat_ucast_up m)
  have sb: "unat (r - ucast m * 60) = n - n div 3600 * 3600 - (n - n div 3600 * 3600) div 60 * 60"
    using um r by (subst unat_sub) (simp_all add: word_le_nat_alt)
  moreover have "n - n div 3600 * 3600 - (n - n div 3600 * 3600) div 60 * 60 < 60"
    by (simp add: minus_div_mult_eq_mod)
  ultimately have sec: "unat (ucast (r - ucast m * 60) :: u8) =
      n - n div 3600 * 3600 - (n - n div 3600 * 3600) div 60 * 60"
    using unat_ucast_small [of "r - ucast m * 60"] by linarith
  have eq: "rtc_get_time ts =
      \<lparr>t_second = ucast (r - ucast m * 60), t_minute = m, t_hour = h, t_day = 0\<rparr>"
    by (simp add: rtc_get_time_def rtc_localtime_def Let_def s_def h_def m_def r_def)
  show "unat (t_hour (rtc_get_time ts)) = n div 3600"
    "unat (t_minute (rtc_get_time ts)) = (n - n div 3600 * 3600) div 60"
    "unat (t_second (rtc_get_time ts)) = n - n div 3600 * 3600 - (n - n div 3600 * 3600) div 60 * 60"
    by (simp_all add: eq h m sec)
qed

lemma day_seconds_localtime: "day_seconds (rtc_get_time ts) = unat ts mod 86400"
proof -
  define n where "n = unat ts mod 86400"
  have "n div 3600 * 3600 \<le> n" "(n - n div 3600 * 3600) div 60 * 60 \<le> n - n div 3600 * 3600" by simp_all
  then show ?thesis unfolding day_seconds_def localtime_fields n_def [symmetric] by linarith
qed

text \<open>Adding seconds to a time of day: each byte field takes a carry and never overflows.\<close>

lemma carry_field:
  fixes f :: u8 and k :: u32
  assumes "unat f + unat k < 256"
  shows "unat (ucast (ucast f + k) :: u8) = unat f + unat k"
proof -
  have "unat (ucast f + k) = unat f + unat k"
    using assms by (simp add: unat_word_ariths unat_ucast_up)
  with assms show ?thesis by (simp add: unat_ucast_small)
qed

lemma unat_numeral_u8: "unat (60 :: u8) = 60" "unat (24 :: u8) = 24"
  by simp_all

lemma time_add_total:
  assumes v: "valid_time t" and d: "unat (t_day t) < 250"
  shows "valid_time (rtc_time_add t secs) \<and>
     unat (t_day (rtc_time_add t secs)) * 86400 + day_seconds (rtc_time_add t secs) =
     unat (t_day t) * 86400 + day_seconds t + min (unat secs) 302399"
proof -
  define sc where "sc = (if secs > RTCLIB_SET_ALARM_MAX then RTCLIB_SET_ALARM_MAX else secs)"
  define S where "S = min (unat secs) 302399"
  have sc: "unat sc = S"
    by (auto simp: sc_def S_def RTCLIB_SET_ALARM_MAX_def word_less_nat_alt)
  have S: "S \<le> 302399" by (simp add: S_def)
  have b: "unat (t_hour t) < 24" "unat (t_minute t) < 60" "unat (t_second t) < 60"
    using v by (simp_all add: valid_time_def word_less_nat_alt)
  define se where "se = (ucast (ucast (t_second t) + sc mod 60) :: u8)"
  define mi where "mi = (ucast (ucast (t_minute t) + (sc div 60 mod 60 + ucast se div 60)) :: u8)"
  define ho where "ho = (ucast (ucast (t_hour t) + (sc div 60 div 60 mod 24 + ucast mi div 60)) :: u8)"
  define da where "da = (ucast (ucast (t_day t) + (sc div 60 div 60 div 24 + ucast ho div 24)) :: u8)"
  have eq: "rtc_time_add t secs =
      \<lparr>t_second = se mod 60, t_minute = mi mod 60, t_hour = ho mod 24, t_day = da\<rparr>"
    by (simp add: rtc_time_add_def Let_def sc_def [symmetric] se_def mi_def ho_def da_def)
  define s0 where "s0 = S mod 60"
  define m0 where "m0 = S div 60 mod 60"
  define h0 where "h0 = S div 60 div 60 mod 24"
  define d0 where "d0 = S div 60 div 60 div 24"
  have r: "s0 < 60" "m0 < 60" "h0 < 24" by (simp_all add: s0_def m0_def h0_def)
  have S1: "S = d0 * 86400 + h0 * 3600 + m0 * 60 + s0"
    using div_mult_mod_eq [of S 60] div_mult_mod_eq [of "S div 60" 60]
      div_mult_mod_eq [of "S div 60 div 60" 24]
    unfolding s0_def m0_def h0_def d0_def by linarith
  have d0: "d0 \<le> 3" using S S1 by linarith
  have se: "unat se = unat (t_second t) + s0"
    unfolding se_def using b(3) sc r by (subst carry_field) (simp_all add: unat_mod s0_def)
  have k1: "unat (sc div 60 mod 60 + ucast se div 60) = m0 + unat se div 60"
    using r se b by (subst unat_u32_add) (simp_all add: unat_div unat_mod sc m0_def [symmetric] unat_ucast_up)
  have mi: "unat mi = unat (t_minute t) + (m0 + unat se div 60)"
    unfolding mi_def using b r se k1 by (subst carry_field) (simp_all)
  have mib: "unat mi div 60 \<le> 2" using mi se b r by simp
  have k2: "unat (sc div 60 div 60 mod 24 + ucast mi div 60) = h0 + unat mi div 60"
    using r mib by (subst unat_u32_add) (simp_all add: unat_div unat_mod sc h0_def [symmetric] unat_ucast_up)
  have ho: "unat ho = unat (t_hour t) + (h0 + unat mi div 60)"
    unfolding ho_def using b r mib k2 by (subst carry_field) (simp_all)
  have hob: "unat ho div 24 \<le> 3" using ho mib b r by simp
  have k3: "unat (sc div 60 div 60 div 24 + ucast ho div 24) = d0 + unat ho div 24"
    using hob d0 by (subst unat_u32_add) (simp_all add: unat_div unat_mod sc d0_def [symmetric] unat_ucast_up)
  have da: "unat da = unat (t_day t) + (d0 + unat ho div 24)"
    unfolding da_def using d d0 hob k3 by (subst carry_field) (simp_all)
  have "valid_time (rtc_time_add t secs)"
    by (simp add: eq valid_time_def word_less_nat_alt unat_mod)
  moreover have "unat (t_day (rtc_time_add t secs)) * 86400 + day_seconds (rtc_time_add t secs) =
     unat (t_day t) * 86400 + day_seconds t + S"
  proof -
    have e: "a mod 60 + a div 60 * 60 = a" "a mod 24 + a div 24 * 24 = a" for a :: nat
      by simp_all
    show ?thesis
      unfolding eq day_seconds_def RTCLIB_TIME_T.simps
      using se mi ho da S1 e(1) [of "unat se"] e(1) [of "unat mi"] e(2) [of "unat ho"]
      unfolding unat_mod unat_numeral_u8 by linarith
  qed
  ultimately show ?thesis unfolding S_def ..
qed

lemma mktime_localtime: "rtc_mktime (rtc_get_date ts) (rtc_get_time ts) = ts"
proof -
  define d where "d = unat ts div 86400"
  have d: "d \<le> 49710" using u32_less [of ts] unfolding d_def by simp
  have u: "uint (ts div 86400 + RTCLIB_EPOCH_GDAY) = int d + 2440588"
  proof -
    have "unat (ts div 86400 + RTCLIB_EPOCH_GDAY) = d + 2440588"
      unfolding RTCLIB_EPOCH_GDAY_def using d
      by (subst unat_u32_add) (simp_all add: unat_div d_def [symmetric])
    then have "int (unat (ts div 86400 + RTCLIB_EPOCH_GDAY)) = int d + 2440588" by simp
    then show ?thesis by simp
  qed
  have "rtc_get_date ts = rtc_get_gdate (ts div 86400 + RTCLIB_EPOCH_GDAY)"
    by (simp add: rtc_get_date_def rtc_localtime_def)
  then have j: "rtc_get_jday (rtc_get_date ts) = int d + 2440588"
    using jday_gdate [of "ts div 86400 + RTCLIB_EPOCH_GDAY"] d unfolding u by simp
  have w: "(word_of_int (int d + 2440588) :: u32) = of_nat d + 2440588" by simp
  have un: "unat (of_nat d + 2440588 :: u32) = d + 2440588"
    using d by (simp add: unat_word_ariths unat_of_nat)
  have days: "(let days = word_of_int (rtc_get_jday (rtc_get_date ts)) :: u32 in
      if days > RTCLIB_EPOCH_GDAY then days - RTCLIB_EPOCH_GDAY else 0) = of_nat d"
    unfolding j w Let_def
    using un by (auto simp: RTCLIB_EPOCH_GDAY_def word_less_nat_alt)
  define t where "t = rtc_get_time ts"
  have "rtc_mktime (rtc_get_date ts) t =
      of_nat d * 24 * 60 * 60 + of_nat (unat (t_hour t)) * 60 * 60 + of_nat (unat (t_minute t)) * 60 +
      of_nat (unat (t_second t))"
    unfolding rtc_mktime_def using days by (simp add: Let_def)
  also have "\<dots> = of_nat (d * 86400 + day_seconds t)"
    by (simp add: day_seconds_def algebra_simps)
  also have "d * 86400 + day_seconds t = unat ts"
    by (simp add: t_def day_seconds_localtime d_def)
  finally show ?thesis by (simp add: t_def)
qed

lemma day_seconds_bound: "valid_time t \<Longrightarrow> day_seconds t < 86400"
  by (simp add: day_seconds_def valid_time_def word_less_nat_alt)

lemma seconds_diff_int:
  assumes "valid_time t1" "valid_time t2"
  shows "unat (rtc_seconds_diff t1 t2) =
     (if day_seconds t1 \<le> day_seconds t2 then day_seconds t2 - day_seconds t1
      else day_seconds t2 + 90060 - day_seconds t1)"
proof -
  define a where "a = int (day_seconds t1)"
  define b where "b = int (day_seconds t2)"
  have ab: "a < 86400" "b < 86400" "0 \<le> a" "0 \<le> b"
    using assms [THEN day_seconds_bound] by (simp_all add: a_def b_def)
  have d: "(uint (t_hour t2) - uint (t_hour t1)) * 60 * 60 +
      (uint (t_minute t2) - uint (t_minute t1)) * 60 + (uint (t_second t2) - uint (t_second t1)) = b - a"
    by (simp add: a_def b_def day_seconds_def algebra_simps)
  have w: "(24 - uint (t_hour t1)) * 60 * 60 + (60 - uint (t_minute t1)) * 60 +
      (60 - uint (t_second t1)) + (uint (t_hour t2) * 60 * 60 + uint (t_minute t2) * 60 +
      uint (t_second t2)) = b + 90060 - a"
    by (simp add: a_def b_def day_seconds_def algebra_simps)
  have "unat (rtc_seconds_diff t1 t2) = nat (if a \<le> b then b - a else b + 90060 - a)"
    unfolding rtc_seconds_diff_def Let_def d w using ab
    by (auto simp: unat_u32_of_int simp del: of_int_add of_int_diff)
  then show ?thesis by (simp add: a_def b_def nat_diff_distrib nat_add_distrib split: if_splits)
qed

section \<open>Properties\<close>

text \<open>For every valid Gregorian date, the closed formula of \<open>rtc_get_jday\<close> is the number of days
  counted year by year and month by month (with the leap year rule) from 1 January of year 0,
  plus the Julian day 1721060 of that date.
\<close>

theorem rtc_get_jday_calendar:
  "valid_date d \<Longrightarrow> rtc_get_jday d = 1721060 + int (civil_days d)"
  by (rule jday_counts_days)

text \<open>\<open>rtc_get_jday\<close> inverts \<open>rtc_get_gdate\<close> on every Julian day from year 0 to the end of year
  9999, a range that contains every day a 32-bit timestamp can name.
\<close>

theorem jday_gdate_roundtrip:
  assumes "1721120 \<le> uint jday" and "uint jday \<le> 5373484"
  shows "rtc_get_jday (rtc_get_gdate jday) = uint jday"
  using assms by (rule jday_gdate)

text \<open>
  C24: for every 32-bit timestamp, \<open>rtc_mktime\<close> applied to the date and time that \<open>rtc_localtime\<close>
  computes gives the timestamp back; no field is truncated and no intermediate value wraps.
\<close>

theorem mktime_localtime_roundtrip:
  "rtc_mktime (rtc_get_date ts) (rtc_get_time ts) = ts"
  by (rule mktime_localtime)

text \<open>\<open>rtc_time_add\<close> on a valid time gives a valid time whose day counter and time of day together
  advance by exactly the given seconds, clamped to half a week; this needs room in the 8-bit day
  counter.
\<close>

theorem rtc_time_add_correct:
  assumes "valid_time t" and "unat (t_day t) < 250"
  shows "valid_time (rtc_time_add t secs) \<and>
     unat (t_day (rtc_time_add t secs)) * 86400 + day_seconds (rtc_time_add t secs) =
     unat (t_day t) * 86400 + day_seconds t + min (unat secs) 302399"
  using assms by (rule time_add_total)

text \<open>\<open>rtc_seconds_diff\<close> is \<open>time2 - time1\<close> when \<open>time2\<close> is not earlier in the day; otherwise, where
  the difference across midnight would be \<open>time2 + 86400 - time1\<close>, the code returns 3660 seconds
  more, because it adds a whole hour and a whole minute too many.
\<close>

theorem rtc_seconds_diff_value:
  assumes "valid_time t1" and "valid_time t2"
  shows "unat (rtc_seconds_diff t1 t2) =
     (if day_seconds t1 \<le> day_seconds t2 then day_seconds t2 - day_seconds t1
      else day_seconds t2 + 86400 - day_seconds t1 + 3660)"
  using seconds_diff_int [OF assms] day_seconds_bound [OF assms(1)] by arith

section \<open>Witnesses\<close>

theorem rtc_get_jday_calendar_witness:
  "rtc_get_jday \<lparr>d_day = 1, d_month = 1, d_year = 1970\<rparr> =
     1721060 + int (civil_days \<lparr>d_day = 1, d_month = 1, d_year = 1970\<rparr>)"
  by (rule rtc_get_jday_calendar) (simp add: valid_date_def month_days_def)

theorem jday_gdate_roundtrip_witness:
  "rtc_get_jday (rtc_get_gdate 2440588) = 2440588"
  using jday_gdate_roundtrip [of 2440588] by simp

theorem rtc_time_add_correct_witness:
  "valid_time (rtc_time_add \<lparr>t_second = 30, t_minute = 59, t_hour = 23, t_day = 2\<rparr> 45) \<and>
   unat (t_day (rtc_time_add \<lparr>t_second = 30, t_minute = 59, t_hour = 23, t_day = 2\<rparr> 45)) * 86400 +
     day_seconds (rtc_time_add \<lparr>t_second = 30, t_minute = 59, t_hour = 23, t_day = 2\<rparr> 45) = 259215"
  using rtc_time_add_correct [of "\<lparr>t_second = 30, t_minute = 59, t_hour = 23, t_day = 2\<rparr>" 45]
  by (simp add: valid_time_def day_seconds_def)

theorem rtc_seconds_diff_value_witness:
  "unat (rtc_seconds_diff \<lparr>t_second = 0, t_minute = 0, t_hour = 23, t_day = 0\<rparr>
     \<lparr>t_second = 0, t_minute = 0, t_hour = 1, t_day = 0\<rparr>) = 7200 + 3660"
  using rtc_seconds_diff_value [of "\<lparr>t_second = 0, t_minute = 0, t_hour = 23, t_day = 0\<rparr>"
     "\<lparr>t_second = 0, t_minute = 0, t_hour = 1, t_day = 0\<rparr>"]
  by (simp add: valid_time_def day_seconds_def)

end
