(* ===== verification/CBuffer.thy ===== *)
theory CBuffer
  imports Prelude
begin

text \<open>
  The cyclic buffer and the item queue on it, src/common/cbuffer.c. Addresses count 32-bit words.
  The buffer memory is seen through item headers: \<open>cq_mem q a\<close> is the header found at
  address \<open>a\<close>. A \<open>memset\<close> over a region overwrites the headers that start in it. The queue
  header has its own address \<open>cq_self\<close>, which ends the doubly linked list of items. The header of an
  item takes 6 words (two 64-bit pointers and two half-words, padded). \<open>flush_bufer\<close> is empty in
  the source and has no model.

  The invariant \<open>cq_inv q xs\<close> says that the live items \<open>xs\<close> (address and size, oldest first) are linked
  both ways, carry valid headers, and lie back to back either in one run between read and write or,
  when the buffer has wrapped, in an upper run from read and a lower run from start to write.
\<close>

section \<open>Data\<close>

record CBUFFER_ITEM_T =
  it_next :: addr
  it_prev :: addr
  it_dwsize :: u16
  it_magic :: u16

record CBUFFER_T =
  cb_write :: addr
  cb_read :: addr
  cb_start :: addr
  cb_end :: addr

record CBUFFER_QUEUE_T =
  cq_next :: addr
  cq_prev :: addr
  cq_count :: u16
  cq_magic :: u16
  cq_cb :: CBUFFER_T
  cq_mem :: "addr \<Rightarrow> CBUFFER_ITEM_T"
  cq_self :: addr

definition CBUFFER_MAGIC :: u16 where "CBUFFER_MAGIC = 0x2608"

definition CBUFFER_ITEM_HDR_DWSIZE :: nat where "CBUFFER_ITEM_HDR_DWSIZE = 6"

text \<open>What a header reads as after \<open>memset\<close> with 0xEE and with 0.\<close>

definition filled_item :: CBUFFER_ITEM_T where
  "filled_item = \<lparr>it_next = 0xEEEEEEEEEEEEEEEE, it_prev = 0xEEEEEEEEEEEEEEEE,
     it_dwsize = 0xEEEE, it_magic = 0xEEEE\<rparr>"

definition zero_item :: CBUFFER_ITEM_T where
  "zero_item = \<lparr>it_next = NULL, it_prev = NULL, it_dwsize = 0, it_magic = 0\<rparr>"

definition mem_set :: "(addr \<Rightarrow> CBUFFER_ITEM_T) \<Rightarrow> addr \<Rightarrow> CBUFFER_ITEM_T \<Rightarrow> nat \<Rightarrow>
    (addr \<Rightarrow> CBUFFER_ITEM_T)" where
  "mem_set m p v n = (\<lambda>a. if p \<le> a \<and> a < p + n then v else m a)"

text \<open>A pointer difference cast to \<open>uint32_t\<close>.\<close>

definition dw_diff :: "addr \<Rightarrow> addr \<Rightarrow> nat" where
  "dw_diff a b = nat ((int a - int b) mod 4294967296)"

section \<open>The cyclic buffer\<close>

type_synonym imem = "addr \<Rightarrow> CBUFFER_ITEM_T"

definition cbuffer_init :: "CBUFFER_T \<Rightarrow> imem \<Rightarrow> addr \<Rightarrow> nat \<Rightarrow> CBUFFER_T \<times> imem" where
  "cbuffer_init cb m buffer dwsize =
     (cb\<lparr>cb_start := buffer, cb_end := buffer + dwsize, cb_write := buffer, cb_read := buffer\<rparr>,
      mem_set m buffer filled_item dwsize)"

definition cbuffer_alloc :: "CBUFFER_T \<Rightarrow> imem \<Rightarrow> nat \<Rightarrow> addr \<times> CBUFFER_T \<times> imem" where
  "cbuffer_alloc cb m dwsize =
     (let (p, cb') =
        (if cb_write cb \<ge> cb_read cb then
           if dw_diff (cb_end cb) (cb_write cb) \<ge> dwsize then
             (cb_write cb, cb\<lparr>cb_write := cb_write cb + dwsize\<rparr>)
           else if dw_diff (cb_read cb) (cb_start cb) > dwsize then
             (cb_start cb, cb\<lparr>cb_write := cb_start cb + dwsize\<rparr>)
           else (NULL, cb)
         else if dw_diff (cb_read cb) (cb_write cb) > dwsize then
           (cb_write cb, cb\<lparr>cb_write := cb_write cb + dwsize\<rparr>)
         else (NULL, cb))
      in if p \<noteq> NULL then (p, cb', mem_set m p zero_item dwsize) else (p, cb', m))"

definition cbuffer_free :: "CBUFFER_T \<Rightarrow> imem \<Rightarrow> addr \<Rightarrow> CBUFFER_T \<times> imem" where
  "cbuffer_free cb m read =
     (let m' = (if read \<ge> cb_read cb then mem_set m (cb_read cb) filled_item (read - cb_read cb)
                else mem_set (mem_set m (cb_write cb) filled_item (cb_end cb - cb_write cb))
                       (cb_start cb) filled_item (read - cb_start cb));
          cb' = cb\<lparr>cb_read := read\<rparr>
      in if cb_read cb' = cb_write cb' then (cb'\<lparr>cb_write := cb_start cb', cb_read := cb_start cb'\<rparr>, m')
         else (cb', m'))"

section \<open>The queue\<close>

definition cqueue_init :: "CBUFFER_QUEUE_T \<Rightarrow> addr \<Rightarrow> nat \<Rightarrow> CBUFFER_QUEUE_T" where
  "cqueue_init cq buffer dwsize =
     (let (cb, m) = cbuffer_init (cq_cb cq) (cq_mem cq) buffer dwsize
      in cq\<lparr>cq_cb := cb, cq_mem := m, cq_next := cq_self cq, cq_prev := cq_self cq, cq_count := 0,
           cq_magic := CBUFFER_MAGIC\<rparr>)"

text \<open>The \<open>next\<close> and \<open>prev\<close> fields behind a pointer to an item or to the queue header.\<close>

definition get_next :: "CBUFFER_QUEUE_T \<Rightarrow> addr \<Rightarrow> addr" where
  "get_next cq p = (if p = cq_self cq then cq_next cq else it_next (cq_mem cq p))"

definition get_prev :: "CBUFFER_QUEUE_T \<Rightarrow> addr \<Rightarrow> addr" where
  "get_prev cq p = (if p = cq_self cq then cq_prev cq else it_prev (cq_mem cq p))"

definition set_next :: "CBUFFER_QUEUE_T \<Rightarrow> addr \<Rightarrow> addr \<Rightarrow> CBUFFER_QUEUE_T" where
  "set_next cq p v = (if p = cq_self cq then cq\<lparr>cq_next := v\<rparr>
     else cq\<lparr>cq_mem := (cq_mem cq)(p := (cq_mem cq p)\<lparr>it_next := v\<rparr>)\<rparr>)"

definition set_prev :: "CBUFFER_QUEUE_T \<Rightarrow> addr \<Rightarrow> addr \<Rightarrow> CBUFFER_QUEUE_T" where
  "set_prev cq p v = (if p = cq_self cq then cq\<lparr>cq_prev := v\<rparr>
     else cq\<lparr>cq_mem := (cq_mem cq)(p := (cq_mem cq p)\<lparr>it_prev := v\<rparr>)\<rparr>)"

definition set_item :: "CBUFFER_QUEUE_T \<Rightarrow> addr \<Rightarrow> (CBUFFER_ITEM_T \<Rightarrow> CBUFFER_ITEM_T) \<Rightarrow>
    CBUFFER_QUEUE_T" where
  "set_item cq p f = cq\<lparr>cq_mem := (cq_mem cq)(p := f (cq_mem cq p))\<rparr>"

definition cqueue_enqueue :: "CBUFFER_QUEUE_T \<Rightarrow> u32 \<Rightarrow> addr \<times> CBUFFER_QUEUE_T" where
  "cqueue_enqueue cq dwsize =
     (if cq_magic cq \<noteq> CBUFFER_MAGIC then (NULL, cq)
      else
        (let s = dwsize + of_nat CBUFFER_ITEM_HDR_DWSIZE;
             (item, cb, m) = cbuffer_alloc (cq_cb cq) (cq_mem cq) (unat s);
             q = cq\<lparr>cq_cb := cb, cq_mem := m\<rparr>
         in if item \<noteq> NULL then
              (let q = set_item q item (\<lambda>i. i\<lparr>it_next := cq_self q\<rparr>);
                   q = set_item q item (\<lambda>i. i\<lparr>it_prev := cq_prev q\<rparr>);
                   q = set_next q (it_prev (cq_mem q item)) item;
                   q = q\<lparr>cq_prev := item\<rparr>;
                   q = set_item q item (\<lambda>i. i\<lparr>it_dwsize := ucast s, it_magic := CBUFFER_MAGIC\<rparr>)
               in (item, q\<lparr>cq_count := cq_count q + 1\<rparr>))
            else (item, q)))"

definition cqueue_dequeue :: "CBUFFER_QUEUE_T \<Rightarrow> nat \<times> CBUFFER_QUEUE_T" where
  "cqueue_dequeue cq =
     (if cq_magic cq \<noteq> CBUFFER_MAGIC then (0, cq)
      else if cq_next cq \<noteq> cq_self cq then
        (let item = cq_next cq;
             q = cq\<lparr>cq_next := it_next (cq_mem cq item)\<rparr>;
             q = set_prev q (cq_next q) (cq_self q);
             s = unat (it_dwsize (cq_mem q item));
             q = set_item q item (\<lambda>i. i\<lparr>it_magic := 0\<rparr>);
             (cb, m) = cbuffer_free (cq_cb q) (cq_mem q) (item + s)
         in (s, q\<lparr>cq_cb := cb, cq_mem := m, cq_count := cq_count q - 1\<rparr>))
      else (0, cq))"

definition cqueue_count :: "CBUFFER_QUEUE_T \<Rightarrow> int" where
  "cqueue_count cq = uint (cq_count cq)"

definition cqueue_front :: "CBUFFER_QUEUE_T \<Rightarrow> addr" where
  "cqueue_front cq =
     (if cq_magic cq \<noteq> CBUFFER_MAGIC then NULL
      else if cq_next cq \<noteq> cq_self cq then cq_prev cq else NULL)"

definition cqueue_back :: "CBUFFER_QUEUE_T \<Rightarrow> addr" where
  "cqueue_back cq =
     (if cq_magic cq \<noteq> CBUFFER_MAGIC then NULL
      else if cq_next cq \<noteq> cq_self cq then cq_next cq else NULL)"

definition cqueue_forwards :: "CBUFFER_QUEUE_T \<Rightarrow> addr \<Rightarrow> addr" where
  "cqueue_forwards cq item =
     (if it_next (cq_mem cq item) = cq_self cq then NULL else it_next (cq_mem cq item))"

definition cqueue_backwards :: "CBUFFER_QUEUE_T \<Rightarrow> addr \<Rightarrow> addr" where
  "cqueue_backwards cq item =
     (if it_prev (cq_mem cq item) = cq_self cq then NULL else it_prev (cq_mem cq item))"

definition cqueue_validate_item :: "CBUFFER_QUEUE_T \<Rightarrow> addr \<Rightarrow> bool" where
  "cqueue_validate_item cq item =
     (let i = cq_mem cq item; st = cb_start (cq_cb cq); en = cb_end (cq_cb cq);
          H = CBUFFER_ITEM_HDR_DWSIZE
      in if item = NULL then False
         else if item < st \<or> item + H > en then False
         else if it_magic i \<noteq> CBUFFER_MAGIC then False
         else if unat (it_dwsize i) < H \<or> unat (it_dwsize i) > dw_diff en st then False
         else if item + unat (it_dwsize i) > en then False
         else if it_next i = item \<or> it_prev i = item then False
         else if (if it_next i \<noteq> cq_self cq
                  then (it_next i < st \<or> it_next i + H > en) \<or>
                       it_prev (cq_mem cq (it_next i)) \<noteq> item
                  else cq_prev cq \<noteq> item) then False
         else if (if it_prev i \<noteq> cq_self cq
                  then (it_prev i < st \<or> it_prev i + H > en) \<or>
                       it_next (cq_mem cq (it_prev i)) \<noteq> item
                  else cq_next cq \<noteq> item) then False
         else True)"

text \<open>The two loops of \<open>cqueue_validate\<close>: the first counts in a local, the second in \<open>cq->count\<close>.\<close>

partial_function (option) validate_front_loop ::
    "CBUFFER_QUEUE_T \<Rightarrow> nat \<Rightarrow> nat \<Rightarrow> addr \<Rightarrow> (bool \<times> nat) option" where
  "validate_front_loop cq dwsize count i =
     (if i = NULL then Some (True, count)
      else if count \<ge> dwsize then Some (False, count)
      else if \<not> cqueue_validate_item cq i then Some (False, count)
      else validate_front_loop cq dwsize (count + 1) (cqueue_backwards cq i))"

partial_function (option) validate_back_loop ::
    "CBUFFER_QUEUE_T \<Rightarrow> nat \<Rightarrow> addr \<Rightarrow> (bool \<times> CBUFFER_QUEUE_T) option" where
  "validate_back_loop cq dwsize i =
     (if i = NULL then Some (True, cq)
      else if unat (cq_count cq) \<ge> dwsize then Some (False, cq)
      else if \<not> cqueue_validate_item cq i then Some (False, cq)
      else (let q = cq\<lparr>cq_count := cq_count cq + 1\<rparr>
            in validate_back_loop q dwsize (cqueue_forwards q i)))"

definition cqueue_validate ::
    "CBUFFER_QUEUE_T \<Rightarrow> addr \<Rightarrow> nat \<Rightarrow> (bool \<times> CBUFFER_QUEUE_T) option" where
  "cqueue_validate cq cbuffer dwsize =
     (let st = cb_start (cq_cb cq); en = cb_end (cq_cb cq);
          rd = cb_read (cq_cb cq); wr = cb_write (cq_cb cq)
      in if cq_magic cq \<noteq> CBUFFER_MAGIC then Some (False, cq)
         else if st \<noteq> cbuffer then Some (False, cq)
         else if en \<noteq> cbuffer + dwsize then Some (False, cq)
         else if rd > en \<or> rd < st then Some (False, cq)
         else if wr > en \<or> wr < st then Some (False, cq)
         else if cq_next cq \<noteq> cq_self cq \<and> (cq_next cq \<ge> en \<or> cq_next cq < st) then Some (False, cq)
         else if cq_prev cq \<noteq> cq_self cq \<and> (cq_prev cq \<ge> en \<or> cq_prev cq < st) then Some (False, cq)
         else
           (case validate_front_loop cq dwsize 0 (cqueue_front cq) of
              None \<Rightarrow> None
            | Some (False, _) \<Rightarrow> Some (False, cq)
            | Some (True, count) \<Rightarrow>
                (let q = cq\<lparr>cq_count := 0\<rparr>
                 in case validate_back_loop q dwsize (cqueue_back q) of
                      None \<Rightarrow> None
                    | Some (res, q') \<Rightarrow>
                        if \<not> res \<or> unat (cq_count q') \<noteq> count
                        then Some (False, q'\<lparr>cq_count := 0\<rparr>)
                        else Some (True, q'))))"


section \<open>The invariant\<close>

fun dll :: "(addr \<Rightarrow> addr) \<Rightarrow> (addr \<Rightarrow> addr) \<Rightarrow> addr \<Rightarrow> addr list \<Rightarrow> addr \<Rightarrow> bool" where
  "dll nx pv u [] z \<longleftrightarrow> nx u = z \<and> pv z = u"
| "dll nx pv u (p # ps) z \<longleftrightarrow> nx u = p \<and> pv p = u \<and> dll nx pv p ps z"

text \<open>A run of items back to back from \<open>a\<close> to \<open>e\<close>.\<close>

fun seg :: "nat \<Rightarrow> (addr \<times> nat) list \<Rightarrow> nat \<Rightarrow> bool" where
  "seg a [] e \<longleftrightarrow> a = e"
| "seg a ((p, s) # xs) e \<longleftrightarrow> p = a \<and> CBUFFER_ITEM_HDR_DWSIZE \<le> s \<and> seg (a + s) xs e"

definition layout :: "CBUFFER_T \<Rightarrow> (addr \<times> nat) list \<Rightarrow> bool" where
  "layout cb xs \<longleftrightarrow>
     (xs = [] \<and> cb_read cb = cb_start cb \<and> cb_write cb = cb_start cb) \<or>
     (xs \<noteq> [] \<and> cb_start cb \<le> cb_read cb \<and> seg (cb_read cb) xs (cb_write cb) \<and>
        cb_write cb \<le> cb_end cb) \<or>
     (\<exists>ys zs e. xs = ys @ zs \<and> zs \<noteq> [] \<and> seg (cb_read cb) ys e \<and> e \<le> cb_end cb \<and>
        seg (cb_start cb) zs (cb_write cb) \<and> cb_write cb < cb_read cb)"

definition header_ok :: "imem \<Rightarrow> addr \<times> nat \<Rightarrow> bool" where
  "header_ok m x \<longleftrightarrow> it_magic (m (fst x)) = CBUFFER_MAGIC \<and> unat (it_dwsize (m (fst x))) = snd x"

definition cq_inv :: "CBUFFER_QUEUE_T \<Rightarrow> (addr \<times> nat) list \<Rightarrow> bool" where
  "cq_inv q xs \<longleftrightarrow>
     cq_magic q = CBUFFER_MAGIC \<and> 0 < cb_start (cq_cb q) \<and> cb_start (cq_cb q) \<le> cb_end (cq_cb q) \<and>
     cb_end (cq_cb q) - cb_start (cq_cb q) < 65536 \<and>
     cq_self q \<noteq> NULL \<and> (cq_self q < cb_start (cq_cb q) \<or> cb_end (cq_cb q) \<le> cq_self q) \<and>
     unat (cq_count q) = length xs \<and> (\<forall>x \<in> set xs. header_ok (cq_mem q) x) \<and>
     dll (get_next q) (get_prev q) (cq_self q) (map fst xs) (cq_self q) \<and>
     layout (cq_cb q) xs"

lemma HDR_pos: "0 < CBUFFER_ITEM_HDR_DWSIZE"
  by (simp add: CBUFFER_ITEM_HDR_DWSIZE_def)

lemma dw_diff_eq: "b \<le> a \<Longrightarrow> a - b < 4294967296 \<Longrightarrow> dw_diff a b = a - b"
  by (simp add: dw_diff_def nat_eq_iff of_nat_diff)

subsection \<open>Runs\<close>

lemma seg_le: "seg a xs e \<Longrightarrow> a \<le> e"
  by (induction xs arbitrary: a) force+

lemma seg_append: "seg a (xs @ ys) e \<longleftrightarrow> (\<exists>b. seg a xs b \<and> seg b ys e)"
  by (induction xs arbitrary: a) auto

lemma seg_in: "seg a xs e \<Longrightarrow> (p, s) \<in> set xs \<Longrightarrow>
    a \<le> p \<and> p + s \<le> e \<and> CBUFFER_ITEM_HDR_DWSIZE \<le> s"
proof (induction xs arbitrary: a)
  case (Cons x xs)
  then show ?case using seg_le by (cases x) fastforce
qed simp

lemma seg_length: "seg a xs e \<Longrightarrow> length xs + a \<le> e"
  using HDR_pos by (induction xs arbitrary: a) force+

lemma seg_distinct: "seg a xs e \<Longrightarrow> distinct (map fst xs)"
proof (induction xs arbitrary: a)
  case (Cons x xs)
  obtain p s where x: "x = (p, s)" by force
  with Cons.prems have t: "seg (a + s) xs e" "p = a" "0 < s" using HDR_pos by auto
  then have "p \<notin> fst ` set xs" using seg_in [OF t(1)] by force
  with Cons.IH [OF t(1)] x show ?case by simp
qed simp

text \<open>Two items do not overlap.\<close>

definition apart :: "addr \<times> nat \<Rightarrow> addr \<times> nat \<Rightarrow> bool" where
  "apart x y \<longleftrightarrow> fst x + snd x \<le> fst y \<or> fst y + snd y \<le> fst x"

lemma seg_apart: "seg a xs e \<Longrightarrow> sorted_wrt apart xs"
proof (induction xs arbitrary: a)
  case (Cons x xs)
  obtain p s where x: "x = (p, s)" by force
  with Cons.prems have t: "seg (a + s) xs e" "p = a" by auto
  then have "\<forall>y \<in> set xs. apart x y" using seg_in [OF t(1)] x by (fastforce simp: apart_def)
  with Cons.IH [OF t(1)] show ?case by simp
qed simp

text \<open>What the layout says of the live items, whatever its form.\<close>

lemma layout_apart:
  assumes "layout cb xs"
  shows "sorted_wrt apart xs"
  using assms unfolding layout_def
proof (elim disjE exE conjE)
  fix ys zs e
  assume a: "xs = ys @ zs" "seg (cb_read cb) ys e" "seg (cb_start cb) zs (cb_write cb)"
    "cb_write cb < cb_read cb"
  have "\<forall>x \<in> set ys. \<forall>y \<in> set zs. apart x y"
    using seg_in [OF a(2)] seg_in [OF a(3)] a(4) by (fastforce simp: apart_def)
  then show ?thesis using a seg_apart by (auto simp: sorted_wrt_append)
qed (auto dest: seg_apart)

lemma layout_bounds:
  assumes "layout cb xs" "cb_start cb \<le> cb_end cb" "(p, s) \<in> set xs"
  shows "cb_start cb \<le> p \<and> p + s \<le> cb_end cb \<and> CBUFFER_ITEM_HDR_DWSIZE \<le> s"
  using assms(1) unfolding layout_def
proof (elim disjE exE conjE)
  assume "seg (cb_read cb) xs (cb_write cb)" "cb_start cb \<le> cb_read cb" "cb_write cb \<le> cb_end cb"
  then show ?thesis using seg_in [of "cb_read cb" xs "cb_write cb" p s] assms(3) by auto
next
  fix ys zs e
  assume a: "xs = ys @ zs" "seg (cb_read cb) ys e" "seg (cb_start cb) zs (cb_write cb)"
    "cb_write cb < cb_read cb" "e \<le> cb_end cb"
  have "(p, s) \<in> set ys \<or> (p, s) \<in> set zs" using a(1) assms(3) by auto
  then show ?thesis
    using seg_in [OF a(2), of p s] seg_in [OF a(3), of p s] seg_le [OF a(2)] seg_le [OF a(3)] a(4,5)
    by auto
qed (use assms in simp)

lemma layout_distinct:
  assumes "layout cb xs" "cb_start cb \<le> cb_end cb"
  shows "distinct (map fst xs)"
proof -
  have "sorted_wrt (\<lambda>x y. fst x \<noteq> fst y) xs"
  proof (rule sorted_wrt_mono_rel [OF _ layout_apart [OF assms(1)]])
    fix x y assume "x \<in> set xs" "y \<in> set xs" "apart x y"
    then show "fst x \<noteq> fst y"
      using layout_bounds [OF assms, of "fst x" "snd x"] layout_bounds [OF assms, of "fst y" "snd y"]
        HDR_pos by (auto simp: apart_def)
  qed
  then show ?thesis by (induction xs) auto
qed

lemma layout_ends:
  assumes "layout cb xs" "cb_start cb \<le> cb_end cb"
  shows "cb_start cb \<le> cb_read cb \<and> cb_read cb \<le> cb_end cb \<and> cb_start cb \<le> cb_write cb \<and>
     cb_write cb \<le> cb_end cb"
  using assms unfolding layout_def by (auto dest!: seg_le)

subsection \<open>Links\<close>

lemma dll_snoc: "dll nx pv u (ps @ [a]) z \<longleftrightarrow> dll nx pv u ps a \<and> nx a = z \<and> pv z = a"
  by (induction ps arbitrary: u) auto

lemma dll_cong:
  "dll nx pv u ps z \<Longrightarrow> (\<forall>x \<in> set (u # ps). nx' x = nx x) \<Longrightarrow> (\<forall>x \<in> set (z # ps). pv' x = pv x) \<Longrightarrow>
     dll nx' pv' u ps z"
  by (induction ps arbitrary: u) auto

lemma dll_prev: "dll nx pv u ps z \<Longrightarrow> pv z = last (u # ps)"
  by (induction ps arbitrary: u) auto

lemma dll_next: "dll nx pv u ps z \<Longrightarrow> nx u = hd (ps @ [z])"
  by (cases ps) auto

lemma dll_retarget:
  assumes "dll nx pv u ps z" "distinct (u # ps)" "a \<notin> set ps"
    "\<And>x. x \<in> set (u # ps) \<Longrightarrow> x \<noteq> last (u # ps) \<Longrightarrow> nx' x = nx x" "nx' (last (u # ps)) = a"
    "\<And>x. x \<in> set ps \<Longrightarrow> pv' x = pv x" "pv' a = last (u # ps)"
  shows "dll nx' pv' u ps a"
  using assms
proof (induction ps arbitrary: u)
  case (Cons p ps)
  then have "last (u # p # ps) \<noteq> u" by (auto split: if_splits)
  with Cons show ?case by auto
qed auto

lemma dll_tl:
  assumes "dll nx pv u (p # ps) u" "u \<notin> set (p # ps)" "distinct (p # ps)"
    "nx' u = nx p" "\<And>x. x \<in> set ps \<Longrightarrow> nx' x = nx x"
    "pv' (nx p) = u" "\<And>x. x \<in> set (u # ps) \<Longrightarrow> x \<noteq> nx p \<Longrightarrow> pv' x = pv x"
  shows "dll nx' pv' u ps u"
proof (cases ps)
  case (Cons r rs)
  with assms have "dll nx pv r rs u" "nx p = r" by auto
  moreover have "dll nx' pv' r rs u"
    by (rule dll_cong [OF \<open>dll nx pv r rs u\<close>]) (use assms Cons in auto)
  ultimately show ?thesis using assms Cons by auto
qed (use assms in auto)


section \<open>Allocation and release keep the layout\<close>

text \<open>There is no room: neither gap can take \<open>s\<close> words.\<close>

definition no_room :: "CBUFFER_T \<Rightarrow> nat \<Rightarrow> bool" where
  "no_room cb s \<longleftrightarrow>
     (if cb_read cb \<le> cb_write cb
      then cb_end cb - cb_write cb < s \<and> cb_read cb - cb_start cb \<le> s
      else cb_read cb - cb_write cb \<le> s)"

lemma alloc_layout:
  assumes l: "layout cb xs" and b: "cb_start cb \<le> cb_end cb" "cb_end cb - cb_start cb < 65536"
    "0 < cb_start cb" and s: "CBUFFER_ITEM_HDR_DWSIZE \<le> s"
    and op: "cbuffer_alloc cb m s = (p, cb', m')"
  shows "(p = NULL \<and> cb' = cb \<and> m' = m \<and> no_room cb s) \<or>
     (p \<noteq> NULL \<and> layout cb' (xs @ [(p, s)]) \<and> cb_start cb' = cb_start cb \<and> cb_end cb' = cb_end cb \<and>
      m' = mem_set m p zero_item s \<and> \<not> no_room cb s)"
proof -
  note e = layout_ends [OF l b(1)]
  have d: "dw_diff (cb_end cb) (cb_write cb) = cb_end cb - cb_write cb"
    "dw_diff (cb_read cb) (cb_start cb) = cb_read cb - cb_start cb"
    "cb_write cb < cb_read cb \<Longrightarrow> dw_diff (cb_read cb) (cb_write cb) = cb_read cb - cb_write cb"
    using e b by (auto intro!: dw_diff_eq)
  note op' = op [unfolded cbuffer_alloc_def d(1,2)]
  show ?thesis
    using l unfolding layout_def [of cb xs]
  proof (elim disjE exE conjE)
    assume "xs = []" "cb_read cb = cb_start cb" "cb_write cb = cb_start cb"
    then show ?thesis using op' s b
      by (auto simp: layout_def no_room_def split: if_splits)
  next
    assume a: "xs \<noteq> []" "cb_start cb \<le> cb_read cb" "seg (cb_read cb) xs (cb_write cb)"
      "cb_write cb \<le> cb_end cb"
    have "cb_read cb \<le> cb_write cb" using seg_le [OF a(3)] .
    moreover have "seg (cb_read cb) (xs @ [(cb_write cb, s)]) (cb_write cb + s)"
      using a(3) s by (simp add: seg_append)
    moreover have "s < cb_read cb - cb_start cb \<Longrightarrow>
        layout (cb\<lparr>cb_write := cb_start cb + s\<rparr>) (xs @ [(cb_start cb, s)])"
      unfolding layout_def using a s
      by (intro disjI2 exI [of _ xs] exI [of _ "[(cb_start cb, s)]"] exI [of _ "cb_write cb"]) auto
    ultimately show ?thesis using op' a b s e
      by (auto simp: no_room_def layout_def [of "cb\<lparr>cb_write := cb_write cb + s\<rparr>"] split: if_splits)
  next
    fix ys zs en
    assume a: "xs = ys @ zs" "zs \<noteq> []" "seg (cb_read cb) ys en" "en \<le> cb_end cb"
      "seg (cb_start cb) zs (cb_write cb)" "cb_write cb < cb_read cb"
    have "s < cb_read cb - cb_write cb \<Longrightarrow>
        layout (cb\<lparr>cb_write := cb_write cb + s\<rparr>) (xs @ [(cb_write cb, s)])"
      unfolding layout_def using a s
      by (intro disjI2 exI [of _ ys] exI [of _ "zs @ [(cb_write cb, s)]"] exI [of _ en])
        (auto simp: seg_append)
    then show ?thesis using op' a(6) d(3) b e
      by (auto simp: no_room_def split: if_splits)
  qed
qed

lemma free_layout:
  assumes l: "layout cb ((p, s) # xs)" and b: "cb_start cb \<le> cb_end cb"
    and op: "cbuffer_free cb m (p + s) = (cb', m')"
  shows "layout cb' xs \<and> cb_start cb' = cb_start cb \<and> cb_end cb' = cb_end cb \<and>
     (\<forall>x \<in> set xs. m' (fst x) = m (fst x))"
  using l unfolding layout_def [of cb "(p, s) # xs"]
proof (elim disjE exE conjE)
  assume a: "cb_start cb \<le> cb_read cb" "seg (cb_read cb) ((p, s) # xs) (cb_write cb)"
    "cb_write cb \<le> cb_end cb"
  then have t: "p = cb_read cb" "seg (p + s) xs (cb_write cb)" by auto
  have "\<forall>x \<in> set xs. p + s \<le> fst x" using seg_in [OF t(2)] by force
  moreover have "p + s = cb_write cb \<longleftrightarrow> xs = []" using t(2) seg_length [OF t(2)] by (cases xs) auto
  ultimately show ?thesis using op t a
    by (auto simp: cbuffer_free_def Let_def layout_def mem_set_def split: if_splits)
next
  fix ys zs e
  assume a: "(p, s) # xs = ys @ zs" "zs \<noteq> []" "seg (cb_read cb) ys e" "e \<le> cb_end cb"
    "seg (cb_start cb) zs (cb_write cb)" "cb_write cb < cb_read cb"
  show ?thesis
  proof (cases ys)
    case Nil
    then obtain zs' where z: "zs = (p, s) # zs'" "xs = zs'" using a(1) by auto
    with a have t: "p = cb_start cb" "seg (p + s) xs (cb_write cb)" by auto
    have "\<forall>x \<in> set xs. p + s \<le> fst x \<and> fst x < cb_write cb"
      using seg_in [OF t(2)] HDR_pos by force
    moreover have "p + s = cb_write cb \<longleftrightarrow> xs = []"
      using t(2) seg_length [OF t(2)] by (cases xs) auto
    moreover have "p + s \<le> cb_write cb" using seg_le [OF t(2)] .
    moreover have "e = cb_read cb" using Nil a(3) by simp
    ultimately show ?thesis using op t a(4,6)
      by (auto simp: cbuffer_free_def Let_def layout_def mem_set_def split: if_splits)
  next
    case (Cons y ys')
    with a have t: "p = cb_read cb" "seg (p + s) ys' e" "xs = ys' @ zs" by auto
    have "\<forall>x \<in> set ys'. p + s \<le> fst x" using seg_in [OF t(2)] by force
    moreover have "\<forall>x \<in> set zs. fst x < p" using seg_in [OF a(5)] a(6) t(1) HDR_pos by force
    moreover have c: "cb' = cb\<lparr>cb_read := p + s\<rparr>" "m' = mem_set m p filled_item s"
      using op t a(6) by (auto simp: cbuffer_free_def Let_def split: if_splits)
    moreover have "layout cb' xs"
      unfolding layout_def c using a t by (intro disjI2) auto
    ultimately show ?thesis using t by (auto simp: mem_set_def)
  qed
qed (simp)


lemma layout_length:
  assumes "layout cb xs" "cb_start cb \<le> cb_end cb"
  shows "length xs + cb_start cb \<le> cb_end cb"
  using assms(1) unfolding layout_def
proof (elim disjE exE conjE)
  assume "cb_start cb \<le> cb_read cb" "seg (cb_read cb) xs (cb_write cb)" "cb_write cb \<le> cb_end cb"
  then show ?thesis using seg_length [of "cb_read cb" xs "cb_write cb"] by simp
next
  fix ys zs e
  assume a: "xs = ys @ zs" "seg (cb_read cb) ys e" "e \<le> cb_end cb" "seg (cb_start cb) zs (cb_write cb)"
    "cb_write cb < cb_read cb"
  show ?thesis using seg_length [OF a(2)] seg_length [OF a(4)] a(1,3,5) by simp
qed (use assms(2) in simp)

lemma item_place:
  assumes "cq_inv q xs" "x \<in> set xs"
  shows "fst x \<noteq> cq_self q \<and> fst x \<noteq> NULL \<and> cb_start (cq_cb q) \<le> fst x \<and>
     fst x + snd x \<le> cb_end (cq_cb q) \<and> CBUFFER_ITEM_HDR_DWSIZE \<le> snd x"
  using layout_bounds [of "cq_cb q" xs "fst x" "snd x"] assms HDR_pos by (auto simp: cq_inv_def)

section \<open>The queue operations keep the invariant\<close>

lemma enqueue_inv:
  assumes inv: "cq_inv q xs" and w: "unat dw + CBUFFER_ITEM_HDR_DWSIZE < 4294967296"
    and op: "cqueue_enqueue q dw = (a, q')"
  shows "(a = NULL \<and> q' = q \<and> no_room (cq_cb q) (unat dw + CBUFFER_ITEM_HDR_DWSIZE)) \<or>
     (a \<noteq> NULL \<and> cq_inv q' (xs @ [(a, unat dw + CBUFFER_ITEM_HDR_DWSIZE)]) \<and>
      cq_self q' = cq_self q \<and> cb_start (cq_cb q') = cb_start (cq_cb q) \<and>
      cb_end (cq_cb q') = cb_end (cq_cb q) \<and>
      \<not> no_room (cq_cb q) (unat dw + CBUFFER_ITEM_HDR_DWSIZE))"
proof -
  define s where "s = unat dw + CBUFFER_ITEM_HDR_DWSIZE"
  define ps where "ps = map fst xs"
  have us: "unat (dw + of_nat CBUFFER_ITEM_HDR_DWSIZE) = s"
    using w by (simp add: s_def CBUFFER_ITEM_HDR_DWSIZE_def unat_u32_add)
  obtain p cb m where al: "cbuffer_alloc (cq_cb q) (cq_mem q) s = (p, cb, m)" by (metis prod_cases3)
  note i = inv [unfolded cq_inv_def]
  have al': "(p = NULL \<and> cb = cq_cb q \<and> m = cq_mem q \<and> no_room (cq_cb q) s) \<or>
     (p \<noteq> NULL \<and> layout cb (xs @ [(p, s)]) \<and> cb_start cb = cb_start (cq_cb q) \<and>
      cb_end cb = cb_end (cq_cb q) \<and> m = mem_set (cq_mem q) p zero_item s \<and> \<not> no_room (cq_cb q) s)"
    by (rule alloc_layout [OF _ _ _ _ _ al]) (use i s_def in auto)
  show ?thesis
  proof (cases "p = NULL")
    case True
    with al' al us op i show ?thesis by (auto simp: cqueue_enqueue_def Let_def s_def)
  next
    case False
    with al' have l: "layout cb (xs @ [(p, s)])" "cb_start cb = cb_start (cq_cb q)"
      "cb_end cb = cb_end (cq_cb q)" "m = mem_set (cq_mem q) p zero_item s" "\<not> no_room (cq_cb q) s"
      by auto
    have be: "cb_start cb \<le> cb_end cb" using i l by simp
    have pp: "cb_start cb \<le> p" "p + s \<le> cb_end cb" "CBUFFER_ITEM_HDR_DWSIZE \<le> s"
      using layout_bounds [OF l(1) be, of p s] by auto
    have ns: "p \<noteq> cq_self q" using pp i l HDR_pos by auto
    have dis: "p \<notin> set ps" "distinct ps" using layout_distinct [OF l(1) be] by (auto simp: ps_def)
    have nin: "cq_self q \<notin> set ps" using item_place [OF inv] by (force simp: ps_def)
    have ap: "sorted_wrt apart (xs @ [(p, s)])" using layout_apart [OF l(1)] .
    have old: "m x = cq_mem q x" if x: "x \<in> set ps" for x
    proof -
      obtain t where t: "(x, t) \<in> set xs" using x by (force simp: ps_def)
      then have "apart (x, t) (p, s)" using ap by (auto simp: sorted_wrt_append)
      then show ?thesis using item_place [OF inv t] HDR_pos l(4) by (auto simp: apart_def mem_set_def)
    qed
    have dl: "dll (get_next q) (get_prev q) (cq_self q) ps (cq_self q)" using i by (simp add: ps_def)
    have pv: "cq_prev q = last (cq_self q # ps)" using dll_prev [OF dl] by (simp add: get_prev_def)
    have pn: "cq_prev q \<noteq> p" using pv ns dis(1) by (auto split: if_splits dest: last_in_set)
    have s16: "s < 65536" using pp i l by linarith
    have ds: "unat (ucast (dw + of_nat CBUFFER_ITEM_HDR_DWSIZE) :: u16) = s"
      using us s16 by (simp add: unsigned_ucast_eq take_bit_nat_eq_self)
    define h where "h = \<lparr>it_next = cq_self q, it_prev = cq_prev q,
      it_dwsize = ucast (dw + of_nat CBUFFER_ITEM_HDR_DWSIZE), it_magic = CBUFFER_MAGIC\<rparr>"
    have hm: "(m p)\<lparr>it_next := cq_self q, it_prev := cq_prev q,
        it_dwsize := ucast (dw + of_nat CBUFFER_ITEM_HDR_DWSIZE), it_magic := CBUFFER_MAGIC\<rparr> = h"
      by (simp add: h_def)
    have "a = p \<and> q' = q\<lparr>cq_cb := cb, cq_prev := p, cq_count := cq_count q + 1,
        cq_next := (if cq_prev q = cq_self q then p else cq_next q),
        cq_mem := (if cq_prev q = cq_self q then m(p := h)
          else m(cq_prev q := (m (cq_prev q))\<lparr>it_next := p\<rparr>, p := h))\<rparr>"
    proof (cases "cq_prev q = cq_self q")
      case True
      show ?thesis using op al us False i ns True unfolding cqueue_enqueue_def
        by (simp add: Let_def set_item_def set_next_def hm [unfolded True])
          (auto intro!: CBUFFER_QUEUE_T.equality)
    next
      case 2: False
      show ?thesis using op al us False i ns pn 2 unfolding cqueue_enqueue_def
        by (simp add: Let_def set_item_def set_next_def hm fun_upd_twist)
          (auto intro!: CBUFFER_QUEUE_T.equality)
    qed
    note q' = this
    have mem: "it_next (cq_mem q' x) = (if x = p then cq_self q else if x = cq_prev q \<and> x \<noteq> cq_self q
        then p else it_next (m x))" "it_prev (cq_mem q' x) = (if x = p then cq_prev q else it_prev (m x))"
      "it_magic (cq_mem q' x) = (if x = p then CBUFFER_MAGIC else it_magic (m x))"
      "unat (it_dwsize (cq_mem q' x)) = (if x = p then s else unat (it_dwsize (m x)))" for x
      using q' ds pn by (auto simp: h_def)
    have sel: "cq_self q' = cq_self q" "cq_prev q' = p" "cq_cb q' = cb" "cq_magic q' = cq_magic q"
      "cq_next q' = (if cq_prev q = cq_self q then p else cq_next q)" "cq_count q' = cq_count q + 1"
      using q' by simp_all
    have nx: "get_next q' x = (if x = p then cq_self q else if x = cq_prev q then p
        else if x = cq_self q then cq_next q else it_next (m x))" for x
      using ns by (simp add: get_next_def mem sel)
    have pv': "get_prev q' x = (if x = p then cq_prev q else if x = cq_self q then p else it_prev (m x))" for x
      using ns by (simp add: get_prev_def mem sel)
    have "dll (get_next q') (get_prev q') (cq_self q) ps p"
    proof (rule dll_retarget [OF dl])
      fix x assume x: "x \<in> set (cq_self q # ps)" "x \<noteq> last (cq_self q # ps)"
      have "x \<noteq> cq_prev q" using x pv by simp
      moreover have "x \<noteq> p" using x(1) ns dis(1) by auto
      ultimately show "get_next q' x = get_next q x"
        using x(1) by (cases "x = cq_self q") (simp_all add: nx get_next_def [of q] old)
    next
      fix x assume x: "x \<in> set ps"
      then have "x \<noteq> cq_self q" "x \<noteq> p" using nin dis(1) by metis+
      then show "get_prev q' x = get_prev q x" by (simp add: pv' get_prev_def [of q] old [OF x])
    next
      show "get_next q' (last (cq_self q # ps)) = p" "get_prev q' p = last (cq_self q # ps)"
        unfolding pv [symmetric] using pn by (simp_all add: nx pv')
    qed (use dis nin ns in auto)
    then have "dll (get_next q') (get_prev q') (cq_self q) (ps @ [p]) (cq_self q)"
      using ns by (simp add: dll_snoc nx pv')
    moreover have "\<forall>x \<in> set (xs @ [(p, s)]). header_ok (cq_mem q') x"
    proof
      fix x assume "x \<in> set (xs @ [(p, s)])"
      then consider "x = (p, s)" | "x \<in> set xs" by auto
      then show "header_ok (cq_mem q') x"
      proof cases
        case 2
        then have "fst x \<in> set ps" by (simp add: ps_def)
        with old dis i 2 show ?thesis by (auto simp: header_ok_def mem)
      qed (simp add: header_ok_def mem)
    qed
    moreover have "unat (cq_count q + 1) = Suc (length xs)"
    proof -
      have "Suc (length xs) < 65536" using layout_length [OF l(1) be] i l(2,3) by (simp, linarith)
      then show ?thesis using i by (simp add: unat_word_ariths)
    qed
    ultimately have "cq_inv q' (xs @ [(p, s)])"
      using i l be by (simp add: cq_inv_def ps_def sel)
    then show ?thesis using q' False l(2,3,5) sel by (simp add: s_def)
  qed
qed

lemma dequeue_inv:
  assumes inv: "cq_inv q ((p, s) # xs)" and op: "cqueue_dequeue q = (r, q')"
  shows "r = s \<and> cq_inv q' xs \<and> cq_self q' = cq_self q \<and>
     cb_start (cq_cb q') = cb_start (cq_cb q) \<and> cb_end (cq_cb q') = cb_end (cq_cb q)"
proof -
  define ps where "ps = map fst xs"
  note i = inv [unfolded cq_inv_def]
  have be: "cb_start (cq_cb q) \<le> cb_end (cq_cb q)" and l: "layout (cq_cb q) ((p, s) # xs)"
    using i by auto
  have ns: "p \<noteq> cq_self q" using item_place [OF inv, of "(p, s)"] by simp
  have dis: "p \<notin> set ps" "distinct ps" using layout_distinct [OF l be] by (auto simp: ps_def)
  have nin: "cq_self q \<notin> set ps" using item_place [OF inv] by (force simp: ps_def)
  have dl: "dll (get_next q) (get_prev q) (cq_self q) (p # ps) (cq_self q)"
    using i by (simp add: ps_def)
  define n where "n = it_next (cq_mem q p)"
  have n: "n = hd (ps @ [cq_self q])" using dll_next [of _ _ p ps] dl ns by (auto simp: n_def get_next_def)
  then have np: "n \<noteq> p" using dis ns by (cases ps) auto
  have nx: "cq_next q = p" using dl by (simp add: get_next_def)
  define m1 where "m1 = (if n = cq_self q then cq_mem q
    else (cq_mem q)(n := (cq_mem q n)\<lparr>it_prev := cq_self q\<rparr>))"
  define m2 where "m2 = m1(p := (m1 p)\<lparr>it_magic := 0\<rparr>)"
  have ds: "unat (it_dwsize (m1 p)) = s" using i np by (auto simp: m1_def header_ok_def)
  obtain cb m where fr: "cbuffer_free (cq_cb q) m2 (p + s) = (cb, m)" by force
  note fl = free_layout [OF l be fr]
  have "r = s \<and> q' = q\<lparr>cq_next := n, cq_prev := (if n = cq_self q then cq_self q else cq_prev q),
      cq_cb := cb, cq_mem := m, cq_count := cq_count q - 1\<rparr>"
  proof (cases "n = cq_self q")
    case True
    show ?thesis using op fr ds i ns nx True unfolding cqueue_dequeue_def
      by (simp add: Let_def set_item_def set_prev_def m1_def m2_def flip: n_def)
  next
    case False
    show ?thesis using op fr ds i ns nx False unfolding cqueue_dequeue_def
      by (simp add: Let_def set_item_def set_prev_def m1_def m2_def flip: n_def)
  qed
  note q' = this
  have sel: "cq_self q' = cq_self q" "cq_next q' = n" "cq_cb q' = cb" "cq_magic q' = cq_magic q"
    "cq_prev q' = (if n = cq_self q then cq_self q else cq_prev q)" "cq_count q' = cq_count q - 1"
    "cq_mem q' = m"
    using q' by simp_all
  have mm: "m x = (if x = n then (cq_mem q x)\<lparr>it_prev := cq_self q\<rparr> else cq_mem q x)"
    if "x \<in> set ps" for x
  proof -
    have "m x = m2 x" using that fl by (auto simp: ps_def)
    moreover have "x \<noteq> p" "x \<noteq> cq_self q" using that dis(1) nin by auto
    ultimately show ?thesis by (auto simp: m1_def m2_def)
  qed
  have "dll (get_next q') (get_prev q') (cq_self q) ps (cq_self q)"
  proof (rule dll_tl [OF dl])
    show "get_next q' (cq_self q) = get_next q p" using ns by (simp add: get_next_def sel n_def)
    show "get_next q' x = get_next q x" if "x \<in> set ps" for x
    proof -
      have "x \<noteq> cq_self q" using that nin by auto
      then show ?thesis using mm [OF that] by (auto simp: get_next_def sel)
    qed
    have gp: "get_next q p = n" using ns by (simp add: get_next_def n_def)
    show "get_prev q' (get_next q p) = cq_self q"
      unfolding gp using n mm [of n] by (cases ps) (auto simp: get_prev_def sel)
    show "get_prev q' x = get_prev q x" if "x \<in> set (cq_self q # ps)" "x \<noteq> get_next q p" for x
      using that mm [of x] unfolding gp by (auto simp: get_prev_def sel)
  qed (use dis nin ns in auto)
  moreover have "\<forall>x \<in> set xs. header_ok (cq_mem q') x"
    using i mm by (auto simp: header_ok_def sel ps_def)
  moreover have "unat (cq_count q - 1) = length xs"
  proof -
    have "unat (cq_count q) = Suc (length xs)" using i by simp
    moreover have "cq_count q \<noteq> 0" using calculation by auto
    ultimately show ?thesis by (simp add: unat_minus_one)
  qed
  ultimately show ?thesis using i fl conjunct1 [OF q'] by (simp add: cq_inv_def ps_def sel)
qed

lemma dequeue_empty: "cq_inv q [] \<Longrightarrow> cqueue_dequeue q = (0, q)"
  by (simp add: cq_inv_def cqueue_dequeue_def get_next_def)

lemma init_inv:
  assumes "0 < buffer" "dwsize < 65536" "cq_self q \<noteq> NULL"
    "cq_self q < buffer \<or> buffer + dwsize \<le> cq_self q"
  shows "cq_inv (cqueue_init q buffer dwsize) []"
  using assms by (auto simp: cq_inv_def cqueue_init_def cbuffer_init_def layout_def get_next_def get_prev_def)

section \<open>Walking and validating the queue\<close>

lemma dll_split:
  "dll nx pv u (as @ p # bs) z \<longleftrightarrow> dll nx pv u as p \<and> dll nx pv p bs z"
  by (induction as arbitrary: u) auto

lemma item_links:
  assumes inv: "cq_inv q (as @ x # bs)"
  shows "it_next (cq_mem q (fst x)) = hd (map fst bs @ [cq_self q])"
    "it_prev (cq_mem q (fst x)) = last (cq_self q # map fst as)"
    "get_prev q (hd (map fst bs @ [cq_self q])) = fst x"
    "get_next q (last (cq_self q # map fst as)) = fst x"
proof -
  have d: "dll (get_next q) (get_prev q) (cq_self q) (map fst as) (fst x)"
    "dll (get_next q) (get_prev q) (fst x) (map fst bs) (cq_self q)"
    using inv by (auto simp: cq_inv_def dll_split)
  have ns: "fst x \<noteq> cq_self q" using item_place [OF inv, of x] by simp
  show "it_next (cq_mem q (fst x)) = hd (map fst bs @ [cq_self q])"
    using dll_next [OF d(2)] ns by (simp add: get_next_def)
  show "it_prev (cq_mem q (fst x)) = last (cq_self q # map fst as)"
    using dll_prev [OF d(1)] ns by (simp add: get_prev_def)
  show "get_prev q (hd (map fst bs @ [cq_self q])) = fst x"
    using d(2) by (cases bs) auto
  show "get_next q (last (cq_self q # map fst as)) = fst x"
    using d(1) by (cases as rule: rev_cases) (auto simp: dll_snoc)
qed

lemma queue_distinct: "cq_inv q xs \<Longrightarrow> distinct (map fst xs)"
  using layout_distinct by (auto simp: cq_inv_def)

lemma place_le:
  assumes "cq_inv q xs" "x \<in> set xs"
  shows "cb_start (cq_cb q) \<le> fst x \<and> fst x + CBUFFER_ITEM_HDR_DWSIZE \<le> cb_end (cq_cb q)"
  using item_place [OF assms] by linarith

lemma validate_item_ok:
  assumes inv: "cq_inv q xs" and x: "x \<in> set xs"
  shows "cqueue_validate_item q (fst x)"
proof -
  obtain as bs where xs: "xs = as @ x # bs" using split_list [OF x] by auto
  note li = item_links [OF inv [unfolded xs]] and pl = item_place [OF inv]
  note i = inv [unfolded cq_inv_def]
  have h: "header_ok (cq_mem q) x" using i x by auto
  have d: "fst x \<notin> fst ` set as" "fst x \<notin> fst ` set bs" using queue_distinct [OF inv] xs by auto
  have ns: "fst x \<noteq> cq_self q" using pl [OF x] by simp
  define n where "n = hd (map fst bs @ [cq_self q])"
  define p where "p = last (cq_self q # map fst as)"
  have in_as: "p = cq_self q \<or> (\<exists>y \<in> set as. p = fst y)"
    unfolding p_def by (cases as rule: rev_cases) auto
  have in_bs: "n = cq_self q \<or> (\<exists>y \<in> set bs. n = fst y)"
    unfolding n_def by (cases bs) auto
  note [simp] = li(1,2) [folded n_def p_def]
  have nb: "n \<noteq> fst x" "n \<noteq> cq_self q \<longrightarrow> cb_start (cq_cb q) \<le> n \<and> n + CBUFFER_ITEM_HDR_DWSIZE \<le> cb_end (cq_cb q)"
    using in_bs d(2) place_le [OF inv] ns xs by auto
  have pb: "p \<noteq> fst x" "p \<noteq> cq_self q \<longrightarrow> cb_start (cq_cb q) \<le> p \<and> p + CBUFFER_ITEM_HDR_DWSIZE \<le> cb_end (cq_cb q)"
    using in_as d(1) place_le [OF inv] ns xs by auto
  have nl: "if n \<noteq> cq_self q then it_prev (cq_mem q n) = fst x else cq_prev q = fst x"
    using li(3) [folded n_def] by (auto simp: get_prev_def split: if_splits)
  have pl': "if p \<noteq> cq_self q then it_next (cq_mem q p) = fst x else cq_next q = fst x"
    using li(4) [folded p_def] by (auto simp: get_next_def split: if_splits)
  have dd: "dw_diff (cb_end (cq_cb q)) (cb_start (cq_cb q)) = cb_end (cq_cb q) - cb_start (cq_cb q)"
    using i by (intro dw_diff_eq) auto
  show ?thesis
    using pl [OF x] h nb pb nl pl'
    unfolding cqueue_validate_item_def Let_def dd header_ok_def
    by (auto split: if_splits)
qed

lemma backwards_last:
  assumes "cq_inv q (as @ x # bs)"
  shows "cqueue_backwards q (fst x) = (if as = [] then NULL else fst (last as))"
proof -
  have "last (cq_self q # map fst as) = (if as = [] then cq_self q else fst (last as))"
    by (simp add: last_map)
  moreover have "as \<noteq> [] \<Longrightarrow> fst (last as) \<noteq> cq_self q"
    using item_place [OF assms, of "last as"] by simp
  ultimately show ?thesis using item_links(2) [OF assms] by (auto simp: cqueue_backwards_def)
qed

lemma forwards_hd:
  assumes "cq_inv q (as @ x # bs)"
  shows "cqueue_forwards q (fst x) = (if bs = [] then NULL else fst (hd bs))"
proof -
  have "hd (map fst bs @ [cq_self q]) = (if bs = [] then cq_self q else fst (hd bs))"
    by (cases bs) auto
  moreover have "bs \<noteq> [] \<Longrightarrow> fst (hd bs) \<noteq> cq_self q"
    using item_place [OF assms, of "hd bs"] by (cases bs) auto
  ultimately show ?thesis using item_links(1) [OF assms] by (auto simp: cqueue_forwards_def)
qed

lemma validate_front_loop_inv:
  assumes "cq_inv q (as @ bs)" "k + length as \<le> dw"
  shows "validate_front_loop q dw k (if as = [] then NULL else fst (last as)) = Some (True, k + length as)"
  using assms
proof (induction as arbitrary: k bs rule: rev_induct)
  case Nil
  then show ?case by (simp add: validate_front_loop.simps)
next
  case (snoc x as)
  have i: "cq_inv q (as @ x # bs)" using snoc.prems(1) by simp
  have x: "fst x \<noteq> NULL" "cqueue_validate_item q (fst x)"
    using item_place [OF i, of x] validate_item_ok [OF i, of x] by auto
  have "validate_front_loop q dw (k + 1) (if as = [] then NULL else fst (last as)) =
      Some (True, (k + 1) + length as)"
    using snoc.IH [OF i] snoc.prems(2) by simp
  then show ?case
    using x snoc.prems(2) by (simp add: validate_front_loop.simps [of q dw k] backwards_last [OF i])
qed

lemma count_irrelevant:
  "cqueue_validate_item (q\<lparr>cq_count := c\<rparr>) i = cqueue_validate_item q i"
  "cqueue_forwards (q\<lparr>cq_count := c\<rparr>) i = cqueue_forwards q i"
  by (simp_all add: cqueue_validate_item_def cqueue_forwards_def Let_def)

lemma validate_back_loop_inv:
  assumes "cq_inv q (as @ bs)" "length as + length bs \<le> dw" "length as + length bs < 65536"
  shows "validate_back_loop (q\<lparr>cq_count := of_nat (length as)\<rparr>) dw
      (if bs = [] then NULL else fst (hd bs)) =
    Some (True, q\<lparr>cq_count := of_nat (length as + length bs)\<rparr>)"
  using assms
proof (induction bs arbitrary: as)
  case Nil
  then show ?case by (simp add: validate_back_loop.simps)
next
  case (Cons x bs)
  have x: "fst x \<noteq> NULL" "cqueue_validate_item q (fst x)"
    using item_place [OF Cons.prems(1), of x] validate_item_ok [OF Cons.prems(1), of x] by auto
  have u: "unat (of_nat (length as) :: u16) = length as"
    using Cons.prems(3) by (simp add: unsigned_of_nat take_bit_nat_eq_self)
  have "validate_back_loop (q\<lparr>cq_count := of_nat (length (as @ [x]))\<rparr>) dw
      (if bs = [] then NULL else fst (hd bs)) =
    Some (True, q\<lparr>cq_count := of_nat (length (as @ [x]) + length bs)\<rparr>)"
    by (rule Cons.IH) (use Cons.prems in auto)
  then show ?case
    using x u Cons.prems(2)
    by (simp add: validate_back_loop.simps [of "q\<lparr>cq_count := word_of_nat (length as)\<rparr>"]
        count_irrelevant forwards_hd [OF Cons.prems(1)] add.commute)
qed

lemma queue_ends:
  assumes "cq_inv q xs"
  shows "cq_next q = hd (map fst xs @ [cq_self q])" "cq_prev q = last (cq_self q # map fst xs)"
proof -
  have d: "dll (get_next q) (get_prev q) (cq_self q) (map fst xs) (cq_self q)"
    using assms by (simp add: cq_inv_def)
  show "cq_next q = hd (map fst xs @ [cq_self q])" using dll_next [OF d] by (simp add: get_next_def)
  show "cq_prev q = last (cq_self q # map fst xs)" using dll_prev [OF d] by (simp add: get_prev_def)
qed

lemma front_back_inv:
  assumes "cq_inv q xs"
  shows "cqueue_front q = (if xs = [] then NULL else fst (last xs))"
    "cqueue_back q = (if xs = [] then NULL else fst (hd xs))"
proof -
  have "xs \<noteq> [] \<Longrightarrow> fst (hd xs) \<noteq> cq_self q"
    using item_place [OF assms, of "hd xs"] by simp
  then show "cqueue_front q = (if xs = [] then NULL else fst (last xs))"
    "cqueue_back q = (if xs = [] then NULL else fst (hd xs))"
    using assms queue_ends [OF assms] by (cases xs; auto simp: cq_inv_def cqueue_front_def cqueue_back_def last_map)+
qed

section \<open>The contract of the queue\<close>

text \<open>
  What a client relies on: items are accepted at the tail or refused, and released from the head in
  order. The log of mlog.c is such a client.
\<close>

locale item_queue =
  fixes inv :: "'q \<Rightarrow> (addr \<times> nat) list \<Rightarrow> bool"
    and enq :: "'q \<Rightarrow> u32 \<Rightarrow> addr \<times> 'q"
    and deq :: "'q \<Rightarrow> nat \<times> 'q"
  assumes enq_ok: "inv q xs \<Longrightarrow> unat dw + CBUFFER_ITEM_HDR_DWSIZE < 4294967296 \<Longrightarrow> enq q dw = (a, q') \<Longrightarrow>
      if a = NULL then q' = q else inv q' (xs @ [(a, unat dw + CBUFFER_ITEM_HDR_DWSIZE)])"
    and deq_nil: "inv q [] \<Longrightarrow> deq q = (0, q)"
    and deq_cons: "inv q (x # xs) \<Longrightarrow> deq q = (r, q') \<Longrightarrow> r = snd x \<and> inv q' xs"

datatype cq_op = Enq u32 | Deq

text \<open>A run of operations with their results, and the queue of sizes that explains the results.\<close>

fun fifo_explains :: "nat list \<Rightarrow> (cq_op \<times> nat) list \<Rightarrow> nat list \<Rightarrow> bool" where
  "fifo_explains ss [] ts \<longleftrightarrow> ss = ts"
| "fifo_explains ss ((Enq dw, a) # tr) ts \<longleftrightarrow>
     fifo_explains (if a = NULL then ss else ss @ [unat dw + CBUFFER_ITEM_HDR_DWSIZE]) tr ts"
| "fifo_explains ss ((Deq, r) # tr) ts \<longleftrightarrow>
     (case ss of [] \<Rightarrow> r = 0 \<and> fifo_explains [] tr ts | s # ss' \<Rightarrow> r = s \<and> fifo_explains ss' tr ts)"

fun run_ops :: "('q \<Rightarrow> u32 \<Rightarrow> addr \<times> 'q) \<Rightarrow> ('q \<Rightarrow> nat \<times> 'q) \<Rightarrow> 'q \<Rightarrow> cq_op list \<Rightarrow>
    (cq_op \<times> nat) list \<times> 'q" where
  "run_ops enq deq q [] = ([], q)"
| "run_ops enq deq q (Enq dw # ops) =
     (let (a, q') = enq q dw; (tr, q'') = run_ops enq deq q' ops in ((Enq dw, a) # tr, q''))"
| "run_ops enq deq q (Deq # ops) =
     (let (r, q') = deq q; (tr, q'') = run_ops enq deq q' ops in ((Deq, r) # tr, q''))"

fun op_fits :: "cq_op \<Rightarrow> bool" where
  "op_fits (Enq dw) \<longleftrightarrow> unat dw + CBUFFER_ITEM_HDR_DWSIZE < 4294967296"
| "op_fits Deq \<longleftrightarrow> True"

context item_queue
begin

lemma run_explained:
  "inv q xs \<Longrightarrow> (\<forall>p \<in> set ops. op_fits p) \<Longrightarrow> run_ops enq deq q ops = (tr, q') \<Longrightarrow>
     \<exists>ys. inv q' ys \<and> fifo_explains (map snd xs) tr (map snd ys)"
proof (induction ops arbitrary: q xs tr)
  case (Cons p ops)
  show ?case
  proof (cases p)
    case (Enq dw)
    obtain a q1 where e: "enq q dw = (a, q1)" by force
    obtain tr1 where r: "run_ops enq deq q1 ops = (tr1, q')" "tr = (Enq dw, a) # tr1"
      using Cons.prems(3) Enq e by (auto split: prod.splits)
    have "if a = NULL then q1 = q else inv q1 (xs @ [(a, unat dw + CBUFFER_ITEM_HDR_DWSIZE)])"
      using enq_ok [OF Cons.prems(1) _ e] Cons.prems(2) Enq by simp
    then show ?thesis
      using Cons.IH [OF _ _ r(1), of xs] Cons.prems(1,2) r(2)
        Cons.IH [OF _ _ r(1), of "xs @ [(a, unat dw + CBUFFER_ITEM_HDR_DWSIZE)]"]
      by (auto split: if_splits)
  next
    case Deq
    obtain r q1 where e: "deq q = (r, q1)" by force
    obtain tr1 where t: "run_ops enq deq q1 ops = (tr1, q')" "tr = (Deq, r) # tr1"
      using Cons.prems(3) Deq e by (auto split: prod.splits)
    show ?thesis
    proof (cases xs)
      case Nil
      then have "r = 0" "q1 = q" using deq_nil Cons.prems(1) e by auto
      then show ?thesis using Cons.IH [OF _ _ t(1), of "[]"] Cons.prems(1,2) t(2) Nil by simp
    next
      case (Cons x xs')
      then have "r = snd x" "inv q1 xs'" using deq_cons [OF _ e] Cons.prems(1) by auto
      then show ?thesis using Cons.IH [OF _ _ t(1), of xs'] Cons.prems(2) t(2) Cons by simp
    qed
  qed
qed auto

end

interpretation cqueue: item_queue cq_inv cqueue_enqueue cqueue_dequeue
proof
  show "if a = NULL then q' = q else cq_inv q' (xs @ [(a, unat dw + CBUFFER_ITEM_HDR_DWSIZE)])"
    if "cq_inv q xs" "unat dw + CBUFFER_ITEM_HDR_DWSIZE < 4294967296" "cqueue_enqueue q dw = (a, q')"
    for q xs dw a q' using enqueue_inv [OF that] by auto
  show "r = snd x \<and> cq_inv q' xs" if "cq_inv q (x # xs)" "cqueue_dequeue q = (r, q')" for q x xs r q'
    using dequeue_inv [of q "fst x" "snd x" xs r q'] that by auto
qed (rule dequeue_empty)

section \<open>Properties\<close>

definition demo_cq :: CBUFFER_QUEUE_T where
  "demo_cq = cqueue_init \<lparr>cq_next = 0, cq_prev = 0, cq_count = 0, cq_magic = 0,
     cq_cb = \<lparr>cb_write = 0, cb_read = 0, cb_start = 0, cb_end = 0\<rparr>,
     cq_mem = (\<lambda>_. zero_item), cq_self = 1\<rparr> 100 20"

lemma demo_cq_inv: "cq_inv demo_cq []"
  unfolding demo_cq_def by (rule init_inv) auto

lemma demo_enqueue: "fst (cqueue_enqueue demo_cq 4) = 100"
  by (simp add: demo_cq_def cqueue_init_def cbuffer_init_def cqueue_enqueue_def cbuffer_alloc_def
      CBUFFER_ITEM_HDR_DWSIZE_def dw_diff_def set_item_def set_next_def Let_def)

text \<open>C37: \<open>cqueue_enqueue\<close> either refuses, leaving the queue as it was, because neither gap can take
  the item with its header, or it appends one item whose words lie inside the buffer and overlap no
  live item, and the queue stays well formed.\<close>

theorem cqueue_enqueue_safe:
  assumes "cq_inv q xs" "unat dw + CBUFFER_ITEM_HDR_DWSIZE < 4294967296"
    "cqueue_enqueue q dw = (a, q')"
  defines "s \<equiv> unat dw + CBUFFER_ITEM_HDR_DWSIZE"
  shows "if a = NULL then q' = q \<and> no_room (cq_cb q) s
     else \<not> no_room (cq_cb q) s \<and> cq_inv q' (xs @ [(a, s)]) \<and> cb_start (cq_cb q) \<le> a \<and>
       a + s \<le> cb_end (cq_cb q) \<and> (\<forall>y \<in> set xs. apart y (a, s))"
proof (cases "a = NULL")
  case False
  with enqueue_inv [OF assms(1-3)] have e: "cq_inv q' (xs @ [(a, s)])" "\<not> no_room (cq_cb q) s"
    "cb_start (cq_cb q') = cb_start (cq_cb q)" "cb_end (cq_cb q') = cb_end (cq_cb q)"
    by (auto simp: s_def)
  moreover have "sorted_wrt apart (xs @ [(a, s)])"
    using e(1) layout_apart by (auto simp: cq_inv_def)
  ultimately show ?thesis using item_place [OF e(1), of "(a, s)"] False by (auto simp: sorted_wrt_append)
qed (use enqueue_inv [OF assms(1-3)] in \<open>auto simp: s_def\<close>)

theorem cqueue_enqueue_safe_witness:
  "cq_inv (snd (cqueue_enqueue demo_cq 4)) [(100, 10)]"
  using cqueue_enqueue_safe [OF demo_cq_inv, of 4 100 "snd (cqueue_enqueue demo_cq 4)"] demo_enqueue
  by (simp add: CBUFFER_ITEM_HDR_DWSIZE_def prod_eq_iff)

text \<open>C4: whatever sequence of enqueues and dequeues is run on an initialised queue, the results are
  those of a FIFO: every dequeue returns the size of the oldest item accepted and not yet released, or
  0 when there is none, and the final queue holds the rest in order.\<close>

theorem cqueue_run_fifo:
  assumes "0 < buffer" "dwsize < 65536" "cq_self q \<noteq> NULL"
    "cq_self q < buffer \<or> buffer + dwsize \<le> cq_self q" "\<forall>p \<in> set ops. op_fits p"
    "run_ops cqueue_enqueue cqueue_dequeue (cqueue_init q buffer dwsize) ops = (tr, q')"
  shows "\<exists>ys. cq_inv q' ys \<and> fifo_explains [] tr (map snd ys)"
  using cqueue.run_explained [OF init_inv [OF assms(1-4)] assms(5,6)] by simp

theorem cqueue_run_fifo_witness:
  "\<exists>ys. cq_inv (snd (run_ops cqueue_enqueue cqueue_dequeue demo_cq [Enq 4, Deq, Deq])) ys \<and>
     fifo_explains [] (fst (run_ops cqueue_enqueue cqueue_dequeue demo_cq [Enq 4, Deq, Deq])) (map snd ys)"
  unfolding demo_cq_def
  by (rule cqueue_run_fifo [OF _ _ _ _ _ prod.collapse [symmetric]])
    (auto simp: CBUFFER_ITEM_HDR_DWSIZE_def)

text \<open>\<open>cqueue_validate\<close> returns, and accepts every well formed queue without changing it: both
  walks visit exactly the live items.\<close>

theorem cqueue_validate_accepts:
  assumes "cq_inv q xs"
  shows "cqueue_validate q (cb_start (cq_cb q)) (cb_end (cq_cb q) - cb_start (cq_cb q)) = Some (True, q)"
proof -
  note i = assms [unfolded cq_inv_def]
  have e: "cb_start (cq_cb q) \<le> cb_read (cq_cb q) \<and> cb_read (cq_cb q) \<le> cb_end (cq_cb q) \<and>
      cb_start (cq_cb q) \<le> cb_write (cq_cb q) \<and> cb_write (cq_cb q) \<le> cb_end (cq_cb q)"
    using layout_ends i by auto
  have len: "length xs \<le> cb_end (cq_cb q) - cb_start (cq_cb q)" "length xs < 65536"
    using layout_length [of "cq_cb q" xs] i by auto
  note n = queue_ends [OF assms]
  have nb: "cq_next q \<noteq> cq_self q \<Longrightarrow> cq_next q < cb_end (cq_cb q) \<and> cb_start (cq_cb q) \<le> cq_next q"
    using item_place [OF assms, of "hd xs"] HDR_pos n by (cases xs) auto
  have pb: "cq_prev q \<noteq> cq_self q \<Longrightarrow> cq_prev q < cb_end (cq_cb q) \<and> cb_start (cq_cb q) \<le> cq_prev q"
    using item_place [OF assms, of "last xs"] HDR_pos n by (cases xs rule: rev_cases) auto
  have f: "validate_front_loop q (cb_end (cq_cb q) - cb_start (cq_cb q)) 0 (cqueue_front q) =
      Some (True, length xs)"
    using validate_front_loop_inv [of q xs "[]" 0] assms len front_back_inv(1) [OF assms] by simp
  have cb: "cqueue_back (q\<lparr>cq_count := 0\<rparr>) = cqueue_back q"
    by (simp add: cqueue_back_def)
  have c: "cq_count q = of_nat (length xs)" using i by (metis of_nat_unat ucast_id)
  have "q\<lparr>cq_count := of_nat (length xs)\<rparr> = q" using c [symmetric] by simp
  then have b: "validate_back_loop (q\<lparr>cq_count := 0\<rparr>) (cb_end (cq_cb q) - cb_start (cq_cb q))
      (cqueue_back (q\<lparr>cq_count := 0\<rparr>)) = Some (True, q)"
    using validate_back_loop_inv [of q "[]" xs] assms len unfolding cb front_back_inv(2) [OF assms]
    by simp
  have "\<not> (cq_next q \<noteq> cq_self q \<and> (cq_next q \<ge> cb_end (cq_cb q) \<or> cq_next q < cb_start (cq_cb q)))"
    "\<not> (cq_prev q \<noteq> cq_self q \<and> (cq_prev q \<ge> cb_end (cq_cb q) \<or> cq_prev q < cb_start (cq_cb q)))"
    using nb pb by auto
  then show ?thesis
    using i e f b unfolding cqueue_validate_def Let_def by simp
qed

theorem cqueue_validate_accepts_witness:
  "cqueue_validate demo_cq 100 20 = Some (True, demo_cq)"
  using cqueue_validate_accepts [OF demo_cq_inv]
  by (simp add: demo_cq_def cqueue_init_def cbuffer_init_def Let_def)

end
