(* ===== verification/Dictionary.thy ===== *)
theory Dictionary
  imports Lists "HOL-Library.Monad_Syntax"
begin

text \<open>
  The hash dictionary, src/common/dictionary.c. Nodes live in a heap: \<open>h_live\<close> lists the
  blocks that are allocated, \<open>h_nodes\<close> gives the content of a node, and \<open>h_fault\<close> records an
  access the source makes outside a block or a release of a block that is not allocated. The
  platform's \<open>qoraal_malloc\<close> is the parameter \<open>mal\<close>; \<open>qoraal_free\<close> gives the block back.
  The content of a fresh block is \<open>h_junk\<close>. Pointers have 64 bits, characters are signed.

  A bucket is a chain through \<open>dl_next\<close>. The invariant \<open>dict_inv\<close> relates heap and dictionary with the
  list of chains; \<open>dict_map\<close> is the finite map the dictionary stands for.
\<close>

section \<open>Data\<close>

datatype dkey = KStr "u8 list" | KShort u16 | KBin "u32 list"

datatype keyval_kind = Str_key | Const_str_key | Ushort_key | Binary_key

text \<open>A node: link, key, block of the key string (string keys only), value area.\<close>

record dlist =
  dl_next :: addr
  dl_key :: dkey
  dl_keyp :: addr
  dl_value :: "u8 list"

record heap =
  h_live :: "addr list"
  h_nodes :: "addr \<Rightarrow> dlist"
  h_junk :: u8
  h_fault :: bool

record dictionary =
  d_key :: keyval_kind
  d_hashsize :: u32
  d_keyspec :: u32
  d_count :: u32
  d_hashtab :: "addr list"

definition DICTIONARY_KEYTYPE_STRING :: u32 where "DICTIONARY_KEYTYPE_STRING = 0"
definition DICTIONARY_KEYTYPE_CONST_STRING :: u32 where "DICTIONARY_KEYTYPE_CONST_STRING = 1"
definition DICTIONARY_KEYTYPE_USHORT :: u32 where "DICTIONARY_KEYTYPE_USHORT = 3"
definition DICTIONARY_KEYTYPE_BINARY :: u32 where "DICTIONARY_KEYTYPE_BINARY = 4"

definition DICTIONARY_MKKEY :: "u32 \<Rightarrow> u32 \<Rightarrow> u32" where
  "DICTIONARY_MKKEY keytype spec = (push_bit 16 keytype OR spec)"

definition DICTIONARY_KEYSPEC_STRING :: u32 where
  "DICTIONARY_KEYSPEC_STRING = DICTIONARY_MKKEY DICTIONARY_KEYTYPE_STRING 0"
definition DICTIONARY_KEYSPEC_CONST_STRING :: u32 where
  "DICTIONARY_KEYSPEC_CONST_STRING = DICTIONARY_MKKEY DICTIONARY_KEYTYPE_CONST_STRING 0"
definition DICTIONARY_KEYSPEC_USHORT :: u32 where
  "DICTIONARY_KEYSPEC_USHORT = DICTIONARY_MKKEY DICTIONARY_KEYTYPE_USHORT 0"
definition DICTIONARY_KEYSPEC_BINARY :: "u32 \<Rightarrow> u32" where
  "DICTIONARY_KEYSPEC_BINARY n = DICTIONARY_MKKEY DICTIONARY_KEYTYPE_BINARY n"

section \<open>The heap\<close>

type_synonym malloc = "heap \<Rightarrow> nat \<Rightarrow> addr"

definition DICTIONARY_MALLOC :: "malloc \<Rightarrow> heap \<Rightarrow> nat \<Rightarrow> addr \<times> heap" where
  "DICTIONARY_MALLOC mal h n =
     (let p = mal h n in (p, if p = NULL then h else h\<lparr>h_live := p # h_live h\<rparr>))"

definition DICTIONARY_FREE :: "heap \<Rightarrow> addr \<Rightarrow> heap" where
  "DICTIONARY_FREE h p =
     (if p \<in> set (h_live h) then h\<lparr>h_live := remove1 p (h_live h)\<rparr> else h\<lparr>h_fault := True\<rparr>)"

definition upd_node :: "heap \<Rightarrow> addr \<Rightarrow> (dlist \<Rightarrow> dlist) \<Rightarrow> heap" where
  "upd_node h p f = h\<lparr>h_nodes := (h_nodes h)(p := f (h_nodes h p))\<rparr>"

text \<open>\<open>memcpy\<close> of \<open>n\<close> bytes to the value area of a node.\<close>

definition memcpy_value :: "heap \<Rightarrow> addr \<Rightarrow> u8 list \<Rightarrow> nat \<Rightarrow> heap" where
  "memcpy_value h p v n =
     (if n \<le> length v \<and> n \<le> length (dl_value (h_nodes h p))
      then upd_node h p (\<lambda>x. x\<lparr>dl_value := take n v @ drop n (dl_value x)\<rparr>)
      else h\<lparr>h_fault := True\<rparr>)"

definition key_words :: "dictionary \<Rightarrow> nat" where
  "key_words d = unat (d_keyspec d AND 0xFFFF)"

section \<open>The key types\<close>

definition dictionary_str_keyval_alloc ::
    "malloc \<Rightarrow> heap \<Rightarrow> u8 list \<Rightarrow> nat \<Rightarrow> addr \<times> heap" where
  "dictionary_str_keyval_alloc mal h s n =
     (let (np, h1) = DICTIONARY_MALLOC mal h (8 + 8 + n)
      in if np = NULL then (NULL, h1)
         else (let (p, h2) = DICTIONARY_MALLOC mal h1 (length s + 1)
               in if p = NULL then (NULL, DICTIONARY_FREE h2 np)
                  else (np, upd_node h2 np (\<lambda>_. \<lparr>dl_next = NULL, dl_key = KStr s, dl_keyp = p,
                         dl_value = replicate n (h_junk h)\<rparr>))))"

definition dictionary_str_keyval_free :: "heap \<Rightarrow> addr \<Rightarrow> heap" where
  "dictionary_str_keyval_free h np =
     DICTIONARY_FREE (DICTIONARY_FREE h (dl_keyp (h_nodes h np))) np"

definition dictionary_const_str_keyval_alloc ::
    "malloc \<Rightarrow> heap \<Rightarrow> u8 list \<Rightarrow> nat \<Rightarrow> addr \<times> heap" where
  "dictionary_const_str_keyval_alloc mal h s n =
     (let (np, h1) = DICTIONARY_MALLOC mal h (8 + 8 + n)
      in if np = NULL then (NULL, h1)
         else (np, upd_node h1 np (\<lambda>_. \<lparr>dl_next = NULL, dl_key = KStr s, dl_keyp = NULL,
                dl_value = replicate n (h_junk h)\<rparr>)))"

definition dictionary_const_str_keyval_free :: "heap \<Rightarrow> addr \<Rightarrow> heap" where
  "dictionary_const_str_keyval_free h np = DICTIONARY_FREE h np"

definition dictionary_str_key_hash :: "dictionary \<Rightarrow> u8 list \<Rightarrow> u32" where
  "dictionary_str_key_hash d s =
     fold (\<lambda>c hashval. (push_bit 5 hashval + hashval) + scast c) s 5381 mod d_hashsize d"

text \<open>
  The ushort key is stored through a 64-bit pointer but only 4 bytes separate it from the value, so
  storing it clears the first 4 bytes of the value area.
\<close>

definition dictionary_ushort_keyval_alloc ::
    "malloc \<Rightarrow> heap \<Rightarrow> u16 \<Rightarrow> nat \<Rightarrow> addr \<times> heap" where
  "dictionary_ushort_keyval_alloc mal h s n =
     (let (np, h1) = DICTIONARY_MALLOC mal h (8 + 4 + n)
      in if np = NULL then (NULL, h1)
         else (let h2 = upd_node h1 np (\<lambda>_. \<lparr>dl_next = NULL, dl_key = KShort s, dl_keyp = NULL,
                   dl_value = replicate (min 4 n) 0 @ replicate (n - 4) (h_junk h)\<rparr>)
               in (np, if n < 4 then h2\<lparr>h_fault := True\<rparr> else h2)))"

definition dictionary_ushort_keyval_free :: "heap \<Rightarrow> addr \<Rightarrow> heap" where
  "dictionary_ushort_keyval_free h np = DICTIONARY_FREE h np"

definition dictionary_ushort_key_hash :: "dictionary \<Rightarrow> u16 \<Rightarrow> u32" where
  "dictionary_ushort_key_hash d s = ucast s mod d_hashsize d"

definition dictionary_binary_keyval_alloc ::
    "malloc \<Rightarrow> heap \<Rightarrow> dictionary \<Rightarrow> u32 list \<Rightarrow> nat \<Rightarrow> addr \<times> heap" where
  "dictionary_binary_keyval_alloc mal h d s n =
     (let keylen = key_words d; (np, h1) = DICTIONARY_MALLOC mal h (8 + keylen * 4 + n)
      in if np = NULL then (NULL, h1)
         else (np, upd_node h1 np (\<lambda>_. \<lparr>dl_next = NULL, dl_key = KBin (take keylen s), dl_keyp = NULL,
                dl_value = replicate n (h_junk h)\<rparr>)))"

definition dictionary_binary_keyval_free :: "heap \<Rightarrow> addr \<Rightarrow> heap" where
  "dictionary_binary_keyval_free h np = DICTIONARY_FREE h np"

definition dictionary_binary_key_hash :: "dictionary \<Rightarrow> u32 list \<Rightarrow> u32" where
  "dictionary_binary_key_hash d s = fold (\<lambda>k hash. hash + k) (take (key_words d) s) 0 mod d_hashsize d"

definition dictionary_str_key_cmp :: "dlist \<Rightarrow> u8 list \<Rightarrow> bool" where
  "dictionary_str_key_cmp x s \<longleftrightarrow> dl_key x = KStr s"

definition dictionary_ushort_key_cmp :: "dlist \<Rightarrow> u16 \<Rightarrow> bool" where
  "dictionary_ushort_key_cmp x s \<longleftrightarrow> dl_key x = KShort s \<and> list_all (\<lambda>b. b = 0) (take 4 (dl_value x))"

definition dictionary_binary_key_cmp :: "dictionary \<Rightarrow> dlist \<Rightarrow> u32 list \<Rightarrow> bool" where
  "dictionary_binary_key_cmp d x s \<longleftrightarrow>
     (case dl_key x of KBin t \<Rightarrow> take (key_words d) s = take (key_words d) t | _ \<Rightarrow> False)"

text \<open>The calls through the table of key functions.\<close>

fun key_alloc :: "malloc \<Rightarrow> heap \<Rightarrow> dictionary \<Rightarrow> dkey \<Rightarrow> nat \<Rightarrow> addr \<times> heap" where
  "key_alloc mal h d (KStr s) n =
     (if d_key d = Const_str_key then dictionary_const_str_keyval_alloc mal h s n
      else dictionary_str_keyval_alloc mal h s n)"
| "key_alloc mal h d (KShort s) n = dictionary_ushort_keyval_alloc mal h s n"
| "key_alloc mal h d (KBin s) n = dictionary_binary_keyval_alloc mal h d s n"

fun key_free :: "keyval_kind \<Rightarrow> heap \<Rightarrow> addr \<Rightarrow> heap" where
  "key_free Str_key h np = dictionary_str_keyval_free h np"
| "key_free Const_str_key h np = dictionary_const_str_keyval_free h np"
| "key_free Ushort_key h np = dictionary_ushort_keyval_free h np"
| "key_free Binary_key h np = dictionary_binary_keyval_free h np"

fun key_hash :: "dictionary \<Rightarrow> dkey \<Rightarrow> u32" where
  "key_hash d (KStr s) = dictionary_str_key_hash d s"
| "key_hash d (KShort s) = dictionary_ushort_key_hash d s"
| "key_hash d (KBin s) = dictionary_binary_key_hash d s"

fun key_cmp :: "dictionary \<Rightarrow> dlist \<Rightarrow> dkey \<Rightarrow> bool" where
  "key_cmp d x (KStr s) = dictionary_str_key_cmp x s"
| "key_cmp d x (KShort s) = dictionary_ushort_key_cmp x s"
| "key_cmp d x (KBin s) = dictionary_binary_key_cmp d x s"

text \<open>A key has the type the dictionary was made for.\<close>

fun key_fits :: "dictionary \<Rightarrow> dkey \<Rightarrow> bool" where
  "key_fits d (KStr s) \<longleftrightarrow> d_key d = Str_key \<or> d_key d = Const_str_key"
| "key_fits d (KShort s) \<longleftrightarrow> d_key d = Ushort_key"
| "key_fits d (KBin s) \<longleftrightarrow> d_key d = Binary_key \<and> length s = key_words d"

section \<open>Operations\<close>

text \<open>\<open>None\<close>: no memory for the dictionary. Otherwise its block, the heap and its cleared content.\<close>

definition dictionary_init ::
    "malloc \<Rightarrow> heap \<Rightarrow> u32 \<Rightarrow> u32 \<Rightarrow> (addr \<times> heap \<times> dictionary) option" where
  "dictionary_init mal h keyspec hashsize =
     (let (dp, h1) = DICTIONARY_MALLOC mal h (32 + 8 * unat hashsize)
      in if dp = NULL then None else Some (dp, h1,
     \<lparr>d_key = (if drop_bit 16 keyspec = DICTIONARY_KEYTYPE_BINARY then Binary_key
               else if keyspec = DICTIONARY_KEYSPEC_USHORT then Ushort_key
               else if keyspec = DICTIONARY_KEYSPEC_CONST_STRING then Const_str_key
               else Str_key),
      d_hashsize = hashsize, d_keyspec = keyspec, d_count = 0,
      d_hashtab = replicate (unat hashsize) NULL\<rparr>))"

definition bucket :: "dictionary \<Rightarrow> dkey \<Rightarrow> addr" where
  "bucket d k = d_hashtab d ! unat (key_hash d k)"

partial_function (option) lookup_loop :: "heap \<Rightarrow> dictionary \<Rightarrow> dkey \<Rightarrow> addr \<Rightarrow> addr option" where
  "lookup_loop h d k np =
     (if np = NULL then Some NULL
      else if key_cmp d (h_nodes h np) k then Some np
      else lookup_loop h d k (dl_next (h_nodes h np)))"

definition dict_lookup :: "heap \<Rightarrow> dictionary \<Rightarrow> dkey \<Rightarrow> addr option" where
  "dict_lookup h d k = lookup_loop h d k (bucket d k)"

partial_function (option) remove_loop ::
    "heap \<Rightarrow> dictionary \<Rightarrow> dkey \<Rightarrow> addr \<Rightarrow> addr \<Rightarrow> (addr \<times> addr) option" where
  "remove_loop h d k prev np =
     (if np = NULL then Some (prev, NULL)
      else if key_cmp d (h_nodes h np) k then Some (prev, np)
      else remove_loop h d k np (dl_next (h_nodes h np)))"

text \<open>Taking a node out of its chain, as \<open>dict_remove\<close>, \<open>dictionary_it_remove\<close> and
  \<open>dictionary_it_move\<close> do it.\<close>

definition unlink :: "heap \<Rightarrow> dictionary \<Rightarrow> nat \<Rightarrow> addr \<Rightarrow> addr \<Rightarrow> heap \<times> dictionary" where
  "unlink h d i prev np =
     (let d1 = d\<lparr>d_count := d_count d - 1\<rparr>; nx = dl_next (h_nodes h np)
      in if prev \<noteq> NULL then (upd_node h prev (\<lambda>x. x\<lparr>dl_next := nx\<rparr>), d1)
         else (h, d1\<lparr>d_hashtab := (d_hashtab d1)[i := nx]\<rparr>))"

definition link_head :: "heap \<Rightarrow> dictionary \<Rightarrow> dkey \<Rightarrow> addr \<Rightarrow> heap \<times> dictionary" where
  "link_head h d k np =
     (let i = unat (key_hash d k)
      in (upd_node h np (\<lambda>x. x\<lparr>dl_next := d_hashtab d ! i\<rparr>),
          d\<lparr>d_hashtab := (d_hashtab d)[i := np], d_count := d_count d + 1\<rparr>))"

definition dict_remove :: "heap \<Rightarrow> dictionary \<Rightarrow> dkey \<Rightarrow> (addr \<times> heap \<times> dictionary) option" where
  "dict_remove h d k =
     do {
       (prev, np) \<leftarrow> remove_loop h d k NULL (bucket d k);
       Some (np, if np \<noteq> NULL then unlink h d (unat (key_hash d k)) prev np else (h, d))
     }"

definition dictionary_install_size ::
    "malloc \<Rightarrow> heap \<Rightarrow> dictionary \<Rightarrow> dkey \<Rightarrow> nat \<Rightarrow> (addr \<times> heap \<times> dictionary) option" where
  "dictionary_install_size mal h d k n =
     do {
       np \<leftarrow> dict_lookup h d k;
       Some (if np = NULL then
               (let (np, h) = key_alloc mal h d k n
                in if np = NULL then (NULL, h, d) else (np, link_head h d k np))
             else (np, h, d))
     }"

definition dictionary_replace ::
    "malloc \<Rightarrow> heap \<Rightarrow> dictionary \<Rightarrow> dkey \<Rightarrow> u8 list \<Rightarrow> nat \<Rightarrow> (addr \<times> heap \<times> dictionary) option" where
  "dictionary_replace mal h d k v n =
     do {
       (np, h, d) \<leftarrow> dictionary_install_size mal h d k n;
       Some (if np = NULL then (NULL, h, d) else (np, memcpy_value h np v n, d))
     }"

definition dictionary_lookup ::
    "malloc \<Rightarrow> heap \<Rightarrow> dictionary \<Rightarrow> dkey \<Rightarrow> u8 list \<Rightarrow> nat \<Rightarrow> (addr \<times> heap \<times> dictionary) option" where
  "dictionary_lookup mal h d k v n =
     do {
       np \<leftarrow> dict_lookup h d k;
       Some (if np = NULL then
               (let (np, h) = key_alloc mal h d k n
                in if np = NULL then (NULL, h, d)
                   else (let (h, d) = link_head h d k np in (np, memcpy_value h np v n, d)))
             else (np, h, d))
     }"

definition dictionary_get :: "heap \<Rightarrow> dictionary \<Rightarrow> dkey \<Rightarrow> addr option" where
  "dictionary_get h d k = dict_lookup h d k"

definition dictionary_remove :: "heap \<Rightarrow> dictionary \<Rightarrow> dkey \<Rightarrow> (u32 \<times> heap \<times> dictionary) option" where
  "dictionary_remove h d k =
     do {
       (np, h, d) \<leftarrow> dict_remove h d k;
       Some (if np = NULL then (0, h, d) else (1, key_free (d_key d) h np, d))
     }"

text \<open>\<open>dictionary_remove_all\<close>: the nodes handed to the callback are collected in order.\<close>

partial_function (option) remove_bucket ::
    "heap \<Rightarrow> dictionary \<Rightarrow> nat \<Rightarrow> (addr list \<times> heap \<times> dictionary) option" where
  "remove_bucket h d i =
     (let np = d_hashtab d ! i
      in if np = NULL then Some ([], h, d)
         else do {
           (cbs, h', d') \<leftarrow> remove_bucket (key_free (d_key d) h np)
               (d\<lparr>d_hashtab := (d_hashtab d)[i := dl_next (h_nodes h np)], d_count := d_count d - 1\<rparr>) i;
           Some (np # cbs, h', d')
         })"

fun remove_buckets ::
    "heap \<Rightarrow> dictionary \<Rightarrow> nat list \<Rightarrow> (addr list \<times> heap \<times> dictionary) option" where
  "remove_buckets h d [] = Some ([], h, d)"
| "remove_buckets h d (i # is) =
     do {
       (cbs, h, d) \<leftarrow> remove_bucket h d i;
       (cbs', h, d) \<leftarrow> remove_buckets h d is;
       Some (cbs @ cbs', h, d)
     }"

definition dictionary_remove_all :: "heap \<Rightarrow> dictionary \<Rightarrow> (addr list \<times> heap \<times> dictionary) option" where
  "dictionary_remove_all h d = remove_buckets h d [0..<unat (d_hashsize d)]"

text \<open>\<open>dictionary_remove_all\<close> with \<open>destroy\<close>, for a dictionary whose own block is \<open>dp\<close>.\<close>

definition dictionary_destroy :: "heap \<Rightarrow> addr \<Rightarrow> dictionary \<Rightarrow> (addr list \<times> heap) option" where
  "dictionary_destroy h dp d =
     do { (cbs, h, d) \<leftarrow> dictionary_remove_all h d; Some (cbs, DICTIONARY_FREE h dp) }"

section \<open>Iteration\<close>

text \<open>The comparison callback, with its dictionary and parameter, is a function of two nodes.\<close>

record dictionary_it =
  di_np :: addr
  di_prev :: addr
  di_idx :: int
  di_cmp :: "(addr \<Rightarrow> addr \<Rightarrow> int) option"
  di_unique :: bool

definition dict_it_next :: "heap \<Rightarrow> dictionary \<Rightarrow> dictionary_it \<Rightarrow> addr \<times> dictionary_it" where
  "dict_it_next h d it =
     (let nx = dl_next (h_nodes h (di_np it))
      in if di_np it \<noteq> NULL \<and> nx \<noteq> NULL then (nx, it\<lparr>di_prev := di_np it, di_np := nx\<rparr>)
         else (let it = it\<lparr>di_prev := NULL\<rparr>
               in case List.find (\<lambda>i. d_hashtab d ! i \<noteq> NULL)
                         [nat (di_idx it + 1)..<unat (d_hashsize d)] of
                    Some i \<Rightarrow> (d_hashtab d ! i, it\<lparr>di_np := d_hashtab d ! i, di_idx := int i\<rparr>)
                  | None \<Rightarrow> (NULL, it\<lparr>di_np := NULL\<rparr>)))"

partial_function (option) it_min_loop ::
    "heap \<Rightarrow> dictionary \<Rightarrow> (addr \<Rightarrow> addr \<Rightarrow> int) \<Rightarrow> dictionary_it \<Rightarrow> addr \<Rightarrow> int \<Rightarrow>
      (dictionary_it \<times> addr \<times> int) option" where
  "it_min_loop h d cmp it nextnp idx =
     (let (np, it) = dict_it_next h d it
      in if np = NULL then Some (it, nextnp, idx)
         else if cmp nextnp np > 0 then it_min_loop h d cmp it np (di_idx it)
         else it_min_loop h d cmp it nextnp idx)"

definition dictionary_it_first ::
    "heap \<Rightarrow> dictionary \<Rightarrow> dictionary_it \<Rightarrow> (addr \<Rightarrow> addr \<Rightarrow> int) option \<Rightarrow> bool \<Rightarrow>
      (addr \<times> dictionary_it) option" where
  "dictionary_it_first h d it cmp unique =
     (let it = it\<lparr>di_idx := -1, di_cmp := cmp, di_np := NULL, di_unique := unique\<rparr>;
          (nextnp, it) = dict_it_next h d it
      in case cmp of
           None \<Rightarrow> Some (nextnp, it)
         | Some c \<Rightarrow>
             if nextnp = NULL then Some (nextnp, it)
             else do {
               (it, nextnp, idx) \<leftarrow> it_min_loop h d c it nextnp (di_idx it);
               Some (nextnp, it\<lparr>di_np := nextnp, di_idx := idx\<rparr>)
             })"

partial_function (option) it_equal_loop ::
    "heap \<Rightarrow> dictionary \<Rightarrow> (addr \<Rightarrow> addr \<Rightarrow> int) \<Rightarrow> addr \<Rightarrow> dictionary_it \<Rightarrow>
      (addr \<times> dictionary_it) option" where
  "it_equal_loop h d cmp cur it =
     (let (np, it) = dict_it_next h d it
      in if np = NULL \<or> cmp cur np = 0 then Some (np, it) else it_equal_loop h d cmp cur it)"

partial_function (option) it_scan_loop ::
    "heap \<Rightarrow> dictionary \<Rightarrow> (addr \<Rightarrow> addr \<Rightarrow> int) \<Rightarrow> addr \<Rightarrow> dictionary_it \<Rightarrow> addr \<Rightarrow> int \<Rightarrow>
      (addr \<times> int) option" where
  "it_scan_loop h d cmp cur it nextnp idx =
     (let (np, it) = dict_it_next h d it
      in if np = NULL then Some (nextnp, idx)
         else if cur = np then it_scan_loop h d cmp cur it nextnp idx
         else if cmp cur np \<ge> 0 then it_scan_loop h d cmp cur it nextnp idx
         else if nextnp = NULL then it_scan_loop h d cmp cur it np (di_idx it)
         else if cmp nextnp np > 0 then it_scan_loop h d cmp cur it np (di_idx it)
         else it_scan_loop h d cmp cur it nextnp idx)"

definition dictionary_it_next ::
    "heap \<Rightarrow> dictionary \<Rightarrow> dictionary_it \<Rightarrow> (addr \<times> dictionary_it) option" where
  "dictionary_it_next h d it =
     (case di_cmp it of
        None \<Rightarrow> Some (dict_it_next h d it)
      | Some cmp \<Rightarrow>
          (let blank = \<lparr>di_np = NULL, di_prev = NULL, di_idx = -1, di_cmp = None, di_unique = False\<rparr>
           in do {
             (np, eq) \<leftarrow> (if \<not> di_unique it
                then it_equal_loop h d cmp (di_np it)
                       \<lparr>di_np = di_np it, di_prev = di_prev it, di_idx = di_idx it, di_cmp = None,
                        di_unique = False\<rparr>
                else Some (NULL, blank));
             if np \<noteq> NULL then Some (np, it\<lparr>di_np := np, di_idx := di_idx eq\<rparr>)
             else do {
               (nextnp, idx) \<leftarrow> it_scan_loop h d cmp (di_np it) blank NULL (-1);
               Some (nextnp, it\<lparr>di_np := nextnp, di_idx := idx\<rparr>)
             }
           }))"

definition dictionary_it_at ::
    "heap \<Rightarrow> dictionary \<Rightarrow> dkey \<Rightarrow> (addr \<times> dictionary_it) option" where
  "dictionary_it_at h d k =
     do {
       (prev, np) \<leftarrow> remove_loop h d k NULL (bucket d k);
       Some (np, \<lparr>di_np = np, di_prev = prev,
         di_idx = (if np \<noteq> NULL then uint (key_hash d k) else -1), di_cmp = None, di_unique = False\<rparr>)
     }"

definition dictionary_it_get :: "dictionary_it \<Rightarrow> addr" where
  "dictionary_it_get it = di_np it"

definition dictionary_it_remove :: "heap \<Rightarrow> dictionary \<Rightarrow> dictionary_it \<Rightarrow> heap \<times> dictionary" where
  "dictionary_it_remove h d it =
     (let np = di_np it
      in if np \<noteq> NULL then
           (let (h, d) = unlink h d (nat (di_idx it)) (di_prev it) np in (key_free (d_key d) h np, d))
         else (h, d))"

text \<open>Two dictionaries on one heap; the node moves from \<open>d\<close> to \<open>dest\<close>.\<close>

definition dictionary_it_move ::
    "heap \<Rightarrow> dictionary \<Rightarrow> dictionary_it \<Rightarrow> dictionary \<Rightarrow>
      (addr \<times> heap \<times> dictionary \<times> dictionary_it \<times> dictionary) option" where
  "dictionary_it_move h d it dest =
     (let np = di_np it; prev = di_prev it; i = nat (di_idx it)
      in do {
        (res, it) \<leftarrow> dictionary_it_next h d it;
        if np = NULL \<or> d_keyspec d \<noteq> d_keyspec dest then Some (res, h, d, it, dest)
        else do {
          f \<leftarrow> dict_lookup h dest (dl_key (h_nodes h np));
          Some (if f \<noteq> NULL then (res, h, d, it, dest)
                else (let it = it\<lparr>di_prev := prev\<rparr>; (h, d) = unlink h d i prev np;
                          (h, dest) = link_head h dest (dl_key (h_nodes h np)) np
                      in (res, h, d, it, dest)))
        }
      })"

section \<open>Reading\<close>

definition dictionary_get_key :: "heap \<Rightarrow> addr \<Rightarrow> dkey" where
  "dictionary_get_key h np = dl_key (h_nodes h np)"

text \<open>\<open>strlen\<close> of the key, as the bytes in memory: of a ushort key, the two bytes of the number.\<close>

fun key_strlen :: "dkey \<Rightarrow> nat" where
  "key_strlen (KStr s) = length s"
| "key_strlen (KShort k) = (if k AND 0xFF = 0 then 0 else if k AND 0xFF00 = 0 then 1 else 2)"
| "key_strlen (KBin ws) = 0"

definition dictionary_get_key_size :: "heap \<Rightarrow> dictionary \<Rightarrow> addr \<Rightarrow> nat" where
  "dictionary_get_key_size h d np =
     (if d_keyspec d AND 0xFFFF = 0 then key_strlen (dictionary_get_key h np) + 1
      else if d_keyspec d = DICTIONARY_KEYTYPE_USHORT then 2
      else key_words d * 4)"

definition dictionary_get_value :: "heap \<Rightarrow> addr \<Rightarrow> u8 list" where
  "dictionary_get_value h np = dl_value (h_nodes h np)"

definition dictionary_count :: "dictionary \<Rightarrow> u32" where
  "dictionary_count d = d_count d"

definition dictionary_hashtab_size :: "dictionary \<Rightarrow> u32" where
  "dictionary_hashtab_size d = d_hashsize d"

partial_function (option) chain_count :: "heap \<Rightarrow> addr \<Rightarrow> u32 \<Rightarrow> u32 option" where
  "chain_count h np cnt = (if np = NULL then Some cnt else chain_count h (dl_next (h_nodes h np)) (cnt + 1))"

definition dictionary_hashtab_cnt :: "heap \<Rightarrow> dictionary \<Rightarrow> nat \<Rightarrow> u32 option" where
  "dictionary_hashtab_cnt h d idx = chain_count h (d_hashtab d ! idx) 0"

section \<open>The invariant\<close>

definition nxt :: "heap \<Rightarrow> links" where
  "nxt h a = dl_next (h_nodes h a)"

definition keyof :: "heap \<Rightarrow> addr \<Rightarrow> dkey" where
  "keyof h a = dl_key (h_nodes h a)"

text \<open>The heap blocks of a node.\<close>

definition node_blocks :: "dictionary \<Rightarrow> heap \<Rightarrow> addr \<Rightarrow> addr list" where
  "node_blocks d h a = (if d_key d = Str_key then [dl_keyp (h_nodes h a), a] else [a])"

definition blocks :: "dictionary \<Rightarrow> heap \<Rightarrow> addr list \<Rightarrow> addr list" where
  "blocks d h as = concat (map (node_blocks d h) as)"

definition heap_ok :: "heap \<Rightarrow> bool" where
  "heap_ok h \<longleftrightarrow> distinct (h_live h) \<and> NULL \<notin> set (h_live h) \<and> \<not> h_fault h"

text \<open>\<open>css\<close>: the chains of the buckets. Ushort dictionaries are treated apart.\<close>

definition dict_inv :: "heap \<Rightarrow> dictionary \<Rightarrow> addr list list \<Rightarrow> bool" where
  "dict_inv h d css \<longleftrightarrow>
     d_key d \<noteq> Ushort_key \<and> css \<noteq> [] \<and> length css = unat (d_hashsize d) \<and>
     list_all2 (is_list (nxt h)) (d_hashtab d) css \<and>
     (\<forall>i < length css. \<forall>a \<in> set (css ! i). unat (key_hash d (keyof h a)) = i) \<and>
     (\<forall>a \<in> set (concat css). key_fits d (keyof h a)) \<and>
     distinct (map (keyof h) (concat css)) \<and>
     d_count d = of_nat (length (concat css)) \<and>
     distinct (blocks d h (concat css)) \<and> set (blocks d h (concat css)) \<subseteq> set (h_live h) \<and> heap_ok h"

text \<open>The map a dictionary stands for.\<close>

definition dict_map :: "heap \<Rightarrow> addr list list \<Rightarrow> dkey \<Rightarrow> u8 list option" where
  "dict_map h css = map_of (map (\<lambda>a. (keyof h a, dl_value (h_nodes h a))) (concat css))"

text \<open>What the code relies on of \<open>qoraal_malloc\<close>: a block it returns is not in use.\<close>

definition malloc_ok :: "malloc \<Rightarrow> bool" where
  "malloc_ok mal \<longleftrightarrow> (\<forall>h n. mal h n = NULL \<or> mal h n \<notin> set (h_live h))"

lemma malloc_fresh: "malloc_ok mal \<Longrightarrow> 0 < mal h n \<Longrightarrow> mal h n \<in> set (h_live h) \<longleftrightarrow> False"
  unfolding malloc_ok_def by (metis less_irrefl)

text \<open>One allocator with this property.\<close>

definition bump :: malloc where
  "bump h n = Suc (fold max (h_live h) 0)"

lemma fold_max_base: "y \<le> fold max xs (y :: nat)"
proof (induction xs arbitrary: y)
  case (Cons x xs)
  have "y \<le> max x y" by simp
  also have "\<dots> \<le> fold max xs (max x y)" by (rule Cons.IH)
  finally show ?case by simp
qed simp

lemma fold_max_ge: "x \<in> set xs \<Longrightarrow> x \<le> fold max xs (y :: nat)"
proof (induction xs arbitrary: y)
  case (Cons z xs)
  have "z \<le> max z y" by simp
  also have "\<dots> \<le> fold max xs (max z y)" by (rule fold_max_base)
  finally show ?case using Cons by auto
qed simp

lemma bump_ok: "malloc_ok bump"
proof -
  have "Suc (fold max xs 0) \<notin> set xs" for xs :: "nat list"
    using fold_max_ge [of "Suc (fold max xs 0)" xs 0] by auto
  then show ?thesis by (simp add: malloc_ok_def bump_def)
qed

lemma key_fun_upd [simp]:
  "key_hash (d\<lparr>d_count := c\<rparr>) k = key_hash d k" "key_hash (d\<lparr>d_hashtab := t\<rparr>) k = key_hash d k"
  "key_fits (d\<lparr>d_count := c\<rparr>) k = key_fits d k" "key_fits (d\<lparr>d_hashtab := t\<rparr>) k = key_fits d k"
  by (cases k; simp add: dictionary_str_key_hash_def dictionary_ushort_key_hash_def
      dictionary_binary_key_hash_def key_words_def)+

lemma node_blocks_upd [simp]:
  "node_blocks (d\<lparr>d_count := c\<rparr>) = node_blocks d" "node_blocks (d\<lparr>d_hashtab := t\<rparr>) = node_blocks d"
  by (simp_all add: node_blocks_def fun_eq_iff)

lemma blocks_upd [simp]:
  "blocks (d\<lparr>d_count := c\<rparr>) = blocks d" "blocks (d\<lparr>d_hashtab := t\<rparr>) = blocks d"
  by (simp_all add: blocks_def fun_eq_iff)

lemma blocks_simps [simp]:
  "blocks d h [] = []" "blocks d h (a # as) = node_blocks d h a @ blocks d h as"
  "blocks d h (as @ bs) = blocks d h as @ blocks d h bs"
  by (simp_all add: blocks_def)

lemma in_node_blocks [simp]: "a \<in> set (node_blocks d h a)"
  by (simp add: node_blocks_def)

lemma in_blocks: "a \<in> set as \<Longrightarrow> a \<in> set (blocks d h as)"
  by (auto simp: blocks_def intro!: bexI [of _ a])

lemma blocks_distinct: "distinct (blocks d h as) \<Longrightarrow> distinct as"
  by (induction as) (auto simp: in_blocks disjoint_iff dest: in_blocks [of _ _ d h])

lemma key_cmp_eq:
  "key_fits d (dl_key x) \<Longrightarrow> key_fits d k \<Longrightarrow> d_key d \<noteq> Ushort_key \<Longrightarrow> key_cmp d x k \<longleftrightarrow> dl_key x = k"
  by (cases k; cases "dl_key x")
    (auto simp: dictionary_str_key_cmp_def dictionary_binary_key_cmp_def)

lemma key_hash_less: "0 < unat (d_hashsize d) \<Longrightarrow> unat (key_hash d k) < unat (d_hashsize d)"
  by (cases k) (simp_all add: dictionary_str_key_hash_def dictionary_ushort_key_hash_def
      dictionary_binary_key_hash_def unat_mod)

section \<open>Lookup\<close>

lemma lookup_loop_find:
  assumes "is_list (nxt h) p cs" "\<forall>a \<in> set cs. key_cmp d (h_nodes h a) k \<longleftrightarrow> keyof h a = k"
  shows "lookup_loop h d k p =
     Some (case List.find (\<lambda>a. keyof h a = k) cs of None \<Rightarrow> NULL | Some a \<Rightarrow> a)"
  using assms
proof (induction cs arbitrary: p)
  case (Cons c cs)
  then show ?case by (auto simp: lookup_loop.simps [of h d k c] nxt_def)
qed (simp add: lookup_loop.simps)

lemma find_key:
  "List.find (\<lambda>a. keyof h a = k) cs = None \<longleftrightarrow> k \<notin> keyof h ` set cs"
  "List.find (\<lambda>a. keyof h a = k) cs = Some a \<Longrightarrow> a \<in> set cs \<and> keyof h a = k"
  by (auto simp: find_None_iff find_Some_iff)

lemma bucket_chain:
  assumes "dict_inv h d css" "i < length css"
  shows "is_list (nxt h) (d_hashtab d ! i) (css ! i)" "set (css ! i) \<subseteq> set (concat css)"
proof -
  show "is_list (nxt h) (d_hashtab d ! i) (css ! i)"
    using assms by (auto simp: dict_inv_def list_all2_conv_all_nth)
  show "set (css ! i) \<subseteq> set (concat css)" using nth_mem [OF assms(2)] by auto
qed

lemma key_bucket:
  assumes "dict_inv h d css"
  shows "unat (key_hash d k) < length css"
    "k \<in> keyof h ` set (concat css) \<longleftrightarrow> k \<in> keyof h ` set (css ! unat (key_hash d k))"
proof -
  show 1: "unat (key_hash d k) < length css" using assms key_hash_less [of d k]
    by (auto simp: dict_inv_def simp flip: length_greater_0_conv)
  have "\<exists>i < length css. a \<in> set (css ! i) \<and> unat (key_hash d (keyof h a)) = i"
    if "a \<in> set (concat css)" for a
    using that assms by (auto simp: dict_inv_def in_set_conv_nth [of _ css])
  then show "k \<in> keyof h ` set (concat css) \<longleftrightarrow> k \<in> keyof h ` set (css ! unat (key_hash d k))"
    using bucket_chain(2) [OF assms 1] by blast
qed

lemma lookup_inv:
  assumes inv: "dict_inv h d css" and k: "key_fits d k"
  shows "\<exists>np. dict_lookup h d k = Some np \<and>
     (if np = NULL then k \<notin> keyof h ` set (concat css)
      else np \<in> set (css ! unat (key_hash d k)) \<and> np \<in> set (concat css) \<and> keyof h np = k)"
proof -
  let ?i = "unat (key_hash d k)"
  note b = bucket_chain [OF inv key_bucket(1) [OF inv, of k]]
  have "\<forall>a \<in> set (css ! ?i). key_cmp d (h_nodes h a) k \<longleftrightarrow> keyof h a = k"
    using b(2) inv k key_cmp_eq [of d] by (auto simp: dict_inv_def keyof_def)
  then have "dict_lookup h d k =
      Some (case List.find (\<lambda>a. keyof h a = k) (css ! ?i) of None \<Rightarrow> NULL | Some a \<Rightarrow> a)"
    unfolding dict_lookup_def bucket_def by (rule lookup_loop_find [OF b(1)])
  moreover have "\<forall>a \<in> set (css ! ?i). a \<noteq> NULL" using is_list_nonnull [OF b(1)] by blast
  ultimately show ?thesis
    using find_key [where cs = "css ! ?i" and h = h and k = k] b(2) key_bucket(2) [OF inv, of k]
    by (cases "List.find (\<lambda>a. keyof h a = k) (css ! ?i)") auto
qed

section \<open>Insertion\<close>

text \<open>Bucket \<open>i\<close> of the chains, split out.\<close>

lemma split_bucket:
  assumes "i < length css"
  obtains us vs where "css = us @ css ! i # vs" "length us = i" "\<And>c. css[i := c] = us @ c # vs"
  using id_take_nth_drop [OF assms] upd_conv_take_nth_drop [OF assms] assms
  by (metis length_take less_or_eq_imp_le min.absorb2)

text \<open>A node just allocated for key \<open>k\<close>, not yet in a chain.\<close>

definition fresh_node :: "heap \<Rightarrow> heap \<Rightarrow> dictionary \<Rightarrow> dkey \<Rightarrow> nat \<Rightarrow> addr \<Rightarrow> bool" where
  "fresh_node h h' d k n a \<longleftrightarrow>
     a \<noteq> NULL \<and> a \<notin> set (h_live h) \<and> keyof h' a = k \<and> length (dl_value (h_nodes h' a)) = n \<and>
     (\<forall>x. x \<noteq> a \<longrightarrow> h_nodes h' x = h_nodes h x) \<and> h_junk h' = h_junk h \<and>
     distinct (node_blocks d h' a) \<and> set (node_blocks d h' a) \<inter> set (h_live h) = {} \<and>
     h_live h' = node_blocks d h' a @ h_live h"

lemma key_alloc_ok:
  assumes m: "malloc_ok mal" and h: "heap_ok h" and k: "key_fits d k" "d_key d \<noteq> Ushort_key"
    and op: "key_alloc mal h d k n = (a, h')"
  shows "heap_ok h' \<and> (if a = NULL then h_nodes h' = h_nodes h \<and> h_live h' = h_live h \<and> h_junk h' = h_junk h
    else fresh_node h h' d k n a)"
proof (cases k)
  case (KStr t)
  show ?thesis
  proof (cases "d_key d = Const_str_key")
    case True
    with KStr m h op show ?thesis
      by (auto simp: dictionary_const_str_keyval_alloc_def DICTIONARY_MALLOC_def Let_def heap_ok_def
          malloc_fresh fresh_node_def keyof_def upd_node_def node_blocks_def split: if_splits)
  next
    case False
    with KStr k have "d_key d = Str_key" by auto
    moreover note malloc_fresh [OF m, of h "16 + n"]
      malloc_fresh [OF m, of "h\<lparr>h_live := mal h (16 + n) # h_live h\<rparr>" "Suc (length t)"]
    ultimately show ?thesis using KStr h op
      by (auto simp: dictionary_str_keyval_alloc_def DICTIONARY_MALLOC_def DICTIONARY_FREE_def Let_def
          heap_ok_def fresh_node_def keyof_def upd_node_def node_blocks_def split: if_splits)
  qed
next
  case (KBin t)
  with k have "length t = key_words d" "d_key d = Binary_key" by auto
  with KBin m h op show ?thesis
    by (auto simp: dictionary_binary_keyval_alloc_def DICTIONARY_MALLOC_def Let_def heap_ok_def
        malloc_fresh fresh_node_def keyof_def upd_node_def node_blocks_def split: if_splits)
qed (use k in simp)

lemma keyof_upd_next [simp]: "keyof (upd_node h p (\<lambda>x. x\<lparr>dl_next := v\<rparr>)) = keyof h"
  "dl_value (h_nodes (upd_node h p (\<lambda>x. x\<lparr>dl_next := v\<rparr>)) a) = dl_value (h_nodes h a)"
  "node_blocks d (upd_node h p (\<lambda>x. x\<lparr>dl_next := v\<rparr>)) = node_blocks d h"
  "nxt (upd_node h p (\<lambda>x. x\<lparr>dl_next := v\<rparr>)) = (nxt h)(p := v)"
  "h_live (upd_node h p f) = h_live h" "heap_ok (upd_node h p f) = heap_ok h"
  by (auto simp: keyof_def upd_node_def node_blocks_def nxt_def heap_ok_def fun_eq_iff)

lemma blocks_upd_next [simp]: "blocks d (upd_node h p (\<lambda>x. x\<lparr>dl_next := v\<rparr>)) = blocks d h"
  by (simp add: blocks_def fun_eq_iff)

lemma is_list_cong: "(\<forall>a \<in> set cs. nx' a = nx a) \<Longrightarrow> is_list nx' p cs = is_list nx p cs"
  by (induction cs arbitrary: p) auto

text \<open>The invariant reads only what the nodes of the dictionary hold.\<close>

lemma dict_inv_frame:
  assumes inv: "dict_inv h d css" and n: "\<forall>a \<in> set (concat css). h_nodes h' a = h_nodes h a"
    and l: "set (blocks d h (concat css)) \<subseteq> set (h_live h')" and h: "heap_ok h'"
  shows "dict_inv h' d css" "dict_map h' css = dict_map h css"
proof -
  have b: "blocks d h' (concat css) = blocks d h (concat css)"
    unfolding blocks_def using n by (intro arg_cong [of _ _ concat] map_cong) (auto simp: node_blocks_def)
  have k: "map (keyof h') (concat css) = map (keyof h) (concat css)"
    using n by (intro map_cong) (auto simp: keyof_def)
  have "list_all2 (is_list (nxt h')) (d_hashtab d) css = list_all2 (is_list (nxt h)) (d_hashtab d) css"
    by (rule list.rel_cong) (use n in \<open>auto simp: nxt_def intro!: is_list_cong\<close>)
  moreover have "\<forall>a \<in> set (concat css). keyof h' a = keyof h a" using n by (auto simp: keyof_def)
  moreover have "\<forall>i < length css. \<forall>a \<in> set (css ! i). keyof h' a = keyof h a"
    using calculation(2) nth_mem by fastforce
  moreover note i = inv [unfolded dict_inv_def]
  ultimately show "dict_inv h' d css"
    unfolding dict_inv_def b k using l h by (intro conjI) (use i in auto)
  show "dict_map h' css = dict_map h css"
    unfolding dict_map_def using n by (intro arg_cong [of _ _ map_of] map_cong) (auto simp: keyof_def)
qed

lemma map_of_insert_mid:
  "k \<notin> fst ` set xs \<Longrightarrow> map_of (xs @ (k, v) # ys) = (map_of (xs @ ys))(k \<mapsto> v)"
  by (induction xs) (auto simp: fun_upd_twist)

lemma map_of_delete_mid:
  "k \<notin> fst ` set (xs @ ys) \<Longrightarrow> map_of (xs @ ys) = (map_of (xs @ (k, v) # ys))(k := None)"
  by (induction xs) (auto simp: fun_upd_twist fun_upd_idem map_of_eq_None_iff)

lemma chains_upd:
  "a \<notin> set (concat css) \<Longrightarrow> list_all2 (is_list (nx(a := v))) tab css = list_all2 (is_list nx) tab css"
  by (rule list.rel_cong) auto

lemma link_head_inv:
  assumes inv: "dict_inv h d css" and a: "a \<noteq> NULL" "keyof h a = k" "key_fits d k"
    and k: "k \<notin> keyof h ` set (concat css)"
    and b: "distinct (node_blocks d h a)" "set (node_blocks d h a) \<inter> set (blocks d h (concat css)) = {}"
      "set (node_blocks d h a) \<subseteq> set (h_live h)"
    and op: "link_head h d k a = (h2, d2)"
  defines "i \<equiv> unat (key_hash d k)"
  shows "dict_inv h2 d2 (css[i := a # css ! i])"
    "dict_map h2 (css[i := a # css ! i]) = (dict_map h css)(k \<mapsto> dl_value (h_nodes h a))"
proof -
  have i: "i < length css" using key_bucket(1) [OF inv] by (simp add: i_def)
  obtain us vs where c: "css = us @ css ! i # vs" "length us = i" "\<And>c. css[i := c] = us @ c # vs"
    by (rule split_bucket [OF i]) (rule that)
  define cs where "cs = css ! i"
  have css: "css = us @ cs # vs" using c(1) by (simp add: cs_def)
  have na: "a \<notin> set (concat css)" using k a(2) by auto
  have h2: "h2 = upd_node h a (\<lambda>x. x\<lparr>dl_next := d_hashtab d ! i\<rparr>)"
    "d2 = d\<lparr>d_hashtab := (d_hashtab d)[i := a], d_count := d_count d + 1\<rparr>"
    using op by (auto simp: link_head_def Let_def i_def)
  note iv = inv [unfolded dict_inv_def]
  have l: "list_all2 (is_list (nxt h2)) (d_hashtab d) css"
    using iv chains_upd [OF na] unfolding h2 by simp
  have "is_list (nxt h2) a (a # cs)"
    using bucket_chain(1) [OF inv i, folded cs_def] na a(1) css unfolding h2 by simp
  then have l2: "list_all2 (is_list (nxt h2)) (d_hashtab d2) (css[i := a # cs])"
    using list_all2_update_cong [OF l] by (simp add: h2(2))
  have hs: "\<forall>j < length (css[i := a # cs]). \<forall>x \<in> set (css[i := a # cs] ! j).
      unat (key_hash d (keyof h x)) = j"
    using iv a(2) i by (auto simp: nth_list_update i_def cs_def)
  have "dict_inv h2 d2 (css[i := a # cs])"
    unfolding dict_inv_def
  proof (intro conjI l2)
    show "\<forall>j < length (css[i := a # cs]). \<forall>x \<in> set (css[i := a # cs] ! j).
        unat (key_hash d2 (keyof h2 x)) = j" using hs by (simp add: h2)
    show "\<forall>x \<in> set (concat (css[i := a # cs])). key_fits d2 (keyof h2 x)"
      using iv a css c(3) by (auto simp: h2)
    show "distinct (map (keyof h2) (concat (css[i := a # cs])))"
      using iv a(2) k unfolding c(3) unfolding css by (auto simp: h2)
    show "d_count d2 = of_nat (length (concat (css[i := a # cs])))"
      using iv unfolding c(3) unfolding css by (simp add: h2(2))
    show "distinct (blocks d2 h2 (concat (css[i := a # cs])))"
      using iv b unfolding c(3) unfolding css by (auto simp: h2)
    show "set (blocks d2 h2 (concat (css[i := a # cs]))) \<subseteq> set (h_live h2)"
      using iv b unfolding c(3) unfolding css by (auto simp: h2)
  qed (use iv in \<open>auto simp: h2\<close>)
  then show "dict_inv h2 d2 (css[i := a # css ! i])" by (simp add: cs_def)
  show "dict_map h2 (css[i := a # css ! i]) = (dict_map h css)(k \<mapsto> dl_value (h_nodes h a))"
    using a(2) k
    unfolding c(3) dict_map_def cs_def [symmetric] unfolding css
    by (simp add: h2 image_image image_Un map_of_insert_mid del: map_of_append)
qed

section \<open>Removal\<close>

lemma remove_loop_found:
  assumes "is_list (nxt h) p (xs @ a # ys)" "\<forall>x \<in> set xs. \<not> key_cmp d (h_nodes h x) k"
    "key_cmp d (h_nodes h a) k"
  shows "remove_loop h d k prev p = Some (if xs = [] then prev else last xs, a)"
  using assms by (induction xs arbitrary: p prev) (auto simp: remove_loop.simps nxt_def)

lemma remove_loop_missing:
  assumes "is_list (nxt h) p xs" "\<forall>x \<in> set xs. \<not> key_cmp d (h_nodes h x) k"
  shows "\<exists>q. remove_loop h d k prev p = Some (q, NULL)"
  using assms by (induction xs arbitrary: p prev) (auto simp: remove_loop.simps nxt_def)

lemma list_all2_last:
  assumes "is_list nx p (xs @ a # ys)" "xs \<noteq> []"
  shows "is_list (nx(last xs := nx a)) p (xs @ ys)"
proof -
  obtain us b where xs: "xs = us @ [b]" using assms(2) by (cases xs rule: rev_cases) auto
  have "is_list nx p (us @ b # a # ys)" using assms(1) xs by simp
  moreover have "is_list nx (nx a) ys" using is_list_mid [OF assms(1)] by simp
  moreover have "b \<notin> set ys" using is_list_distinct [OF assms(1)] xs by auto
  ultimately show ?thesis using is_list_relink [of nx p us b "a # ys" "nx a" ys] xs by simp
qed

lemma unlink_inv:
  assumes inv: "dict_inv h d css" and i: "i < length css" and c: "css ! i = xs @ a # ys"
    and op: "unlink h d i (if xs = [] then NULL else last xs) a = (h2, d2)"
  shows "dict_inv h2 d2 (css[i := xs @ ys])"
    "dict_map h2 (css[i := xs @ ys]) = (dict_map h css)(keyof h a := None)"
    "node_blocks d h2 = node_blocks d h" "h_live h2 = h_live h" "keyof h2 = keyof h"
    "set (node_blocks d h a) \<inter> set (blocks d h2 (concat (css[i := xs @ ys]))) = {}"
    "d_key d2 = d_key d" "nxt h2 a = nxt h a"
proof -
  obtain us vs where u: "css = us @ css ! i # vs" "length us = i" "\<And>c. css[i := c] = us @ c # vs"
    by (rule split_bucket [OF i]) (rule that)
  have css: "css = us @ (xs @ a # ys) # vs" using u(1) c by simp
  note iv = inv [unfolded dict_inv_def]
  have lp: "xs \<noteq> [] \<Longrightarrow> 0 < last xs"
    using is_list_nonnull [OF bucket_chain(1) [OF inv i], of "last xs"] c by simp
  have h2: "keyof h2 = keyof h" "node_blocks d h2 = node_blocks d h" "h_live h2 = h_live h"
    "heap_ok h2 = heap_ok h" "blocks d h2 = blocks d h" "\<And>x. dl_value (h_nodes h2 x) = dl_value (h_nodes h x)"
    and d2: "d_key d2 = d_key d" "d_hashsize d2 = d_hashsize d" "d_count d2 = d_count d - 1"
      "key_hash d2 = key_hash d" "key_fits d2 = key_fits d" "node_blocks d2 = node_blocks d"
      "blocks d2 = blocks d"
    and tab: "nxt h2 = (if xs = [] then nxt h else (nxt h)(last xs := nxt h a))"
      "d_hashtab d2 = (if xs = [] then (d_hashtab d)[i := nxt h a] else d_hashtab d)"
    using op [unfolded unlink_def Let_def, folded nxt_def] lp by (auto split: if_splits)
  have ch: "is_list (nxt h) (d_hashtab d ! i) (xs @ a # ys)" using bucket_chain(1) [OF inv i] c by simp
  have len: "length (d_hashtab d) = length css" using iv list_all2_lengthD by blast
  have len2: "length (d_hashtab d2) = length css" using len tab(2) by simp
  have "is_list (nxt h2) (d_hashtab d2 ! j) (css[i := xs @ ys] ! j)" if j: "j < length css" for j
  proof (cases "j = i")
    case True
    then show ?thesis using ch i len is_list_mid [OF ch] list_all2_last [OF ch] by (auto simp: tab)
  next
    case False
    have "xs \<noteq> [] \<Longrightarrow> last xs \<in> set (css ! i)" by (simp add: c)
    then have "xs \<noteq> [] \<Longrightarrow> last xs \<notin> set (css ! j)" using iv False i j by metis
    then show ?thesis using bucket_chain(1) [OF inv j] False by (simp add: tab)
  qed
  then have l2: "list_all2 (is_list (nxt h2)) (d_hashtab d2) (css[i := xs @ ys])"
    using len2 by (simp add: list_all2_conv_all_nth)
  have bl: "distinct (blocks d h (concat css))" using iv by simp
  have "dict_inv h2 d2 (css[i := xs @ ys])"
    unfolding dict_inv_def
  proof (intro conjI l2)
    show "\<forall>j < length (css[i := xs @ ys]). \<forall>x \<in> set (css[i := xs @ ys] ! j).
        unat (key_hash d2 (keyof h2 x)) = j"
      using iv c i by (auto simp: nth_list_update h2 d2)
    show "\<forall>x \<in> set (concat (css[i := xs @ ys])). key_fits d2 (keyof h2 x)"
      using iv unfolding u(3) unfolding css by (auto simp: h2 d2)
    show "distinct (map (keyof h2) (concat (css[i := xs @ ys])))"
      using iv unfolding u(3) unfolding css by (auto simp: h2)
    show "d_count d2 = of_nat (length (concat (css[i := xs @ ys])))"
      using iv unfolding u(3) unfolding css by (simp add: d2)
    show "distinct (blocks d2 h2 (concat (css[i := xs @ ys])))"
      using bl unfolding u(3) unfolding css by (auto simp: h2 d2)
    show "set (blocks d2 h2 (concat (css[i := xs @ ys]))) \<subseteq> set (h_live h2)"
      using iv unfolding u(3) unfolding css by (auto simp: h2 d2)
  qed (use iv in \<open>auto simp: h2 d2\<close>)
  then show "dict_inv h2 d2 (css[i := xs @ ys])" .
  show "dict_map h2 (css[i := xs @ ys]) = (dict_map h css)(keyof h a := None)"
  proof -
    have k: "distinct (map (keyof h) (concat css))" using iv by simp
    show ?thesis
      using k map_of_delete_mid [of "keyof h a" "map (\<lambda>x. (keyof h x, dl_value (h_nodes h x))) (concat us @ xs)"
          "map (\<lambda>x. (keyof h x, dl_value (h_nodes h x))) (ys @ concat vs)" "dl_value (h_nodes h a)"]
      unfolding u(3) dict_map_def unfolding css
      by (simp add: h2 image_image image_Un del: map_of_append)
  qed
  show "set (node_blocks d h a) \<inter> set (blocks d h2 (concat (css[i := xs @ ys]))) = {}"
    using bl unfolding u(3) unfolding css by (auto simp: h2)
  show "nxt h2 a = nxt h a" using is_list_distinct [OF ch] by (auto simp: tab)
qed (use op in \<open>auto simp: unlink_def Let_def split: if_splits\<close>)

lemma key_free_ok:
  assumes "heap_ok h" "distinct (node_blocks d h a)" "set (node_blocks d h a) \<subseteq> set (h_live h)"
    "d_key d \<noteq> Ushort_key"
  shows "heap_ok (key_free (d_key d) h a)" "h_nodes (key_free (d_key d) h a) = h_nodes h"
    "set (h_live (key_free (d_key d) h a)) = set (h_live h) - set (node_blocks d h a)"
    "h_junk (key_free (d_key d) h a) = h_junk h"
  using assms
  by (cases "d_key d"; auto simp: heap_ok_def node_blocks_def DICTIONARY_FREE_def
      dictionary_str_keyval_free_def dictionary_const_str_keyval_free_def
      dictionary_binary_keyval_free_def dest: notin_set_remove1)+

section \<open>The operations\<close>

lemma dict_map_Some:
  assumes "distinct (map (keyof h) (concat css))"
  shows "dict_map h css k = Some w \<longleftrightarrow>
    (\<exists>a \<in> set (concat css). keyof h a = k \<and> dl_value (h_nodes h a) = w)"
proof -
  have "distinct (map fst (map (\<lambda>a. (keyof h a, dl_value (h_nodes h a))) (concat css)))"
    using assms by (simp add: comp_def)
  then show ?thesis unfolding dict_map_def by (subst map_of_eq_Some_iff) auto
qed

lemma dict_map_None: "dict_map h css k = None \<longleftrightarrow> k \<notin> keyof h ` set (concat css)"
  by (simp add: dict_map_def map_of_eq_None_iff image_image)

lemma memcpy_inv:
  assumes inv: "dict_inv h d css" and a: "a \<in> set (concat css)" and n: "n \<le> length v"
    "n \<le> length (dl_value (h_nodes h a))"
  shows "dict_inv (memcpy_value h a v n) d css"
    "dict_map (memcpy_value h a v n) css =
      (dict_map h css)(keyof h a \<mapsto> take n v @ drop n (dl_value (h_nodes h a)))"
proof -
  define h' where "h' = memcpy_value h a v n"
  have h': "h' = upd_node h a (\<lambda>x. x\<lparr>dl_value := take n v @ drop n (dl_value x)\<rparr>)"
    using n by (simp add: h'_def memcpy_value_def)
  have e: "keyof h' = keyof h" "nxt h' = nxt h" "node_blocks d h' = node_blocks d h"
    "h_live h' = h_live h" "heap_ok h' = heap_ok h"
    by (auto simp: h' keyof_def nxt_def node_blocks_def upd_node_def heap_ok_def fun_eq_iff)
  have b: "blocks d h' = blocks d h" by (simp add: blocks_def e fun_eq_iff)
  show "dict_inv (memcpy_value h a v n) d css"
    using inv unfolding h'_def [symmetric] dict_inv_def e b .
  have dk: "distinct (map (keyof h) (concat css))" using inv by (simp add: dict_inv_def)
  have inj: "x = a" if "x \<in> set (concat css)" "keyof h x = keyof h a" for x
    using dk that a by (auto simp: distinct_map inj_on_def)
  have "dict_map h' css k = ((dict_map h css)(keyof h a \<mapsto> take n v @ drop n (dl_value (h_nodes h a)))) k" for k
  proof (cases "k \<in> keyof h ` set (concat css)")
    case False
    then show ?thesis using a dict_map_None [of h' css k] dict_map_None [of h css k] by (auto simp: e)
  next
    case True
    then obtain x where x: "x \<in> set (concat css)" "keyof h x = k" by auto
    have "dict_map h' css k = Some (dl_value (h_nodes h' x))"
      by (subst dict_map_Some) (use dk x e in auto)
    moreover have "dict_map h css k = Some (dl_value (h_nodes h x))"
      by (subst dict_map_Some) (use dk x in auto)
    ultimately show ?thesis using inj [OF x(1)] x(2) by (auto simp: h' upd_node_def)
  qed
  then show "dict_map (memcpy_value h a v n) css =
      (dict_map h css)(keyof h a \<mapsto> take n v @ drop n (dl_value (h_nodes h a)))"
    unfolding h'_def by blast
qed

text \<open>What \<open>dictionary_install_size\<close> does on each of its branches.\<close>

lemma install_effect:
  assumes inv: "dict_inv h d css" and m: "malloc_ok mal" and k: "key_fits d k"
  shows "\<exists>np h' d' css'. dictionary_install_size mal h d k n = Some (np, h', d') \<and> dict_inv h' d' css' \<and>
    (if np = NULL then d' = d \<and> css' = css \<and> dict_map h' css = dict_map h css \<and> dict_map h css k = None
     else np \<in> set (concat css') \<and> keyof h' np = k \<and>
       (if dict_map h css k = None
        then length (dl_value (h_nodes h' np)) = n \<and>
          dict_map h' css' = (dict_map h css)(k \<mapsto> dl_value (h_nodes h' np))
        else h' = h \<and> d' = d \<and> css' = css))"
proof -
  obtain np where np: "dict_lookup h d k = Some np"
    "if np = NULL then k \<notin> keyof h ` set (concat css)
      else np \<in> set (css ! unat (key_hash d k)) \<and> np \<in> set (concat css) \<and> keyof h np = k"
    using lookup_inv [OF inv k] by blast
  show ?thesis
  proof (cases "np = NULL")
    case False
    then have "dict_map h css k \<noteq> None" using np(2) by (auto simp: dict_map_None)
    with False np inv show ?thesis by (auto simp: dictionary_install_size_def)
  next
    case True
    obtain a h1 where al: "key_alloc mal h d k n = (a, h1)" by force
    have hk: "heap_ok h" "d_key d \<noteq> Ushort_key" using inv by (auto simp: dict_inv_def)
    note ok = key_alloc_ok [OF m hk(1) k hk(2) al]
    have none: "dict_map h css k = None" using np(2) True by (simp add: dict_map_None)
    have live: "set (blocks d h (concat css)) \<subseteq> set (h_live h)" using inv by (simp add: dict_inv_def)
    show ?thesis
    proof (cases "a = NULL")
      case True
      have "dict_inv h1 d css" "dict_map h1 css = dict_map h css"
        by (rule dict_inv_frame [OF inv]; use ok True live in simp)+
      then show ?thesis using al np(1) none True \<open>np = NULL\<close> by (auto simp: dictionary_install_size_def)
    next
      case False
      with ok have f: "fresh_node h h1 d k n a" and h1: "heap_ok h1" by auto
      note f' = f [unfolded fresh_node_def]
      have na: "a \<notin> set (concat css)" using f' live in_blocks [of a "concat css" d h] by auto
      have i1: "dict_inv h1 d css" and m1: "dict_map h1 css = dict_map h css"
        by (rule dict_inv_frame [OF inv]; use f' h1 live na in \<open>auto\<close>)+
      have bl: "blocks d h1 (concat css) = blocks d h (concat css)"
        unfolding blocks_def using f' na
        by (intro arg_cong [of _ _ concat] map_cong) (auto simp: node_blocks_def)
      have kn: "k \<notin> keyof h1 ` set (concat css)" using none m1 dict_map_None by metis
      obtain h2 d2 where lh: "link_head h1 d k a = (h2, d2)" by force
      note li = link_head_inv [OF i1 _ _ k kn _ _ _ lh]
      let ?css = "css[unat (key_hash d k) := a # css ! unat (key_hash d k)]"
      have "dict_inv h2 d2 ?css" "dict_map h2 ?css = (dict_map h1 css)(k \<mapsto> dl_value (h_nodes h1 a))"
        by (rule li; use f' live bl in auto)+
      moreover have "keyof h2 a = k" "dl_value (h_nodes h2 a) = dl_value (h_nodes h1 a)"
        using lh f' by (auto simp: link_head_def Let_def)
      moreover have "a \<in> set (concat ?css)"
        using set_update_memI [OF key_bucket(1) [OF inv, of k], of "a # css ! unat (key_hash d k)"]
        by (metis UN_I list.set_intros(1) set_concat)
      ultimately show ?thesis
        using al np(1) none \<open>np = NULL\<close> False lh m1 f'
        by (auto simp: dictionary_install_size_def intro!: exI [of _ ?css])
    qed
  qed
qed

lemma replace_effect:
  assumes inv: "dict_inv h d css" and m: "malloc_ok mal" and k: "key_fits d k"
    and v: "n \<le> length v"
    and fit: "\<And>a. a \<in> set (concat css) \<Longrightarrow> keyof h a = k \<Longrightarrow> n \<le> length (dl_value (h_nodes h a))"
  shows "\<exists>np h' d' css'. dictionary_replace mal h d k v n = Some (np, h', d') \<and> dict_inv h' d' css' \<and>
    dict_map h' css' = (if np = NULL then dict_map h css
      else (dict_map h css)(k \<mapsto> take n v @ drop n (case dict_map h css k of None \<Rightarrow> [] | Some w \<Rightarrow> w))) \<and>
    (np = NULL \<longrightarrow> d' = d \<and> dict_map h css k = None)"
proof -
  obtain np h1 d1 css1 where i: "dictionary_install_size mal h d k n = Some (np, h1, d1)" "dict_inv h1 d1 css1"
    "if np = NULL then d1 = d \<and> css1 = css \<and> dict_map h1 css = dict_map h css \<and> dict_map h css k = None
     else np \<in> set (concat css1) \<and> keyof h1 np = k \<and>
       (if dict_map h css k = None
        then length (dl_value (h_nodes h1 np)) = n \<and>
          dict_map h1 css1 = (dict_map h css)(k \<mapsto> dl_value (h_nodes h1 np))
        else h1 = h \<and> d1 = d \<and> css1 = css)"
    using install_effect [OF inv m k, of n] by blast
  show ?thesis
  proof (cases "np = NULL")
    case True
    with i show ?thesis by (auto simp: dictionary_replace_def)
  next
    case False
    then have np: "np \<in> set (concat css1)" "keyof h1 np = k" using i(3) by auto
    have len: "n \<le> length (dl_value (h_nodes h1 np))" using i(3) False fit by (auto split: if_splits)
    note mi = memcpy_inv [OF i(2) np(1) v len]
    have "dict_map h css k \<noteq> None \<Longrightarrow> dict_map h css k = Some (dl_value (h_nodes h1 np))"
      using i(3) False np dict_map_Some [of h css k] inv by (auto simp: dict_inv_def split: if_splits)
    then have "dict_map (memcpy_value h1 np v n) css1 =
        (dict_map h css)(k \<mapsto> take n v @ drop n (case dict_map h css k of None \<Rightarrow> [] | Some w \<Rightarrow> w))"
      using mi(2) np(2) i(3) False by (auto split: if_splits)
    then show ?thesis using i(1) mi(1) False by (auto simp: dictionary_replace_def)
  qed
qed

lemma blocks_cong:
  assumes "d_key d' = d_key d" "h_nodes h' = h_nodes h"
  shows "blocks d' h' = blocks d h"
proof -
  have "node_blocks d' h' = node_blocks d h" using assms by (simp add: node_blocks_def fun_eq_iff)
  then show ?thesis by (intro ext) (simp add: blocks_def)
qed

text \<open>Taking a node out and giving its blocks back.\<close>

lemma unlink_free:
  assumes inv: "dict_inv h d css" and i: "i < length css" and c: "css ! i = xs @ a # ys"
    and op: "unlink h d i (if xs = [] then NULL else last xs) a = (h2, d2)"
  defines "h3 \<equiv> key_free (d_key d) h2 a"
  shows "dict_inv h3 d2 (css[i := xs @ ys])"
    "dict_map h3 (css[i := xs @ ys]) = (dict_map h css)(keyof h a := None)"
    "set (h_live h3) = set (h_live h) - set (node_blocks d h a)" "h_nodes h3 = h_nodes h2"
proof -
  note u = unlink_inv [OF inv i c op]
  have a: "a \<in> set (concat css)" using bucket_chain(2) [OF inv i] c by auto
  have bl: "distinct (blocks d h (concat css))" "set (blocks d h (concat css)) \<subseteq> set (h_live h)"
    and nu: "d_key d \<noteq> Ushort_key"
    using inv by (auto simp: dict_inv_def)
  have na: "distinct (node_blocks d h2 a)" "set (node_blocks d h2 a) \<subseteq> set (h_live h2)"
    using bl a u(3,4) by (auto simp: blocks_def distinct_concat_iff)
  have ok2: "heap_ok h2" using u(1) by (simp add: dict_inv_def)
  note f = key_free_ok [OF ok2 na nu, folded h3_def]
  have "set (blocks d2 h2 (concat (css[i := xs @ ys]))) \<subseteq> set (h_live h2)"
    using u(1) by (simp add: dict_inv_def)
  then have l: "set (blocks d2 h2 (concat (css[i := xs @ ys]))) \<subseteq> set (h_live h3)"
    using f(3) u(3,6) blocks_cong [OF u(7) refl, of h2] by auto
  show "dict_inv h3 d2 (css[i := xs @ ys])"
    by (rule dict_inv_frame(1) [OF u(1) _ l f(1)]) (simp add: f(2))
  show "dict_map h3 (css[i := xs @ ys]) = (dict_map h css)(keyof h a := None)"
    unfolding u(2) [symmetric] by (rule dict_inv_frame(2) [OF u(1) _ l f(1)]) (simp add: f(2))
  show "set (h_live h3) = set (h_live h) - set (node_blocks d h a)" "h_nodes h3 = h_nodes h2"
    using f(2,3) u(3,4) by auto
qed

lemma remove_effect:
  assumes inv: "dict_inv h d css" and k: "key_fits d k"
  shows "\<exists>h' d' css'. dictionary_remove h d k = Some (if dict_map h css k = None then 0 else 1, h', d') \<and>
    dict_inv h' d' css' \<and> dict_map h' css' = (dict_map h css)(k := None) \<and>
    (\<exists>bs. set (h_live h') = set (h_live h) - set bs \<and> (bs = [] \<longleftrightarrow> dict_map h css k = None))"
proof -
  let ?i = "unat (key_hash d k)"
  note i = key_bucket(1) [OF inv, of k]
  note b = bucket_chain [OF inv i]
  have cmp: "\<forall>a \<in> set (css ! ?i). key_cmp d (h_nodes h a) k \<longleftrightarrow> keyof h a = k"
    using b(2) inv k key_cmp_eq [of d] by (auto simp: dict_inv_def keyof_def)
  have kb: "dict_map h css k = None \<longleftrightarrow> k \<notin> keyof h ` set (css ! ?i)"
    using key_bucket(2) [OF inv, of k] by (simp add: dict_map_None)
  show ?thesis
  proof (cases "dict_map h css k = None")
    case True
    then have "\<forall>a \<in> set (css ! ?i). \<not> key_cmp d (h_nodes h a) k" using cmp kb by auto
    then obtain q where "remove_loop h d k NULL (bucket d k) = Some (q, NULL)"
      using remove_loop_missing [OF b(1)] unfolding bucket_def by blast
    then have "dictionary_remove h d k = Some (0, h, d)" by (simp add: dictionary_remove_def dict_remove_def)
    moreover have "(dict_map h css)(k := None) = dict_map h css" using True by (simp add: fun_upd_idem)
    ultimately show ?thesis using inv True
      by (intro exI [of _ h] exI [of _ d] exI [of _ css]) (auto intro!: exI [of _ "[]"])
  next
    case False
    then obtain xs a ys where s: "css ! ?i = xs @ a # ys" "keyof h a = k" "\<forall>x \<in> set xs. keyof h x \<noteq> k"
      using kb split_list_first_prop [of "css ! ?i" "\<lambda>x. keyof h x = k"] by force
    have "remove_loop h d k NULL (bucket d k) = Some (if xs = [] then NULL else last xs, a)"
      unfolding bucket_def by (rule remove_loop_found) (use b(1) s cmp in auto)
    moreover have "a \<noteq> NULL" using is_list_nonnull [OF b(1), of a] s(1) by simp
    moreover obtain h2 d2 where u: "unlink h d ?i (if xs = [] then NULL else last xs) a = (h2, d2)" by force
    moreover have "d_key d2 = d_key d" using unlink_inv(7) [OF inv i s(1) u] .
    ultimately have "dictionary_remove h d k = Some (1, key_free (d_key d) h2 a, d2)"
      by (simp add: dictionary_remove_def dict_remove_def)
    moreover note unlink_free [OF inv i s(1) u]
    moreover have "node_blocks d h a \<noteq> []" by (simp add: node_blocks_def)
    ultimately show ?thesis using False s(2)
      by (intro exI [of _ "key_free (d_key d) h2 a"] exI [of _ d2] exI [of _ "css[?i := xs @ ys]"]) auto
  qed
qed

lemma remove_bucket_effect:
  assumes "dict_inv h d css" "i < length css" "css ! i = cs"
  shows "\<exists>h' d'. remove_bucket h d i = Some (cs, h', d') \<and> dict_inv h' d' (css[i := []]) \<and>
    h_nodes h' = h_nodes h \<and> d_key d' = d_key d \<and>
    set (h_live h') = set (h_live h) - set (blocks d h cs)"
  using assms
proof (induction cs arbitrary: h d css)
  case Nil
  then have "d_hashtab d ! i = NULL" using bucket_chain(1) [OF Nil(1,2)] by simp
  moreover have "css[i := []] = css" using Nil(2,3) by (metis list_update_id)
  ultimately show ?case using Nil by (simp add: remove_bucket.simps)
next
  case (Cons a cs)
  have c: "css ! i = [] @ a # cs" using Cons.prems(3) by simp
  have h: "d_hashtab d ! i = a" "a \<noteq> NULL" using bucket_chain(1) [OF Cons.prems(1,2)] Cons.prems(3) by auto
  obtain h2 d2 where u: "unlink h d i NULL a = (h2, d2)" by force
  have u': "h2 = h" "d2 = d\<lparr>d_hashtab := (d_hashtab d)[i := dl_next (h_nodes h a)], d_count := d_count d - 1\<rparr>"
    using u by (auto simp: unlink_def Let_def)
  note uf = unlink_free [OF Cons.prems(1,2) c, simplified, OF u]
  have "css[i := cs] ! i = cs" "i < length (css[i := cs])" using Cons.prems(2) by auto
  from Cons.IH [OF uf(1) this(2,1)] obtain h' d' where r:
    "remove_bucket (key_free (d_key d) h2 a) d2 i = Some (cs, h', d')" "dict_inv h' d' (css[i := []])"
    "h_nodes h' = h_nodes h" "d_key d' = d_key d"
    "set (h_live h') = set (h_live (key_free (d_key d) h2 a)) - set (blocks d2 (key_free (d_key d) h2 a) cs)"
    using uf(4) u' by auto
  have "blocks d2 (key_free (d_key d) h2 a) = blocks d h"
    by (rule blocks_cong) (use uf(4) u' in simp_all)
  moreover have "remove_bucket h d i = Some (a # cs, h', d')"
    using h r(1) u' by (simp add: remove_bucket.simps [of h] Let_def)
  ultimately show ?case using r uf(3) by auto
qed

lemma remove_buckets_effect:
  assumes "dict_inv h d css" "distinct is" "set is \<subseteq> {..<length css}"
  shows "\<exists>h' d' css'. remove_buckets h d is = Some (concat (map ((!) css) is), h', d') \<and>
    dict_inv h' d' css' \<and> length css' = length css \<and>
    (\<forall>j < length css. css' ! j = (if j \<in> set is then [] else css ! j)) \<and>
    h_nodes h' = h_nodes h \<and> d_key d' = d_key d \<and>
    set (h_live h') = set (h_live h) - set (blocks d h (concat (map ((!) css) is)))"
  using assms
proof (induction "is" arbitrary: h d css)
  case (Cons i js)
  then have i: "i < length css" by simp
  from remove_bucket_effect [OF Cons.prems(1) i refl] obtain h1 d1 where b:
    "remove_bucket h d i = Some (css ! i, h1, d1)" "dict_inv h1 d1 (css[i := []])"
    "h_nodes h1 = h_nodes h" "d_key d1 = d_key d"
    "set (h_live h1) = set (h_live h) - set (blocks d h (css ! i))"
    by blast
  have "distinct js" "set js \<subseteq> {..<length (css[i := []])}" using Cons.prems by auto
  from Cons.IH [OF b(2) this] obtain h' d' css' where r:
    "remove_buckets h1 d1 js = Some (concat (map ((!) (css[i := []])) js), h', d')"
    "dict_inv h' d' css'" "length css' = length css"
    "\<forall>j < length css. css' ! j = (if j \<in> set js then [] else css[i := []] ! j)"
    "h_nodes h' = h_nodes h1" "d_key d' = d_key d1"
    "set (h_live h') = set (h_live h1) - set (blocks d1 h1 (concat (map ((!) (css[i := []])) js)))"
    by auto
  have m: "map ((!) (css[i := []])) js = map ((!) css) js" using Cons.prems(2) by (auto intro!: nth_list_update_neq)
  have "blocks d1 h1 = blocks d h" using blocks_cong [OF b(4,3)] .
  then have "set (h_live h') = set (h_live h) - set (blocks d h (concat (map ((!) css) (i # js))))"
    using r(7) b(5) m by auto
  moreover have "remove_buckets h d (i # js) = Some (concat (map ((!) css) (i # js)), h', d')"
    using b(1) r(1) m by simp
  moreover have "\<forall>j < length css. css' ! j = (if j \<in> set (i # js) then [] else css ! j)"
    using r(4) by (simp add: nth_list_update)
  ultimately show ?case using r(2,3,5,6) b(3,4) by auto
qed auto

lemma init_effect:
  assumes "malloc_ok mal" "heap_ok h" "hashsize \<noteq> 0" "keyspec \<noteq> DICTIONARY_KEYSPEC_USHORT"
    "dictionary_init mal h keyspec hashsize = Some (dp, h1, d)"
  shows "dict_inv h1 d (replicate (unat hashsize) [])" "h_live h1 = dp # h_live h"
    "dict_map h1 (replicate (unat hashsize) []) = Map.empty" "dp \<noteq> NULL"
proof -
  have d: "dp \<noteq> NULL" "h1 = h\<lparr>h_live := dp # h_live h\<rparr>" "dp \<notin> set (h_live h)"
    "d_hashtab d = replicate (unat hashsize) NULL" "d_hashsize d = hashsize" "d_count d = 0"
    "d_key d \<noteq> Ushort_key"
    using assms malloc_fresh [OF assms(1), of h "32 + 8 * unat hashsize"]
    by (auto simp: dictionary_init_def DICTIONARY_MALLOC_def Let_def split: if_splits)
  have c: "concat (replicate n []) = []" for n by (induction n) auto
  show "dict_inv h1 d (replicate (unat hashsize) [])"
    using d assms(2,3) by (auto simp: dict_inv_def list_all2_conv_all_nth c heap_ok_def unat_eq_zero)
  show "dict_map h1 (replicate (unat hashsize) []) = Map.empty" by (simp add: dict_map_def c)
qed (use assms in \<open>auto simp: dictionary_init_def DICTIONARY_MALLOC_def Let_def split: if_splits\<close>)

lemma get_effect:
  assumes inv: "dict_inv h d css" and k: "key_fits d k"
  shows "\<exists>np. dictionary_get h d k = Some np \<and>
    dict_map h css k = (if np = NULL then None else Some (dictionary_get_value h np))"
proof -
  obtain np where np: "dict_lookup h d k = Some np"
    "if np = NULL then k \<notin> keyof h ` set (concat css)
      else np \<in> set (css ! unat (key_hash d k)) \<and> np \<in> set (concat css) \<and> keyof h np = k"
    using lookup_inv [OF inv k] by blast
  have "dict_map h css k = (if np = NULL then None else Some (dl_value (h_nodes h np)))"
    using np(2) dict_map_None [of h css k] dict_map_Some [of h css k] inv
    by (auto simp: dict_inv_def split: if_splits)
  then show ?thesis using np(1) by (simp add: dictionary_get_def dictionary_get_value_def)
qed

subsection \<open>Iteration visits every node once\<close>

text \<open>What an iterator without comparison has still to visit.\<close>

definition it_rest :: "addr list list \<Rightarrow> dictionary_it \<Rightarrow> addr list \<Rightarrow> bool" where
  "it_rest css it rest \<longleftrightarrow>
     (di_np it = NULL \<and> di_idx it = -1 \<and> rest = concat css) \<or>
     (di_np it \<noteq> NULL \<and> (\<exists>i xs ys. di_idx it = int i \<and> i < length css \<and> css ! i = xs @ di_np it # ys \<and>
        rest = ys @ concat (drop (Suc i) css)))"

lemma find_bucket:
  assumes "list_all2 (is_list nx) tab css" "k \<le> length css"
  shows "case List.find (\<lambda>i. tab ! i \<noteq> NULL) [k..<length css] of
      None \<Rightarrow> concat (drop k css) = []
    | Some i \<Rightarrow> k \<le> i \<and> i < length css \<and> css ! i \<noteq> [] \<and> hd (css ! i) = tab ! i \<and> tab ! i \<noteq> NULL \<and>
        concat (drop k css) = css ! i @ concat (drop (Suc i) css)"
  using assms(2)
proof (induction "length css - k" arbitrary: k)
  case (Suc n)
  then have k: "k < length css" by simp
  have l: "is_list nx (tab ! k) (css ! k)" using assms(1) k by (simp add: list_all2_conv_all_nth)
  have d: "drop k css = css ! k # drop (Suc k) css" using k by (simp add: Cons_nth_drop_Suc)
  have u: "[k..<length css] = k # [Suc k..<length css]" using k by (simp add: upt_conv_Cons)
  show ?case
  proof (cases "tab ! k = NULL")
    case True
    then have "css ! k = []" using l by simp
    moreover have n: "n = length css - Suc k" "Suc k \<le> length css" using Suc.hyps(2) k by auto
    ultimately show ?thesis using Suc.hyps(1) [OF n] True d u by (auto split: option.splits)
  next
    case False
    then have "css ! k \<noteq> [] \<and> hd (css ! k) = tab ! k" using l by (cases "css ! k") auto
    then show ?thesis using False d u k by simp
  qed
qed simp

lemma it_step:
  assumes inv: "dict_inv h d css" and r: "it_rest css it rest"
    and op: "dict_it_next h d it = (np, it')"
  shows "if rest = [] then np = NULL else np = hd rest \<and> np \<noteq> NULL \<and> it_rest css it' (tl rest)"
proof -
  note iv = inv [unfolded dict_inv_def]
  have bk: "if concat (drop k css) = [] then np = NULL
       else np = hd (concat (drop k css)) \<and> np \<noteq> NULL \<and> it_rest css it' (tl (concat (drop k css)))"
    if k: "k \<le> length css" "nat (di_idx it + 1) = k" and s: "di_np it = NULL \<or> dl_next (h_nodes h (di_np it)) = NULL"
    for k
  proof -
    have e: "dict_it_next h d it = (case List.find (\<lambda>i. d_hashtab d ! i \<noteq> NULL) [k..<length css] of
        Some i \<Rightarrow> (d_hashtab d ! i, it\<lparr>di_prev := NULL, di_np := d_hashtab d ! i, di_idx := int i\<rparr>)
      | None \<Rightarrow> (NULL, it\<lparr>di_prev := NULL, di_np := NULL\<rparr>))"
      using s k iv by (auto simp: dict_it_next_def Let_def)
    show ?thesis
    proof (cases "List.find (\<lambda>i. d_hashtab d ! i \<noteq> NULL) [k..<length css]")
      case None
      then show ?thesis using find_bucket [of "nxt h" "d_hashtab d" css k] iv k e op by simp
    next
      case (Some i)
      then have f: "i < length css" "css ! i \<noteq> []" "hd (css ! i) = d_hashtab d ! i" "d_hashtab d ! i \<noteq> NULL"
        "concat (drop k css) = css ! i @ concat (drop (Suc i) css)"
        using find_bucket [of "nxt h" "d_hashtab d" css k] iv k by auto
      have h: "np = d_hashtab d ! i" "it' = it\<lparr>di_prev := NULL, di_np := d_hashtab d ! i, di_idx := int i\<rparr>"
        using op e Some by auto
      obtain c cs where cc: "css ! i = c # cs" using f(2) by (cases "css ! i") auto
      have "it_rest css it' (cs @ concat (drop (Suc i) css))"
        unfolding it_rest_def using f h cc
        by (intro disjI2 conjI exI [of _ i] exI [of _ "[]"] exI [of _ cs]) auto
      then show ?thesis using f h cc by simp
    qed
  qed
  show ?thesis
    using r unfolding it_rest_def [of css it rest]
  proof (elim disjE conjE exE)
    assume a: "di_np it = NULL" "di_idx it = -1" "rest = concat css"
    have "nat (di_idx it + 1) = 0" using a(2) by simp
    from bk [OF le0 this] a show ?thesis by (simp only: drop_0) auto
  next
    fix i xs ys
    assume a: "di_np it \<noteq> NULL" "di_idx it = int i" "i < length css" "css ! i = xs @ di_np it # ys"
      "rest = ys @ concat (drop (Suc i) css)"
    have l: "is_list (nxt h) (nxt h (di_np it)) ys"
      using is_list_mid bucket_chain(1) [OF inv a(3)] a(4) by metis
    show ?thesis
    proof (cases ys)
      case Nil
      then have "dl_next (h_nodes h (di_np it)) = NULL" using l by (simp add: nxt_def)
      moreover have "nat (di_idx it + 1) = Suc i" using a(2) by simp
      ultimately show ?thesis using bk [of "Suc i"] a(3,5) Nil
        by (auto simp del: concat_eq_Nil_conv split: if_splits)
    next
      case (Cons y zs)
      then have y: "dl_next (h_nodes h (di_np it)) = y" "y \<noteq> NULL" using l by (auto simp: nxt_def)
      then have n: "np = y" "it' = it\<lparr>di_prev := di_np it, di_np := y\<rparr>"
        using op a(1) by (auto simp: dict_it_next_def Let_def)
      have "it_rest css it' (zs @ concat (drop (Suc i) css))"
        unfolding it_rest_def using a n y Cons
        by (intro disjI2 conjI exI [of _ i] exI [of _ "xs @ [di_np it]"] exI [of _ zs]) auto
      then show ?thesis using n y a(5) Cons by simp
    qed
  qed
qed

text \<open>The loop of a client: \<open>dictionary_it_first\<close>, then \<open>dictionary_it_next\<close> until NULL.\<close>

fun it_drain :: "nat \<Rightarrow> heap \<Rightarrow> dictionary \<Rightarrow> (addr \<times> dictionary_it) option \<Rightarrow> addr list option" where
  "it_drain 0 h d r = None"
| "it_drain (Suc n) h d r =
     (case r of
        None \<Rightarrow> None
      | Some (np, it) \<Rightarrow> if np = NULL then Some []
          else map_option ((#) np) (it_drain n h d (dictionary_it_next h d it)))"

lemma it_drain_rest:
  assumes inv: "dict_inv h d css"
  shows "length rest < n \<Longrightarrow> it_rest css it rest \<Longrightarrow> di_cmp it = None \<Longrightarrow>
     it_drain n h d (Some (dict_it_next h d it)) = Some rest"
proof (induction n arbitrary: it rest)
  case (Suc n)
  obtain np it' where e: "dict_it_next h d it = (np, it')" by force
  have "di_cmp it' = None"
    using e Suc.prems(3) by (auto simp: dict_it_next_def Let_def split: if_splits option.splits)
  then show ?case
    using it_step [OF inv Suc.prems(2) e] Suc.IH [of "tl rest" it'] Suc.prems(1) e
    by (cases rest) (auto simp: dictionary_it_next_def)
qed simp

subsection \<open>Runs of operations\<close>

text \<open>Operations with values of one size, and the results a finite map explains.\<close>

datatype dict_op = Put dkey "u8 list" | Del dkey | Get dkey

fun op_key :: "dict_op \<Rightarrow> dkey" where
  "op_key (Put k v) = k"
| "op_key (Del k) = k"
| "op_key (Get k) = k"

datatype dict_res = RPut bool | RDel bool | RGet "u8 list option"

fun dict_step :: "malloc \<Rightarrow> nat \<Rightarrow> heap \<Rightarrow> dictionary \<Rightarrow> dict_op \<Rightarrow> (dict_res \<times> heap \<times> dictionary) option" where
  "dict_step mal n h d (Put k v) =
     do { (np, h, d) \<leftarrow> dictionary_replace mal h d k v n; Some (RPut (np \<noteq> NULL), h, d) }"
| "dict_step mal n h d (Del k) =
     do { (r, h, d) \<leftarrow> dictionary_remove h d k; Some (RDel (r \<noteq> 0), h, d) }"
| "dict_step mal n h d (Get k) =
     do { np \<leftarrow> dictionary_get h d k;
          Some (RGet (if np = NULL then None else Some (dictionary_get_value h np)), h, d) }"

fun dict_run :: "malloc \<Rightarrow> nat \<Rightarrow> heap \<Rightarrow> dictionary \<Rightarrow> dict_op list \<Rightarrow>
    (dict_res list \<times> heap \<times> dictionary) option" where
  "dict_run mal n h d [] = Some ([], h, d)"
| "dict_run mal n h d (p # ps) =
     do { (r, h, d) \<leftarrow> dict_step mal n h d p; (rs, h, d) \<leftarrow> dict_run mal n h d ps; Some (r # rs, h, d) }"

fun map_explains :: "(dkey \<Rightarrow> u8 list option) \<Rightarrow> dict_op list \<Rightarrow> dict_res list \<Rightarrow> (dkey \<Rightarrow> u8 list option) \<Rightarrow> bool" where
  "map_explains m [] [] m' \<longleftrightarrow> m' = m"
| "map_explains m (Put k v # ps) (RPut ok # rs) m' \<longleftrightarrow>
     (if ok then map_explains (m(k \<mapsto> v)) ps rs m' else m k = None \<and> map_explains m ps rs m')"
| "map_explains m (Del k # ps) (RDel ok # rs) m' \<longleftrightarrow>
     (ok \<longleftrightarrow> m k \<noteq> None) \<and> map_explains (m(k := None)) ps rs m'"
| "map_explains m (Get k # ps) (RGet v # rs) m' \<longleftrightarrow> v = m k \<and> map_explains m ps rs m'"
| "map_explains m _ _ m' \<longleftrightarrow> False"

definition sizes_ok :: "nat \<Rightarrow> dict_op list \<Rightarrow> bool" where
  "sizes_ok n ps \<longleftrightarrow> (\<forall>k v. Put k v \<in> set ps \<longrightarrow> length v = n)"

definition values_sized :: "nat \<Rightarrow> (dkey \<Rightarrow> u8 list option) \<Rightarrow> bool" where
  "values_sized n m \<longleftrightarrow> (\<forall>k v. m k = Some v \<longrightarrow> length v = n)"

definition same_type :: "dictionary \<Rightarrow> dictionary \<Rightarrow> bool" where
  "same_type d d' \<longleftrightarrow> d_key d' = d_key d \<and> d_keyspec d' = d_keyspec d"

lemma same_type_fits: "same_type d d' \<Longrightarrow> key_fits d' k = key_fits d k"
  by (cases k) (auto simp: same_type_def key_words_def)

lemma same_type_trans: "same_type d d' \<Longrightarrow> same_type d' d'' \<Longrightarrow> same_type d d''"
  by (simp add: same_type_def)

lemma same_type_ops:
  "link_head h d k a = (h', d') \<Longrightarrow> same_type d d'" "unlink h d i p a = (h', d') \<Longrightarrow> same_type d d'"
  by (auto simp: link_head_def unlink_def Let_def same_type_def split: if_splits)

lemma same_type_refl: "same_type d d"
  by (simp add: same_type_def)

lemma install_same_type: "dictionary_install_size mal h d k n = Some (np, h', d') \<Longrightarrow> same_type d d'"
  by (auto simp: dictionary_install_size_def bind_eq_Some_conv same_type_refl
      split: if_splits prod.splits dest: sym intro: same_type_ops(1))

lemma replace_same_type: "dictionary_replace mal h d k v n = Some (np, h', d') \<Longrightarrow> same_type d d'"
  by (auto simp: dictionary_replace_def bind_eq_Some_conv split: if_splits dest: install_same_type)

lemma remove_same_type: "dictionary_remove h d k = Some (r, h', d') \<Longrightarrow> same_type d d'"
  by (auto simp: dictionary_remove_def dict_remove_def bind_eq_Some_conv same_type_refl
      split: if_splits prod.splits dest: sym intro: same_type_ops(2))

lemma dict_step_same_type: "dict_step mal n h d p = Some (r, h', d') \<Longrightarrow> same_type d d'"
  by (cases p)
    (auto simp: bind_eq_Some_conv same_type_refl dest: replace_same_type remove_same_type)

lemma dict_step_explained:
  assumes inv: "dict_inv h d css" and m: "malloc_ok mal" and k: "key_fits d (op_key p)"
    and v: "sizes_ok n [p]" "values_sized n (dict_map h css)"
  shows "\<exists>r h' d' css'. dict_step mal n h d p = Some (r, h', d') \<and> dict_inv h' d' css' \<and>
    values_sized n (dict_map h' css') \<and> map_explains (dict_map h css) [p] [r] (dict_map h' css')"
proof (cases p)
  case (Put k w)
  then have l: "length w = n" "key_fits d k" using v(1) k by (auto simp: sizes_ok_def)
  have dk: "distinct (map (keyof h) (concat css))" using inv by (simp add: dict_inv_def)
  have fit: "n \<le> length (dl_value (h_nodes h a))" if "a \<in> set (concat css)" "keyof h a = k" for a
  proof -
    have "dict_map h css k = Some (dl_value (h_nodes h a))" using dict_map_Some [OF dk] that by blast
    then show ?thesis using v(2) by (simp add: values_sized_def)
  qed
  obtain np h' d' css' where r: "dictionary_replace mal h d k w n = Some (np, h', d')" "dict_inv h' d' css'"
    "dict_map h' css' = (if np = NULL then dict_map h css
      else (dict_map h css)(k \<mapsto> take n w @ drop n (case dict_map h css k of None \<Rightarrow> [] | Some w \<Rightarrow> w)))"
    "np = NULL \<longrightarrow> d' = d \<and> dict_map h css k = None"
    using replace_effect [OF inv m l(2) _ fit, of w] l(1) by blast
  have "take n w @ drop n (case dict_map h css k of None \<Rightarrow> [] | Some w \<Rightarrow> w) = w"
    using l(1) v(2) by (auto simp: values_sized_def split: option.split)
  then have "values_sized n (dict_map h' css')" "map_explains (dict_map h css) [p] [RPut (np \<noteq> NULL)] (dict_map h' css')"
    using r(3,4) v(2) l(1) Put by (auto simp: values_sized_def)
  then show ?thesis using r(1,2) Put by (auto intro!: exI [of _ css'])
next
  case (Del k)
  then obtain h' d' css' where r:
    "dictionary_remove h d k = Some (if dict_map h css k = None then 0 else 1, h', d')"
    "dict_inv h' d' css'" "dict_map h' css' = (dict_map h css)(k := None)"
    using remove_effect [OF inv, of k] k by auto
  have "values_sized n (dict_map h' css')" using v(2) by (simp add: values_sized_def r(3))
  moreover have "dict_step mal n h d p = Some (RDel (dict_map h css k \<noteq> None), h', d')"
    using r(1) Del by simp
  ultimately show ?thesis using r(2,3) Del
    by (intro exI [of _ "RDel (dict_map h css k \<noteq> None)"] exI [of _ h'] exI [of _ d'] exI [of _ css']) simp
next
  case (Get k)
  then obtain np where "dictionary_get h d k = Some np"
    "dict_map h css k = (if np = NULL then None else Some (dictionary_get_value h np))"
    using get_effect [OF inv, of k] k by auto
  then show ?thesis using inv v(2) Get by auto
qed

lemma map_explains_Cons:
  "map_explains m [p] [r] m1 \<Longrightarrow> map_explains m1 ps rs m2 \<Longrightarrow> map_explains m (p # ps) (r # rs) m2"
  by (cases p; cases r) (auto split: if_splits)

lemma dict_run_explained:
  "dict_inv h d css \<Longrightarrow> malloc_ok mal \<Longrightarrow> (\<forall>p \<in> set ps. key_fits d (op_key p)) \<Longrightarrow> sizes_ok n ps \<Longrightarrow>
   values_sized n (dict_map h css) \<Longrightarrow>
   \<exists>rs h' d' css'. dict_run mal n h d ps = Some (rs, h', d') \<and> dict_inv h' d' css' \<and>
     map_explains (dict_map h css) ps rs (dict_map h' css')"
proof (induction ps arbitrary: h d css)
  case (Cons p ps)
  then obtain r h1 d1 css1 where s: "dict_step mal n h d p = Some (r, h1, d1)" "dict_inv h1 d1 css1"
    "values_sized n (dict_map h1 css1)" "map_explains (dict_map h css) [p] [r] (dict_map h1 css1)"
    using dict_step_explained [of h d css mal p n] by (auto simp: sizes_ok_def)
  have "\<forall>q \<in> set ps. key_fits d1 (op_key q)"
    using Cons.prems(3) same_type_fits [OF dict_step_same_type [OF s(1)]] by simp
  moreover have "sizes_ok n ps" using Cons.prems(4) by (auto simp: sizes_ok_def)
  ultimately obtain rs h2 d2 css2 where "dict_run mal n h1 d1 ps = Some (rs, h2, d2)" "dict_inv h2 d2 css2"
    "map_explains (dict_map h1 css1) ps rs (dict_map h2 css2)"
    using Cons.IH [OF s(2) Cons.prems(2) _ _ s(3)] by blast
  then show ?case using s(1) map_explains_Cons [OF s(4)] by auto
qed auto

section \<open>Properties\<close>

definition demo_heap :: heap where
  "demo_heap = \<lparr>h_live = [], h_nodes = (\<lambda>_. \<lparr>dl_next = 0, dl_key = KStr [], dl_keyp = 0, dl_value = []\<rparr>),
     h_junk = 0xAA, h_fault = False\<rparr>"

definition demo_dict :: dictionary where
  "demo_dict = \<lparr>d_key = Str_key, d_hashsize = 4, d_keyspec = 0, d_count = 0, d_hashtab = [0, 0, 0, 0]\<rparr>"

lemma replicate_4: "replicate 4 x = [x, x, x, x]"
  by (simp add: numeral_eq_Suc)

lemma demo_init:
  "dictionary_init bump demo_heap DICTIONARY_KEYSPEC_STRING 4 = Some (1, demo_heap\<lparr>h_live := [1]\<rparr>, demo_dict)"
  by (simp add: dictionary_init_def DICTIONARY_MALLOC_def bump_def demo_heap_def demo_dict_def Let_def
      DICTIONARY_KEYSPEC_STRING_def DICTIONARY_KEYSPEC_USHORT_def DICTIONARY_KEYSPEC_CONST_STRING_def
      DICTIONARY_MKKEY_def DICTIONARY_KEYTYPE_STRING_def DICTIONARY_KEYTYPE_CONST_STRING_def
      DICTIONARY_KEYTYPE_USHORT_def DICTIONARY_KEYTYPE_BINARY_def replicate_4)

lemma demo_heap_ok: "heap_ok demo_heap"
  by (simp add: heap_ok_def demo_heap_def)

lemma demo_inv: "dict_inv (demo_heap\<lparr>h_live := [1]\<rparr>) demo_dict [[], [], [], []]"
  using init_effect(1) [OF bump_ok demo_heap_ok _ _ demo_init]
  by (simp add: DICTIONARY_KEYSPEC_STRING_def DICTIONARY_KEYSPEC_USHORT_def DICTIONARY_MKKEY_def
      DICTIONARY_KEYTYPE_STRING_def DICTIONARY_KEYTYPE_USHORT_def replicate_4)





text \<open>\<open>dictionary_it_first\<close> without a comparison followed by \<open>dictionary_it_next\<close> until NULL visits
  every node of the dictionary exactly once, bucket by bucket.\<close>

theorem dictionary_iteration_complete:
  assumes inv: "dict_inv h d css" and n: "length (concat css) < n"
  shows "it_drain n h d (dictionary_it_first h d it None u) = Some (concat css) \<and> distinct (concat css)"
proof -
  let ?it = "it\<lparr>di_idx := -1, di_cmp := None, di_np := NULL, di_unique := u\<rparr>"
  have "it_rest css ?it (concat css)" by (simp add: it_rest_def)
  then have "it_drain n h d (Some (dict_it_next h d ?it)) = Some (concat css)"
    using it_drain_rest [OF inv n, of ?it] by simp
  moreover have "distinct (concat css)"
    using inv blocks_distinct by (auto simp: dict_inv_def)
  ultimately show ?thesis by (simp add: dictionary_it_first_def Let_def case_prod_unfold)
qed

theorem dictionary_iteration_complete_witness:
  "it_drain 1 (demo_heap\<lparr>h_live := [1]\<rparr>) demo_dict (dictionary_it_first (demo_heap\<lparr>h_live := [1]\<rparr>) demo_dict
       \<lparr>di_np = 0, di_prev = 0, di_idx = 0, di_cmp = None, di_unique = False\<rparr> None False) = Some []"
  using dictionary_iteration_complete [OF demo_inv, of 1] by simp

text \<open>In a dictionary with ushort keys, an entry just stored under a key is not found again when one
  of the first four bytes of its value is not zero: with 64-bit pointers the key is compared together
  with these bytes.\<close>

theorem dictionary_ushort_key_lost:
  assumes i: "dictionary_init mal h DICTIONARY_KEYSPEC_USHORT hashsize = Some (dp, h1, d)" "hashsize \<noteq> 0"
    and r: "dictionary_replace mal h1 d (KShort k) v n = Some (np, h2, d2)" "np \<noteq> NULL"
    and v: "4 \<le> n" "n \<le> length v" "\<not> list_all (\<lambda>b. b = 0) (take 4 v)"
  shows "dictionary_get h2 d2 (KShort k) = Some NULL"
proof -
  let ?j = "unat (key_hash d (KShort k))"
  have d: "d_key d = Ushort_key" "d_hashsize d = hashsize" "d_hashtab d = replicate (unat hashsize) NULL"
    using i(1) by (auto simp: dictionary_init_def Let_def DICTIONARY_KEYSPEC_USHORT_def DICTIONARY_MKKEY_def
        DICTIONARY_KEYTYPE_USHORT_def DICTIONARY_KEYTYPE_BINARY_def split: if_splits prod.splits)
  have j: "?j < unat hashsize" using key_hash_less [of d "KShort k"] d(2) i(2) by (auto simp: unat_gt_0)
  then have b: "bucket d (KShort k) = NULL" by (simp add: bucket_def d(3) del: key_hash.simps)
  obtain a h3 where al: "key_alloc mal h1 d (KShort k) n = (a, h3)" by force
  have a: "a = np" "np \<noteq> NULL" "h2 = memcpy_value (fst (link_head h3 d (KShort k) np)) np v n"
    "d2 = snd (link_head h3 d (KShort k) np)"
    using r b al by (auto simp: dictionary_replace_def dictionary_install_size_def dict_lookup_def
        lookup_loop.simps bind_eq_Some_conv case_prod_unfold Let_def split: if_splits)
  have n3: "h_nodes h3 np = \<lparr>dl_next = NULL, dl_key = KShort k, dl_keyp = NULL,
      dl_value = replicate 4 0 @ replicate (n - 4) (h_junk h1)\<rparr>"
    using al a(1,2) v(1) by (auto simp: dictionary_ushort_keyval_alloc_def DICTIONARY_MALLOC_def Let_def
        upd_node_def split: if_splits)
  have n2: "dl_next (h_nodes h2 np) = NULL" "dl_value (h_nodes h2 np) = take n v"
    using n3 v j d(3)
    by (auto simp: a(3) link_head_def Let_def memcpy_value_def upd_node_def simp del: key_hash.simps)
  have "bucket d2 (KShort k) = np"
    using j d(3) by (simp add: a(4) bucket_def link_head_def Let_def del: key_hash.simps)
  moreover have "\<not> key_cmp d2 (h_nodes h2 np) (KShort k)"
    using v n2(2) by (simp add: dictionary_ushort_key_cmp_def)
  ultimately show ?thesis
    using n2(1) a(2) by (simp add: dictionary_get_def dict_lookup_def lookup_loop.simps)
qed

theorem dictionary_ushort_key_lost_witness:
  "\<exists>dp h1 d np h2 d2. dictionary_init bump demo_heap DICTIONARY_KEYSPEC_USHORT 4 = Some (dp, h1, d) \<and>
     dictionary_replace bump h1 d (KShort 5) [1, 2, 3, 4] 4 = Some (np, h2, d2) \<and> np \<noteq> NULL \<and>
     dictionary_get h2 d2 (KShort 5) = Some NULL"
proof -
  define d where "d = demo_dict\<lparr>d_key := Ushort_key, d_keyspec := DICTIONARY_KEYSPEC_USHORT\<rparr>"
  have i: "dictionary_init bump demo_heap DICTIONARY_KEYSPEC_USHORT 4 = Some (1, demo_heap\<lparr>h_live := [1]\<rparr>, d)"
    by (simp add: dictionary_init_def DICTIONARY_MALLOC_def bump_def demo_heap_def demo_dict_def d_def Let_def
        DICTIONARY_KEYSPEC_USHORT_def DICTIONARY_KEYSPEC_CONST_STRING_def DICTIONARY_MKKEY_def
        DICTIONARY_KEYTYPE_CONST_STRING_def DICTIONARY_KEYTYPE_USHORT_def DICTIONARY_KEYTYPE_BINARY_def replicate_4)
  have "dict_lookup (demo_heap\<lparr>h_live := [1]\<rparr>) d (KShort 5) = Some NULL"
    by (simp add: dict_lookup_def bucket_def d_def demo_dict_def dictionary_ushort_key_hash_def lookup_loop.simps)
  then have "\<exists>np h2 d2. dictionary_replace bump (demo_heap\<lparr>h_live := [1]\<rparr>) d (KShort 5) [1, 2, 3, 4] 4 =
      Some (np, h2, d2) \<and> np \<noteq> NULL"
    by (simp add: dictionary_replace_def dictionary_install_size_def dictionary_ushort_keyval_alloc_def
        DICTIONARY_MALLOC_def bump_def link_head_def Let_def)
  then obtain np h2 d2 where r: "dictionary_replace bump (demo_heap\<lparr>h_live := [1]\<rparr>) d (KShort 5) [1, 2, 3, 4] 4 =
      Some (np, h2, d2)" "np \<noteq> NULL" by blast
  show ?thesis using i r dictionary_ushort_key_lost [OF i _ r] by auto
qed

end
