(* ===== verification/Strsub.thy ===== *)
theory Strsub
  imports Prelude
begin

text \<open>
  String substitution, src/common/strsub.c: text between an opening and a closing delimiter is
  replaced by what an installed handler makes of it. The parser emits its output through a callback
  on a sink of type \<open>'s\<close>; handlers are functions of the callback, the token text, the offset and the sink.
  A text is the list of its bytes up to the terminating zero. The lists of handlers are lists of
  addresses, the callback of a handler is \<open>ss_cb\<close>. Offsets are \<open>int32_t\<close>
  in the source, whose overflow is undefined there; they are integers here.

  \<open>render\<close> is the text the substitution stands for; the buffer writer produces its prefix that fits.
\<close>

section \<open>Data\<close>

datatype strsub_token_t = StrsubDull | StrsubEsc | StrsubToken1 | StrsubToken2 | StrsubToken3

fun token_of :: "nat \<Rightarrow> strsub_token_t" where
  "token_of i = (if i = 0 then StrsubToken1 else if i = 1 then StrsubToken2 else StrsubToken3)"

fun token_index :: "strsub_token_t \<Rightarrow> nat" where
  "token_index StrsubToken2 = 1"
| "token_index StrsubToken3 = 2"
| "token_index _ = 0"

definition StrsubLast :: nat where "StrsubLast = 3"

type_synonym 's replace_cb = "u8 list \<Rightarrow> u32 \<Rightarrow> 's \<Rightarrow> int \<times> 's"
type_synonym 's lookup_cb = "'s replace_cb \<Rightarrow> u8 list \<Rightarrow> u32 \<Rightarrow> 's \<Rightarrow> int \<times> 's"

text \<open>A delimiter pair that is not set is \<open>None\<close>; an escape of 0 is none.\<close>

record 's STRSUB_INSTANCE_T =
  ss_escape :: u8
  ss_tokens :: "(u8 \<times> u8) option list"
  ss_handlers :: "addr list list"
  ss_cb :: "addr \<Rightarrow> 's lookup_cb"

definition STRSUB_ESCAPE_TOKEN :: u8 where "STRSUB_ESCAPE_TOKEN = 92"
definition STRSUB_HANDLERS_TOKENS :: "(u8 \<times> u8) option list" where
  "STRSUB_HANDLERS_TOKENS = [Some (91, 93), Some (37, 37), Some (60, 62)]"

section \<open>Handlers\<close>

definition strsub_install_handler ::
    "'s STRSUB_INSTANCE_T \<Rightarrow> int \<Rightarrow> addr \<Rightarrow> 's lookup_cb \<Rightarrow> bool \<times> 's STRSUB_INSTANCE_T" where
  "strsub_install_handler inst token handler cb =
     (if 0 \<le> token \<and> token < int StrsubLast then
        (let l = ss_handlers inst ! nat token
         in if handler \<in> set l then (True, inst)
            else (True, inst\<lparr>ss_cb := (ss_cb inst)(handler := cb),
                             ss_handlers := (ss_handlers inst)[nat token := handler # l]\<rparr>))
      else (False, inst))"

definition strsub_uninstall_handler ::
    "'s STRSUB_INSTANCE_T \<Rightarrow> nat \<Rightarrow> addr \<Rightarrow> 's STRSUB_INSTANCE_T" where
  "strsub_uninstall_handler inst token handler =
     inst\<lparr>ss_handlers := (ss_handlers inst)[token := remove1 handler (ss_handlers inst ! token)]\<rparr>"

section \<open>The parser\<close>

text \<open>The first delimiter pair with a handler that opens with \<open>c\<close>.\<close>

definition open_token :: "'s STRSUB_INSTANCE_T \<Rightarrow> u8 \<Rightarrow> nat option" where
  "open_token inst c =
     List.find (\<lambda>i. ss_handlers inst ! i \<noteq> [] \<and>
       (case ss_tokens inst ! i of None \<Rightarrow> False | Some (a, b) \<Rightarrow> c = a)) [0..<StrsubLast]"

definition closes :: "'s STRSUB_INSTANCE_T \<Rightarrow> nat \<Rightarrow> u8 \<Rightarrow> bool" where
  "closes inst i c \<longleftrightarrow> (case ss_tokens inst ! i of None \<Rightarrow> False | Some (a, b) \<Rightarrow> c = b)"

record 's parse_state =
  ps_state :: strsub_token_t
  ps_open :: u8
  ps_word :: "u8 list"
  ps_offset :: int
  ps_res :: int
  ps_tokens :: u32
  ps_sink :: 's

text \<open>The loop over the handlers of a closing token; \<open>None\<close>: no handler took the word.\<close>

fun try_handlers :: "'s STRSUB_INSTANCE_T \<Rightarrow> 's replace_cb \<Rightarrow> u8 list \<Rightarrow> u32 \<Rightarrow> addr list \<Rightarrow> 's \<Rightarrow>
    int option \<times> 's" where
  "try_handlers inst cb w off [] s = (None, s)"
| "try_handlers inst cb w off (h # hs) s =
     (let (res, s) = ss_cb inst h cb w off s
      in if res \<ge> 0 then (Some res, s) else try_handlers inst cb w off hs s)"

definition emit :: "'s replace_cb \<Rightarrow> u8 list \<Rightarrow> 's parse_state \<Rightarrow> 's parse_state" where
  "emit cb txt st =
     (let (res, s) = cb txt (word_of_int (ps_offset st)) (ps_sink st)
      in st\<lparr>ps_res := res, ps_sink := s,
            ps_offset := (if res > 0 then ps_offset st + res else ps_offset st)\<rparr>)"

definition strsub_step :: "'s STRSUB_INSTANCE_T \<Rightarrow> 's replace_cb \<Rightarrow> u8 \<Rightarrow> 's parse_state \<Rightarrow> 's parse_state" where
  "strsub_step inst cb c st =
     (case ps_state st of
        StrsubDull \<Rightarrow>
          if ss_escape inst \<noteq> 0 \<and> c = ss_escape inst then st\<lparr>ps_state := StrsubEsc\<rparr>
          else (case open_token inst c of
                  Some i \<Rightarrow> st\<lparr>ps_state := token_of i, ps_open := c, ps_word := []\<rparr>
                | None \<Rightarrow> emit cb [c] st)
      | StrsubEsc \<Rightarrow> (emit cb [c] st)\<lparr>ps_state := StrsubDull\<rparr>
      | t \<Rightarrow>
          (let i = token_index t
           in if closes inst i c then
                (case try_handlers inst cb (ps_word st) (word_of_int (ps_offset st))
                        (ss_handlers inst ! i) (ps_sink st) of
                   (Some res, s) \<Rightarrow>
                     st\<lparr>ps_sink := s, ps_res := res, ps_offset := ps_offset st + res,
                        ps_tokens := ps_tokens st + 1, ps_state := StrsubDull\<rparr>
                 | (None, s) \<Rightarrow>
                     (emit cb (ps_open st # ps_word st @ [c]) (st\<lparr>ps_sink := s\<rparr>))\<lparr>ps_state := StrsubDull\<rparr>)
              else st\<lparr>ps_word := ps_word st @ [c]\<rparr>))"

fun strsub_loop :: "'s STRSUB_INSTANCE_T \<Rightarrow> 's replace_cb \<Rightarrow> u8 list \<Rightarrow> 's parse_state \<Rightarrow> 's parse_state" where
  "strsub_loop inst cb [] st = st"
| "strsub_loop inst cb (c # cs) st =
     (if ps_res st < 0 then st else strsub_loop inst cb cs (strsub_step inst cb c st))"

text \<open>The bytes the loop reads: at most \<open>len\<close>, up to a zero.\<close>

definition parse_input :: "u8 list \<Rightarrow> nat \<Rightarrow> u8 list" where
  "parse_input buffer len = takeWhile (\<lambda>c. c \<noteq> 0) (take len buffer)"

definition strsub_parse ::
    "'s STRSUB_INSTANCE_T \<Rightarrow> 's replace_cb \<Rightarrow> u8 list \<Rightarrow> nat \<Rightarrow> 's \<Rightarrow> u32 \<times> u32 \<times> 's" where
  "strsub_parse inst cb buffer len s =
     (let st = strsub_loop inst cb (parse_input buffer len)
           \<lparr>ps_state = StrsubDull, ps_open = 0, ps_word = [], ps_offset = 0, ps_res = 0, ps_tokens = 0,
            ps_sink = s\<rparr>;
          s' = (if ps_res st \<ge> 0 then snd (cb [0] (word_of_int (ps_offset st)) (ps_sink st)) else ps_sink st)
      in (word_of_int (ps_offset st), ps_tokens st, s'))"

section \<open>The buffer writer\<close>

text \<open>The sink is the destination buffer, or \<open>None\<close> when only the length is wanted.\<close>

type_synonym dst = "u8 list option"

definition put_at :: "u8 list \<Rightarrow> nat \<Rightarrow> u8 list \<Rightarrow> u8 list" where
  "put_at d off txt = take off d @ txt @ drop (off + length txt) d"

definition strsub_cb :: "u32 \<Rightarrow> dst replace_cb" where
  "strsub_cb plen str offset d =
     (if offset \<ge> plen - 1 then (-1, d)
      else (let len = (of_nat (length str) :: u32);
                len = (if len + offset \<ge> plen - 1 then plen - offset - 1 else len)
            in (sint len, map_option (\<lambda>b. put_at b (unat offset) (take (unat len) str)) d)))"

definition strsub_parse_get_dst_length :: "dst STRSUB_INSTANCE_T \<Rightarrow> u8 list \<Rightarrow> nat \<Rightarrow> int" where
  "strsub_parse_get_dst_length inst str len =
     (let len = (if len = 0 then length str else len);
          (off, tokens, _) = strsub_parse inst (strsub_cb (- 1)) str len None;
          dstlen = sint off
      in if dstlen < 0 then EFAIL else if tokens = 0 then E_NOTFOUND else dstlen + 1)"

definition strsub_parse_string_to ::
    "dst STRSUB_INSTANCE_T \<Rightarrow> u8 list \<Rightarrow> nat \<Rightarrow> u8 list \<Rightarrow> u32 \<Rightarrow> u32 \<times> u8 list" where
  "strsub_parse_string_to inst str len dst dst_len =
     (let len = (if len = 0 then length str else len);
          (off, _, d) = strsub_parse inst (strsub_cb dst_len) str len (Some (dst[0 := 0]))
      in (off, the d))"

section \<open>What the substitution stands for\<close>

text \<open>A handler that looks a word up and emits the replacement with one call.\<close>

definition lookup_handler :: "(u8 list \<Rightarrow> u8 list option) \<Rightarrow> 's lookup_cb" where
  "lookup_handler f cb w off s = (case f w of None \<Rightarrow> (-1, s) | Some r \<Rightarrow> cb r off s)"

fun resolve :: "(addr \<Rightarrow> u8 list \<Rightarrow> u8 list option) \<Rightarrow> addr list \<Rightarrow> u8 list \<Rightarrow> u8 list option" where
  "resolve f [] w = None"
| "resolve f (h # hs) w = (case f h w of None \<Rightarrow> resolve f hs w | Some r \<Rightarrow> Some r)"

fun render :: "'s STRSUB_INSTANCE_T \<Rightarrow> (addr \<Rightarrow> u8 list \<Rightarrow> u8 list option) \<Rightarrow> strsub_token_t \<Rightarrow> u8 \<Rightarrow>
    u8 list \<Rightarrow> u8 list \<Rightarrow> u8 list" where
  "render inst f t a w [] = []"
| "render inst f StrsubDull a w (c # cs) =
     (if ss_escape inst \<noteq> 0 \<and> c = ss_escape inst then render inst f StrsubEsc a w cs
      else (case open_token inst c of
              Some i \<Rightarrow> render inst f (token_of i) c [] cs
            | None \<Rightarrow> c # render inst f StrsubDull a w cs))"
| "render inst f StrsubEsc a w (c # cs) = c # render inst f StrsubDull a w cs"
| "render inst f t a w (c # cs) =
     (if closes inst (token_index t) c
      then (case resolve f (ss_handlers inst ! token_index t) w of
              Some r \<Rightarrow> r | None \<Rightarrow> a # w @ [c]) @ render inst f StrsubDull a w cs
      else render inst f t a (w @ [c]) cs)"

fun replaced :: "'s STRSUB_INSTANCE_T \<Rightarrow> (addr \<Rightarrow> u8 list \<Rightarrow> u8 list option) \<Rightarrow> strsub_token_t \<Rightarrow>
    u8 list \<Rightarrow> u8 list \<Rightarrow> nat" where
  "replaced inst f t w [] = 0"
| "replaced inst f StrsubDull w (c # cs) =
     (if ss_escape inst \<noteq> 0 \<and> c = ss_escape inst then replaced inst f StrsubEsc w cs
      else (case open_token inst c of
              Some i \<Rightarrow> replaced inst f (token_of i) [] cs
            | None \<Rightarrow> replaced inst f StrsubDull w cs))"
| "replaced inst f StrsubEsc w (c # cs) = replaced inst f StrsubDull w cs"
| "replaced inst f t w (c # cs) =
     (if closes inst (token_index t) c
      then (if resolve f (ss_handlers inst ! token_index t) w = None then 0 else 1) +
           replaced inst f StrsubDull w cs
      else replaced inst f t (w @ [c]) cs)"

text \<open>The buffer after \<open>out\<close> was written to it, when \<open>k\<close> bytes can be used.\<close>

definition overlay :: "nat \<Rightarrow> u8 list \<Rightarrow> u8 list \<Rightarrow> u8 list" where
  "overlay k dst out = take k out @ drop (length (take k out)) dst"

lemma overlay_full: "k \<le> length out \<Longrightarrow> overlay k dst (out @ r) = overlay k dst out"
  by (simp add: overlay_def)

lemma put_overlay:
  assumes "length out < k" "n = min (length r) (k - length out)"
  shows "put_at (overlay k dst out) (length out) (take n r) = overlay k dst (out @ r)"
  using assms by (simp add: overlay_def put_at_def min_def add.commute)

definition pos :: "nat \<Rightarrow> u8 list \<Rightarrow> int" where
  "pos k out = int (length (take k out))"

lemma pos_mono: "pos k out \<le> pos k (out @ r)"
  by (simp add: pos_def)

lemma pos_full: "k \<le> length out \<Longrightarrow> pos k (out @ r) = pos k out"
  by (simp add: pos_def)

text \<open>One call of the writer: \<open>d\<close> holds what \<open>out\<close> left there.\<close>

lemma strsub_cb_overlay:
  assumes p: "unat plen = Suc k" and b: "length (out @ r) < 2147483648"
  defines "res \<equiv> (if k \<le> length out then -1 else pos k (out @ r) - pos k out)"
  shows "strsub_cb plen r (word_of_int (pos k out)) (map_option (\<lambda>d. overlay k d out) dst) =
      (res, map_option (\<lambda>d. overlay k d (out @ r)) dst)"
proof -
  define off :: u32 where "off = word_of_int (pos k out)"
  have k: "k < 4294967295" using p u32_less [of plen] by simp
  have off: "unat off = min (length out) k" unfolding off_def pos_def using k b by (subst unat_u32_of_int) auto
  have p1: "unat (plen - 1) = k" using p by (rule unat_u32_pred)
  have "strsub_cb plen r off (map_option (\<lambda>d. overlay k d out) dst) =
      (res, map_option (\<lambda>d. overlay k d (out @ r)) dst)"
  proof (cases "k \<le> length out")
    case True
    then have "off \<ge> plen - 1" using off p1 by (simp add: word_le_nat_alt)
    then show ?thesis using True by (simp add: strsub_cb_def res_def overlay_full)
  next
    case False
    then have o: "unat off = length out" "\<not> off \<ge> plen - 1" using off p1 by (auto simp: word_le_nat_alt)
    define n where "n = min (length r) (k - length out)"
    have lr: "unat (of_nat (length r) :: u32) = length r"
      using b by (intro unat_u32_of_nat) simp
    have sum: "unat (of_nat (length r) + off) = length r + length out"
      using lr o(1) b by (subst unat_u32_add) auto
    have rest: "unat (plen - off - 1) = k - length out"
    proof -
      have "plen - off - 1 = (plen - 1) - off" by (simp add: algebra_simps)
      also have "unat \<dots> = unat (plen - 1) - unat off"
        using o False p1 by (simp add: unat_sub word_le_nat_alt)
      finally show ?thesis unfolding p1 o(1) .
    qed
    define len :: u32 where "len = (if of_nat (length r) + off \<ge> plen - 1 then plen - off - 1 else of_nat (length r))"
    have len: "unat len = n"
      unfolding len_def n_def using sum rest lr p1 by (auto simp: word_le_nat_alt)
    have s: "sint len = int n"
      using len b by (subst sint_u32_small) (auto simp: n_def)
    have "strsub_cb plen r off d = (int n, map_option (\<lambda>b. put_at b (length out) (take n r)) d)" for d
      using o s len by (simp add: strsub_cb_def Let_def flip: len_def)
    moreover have "int n = res" using False by (auto simp: res_def n_def min_def pos_def)
    ultimately show ?thesis
      using put_overlay [of out k n r] False n_def
      by (cases dst) simp_all
  qed
  then show ?thesis unfolding off_def .
qed

lemma strsub_cb_full:
  assumes p: "unat plen = Suc k" and f: "k \<le> length out"
  shows "strsub_cb plen r (word_of_int (pos k out)) d = (-1, d)"
proof -
  have "k < 4294967295" using p u32_less [of plen] by simp
  then have "unat (word_of_int (pos k out) :: u32) = k"
    unfolding pos_def using f by (subst unat_u32_of_int) auto
  then have "plen - 1 \<le> word_of_int (pos k out)"
    using unat_u32_pred [OF p] by (simp only: word_le_nat_alt le_refl)
  then show ?thesis by (simp only: strsub_cb_def if_True)
qed

section \<open>The parser writes the prefix of the rendered text that fits\<close>

text \<open>\<open>out\<close> was emitted so far.\<close>

definition out_rel :: "nat \<Rightarrow> dst \<Rightarrow> dst parse_state \<Rightarrow> u8 list \<Rightarrow> bool" where
  "out_rel k d st out \<longleftrightarrow>
     ps_offset st = pos k out \<and> ps_sink st = map_option (\<lambda>b. overlay k b out) d \<and>
     (ps_res st < 0 \<longrightarrow> k \<le> length out)"

lemma out_rel_upd [simp]:
  "out_rel k d (st\<lparr>ps_state := t\<rparr>) out = out_rel k d st out"
  "out_rel k d (st\<lparr>ps_open := a\<rparr>) out = out_rel k d st out"
  "out_rel k d (st\<lparr>ps_word := w\<rparr>) out = out_rel k d st out"
  "out_rel k d (st\<lparr>ps_tokens := n\<rparr>) out = out_rel k d st out"
  by (simp_all add: out_rel_def)

lemma out_rel_full: "k \<le> length out \<Longrightarrow> out_rel k d st (out @ r) = out_rel k d st out"
  by (simp add: out_rel_def overlay_full pos_full)

lemma emit_fields [simp]:
  "ps_state (emit cb txt st) = ps_state st" "ps_open (emit cb txt st) = ps_open st"
  "ps_word (emit cb txt st) = ps_word st" "ps_tokens (emit cb txt st) = ps_tokens st"
  by (simp_all add: emit_def split: prod.split)

lemma emit_out:
  assumes p: "unat plen = Suc k" and r: "out_rel k d st out"
    and b: "length (out @ txt) < 2147483648 \<or> k \<le> length out"
  shows "out_rel k d (emit (strsub_cb plen) txt st) (out @ txt)"
proof (cases "k \<le> length out")
  case True
  have "emit (strsub_cb plen) txt st = st\<lparr>ps_res := -1\<rparr>"
    using r strsub_cb_full [OF p True] by (simp add: emit_def out_rel_def)
  then show ?thesis using r out_rel_full [OF True, of d "st\<lparr>ps_res := -1\<rparr>" "txt"] True by (simp add: out_rel_def)
next
  case False
  with b have "length (out @ txt) < 2147483648" by simp
  note cb = strsub_cb_overlay [OF p this, of d]
  show ?thesis using r cb False pos_mono [of k out "txt"] by (auto simp: emit_def out_rel_def)
qed

definition pure_handlers :: "dst STRSUB_INSTANCE_T \<Rightarrow> (addr \<Rightarrow> u8 list \<Rightarrow> u8 list option) \<Rightarrow> bool" where
  "pure_handlers inst f \<longleftrightarrow> (\<forall>h. ss_cb inst h = lookup_handler (f h))"

lemma try_handlers_pure:
  assumes p: "unat plen = Suc k" and h: "pure_handlers inst f"
    and b: "\<And>r. resolve f hs w = Some r \<Longrightarrow> length (out @ r) < 2147483648"
  shows "try_handlers inst (strsub_cb plen) w (word_of_int (pos k out)) hs
      (map_option (\<lambda>b. overlay k b out) d) =
    (case resolve f hs w of
       Some r \<Rightarrow> if k \<le> length out then (None, map_option (\<lambda>b. overlay k b out) d)
         else (Some (pos k (out @ r) - pos k out),
               map_option (\<lambda>b. overlay k b (out @ r)) d)
     | None \<Rightarrow> (None, map_option (\<lambda>b. overlay k b out) d))"
proof (cases "k \<le> length out")
  case True
  have "try_handlers inst (strsub_cb plen) w (word_of_int (pos k out)) hs d' = (None, d')" for d'
    by (induction hs)
      (use h in \<open>auto simp: pure_handlers_def lookup_handler_def strsub_cb_full [OF p True] split: option.split\<close>)
  then show ?thesis using True by (simp split: option.split)
next
  case False
  show ?thesis
    using b
  proof (induction hs)
    case (Cons x hs)
    show ?case
    proof (cases "f x w")
      case None
      then show ?thesis using Cons h by (simp add: pure_handlers_def lookup_handler_def)
    next
      case (Some r)
      then have "length (out @ r) < 2147483648" using Cons.prems by simp
      then show ?thesis using Some h False strsub_cb_overlay [OF p, of out r d] pos_mono [of k out r]
        by (simp add: pure_handlers_def lookup_handler_def)
    qed
  qed simp
qed

lemma token_index_of [simp]: "i < StrsubLast \<Longrightarrow> token_index (token_of i) = i"
  by (auto simp: StrsubLast_def)

text \<open>One step emits the first part of the rendered text and leaves the rest to render.\<close>

lemma strsub_step_render:
  assumes p: "unat plen = Suc k" and h: "pure_handlers inst f" and o: "out_rel k d st out"
    and b: "length (out @ render inst f (ps_state st) (ps_open st) (ps_word st) (c # cs)) < 2147483648"
  defines "st' \<equiv> strsub_step inst (strsub_cb plen) c st"
  shows "\<exists>r. render inst f (ps_state st) (ps_open st) (ps_word st) (c # cs) =
      r @ render inst f (ps_state st') (ps_open st') (ps_word st') cs \<and> out_rel k d st' (out @ r) \<and>
    (length (out @ r) < k \<longrightarrow>
      ps_tokens st' + of_nat (replaced inst f (ps_state st') (ps_word st') cs) =
      ps_tokens st + of_nat (replaced inst f (ps_state st) (ps_word st) (c # cs)))"
proof -
  let ?tok = "case resolve f (ss_handlers inst ! token_index (ps_state st)) (ps_word st) of
      Some r \<Rightarrow> r | None \<Rightarrow> ps_open st # ps_word st @ [c]"
  have tok: ?thesis if t: "ps_state st \<noteq> StrsubDull" "ps_state st \<noteq> StrsubEsc"
  proof -
    have rn: "render inst f (ps_state st) (ps_open st) (ps_word st) (c # cs) =
        (if closes inst (token_index (ps_state st)) c then ?tok @ render inst f StrsubDull (ps_open st) (ps_word st) cs
         else render inst f (ps_state st) (ps_open st) (ps_word st @ [c]) cs)"
      using t by (cases "ps_state st") (simp_all split: option.split)
    have rp: "replaced inst f (ps_state st) (ps_word st) (c # cs) =
        (if closes inst (token_index (ps_state st)) c
         then (if resolve f (ss_handlers inst ! token_index (ps_state st)) (ps_word st) = None then 0 else 1) +
           replaced inst f StrsubDull (ps_word st) cs
         else replaced inst f (ps_state st) (ps_word st @ [c]) cs)"
      using t by (cases "ps_state st") simp_all
    let ?hres = "try_handlers inst (strsub_cb plen) (ps_word st) (word_of_int (ps_offset st))
        (ss_handlers inst ! token_index (ps_state st)) (ps_sink st)"
    have s': "st' = (if closes inst (token_index (ps_state st)) c then
        (case ?hres of
           (Some res, s) \<Rightarrow> st\<lparr>ps_sink := s, ps_res := res, ps_offset := ps_offset st + res,
             ps_tokens := ps_tokens st + 1, ps_state := StrsubDull\<rparr>
         | (None, s) \<Rightarrow> (emit (strsub_cb plen) (ps_open st # ps_word st @ [c]) (st\<lparr>ps_sink := s\<rparr>))\<lparr>ps_state := StrsubDull\<rparr>)
        else st\<lparr>ps_word := ps_word st @ [c]\<rparr>)"
      using t unfolding st'_def strsub_step_def by (cases "ps_state st") (simp_all add: Let_def)
    show ?thesis
    proof (cases "closes inst (token_index (ps_state st)) c")
      case False
      then show ?thesis using o unfolding rn rp s' by (intro exI [of _ "[]"]) simp
    next
      case True
      have bt: "length (out @ ?tok) < 2147483648" using b unfolding rn if_P [OF True] by simp
      have off: "ps_offset st = pos k out" "ps_sink st = map_option (\<lambda>b. overlay k b out) d"
        using o by (auto simp: out_rel_def)
      have tr: "?hres = (case resolve f (ss_handlers inst ! token_index (ps_state st)) (ps_word st) of
         Some r \<Rightarrow> if k \<le> length out then (None, ps_sink st)
           else (Some (pos k (out @ r) - pos k out), map_option (\<lambda>b. overlay k b (out @ r)) d)
       | None \<Rightarrow> (None, ps_sink st))"
        unfolding off by (rule try_handlers_pure [OF p h]) (use bt in auto)
      have em: "out_rel k d (emit (strsub_cb plen) x st) (out @ x)" if "length (out @ x) < 2147483648 \<or> k \<le> length out" for x
        by (rule emit_out [OF p o that])
      show ?thesis
      proof (cases "resolve f (ss_handlers inst ! token_index (ps_state st)) (ps_word st)")
        case None
        then show ?thesis using em [of ?tok] bt True unfolding rn rp s' tr
          by (intro exI [of _ ?tok]) simp
      next
        case (Some r)
        show ?thesis
        proof (cases "k \<le> length out")
          case full: True
          have "out_rel k d (emit (strsub_cb plen) (ps_open st # ps_word st @ [c]) st) (out @ r)"
            using em full out_rel_full [OF full] by blast
          then show ?thesis using Some full True unfolding rn rp s' tr by (intro exI [of _ r]) simp
        next
          case False
          then show ?thesis using Some True off pos_mono [of k out r] unfolding rn rp s' tr
            by (intro exI [of _ r]) (simp add: out_rel_def)
        qed
      qed
    qed
  qed
  show ?thesis
  proof (cases "ps_state st")
    case StrsubDull
    show ?thesis
    proof (cases "ss_escape inst \<noteq> 0 \<and> c = ss_escape inst")
      case True
      then show ?thesis using StrsubDull o
        by (intro exI [of _ "[]"]) (simp add: st'_def strsub_step_def)
    next
      case esc: False
      show ?thesis
      proof (cases "open_token inst c")
        case None
        have "out_rel k d (emit (strsub_cb plen) [c] st) (out @ [c])"
          by (rule emit_out [OF p o]) (use b StrsubDull esc None in auto)
        then show ?thesis using StrsubDull esc None
          by (intro exI [of _ "[c]"]) (auto simp: st'_def strsub_step_def)
      next
        case (Some i)
        then show ?thesis using StrsubDull o esc
          by (intro exI [of _ "[]"]) (auto simp: st'_def strsub_step_def simp del: token_of.simps)
      qed
    qed
  next
    case StrsubEsc
    have "out_rel k d (emit (strsub_cb plen) [c] st) (out @ [c])"
      by (rule emit_out [OF p o]) (use b StrsubEsc in simp)
    then show ?thesis using StrsubEsc
      by (intro exI [of _ "[c]"]) (simp add: st'_def strsub_step_def)
  qed (rule tok; simp)+
qed

lemma strsub_loop_render:
  assumes p: "unat plen = Suc k" and h: "pure_handlers inst f"
  shows "out_rel k d st out \<Longrightarrow>
    length (out @ render inst f (ps_state st) (ps_open st) (ps_word st) cs) < 2147483648 \<Longrightarrow>
    out_rel k d (strsub_loop inst (strsub_cb plen) cs st)
      (out @ render inst f (ps_state st) (ps_open st) (ps_word st) cs) \<and>
    (length (out @ render inst f (ps_state st) (ps_open st) (ps_word st) cs) < k \<longrightarrow>
      ps_tokens (strsub_loop inst (strsub_cb plen) cs st) =
      ps_tokens st + of_nat (replaced inst f (ps_state st) (ps_word st) cs))"
proof (induction cs arbitrary: st out)
  case (Cons c cs)
  show ?case
  proof (cases "ps_res st < 0")
    case True
    with Cons.prems(1) have "k \<le> length out" by (simp add: out_rel_def)
    with True Cons.prems(1) show ?thesis by (simp add: out_rel_full)
  next
    case False
    let ?st = "strsub_step inst (strsub_cb plen) c st"
    obtain r where r: "render inst f (ps_state st) (ps_open st) (ps_word st) (c # cs) =
        r @ render inst f (ps_state ?st) (ps_open ?st) (ps_word ?st) cs" "out_rel k d ?st (out @ r)"
      "length (out @ r) < k \<longrightarrow> ps_tokens ?st + of_nat (replaced inst f (ps_state ?st) (ps_word ?st) cs) =
        ps_tokens st + of_nat (replaced inst f (ps_state st) (ps_word st) (c # cs))"
      using strsub_step_render [OF p h Cons.prems] by blast
    have "length ((out @ r) @ render inst f (ps_state ?st) (ps_open ?st) (ps_word ?st) cs) < 2147483648"
      using Cons.prems(2) unfolding r(1) by simp
    from Cons.IH [OF r(2) this] False r(1,3) show ?thesis
      by (simp del: render.simps replaced.simps)
  qed
qed simp

text \<open>The whole parse: the text, then the terminating zero.\<close>

lemma strsub_parse_render:
  assumes p: "unat plen = Suc k" and h: "pure_handlers inst f"
    and R: "R = render inst f StrsubDull 0 [] (parse_input buffer len)"
    and b: "length R + 1 < 2147483648"
  shows "strsub_parse inst (strsub_cb plen) buffer len d =
      (word_of_int (pos k R), fst (snd (strsub_parse inst (strsub_cb plen) buffer len d)),
       map_option (\<lambda>b. overlay k b (R @ [0])) d)"
    "length R < k \<Longrightarrow> fst (snd (strsub_parse inst (strsub_cb plen) buffer len d)) =
      of_nat (replaced inst f StrsubDull [] (parse_input buffer len))"
proof -
  define st where "st = strsub_loop inst (strsub_cb plen) (parse_input buffer len)
     \<lparr>ps_state = StrsubDull, ps_open = 0, ps_word = [], ps_offset = 0, ps_res = 0, ps_tokens = 0, ps_sink = d\<rparr>"
  have z: "overlay k b [] = b" for b by (simp add: overlay_def)
  have "out_rel k d \<lparr>ps_state = StrsubDull, ps_open = 0, ps_word = [], ps_offset = 0, ps_res = 0, ps_tokens = 0,
      ps_sink = d\<rparr> []"
    by (cases d) (simp_all add: out_rel_def pos_def z)
  from strsub_loop_render [OF p h this, of "parse_input buffer len"] b
  have o: "out_rel k d st R" and t: "length R < k \<Longrightarrow>
      ps_tokens st = of_nat (replaced inst f StrsubDull [] (parse_input buffer len))"
    by (simp_all add: R st_def)
  have par: "strsub_parse inst (strsub_cb plen) buffer len d = (word_of_int (ps_offset st), ps_tokens st,
      (if ps_res st \<ge> 0 then snd (strsub_cb plen [0] (word_of_int (ps_offset st)) (ps_sink st)) else ps_sink st))"
    by (simp add: strsub_parse_def Let_def st_def)
  have "(if ps_res st \<ge> 0 then snd (strsub_cb plen [0] (word_of_int (ps_offset st)) (ps_sink st)) else ps_sink st) =
      map_option (\<lambda>b. overlay k b (R @ [0])) d"
  proof (cases "ps_res st \<ge> 0")
    case True
    then show ?thesis using o strsub_cb_overlay [OF p, of R "[0]" d] b by (simp add: out_rel_def)
  next
    case False
    then show ?thesis using o by (simp add: out_rel_def overlay_full)
  qed
  then show "strsub_parse inst (strsub_cb plen) buffer len d =
      (word_of_int (pos k R), fst (snd (strsub_parse inst (strsub_cb plen) buffer len d)),
       map_option (\<lambda>b. overlay k b (R @ [0])) d)"
    unfolding par using o by (simp add: out_rel_def)
  show "length R < k \<Longrightarrow> fst (snd (strsub_parse inst (strsub_cb plen) buffer len d)) =
      of_nat (replaced inst f StrsubDull [] (parse_input buffer len))"
    unfolding par using t by simp
qed

lemma parse_input_all: "0 \<notin> set s \<Longrightarrow> parse_input s (length s) = s"
  by (auto simp: parse_input_def takeWhile_eq_all_conv)

lemma strsub_parse_fst_snd:
  assumes "strsub_parse inst cb buffer len d = (off, x, d')"
  shows "fst (strsub_parse inst cb buffer len d) = off" "snd (snd (strsub_parse inst cb buffer len d)) = d'"
  using assms by simp_all

lemma overlay_min: "overlay k b out = take k out @ drop (min (length out) k) b"
  by (simp add: overlay_def)

section \<open>Properties\<close>

text \<open>An instance with one handler for square brackets that knows one word.\<close>

definition demo_lookup :: "addr \<Rightarrow> u8 list \<Rightarrow> u8 list option" where
  "demo_lookup h w = (if w = [110] then Some [88, 89] else None)"

definition demo_inst :: "dst STRSUB_INSTANCE_T" where
  "demo_inst = \<lparr>ss_escape = STRSUB_ESCAPE_TOKEN, ss_tokens = STRSUB_HANDLERS_TOKENS,
     ss_handlers = [[1], [], []], ss_cb = (\<lambda>h. lookup_handler (demo_lookup h))\<rparr>"

lemma demo_pure: "pure_handlers demo_inst demo_lookup"
  by (simp add: pure_handlers_def demo_inst_def)

lemma demo_render: "render demo_inst demo_lookup StrsubDull 0 [] (parse_input [97, 91, 110, 93, 98] (Suc (Suc (Suc (Suc (Suc 0)))))) =
    [97, 88, 89, 98]"
  by (simp add: parse_input_def demo_inst_def demo_lookup_def open_token_def closes_def StrsubLast_def
      STRSUB_ESCAPE_TOKEN_def STRSUB_HANDLERS_TOKENS_def upt_rec)

lemma parse_string_to_eq:
  assumes h: "pure_handlers inst f" and l: "0 < dst_len" "unat dst_len \<le> length dst"
    and R: "R = render inst f StrsubDull 0 [] (parse_input str (if len = 0 then length str else len))"
    and b: "length R + 1 < 2147483648"
  shows "strsub_parse_string_to inst str len dst dst_len =
    (of_nat (min (length R) (unat dst_len - 1)),
     take (unat dst_len - 1) (R @ [0]) @ drop (min (length R + 1) (unat dst_len - 1)) (dst[0 := 0]))"
proof -
  obtain k where k: "unat dst_len = Suc k" using l(1) by (cases "unat dst_len") (auto simp: word_less_nat_alt)
  note par = strsub_parse_fst_snd [OF strsub_parse_render(1) [OF k h R b, of "Some (dst[0 := 0])"]]
  have "strsub_parse_string_to inst str len dst dst_len = (word_of_int (pos k R), overlay k (dst[0 := 0]) (R @ [0]))"
    using par by (simp add: strsub_parse_string_to_def Let_def case_prod_unfold)
  then show ?thesis by (simp add: overlay_min pos_def k del: take_append)
qed

text \<open>C25: \<open>strsub_parse_string_to\<close> writes to the destination the longest prefix of the rendered text and
  its terminator that leaves one byte free, returns the number of text bytes written, and touches no
  byte outside \<open>dst_len\<close>.\<close>

theorem strsub_parse_string_to_renders:
  assumes h: "pure_handlers inst f" and l: "0 < dst_len" "unat dst_len \<le> length dst"
    and R: "R = render inst f StrsubDull 0 [] (parse_input str (if len = 0 then length str else len))"
    and b: "length R + 1 < 2147483648"
  shows "strsub_parse_string_to inst str len dst dst_len =
    (of_nat (min (length R) (unat dst_len - 1)),
     take (unat dst_len - 1) (R @ [0]) @ drop (min (length R + 1) (unat dst_len - 1)) (dst[0 := 0]))"
  by (rule parse_string_to_eq [OF assms])

theorem strsub_parse_string_to_renders_witness:
  "strsub_parse_string_to demo_inst [97, 91, 110, 93, 98] 0 [9, 9, 9, 9, 9, 9, 9] 6 =
     (4, [97, 88, 89, 98, 0, 9, 9])"
  using strsub_parse_string_to_renders [OF demo_pure, of 6 "[9, 9, 9, 9, 9, 9, 9]" "[97, 88, 89, 98]"
      "[97, 91, 110, 93, 98]" 0] by (simp add: demo_render)

text \<open>Escaping every byte of a text with the escape character of the instance makes the
  substitution give the text back.\<close>

definition escape_all :: "'s STRSUB_INSTANCE_T \<Rightarrow> u8 list \<Rightarrow> u8 list" where
  "escape_all inst s = concat (map (\<lambda>c. [ss_escape inst, c]) s)"

lemma render_escaped: "ss_escape inst \<noteq> 0 \<Longrightarrow> render inst f StrsubDull a w (escape_all inst s) = s"
  by (induction s) (simp_all add: escape_all_def)

theorem strsub_escape_roundtrip:
  assumes h: "pure_handlers inst f" and l: "length s + 1 < unat dst_len" "unat dst_len \<le> length dst"
    and e: "ss_escape inst \<noteq> 0" "0 \<notin> set s" and b: "length s + 1 < 2147483648"
  shows "strsub_parse_string_to inst (escape_all inst s) 0 dst dst_len =
    (of_nat (length s), s @ [0] @ drop (length s + 1) dst)"
proof -
  have "0 \<notin> set (escape_all inst s)" using e by (auto simp: escape_all_def)
  note z = parse_input_all [OF this]
  have "0 < dst_len" using l(1) by (auto simp: word_gt_0)
  moreover have "s = render inst f StrsubDull 0 [] (parse_input (escape_all inst s)
      (if (0::nat) = 0 then length (escape_all inst s) else 0))"
    using render_escaped [OF e(1), of f 0 "[]" s] z by simp
  ultimately show ?thesis
    using parse_string_to_eq [OF h _ l(2) _ b, of "escape_all inst s" 0] l(1)
    by (simp add: min_absorb1 drop_update_cancel)
qed

theorem strsub_escape_roundtrip_witness:
  "strsub_parse_string_to demo_inst (escape_all demo_inst [91, 110]) 0 [9, 9, 9, 9, 9] 5 =
     (2, [91, 110, 0, 9, 9])"
  using strsub_escape_roundtrip [OF demo_pure, of "[91, 110]" 5 "[9, 9, 9, 9, 9]"]
  by (simp add: demo_inst_def STRSUB_ESCAPE_TOKEN_def)

text \<open>\<open>strsub_parse_get_dst_length\<close> gives the length of the rendered text and its terminator, or
  \<open>E_NOTFOUND\<close> when no token was replaced; but in a destination of exactly that length the terminator
  is not written: its last byte keeps the old content.\<close>

theorem strsub_exact_length_unterminated:
  assumes h: "pure_handlers inst f"
    and R: "R = render inst f StrsubDull 0 [] (parse_input str (if len = 0 then length str else len))"
    and n: "n = replaced inst f StrsubDull [] (parse_input str (if len = 0 then length str else len))"
    and b: "length R + 1 < 2147483648" "n < 4294967296" and d: "R \<noteq> []" "length dst = length R + 1"
  shows "strsub_parse_get_dst_length inst str len = (if n = 0 then E_NOTFOUND else int (length R) + 1) \<and>
    strsub_parse_string_to inst str len dst (of_nat (length R + 1)) = (of_nat (length R), R @ [last dst])"
proof
  have k: "unat (- 1 :: u32) = Suc 4294967294"
    by (simp add: unsigned_minus_1_eq_mask mask_eq_exp_minus_1)
  have R0: "length R < 4294967294" using b(1) by simp
  let ?len = "if len = 0 then length str else len"
  note par = strsub_parse_fst_snd [OF strsub_parse_render(1) [OF k h R b(1), of None]]
  have off: "sint (word_of_int (pos 4294967294 R) :: u32) = int (length R)"
  proof -
    have "(word_of_int (pos 4294967294 R) :: u32) = of_nat (length R)" using R0 by (simp add: pos_def min_def)
    moreover have "unat (of_nat (length R) :: u32) = length R" using b(1) by (intro unat_u32_of_nat) simp
    ultimately show ?thesis using b(1) by (simp add: sint_u32_small)
  qed
  have tok: "fst (snd (strsub_parse inst (strsub_cb (- 1)) str ?len None)) = of_nat n"
    using strsub_parse_render(2) [OF k h R b(1) R0, of None] n by simp
  have "(of_nat n :: u32) = 0 \<longleftrightarrow> n = 0"
  proof
    assume "(of_nat n :: u32) = 0"
    then have "unat (of_nat n :: u32) = 0" by (simp only: unsigned_0)
    then show "n = 0" unfolding unat_u32_of_nat [OF b(2)] .
  qed simp
  then show "strsub_parse_get_dst_length inst str len = (if n = 0 then E_NOTFOUND else int (length R) + 1)"
    using par(1) tok off by (simp add: strsub_parse_get_dst_length_def Let_def case_prod_unfold)
  have u: "unat (of_nat (length R + 1) :: u32) = length R + 1" using b(1) by (intro unat_u32_of_nat) simp
  then have "0 < (of_nat (length R + 1) :: u32)" by (simp only: word_less_nat_alt) simp
  from parse_string_to_eq [OF h this _ R b(1), of dst] d u
  have e: "strsub_parse_string_to inst str len dst (of_nat (length R + 1)) =
      (of_nat (length R), R @ drop (length R) (dst[0 := 0]))"
    by (simp del: of_nat_Suc)
  obtain x xs where R': "R = x # xs" using d(1) by (cases R) auto
  obtain y ys where dst: "dst = y # ys" "length ys = length R" using d(2) by (cases dst) auto
  then have "drop (length R) (dst[0 := 0]) = [last dst]"
    by (cases ys rule: rev_cases) (auto simp: R')
  then show "strsub_parse_string_to inst str len dst (of_nat (length R + 1)) = (of_nat (length R), R @ [last dst])"
    using e by simp
qed

theorem strsub_exact_length_unterminated_witness:
  "strsub_parse_get_dst_length demo_inst [97, 91, 110, 93, 98] 0 = 5 \<and>
   strsub_parse_string_to demo_inst [97, 91, 110, 93, 98] 0 [9, 9, 9, 9, 9] 5 = (4, [97, 88, 89, 98, 9])"
proof -
  have "replaced demo_inst demo_lookup StrsubDull []
      (parse_input [97, 91, 110, 93, 98] (Suc (Suc (Suc (Suc (Suc 0)))))) = 1"
    by (simp add: parse_input_def demo_inst_def demo_lookup_def open_token_def closes_def StrsubLast_def
      STRSUB_ESCAPE_TOKEN_def STRSUB_HANDLERS_TOKENS_def upt_rec)
  then show ?thesis
    using strsub_exact_length_unterminated [OF demo_pure, of "[97, 88, 89, 98]" "[97, 91, 110, 93, 98]" 0 1
        "[9, 9, 9, 9, 9]"]
    by (simp add: demo_render)
qed

end
