(* ===== verification/Threads.thy ===== *)
theory Threads
  imports Lists
begin

text \<open>
  The registry of service threads, src/svc/svc_threads.c. The two linked lists are lists of addresses
  (Lists.thy justifies the operations), the objects are a function of their address. What the
  operating system answers is an argument: the result of \<open>os_thread_create\<close> with the
  handle it stores, and the handle of the current thread. The completion callbacks made by an operation are
  returned, in order. The loop of the idle thread is the repetition of \<open>svc_threads_count\<close>.
\<close>

section \<open>Data\<close>

text \<open>Function pointers are addresses; 0 is none.\<close>

record SVC_THREADS_T =
  thd_thread :: nat
  thd_pf :: addr
  thd_arg :: addr
  thd_complete :: addr

record threads_state =
  th_list :: "addr list"
  th_complete :: "addr list"
  th_count :: u32
  th_sem :: nat
  th_obj :: "addr \<Rightarrow> SVC_THREADS_T"

text \<open>A completion callback: the function, the thread object and the argument.\<close>

type_synonym completion = "addr \<times> addr \<times> addr"

section \<open>Operations\<close>

definition svc_threads_init :: "threads_state \<Rightarrow> int \<times> threads_state" where
  "svc_threads_init s = (EOK, s\<lparr>th_list := [], th_complete := [], th_sem := 0\<rparr>)"

text \<open>\<open>os\<close>: the result of creating the idle thread.\<close>

definition svc_threads_start :: "int \<Rightarrow> int" where
  "svc_threads_start os = os"

text \<open>\<open>os\<close>: the result of \<open>os_thread_create\<close> and the handle it wrote.\<close>

definition svc_threads_create ::
    "int \<times> nat \<Rightarrow> threads_state \<Rightarrow> addr \<Rightarrow> addr \<Rightarrow> addr \<Rightarrow> addr \<Rightarrow> int \<times> threads_state" where
  "svc_threads_create os s thread complete pf arg =
     (let obj = \<lparr>thd_thread = snd os, thd_pf = pf, thd_arg = arg, thd_complete = complete\<rparr>;
          res = fst os
      in if res = EOK then
           (res, s\<lparr>th_obj := (th_obj s)(thread := obj), th_count := th_count s + 1,
                   th_list := ll_add_tail (th_list s) thread\<rparr>)
         else (res, s\<lparr>th_obj := (th_obj s)(thread := obj\<lparr>thd_pf := NULL\<rparr>)\<rparr>))"

definition svc_threads_terminate :: "nat \<Rightarrow> threads_state \<Rightarrow> threads_state" where
  "svc_threads_terminate current s =
     (case List.find (\<lambda>a. thd_thread (th_obj s a) = current) (th_list s) of
        None \<Rightarrow> s
      | Some start \<Rightarrow>
          s\<lparr>th_count := th_count s - 1, th_list := ll_remove (th_list s) start,
            th_complete := ll_add_head (th_complete s) start, th_sem := th_sem s + 1\<rparr>)"

definition svc_threads_complete_check :: "threads_state \<Rightarrow> int \<times> completion list \<times> threads_state" where
  "svc_threads_complete_check s =
     (let start = ll_head (th_complete s)
      in if start = NULL then (E_SRCH, [], s)
         else (let complete = thd_complete (th_obj s start); arg = thd_arg (th_obj s start);
                   s' = s\<lparr>th_complete := ll_remove_head (th_complete s),
                          th_obj := (th_obj s)(start := (th_obj s start)\<lparr>thd_pf := NULL\<rparr>)\<rparr>
               in (EOK, if complete \<noteq> NULL then [(complete, start, arg)] else [], s')))"

lemma complete_check_shorter:
  "svc_threads_complete_check s = (EOK, cbs, s') \<Longrightarrow> length (th_complete s') < length (th_complete s)"
  by (cases "th_complete s")
    (auto simp: svc_threads_complete_check_def Let_def list_ops err_codes split: if_splits)

function count_loop :: "threads_state \<Rightarrow> completion list \<times> threads_state" where
  "count_loop s =
     (let (res, cbs, s') = svc_threads_complete_check s
      in if res = EOK then (let (cbs', s'') = count_loop s' in (cbs @ cbs', s'')) else ([], s'))"
  by pat_completeness auto
termination
  by (relation "measure (\<lambda>s. length (th_complete s))") (auto dest: complete_check_shorter [OF sym])

definition svc_threads_count :: "threads_state \<Rightarrow> u32 \<times> completion list \<times> threads_state" where
  "svc_threads_count s = (let (cbs, s') = count_loop s in (th_count s', cbs, s'))"

definition svc_threads_is_active :: "threads_state \<Rightarrow> addr \<Rightarrow> bool" where
  "svc_threads_is_active s thread \<longleftrightarrow> thd_pf (th_obj s thread) \<noteq> NULL"

section \<open>Invariant\<close>

definition threads_inv :: "threads_state \<Rightarrow> bool" where
  "threads_inv s \<longleftrightarrow>
     distinct (th_list s @ th_complete s) \<and> NULL \<notin> set (th_list s @ th_complete s) \<and>
     th_count s = of_nat (length (th_list s)) \<and>
     (\<forall>a. svc_threads_is_active s a \<longleftrightarrow> a \<in> set (th_list s @ th_complete s))"

lemmas threads_defs = threads_inv_def svc_threads_is_active_def list_ops

lemma create_inv:
  assumes "threads_inv s" "\<not> svc_threads_is_active s thread" "thread \<noteq> NULL" "pf \<noteq> NULL"
  shows "threads_inv (snd (svc_threads_create os s thread complete pf arg))"
  using assms by (auto simp: svc_threads_create_def threads_defs Let_def)

lemma terminate_inv: "threads_inv s \<Longrightarrow> threads_inv (svc_threads_terminate cur s)"
proof (cases "List.find (\<lambda>a. thd_thread (th_obj s a) = cur) (th_list s)")
  case (Some a)
  then have a: "a \<in> set (th_list s)" by (auto simp: find_Some_iff)
  moreover have "of_nat (length (th_list s)) - 1 = (of_nat (length (remove1 a (th_list s))) :: u32)"
  proof -
    have "length (th_list s) = Suc (length (remove1 a (th_list s)))"
      using a length_pos_if_in_set [OF a] by (simp add: length_remove1)
    then show ?thesis by simp
  qed
  moreover assume "threads_inv s"
  ultimately show ?thesis using Some
    by (auto simp: svc_threads_terminate_def threads_defs)
qed (simp add: svc_threads_terminate_def)

lemma complete_check_cases:
  assumes "threads_inv s"
  shows "svc_threads_complete_check s = (case th_complete s of
      [] \<Rightarrow> (E_SRCH, [], s)
    | a # as \<Rightarrow> (EOK, if thd_complete (th_obj s a) \<noteq> NULL then [(thd_complete (th_obj s a), a, thd_arg (th_obj s a))] else [],
        s\<lparr>th_complete := as, th_obj := (th_obj s)(a := (th_obj s a)\<lparr>thd_pf := NULL\<rparr>)\<rparr>))"
  using assms by (cases "th_complete s") (auto simp: svc_threads_complete_check_def Let_def threads_defs)

lemma complete_check_inv: "threads_inv s \<Longrightarrow> threads_inv (snd (snd (svc_threads_complete_check s)))"
  by (subst complete_check_cases) (auto simp: threads_defs split: list.split)

section \<open>Reachable states\<close>

text \<open>
  A thread object is created only when it is not active (svc_services.c checks this), threads end, and
  the idle thread cleans up.
\<close>

inductive threads_reach :: "threads_state \<Rightarrow> bool" where
  init: "th_count s = 0 \<Longrightarrow> (\<forall>a. thd_pf (th_obj s a) = NULL) \<Longrightarrow> threads_reach (snd (svc_threads_init s))"
| create: "threads_reach s \<Longrightarrow> \<not> svc_threads_is_active s thread \<Longrightarrow> thread \<noteq> NULL \<Longrightarrow> pf \<noteq> NULL \<Longrightarrow>
    threads_reach (snd (svc_threads_create os s thread complete pf arg))"
| terminates: "threads_reach s \<Longrightarrow> threads_reach (svc_threads_terminate cur s)"
| check: "threads_reach s \<Longrightarrow> threads_reach (snd (snd (svc_threads_complete_check s)))"

lemma threads_reach_inv: "threads_reach s \<Longrightarrow> threads_inv s"
proof (induction rule: threads_reach.induct)
  case (init s)
  then show ?case by (simp add: svc_threads_init_def threads_defs)
qed (auto intro: create_inv terminate_inv complete_check_inv)

definition completions :: "threads_state \<Rightarrow> addr list \<Rightarrow> completion list" where
  "completions s as = concat (map (\<lambda>a. if thd_complete (th_obj s a) \<noteq> NULL
     then [(thd_complete (th_obj s a), a, thd_arg (th_obj s a))] else []) as)"

lemma count_loop_effect:
  "threads_inv s \<Longrightarrow> count_loop s = (completions s (th_complete s),
     s\<lparr>th_complete := [], th_obj := (\<lambda>a. if a \<in> set (th_complete s) then (th_obj s a)\<lparr>thd_pf := NULL\<rparr> else th_obj s a)\<rparr>)"
proof (induction s rule: count_loop.induct)
  case (1 s)
  show ?case
  proof (cases "th_complete s")
    case Nil
    then show ?thesis using complete_check_cases [OF 1(2)]
      by (subst count_loop.simps) (simp add: completions_def err_codes)
  next
    case (Cons a as)
    let ?cbs = "if thd_complete (th_obj s a) \<noteq> NULL then [(thd_complete (th_obj s a), a, thd_arg (th_obj s a))] else []"
    let ?s = "s\<lparr>th_complete := as, th_obj := (th_obj s)(a := (th_obj s a)\<lparr>thd_pf := NULL\<rparr>)\<rparr>"
    have c: "svc_threads_complete_check s = (EOK, ?cbs, ?s)"
      using complete_check_cases [OF 1(2)] Cons by simp
    have inv: "threads_inv ?s" using complete_check_inv [OF 1(2)] c by simp
    have ih: "count_loop ?s = (completions ?s (th_complete ?s), ?s\<lparr>th_complete := [],
        th_obj := (\<lambda>x. if x \<in> set (th_complete ?s) then (th_obj ?s x)\<lparr>thd_pf := NULL\<rparr> else th_obj ?s x)\<rparr>)"
      by (rule 1(1) [OF refl c [symmetric] refl refl inv])
    have na: "a \<notin> set as" using 1(2) Cons by (simp add: threads_inv_def)
    then have "completions ?s as = completions s as"
      unfolding completions_def by (intro arg_cong [of _ _ concat] map_cong) auto
    moreover have "completions s (a # as) = ?cbs @ completions s as" by (simp add: completions_def)
    ultimately show ?thesis
      using c ih Cons by (subst count_loop.simps) (auto simp: fun_eq_iff)
  qed
qed

section \<open>Properties\<close>

text \<open>C23: in every reachable state the counter is the number of running threads, no thread object is in
  both lists or twice in one, and an object is active exactly while it is in one of them.\<close>

theorem threads_registry_invariant:
  assumes "threads_reach s"
  shows "distinct (th_list s @ th_complete s) \<and> th_count s = of_nat (length (th_list s)) \<and>
    (svc_threads_is_active s a \<longleftrightarrow> a \<in> set (th_list s) \<union> set (th_complete s))"
  using threads_reach_inv [OF assms] by (auto simp: threads_inv_def)

definition demo_threads :: threads_state where
  "demo_threads = snd (svc_threads_create (EOK, 7)
     (snd (svc_threads_init \<lparr>th_list = [], th_complete = [], th_count = 0, th_sem = 0,
        th_obj = (\<lambda>_. \<lparr>thd_thread = 0, thd_pf = 0, thd_arg = 0, thd_complete = 0\<rparr>)\<rparr>)) 100 55 44 33)"

lemma demo_threads_reach: "threads_reach demo_threads"
  unfolding demo_threads_def
  by (intro threads_reach.create threads_reach.init) (simp_all add: svc_threads_init_def svc_threads_is_active_def)

theorem threads_registry_invariant_witness:
  "svc_threads_is_active demo_threads 100 \<and> th_count demo_threads = 1"
  using threads_registry_invariant [OF demo_threads_reach, of 100]
  by (simp add: demo_threads_def svc_threads_create_def svc_threads_init_def Let_def list_ops err_codes)

text \<open>C38: \<open>svc_threads_count\<close> ends; it makes the completion callback of every ended thread that has one
  exactly once, most recently ended first, leaves none waiting and not active, and returns the number of running threads.\<close>

theorem svc_threads_count_cleans_up:
  assumes "threads_reach s" "svc_threads_count s = (n, cbs, s')"
  shows "n = of_nat (length (th_list s)) \<and> cbs = completions s (th_complete s) \<and> th_complete s' = [] \<and>
    th_list s' = th_list s \<and> (svc_threads_is_active s' a \<longleftrightarrow> a \<in> set (th_list s))"
proof -
  note inv = threads_reach_inv [OF assms(1)]
  have "(n, cbs, s') = (th_count s, completions s (th_complete s), s\<lparr>th_complete := [],
      th_obj := (\<lambda>a. if a \<in> set (th_complete s) then (th_obj s a)\<lparr>thd_pf := NULL\<rparr> else th_obj s a)\<rparr>)"
    using assms(2) unfolding svc_threads_count_def count_loop_effect [OF inv] by simp
  then show ?thesis using inv by (auto simp: threads_inv_def svc_threads_is_active_def)
qed

theorem svc_threads_count_cleans_up_witness:
  "svc_threads_count (svc_threads_terminate 7 demo_threads) =
     (0, [(55, 100, 33)], snd (snd (svc_threads_count (svc_threads_terminate 7 demo_threads))))"
proof -
  let ?s = "svc_threads_terminate 7 demo_threads"
  have s: "th_list ?s = []" "th_complete ?s = [100]" "th_obj ?s 100 =
      \<lparr>thd_thread = 7, thd_pf = 44, thd_arg = 33, thd_complete = 55\<rparr>"
    by (simp_all add: demo_threads_def svc_threads_terminate_def svc_threads_create_def svc_threads_init_def
        Let_def list_ops err_codes)
  obtain n cbs s' where c: "svc_threads_count ?s = (n, cbs, s')" by (metis prod_cases3)
  show ?thesis
    using svc_threads_count_cleans_up [OF threads_reach.terminates [OF demo_threads_reach] c] s c
    by (simp add: completions_def)
qed

end
