(* ===== verification/Services.thy ===== *)
theory Services
  imports Threads
begin

text \<open>
  The services, src/svc/svc_services.c, on top of the thread registry. A service is a record, the
  service list an array of them up to its terminator, a handle an index. The thread object of service
  \<open>h\<close> has the address \<open>thd_of h\<close>.

  The control functions of the services and the operating system are an environment \<open>senv\<close>: its answers may depend
  on everything observable that happened before (the trace). Calls of the control functions, of completion
  callbacks and of status handlers are events of the trace; they do not call back into this module.
  Every function runs under the recursive mutex of the module and is one step; the thread of a service
  takes a step when it begins, when its run function returns, and when the registry cleans it up.
\<close>

section \<open>Data\<close>

definition SVC_SERVICE_STATUS_DISABLED :: int where [err_codes]: "SVC_SERVICE_STATUS_DISABLED = -1"
definition SVC_SERVICE_STATUS_STOPPED :: int where [err_codes]: "SVC_SERVICE_STATUS_STOPPED = 0"
definition SVC_SERVICE_STATUS_STOPPING :: int where [err_codes]: "SVC_SERVICE_STATUS_STOPPING = 1"
definition SVC_SERVICE_STATUS_STARTING :: int where [err_codes]: "SVC_SERVICE_STATUS_STARTING = 2"
definition SVC_SERVICE_STATUS_STARTED :: int where [err_codes]: "SVC_SERVICE_STATUS_STARTED = 3"
definition SVC_SERVICE_STATUS_RESIDENT :: int where [err_codes]: "SVC_SERVICE_STATUS_RESIDENT = 4"

definition SVC_SERVICES_INVALID :: int where "SVC_SERVICES_INVALID = 0"
definition SVC_SERVICE_INVALID_HANDLE :: u32 where "SVC_SERVICE_INVALID_HANDLE = 0xFFFFFFFF"

datatype ctrl_cmd =
  SVC_SERVICE_CTRL_INIT | SVC_SERVICE_CTRL_START | SVC_SERVICE_CTRL_STOP | SVC_SERVICE_CTRL_STATUS
| SVC_SERVICE_CTRL_HALT | SVC_SERVICE_CTRL_OTHER u32

text \<open>\<open>sv_ctrl\<close>, \<open>sv_run\<close>: whether the function pointer is set. The completion callback 0 is none.\<close>

record SVC_SERVICE_T =
  sv_cb :: addr
  sv_cb_parm :: nat
  sv_run :: bool
  sv_ctrl :: bool
  sv_parm :: nat
  sv_status :: int
  sv_exit_status :: int
  sv_service :: int
  sv_flags :: u32
  sv_name :: "u8 list"

datatype sv_event =
  Ctrl nat ctrl_cmd nat
| Complete addr int nat
| Sem_signal nat
| Changed addr int int nat

record services =
  sx_list :: "SVC_SERVICE_T list option"
  sx_cnt :: u32
  sx_handlers :: "addr list"
  sx_hobj :: "addr \<Rightarrow> addr \<times> nat"
  sx_thr :: threads_state
  sx_trace :: "sv_event list"

record senv =
  e_ctrl :: "sv_event list \<Rightarrow> nat \<Rightarrow> ctrl_cmd \<Rightarrow> nat \<Rightarrow> int"
  e_thread :: "sv_event list \<Rightarrow> int \<times> nat"
  e_ticks :: "sv_event list \<Rightarrow> int"

text \<open>Addresses: thread objects, and the functions this module passes as pointers.\<close>

definition thd_of :: "nat \<Rightarrow> addr" where "thd_of h = Suc h"
definition SERVICE_THREAD :: addr where "SERVICE_THREAD = 1"
definition SERVICE_THREAD_COMPLETE :: addr where "SERVICE_THREAD_COMPLETE = 2"
definition RESTART_CB :: addr where "RESTART_CB = 3"

definition svc_at :: "services \<Rightarrow> nat \<Rightarrow> SVC_SERVICE_T" where
  "svc_at s h = the (sx_list s) ! h"

definition upd_svc :: "services \<Rightarrow> nat \<Rightarrow> (SVC_SERVICE_T \<Rightarrow> SVC_SERVICE_T) \<Rightarrow> services" where
  "upd_svc s h f = s\<lparr>sx_list := map_option (\<lambda>l. l[h := f (l ! h)]) (sx_list s)\<rparr>"

definition log_ev :: "services \<Rightarrow> sv_event \<Rightarrow> services" where
  "log_ev s e = s\<lparr>sx_trace := sx_trace s @ [e]\<rparr>"

definition call_ctrl :: "senv \<Rightarrow> services \<Rightarrow> nat \<Rightarrow> ctrl_cmd \<Rightarrow> nat \<Rightarrow> int \<times> services" where
  "call_ctrl env s h cmd parm = (e_ctrl env (sx_trace s) h cmd parm, log_ev s (Ctrl h cmd parm))"

section \<open>Enumeration and lookup\<close>

definition svc_service_get :: "services \<Rightarrow> int \<Rightarrow> u32" where
  "svc_service_get s svc_id =
     (case sx_list s of
        None \<Rightarrow> SVC_SERVICE_INVALID_HANDLE
      | Some l \<Rightarrow>
          (case List.find (\<lambda>i. sv_service (l ! i) = svc_id) [0..<unat (sx_cnt s)] of
             Some i \<Rightarrow> of_nat i
           | None \<Rightarrow> SVC_SERVICE_INVALID_HANDLE))"

definition tolower :: "u8 \<Rightarrow> u8" where
  "tolower c = (if 65 \<le> c \<and> c \<le> 90 then c + 32 else c)"

definition same_name :: "u8 list \<Rightarrow> u8 list \<Rightarrow> bool" where
  "same_name a b \<longleftrightarrow> map tolower a = map tolower b"

text \<open>The second loop of \<open>svc_service_get_by_name\<close>: a prefix that is not ambiguous.\<close>

fun prefix_loop :: "SVC_SERVICE_T list \<Rightarrow> u8 list \<Rightarrow> nat list \<Rightarrow> u32 \<Rightarrow> u32" where
  "prefix_loop l name [] handle = handle"
| "prefix_loop l name (i # is) handle =
     (if same_name name (take (length name) (sv_name (l ! i))) then
        if handle = SVC_SERVICE_INVALID_HANDLE then prefix_loop l name is (of_nat i)
        else SVC_SERVICE_INVALID_HANDLE
      else prefix_loop l name is handle)"

definition svc_service_get_by_name :: "services \<Rightarrow> u8 list \<Rightarrow> u32" where
  "svc_service_get_by_name s name =
     (case sx_list s of
        None \<Rightarrow> SVC_SERVICE_INVALID_HANDLE
      | Some l \<Rightarrow>
          (case List.find (\<lambda>i. same_name name (sv_name (l ! i))) [0..<unat (sx_cnt s)] of
             Some i \<Rightarrow> of_nat i
           | None \<Rightarrow> prefix_loop l name [0..<unat (sx_cnt s)] SVC_SERVICE_INVALID_HANDLE))"

definition svc_service_first :: u32 where "svc_service_first = 0"

definition svc_service_next :: "services \<Rightarrow> u32 \<Rightarrow> u32" where
  "svc_service_next s handle =
     (if sx_list s \<noteq> None \<and> handle < sx_cnt s - 1 then handle + 1 else SVC_SERVICE_INVALID_HANDLE)"

definition svc_service_service :: "services \<Rightarrow> u32 \<Rightarrow> int" where
  "svc_service_service s handle =
     (if sx_list s \<noteq> None \<and> handle < sx_cnt s then sv_service (svc_at s (unat handle))
      else SVC_SERVICES_INVALID)"

section \<open>Status and notification\<close>

definition service_status :: "senv \<Rightarrow> services \<Rightarrow> nat \<Rightarrow> int \<times> services" where
  "service_status env s h =
     (if sv_status (svc_at s h) > SVC_SERVICE_STATUS_STOPPED \<and> sv_ctrl (svc_at s h) then
        (let (status, s) = call_ctrl env s h SVC_SERVICE_CTRL_STATUS (sv_parm (svc_at s h))
         in (if status \<ge> 0 then status else sv_status (svc_at s h), s))
      else (sv_status (svc_at s h), s))"

definition service_changed :: "services \<Rightarrow> int \<Rightarrow> nat \<Rightarrow> services" where
  "service_changed s status h =
     fold (\<lambda>a s. log_ev s (Changed (fst (sx_hobj s a)) (sv_service (svc_at s h)) status (snd (sx_hobj s a))))
       (sx_handlers s) s"

definition restart_cb :: "services \<Rightarrow> nat \<Rightarrow> services" where
  "restart_cb s sem = log_ev s (Sem_signal sem)"

text \<open>The call of a completion callback that is not NULL.\<close>

definition call_cb :: "services \<Rightarrow> addr \<Rightarrow> int \<Rightarrow> nat \<Rightarrow> services" where
  "call_cb s cb svc_id parm =
     (if cb = NULL then s else if cb = RESTART_CB then restart_cb s parm
      else log_ev s (Complete cb svc_id parm))"

definition svc_service_register_handler :: "services \<Rightarrow> addr \<Rightarrow> addr \<Rightarrow> nat \<Rightarrow> services" where
  "svc_service_register_handler s handler fp parm =
     s\<lparr>sx_hobj := (sx_hobj s)(handler := (fp, parm)),
       sx_handlers := ll_add_head (ll_remove (sx_handlers s) handler) handler\<rparr>"

definition svc_service_unregister_handler :: "services \<Rightarrow> addr \<Rightarrow> services" where
  "svc_service_unregister_handler s handler = s\<lparr>sx_handlers := ll_remove (sx_handlers s) handler\<rparr>"

section \<open>Initialisation\<close>

fun init_loop :: "senv \<Rightarrow> services \<Rightarrow> nat list \<Rightarrow> services" where
  "init_loop env s [] = s"
| "init_loop env s (i # is) =
     (if sv_service (svc_at s i) = SVC_SERVICES_INVALID then s
      else (let s = s\<lparr>sx_cnt := sx_cnt s + 1\<rparr>
            in if sv_ctrl (svc_at s i) then
                 (let (res, s) = call_ctrl env s i SVC_SERVICE_CTRL_INIT i;
                      s = (if res \<noteq> EOK then upd_svc s i (\<lambda>p. p\<lparr>sv_status := SVC_SERVICE_STATUS_DISABLED\<rparr>) else s)
                  in init_loop env s is)
               else init_loop env s is))"

definition svc_service_services_init :: "senv \<Rightarrow> services \<Rightarrow> SVC_SERVICE_T list \<Rightarrow> int \<times> services" where
  "svc_service_services_init env s l =
     (EOK, init_loop env (s\<lparr>sx_handlers := [], sx_list := Some l, sx_cnt := 0\<rparr>) [0..<length l])"

section \<open>Starting\<close>

definition do_service_start :: "senv \<Rightarrow> services \<Rightarrow> nat \<Rightarrow> addr \<Rightarrow> nat \<Rightarrow> int \<times> services" where
  "do_service_start env s h cb cb_parm =
     (let s = upd_svc s h (\<lambda>p. p\<lparr>sv_cb := NULL\<rparr>)
      in if \<not> sv_ctrl (svc_at s h) then (E_NOIMPL, s)
      else (let (status, s) = service_status env s h
      in if status = SVC_SERVICE_STATUS_STARTED then
           (EOK, call_cb s cb (sv_service (svc_at s h)) cb_parm)
      else if status \<noteq> SVC_SERVICE_STATUS_STOPPED then (E_UNEXP, s)
      else if sv_run (svc_at s h) \<and> svc_threads_is_active (sx_thr s) (thd_of h) then (EFAIL, s)
      else (let s = upd_svc s h (\<lambda>p. p\<lparr>sv_exit_status := e_ticks env (sx_trace s)\<rparr>);
                (res, s) = call_ctrl env s h SVC_SERVICE_CTRL_START (sv_parm (svc_at s h))
      in if res \<noteq> EOK then (res, service_changed s SVC_SERVICE_STATUS_STOPPED h)
      else if \<not> sv_run (svc_at s h) then
        (let s = upd_svc s h (\<lambda>p. p\<lparr>sv_exit_status := EOK, sv_status := SVC_SERVICE_STATUS_STARTED\<rparr>);
             s = call_cb s cb (sv_service (svc_at s h)) cb_parm
         in (EOK, service_changed s SVC_SERVICE_STATUS_STARTED h))
      else
        (let s = upd_svc s h (\<lambda>p. p\<lparr>sv_cb := cb, sv_cb_parm := cb_parm\<rparr>);
             s = service_changed s SVC_SERVICE_STATUS_STARTING h;
             (res, thr) = svc_threads_create (e_thread env (sx_trace s)) (sx_thr s) (thd_of h)
                SERVICE_THREAD_COMPLETE SERVICE_THREAD h;
             s = s\<lparr>sx_thr := thr\<rparr>;
             s = upd_svc s h (\<lambda>p. p\<lparr>sv_status :=
                   if res = EOK then SVC_SERVICE_STATUS_STARTING else SVC_SERVICE_STATUS_STOPPED\<rparr>);
             s = (if res \<noteq> EOK then service_changed s SVC_SERVICE_STATUS_STOPPED h else s)
         in (res, s)))))"

definition svc_service_start :: "senv \<Rightarrow> services \<Rightarrow> u32 \<Rightarrow> addr \<Rightarrow> nat \<Rightarrow> int \<times> services" where
  "svc_service_start env s handle cb cb_parm =
     (if sx_list s = None then (E_UNEXP, s)
      else if handle \<ge> sx_cnt s then (E_NOTFOUND, s)
      else (let h = unat handle; (status, s) = service_status env s h
      in if status \<noteq> SVC_SERVICE_STATUS_RESIDENT \<and> status \<noteq> SVC_SERVICE_STATUS_STARTING \<and>
            status \<noteq> SVC_SERVICE_STATUS_STOPPING \<and> status \<noteq> SVC_SERVICE_STATUS_DISABLED
         then do_service_start env s h cb cb_parm
         else (E_UNEXP, s)))"

definition svc_service_services_start :: "senv \<Rightarrow> services \<Rightarrow> u32 \<Rightarrow> int \<times> services" where
  "svc_service_services_start env s startflags =
     (if sx_list s = None then (E_UNEXP, s)
      else (EOK, fold (\<lambda>i s. if sv_flags (svc_at s i) AND startflags \<noteq> 0
                             then snd (do_service_start env s i NULL 0) else s)
                   [0..<unat (sx_cnt s)] s))"

section \<open>The thread of a service\<close>

definition service_thread_begin :: "services \<Rightarrow> nat \<Rightarrow> services" where
  "service_thread_begin s h =
     (let s = upd_svc s h (\<lambda>p. p\<lparr>sv_status := SVC_SERVICE_STATUS_STARTED\<rparr>);
          s = call_cb s (sv_cb (svc_at s h)) (sv_service (svc_at s h)) (sv_cb_parm (svc_at s h));
          s = upd_svc s h (\<lambda>p. p\<lparr>sv_cb := NULL, sv_cb_parm := 0\<rparr>)
      in service_changed s SVC_SERVICE_STATUS_STARTED h)"

text \<open>The run function returned \<open>status\<close>; the thread with handle \<open>current\<close> ends.\<close>

definition service_thread_exit :: "services \<Rightarrow> nat \<Rightarrow> int \<Rightarrow> nat \<Rightarrow> services" where
  "service_thread_exit s h status current =
     (let s = upd_svc s h (\<lambda>p. p\<lparr>sv_exit_status := status\<rparr>)
      in s\<lparr>sx_thr := svc_threads_terminate current (sx_thr s)\<rparr>)"

definition service_thread_complete :: "services \<Rightarrow> nat \<Rightarrow> services" where
  "service_thread_complete s h =
     (let s = upd_svc s h (\<lambda>p. p\<lparr>sv_status := SVC_SERVICE_STATUS_STOPPED\<rparr>);
          s = call_cb s (sv_cb (svc_at s h)) (sv_service (svc_at s h)) (sv_cb_parm (svc_at s h));
          s = upd_svc s h (\<lambda>p. p\<lparr>sv_cb := NULL, sv_cb_parm := 0\<rparr>)
      in service_changed s SVC_SERVICE_STATUS_STOPPED h)"

text \<open>One round of the idle thread: the registry hands an ended thread back and its service is told.\<close>

definition service_cleanup :: "services \<Rightarrow> services" where
  "service_cleanup s =
     (let (res, cbs, thr) = svc_threads_complete_check (sx_thr s)
      in fold (\<lambda>(cb, obj, arg) s. if cb = SERVICE_THREAD_COMPLETE then service_thread_complete s arg else s)
           cbs (s\<lparr>sx_thr := thr\<rparr>))"

section \<open>Stopping\<close>

definition svc_service_stop :: "senv \<Rightarrow> services \<Rightarrow> u32 \<Rightarrow> addr \<Rightarrow> nat \<Rightarrow> int \<times> services" where
  "svc_service_stop env s handle cb cb_parm =
     (if sx_list s = None then (E_UNEXP, s)
      else if handle \<ge> sx_cnt s then (E_NOTFOUND, s)
      else (let h = unat handle; s = upd_svc s h (\<lambda>p. p\<lparr>sv_cb := NULL\<rparr>)
      in if \<not> sv_ctrl (svc_at s h) then (E_NOIMPL, s)
      else (let (status, s) = service_status env s h
      in if status = SVC_SERVICE_STATUS_STOPPED then
           (EOK, call_cb s cb (uint handle) cb_parm)
      else if status < SVC_SERVICE_STATUS_STARTING then
        (let s = upd_svc s h (\<lambda>p. p\<lparr>sv_cb := cb, sv_cb_parm := cb_parm\<rparr>);
             (res, s) = call_ctrl env s h SVC_SERVICE_CTRL_STOP (sv_parm (svc_at s h))
         in (E_UNEXP, service_changed s SVC_SERVICE_STATUS_STOPPED h))
      else (let s = upd_svc s h (\<lambda>p. p\<lparr>sv_exit_status := e_ticks env (sx_trace s)\<rparr>)
      in if \<not> sv_run (svc_at s h) then
        (let s = upd_svc s h (\<lambda>p. p\<lparr>sv_status := SVC_SERVICE_STATUS_STOPPED\<rparr>);
             (res, s) = call_ctrl env s h SVC_SERVICE_CTRL_STOP (sv_parm (svc_at s h));
             s = upd_svc s h (\<lambda>p. p\<lparr>sv_exit_status := res\<rparr>);
             s = call_cb s cb (sv_service (svc_at s h)) cb_parm
         in (res, service_changed s SVC_SERVICE_STATUS_STOPPED h))
      else
        (let s = upd_svc s h (\<lambda>p. p\<lparr>sv_cb := cb, sv_cb_parm := cb_parm\<rparr>);
             s = service_changed s SVC_SERVICE_STATUS_STOPPING h;
             (res, s) = call_ctrl env s h SVC_SERVICE_CTRL_STOP (sv_parm (svc_at s h));
             s = upd_svc s h (\<lambda>p. p\<lparr>sv_status :=
                   if res = EOK then SVC_SERVICE_STATUS_STOPPING else SVC_SERVICE_STATUS_STARTED\<rparr>);
             s = (if res \<noteq> EOK then service_changed s SVC_SERVICE_STATUS_STARTED h else s)
         in (res, s))))))"

text \<open>
  The blocking variants: \<open>wait\<close> is what \<open>os_sem_wait_timeout\<close> returns together with the state the other
  threads left meanwhile; \<open>sem\<close> is the semaphore on the stack.
\<close>

definition svc_service_start_timeout ::
    "senv \<Rightarrow> (services \<Rightarrow> int \<times> services) \<Rightarrow> services \<Rightarrow> u32 \<Rightarrow> nat \<Rightarrow> int \<times> services" where
  "svc_service_start_timeout env wait s handle sem =
     (if sx_list s = None then (E_UNEXP, s)
      else if handle \<ge> sx_cnt s then (E_NOTFOUND, s)
      else (let h = unat handle; (status, s) = service_status env s h
      in if status = SVC_SERVICE_STATUS_STOPPED then
           (let (res, s) = svc_service_start env s handle RESTART_CB sem
            in if res = EOK then
                 (let (res, s) = wait s in (EOK, upd_svc s h (\<lambda>p. p\<lparr>sv_cb := NULL, sv_cb_parm := 0\<rparr>)))
               else (EOK, s))
         else (EOK, s)))"

definition svc_service_stop_timeout ::
    "senv \<Rightarrow> (services \<Rightarrow> int \<times> services) \<Rightarrow> services \<Rightarrow> u32 \<Rightarrow> nat \<Rightarrow> int \<times> services" where
  "svc_service_stop_timeout env wait s handle sem =
     (if sx_list s = None then (E_UNEXP, s)
      else if handle \<ge> sx_cnt s then (E_NOTFOUND, s)
      else (let h = unat handle; (status, s) = service_status env s h
      in if status \<noteq> SVC_SERVICE_STATUS_STOPPED then
           (let (res, s) = svc_service_stop env s handle RESTART_CB sem
            in if res = EOK then
                 (let (res, s) = wait s in (EOK, upd_svc s h (\<lambda>p. p\<lparr>sv_cb := NULL, sv_cb_parm := 0\<rparr>)))
               else (EOK, s))
         else (EOK, s)))"

section \<open>Control\<close>

definition svc_service_system_halt :: "senv \<Rightarrow> services \<Rightarrow> services" where
  "svc_service_system_halt env s =
     (if sx_list s = None \<or> sx_cnt s = 0 then s
      else fold (\<lambda>i s. if sv_status (svc_at s i) < SVC_SERVICE_STATUS_STARTED then s
                       else if sv_ctrl (svc_at s i)
                            then snd (call_ctrl env s i SVC_SERVICE_CTRL_HALT (sv_parm (svc_at s i))) else s)
             (rev [0..<unat (sx_cnt s)]) s)"

definition svc_service_ctrl :: "senv \<Rightarrow> services \<Rightarrow> u32 \<Rightarrow> ctrl_cmd \<Rightarrow> nat \<Rightarrow> int \<times> services" where
  "svc_service_ctrl env s handle cmd parm =
     (if sx_list s = None then (E_UNEXP, s)
      else if handle \<ge> sx_cnt s then (E_NOTFOUND, s)
      else if \<not> sv_ctrl (svc_at s (unat handle)) then (E_NOIMPL, s)
      else (let h = unat handle; (status, s) = service_status env s h
      in if status < SVC_SERVICE_STATUS_STARTING then (E_UNEXP, s)
         else (let (res, s) = call_ctrl env s h cmd parm
         in if res = EOK then
              (let (new_status, s) = service_status env s h
               in (res, if new_status \<noteq> status then service_changed s new_status h else s))
            else (res, s))))"

partial_function (option) broadcast_loop ::
    "senv \<Rightarrow> services \<Rightarrow> u32 \<Rightarrow> ctrl_cmd \<Rightarrow> nat \<Rightarrow> services option" where
  "broadcast_loop env s handle cmd parm =
     (if handle = SVC_SERVICE_INVALID_HANDLE then Some s
      else (let s = snd (svc_service_ctrl env s handle cmd parm)
            in broadcast_loop env s (svc_service_next s handle) cmd parm))"

definition svc_service_ctrl_broadcast :: "senv \<Rightarrow> services \<Rightarrow> ctrl_cmd \<Rightarrow> nat \<Rightarrow> services option" where
  "svc_service_ctrl_broadcast env s cmd parm =
     (if sx_list s = None then Some s else broadcast_loop env s svc_service_first cmd parm)"

definition svc_service_status :: "senv \<Rightarrow> services \<Rightarrow> u32 \<Rightarrow> int \<times> services" where
  "svc_service_status env s handle =
     (if sx_list s = None then (E_UNEXP, s) else if handle \<ge> sx_cnt s then (E_NOTFOUND, s)
      else service_status env s (unat handle))"

definition svc_service_get_arg :: "services \<Rightarrow> u32 \<Rightarrow> nat" where
  "svc_service_get_arg s handle =
     (if sx_list s = None \<or> handle \<ge> sx_cnt s then 0 else sv_parm (svc_at s (unat handle)))"

definition svc_service_set_arg :: "services \<Rightarrow> u32 \<Rightarrow> nat \<Rightarrow> nat \<times> services" where
  "svc_service_set_arg s handle arg =
     (if sx_list s = None \<or> handle \<ge> sx_cnt s then (0, s)
      else (arg, upd_svc s (unat handle) (\<lambda>p. p\<lparr>sv_parm := arg\<rparr>)))"

definition svc_service_get_flags :: "services \<Rightarrow> u32 \<Rightarrow> u32" where
  "svc_service_get_flags s handle =
     (if sx_list s = None \<or> handle \<ge> sx_cnt s then 0 else sv_flags (svc_at s (unat handle)))"

definition svc_service_exit_status :: "services \<Rightarrow> u32 \<Rightarrow> int" where
  "svc_service_exit_status s handle =
     (if sx_list s = None then E_UNEXP else if handle \<ge> sx_cnt s then E_NOTFOUND
      else sv_exit_status (svc_at s (unat handle)))"

definition svc_service_name :: "services \<Rightarrow> u32 \<Rightarrow> u8 list" where
  "svc_service_name s handle =
     (if sx_list s = None then bytes ''(NOT STARTED)''
      else if handle \<ge> sx_cnt s then bytes ''(INVALID)'' else sv_name (svc_at s (unat handle)))"

definition svc_service_status_name :: "senv \<Rightarrow> services \<Rightarrow> u32 \<Rightarrow> string \<times> services" where
  "svc_service_status_name env s handle =
     (if sx_list s = None then ('''', s)
      else if handle < sx_cnt s then
        (let (st, s) = service_status env s (unat handle)
         in (if st = SVC_SERVICE_STATUS_DISABLED then ''[ ]''
             else if st = SVC_SERVICE_STATUS_STOPPED then ''[-]''
             else if st = SVC_SERVICE_STATUS_STARTING then ''[.]''
             else if st = SVC_SERVICE_STATUS_STOPPING then ''[.]''
             else if st = SVC_SERVICE_STATUS_STARTED then ''[+]''
             else if st = SVC_SERVICE_STATUS_RESIDENT then ''[r]'' else ''[e]'', s))
      else (''[e]'', s))"

definition svc_service_status_description :: "senv \<Rightarrow> services \<Rightarrow> u32 \<Rightarrow> string \<times> services" where
  "svc_service_status_description env s handle =
     (if sx_list s = None then ('''', s)
      else if handle < sx_cnt s then
        (let (st, s) = service_status env s (unat handle)
         in (if st = SVC_SERVICE_STATUS_DISABLED then ''disabled''
             else if st = SVC_SERVICE_STATUS_STOPPED then ''stopped''
             else if st = SVC_SERVICE_STATUS_STARTING then ''starting''
             else if st = SVC_SERVICE_STATUS_STOPPING then ''stopping''
             else if st = SVC_SERVICE_STATUS_STARTED then ''started''
             else if st = SVC_SERVICE_STATUS_RESIDENT then ''resident'' else ''error'', s))
      else (''error'', s))"

section \<open>What the operations leave of the state\<close>

text \<open>Run flag and status of every service: with the count and the threads, all the invariant reads.\<close>

definition statuses :: "services \<Rightarrow> (bool \<times> int) list" where
  "statuses s = (case sx_list s of None \<Rightarrow> [] | Some l \<Rightarrow> map (\<lambda>p. (sv_run p, sv_status p)) l)"

definition same_core :: "services \<Rightarrow> services \<Rightarrow> bool" where
  "same_core s s' \<longleftrightarrow> statuses s' = statuses s \<and> sx_cnt s' = sx_cnt s \<and> sx_thr s' = sx_thr s \<and>
     (sx_list s' = None \<longleftrightarrow> sx_list s = None)"

lemma statuses_thr [simp]: "statuses (s\<lparr>sx_thr := t\<rparr>) = statuses s"
  by (simp add: statuses_def)

lemma same_core_refl [simp, intro!]: "same_core s s"
  by (simp add: same_core_def)

lemma same_core_trans: "same_core s s' \<Longrightarrow> same_core s' s'' \<Longrightarrow> same_core s s''"
  by (simp add: same_core_def)

lemma log_ev_core [simp]: "same_core s (log_ev s' e) \<longleftrightarrow> same_core s s'"
  by (simp add: same_core_def log_ev_def statuses_def)

lemma log_ev_at [simp]: "svc_at (log_ev s e) h = svc_at s h"
  by (simp add: svc_at_def log_ev_def)

lemma call_cb_core [simp]: "same_core s (call_cb s' cb i p) \<longleftrightarrow> same_core s s'"
  by (simp add: call_cb_def restart_cb_def)

lemma call_cb_at [simp]: "svc_at (call_cb s cb i p) h = svc_at s h"
  by (simp add: call_cb_def restart_cb_def)

lemma fold_log_core: "same_core s (fold (\<lambda>a s. log_ev s (f a s)) as s') \<longleftrightarrow> same_core s s'"
  by (induction as arbitrary: s') auto

lemma fold_log_at: "svc_at (fold (\<lambda>a s. log_ev s (f a s)) as s) h = svc_at s h"
  by (induction as arbitrary: s) auto

lemma service_changed_core [simp]: "same_core s (service_changed s' st h) \<longleftrightarrow> same_core s s'"
  by (simp add: service_changed_def fold_log_core)

lemma service_changed_at [simp]: "svc_at (service_changed s st h) i = svc_at s i"
  by (simp add: service_changed_def fold_log_at)

lemma call_ctrl_core: "call_ctrl env s h cmd p = (r, s') \<Longrightarrow> same_core s s' \<and> (\<forall>i. svc_at s' i = svc_at s i)"
  by (auto simp: call_ctrl_def)

lemma service_status_core:
  "service_status env s h = (st, s') \<Longrightarrow> same_core s s' \<and> (\<forall>i. svc_at s' i = svc_at s i)"
  by (auto simp: service_status_def call_ctrl_def Let_def split: if_splits)

lemma map_update_same: "(\<And>x. g (f x) = g x) \<Longrightarrow> map g (l[h := f (l ! h)]) = map g l"
  by (cases "h < length l") (simp_all add: map_update list_update_same_conv list_update_beyond)

lemma upd_svc_core:
  assumes "\<And>p. sv_run (f p) = sv_run p \<and> sv_status (f p) = sv_status p"
  shows "same_core s (upd_svc s' h f) \<longleftrightarrow> same_core s s'"
proof (cases "sx_list s'")
  case (Some l)
  have "map (\<lambda>p. (sv_run p, sv_status p)) (l[h := f (l ! h)]) = map (\<lambda>p. (sv_run p, sv_status p)) l"
    by (rule map_update_same) (simp add: assms)
  then show ?thesis using Some by (simp add: same_core_def upd_svc_def statuses_def)
qed (simp add: same_core_def upd_svc_def statuses_def)

lemma upd_svc_core_fields [simp]:
  "same_core s (upd_svc s' h (\<lambda>p. p\<lparr>sv_cb := c\<rparr>)) \<longleftrightarrow> same_core s s'"
  "same_core s (upd_svc s' h (\<lambda>p. p\<lparr>sv_cb := c, sv_cb_parm := q\<rparr>)) \<longleftrightarrow> same_core s s'"
  "same_core s (upd_svc s' h (\<lambda>p. p\<lparr>sv_exit_status := e\<rparr>)) \<longleftrightarrow> same_core s s'"
  "same_core s (upd_svc s' h (\<lambda>p. p\<lparr>sv_parm := q\<rparr>)) \<longleftrightarrow> same_core s s'"
  by (rule upd_svc_core, simp)+

text \<open>A new status for one service.\<close>

definition set_core :: "services \<Rightarrow> nat \<Rightarrow> int \<Rightarrow> threads_state \<Rightarrow> services \<Rightarrow> bool" where
  "set_core s h v thr s' \<longleftrightarrow>
     statuses s' = (statuses s)[h := (fst (statuses s ! h), v)] \<and> sx_cnt s' = sx_cnt s \<and> sx_thr s' = thr \<and>
     (sx_list s' = None \<longleftrightarrow> sx_list s = None)"

lemma set_core_same: "set_core s h v thr s' \<Longrightarrow> same_core s' s'' \<Longrightarrow> set_core s h v thr s''"
  by (simp add: set_core_def same_core_def)

lemma same_set_core: "same_core s s' \<Longrightarrow> set_core s' h v thr s'' \<Longrightarrow> set_core s h v thr s''"
  by (simp add: set_core_def same_core_def)

lemma set_core_upd:
  assumes "h < length (statuses s)" "\<And>p. sv_run (f p) = sv_run p \<and> sv_status (f p) = v"
  shows "set_core s h v (sx_thr s) (upd_svc s h f)"
  using assms by (cases "sx_list s") (auto simp: set_core_def upd_svc_def statuses_def map_update)

text \<open>What starting a service does: nothing to the core, or it starts it, with or without a thread.\<close>

definition start_outcome :: "services \<Rightarrow> nat \<Rightarrow> services \<Rightarrow> bool" where
  "start_outcome s h s' \<longleftrightarrow> same_core s s' \<or>
     (\<not> fst (statuses s ! h) \<and> set_core s h SVC_SERVICE_STATUS_STARTED (sx_thr s) s') \<or>
     (fst (statuses s ! h) \<and> \<not> svc_threads_is_active (sx_thr s) (thd_of h) \<and>
      (\<exists>os. set_core s h (if fst os = EOK then SVC_SERVICE_STATUS_STARTING else SVC_SERVICE_STATUS_STOPPED)
         (snd (svc_threads_create os (sx_thr s) (thd_of h) SERVICE_THREAD_COMPLETE SERVICE_THREAD h)) s'))"

lemma statuses_at: "h < length (statuses s) \<Longrightarrow> statuses s ! h = (sv_run (svc_at s h), sv_status (svc_at s h))"
  by (simp add: statuses_def svc_at_def split: option.splits)

lemma start_outcome_same: "same_core s s' \<Longrightarrow> start_outcome s' h s'' \<Longrightarrow> start_outcome s h s''"
  unfolding start_outcome_def set_core_def same_core_def by simp

lemma same_core_at:
  assumes "same_core s s'" "h < length (statuses s)"
  shows "sv_run (svc_at s' h) = fst (statuses s ! h)" "sv_status (svc_at s' h) = snd (statuses s ! h)"
    "sx_thr s' = sx_thr s" "h < length (statuses s')"
  using assms statuses_at [of h s'] by (auto simp: same_core_def)

lemma set_core_after:
  assumes "same_core s s'" "h < length (statuses s)"
    "\<And>p. sv_run (f p) = sv_run p \<and> sv_status (f p) = v" "same_core (upd_svc (s'\<lparr>sx_thr := thr\<rparr>) h f) s''"
  shows "set_core s h v thr s''"
proof -
  have st: "statuses (s'\<lparr>sx_thr := thr\<rparr>) = statuses s'" by (simp add: statuses_def)
  have len: "h < length (statuses (s'\<lparr>sx_thr := thr\<rparr>))"
    unfolding st using same_core_at(4) [OF assms(1,2)] .
  have "set_core (s'\<lparr>sx_thr := thr\<rparr>) h v thr (upd_svc (s'\<lparr>sx_thr := thr\<rparr>) h f)"
    using set_core_upd [OF len assms(3)] by simp
  then have "set_core (s'\<lparr>sx_thr := thr\<rparr>) h v thr s''" using set_core_same assms(4) by blast
  then show ?thesis using assms(1) st by (simp add: set_core_def same_core_def)
qed

lemma do_service_start_outcome:
  assumes h: "h < length (statuses s)" and op: "do_service_start env s h cb cb_parm = (r, s')"
  shows "start_outcome s h s'"
proof -
  define s0 where "s0 = upd_svc s h (\<lambda>p. p\<lparr>sv_cb := NULL\<rparr>)"
  have c0: "same_core s s0" by (simp add: s0_def)
  obtain st s1 where e1: "service_status env s0 h = (st, s1)" by force
  have c1: "same_core s s1" using service_status_core [OF e1] c0 same_core_trans by blast
  define s2 where "s2 = upd_svc s1 h (\<lambda>p. p\<lparr>sv_exit_status := e_ticks env (sx_trace s1)\<rparr>)"
  have c2: "same_core s s2" using c1 by (simp add: s2_def)
  obtain res s3 where e3: "call_ctrl env s2 h SVC_SERVICE_CTRL_START (sv_parm (svc_at s2 h)) = (res, s3)" by force
  have c3: "same_core s s3" using call_ctrl_core [OF e3] c2 same_core_trans by blast
  define l3 where "l3 = upd_svc s3 h (\<lambda>p. p\<lparr>sv_exit_status := EOK, sv_status := SVC_SERVICE_STATUS_STARTED\<rparr>)"
  define s4 where "s4 = service_changed (upd_svc s3 h (\<lambda>p. p\<lparr>sv_cb := cb, sv_cb_parm := cb_parm\<rparr>))
      SVC_SERVICE_STATUS_STARTING h"
  have c4: "same_core s s4" using c3 by (simp add: s4_def)
  obtain tr thr where e4: "svc_threads_create (e_thread env (sx_trace s4)) (sx_thr s4) (thd_of h)
      SERVICE_THREAD_COMPLETE SERVICE_THREAD h = (tr, thr)" by force
  define v where "v = (if tr = EOK then SVC_SERVICE_STATUS_STARTING else SVC_SERVICE_STATUS_STOPPED)"
  define s5 where "s5 = upd_svc (s4\<lparr>sx_thr := thr\<rparr>) h (\<lambda>p. p\<lparr>sv_status := v\<rparr>)"
  note op' = op [unfolded do_service_start_def Let_def, folded s0_def, unfolded e1 prod.case, folded s2_def,
      unfolded e3 prod.case, folded l3_def s4_def, unfolded e4 prod.case, folded v_def, folded s5_def]
  consider (same) "same_core s s'"
    | (local) "\<not> sv_run (svc_at s3 h)" "same_core l3 s'"
    | (thread) "sv_run (svc_at s3 h)" "\<not> (sv_run (svc_at s1 h) \<and> svc_threads_is_active (sx_thr s1) (thd_of h))"
      "same_core s5 s'"
    using op' c0 c1 c3 by (auto split: if_splits)
  then show ?thesis
  proof cases
    case same
    then show ?thesis by (simp add: start_outcome_def)
  next
    case local
    have "same_core (upd_svc (s3\<lparr>sx_thr := sx_thr s\<rparr>) h
        (\<lambda>p. p\<lparr>sv_exit_status := EOK, sv_status := SVC_SERVICE_STATUS_STARTED\<rparr>)) s'"
      using local(2) same_core_at(3) [OF c3 h, symmetric] by (simp add: l3_def)
    then have "set_core s h SVC_SERVICE_STATUS_STARTED (sx_thr s) s'"
      by (rule set_core_after [OF c3 h, rotated]) simp
    then show ?thesis using local(1) same_core_at(1) [OF c3 h] by (simp add: start_outcome_def)
  next
    case thread
    have "set_core s h v thr s'"
      by (rule set_core_after [OF c4 h _ thread(3) [unfolded s5_def]]) simp
    moreover have "tr = fst (e_thread env (sx_trace s4))"
      using e4 by (auto simp: svc_threads_create_def Let_def split: if_splits)
    moreover have "\<not> svc_threads_is_active (sx_thr s) (thd_of h)" "fst (statuses s ! h)"
      using thread same_core_at [OF c1 h] same_core_at [OF c3 h] by auto
    ultimately show ?thesis
      using e4 same_core_at(3) [OF c4 h] unfolding start_outcome_def v_def by (metis snd_conv)
  qed
qed

lemma service_status_active:
  "service_status env s h = (st, s') \<Longrightarrow> st > SVC_SERVICE_STATUS_STOPPED \<Longrightarrow>
   sv_status (svc_at s h) > SVC_SERVICE_STATUS_STOPPED"
  by (auto simp: service_status_def call_ctrl_def Let_def split: if_splits)

definition stop_outcome :: "services \<Rightarrow> nat \<Rightarrow> services \<Rightarrow> bool" where
  "stop_outcome s h s' \<longleftrightarrow> same_core s s' \<or>
     (\<not> fst (statuses s ! h) \<and> set_core s h SVC_SERVICE_STATUS_STOPPED (sx_thr s) s') \<or>
     (snd (statuses s ! h) > SVC_SERVICE_STATUS_STOPPED \<and>
      (\<exists>v > SVC_SERVICE_STATUS_STOPPED. set_core s h v (sx_thr s) s'))"

lemma set_status_after:
  assumes "same_core s s'" "h < length (statuses s)" "same_core (upd_svc s' h (\<lambda>p. p\<lparr>sv_status := v\<rparr>)) s''"
  shows "set_core s h v (sx_thr s) s''"
proof -
  have "same_core (upd_svc (s'\<lparr>sx_thr := sx_thr s\<rparr>) h (\<lambda>p. p\<lparr>sv_status := v\<rparr>)) s''"
    using assms(3) same_core_at(3) [OF assms(1,2), symmetric] by simp
  then show ?thesis by (rule set_core_after [OF assms(1,2), rotated]) simp
qed

lemma svc_service_stop_outcome:
  assumes h: "unat handle < length (statuses s)" and op: "svc_service_stop env s handle cb cb_parm = (r, s')"
  shows "stop_outcome s (unat handle) s'"
proof -
  define h where "h = unat handle"
  note h = h [folded h_def]
  define s0 where "s0 = upd_svc s h (\<lambda>p. p\<lparr>sv_cb := NULL\<rparr>)"
  have c0: "same_core s s0" by (simp add: s0_def)
  obtain st s1 where e1: "service_status env s0 h = (st, s1)" by force
  have c1: "same_core s s1" using service_status_core [OF e1] c0 same_core_trans by blast
  define w where "w = upd_svc s1 h (\<lambda>p. p\<lparr>sv_cb := cb, sv_cb_parm := cb_parm\<rparr>)"
  obtain wr w1 where f1: "call_ctrl env w h SVC_SERVICE_CTRL_STOP (sv_parm (svc_at w h)) = (wr, w1)" by force
  have cw: "same_core s w1" using call_ctrl_core [OF f1] same_core_trans [of s w w1] c1 by (simp add: w_def)
  define s2 where "s2 = upd_svc s1 h (\<lambda>p. p\<lparr>sv_exit_status := e_ticks env (sx_trace s1)\<rparr>)"
  have c2: "same_core s s2" using c1 by (simp add: s2_def)
  define l2 where "l2 = upd_svc s2 h (\<lambda>p. p\<lparr>sv_status := SVC_SERVICE_STATUS_STOPPED\<rparr>)"
  obtain lr l3 where f2: "call_ctrl env l2 h SVC_SERVICE_CTRL_STOP (sv_parm (svc_at l2 h)) = (lr, l3)" by force
  have cl: "same_core l2 l3" using call_ctrl_core [OF f2] by blast
  define s3 where "s3 = service_changed (upd_svc s2 h (\<lambda>p. p\<lparr>sv_cb := cb, sv_cb_parm := cb_parm\<rparr>))
      SVC_SERVICE_STATUS_STOPPING h"
  have c3: "same_core s s3" using c2 by (simp add: s3_def)
  obtain tr s4 where f3: "call_ctrl env s3 h SVC_SERVICE_CTRL_STOP (sv_parm (svc_at s3 h)) = (tr, s4)" by force
  have c4: "same_core s s4" using call_ctrl_core [OF f3] c3 same_core_trans by blast
  define v where "v = (if tr = EOK then SVC_SERVICE_STATUS_STOPPING else SVC_SERVICE_STATUS_STARTED)"
  define s5 where "s5 = upd_svc s4 h (\<lambda>p. p\<lparr>sv_status := v\<rparr>)"
  note op' = op [unfolded svc_service_stop_def Let_def, folded h_def, folded s0_def, unfolded e1 prod.case,
      folded w_def, unfolded f1 prod.case, folded s2_def, folded l2_def, unfolded f2 prod.case,
      folded s3_def, unfolded f3 prod.case, folded v_def, folded s5_def]
  consider (same) "same_core s s'"
    | (local) "\<not> sv_run (svc_at s2 h)" "same_core l2 s'"
    | (thread) "st > SVC_SERVICE_STATUS_STOPPED" "same_core s5 s'"
    using op' c0 c1 cw cl by (auto simp: err_codes split: if_splits)
  then show ?thesis
  proof cases
    case same
    then show ?thesis by (simp add: stop_outcome_def)
  next
    case local
    then show ?thesis
      using set_status_after [OF c2 h] same_core_at(1) [OF c2 h] by (simp add: stop_outcome_def l2_def h_def)
  next
    case thread
    have "snd (statuses s ! h) > SVC_SERVICE_STATUS_STOPPED"
      using service_status_active [OF e1 thread(1)] same_core_at(2) [OF c0 h] by simp
    moreover have "set_core s h v (sx_thr s) s'" using set_status_after [OF c4 h] thread(2) by (simp add: s5_def)
    moreover have "v > SVC_SERVICE_STATUS_STOPPED" by (simp add: v_def err_codes)
    ultimately show ?thesis by (auto simp: stop_outcome_def h_def)
  qed
qed

lemma svc_service_ctrl_core: "svc_service_ctrl env s handle cmd parm = (r, s') \<Longrightarrow> same_core s s'"
  by (auto simp: svc_service_ctrl_def Let_def split: if_splits prod.splits
      dest!: call_ctrl_core service_status_core intro: same_core_trans)

lemma fold_upd_core:
  assumes "\<And>i s. same_core s (f i s)"
  shows "same_core s (fold f is s)"
proof (induction "is" arbitrary: s)
  case (Cons i "is")
  then show ?case using assms same_core_trans by (metis fold_simps(2))
qed simp

lemma svc_service_system_halt_core: "same_core s (svc_service_system_halt env s)"
proof -
  have "same_core s (snd (call_ctrl env s i cmd p))" for s i cmd p
    using call_ctrl_core [of env s i cmd p] by (metis prod.collapse)
  then show ?thesis by (simp add: svc_service_system_halt_def fold_upd_core)
qed

section \<open>Invariant\<close>

text \<open>
  The registry below is in a reachable state (so what it asks of its callers is respected), a service with a
  thread is active exactly while its status is above STOPPED, and only threads of such services are registered.
\<close>

definition services_inv :: "services \<Rightarrow> bool" where
  "services_inv s \<longleftrightarrow> threads_reach (sx_thr s) \<and> unat (sx_cnt s) \<le> length (statuses s) \<and>
     (\<forall>h < length (statuses s). fst (statuses s ! h) \<longrightarrow>
        (svc_threads_is_active (sx_thr s) (thd_of h) \<longleftrightarrow> snd (statuses s ! h) > SVC_SERVICE_STATUS_STOPPED)) \<and>
     (\<forall>a. svc_threads_is_active (sx_thr s) a \<longrightarrow> (\<exists>h < length (statuses s). a = thd_of h \<and> fst (statuses s ! h) \<and>
        thd_complete (th_obj (sx_thr s) a) = SERVICE_THREAD_COMPLETE \<and> thd_arg (th_obj (sx_thr s) a) = h))"

lemma thd_of_eq [simp]: "thd_of i = thd_of j \<longleftrightarrow> i = j" "thd_of i \<noteq> NULL" "NULL \<noteq> thd_of i"
  by (simp_all add: thd_of_def)

lemma services_inv_core: "same_core s s' \<Longrightarrow> services_inv s \<Longrightarrow> services_inv s'"
  by (simp add: services_inv_def same_core_def)

text \<open>One service changes its status, its thread and that thread's registration.\<close>

lemma services_inv_set:
  assumes "services_inv s" "h < length (statuses s)" "set_core s h v thr s'" "threads_reach thr"
    "\<And>a. a \<noteq> thd_of h \<Longrightarrow> th_obj thr a = th_obj (sx_thr s) a"
    "fst (statuses s ! h) \<Longrightarrow> svc_threads_is_active thr (thd_of h) \<longleftrightarrow> v > SVC_SERVICE_STATUS_STOPPED"
    "svc_threads_is_active thr (thd_of h) \<Longrightarrow> fst (statuses s ! h) \<and>
       thd_complete (th_obj thr (thd_of h)) = SERVICE_THREAD_COMPLETE \<and> thd_arg (th_obj thr (thd_of h)) = h"
  shows "services_inv s'"
proof -
  have st: "statuses s' = (statuses s)[h := (fst (statuses s ! h), v)]" "sx_thr s' = thr" "sx_cnt s' = sx_cnt s"
    using assms(3) by (simp_all add: set_core_def)
  have act: "svc_threads_is_active thr a \<longleftrightarrow> svc_threads_is_active (sx_thr s) a" if "a \<noteq> thd_of h" for a
    using assms(5) [OF that] by (simp add: svc_threads_is_active_def)
  have f: "fst (statuses s' ! i) = fst (statuses s ! i)" for i
    by (cases "i = h") (use assms(2) in \<open>simp_all add: st nth_list_update\<close>)
  have own: "\<exists>i < length (statuses s'). a = thd_of i \<and> fst (statuses s' ! i) \<and>
      thd_complete (th_obj thr a) = SERVICE_THREAD_COMPLETE \<and> thd_arg (th_obj thr a) = i"
    if "svc_threads_is_active thr a" for a
  proof (cases "a = thd_of h")
    case True
    then show ?thesis using assms(2,7) that f st by auto
  next
    case False
    then show ?thesis using assms(1,5) act that f st by (auto simp: services_inv_def)
  qed
  moreover have "fst (statuses s' ! i) \<longrightarrow>
      (svc_threads_is_active thr (thd_of i) \<longleftrightarrow> snd (statuses s' ! i) > SVC_SERVICE_STATUS_STOPPED)"
    if "i < length (statuses s')" for i
  proof (cases "i = h")
    case True
    then show ?thesis using assms(2,6) st by simp
  next
    case False
    then show ?thesis using assms(1) act that st by (simp add: services_inv_def)
  qed
  ultimately show ?thesis using assms(1,4) st unfolding services_inv_def by simp
qed

lemma statuses_bound: "services_inv s \<Longrightarrow> handle < sx_cnt s \<Longrightarrow> unat handle < length (statuses s)"
  using unat_mono [of handle "sx_cnt s"] by (simp add: services_inv_def)

lemma start_outcome_inv:
  assumes inv: "services_inv s" and h: "h < length (statuses s)" and out: "start_outcome s h s'"
  shows "services_inv s'"
proof -
  have tr: "threads_reach (sx_thr s)" using inv by (simp add: services_inv_def)
  note own = inv [unfolded services_inv_def, THEN conjunct2, THEN conjunct2, THEN conjunct2, rule_format, of "thd_of h"]
  consider (same) "same_core s s'"
    | (local) "\<not> fst (statuses s ! h)" "set_core s h SVC_SERVICE_STATUS_STARTED (sx_thr s) s'"
    | (thread) os where "fst (statuses s ! h)" "\<not> svc_threads_is_active (sx_thr s) (thd_of h)"
      "set_core s h (if fst os = EOK then SVC_SERVICE_STATUS_STARTING else SVC_SERVICE_STATUS_STOPPED)
         (snd (svc_threads_create os (sx_thr s) (thd_of h) SERVICE_THREAD_COMPLETE SERVICE_THREAD h)) s'"
    using out unfolding start_outcome_def by blast
  then show ?thesis
  proof cases
    case same
    then show ?thesis using inv services_inv_core by blast
  next
    case local
    then show ?thesis by (rule_tac services_inv_set [OF inv h local(2) tr]) (use own in auto)
  next
    case thread
    have "threads_reach (snd (svc_threads_create os (sx_thr s) (thd_of h) SERVICE_THREAD_COMPLETE SERVICE_THREAD h))"
      by (rule threads_reach.create [OF tr thread(2)]) (simp_all add: SERVICE_THREAD_def)
    then show ?thesis
      by (rule services_inv_set [OF inv h thread(3)])
        (auto simp: svc_threads_create_def svc_threads_is_active_def Let_def SERVICE_THREAD_def err_codes thread(1))
  qed
qed

lemma do_service_start_inv:
  "services_inv s \<Longrightarrow> h < length (statuses s) \<Longrightarrow> services_inv (snd (do_service_start env s h cb q))"
  using start_outcome_inv do_service_start_outcome prod.collapse by metis

lemma service_status_inv: "services_inv s \<Longrightarrow> services_inv (snd (service_status env s h))"
  using service_status_core services_inv_core prod.collapse by metis

lemma svc_service_start_inv:
  assumes inv: "services_inv s"
  shows "services_inv (snd (svc_service_start env s handle cb q))"
proof -
  obtain st s1 where e: "service_status env s (unat handle) = (st, s1)" by force
  have c: "same_core s s1" using service_status_core [OF e] by blast
  have inv1: "services_inv s1" using inv services_inv_core c by blast
  show ?thesis
  proof (cases "handle < sx_cnt s")
    case True
    then have "unat handle < length (statuses s1)" using statuses_bound [OF inv] c by (simp add: same_core_def)
    then show ?thesis using inv inv1 do_service_start_inv by (simp add: svc_service_start_def Let_def e)
  next
    case False
    then show ?thesis using inv by (simp add: svc_service_start_def not_less)
  qed
qed

lemma services_inv_fold:
  assumes "\<And>i s. services_inv s \<Longrightarrow> i < n \<Longrightarrow> n \<le> length (statuses s) \<Longrightarrow>
      services_inv (f i s) \<and> length (statuses (f i s)) = length (statuses s)"
    "services_inv s" "\<forall>i \<in> set is. i < n" "n \<le> length (statuses s)"
  shows "services_inv (fold f is s)"
  using assms(2-4)
proof (induction "is" arbitrary: s)
  case (Cons i "is")
  then show ?case using assms(1) [of s i] by simp
qed simp

lemma start_outcome_length: "start_outcome s h s' \<Longrightarrow> length (statuses s') = length (statuses s)"
  by (auto simp: start_outcome_def same_core_def set_core_def)

lemma svc_service_services_start_inv:
  assumes inv: "services_inv s"
  shows "services_inv (snd (svc_service_services_start env s flags))"
proof (cases "sx_list s")
  case (Some l)
  have "services_inv (fold (\<lambda>i s. if sv_flags (svc_at s i) AND flags \<noteq> 0
      then snd (do_service_start env s i NULL 0) else s) [0..<unat (sx_cnt s)] s)"
  proof (rule services_inv_fold [where n = "unat (sx_cnt s)"])
    fix i t assume "services_inv t" "i < unat (sx_cnt s)" "unat (sx_cnt s) \<le> length (statuses t)"
    then have "i < length (statuses t)" by simp
    moreover obtain r t' where e: "do_service_start env t i NULL 0 = (r, t')" by force
    moreover have "start_outcome t i t'" using do_service_start_outcome e calculation(1) by blast
    ultimately show "services_inv (if sv_flags (svc_at t i) AND flags \<noteq> 0 then snd (do_service_start env t i NULL 0) else t) \<and>
        length (statuses (if sv_flags (svc_at t i) AND flags \<noteq> 0 then snd (do_service_start env t i NULL 0) else t)) =
        length (statuses t)"
      using start_outcome_inv start_outcome_length \<open>services_inv t\<close> by simp
  qed (use inv in \<open>auto simp: services_inv_def\<close>)
  then show ?thesis using Some by (simp add: svc_service_services_start_def)
qed (use inv in \<open>simp add: svc_service_services_start_def\<close>)

lemma svc_service_stop_inv:
  assumes inv: "services_inv s"
  shows "services_inv (snd (svc_service_stop env s handle cb q))"
proof (cases "handle < sx_cnt s")
  case True
  define h where "h = unat handle"
  note h = statuses_bound [OF inv True, folded h_def]
  obtain r s' where e: "svc_service_stop env s handle cb q = (r, s')" by force
  have tr: "threads_reach (sx_thr s)" using inv by (simp add: services_inv_def)
  note own = inv [unfolded services_inv_def, THEN conjunct2, THEN conjunct2, THEN conjunct2, rule_format, of "thd_of h"]
  note run = inv [unfolded services_inv_def, THEN conjunct2, THEN conjunct2, THEN conjunct1, rule_format, OF h]
  from svc_service_stop_outcome [OF h [unfolded h_def] e] consider
    (same) "same_core s s'"
  | (set) v where "set_core s h v (sx_thr s) s'" "fst (statuses s ! h) \<Longrightarrow>
      svc_threads_is_active (sx_thr s) (thd_of h) \<longleftrightarrow> v > SVC_SERVICE_STATUS_STOPPED"
    unfolding stop_outcome_def h_def [symmetric] using run by (metis less_irrefl)
  then show ?thesis
  proof cases
    case same
    then show ?thesis using e inv services_inv_core by simp
  next
    case set
    then have "services_inv s'" by (rule_tac services_inv_set [OF inv h set(1) tr]) (use own in auto)
    then show ?thesis using e by simp
  qed
qed (use inv in \<open>simp add: svc_service_stop_def not_less\<close>)

lemma service_thread_begin_core:
  assumes "h < length (statuses s)"
  shows "set_core s h SVC_SERVICE_STATUS_STARTED (sx_thr s) (service_thread_begin s h)"
  by (rule set_status_after [OF same_core_refl assms]) (simp add: service_thread_begin_def Let_def)

lemma service_thread_begin_inv:
  assumes inv: "services_inv s" and h: "h < length (statuses s)" "svc_threads_is_active (sx_thr s) (thd_of h)"
  shows "services_inv (service_thread_begin s h)"
proof (rule services_inv_set [OF inv h(1) service_thread_begin_core [OF h(1)]])
  show "svc_threads_is_active (sx_thr s) (thd_of h) \<longleftrightarrow> SVC_SERVICE_STATUS_STARTED > SVC_SERVICE_STATUS_STOPPED"
    using h by (simp add: err_codes)
qed (use inv in \<open>auto simp: services_inv_def\<close>)

lemma service_thread_exit_inv:
  assumes "services_inv s"
  shows "services_inv (service_thread_exit s h status cur)"
proof -
  let ?s = "upd_svc s h (\<lambda>p. p\<lparr>sv_exit_status := status\<rparr>)"
  have inv: "services_inv ?s" using assms services_inv_core [of s ?s] by simp
  have "th_obj (svc_threads_terminate cur (sx_thr ?s)) = th_obj (sx_thr ?s)"
    by (simp add: svc_threads_terminate_def split: option.split)
  then show ?thesis
    using inv threads_reach.terminates
    by (simp add: service_thread_exit_def Let_def services_inv_def svc_threads_is_active_def)
qed

lemma service_thread_complete_core:
  assumes "h < length (statuses s)"
  shows "set_core s h SVC_SERVICE_STATUS_STOPPED thr (service_thread_complete (s\<lparr>sx_thr := thr\<rparr>) h)"
  by (rule set_core_after [OF same_core_refl assms, where f = "\<lambda>p. p\<lparr>sv_status := SVC_SERVICE_STATUS_STOPPED\<rparr>"])
    (simp_all add: service_thread_complete_def Let_def)

lemma service_cleanup_inv:
  assumes inv: "services_inv s"
  shows "services_inv (service_cleanup s)"
proof -
  have tr: "threads_reach (sx_thr s)" using inv by (simp add: services_inv_def)
  note ti = threads_reach_inv [OF tr]
  show ?thesis
  proof (cases "th_complete (sx_thr s)")
    case Nil
    then show ?thesis using inv complete_check_cases [OF ti] by (simp add: service_cleanup_def)
  next
    case (Cons a as)
    then have "svc_threads_is_active (sx_thr s) a" using ti by (simp add: threads_inv_def)
    then obtain h where h: "h < length (statuses s)" "a = thd_of h" "fst (statuses s ! h)"
        "thd_complete (th_obj (sx_thr s) a) = SERVICE_THREAD_COMPLETE" "thd_arg (th_obj (sx_thr s) a) = h"
      using inv unfolding services_inv_def by blast
    obtain thr where c: "svc_threads_complete_check (sx_thr s) = (EOK, [(SERVICE_THREAD_COMPLETE, a, h)], thr)"
        "th_obj thr = (th_obj (sx_thr s))(a := (th_obj (sx_thr s) a)\<lparr>thd_pf := NULL\<rparr>)"
      using complete_check_cases [OF ti] Cons h(4,5) by (simp add: SERVICE_THREAD_COMPLETE_def)
    have out: "set_core s h SVC_SERVICE_STATUS_STOPPED thr (service_cleanup s)"
      using service_thread_complete_core [OF h(1)] by (simp add: service_cleanup_def c(1))
    have "threads_reach thr" using threads_reach.check [OF tr] c(1) by simp
    then show ?thesis
      by (rule services_inv_set [OF inv h(1) out]) (auto simp: c(2) h(2) svc_threads_is_active_def err_codes)
  qed
qed

text \<open>Before a service has been started: the list as given, with services possibly disabled.\<close>

definition quiet :: "nat \<Rightarrow> services \<Rightarrow> bool" where
  "quiet n s \<longleftrightarrow> threads_reach (sx_thr s) \<and> (\<forall>a. \<not> svc_threads_is_active (sx_thr s) a) \<and>
     length (statuses s) = n \<and> (\<forall>x \<in> set (statuses s). snd x \<le> SVC_SERVICE_STATUS_STOPPED)"

lemma quiet_inv: "quiet n s \<Longrightarrow> unat (sx_cnt s) \<le> n \<Longrightarrow> services_inv s"
  by (auto simp: quiet_def services_inv_def not_less)

lemma quiet_core: "same_core s s' \<Longrightarrow> quiet n s \<Longrightarrow> quiet n s'"
  by (simp add: quiet_def same_core_def)

lemma quiet_disable:
  assumes q: "quiet n s" and i: "i < n"
  shows "quiet n (upd_svc s i (\<lambda>p. p\<lparr>sv_status := SVC_SERVICE_STATUS_DISABLED\<rparr>)) \<and>
    sx_cnt (upd_svc s i (\<lambda>p. p\<lparr>sv_status := SVC_SERVICE_STATUS_DISABLED\<rparr>)) = sx_cnt s"
proof -
  have i: "i < length (statuses s)" using i q by (simp add: quiet_def)
  have "set_core s i SVC_SERVICE_STATUS_DISABLED (sx_thr s)
      (upd_svc s i (\<lambda>p. p\<lparr>sv_status := SVC_SERVICE_STATUS_DISABLED\<rparr>))"
    using set_core_upd [OF i, of "\<lambda>p. p\<lparr>sv_status := SVC_SERVICE_STATUS_DISABLED\<rparr>"] by simp
  then show ?thesis using q by (auto simp: set_core_def quiet_def err_codes dest!: set_update_subset_insert [THEN subsetD])
qed

lemma init_loop_quiet:
  "quiet n s \<Longrightarrow> \<forall>i \<in> set is. i < n \<Longrightarrow> unat (sx_cnt s) + length is < 4294967296 \<Longrightarrow>
   quiet n (init_loop env s is) \<and> unat (sx_cnt (init_loop env s is)) \<le> unat (sx_cnt s) + length is"
proof (induction env s "is" rule: init_loop.induct)
  case (2 env s i "is")
  let ?s = "s\<lparr>sx_cnt := sx_cnt s + 1\<rparr>"
  have cnt: "unat (sx_cnt ?s) = unat (sx_cnt s) + 1"
    using 2(5) unat_u32_add [of "sx_cnt s" 1] by simp
  have q: "quiet n ?s" using 2(3) by (simp add: quiet_def statuses_def)
  obtain r s1 where e: "call_ctrl env ?s i SVC_SERVICE_CTRL_INIT i = (r, s1)" by force
  have c1: "same_core ?s s1" using call_ctrl_core [OF e] by blast
  define s2 where "s2 = (if r \<noteq> EOK then upd_svc s1 i (\<lambda>p. p\<lparr>sv_status := SVC_SERVICE_STATUS_DISABLED\<rparr>) else s1)"
  have q2: "quiet n s2" "sx_cnt s2 = sx_cnt ?s"
    using quiet_disable quiet_core [OF c1 q] c1 2(4) by (auto simp: s2_def same_core_def)
  consider (stop) "sv_service (svc_at s i) = SVC_SERVICES_INVALID"
    | (ctrl) "sv_service (svc_at s i) \<noteq> SVC_SERVICES_INVALID" "sv_ctrl (svc_at ?s i)"
    | (none) "sv_service (svc_at s i) \<noteq> SVC_SERVICES_INVALID" "\<not> sv_ctrl (svc_at ?s i)" by blast
  then show ?case
  proof cases
    case stop
    then show ?thesis using 2(3) by simp
  next
    case ctrl
    then have "init_loop env s (i # is) = init_loop env s2 is" by (simp add: Let_def e s2_def)
    moreover have "quiet n (init_loop env s2 is) \<and> unat (sx_cnt (init_loop env s2 is)) \<le> unat (sx_cnt s2) + length is"
      by (rule 2(1) [OF ctrl(1) refl ctrl(2) e [symmetric] refl s2_def q2(1)]) (use 2(4,5) cnt q2 in simp_all)
    ultimately show ?thesis using cnt q2 by simp
  next
    case none
    then have "init_loop env s (i # is) = init_loop env ?s is" by (simp add: Let_def)
    moreover have "quiet n (init_loop env ?s is) \<and> unat (sx_cnt (init_loop env ?s is)) \<le> unat (sx_cnt ?s) + length is"
      by (rule 2(2) [OF none(1) refl none(2) q]) (use 2(4,5) cnt in simp_all)
    ultimately show ?thesis using cnt by simp
  qed
qed simp

lemma services_init_inv:
  assumes "threads_reach (sx_thr s)" "\<forall>a. \<not> svc_threads_is_active (sx_thr s) a" "length l < 4294967296"
    "\<forall>p \<in> set l. sv_status p \<le> SVC_SERVICE_STATUS_STOPPED"
  shows "services_inv (snd (svc_service_services_init env s l))"
proof -
  let ?s = "s\<lparr>sx_handlers := [], sx_list := Some l, sx_cnt := 0\<rparr>"
  have "quiet (length l) ?s" using assms by (auto simp: quiet_def statuses_def)
  then have "quiet (length l) (init_loop env ?s [0..<length l]) \<and> unat (sx_cnt (init_loop env ?s [0..<length l])) \<le> length l"
    using init_loop_quiet [of "length l" ?s "[0..<length l]" env] assms(3) by simp
  then show ?thesis using quiet_inv [of "length l"] by (simp add: svc_service_services_init_def)
qed

section \<open>Reachable states\<close>

text \<open>
  The calls of the interface and the steps of the threads: the thread of a service begins (\<open>begin\<close>), its run
  function returns (\<open>exits\<close>), the idle thread cleans up; \<open>clear\<close> is what the blocking variants do after
  waiting, so that their calls are a start or a stop, other steps, and a \<open>clear\<close>.
\<close>

inductive services_reach :: "senv \<Rightarrow> services \<Rightarrow> bool" for env where
  init: "th_count (sx_thr s) = 0 \<Longrightarrow> (\<forall>a. thd_pf (th_obj (sx_thr s) a) = NULL) \<Longrightarrow> length l < 4294967296 \<Longrightarrow>
    (\<forall>p \<in> set l. sv_status p \<le> SVC_SERVICE_STATUS_STOPPED) \<Longrightarrow>
    services_reach env (snd (svc_service_services_init env (s\<lparr>sx_thr := snd (svc_threads_init (sx_thr s))\<rparr>) l))"
| services: "services_reach env s \<Longrightarrow> services_reach env (snd (svc_service_services_start env s flags))"
| start: "services_reach env s \<Longrightarrow> services_reach env (snd (svc_service_start env s handle cb q))"
| stop: "services_reach env s \<Longrightarrow> services_reach env (snd (svc_service_stop env s handle cb q))"
| ctrl: "services_reach env s \<Longrightarrow> services_reach env (snd (svc_service_ctrl env s handle cmd q))"
| halt: "services_reach env s \<Longrightarrow> services_reach env (svc_service_system_halt env s)"
| status: "services_reach env s \<Longrightarrow> services_reach env (snd (svc_service_status env s handle))"
| set_arg: "services_reach env s \<Longrightarrow> services_reach env (snd (svc_service_set_arg s handle arg))"
| handler: "services_reach env s \<Longrightarrow> services_reach env (svc_service_register_handler s a fp q)"
| unhandler: "services_reach env s \<Longrightarrow> services_reach env (svc_service_unregister_handler s a)"
| begins: "services_reach env s \<Longrightarrow> thd_of h \<in> set (th_list (sx_thr s)) \<Longrightarrow>
    services_reach env (service_thread_begin s h)"
| exits: "services_reach env s \<Longrightarrow> services_reach env (service_thread_exit s h st current)"
| cleanup: "services_reach env s \<Longrightarrow> services_reach env (service_cleanup s)"
| clear: "services_reach env s \<Longrightarrow>
    services_reach env (upd_svc s h (\<lambda>p. p\<lparr>sv_cb := NULL, sv_cb_parm := 0\<rparr>))"

lemma services_reach_inv: "services_reach env s \<Longrightarrow> services_inv s"
proof (induction rule: services_reach.induct)
  case (init s l)
  have "threads_reach (snd (svc_threads_init (sx_thr s)))" by (rule threads_reach.init [OF init(1,2)])
  then show ?case using init by (intro services_init_inv) (auto simp: svc_threads_init_def svc_threads_is_active_def)
next
  case (ctrl s handle cmd q)
  then show ?case using svc_service_ctrl_core services_inv_core prod.collapse by metis
next
  case (status s handle)
  then show ?case using service_status_inv by (simp add: svc_service_status_def)
next
  case (set_arg s handle arg)
  have "same_core s (snd (svc_service_set_arg s handle arg))" by (simp add: svc_service_set_arg_def)
  then show ?case using set_arg services_inv_core by blast
next
  case (handler s a fp q)
  then show ?case by (simp add: services_inv_def svc_service_register_handler_def statuses_def)
next
  case (unhandler s a)
  then show ?case by (simp add: services_inv_def svc_service_unregister_handler_def statuses_def)
next
  case (begins s h)
  have "svc_threads_is_active (sx_thr s) (thd_of h)"
    using begins threads_reach_inv by (auto simp: services_inv_def threads_inv_def)
  moreover from this have "h < length (statuses s)" using begins by (auto simp: services_inv_def)
  ultimately show ?case using service_thread_begin_inv begins by blast
next
  case (clear s h)
  have "same_core s (upd_svc s h (\<lambda>p. p\<lparr>sv_cb := NULL, sv_cb_parm := 0\<rparr>))" by simp
  then show ?case using clear services_inv_core by blast
qed (auto intro: svc_service_services_start_inv svc_service_start_inv svc_service_stop_inv
    service_thread_exit_inv service_cleanup_inv services_inv_core [OF svc_service_system_halt_core])

section \<open>Properties\<close>


definition demo_service :: "bool \<Rightarrow> int \<Rightarrow> SVC_SERVICE_T" where
  "demo_service run svc = \<lparr>sv_cb = 0, sv_cb_parm = 0, sv_run = run, sv_ctrl = True, sv_parm = 9, sv_status = 0,
     sv_exit_status = 0, sv_service = svc, sv_flags = 1, sv_name = [65]\<rparr>"

definition demo_env :: "int \<Rightarrow> senv" where
  "demo_env r = \<lparr>e_ctrl = (\<lambda>tr h cmd p. if cmd = SVC_SERVICE_CTRL_START then r
       else if cmd = SVC_SERVICE_CTRL_STATUS then EFAIL else EOK),
     e_thread = (\<lambda>tr. (EOK, 77)), e_ticks = (\<lambda>tr. 0)\<rparr>"

definition demo_fresh :: services where
  "demo_fresh = \<lparr>sx_list = None, sx_cnt = 0, sx_handlers = [], sx_hobj = (\<lambda>_. (0, 0)),
     sx_thr = \<lparr>th_list = [], th_complete = [], th_count = 0, th_sem = 0,
       th_obj = (\<lambda>_. \<lparr>thd_thread = 0, thd_pf = 0, thd_arg = 0, thd_complete = 0\<rparr>)\<rparr>, sx_trace = []\<rparr>"

definition demo_init :: "int \<Rightarrow> services" where
  "demo_init r = snd (svc_service_services_init (demo_env r)
     (demo_fresh\<lparr>sx_thr := snd (svc_threads_init (sx_thr demo_fresh))\<rparr>) [demo_service True 5, demo_service False 6, demo_service True 0])"

lemma demo_init_reach: "services_reach (demo_env r) (demo_init r)"
  unfolding demo_init_def
  by (rule services_reach.init) (simp_all add: demo_fresh_def demo_service_def err_codes)

lemma demo_init_eq: "demo_init r = demo_fresh\<lparr>sx_list := Some [demo_service True 5, demo_service False 6, demo_service True 0],
    sx_cnt := 2, sx_trace := [Ctrl 0 SVC_SERVICE_CTRL_INIT 0, Ctrl 1 SVC_SERVICE_CTRL_INIT 1]\<rparr>"
  by (simp add: demo_init_def svc_service_services_init_def svc_threads_init_def demo_fresh_def demo_service_def
      upt_rec [of _ "3 :: nat"] upt_rec [of _ "Suc _"] Let_def svc_at_def SVC_SERVICES_INVALID_def call_ctrl_def log_ev_def demo_env_def err_codes)

definition demo_started :: services where
  "demo_started = snd (svc_service_start (demo_env EOK) (demo_init EOK) 0 50 60)"

lemmas demo_services = demo_init_eq demo_fresh_def demo_service_def demo_env_def svc_at_def upd_svc_def Let_def
  call_ctrl_def log_ev_def service_status_def service_changed_def call_cb_def restart_cb_def err_codes
  svc_threads_create_def svc_threads_is_active_def list_ops thd_of_def SERVICE_THREAD_def SERVICE_THREAD_COMPLETE_def
  RESTART_CB_def

lemma demo_started_eq: "demo_started = demo_fresh\<lparr>
    sx_list := Some [(demo_service True 5)\<lparr>sv_cb := 50, sv_cb_parm := 60, sv_status := 2\<rparr>, demo_service False 6, demo_service True 0],
    sx_cnt := 2,
    sx_thr := \<lparr>th_list = [1], th_complete = [], th_count = 1, th_sem = 0,
      th_obj = (th_obj (sx_thr demo_fresh))(1 := \<lparr>thd_thread = 77, thd_pf = 1, thd_arg = 0, thd_complete = 2\<rparr>)\<rparr>,
    sx_trace := [Ctrl 0 SVC_SERVICE_CTRL_INIT 0, Ctrl 1 SVC_SERVICE_CTRL_INIT 1, Ctrl 0 SVC_SERVICE_CTRL_START 9]\<rparr>"
  by (simp add: demo_started_def svc_service_start_def do_service_start_def demo_services)

lemma demo_started_reach: "services_reach (demo_env EOK) demo_started"
  unfolding demo_started_def by (rule services_reach.start [OF demo_init_reach])


lemma find_unique: "x \<in> set xs \<Longrightarrow> (\<And>a. a \<in> set xs \<Longrightarrow> P a \<longleftrightarrow> a = x) \<Longrightarrow> List.find P xs = Some x"
  by (induction xs) auto

text \<open>What the call of a completion callback adds to the trace.\<close>

definition cb_events :: "addr \<Rightarrow> int \<Rightarrow> nat \<Rightarrow> sv_event list" where
  "cb_events cb i q = (if cb = NULL then [] else if cb = RESTART_CB then [Sem_signal q] else [Complete cb i q])"

definition changed_events :: "services \<Rightarrow> int \<Rightarrow> nat \<Rightarrow> sv_event list" where
  "changed_events s st h = map (\<lambda>a. Changed (fst (sx_hobj s a)) (sv_service (svc_at s h)) st (snd (sx_hobj s a)))
     (sx_handlers s)"

lemma service_changed_trace: "sx_trace (service_changed s st h) = sx_trace s @ changed_events s st h"
proof -
  have "sx_trace (fold (\<lambda>a s. log_ev s (Changed (fst (sx_hobj s a)) (sv_service (svc_at s h)) st (snd (sx_hobj s a)))) as s) =
      sx_trace s @ map (\<lambda>a. Changed (fst (sx_hobj s a)) (sv_service (svc_at s h)) st (snd (sx_hobj s a))) as" for "as"
    by (induction "as" arbitrary: s) (simp_all add: log_ev_def svc_at_def)
  then show ?thesis by (simp add: service_changed_def changed_events_def)
qed

lemma service_changed_fields [simp]: "sx_thr (service_changed s st h) = sx_thr s"
  using service_changed_core [of "s" s st h] by (simp add: same_core_def)

lemma call_cb_fields [simp]: "sx_thr (call_cb s cb i p) = sx_thr s" "sx_hobj (call_cb s cb i p) = sx_hobj s"
    "sx_handlers (call_cb s cb i p) = sx_handlers s" "sx_list (call_cb s cb i p) = sx_list s"
  by (simp_all add: call_cb_def restart_cb_def log_ev_def)

lemma call_cb_trace: "sx_trace (call_cb s cb i q) = sx_trace s @ cb_events cb i q"
  by (simp add: call_cb_def restart_cb_def log_ev_def cb_events_def)

lemma upd_svc_fields [simp]: "sx_thr (upd_svc s h f) = sx_thr s" "sx_hobj (upd_svc s h f) = sx_hobj s"
    "sx_handlers (upd_svc s h f) = sx_handlers s" "sx_trace (upd_svc s h f) = sx_trace s"
  by (simp_all add: upd_svc_def)

lemma svc_at_upd: "sx_list s = Some l \<Longrightarrow> h < length l \<Longrightarrow> svc_at (upd_svc s h f) h = f (svc_at s h)"
  by (simp add: svc_at_def upd_svc_def)

lemma svc_at_thr [simp]: "svc_at (s\<lparr>sx_thr := t\<rparr>) h = svc_at s h" "sx_list (s\<lparr>sx_thr := t\<rparr>) = sx_list s"
  by (simp_all add: svc_at_def)

text \<open>C14: the run function of a service returns: its thread ends, and one round of the idle thread later the
  service is STOPPED with that exit status, its thread is not active, so that it can be started again, its stop
  callback has been called with its service id, and every registered handler has been told.\<close>

theorem service_run_completes:
  assumes reach: "services_reach env s" and h: "thd_of h \<in> set (th_list (sx_thr s))"
    and cur: "\<And>a. a \<in> set (th_list (sx_thr s)) \<Longrightarrow> thd_thread (th_obj (sx_thr s) a) = current \<longleftrightarrow> a = thd_of h"
    and s': "s' = service_cleanup (service_thread_exit s h st current)"
  shows "sv_status (svc_at s' h) = SVC_SERVICE_STATUS_STOPPED \<and> sv_exit_status (svc_at s' h) = st \<and>
    \<not> svc_threads_is_active (sx_thr s') (thd_of h) \<and>
    sx_trace s' = sx_trace s @ cb_events (sv_cb (svc_at s h)) (sv_service (svc_at s h)) (sv_cb_parm (svc_at s h)) @
      changed_events s SVC_SERVICE_STATUS_STOPPED h"
proof -
  note inv = services_reach_inv [OF reach]
  define t where "t = service_thread_exit s h st current"
  have ti: "threads_inv (sx_thr t)"
    using service_thread_exit_inv [OF inv] threads_reach_inv by (simp add: services_inv_def t_def)
  have "svc_threads_is_active (sx_thr s) (thd_of h)"
    using h inv threads_reach_inv by (auto simp: services_inv_def threads_inv_def)
  then have own: "h < length (statuses s)" "thd_complete (th_obj (sx_thr s) (thd_of h)) = SERVICE_THREAD_COMPLETE"
      "thd_arg (th_obj (sx_thr s) (thd_of h)) = h"
    using inv by (auto simp: services_inv_def)
  then obtain l where l: "sx_list s = Some l" "h < length l"
    by (cases "sx_list s") (auto simp: statuses_def)
  have thr: "sx_thr t = svc_threads_terminate current (sx_thr s)"
    by (simp add: t_def service_thread_exit_def upd_svc_def)
  have "List.find (\<lambda>a. thd_thread (th_obj (sx_thr s) a) = current) (th_list (sx_thr s)) = Some (thd_of h)"
    by (rule find_unique [OF h cur])
  then have ended: "th_complete (sx_thr t) = thd_of h # th_complete (sx_thr s)" "th_obj (sx_thr t) = th_obj (sx_thr s)"
    by (simp_all add: thr svc_threads_terminate_def list_ops)
  obtain thr' where c: "svc_threads_complete_check (sx_thr t) = (EOK, [(SERVICE_THREAD_COMPLETE, thd_of h, h)], thr')"
      "\<not> svc_threads_is_active thr' (thd_of h)"
    using complete_check_cases [OF ti] ended own
    by (simp add: SERVICE_THREAD_COMPLETE_def svc_threads_is_active_def)
  have s'_eq: "s' = service_thread_complete (t\<lparr>sx_thr := thr'\<rparr>) h"
    using c(1) by (simp add: s' t_def [symmetric] service_cleanup_def)
  have t: "sx_list t = Some (l[h := (l ! h)\<lparr>sv_exit_status := st\<rparr>])" "sx_trace t = sx_trace s"
      "sx_handlers t = sx_handlers s" "sx_hobj t = sx_hobj s" "svc_at t h = (svc_at s h)\<lparr>sv_exit_status := st\<rparr>"
    using l by (simp_all add: t_def service_thread_exit_def upd_svc_def svc_at_def)
  define u where "u = upd_svc (t\<lparr>sx_thr := thr'\<rparr>) h (\<lambda>p. p\<lparr>sv_status := SVC_SERVICE_STATUS_STOPPED\<rparr>)"
  have u: "svc_at u h = (svc_at t h)\<lparr>sv_status := SVC_SERVICE_STATUS_STOPPED\<rparr>"
    unfolding u_def using svc_at_upd [of "t\<lparr>sx_thr := thr'\<rparr>", OF _ _] t(1) l(2) by simp
  have "\<exists>lu. sx_list u = Some lu \<and> h < length lu" using l t(1) by (simp add: u_def upd_svc_def)
  then obtain lu where lu: "sx_list u = Some lu" "h < length lu" by blast
  define v where "v = call_cb u (sv_cb (svc_at u h)) (sv_service (svc_at u h)) (sv_cb_parm (svc_at u h))"
  have v: "svc_at v h = svc_at u h" "sx_list v = Some lu" by (simp_all add: v_def lu)
  define w where "w = upd_svc v h (\<lambda>p. p\<lparr>sv_cb := NULL, sv_cb_parm := 0\<rparr>)"
  have w: "svc_at w h = (svc_at v h)\<lparr>sv_cb := NULL, sv_cb_parm := 0\<rparr>"
    unfolding w_def by (rule svc_at_upd [OF v(2) lu(2)])
  have s'_w: "s' = service_changed w SVC_SERVICE_STATUS_STOPPED h"
    unfolding s'_eq service_thread_complete_def Let_def u_def [symmetric] v_def [symmetric] w_def [symmetric] ..
  have "sx_trace w = sx_trace s @ cb_events (sv_cb (svc_at s h)) (sv_service (svc_at s h)) (sv_cb_parm (svc_at s h))"
    using t u by (simp add: w_def v_def call_cb_trace) (simp add: u_def t)
  moreover have "changed_events w SVC_SERVICE_STATUS_STOPPED h = changed_events s SVC_SERVICE_STATUS_STOPPED h"
    using t w v u by (simp add: changed_events_def) (simp add: w_def v_def u_def t)
  moreover have "sx_thr w = thr'" by (simp add: w_def v_def u_def)
  ultimately show ?thesis using c(2) w v u t by (simp add: s'_w service_changed_trace)
qed

definition demo_begun :: services where
  "demo_begun = service_thread_begin (svc_service_register_handler demo_started 70 71 72) 0"

lemma demo_begun_reach: "services_reach (demo_env EOK) demo_begun"
  unfolding demo_begun_def
  by (rule services_reach.begins [OF services_reach.handler [OF demo_started_reach]])
    (simp add: svc_service_register_handler_def demo_started_eq thd_of_def)

lemma demo_begun_thr: "sx_thr demo_begun = sx_thr demo_started"
  by (simp add: demo_begun_def service_thread_begin_def svc_service_register_handler_def Let_def)

theorem service_run_completes_witness:
  "sv_status (svc_at (service_cleanup (service_thread_exit demo_begun 0 (-3) 77)) 0) = SVC_SERVICE_STATUS_STOPPED \<and>
   sv_exit_status (svc_at (service_cleanup (service_thread_exit demo_begun 0 (-3) 77)) 0) = -3"
proof -
  have "thd_of 0 \<in> set (th_list (sx_thr demo_begun))"
    and "\<And>a. a \<in> set (th_list (sx_thr demo_begun)) \<Longrightarrow> thd_thread (th_obj (sx_thr demo_begun) a) = 77 \<longleftrightarrow> a = thd_of 0"
    by (simp_all add: demo_begun_thr demo_started_eq thd_of_def)
  then show ?thesis using service_run_completes [OF demo_begun_reach _ _ refl, of 0 77 "-3"] by blast
qed

lemma upd_svc_list: "sx_list s = Some l \<Longrightarrow> sx_list (upd_svc s h f) = Some (l[h := f (l ! h)])"
  by (simp add: upd_svc_def)

text \<open>Starting a stopped service without a run function, whose control function accepts the start: it is STARTED
  on return, no thread is touched, and what happens, in this order, is the control call, the completion callback with
  the service id, and the notification of every handler.\<close>

theorem service_start_without_thread:
  assumes s: "sx_list s = Some l" "handle < sx_cnt s" "unat handle < length l" "p = l ! unat handle"
    and p: "\<not> sv_run p" "sv_ctrl p" "sv_status p = SVC_SERVICE_STATUS_STOPPED"
    and ctrl: "e_ctrl env (sx_trace s) (unat handle) SVC_SERVICE_CTRL_START (sv_parm p) = EOK"
    and r: "svc_service_start env s handle cb q = (r, s')"
  shows "r = EOK \<and> sv_status (svc_at s' (unat handle)) = SVC_SERVICE_STATUS_STARTED \<and>
    sx_thr s' = sx_thr s \<and>
    sx_trace s' = sx_trace s @ [Ctrl (unat handle) SVC_SERVICE_CTRL_START (sv_parm p)] @
      cb_events cb (sv_service p) q @ changed_events s SVC_SERVICE_STATUS_STARTED (unat handle)"
proof -
  define h where "h = unat handle"
  note s = s [folded h_def]
  define s0 where "s0 = upd_svc s h (\<lambda>p. p\<lparr>sv_cb := NULL\<rparr>)"
  have at: "svc_at s h = p" using s by (simp add: svc_at_def)
  have at0: "svc_at s0 h = p\<lparr>sv_cb := NULL\<rparr>" unfolding s0_def by (simp add: svc_at_upd [OF s(1,3)] at)
  have l0: "sx_list s0 = Some (l[h := p\<lparr>sv_cb := NULL\<rparr>])" using s by (simp add: s0_def upd_svc_list)
  have st: "service_status env s h = (SVC_SERVICE_STATUS_STOPPED, s)"
    "service_status env s0 h = (SVC_SERVICE_STATUS_STOPPED, s0)"
    using p at at0 by (simp_all add: service_status_def)
  define s2 where "s2 = upd_svc s0 h (\<lambda>p. p\<lparr>sv_exit_status := e_ticks env (sx_trace s0)\<rparr>)"
  define s3 where "s3 = log_ev s2 (Ctrl h SVC_SERVICE_CTRL_START (sv_parm p))"
  define s4 where "s4 = upd_svc s3 h (\<lambda>p. p\<lparr>sv_exit_status := EOK, sv_status := SVC_SERVICE_STATUS_STARTED\<rparr>)"
  have at2: "svc_at s2 h = p\<lparr>sv_cb := NULL, sv_exit_status := e_ticks env (sx_trace s0)\<rparr>"
    unfolding s2_def using svc_at_upd [OF l0, of h] s(3) at0 by simp
  have l2: "sx_list s2 = Some (l[h := p\<lparr>sv_cb := NULL, sv_exit_status := e_ticks env (sx_trace s0)\<rparr>])"
    unfolding s2_def using upd_svc_list [OF l0, of h] s(3) by simp
  have l3: "sx_list s3 = sx_list s2" by (simp add: s3_def log_ev_def)
  have at3: "svc_at s3 h = svc_at s2 h" by (simp add: s3_def)
  have tr2: "sx_trace s2 = sx_trace s" by (simp add: s2_def s0_def)
  have c: "call_ctrl env s2 h SVC_SERVICE_CTRL_START (sv_parm (svc_at s2 h)) = (EOK, s3)"
    using ctrl [folded h_def] tr2 by (simp add: call_ctrl_def at2 s3_def)
  have at4: "svc_at s4 h = (svc_at s3 h)\<lparr>sv_exit_status := EOK, sv_status := SVC_SERVICE_STATUS_STARTED\<rparr>"
    unfolding s4_def using svc_at_upd [OF l3 [unfolded l2], of h] s(3) by simp
  have ne: "SVC_SERVICE_STATUS_STOPPED \<noteq> SVC_SERVICE_STATUS_STARTED" by (simp add: err_codes)
  have "do_service_start env s h cb q =
      (EOK, service_changed (call_cb s4 cb (sv_service (svc_at s4 h)) q) SVC_SERVICE_STATUS_STARTED h)"
    using p c ne by (simp add: do_service_start_def s0_def [symmetric] s2_def [symmetric] st at0 at3 at2
      s4_def [symmetric] Let_def)
  moreover have "svc_service_start env s handle cb q = do_service_start env s h cb q"
    using s by (simp add: svc_service_start_def h_def [symmetric] st err_codes Let_def not_le [symmetric])
  ultimately have "r = EOK" "s' = service_changed (call_cb s4 cb (sv_service (svc_at s4 h)) q) SVC_SERVICE_STATUS_STARTED h"
    using r by simp_all
  moreover have "changed_events (call_cb s4 cb i q) SVC_SERVICE_STATUS_STARTED h = changed_events s SVC_SERVICE_STATUS_STARTED h" for i
    by (simp add: changed_events_def at at4 at3 at2) (simp add: s4_def s3_def s2_def s0_def log_ev_def)
  moreover have "sx_trace s4 = sx_trace s @ [Ctrl h SVC_SERVICE_CTRL_START (sv_parm p)]"
    by (simp add: s4_def s3_def s2_def s0_def log_ev_def)
  moreover have "sx_thr s4 = sx_thr s" by (simp add: s4_def s3_def s2_def s0_def log_ev_def)
  ultimately show ?thesis using at4 at3 at2
    by (simp add: service_changed_trace call_cb_trace h_def [symmetric])
qed

theorem service_start_without_thread_witness:
  "sx_trace (snd (svc_service_start (demo_env EOK) (demo_init EOK) 1 50 60)) =
     [Ctrl 0 SVC_SERVICE_CTRL_INIT 0, Ctrl 1 SVC_SERVICE_CTRL_INIT 1, Ctrl 1 SVC_SERVICE_CTRL_START 9, Complete 50 6 60]"
proof -
  let ?l = "[demo_service True 5, demo_service False 6, demo_service True 0]"
  obtain r s' where e: "svc_service_start (demo_env EOK) (demo_init EOK) 1 50 60 = (r, s')" by force
  have pre: "sx_list (demo_init EOK) = Some ?l" "(1 :: u32) < sx_cnt (demo_init EOK)" "unat (1 :: u32) < length ?l"
      "demo_service False 6 = ?l ! unat (1 :: u32)" "\<not> sv_run (demo_service False 6)" "sv_ctrl (demo_service False 6)"
      "sv_status (demo_service False 6) = SVC_SERVICE_STATUS_STOPPED"
      "e_ctrl (demo_env EOK) (sx_trace (demo_init EOK)) (unat (1 :: u32)) SVC_SERVICE_CTRL_START (sv_parm (demo_service False 6)) = EOK"
    by (simp_all add: demo_init_eq demo_service_def demo_env_def err_codes)
  have "sx_trace s' = sx_trace (demo_init EOK) @ [Ctrl (unat (1 :: u32)) SVC_SERVICE_CTRL_START (sv_parm (demo_service False 6))] @
      cb_events 50 (sv_service (demo_service False 6)) 60 @ changed_events (demo_init EOK) SVC_SERVICE_STATUS_STARTED (unat (1 :: u32))"
    using service_start_without_thread [OF pre e] by blast
  also have "\<dots> = [Ctrl 0 SVC_SERVICE_CTRL_INIT 0, Ctrl 1 SVC_SERVICE_CTRL_INIT 1, Ctrl 1 SVC_SERVICE_CTRL_START 9, Complete 50 6 60]"
    by (simp add: demo_init_eq demo_service_def demo_fresh_def changed_events_def cb_events_def RESTART_CB_def)
  finally show ?thesis by (simp add: e)
qed

text \<open>For a valid handle the blocking \<open>svc_service_start_timeout\<close> returns EOK whatever happens: when the service
  refuses the start, when its thread cannot be created, and when the wait for the start times out.\<close>

theorem start_timeout_always_ok:
  assumes "sx_list s \<noteq> None" "handle < sx_cnt s"
  shows "fst (svc_service_start_timeout env wait s handle sem) = EOK"
  using assms by (auto simp: svc_service_start_timeout_def not_le Let_def split: prod.split)

theorem start_timeout_always_ok_witness:
  "fst (svc_service_start_timeout (demo_env EFAIL) (\<lambda>s. (E_TIMEOUT, s)) (demo_init EFAIL) 0 80) = EOK \<and>
   fst (svc_service_start (demo_env EFAIL) (demo_init EFAIL) 0 0 0) = EFAIL"
  using start_timeout_always_ok [of "demo_init EFAIL" 0 "demo_env EFAIL" "\<lambda>s. (E_TIMEOUT, s)" 80]
  by (simp add: svc_service_start_def do_service_start_def demo_services)

text \<open>\<open>svc_service_ctrl_broadcast\<close> ends, having passed the command to every service of the list once, in order.\<close>

theorem ctrl_broadcast_each_once:
  assumes "sx_list s = None \<or> 0 < sx_cnt s"
  shows "svc_service_ctrl_broadcast env s cmd parm =
    Some (if sx_list s = None then s else
      fold (\<lambda>i s. snd (svc_service_ctrl env s (of_nat i) cmd parm)) [0..<unat (sx_cnt s)] s)"
proof (cases "sx_list s = None")
  case False
  have "broadcast_loop env t (of_nat i) cmd parm =
      Some (fold (\<lambda>i s. snd (svc_service_ctrl env s (of_nat i) cmd parm)) [i..<unat (sx_cnt s)] t)"
    if "i < unat (sx_cnt s)" "sx_list t \<noteq> None" "sx_cnt t = sx_cnt s" for i t
    using that
  proof (induction "unat (sx_cnt s) - i" arbitrary: i t)
    case (Suc k)
    obtain r t' where e: "svc_service_ctrl env t (of_nat i) cmd parm = (r, t')" by force
    note c = svc_service_ctrl_core [OF e]
    have t': "sx_list t' \<noteq> None" "sx_cnt t' = sx_cnt s" using c Suc.prems by (simp_all add: same_core_def)
    have i: "unat (of_nat i :: u32) = i" using Suc.prems(1) u32_less [of "sx_cnt s"] by (intro unat_u32_of_nat) linarith
    have cnt: "unat (sx_cnt s - 1) = unat (sx_cnt s) - 1" using Suc.prems(1) by (intro unat_u32_pred) simp
    have ni: "(of_nat i :: u32) \<noteq> SVC_SERVICE_INVALID_HANDLE"
    proof
      assume "(of_nat i :: u32) = SVC_SERVICE_INVALID_HANDLE"
      then have "i = 4294967295" using i by (simp add: SVC_SERVICE_INVALID_HANDLE_def)
      then show False using Suc.prems(1) u32_less [of "sx_cnt s"] by linarith
    qed
    have nx: "svc_service_next t' (of_nat i) = (if i < unat (sx_cnt s) - 1 then of_nat (Suc i) else SVC_SERVICE_INVALID_HANDLE)"
      using t' i cnt by (simp add: svc_service_next_def word_less_nat_alt add.commute)
    have step: "broadcast_loop env t (of_nat i) cmd parm = broadcast_loop env t' (svc_service_next t' (of_nat i)) cmd parm"
      using ni by (subst broadcast_loop.simps) (simp add: e)
    show ?case
    proof (cases "i < unat (sx_cnt s) - 1")
      case True
      then have "broadcast_loop env t' (of_nat (Suc i)) cmd parm =
          Some (fold (\<lambda>i s. snd (svc_service_ctrl env s (of_nat i) cmd parm)) [Suc i..<unat (sx_cnt s)] t')"
        using Suc.hyps(2) t' by (intro Suc.hyps(1)) auto
      then show ?thesis unfolding step nx using True Suc.prems(1) e by (simp add: upt_conv_Cons)
    next
      case False
      then have "[i..<unat (sx_cnt s)] = [i]" using Suc.prems(1) by (simp add: upt_rec)
      moreover have "broadcast_loop env t' SVC_SERVICE_INVALID_HANDLE cmd parm = Some t'"
        by (subst broadcast_loop.simps) simp
      ultimately show ?thesis unfolding step nx using False e by simp
    qed
  qed simp
  from this [of 0 s] show ?thesis
    using assms False by (auto simp: svc_service_ctrl_broadcast_def svc_service_first_def unat_gt_0 word_neq_0_conv)
qed (simp add: svc_service_ctrl_broadcast_def)

theorem ctrl_broadcast_each_once_witness:
  "svc_service_ctrl_broadcast (demo_env EOK) (demo_init EOK) SVC_SERVICE_CTRL_HALT 0 =
     Some (snd (svc_service_ctrl (demo_env EOK) (snd (svc_service_ctrl (demo_env EOK) (demo_init EOK) 0 SVC_SERVICE_CTRL_HALT 0))
       1 SVC_SERVICE_CTRL_HALT 0))"
proof -
  have c: "sx_cnt (demo_init EOK) = 2" "sx_list (demo_init EOK) \<noteq> None" by (simp_all add: demo_init_eq)
  have l: "[0..<unat (sx_cnt (demo_init EOK))] = [0, 1]" by (simp add: c(1) upt_rec)
  have "0 < sx_cnt (demo_init EOK)" by (simp add: c(1))
  then show ?thesis
    using ctrl_broadcast_each_once [of "demo_init EOK" "demo_env EOK" SVC_SERVICE_CTRL_HALT 0] c(2)
    unfolding l by simp
qed

end
