(* ===== verification/Tasks.thy ===== *)
theory Tasks
  imports Lists
begin

text \<open>
  The task scheduler, src/svc/svc_tasks.c: tasks are queued for a pool of threads, at once or after a delay.
  The list of delayed tasks and the ready queues are lists of task addresses (Lists.thy justifies the
  operations), the tasks a function of their address. The tick count a function reads is an argument: \<open>clk n\<close> is its
  \<open>n\<close>-th reading of the call. What the functions ask of the operating system and the callbacks they make are
  recorded in a trace. A failed assertion of the code sets a flag.

  Each function runs under the mutex of the module and is one step, but for running a task: a thread
  takes a task and calls it in one step and is done with it in another.
\<close>

section \<open>Data\<close>

definition SERVICE_CALLBACK_REASON_RUN :: u32 where "SERVICE_CALLBACK_REASON_RUN = 0"
definition SERVICE_CALLBACK_REASON_CANCELED :: u32 where "SERVICE_CALLBACK_REASON_CANCELED = 1"
definition SERVICE_STATUS_COMPLETE :: u8 where "SERVICE_STATUS_COMPLETE = 0"
definition SERVICE_STATUS_QUEUED :: u8 where "SERVICE_STATUS_QUEUED = 1"
definition SERVICE_STATUS_MASK :: u8 where "SERVICE_STATUS_MASK = 7"
definition SERVICE_STATUS_ACTIVE_BIT :: u8 where "SERVICE_STATUS_ACTIVE_BIT = 8"
definition SERVICE_PRIO_QUEUE_MAX :: nat where "SERVICE_PRIO_QUEUE_MAX = 6"
definition SVC_TASK_CFG_MAX :: nat where "SVC_TASK_CFG_MAX = 5"
definition SVC_TASKS_FLAGS_WAITABLE :: u8 where "SVC_TASKS_FLAGS_WAITABLE = 1"
definition OS_ST_FREQUENCY :: u32 where "OS_ST_FREQUENCY = 1000"

lemmas status_codes = SERVICE_STATUS_COMPLETE_def SERVICE_STATUS_QUEUED_def SERVICE_STATUS_MASK_def
  SERVICE_STATUS_ACTIVE_BIT_def

text \<open>The priorities of the pool; the other members of its entries are handed to the operating system.\<close>

record SVC_TASKS_T =
  tk_callback :: addr
  tk_status :: u8
  tk_prio :: u8
  tk_flags :: u8
  tk_user :: u8
  tk_parm :: u64
  tk_ticks :: u32

datatype task_act =
  Task_call addr addr u64 u32
| Timer_set u32
| Timer_reset
| Notify nat
| Queue_clear nat
| Queue_signal nat
| Wait_signal addr
| Wait_clear addr
| Wdt_id nat addr
| Register
| Unregister
| Signal_isr
| Wait_delete addr

record tasks_state =
  ts_obj :: "addr \<Rightarrow> SVC_TASKS_T"
  ts_list :: "addr list"
  ts_list_count :: u32
  ts_ready :: "nat \<Rightarrow> addr list"
  ts_ready_count :: u32
  ts_pool :: "u32 list"
  ts_pool_count :: u32
  ts_run :: bool
  ts_active_task :: "nat \<Rightarrow> addr"
  ts_active_timer :: "nat \<Rightarrow> u32"
  ts_threads :: "nat \<Rightarrow> nat"
  ts_event :: "addr \<Rightarrow> addr"
  ts_failed :: bool
  ts_trace :: "task_act list"

definition dbg_assert :: "bool \<Rightarrow> tasks_state \<Rightarrow> tasks_state" where
  "dbg_assert c s = (if c then s else s\<lparr>ts_failed := True\<rparr>)"

lemma dbg_assert_True [simp]: "dbg_assert True s = s"
  by (simp add: dbg_assert_def)

definition log_act :: "task_act \<Rightarrow> tasks_state \<Rightarrow> tasks_state" where
  "log_act a s = s\<lparr>ts_trace := ts_trace s @ [a]\<rparr>"

definition upd_task :: "addr \<Rightarrow> (SVC_TASKS_T \<Rightarrow> SVC_TASKS_T) \<Rightarrow> tasks_state \<Rightarrow> tasks_state" where
  "upd_task a f s = s\<lparr>ts_obj := (ts_obj s)(a := f (ts_obj s a))\<rparr>"

text \<open>\<open>prio\<close> is promoted to the unsigned type of the count, the result cut to 16 bits.\<close>

definition SVC_PRIO2QUEUE :: "tasks_state \<Rightarrow> u32 \<Rightarrow> nat" where
  "SVC_PRIO2QUEUE s prio =
     unat (ucast (if prio < ts_pool_count s then prio else ts_pool_count s - 1) :: u16)"

definition SVC_TASK_MS2TICKS :: "u32 \<Rightarrow> u32" where
  "SVC_TASK_MS2TICKS msec = word_of_int ((uint (msec * OS_ST_FREQUENCY) + 999) div 1000)"

section \<open>Status\<close>

definition svc_tasks_status :: "SVC_TASKS_T \<Rightarrow> u8" where
  "svc_tasks_status t = (tk_status t AND SERVICE_STATUS_MASK)"

definition svc_tasks_is_active :: "SVC_TASKS_T \<Rightarrow> bool" where
  "svc_tasks_is_active t \<longleftrightarrow> tk_status t AND SERVICE_STATUS_ACTIVE_BIT \<noteq> 0"

definition waitable :: "SVC_TASKS_T \<Rightarrow> bool" where
  "waitable t \<longleftrightarrow> tk_flags t AND SVC_TASKS_FLAGS_WAITABLE \<noteq> 0"

definition svc_tasks_ready_count :: "tasks_state \<Rightarrow> u32" where
  "svc_tasks_ready_count s = ts_ready_count s"

definition svc_tasks_queued_count :: "tasks_state \<Rightarrow> u32" where
  "svc_tasks_queued_count s = ts_ready_count s + ts_list_count s"

definition svc_tasks_scheduled_count :: "tasks_state \<Rightarrow> u32" where
  "svc_tasks_scheduled_count s = ts_list_count s"

definition svc_tasks_get_flags :: "SVC_TASKS_T \<Rightarrow> u8" where
  "svc_tasks_get_flags t = tk_user t"

definition svc_tasks_set_flags :: "addr \<Rightarrow> u8 \<Rightarrow> tasks_state \<Rightarrow> tasks_state" where
  "svc_tasks_set_flags task flags = upd_task task (\<lambda>t. t\<lparr>tk_user := flags\<rparr>)"

definition svc_task_expire :: "u32 \<Rightarrow> tasks_state \<Rightarrow> addr \<Rightarrow> u32" where
  "svc_task_expire now s task =
     (if svc_tasks_status (ts_obj s task) = SERVICE_STATUS_QUEUED then
        (let timeout = tick_diff (tk_ticks (ts_obj s task)) now in if timeout < 0 then 0 else word_of_int timeout)
      else 0)"

definition svc_task_next_expire :: "u32 \<Rightarrow> tasks_state \<Rightarrow> u32" where
  "svc_task_next_expire now s =
     (let next = ll_head (ts_list s)
      in if next \<noteq> NULL then
           (let timeout = tick_diff (tk_ticks (ts_obj s next)) now in if timeout < 0 then 0 else word_of_int timeout)
         else 0)"

text \<open>The time the task of a queue has been running, with its callback and parameter.\<close>

definition svc_task_get_active_ticks :: "u32 \<Rightarrow> tasks_state \<Rightarrow> u16 \<Rightarrow> u32 \<times> (addr \<times> u64) option" where
  "svc_task_get_active_ticks now s prio =
     (if (ucast prio :: u32) < ts_pool_count s \<and> ts_active_task s (unat prio) \<noteq> NULL then
        (now - ts_active_timer s (unat prio),
         Some (tk_callback (ts_obj s (ts_active_task s (unat prio))), tk_parm (ts_obj s (ts_active_task s (unat prio)))))
      else (0, None))"

section \<open>Life cycle\<close>

definition svc_tasks_deinit_waitable_task :: "addr \<Rightarrow> tasks_state \<Rightarrow> tasks_state" where
  "svc_tasks_deinit_waitable_task task s = log_act (Wait_delete (ts_event s task)) s"

text \<open>
  The search for the terminating entry of the pool: None when it leaves the configured array.
\<close>

fun pool_loop :: "u32 list \<Rightarrow> u32 \<Rightarrow> u32 option" where
  "pool_loop [] n = None"
| "pool_loop (p # ps) n = (if p = 0 then Some n else pool_loop ps (n + 1))"

definition svc_tasks_init :: "u32 list option \<Rightarrow> tasks_state \<Rightarrow> (int \<times> tasks_state) option" where
  "svc_tasks_init pool s =
     (case pool of
        None \<Rightarrow> Some (EOK, s)
      | Some p \<Rightarrow>
          (case pool_loop (take SVC_TASK_CFG_MAX p) 0 of
             None \<Rightarrow> None
           | Some n \<Rightarrow> Some (EOK, s\<lparr>ts_pool := take SVC_TASK_CFG_MAX p, ts_pool_count := n\<rparr>)))"

definition svc_tasks_stop :: "(nat \<Rightarrow> int) \<Rightarrow> u32 \<Rightarrow> tasks_state \<Rightarrow> int \<times> tasks_state" where
  "svc_tasks_stop join timeout s =
     (let status = if timeout \<noteq> 0 then EOK else E_TIMEOUT;
          s = (log_act Timer_reset (log_act Unregister s))\<lparr>ts_run := False\<rparr>;
          is = [0..<unat (ts_pool_count s)];
          s = fold (\<lambda>i s. if ts_threads s i \<noteq> 0 then log_act (Notify i) s else s) is s;
          status = (if timeout \<noteq> 0 \<and> (\<exists>i \<in> set is. ts_threads s i \<noteq> 0 \<and> join i \<noteq> EOK) then E_TIMEOUT else status)
      in (status, s))"

text \<open>\<open>create i\<close>: the result of creating thread \<open>i\<close> and the handle it stores; \<open>started i\<close>: whether its signal arrived.\<close>

fun start_loop :: "(nat \<Rightarrow> int \<times> nat) \<Rightarrow> (nat \<Rightarrow> bool) \<Rightarrow> nat list \<Rightarrow> tasks_state \<Rightarrow> int \<times> tasks_state" where
  "start_loop create started [] s = (EOK, s)"
| "start_loop create started (i # is) s =
     (let s = log_act (Queue_clear i) s;
          s = s\<lparr>ts_threads := (ts_threads s)(i := snd (create i))\<rparr>
      in if fst (create i) \<noteq> EOK then (fst (create i), s)
         else if \<not> started i then (E_TIMEOUT, s)
         else start_loop create started is s)"

definition svc_tasks_start ::
    "(nat \<Rightarrow> int \<times> nat) \<Rightarrow> (nat \<Rightarrow> bool) \<Rightarrow> (nat \<Rightarrow> int) \<Rightarrow> tasks_state \<Rightarrow> int \<times> tasks_state" where
  "svc_tasks_start create started join s =
     (let s = log_act Register (s\<lparr>ts_run := True\<rparr>);
          (status, s) = start_loop create started [0..<unat (ts_pool_count s)] s
      in if status \<noteq> EOK then (status, snd (svc_tasks_stop join 1000 s)) else (status, s))"

definition svc_tasks_init_task :: "addr \<Rightarrow> tasks_state \<Rightarrow> tasks_state" where
  "svc_tasks_init_task task = upd_task task (\<lambda>t. t\<lparr>tk_status := SERVICE_STATUS_COMPLETE, tk_flags := 0, tk_user := 0\<rparr>)"

text \<open>\<open>os\<close>: the result of creating the event and its handle.\<close>

definition svc_tasks_init_waitable_task :: "int \<times> addr \<Rightarrow> addr \<Rightarrow> tasks_state \<Rightarrow> int \<times> tasks_state" where
  "svc_tasks_init_waitable_task os task s =
     (let s = svc_tasks_init_task task s; s = s\<lparr>ts_event := (ts_event s)(task := NULL)\<rparr>
      in if fst os = EOK then
           (fst os, upd_task task (\<lambda>t. t\<lparr>tk_flags := SVC_TASKS_FLAGS_WAITABLE\<rparr>) (s\<lparr>ts_event := (ts_event s)(task := snd os)\<rparr>))
         else (fst os, s))"

section \<open>Queueing\<close>

definition task_to_ready :: "addr \<Rightarrow> tasks_state \<Rightarrow> tasks_state" where
  "task_to_ready task s =
     (let queue = SVC_PRIO2QUEUE s (ucast (tk_prio (ts_obj s task)));
          s = dbg_assert (queue < unat (ts_pool_count s) \<and> tk_callback (ts_obj s task) \<noteq> NULL) s;
          s = s\<lparr>ts_ready := (ts_ready s)(queue := ll_add_tail (ts_ready s queue) task),
                ts_ready_count := ts_ready_count s + 1\<rparr>;
          s = log_act (Queue_clear queue) s
      in if ts_threads s queue \<noteq> 0 then log_act (Notify queue) s else s)"

text \<open>The \<open>do\<close> loop of \<open>svc_tasks_task_event\<close>, on the list with head \<open>start\<close>, which has expired.\<close>

fun expire_loop :: "(nat \<Rightarrow> u32) \<Rightarrow> addr list \<Rightarrow> tasks_state \<Rightarrow> tasks_state" where
  "expire_loop clk [] s = s"
| "expire_loop clk (start # rest) s =
     (let s = dbg_assert (ts_list_count s \<noteq> 0) s;
          s = s\<lparr>ts_list_count := ts_list_count s - 1, ts_list := ll_remove_head (ts_list s)\<rparr>;
          s = task_to_ready start s;
          next = ll_head (ts_list s)
      in if next \<noteq> NULL \<and> tick_diff (tk_ticks (ts_obj s next)) (clk 0) \<le> 0
         then expire_loop (\<lambda>n. clk (Suc n)) rest s
         else if next \<noteq> NULL then log_act (Timer_set (tk_ticks (ts_obj s next) - clk 0)) s else s)"

definition svc_tasks_task_event :: "(nat \<Rightarrow> u32) \<Rightarrow> tasks_state \<Rightarrow> tasks_state" where
  "svc_tasks_task_event clk s =
     (let start = ll_head (ts_list s)
      in if start = NULL then s
         else if tick_diff (tk_ticks (ts_obj s start)) (clk 0) > 0
              then log_act (Timer_set (tk_ticks (ts_obj s start) - clk 0)) s
              else expire_loop (\<lambda>n. clk (Suc n)) (ts_list s) s)"

text \<open>The callback of the timer; \<open>irq\<close>: whether it runs in an interrupt.\<close>

definition svc_tasks_virtual_timer :: "(nat \<Rightarrow> u32) \<Rightarrow> bool \<Rightarrow> tasks_state \<Rightarrow> tasks_state" where
  "svc_tasks_virtual_timer clk irq s = (if irq then log_act Signal_isr s else svc_tasks_task_event clk s)"

definition svc_tasks_add :: "tasks_state \<Rightarrow> addr \<Rightarrow> addr \<Rightarrow> u64 \<Rightarrow> u16 \<Rightarrow> int \<times> tasks_state" where
  "svc_tasks_add s task callback parm prio =
     (if svc_tasks_status (ts_obj s task) = SERVICE_STATUS_QUEUED then (E_BUSY, s)
      else (EOK, task_to_ready task (upd_task task (\<lambda>t. t\<lparr>tk_callback := callback, tk_parm := parm,
              tk_status := SERVICE_STATUS_QUEUED, tk_prio := ucast prio, tk_ticks := 0\<rparr>) s)))"

text \<open>
  The search of \<open>svc_tasks_schedule\<close>: the last task that does not expire later, and whether the assertion
  that \<open>task\<close> is not in the list held.
\<close>

fun find_previous :: "(addr \<Rightarrow> SVC_TASKS_T) \<Rightarrow> addr \<Rightarrow> addr \<Rightarrow> addr list \<Rightarrow> bool \<times> addr" where
  "find_previous obj task previous [] = (True, previous)"
| "find_previous obj task previous (start # rest) =
     (if tick_diff (tk_ticks (obj task)) (tk_ticks (obj start)) \<ge> 0
      then (let (ok, p) = find_previous obj task start rest in (start \<noteq> task \<and> ok, p))
      else (True, previous))"

text \<open>\<open>timer_is_set\<close>: the answer of \<open>os_timer_is_set\<close>.\<close>

definition svc_tasks_schedule ::
    "(nat \<Rightarrow> u32) \<Rightarrow> bool \<Rightarrow> tasks_state \<Rightarrow> addr \<Rightarrow> addr \<Rightarrow> u64 \<Rightarrow> u16 \<Rightarrow> u32 \<Rightarrow> int \<times> tasks_state" where
  "svc_tasks_schedule clk timer_is_set s task callback parm prio ticks =
     (let ticks = (if ticks \<ge> 0xFFFFFFFF div 2 then 0xFFFFFFFF div 2 - 1 else ticks);
          s = dbg_assert (ticks < 0xFFFFFFFF div 2) s;
          s = (if waitable (ts_obj s task) then log_act (Wait_clear (ts_event s task)) s else s)
      in if ticks = 0 then svc_tasks_add s task callback parm prio
         else if svc_tasks_status (ts_obj s task) = SERVICE_STATUS_QUEUED then (E_BUSY, s)
         else
           (let s = upd_task task (\<lambda>t. t\<lparr>tk_callback := callback, tk_parm := parm,
                      tk_status := SERVICE_STATUS_QUEUED, tk_prio := ucast prio, tk_ticks := ticks + clk 0\<rparr>) s;
                (ok, previous) = find_previous (ts_obj s) task NULL (ts_list s);
                s = dbg_assert ok s
            in if previous = NULL then
                 (let s = s\<lparr>ts_list := ll_add_head (ts_list s) task, ts_list_count := ts_list_count s + 1\<rparr>
                  in (EOK, if ticks \<noteq> 0 then log_act (Timer_set ticks) s
                           else svc_tasks_task_event (\<lambda>n. clk (Suc n)) s))
               else
                 (let s = s\<lparr>ts_list := ll_add_next (ts_list s) previous task, ts_list_count := ts_list_count s + 1\<rparr>
                  in (EOK, if \<not> timer_is_set then svc_tasks_task_event (\<lambda>n. clk (Suc n)) s else s))))"

section \<open>Running\<close>

text \<open>A thread of queue \<open>k\<close> takes the next task and calls it; None when there is none.\<close>

definition svc_tasks_service_task :: "u32 \<Rightarrow> nat \<Rightarrow> tasks_state \<Rightarrow> (addr \<times> tasks_state) option" where
  "svc_tasks_service_task now k s =
     (let start = ll_head (ts_ready s k)
      in if start = NULL then None
         else
           (let parm = tk_parm (ts_obj s start); callback = tk_callback (ts_obj s start);
                s = s\<lparr>ts_ready := (ts_ready s)(k := ll_remove_head (ts_ready s k))\<rparr>;
                s = dbg_assert (ts_ready_count s \<noteq> 0) s;
                s = s\<lparr>ts_ready_count := ts_ready_count s - 1\<rparr>;
                s = (if ts_ready_count s = 0 then dbg_assert (ll_head (ts_ready s k) = NULL) s else s);
                s = upd_task start (\<lambda>t. t\<lparr>tk_status := SERVICE_STATUS_ACTIVE_BIT\<rparr>) s;
                s = s\<lparr>ts_active_task := (ts_active_task s)(k := start), ts_active_timer := (ts_active_timer s)(k := now)\<rparr>;
                s = log_act (Wdt_id k callback) s
            in Some (start, log_act (Task_call callback start parm SERVICE_CALLBACK_REASON_RUN) s)))"

text \<open>The callback has returned.\<close>

definition service_task_done :: "nat \<Rightarrow> tasks_state \<Rightarrow> tasks_state" where
  "service_task_done k s =
     log_act (Queue_signal k) (log_act (Wdt_id k NULL)
       (s\<lparr>ts_active_task := (ts_active_task s)(k := NULL), ts_active_timer := (ts_active_timer s)(k := 0)\<rparr>))"

definition svc_tasks_complete :: "addr \<Rightarrow> tasks_state \<Rightarrow> tasks_state" where
  "svc_tasks_complete task s =
     (let s = upd_task task (\<lambda>t. t\<lparr>tk_status := tk_status t AND NOT SERVICE_STATUS_ACTIVE_BIT\<rparr>) s
      in if waitable (ts_obj s task) then log_act (Wait_signal (ts_event s task)) s else s)"

section \<open>Cancelling\<close>

text \<open>The parameter passes through a 32-bit variable.\<close>

definition cancel_call :: "u32 \<Rightarrow> addr \<Rightarrow> tasks_state \<Rightarrow> tasks_state" where
  "cancel_call parm task s =
     (let s = upd_task task (\<lambda>t. t\<lparr>tk_status := SERVICE_STATUS_COMPLETE\<rparr>) s;
          s = log_act (Task_call (tk_callback (ts_obj s task)) task (ucast parm) SERVICE_CALLBACK_REASON_CANCELED) s
      in if waitable (ts_obj s task) then log_act (Wait_signal (ts_event s task)) s else s)"

definition task_ready_cancel :: "addr \<Rightarrow> tasks_state \<Rightarrow> int \<times> tasks_state" where
  "task_ready_cancel task s =
     (if svc_tasks_status (ts_obj s task) \<noteq> SERVICE_STATUS_COMPLETE then
        (let prio = SVC_PRIO2QUEUE s (ucast (tk_prio (ts_obj s task)))
         in if task \<in> set (ts_ready s prio) then
              (let s = s\<lparr>ts_ready := (ts_ready s)(prio := ll_remove (ts_ready s prio) task)\<rparr>;
                   parm = ucast (tk_parm (ts_obj s task));
                   s = dbg_assert (ts_ready_count s \<noteq> 0) s;
                   s = s\<lparr>ts_ready_count := ts_ready_count s - 1\<rparr>;
                   s = (if ts_ready_count s = 0 then dbg_assert (ll_head (ts_ready s prio) = NULL) s else s)
               in (EOK, cancel_call parm task s))
            else (E_BUSY, dbg_assert False s))
      else (E_BUSY, dbg_assert False s))"

definition svc_tasks_cancel :: "(nat \<Rightarrow> u32) \<Rightarrow> tasks_state \<Rightarrow> addr \<Rightarrow> int \<times> tasks_state" where
  "svc_tasks_cancel clk s task =
     (let start = ll_head (ts_list s)
      in if task \<in> set (ts_list s) then
           (let s = s\<lparr>ts_list := ll_remove (ts_list s) task\<rparr>;
                parm = ucast (tk_parm (ts_obj s task));
                s = dbg_assert (ts_list_count s \<noteq> 0) s;
                s = s\<lparr>ts_list_count := ts_list_count s - 1\<rparr>;
                s = (if start = task then svc_tasks_task_event clk s else s)
            in (EOK, cancel_call parm task s))
         else if svc_tasks_status (ts_obj s task) = SERVICE_STATUS_COMPLETE then
           (if svc_tasks_is_active (ts_obj s task) then E_BUSY else EOK, s)
         else
           (let (status, s) = task_ready_cancel task s
            in (status, if status = EOK then svc_tasks_task_event clk s else s)))"

section \<open>Waiting\<close>

text \<open>\<open>bits\<close>: the bits \<open>os_event_wait_timeout\<close> returns, 0 on a timeout.\<close>

definition svc_tasks_wait_queue :: "u32 \<Rightarrow> tasks_state \<Rightarrow> u32 \<Rightarrow> int" where
  "svc_tasks_wait_queue bits s queue = (if queue < ts_pool_count s then sint bits else EOK)"

text \<open>The polling loop: \<open>poll n\<close> is the status byte its \<open>n\<close>-th test reads.\<close>

definition task_done :: "u8 \<Rightarrow> bool" where
  "task_done st \<longleftrightarrow> st AND SERVICE_STATUS_MASK = SERVICE_STATUS_COMPLETE \<and> st AND SERVICE_STATUS_ACTIVE_BIT = 0"

partial_function (option) wait_loop :: "(nat \<Rightarrow> u8) \<Rightarrow> nat \<Rightarrow> u32 \<Rightarrow> int option" where
  "wait_loop poll n timeout =
     (if \<not> task_done (poll n) \<and> timeout \<noteq> 0 then
        (let wait = if timeout > SVC_TASK_MS2TICKS 10 then SVC_TASK_MS2TICKS 10 else timeout
         in wait_loop poll (Suc n) (timeout - wait))
      else Some (if task_done (poll (Suc n)) then EOK else E_TIMEOUT))"

definition svc_tasks_wait :: "(nat \<Rightarrow> u8) \<Rightarrow> u32 \<Rightarrow> tasks_state \<Rightarrow> addr \<Rightarrow> u32 \<Rightarrow> int option" where
  "svc_tasks_wait poll bits s task timeout =
     (if waitable (ts_obj s task) then Some (if bits \<noteq> 0 then EOK else E_TIMEOUT)
      else wait_loop poll 0 timeout)"

text \<open>\<open>during\<close>: the state after the wait, from the state before it.\<close>

definition svc_tasks_cancel_wait ::
    "(nat \<Rightarrow> u32) \<Rightarrow> (nat \<Rightarrow> u8) \<Rightarrow> u32 \<Rightarrow> (tasks_state \<Rightarrow> tasks_state) \<Rightarrow> tasks_state \<Rightarrow> addr \<Rightarrow> u32 \<Rightarrow>
       (int \<times> tasks_state) option" where
  "svc_tasks_cancel_wait clk poll bits during s task timeout =
     (let (res, s) = svc_tasks_cancel clk s task
      in if res = E_BUSY \<and> timeout \<noteq> 0 then
           (case svc_tasks_wait poll bits s task timeout of
              None \<Rightarrow> None
            | Some res \<Rightarrow> Some (res, snd (svc_tasks_cancel clk (during s) task)))
         else Some (res, s))"

section \<open>Invariant\<close>

definition queued :: "tasks_state \<Rightarrow> addr \<Rightarrow> bool" where
  "queued s a \<longleftrightarrow> svc_tasks_status (ts_obj s a) = SERVICE_STATUS_QUEUED"

definition in_ready :: "tasks_state \<Rightarrow> addr \<Rightarrow> bool" where
  "in_ready s a \<longleftrightarrow> (\<exists>k. a \<in> set (ts_ready s k))"

definition task_queue :: "tasks_state \<Rightarrow> addr \<Rightarrow> nat" where
  "task_queue s a = SVC_PRIO2QUEUE s (ucast (tk_prio (ts_obj s a)))"

definition rcount :: "tasks_state \<Rightarrow> nat" where
  "rcount s = (\<Sum>k < unat (ts_pool_count s). length (ts_ready s k))"

text \<open>\<open>ps\<close>: the tasks that are marked as queued and are, inside an operation, in no list.\<close>

definition lists_ok :: "addr list \<Rightarrow> tasks_state \<Rightarrow> bool" where
  "lists_ok ps s \<longleftrightarrow> distinct (ts_list s @ ps) \<and> (\<forall>k. distinct (ts_ready s k)) \<and>
     (\<forall>k. \<forall>a \<in> set (ts_ready s k). k = task_queue s a) \<and> (\<forall>a \<in> set (ts_list s @ ps). \<not> in_ready s a)"

definition status_ok :: "addr list \<Rightarrow> tasks_state \<Rightarrow> bool" where
  "status_ok ps s \<longleftrightarrow>
     (\<forall>a. (queued s a \<longleftrightarrow> a \<in> set (ts_list s @ ps) \<or> in_ready s a) \<and>
          (queued s a \<longrightarrow> a \<noteq> NULL \<and> tk_callback (ts_obj s a) \<noteq> NULL) \<and>
          (\<not> queued s a \<longrightarrow> svc_tasks_status (ts_obj s a) = SERVICE_STATUS_COMPLETE))"

definition counts_ok :: "addr list \<Rightarrow> tasks_state \<Rightarrow> bool" where
  "counts_ok ps s \<longleftrightarrow> ts_list_count s = of_nat (length (ts_list s)) \<and> ts_ready_count s = of_nat (rcount s) \<and>
     length (ts_list s) + rcount s + length ps < 4294967296"

definition tq_inv :: "addr list \<Rightarrow> tasks_state \<Rightarrow> bool" where
  "tq_inv ps s \<longleftrightarrow> 0 < unat (ts_pool_count s) \<and> unat (ts_pool_count s) \<le> SERVICE_PRIO_QUEUE_MAX \<and>
     lists_ok ps s \<and> status_ok ps s \<and> counts_ok ps s \<and> \<not> ts_failed s"

lemmas tq_defs = queued_def in_ready_def task_queue_def SVC_PRIO2QUEUE_def rcount_def

lemma prio2queue_less:
  assumes "0 < unat (ts_pool_count s)" "unat (ts_pool_count s) \<le> SERVICE_PRIO_QUEUE_MAX"
  shows "SVC_PRIO2QUEUE s p < unat (ts_pool_count s)"
proof -
  have c: "unat (ucast w :: u16) = unat w" if "unat (w :: u32) < 6" for w
    using that by (simp add: unsigned_ucast_eq take_bit_nat_eq_self)
  have pr: "unat (ts_pool_count s - 1) = unat (ts_pool_count s) - 1" using assms(1) by (intro unat_u32_pred) simp
  show ?thesis
  proof (cases "p < ts_pool_count s")
    case True
    then have "unat p < unat (ts_pool_count s)" by (simp add: word_less_nat_alt)
    then show ?thesis using True assms c [of p] by (simp add: SVC_PRIO2QUEUE_def SERVICE_PRIO_QUEUE_MAX_def)
  next
    case False
    then show ?thesis using assms pr c [of "ts_pool_count s - 1"] by (simp add: SVC_PRIO2QUEUE_def SERVICE_PRIO_QUEUE_MAX_def)
  qed
qed

lemma task_queue_less: "tq_inv ps s \<Longrightarrow> task_queue s a < unat (ts_pool_count s)"
  by (simp add: task_queue_def tq_inv_def prio2queue_less)

lemma log_act_inv [simp]: "tq_inv ps (log_act a s) = tq_inv ps s"
  by (simp add: tq_inv_def lists_ok_def status_ok_def counts_ok_def tq_defs log_act_def)

lemma sum_length_upd:
  assumes "k < (n :: nat)"
  shows "(\<Sum>i<n. length ((f(k := xs)) i)) + length (f k) = (\<Sum>i<n. length (f i)) + length xs"
proof -
  have "(\<Sum>i<n. length ((f(k := xs)) i)) = length xs + (\<Sum>i \<in> {..<n} - {k}. length (f i))"
    using assms by (subst sum.remove [of _ k]) (auto intro!: sum.cong)
  moreover have "(\<Sum>i<n. length (f i)) = length (f k) + (\<Sum>i \<in> {..<n} - {k}. length (f i))"
    using assms by (subst sum.remove [of _ k]) auto
  ultimately show ?thesis by simp
qed

lemma rcount_upd:
  assumes "tq_inv ps s" "k = task_queue s a"
  shows "rcount (s\<lparr>ts_ready := (ts_ready s)(k := xs)\<rparr>) + length (ts_ready s k) = rcount s + length xs"
  unfolding rcount_def using sum_length_upd [of k _ "ts_ready s" xs] task_queue_less [OF assms(1), of a] assms(2) by simp

text \<open>What the invariant says does not depend on the other fields.\<close>

definition same_queues :: "tasks_state \<Rightarrow> tasks_state \<Rightarrow> bool" where
  "same_queues s s' \<longleftrightarrow> ts_list s' = ts_list s \<and> ts_list_count s' = ts_list_count s \<and> ts_ready s' = ts_ready s \<and>
     ts_ready_count s' = ts_ready_count s \<and> ts_pool_count s' = ts_pool_count s \<and> ts_failed s' = ts_failed s \<and>
     (\<forall>a. svc_tasks_status (ts_obj s' a) = svc_tasks_status (ts_obj s a) \<and>
          (queued s a \<longrightarrow> tk_prio (ts_obj s' a) = tk_prio (ts_obj s a) \<and> tk_callback (ts_obj s' a) = tk_callback (ts_obj s a)))"

lemma same_queues_inv:
  assumes q: "same_queues s s'" and inv: "tq_inv ps s"
  shows "tq_inv ps s'"
proof -
  have qd: "queued s' a = queued s a" "in_ready s' a = in_ready s a" "rcount s' = rcount s" for a
    using q by (simp_all add: same_queues_def queued_def in_ready_def rcount_def)
  have "k = task_queue s' a" if "a \<in> set (ts_ready s' k)" for k a
  proof -
    have "a \<in> set (ts_ready s k)" "queued s a"
      using that inv q by (auto simp: tq_inv_def status_ok_def in_ready_def same_queues_def)
    moreover from this have "task_queue s' a = task_queue s a"
      using q by (simp add: same_queues_def task_queue_def SVC_PRIO2QUEUE_def)
    ultimately show ?thesis using inv by (simp add: tq_inv_def lists_ok_def)
  qed
  then show ?thesis
    using inv q qd by (simp add: tq_inv_def lists_ok_def status_ok_def counts_ok_def same_queues_def)
qed

text \<open>Moving a task between the lists.\<close>

definition same_tasks :: "tasks_state \<Rightarrow> tasks_state \<Rightarrow> bool" where
  "same_tasks s s' \<longleftrightarrow> ts_obj s' = ts_obj s \<and> ts_pool_count s' = ts_pool_count s \<and> ts_failed s' = ts_failed s"

lemma same_tasks_defs:
  assumes "same_tasks s s'"
  shows "queued s' = queued s" "task_queue s' = task_queue s"
  using assms by (auto simp: same_tasks_def tq_defs fun_eq_iff)

lemma list_remove_inv:
  assumes inv: "tq_inv ps s" and a: "a \<in> set (ts_list s)"
    and s': "same_tasks s s'" "ts_list s' = remove1 a (ts_list s)" "ts_list_count s' = ts_list_count s - 1"
      "ts_ready s' = ts_ready s" "ts_ready_count s' = ts_ready_count s"
  shows "tq_inv (a # ps) s' \<and> ts_list_count s \<noteq> 0"
proof -
  note d = same_tasks_defs [OF s'(1)]
  have r: "in_ready s' = in_ready s" "rcount s' = rcount s"
    using s' by (simp_all add: in_ready_def rcount_def same_tasks_def fun_eq_iff)
  have len: "length (ts_list s) = Suc (length (ts_list s'))"
    using length_pos_if_in_set [OF a] a s'(2) by (simp add: length_remove1)
  have "distinct (ts_list s)" using inv by (simp add: tq_inv_def lists_ok_def)
  then have set': "set (ts_list s) = insert a (set (ts_list s'))" "a \<notin> set (ts_list s')"
    using a s'(2) by auto
  have "lists_ok (a # ps) s'" using inv set' s' d r by (auto simp: tq_inv_def lists_ok_def)
  moreover have "status_ok (a # ps) s'"
    using inv set' s' d r by (simp add: tq_inv_def status_ok_def same_tasks_def)
  moreover have "counts_ok (a # ps) s'"
    using inv len s' r by (simp add: tq_inv_def counts_ok_def)
  moreover have "ts_list_count s \<noteq> 0"
  proof
    assume "ts_list_count s = 0"
    moreover have "unat (ts_list_count s) = length (ts_list s)"
      using inv by (simp add: tq_inv_def counts_ok_def unat_u32_of_nat)
    ultimately show False using len by simp
  qed
  ultimately show ?thesis using inv s'(1) by (simp add: tq_inv_def same_tasks_def)
qed

lemma ready_remove_inv:
  assumes inv: "tq_inv ps s" and a: "a \<in> set (ts_ready s k)"
    and s': "same_tasks s s'" "ts_ready s' = (ts_ready s)(k := remove1 a (ts_ready s k))"
      "ts_ready_count s' = ts_ready_count s - 1" "ts_list s' = ts_list s" "ts_list_count s' = ts_list_count s"
  shows "tq_inv (a # ps) s' \<and> ts_ready_count s \<noteq> 0 \<and> (ts_ready_count s' = 0 \<longrightarrow> ts_ready s' k = [])"
proof -
  note d = same_tasks_defs [OF s'(1)]
  have k: "k = task_queue s a" using inv a by (simp add: tq_inv_def lists_ok_def)
  have len: "length (ts_ready s k) = Suc (length (remove1 a (ts_ready s k)))"
    using length_pos_if_in_set [OF a] a by (simp add: length_remove1)
  have "rcount s' = rcount (s\<lparr>ts_ready := (ts_ready s)(k := remove1 a (ts_ready s k))\<rparr>)"
    using s' by (simp add: rcount_def same_tasks_def)
  then have rc: "rcount s = Suc (rcount s')" using rcount_upd [OF inv k, of "remove1 a (ts_ready s k)"] len by simp
  have nd: "distinct (ts_ready s k)" using inv by (simp add: tq_inv_def lists_ok_def)
  have un: "a \<notin> set (ts_ready s j)" if "j \<noteq> k" for j
    using that inv k by (auto simp: tq_inv_def lists_ok_def)
  have mem: "b \<in> set (ts_ready s' j) \<longleftrightarrow> b \<in> set (ts_ready s j) \<and> b \<noteq> a" for b j
    using un [of j] by (cases "j = k") (auto simp: s'(2) set_remove1_eq [OF nd])
  have ir: "in_ready s' b \<longleftrightarrow> in_ready s b \<and> b \<noteq> a" for b
    by (simp add: in_ready_def mem)
  have inr: "in_ready s a" using a by (auto simp: in_ready_def)
  have "distinct (ts_ready s' j)" for j using inv s'(2) by (simp add: tq_inv_def lists_ok_def)
  moreover have "\<forall>b \<in> set (ts_ready s' j). j = task_queue s' b" for j
    using inv d by (simp add: tq_inv_def lists_ok_def mem)
  ultimately have "lists_ok (a # ps) s'" using inv s' d ir inr by (auto simp: tq_inv_def lists_ok_def)
  moreover have "status_ok (a # ps) s'"
    using inv ir inr s' d by (auto simp: tq_inv_def status_ok_def same_tasks_def)
  moreover have "counts_ok (a # ps) s'"
    using inv rc s' by (simp add: tq_inv_def counts_ok_def)
  moreover have un: "unat (ts_ready_count s) = rcount s" "unat (ts_ready_count s') = rcount s'"
    using inv calculation(3) by (simp_all add: tq_inv_def counts_ok_def unat_u32_of_nat)
  moreover have "ts_ready_count s \<noteq> 0" using un rc by auto
  moreover have "ts_ready s' k = []" if "ts_ready_count s' = 0"
  proof -
    have "rcount s' = 0" using un(2) that by simp
    moreover have "k < unat (ts_pool_count s')" using task_queue_less [OF inv, of a] k s'(1) by (simp add: same_tasks_def)
    ultimately show ?thesis by (simp add: rcount_def)
  qed
  ultimately show ?thesis using inv s'(1) by (simp add: tq_inv_def same_tasks_def)
qed

lemma list_insert_inv:
  assumes inv: "tq_inv (a # ps) s"
    and s': "same_tasks s s'" "set (ts_list s') = insert a (set (ts_list s))" "distinct (ts_list s')"
      "ts_list_count s' = ts_list_count s + 1" "ts_ready s' = ts_ready s" "ts_ready_count s' = ts_ready_count s"
  shows "tq_inv ps s'"
proof -
  note d = same_tasks_defs [OF s'(1)]
  have r: "in_ready s' = in_ready s" "rcount s' = rcount s"
    using s' by (simp_all add: in_ready_def rcount_def same_tasks_def fun_eq_iff)
  have dl: "distinct (ts_list s)" "a \<notin> set (ts_list s)" using inv by (auto simp: tq_inv_def lists_ok_def)
  then have len: "length (ts_list s') = Suc (length (ts_list s))"
    using s'(2,3) distinct_card [of "ts_list s"] distinct_card [of "ts_list s'"] by simp
  have "lists_ok ps s'" using inv s' d r by (auto simp: tq_inv_def lists_ok_def)
  moreover have "status_ok ps s'" using inv s' d r by (auto simp: tq_inv_def status_ok_def same_tasks_def)
  moreover have "counts_ok ps s'" using inv len s' r by (simp add: tq_inv_def counts_ok_def add.commute)
  ultimately show ?thesis using inv s'(1) by (simp add: tq_inv_def same_tasks_def)
qed

lemma ready_insert_inv:
  assumes inv: "tq_inv (a # ps) s" and k: "k = task_queue s a"
    and s': "same_tasks s s'" "ts_ready s' = (ts_ready s)(k := ts_ready s k @ [a])"
      "ts_ready_count s' = ts_ready_count s + 1" "ts_list s' = ts_list s" "ts_list_count s' = ts_list_count s"
  shows "tq_inv ps s'"
proof -
  note d = same_tasks_defs [OF s'(1)]
  have "rcount s' = rcount (s\<lparr>ts_ready := (ts_ready s)(k := ts_ready s k @ [a])\<rparr>)"
    using s' by (simp add: rcount_def same_tasks_def)
  then have rc: "rcount s' = Suc (rcount s)" using rcount_upd [OF inv k, of "ts_ready s k @ [a]"] by simp
  have ir: "in_ready s' b \<longleftrightarrow> in_ready s b \<or> b = a" for b
    using s'(2) by (auto simp: in_ready_def)
  have na: "\<not> in_ready s a" "a \<notin> set (ts_list s @ ps)" using inv by (auto simp: tq_inv_def lists_ok_def)
  have "lists_ok ps s'" using inv s' d ir na k by (auto simp: tq_inv_def lists_ok_def in_ready_def)
  moreover have "status_ok ps s'" using inv s' d ir by (auto simp: tq_inv_def status_ok_def same_tasks_def)
  moreover have "counts_ok ps s'" using inv rc s' by (simp add: tq_inv_def counts_ok_def add.commute)
  ultimately show ?thesis using inv s'(1) by (simp add: tq_inv_def same_tasks_def)
qed

text \<open>Marking a task as queued, and as complete.\<close>

lemma mark_inv:
  assumes inv: "tq_inv ps s" and a: "\<not> queued s a" "a \<noteq> NULL"
    and room: "length (ts_list s) + rcount s + length ps + 1 < 4294967296"
    and f: "tk_status (f (ts_obj s a)) = SERVICE_STATUS_QUEUED" "tk_callback (f (ts_obj s a)) \<noteq> NULL"
  shows "tq_inv (a # ps) (upd_task a f s)"
proof -
  let ?s = "upd_task a f s"
  have q: "queued ?s b \<longleftrightarrow> queued s b \<or> b = a" "in_ready ?s b = in_ready s b" for b
    using f by (auto simp: queued_def in_ready_def upd_task_def svc_tasks_status_def status_codes)
  have na: "a \<notin> set (ts_list s @ ps)" "\<not> in_ready s a"
    using inv a by (auto simp: tq_inv_def status_ok_def)
  have tq: "task_queue ?s b = task_queue s b" if "b \<noteq> a" for b
    using that by (simp add: task_queue_def SVC_PRIO2QUEUE_def upd_task_def)
  have "ts_ready ?s = ts_ready s" "ts_list ?s = ts_list s" "rcount ?s = rcount s" "ts_failed ?s = ts_failed s"
      "ts_pool_count ?s = ts_pool_count s" "ts_list_count ?s = ts_list_count s" "ts_ready_count ?s = ts_ready_count s"
    by (simp_all add: upd_task_def rcount_def)
  note eqs = this
  have "lists_ok (a # ps) ?s"
    using inv na tq eqs q by (auto simp: tq_inv_def lists_ok_def in_ready_def) metis
  moreover have "status_ok (a # ps) ?s"
    using inv na q eqs f a by (auto simp: tq_inv_def status_ok_def upd_task_def)
  moreover have "counts_ok (a # ps) ?s" using inv eqs room by (simp add: tq_inv_def counts_ok_def)
  ultimately show ?thesis using inv eqs by (simp add: tq_inv_def)
qed

lemma drop_inv:
  assumes inv: "tq_inv (a # ps) s" and f: "svc_tasks_status (f (ts_obj s a)) = SERVICE_STATUS_COMPLETE"
  shows "tq_inv ps (upd_task a f s)"
proof -
  let ?s = "upd_task a f s"
  have q: "queued ?s b \<longleftrightarrow> queued s b \<and> b \<noteq> a" "in_ready ?s b = in_ready s b" for b
    using f by (auto simp: queued_def in_ready_def upd_task_def status_codes)
  have na: "a \<notin> set (ts_list s @ ps)" "\<not> in_ready s a"
    using inv by (auto simp: tq_inv_def lists_ok_def)
  have tq: "task_queue ?s b = task_queue s b" if "b \<noteq> a" for b
    using that by (simp add: task_queue_def SVC_PRIO2QUEUE_def upd_task_def)
  have "ts_ready ?s = ts_ready s" "ts_list ?s = ts_list s" "rcount ?s = rcount s" "ts_failed ?s = ts_failed s"
      "ts_pool_count ?s = ts_pool_count s" "ts_list_count ?s = ts_list_count s" "ts_ready_count ?s = ts_ready_count s"
    by (simp_all add: upd_task_def rcount_def)
  note eqs = this
  have "lists_ok ps ?s"
    using inv na tq eqs q by (auto simp: tq_inv_def lists_ok_def in_ready_def) metis
  moreover have "status_ok ps ?s"
    using inv na q eqs f by (auto simp: tq_inv_def status_ok_def upd_task_def)
  moreover have "counts_ok ps ?s" using inv eqs by (simp add: tq_inv_def counts_ok_def)
  ultimately show ?thesis using inv eqs by (simp add: tq_inv_def)
qed

section \<open>The operations keep the invariant\<close>

lemma task_to_ready_inv:
  assumes "tq_inv (a # ps) s"
  shows "tq_inv ps (task_to_ready a s)"
proof -
  let ?q = "task_queue s a"
  let ?s = "s\<lparr>ts_ready := (ts_ready s)(?q := ll_add_tail (ts_ready s ?q) a), ts_ready_count := ts_ready_count s + 1\<rparr>"
  have "queued s a" using assms by (simp add: tq_inv_def status_ok_def)
  then have ok: "?q < unat (ts_pool_count s) \<and> tk_callback (ts_obj s a) \<noteq> NULL"
    using assms task_queue_less [OF assms, of a] by (simp add: tq_inv_def status_ok_def)
  have "tq_inv ps ?s"
    by (rule ready_insert_inv [OF assms refl]) (simp_all add: same_tasks_def list_ops)
  then show ?thesis
    using ok by (simp add: task_to_ready_def Let_def dbg_assert_def task_queue_def [symmetric])
qed

lemma task_to_ready_list [simp]: "ts_list (task_to_ready a s) = ts_list s" "ts_obj (task_to_ready a s) = ts_obj s"
    "ts_list_count (task_to_ready a s) = ts_list_count s" "ts_pool_count (task_to_ready a s) = ts_pool_count s"
  by (simp_all add: task_to_ready_def dbg_assert_def log_act_def Let_def)

lemma expire_loop_inv: "tq_inv ps s \<Longrightarrow> ts_list s = l \<Longrightarrow> tq_inv ps (expire_loop clk l s)"
proof (induction clk l s rule: expire_loop.induct)
  case (2 clk a rest s)
  let ?s = "s\<lparr>ts_list_count := ts_list_count s - 1, ts_list := ll_remove_head (ts_list s)\<rparr>"
  have r: "tq_inv (a # ps) ?s \<and> ts_list_count s \<noteq> 0"
    by (rule list_remove_inv [OF 2(2)]) (use 2(3) in \<open>simp_all add: same_tasks_def list_ops\<close>)
  then have "tq_inv ps (task_to_ready a ?s)" using task_to_ready_inv by blast
  moreover have "ts_list (task_to_ready a ?s) = rest" using 2(3) by (simp add: list_ops)
  ultimately show ?case using 2(1) [OF refl refl refl refl] r by (simp add: dbg_assert_def Let_def)
qed simp

lemma task_event_inv: "tq_inv ps s \<Longrightarrow> tq_inv ps (svc_tasks_task_event clk s)"
  by (simp add: svc_tasks_task_event_def Let_def expire_loop_inv)

lemma svc_tasks_add_inv:
  assumes "tq_inv [] s" "a \<noteq> NULL" "cb \<noteq> NULL" "length (ts_list s) + rcount s + 1 < 4294967296"
  shows "tq_inv [] (snd (svc_tasks_add s a cb parm prio))"
  using assms by (auto simp: svc_tasks_add_def queued_def intro!: task_to_ready_inv mark_inv)

lemma find_previous_spec:
  "find_previous obj task p l = (ok, q) \<Longrightarrow> \<exists>xs ys. l = xs @ ys \<and> q = (if xs = [] then p else last xs) \<and>
     (\<forall>x \<in> set xs. tick_diff (tk_ticks (obj task)) (tk_ticks (obj x)) \<ge> 0) \<and>
     (ys \<noteq> [] \<longrightarrow> tick_diff (tk_ticks (obj task)) (tk_ticks (obj (hd ys))) < 0) \<and>
     (task \<notin> set l \<longrightarrow> ok)"
proof (induction obj task p l arbitrary: ok q rule: find_previous.induct)
  case (2 obj task p x rest)
  show ?case
  proof (cases "tick_diff (tk_ticks (obj task)) (tk_ticks (obj x)) \<ge> 0")
    case True
    obtain ok' where f: "find_previous obj task x rest = (ok', q)" "ok = (x \<noteq> task \<and> ok')"
      using 2(2) True by (auto split: prod.splits)
    obtain xs ys where "rest = xs @ ys" "q = (if xs = [] then x else last xs)"
        "\<forall>x \<in> set xs. tick_diff (tk_ticks (obj task)) (tk_ticks (obj x)) \<ge> 0"
        "ys \<noteq> [] \<longrightarrow> tick_diff (tk_ticks (obj task)) (tk_ticks (obj (hd ys))) < 0" "task \<notin> set rest \<longrightarrow> ok'"
      using 2(1) [OF True f(1)] by blast
    then show ?thesis using True f(2) by (intro exI [of _ "x # xs"] exI [of _ ys]) auto
  next
    case False
    then show ?thesis using 2(2) by (intro exI [of _ "[]"] exI [of _ "x # rest"]) auto
  qed
qed simp

text \<open>Where \<open>svc_tasks_schedule\<close> puts a task.\<close>

definition inserted :: "addr list \<Rightarrow> addr \<Rightarrow> addr \<Rightarrow> addr list" where
  "inserted l previous task = (if previous = NULL then ll_add_head l task else ll_add_next l previous task)"

lemma insert_split:
  assumes inv: "tq_inv (a # ps) s" and f: "find_previous (ts_obj s) a NULL (ts_list s) = (ok, p)"
  shows "ok \<and> (\<exists>xs ys. ts_list s = xs @ ys \<and> inserted (ts_list s) p a = xs @ a # ys \<and>
    (\<forall>x \<in> set xs. tick_diff (tk_ticks (ts_obj s a)) (tk_ticks (ts_obj s x)) \<ge> 0) \<and>
    (ys \<noteq> [] \<longrightarrow> tick_diff (tk_ticks (ts_obj s a)) (tk_ticks (ts_obj s (hd ys))) < 0))"
proof -
  have l: "distinct (ts_list s)" "a \<notin> set (ts_list s)" "NULL \<notin> set (ts_list s)"
    using inv by (auto simp: tq_inv_def lists_ok_def status_ok_def)
  obtain xs ys where xs: "ts_list s = xs @ ys" "p = (if xs = [] then NULL else last xs)"
      "\<forall>x \<in> set xs. tick_diff (tk_ticks (ts_obj s a)) (tk_ticks (ts_obj s x)) \<ge> 0"
      "ys \<noteq> [] \<longrightarrow> tick_diff (tk_ticks (ts_obj s a)) (tk_ticks (ts_obj s (hd ys))) < 0" "a \<notin> set (ts_list s) \<longrightarrow> ok"
    using find_previous_spec [OF f] by blast
  have "inserted (ts_list s) p a = xs @ a # ys"
  proof (cases xs rule: rev_cases)
    case Nil
    then show ?thesis using xs by (simp add: inserted_def list_ops)
  next
    case (snoc us u)
    then have "u \<noteq> NULL" "u \<notin> set us" using l xs(1) by auto
    then show ?thesis using snoc xs(1,2) by (simp add: inserted_def ll_add_next_split)
  qed
  then show ?thesis using xs l by blast
qed

text \<open>The task as \<open>svc_tasks_schedule\<close> marks it, and what it does with a delay.\<close>

definition marked :: "tasks_state \<Rightarrow> addr \<Rightarrow> addr \<Rightarrow> u64 \<Rightarrow> u16 \<Rightarrow> u32 \<Rightarrow> tasks_state" where
  "marked s a cb parm prio ticks = upd_task a (\<lambda>x. x\<lparr>tk_callback := cb, tk_parm := parm, tk_status := SERVICE_STATUS_QUEUED,
     tk_prio := ucast prio, tk_ticks := ticks\<rparr>) (if waitable (ts_obj s a) then log_act (Wait_clear (ts_event s a)) s else s)"

definition clipped :: "u32 \<Rightarrow> u32" where
  "clipped ticks = (if ticks \<ge> 0xFFFFFFFF div 2 then 0xFFFFFFFF div 2 - 1 else ticks)"

lemma marked_fields [simp]: "ts_list (marked s a cb parm prio t) = ts_list s"
    "ts_list_count (marked s a cb parm prio t) = ts_list_count s"
    "tk_ticks (ts_obj (marked s a cb parm prio t) x) = (if x = a then t else tk_ticks (ts_obj s x))"
  by (simp_all add: marked_def upd_task_def log_act_def)

lemma marked_inv:
  assumes "tq_inv [] s" "a \<noteq> NULL" "cb \<noteq> NULL" "\<not> queued s a" "length (ts_list s) + rcount s + 1 < 4294967296"
  shows "tq_inv [a] (marked s a cb parm prio t)"
proof -
  let ?s = "if waitable (ts_obj s a) then log_act (Wait_clear (ts_event s a)) s else s"
  have "tq_inv [] ?s" using assms by simp
  moreover have "ts_list ?s = ts_list s" "rcount ?s = rcount s" "queued ?s a = queued s a"
    by (simp_all add: log_act_def rcount_def queued_def)
  ultimately show ?thesis unfolding marked_def using assms by (intro mark_inv) simp_all
qed

lemma schedule_delayed:
  assumes inv: "tq_inv [] s" and a: "a \<noteq> NULL" "cb \<noteq> NULL" "\<not> queued s a" "length (ts_list s) + rcount s + 1 < 4294967296"
    and t: "clipped ticks \<noteq> 0" and m: "m = marked s a cb parm prio (clipped ticks + clk 0)"
  obtains xs ys m' where "ts_list s = xs @ ys"
    "\<forall>x \<in> set xs. tick_diff (tk_ticks (ts_obj m a)) (tk_ticks (ts_obj m x)) \<ge> 0"
    "ys \<noteq> [] \<longrightarrow> tick_diff (tk_ticks (ts_obj m a)) (tk_ticks (ts_obj m (hd ys))) < 0"
    "ts_list m' = xs @ a # ys" "tq_inv [] m'"
    "svc_tasks_schedule clk tset s a cb parm prio ticks =
      (EOK, if xs = [] then log_act (Timer_set (clipped ticks)) m'
            else if \<not> tset then svc_tasks_task_event (\<lambda>n. clk (Suc n)) m' else m')"
proof -
  have im: "tq_inv [a] m" unfolding m by (rule marked_inv [OF inv a])
  have lt: "clipped ticks < 0xFFFFFFFF div 2" by (simp add: clipped_def not_le)
  obtain ok p where f: "find_previous (ts_obj m) a NULL (ts_list m) = (ok, p)" by force
  obtain xs ys where xs: "ok" "ts_list m = xs @ ys" "inserted (ts_list m) p a = xs @ a # ys"
      "\<forall>x \<in> set xs. tick_diff (tk_ticks (ts_obj m a)) (tk_ticks (ts_obj m x)) \<ge> 0"
      "ys \<noteq> [] \<longrightarrow> tick_diff (tk_ticks (ts_obj m a)) (tk_ticks (ts_obj m (hd ys))) < 0"
    using insert_split [OF im f] by blast
  have lm: "distinct (ts_list m)" "a \<notin> set (ts_list m)" "NULL \<notin> set (ts_list m)"
    using im by (auto simp: tq_inv_def lists_ok_def status_ok_def)
  have p: "p = NULL \<longleftrightarrow> xs = []"
  proof -
    have "xs = a # ys \<or> p \<noteq> NULL \<or> xs = []"
      using xs(2,3) lm by (cases xs) (auto simp: inserted_def list_ops)
    moreover have "xs \<noteq> []" if nn: "p \<noteq> NULL"
    proof
      assume "xs = []"
      then show False using xs(2,3) nn lm(2) by (cases ys) (auto simp: inserted_def split: if_splits)
    qed
    ultimately show ?thesis using xs(2) lm(2) by auto
  qed
  define m' where "m' = m\<lparr>ts_list := xs @ a # ys, ts_list_count := ts_list_count m + 1\<rparr>"
  have "tq_inv [] m'"
    unfolding m'_def using xs lm by (intro list_insert_inv [OF im]) (auto simp: same_tasks_def)
  moreover have "svc_tasks_schedule clk tset s a cb parm prio ticks =
      (EOK, if p = NULL then log_act (Timer_set (clipped ticks)) m'
            else if \<not> tset then svc_tasks_task_event (\<lambda>n. clk (Suc n)) m' else m')"
  proof -
    define s1 where "s1 = (if waitable (ts_obj s a) then log_act (Wait_clear (ts_event s a)) s else s)"
    have o1: "ts_obj s1 = ts_obj s" by (simp add: s1_def log_act_def)
    note op = svc_tasks_schedule_def [of clk tset s a cb parm prio ticks, folded clipped_def,
      unfolded Let_def dbg_assert_def if_P [OF lt], folded s1_def, folded m [unfolded marked_def, folded s1_def]]
    show ?thesis
      using a(3) t f xs(1) unfolding op m'_def xs(3) [symmetric] inserted_def by (simp add: o1 queued_def)
  qed
  moreover have "ts_list m = ts_list s" by (simp add: m)
  ultimately show ?thesis using xs p by (intro that [of xs ys m']) (simp_all add: m'_def)
qed

lemma svc_tasks_schedule_inv:
  assumes inv: "tq_inv [] s" and a: "a \<noteq> NULL" "cb \<noteq> NULL" "length (ts_list s) + rcount s + 1 < 4294967296"
  shows "tq_inv [] (snd (svc_tasks_schedule clk tset s a cb parm prio ticks))"
proof -
  define s1 where "s1 = (if waitable (ts_obj s a) then log_act (Wait_clear (ts_event s a)) s else s)"
  have i1: "tq_inv [] s1" using inv by (simp add: s1_def)
  have f1: "ts_list s1 = ts_list s" "rcount s1 = rcount s" "ts_obj s1 = ts_obj s"
    by (simp_all add: s1_def log_act_def rcount_def)
  have lt: "clipped ticks < 0xFFFFFFFF div 2" by (simp add: clipped_def not_le)
  note op = svc_tasks_schedule_def [of clk tset s a cb parm prio ticks, folded clipped_def,
      unfolded Let_def dbg_assert_def if_P [OF lt], folded s1_def]
  consider "clipped ticks = 0" | (busy) "clipped ticks \<noteq> 0" "queued s a" | (go) "clipped ticks \<noteq> 0" "\<not> queued s a" by blast
  then show ?thesis
  proof cases
    case 1
    then show ?thesis using svc_tasks_add_inv [OF i1 a(1,2)] a(3) f1 by (simp add: op)
  next
    case busy
    then show ?thesis using i1 f1 by (simp add: op queued_def)
  next
    case go
    then show ?thesis
    proof (rule_tac schedule_delayed [where clk = clk and tset = tset, OF inv a(1,2) go(2) a(3) go(1) refl])
      fix xs m' assume m': "tq_inv [] m'" "svc_tasks_schedule clk tset s a cb parm prio ticks =
        (EOK, if xs = [] then log_act (Timer_set (clipped ticks)) m'
            else if \<not> tset then svc_tasks_task_event (\<lambda>n. clk (Suc n)) m' else m')"
      then show ?thesis using task_event_inv [OF m'(1)] by simp
    qed
  qed
qed

lemma service_task_eq:
  assumes inv: "tq_inv [] s" and op: "svc_tasks_service_task now k s = Some (a, s')"
  shows "\<exists>r. ts_ready s k = a # r \<and>
    s' = log_act (Task_call (tk_callback (ts_obj s a)) a (tk_parm (ts_obj s a)) SERVICE_CALLBACK_REASON_RUN)
      (log_act (Wdt_id k (tk_callback (ts_obj s a)))
        ((upd_task a (\<lambda>t. t\<lparr>tk_status := SERVICE_STATUS_ACTIVE_BIT\<rparr>)
            (s\<lparr>ts_ready := (ts_ready s)(k := r), ts_ready_count := ts_ready_count s - 1\<rparr>))
          \<lparr>ts_active_task := (ts_active_task s)(k := a), ts_active_timer := (ts_active_timer s)(k := now)\<rparr>)) \<and>
    tq_inv [a] (s\<lparr>ts_ready := (ts_ready s)(k := r), ts_ready_count := ts_ready_count s - 1\<rparr>)"
proof -
  obtain r where r: "ts_ready s k = a # r"
    using op by (cases "ts_ready s k") (auto simp: svc_tasks_service_task_def Let_def split: if_splits)
  let ?s = "s\<lparr>ts_ready := (ts_ready s)(k := r), ts_ready_count := ts_ready_count s - 1\<rparr>"
  have i: "tq_inv [a] ?s \<and> ts_ready_count s \<noteq> 0 \<and> (ts_ready_count ?s = 0 \<longrightarrow> ts_ready ?s k = [])"
    by (rule ready_remove_inv [OF inv, of a k]) (simp_all add: r same_tasks_def)
  have "in_ready s a" using r by (auto simp: in_ready_def intro: exI [of _ k])
  then have "a \<noteq> NULL" using inv by (simp add: tq_inv_def status_ok_def)
  then have "svc_tasks_service_task now k s = Some (a,
      log_act (Task_call (tk_callback (ts_obj s a)) a (tk_parm (ts_obj s a)) SERVICE_CALLBACK_REASON_RUN)
        (log_act (Wdt_id k (tk_callback (ts_obj s a)))
          ((upd_task a (\<lambda>t. t\<lparr>tk_status := SERVICE_STATUS_ACTIVE_BIT\<rparr>) ?s)
            \<lparr>ts_active_task := (ts_active_task s)(k := a), ts_active_timer := (ts_active_timer s)(k := now)\<rparr>)))"
    using i by (cases "ts_ready_count s = 1") (simp_all add: svc_tasks_service_task_def Let_def r list_ops upd_task_def)
  then show ?thesis using op r i by simp
qed

lemma svc_tasks_service_task_inv:
  assumes inv: "tq_inv [] s" and op: "svc_tasks_service_task now k s = Some (a, s')"
  shows "tq_inv [] s'"
proof -
  let ?f = "\<lambda>t. t\<lparr>tk_status := SERVICE_STATUS_ACTIVE_BIT\<rparr>"
  obtain r where s': "s' = log_act (Task_call (tk_callback (ts_obj s a)) a (tk_parm (ts_obj s a)) SERVICE_CALLBACK_REASON_RUN)
      (log_act (Wdt_id k (tk_callback (ts_obj s a)))
        ((upd_task a ?f (s\<lparr>ts_ready := (ts_ready s)(k := r), ts_ready_count := ts_ready_count s - 1\<rparr>))
          \<lparr>ts_active_task := (ts_active_task s)(k := a), ts_active_timer := (ts_active_timer s)(k := now)\<rparr>))"
    and i: "tq_inv [a] (s\<lparr>ts_ready := (ts_ready s)(k := r), ts_ready_count := ts_ready_count s - 1\<rparr>)"
    using service_task_eq [OF inv op] by blast
  have "tq_inv [] (upd_task a ?f (s\<lparr>ts_ready := (ts_ready s)(k := r), ts_ready_count := ts_ready_count s - 1\<rparr>))"
    by (rule drop_inv [OF i]) (simp add: svc_tasks_status_def status_codes)
  then show ?thesis unfolding s' log_act_inv
    by (rule same_queues_inv [rotated]) (simp add: same_queues_def)
qed

lemma cancel_call_inv: "tq_inv (a # ps) s \<Longrightarrow> tq_inv ps (cancel_call parm a s)"
  using drop_inv [of a ps s "\<lambda>t. t\<lparr>tk_status := SERVICE_STATUS_COMPLETE\<rparr>"]
  by (simp add: cancel_call_def Let_def svc_tasks_status_def status_codes)

lemma status_cases:
  assumes "tq_inv ps s"
  shows "svc_tasks_status (ts_obj s a) = SERVICE_STATUS_COMPLETE \<longleftrightarrow> \<not> queued s a"
proof -
  have "\<not> queued s a \<longrightarrow> svc_tasks_status (ts_obj s a) = SERVICE_STATUS_COMPLETE"
    using assms by (simp add: tq_inv_def status_ok_def)
  moreover have "SERVICE_STATUS_QUEUED \<noteq> SERVICE_STATUS_COMPLETE" by (simp add: status_codes)
  ultimately show ?thesis by (auto simp: queued_def)
qed

text \<open>The calls of the callbacks so far.\<close>

definition task_calls :: "tasks_state \<Rightarrow> task_act list" where
  "task_calls s = filter (\<lambda>a. case a of Task_call _ _ _ _ \<Rightarrow> True | _ \<Rightarrow> False) (ts_trace s)"

lemma task_to_ready_calls [simp]: "task_calls (task_to_ready a s) = task_calls s"
  by (simp add: task_calls_def task_to_ready_def Let_def dbg_assert_def log_act_def)

lemma log_act_calls [simp]: "task_calls (log_act (Timer_set x) s) = task_calls s" "ts_obj (log_act act s) = ts_obj s"
  by (simp_all add: task_calls_def log_act_def)

lemma expire_loop_same: "ts_obj (expire_loop clk l t) = ts_obj t \<and> task_calls (expire_loop clk l t) = task_calls t"
proof (induction clk l t rule: expire_loop.induct)
  case (2 clk a rest s)
  have c: "task_calls (t\<lparr>ts_list_count := c, ts_list := l\<rparr>) = task_calls t" "task_calls (dbg_assert b t) = task_calls t"
      "ts_obj (dbg_assert b t) = ts_obj t" for t c l b
    by (simp_all add: task_calls_def dbg_assert_def)
  show ?case using 2 by (simp add: Let_def c)
qed simp

lemma task_event_same: "ts_obj (svc_tasks_task_event clk s) = ts_obj s \<and> task_calls (svc_tasks_task_event clk s) = task_calls s"
  by (simp add: svc_tasks_task_event_def Let_def expire_loop_same)

lemma cancel_call_effect:
  "task_calls (cancel_call parm a s) = task_calls s @ [Task_call (tk_callback (ts_obj s a)) a (ucast parm) SERVICE_CALLBACK_REASON_CANCELED]"
  "\<not> queued (cancel_call parm a s) a"
  by (simp_all add: cancel_call_def task_calls_def log_act_def upd_task_def queued_def svc_tasks_status_def status_codes Let_def)

text \<open>What cancelling does to a delayed, a ready, and any other task.\<close>

lemma cancel_delayed:
  assumes inv: "tq_inv [] s" and a: "a \<in> set (ts_list s)"
  shows "\<exists>s1. svc_tasks_cancel clk s a = (EOK, cancel_call (ucast (tk_parm (ts_obj s a))) a s1) \<and> tq_inv [a] s1 \<and>
    ts_obj s1 = ts_obj s \<and> task_calls s1 = task_calls s"
proof -
  let ?s = "s\<lparr>ts_list := ll_remove (ts_list s) a, ts_list_count := ts_list_count s - 1\<rparr>"
  have i: "tq_inv [a] ?s \<and> ts_list_count s \<noteq> 0"
    by (rule list_remove_inv [OF inv a]) (simp_all add: same_tasks_def list_ops)
  define s1 where "s1 = (if ll_head (ts_list s) = a then svc_tasks_task_event clk ?s else ?s)"
  have "tq_inv [a] s1" using i task_event_inv by (simp add: s1_def)
  moreover have "ts_obj s1 = ts_obj s \<and> task_calls s1 = task_calls s"
    using task_event_same [of clk ?s] by (simp add: s1_def) (simp add: task_calls_def)
  moreover have "svc_tasks_cancel clk s a = (EOK, cancel_call (ucast (tk_parm (ts_obj s a))) a s1)"
    using a i by (simp add: svc_tasks_cancel_def Let_def dbg_assert_def s1_def)
  ultimately show ?thesis by blast
qed

lemma cancel_ready:
  assumes inv: "tq_inv [] s" and a: "a \<notin> set (ts_list s)" "queued s a"
  shows "\<exists>s1. svc_tasks_cancel clk s a =
      (EOK, svc_tasks_task_event clk (cancel_call (ucast (tk_parm (ts_obj s a))) a s1)) \<and> tq_inv [a] s1 \<and> ts_obj s1 = ts_obj s \<and>
      task_calls s1 = task_calls s"
proof -
  let ?k = "task_queue s a"
  let ?s = "s\<lparr>ts_ready := (ts_ready s)(?k := ll_remove (ts_ready s ?k) a), ts_ready_count := ts_ready_count s - 1\<rparr>"
  have "in_ready s a" using inv a by (simp add: tq_inv_def status_ok_def)
  then have r: "a \<in> set (ts_ready s ?k)" using inv by (auto simp: in_ready_def tq_inv_def lists_ok_def)
  have i: "tq_inv [a] ?s \<and> ts_ready_count s \<noteq> 0 \<and> (ts_ready_count ?s = 0 \<longrightarrow> ts_ready ?s ?k = [])"
    by (rule ready_remove_inv [OF inv r]) (simp_all add: same_tasks_def list_ops)
  have "svc_tasks_cancel clk s a = (EOK, svc_tasks_task_event clk (cancel_call (ucast (tk_parm (ts_obj s a))) a ?s))"
    using a r i status_cases [OF inv, of a]
    by (auto simp: svc_tasks_cancel_def task_ready_cancel_def Let_def dbg_assert_def task_queue_def)
  moreover have "task_calls ?s = task_calls s" by (simp add: task_calls_def)
  ultimately show ?thesis using i by (intro exI [of _ ?s]) simp
qed

lemma cancel_idle:
  assumes inv: "tq_inv [] s" and a: "\<not> queued s a"
  shows "svc_tasks_cancel clk s a = (if svc_tasks_is_active (ts_obj s a) then E_BUSY else EOK, s)"
proof -
  have "a \<notin> set (ts_list s)" using inv a by (auto simp: tq_inv_def status_ok_def)
  then show ?thesis using a status_cases [OF inv, of a] by (simp add: svc_tasks_cancel_def)
qed

lemma svc_tasks_cancel_inv:
  assumes inv: "tq_inv [] s"
  shows "tq_inv [] (snd (svc_tasks_cancel clk s a))"
proof -
  consider "a \<in> set (ts_list s)" | "a \<notin> set (ts_list s)" "queued s a" | "\<not> queued s a" by blast
  then show ?thesis
  proof cases
    case 1
    from cancel_delayed [OF inv this, of clk] show ?thesis using cancel_call_inv by auto
  next
    case 2
    from cancel_ready [OF inv this, of clk] show ?thesis using cancel_call_inv task_event_inv by auto
  next
    case 3
    then show ?thesis using inv cancel_idle [OF inv 3] by simp
  qed
qed

lemma svc_tasks_complete_inv: "tq_inv [] s \<Longrightarrow> tq_inv [] (svc_tasks_complete a s)"
proof -
  assume inv: "tq_inv [] s"
  have st: "(st AND NOT SERVICE_STATUS_ACTIVE_BIT) AND SERVICE_STATUS_MASK = st AND SERVICE_STATUS_MASK" for st
    by (simp add: status_codes and.assoc)
  have "same_queues s (upd_task a (\<lambda>t. t\<lparr>tk_status := tk_status t AND NOT SERVICE_STATUS_ACTIVE_BIT\<rparr>) s)"
    by (simp add: same_queues_def upd_task_def svc_tasks_status_def st)
  then show ?thesis using same_queues_inv inv by (simp add: svc_tasks_complete_def Let_def)
qed

lemma quiet_steps:
  "same_queues s (svc_tasks_set_flags a fl s)"
  "same_queues s (service_task_done k s)"
  "same_queues s (svc_tasks_deinit_waitable_task a s)"
  "\<not> queued s a \<Longrightarrow> svc_tasks_status (ts_obj s a) = SERVICE_STATUS_COMPLETE \<Longrightarrow> same_queues s (svc_tasks_init_task a s)"
  by (simp_all add: same_queues_def svc_tasks_set_flags_def upd_task_def service_task_done_def log_act_def
      svc_tasks_deinit_waitable_task_def svc_tasks_init_task_def svc_tasks_status_def status_codes)

lemma same_queues_trans: "same_queues s t \<Longrightarrow> same_queues t u \<Longrightarrow> same_queues s u"
  by (simp add: same_queues_def queued_def)

lemma same_queues_log: "same_queues s (log_act a t) = same_queues s t"
  by (simp add: same_queues_def log_act_def)

lemma svc_tasks_stop_same: "same_queues s (snd (svc_tasks_stop join timeout s))"
proof -
  have "same_queues s (fold (\<lambda>i s. if ts_threads s i \<noteq> 0 then log_act (Notify i) s else s) is t) = same_queues s t" for "is" t
    by (induction "is" arbitrary: t) (simp_all add: same_queues_log)
  then show ?thesis by (simp add: svc_tasks_stop_def Let_def) (simp add: same_queues_def log_act_def)
qed

lemma start_loop_same: "same_queues s t \<Longrightarrow> same_queues s (snd (start_loop create started is t))"
proof (induction create started "is" t rule: start_loop.induct)
  case (2 create started i "is" t)
  have "same_queues s ((log_act (Queue_clear i) t)\<lparr>ts_threads := (ts_threads (log_act (Queue_clear i) t))(i := snd (create i))\<rparr>)"
    using 2(2) by (simp add: same_queues_def log_act_def)
  then show ?case using 2(1) by (simp add: Let_def)
qed simp

lemma svc_tasks_start_same: "same_queues s (snd (svc_tasks_start create started join s))"
proof -
  have "same_queues s (log_act Register (s\<lparr>ts_run := True\<rparr>))" by (simp add: same_queues_def log_act_def)
  note loop = start_loop_same [OF this]
  define t where "t = log_act Register (s\<lparr>ts_run := True\<rparr>)"
  obtain st u where e: "start_loop create started [0..<unat (ts_pool_count t)] t = (st, u)" by force
  have "same_queues s u" using loop [of create started "[0..<unat (ts_pool_count t)]"] e by (simp add: t_def)
  moreover from this have "same_queues s (snd (svc_tasks_stop join 1000 u))"
    using svc_tasks_stop_same same_queues_trans by blast
  ultimately show ?thesis by (simp add: svc_tasks_start_def Let_def t_def [symmetric] e)
qed

section \<open>Reachable states\<close>

text \<open>
  The calls of the interface, the timer, and the steps of the threads. A task is initialised when it is not queued;
  tasks and callbacks are not NULL; the bound on the number of queued tasks stands for the size of the memory.
\<close>

inductive tasks_reach :: "tasks_state \<Rightarrow> bool" where
  init: "ts_list s = [] \<Longrightarrow> ts_list_count s = 0 \<Longrightarrow> (\<forall>k. ts_ready s k = []) \<Longrightarrow> ts_ready_count s = 0 \<Longrightarrow>
    \<not> ts_failed s \<Longrightarrow> (\<forall>a. svc_tasks_status (ts_obj s a) = SERVICE_STATUS_COMPLETE) \<Longrightarrow>
    ts_pool_count s = of_nat SVC_TASK_CFG_MAX \<Longrightarrow> svc_tasks_init pool s = Some (r, s') \<Longrightarrow> ts_pool_count s' \<noteq> 0 \<Longrightarrow>
    tasks_reach s'"
| start: "tasks_reach s \<Longrightarrow> tasks_reach (snd (svc_tasks_start create started join s))"
| stop: "tasks_reach s \<Longrightarrow> tasks_reach (snd (svc_tasks_stop join timeout s))"
| init_task: "tasks_reach s \<Longrightarrow> \<not> queued s a \<Longrightarrow> tasks_reach (svc_tasks_init_task a s)"
| init_waitable: "tasks_reach s \<Longrightarrow> \<not> queued s a \<Longrightarrow> tasks_reach (snd (svc_tasks_init_waitable_task os a s))"
| deinit_waitable: "tasks_reach s \<Longrightarrow> tasks_reach (svc_tasks_deinit_waitable_task a s)"
| set_flags: "tasks_reach s \<Longrightarrow> tasks_reach (svc_tasks_set_flags a fl s)"
| add: "tasks_reach s \<Longrightarrow> a \<noteq> NULL \<Longrightarrow> cb \<noteq> NULL \<Longrightarrow> length (ts_list s) + rcount s + 1 < 4294967296 \<Longrightarrow>
    tasks_reach (snd (svc_tasks_add s a cb parm prio))"
| schedule: "tasks_reach s \<Longrightarrow> a \<noteq> NULL \<Longrightarrow> cb \<noteq> NULL \<Longrightarrow> length (ts_list s) + rcount s + 1 < 4294967296 \<Longrightarrow>
    tasks_reach (snd (svc_tasks_schedule clk tset s a cb parm prio ticks))"
| timer: "tasks_reach s \<Longrightarrow> tasks_reach (svc_tasks_virtual_timer clk irq s)"
| event: "tasks_reach s \<Longrightarrow> tasks_reach (svc_tasks_task_event clk s)"
| runs: "tasks_reach s \<Longrightarrow> svc_tasks_service_task now k s = Some (a, s') \<Longrightarrow> tasks_reach s'"
| done_step: "tasks_reach s \<Longrightarrow> tasks_reach (service_task_done k s)"
| complete: "tasks_reach s \<Longrightarrow> tasks_reach (svc_tasks_complete a s)"
| cancel: "tasks_reach s \<Longrightarrow> tasks_reach (snd (svc_tasks_cancel clk s a))"

lemma pool_loop_bound: "pool_loop ps n = Some m \<Longrightarrow> unat n + length ps < 4294967296 \<Longrightarrow> unat m < unat n + length ps"
proof (induction ps n rule: pool_loop.induct)
  case (2 p ps n)
  then show ?case using unat_u32_add [of n 1] by (auto split: if_splits)
qed simp

lemma tasks_init_inv:
  assumes "ts_list s = []" "ts_list_count s = 0" "\<forall>k. ts_ready s k = []" "ts_ready_count s = 0" "\<not> ts_failed s"
    "\<forall>a. svc_tasks_status (ts_obj s a) = SERVICE_STATUS_COMPLETE" "ts_pool_count s = of_nat SVC_TASK_CFG_MAX"
    "svc_tasks_init pool s = Some (r, s')" "ts_pool_count s' \<noteq> 0"
  shows "tq_inv [] s'"
proof -
  have q: "ts_list s' = [] \<and> ts_list_count s' = 0 \<and> ts_ready s' = ts_ready s \<and> ts_ready_count s' = 0 \<and> \<not> ts_failed s' \<and>
      ts_obj s' = ts_obj s \<and> unat (ts_pool_count s') \<le> SERVICE_PRIO_QUEUE_MAX"
  proof (cases pool)
    case None
    then show ?thesis using assms by (auto simp: svc_tasks_init_def SVC_TASK_CFG_MAX_def SERVICE_PRIO_QUEUE_MAX_def)
  next
    case (Some p)
    then obtain n where n: "pool_loop (take SVC_TASK_CFG_MAX p) 0 = Some n"
        "s' = s\<lparr>ts_pool := take SVC_TASK_CFG_MAX p, ts_pool_count := n\<rparr>"
      using assms(8) by (auto simp: svc_tasks_init_def split: option.splits)
    have "unat n < length (take SVC_TASK_CFG_MAX p)"
      using pool_loop_bound [OF n(1)] by (simp add: SVC_TASK_CFG_MAX_def)
    then have "unat n \<le> 5" by (simp add: SVC_TASK_CFG_MAX_def)
    then show ?thesis using n(2) assms by (simp add: SERVICE_PRIO_QUEUE_MAX_def)
  qed
  moreover have "0 < unat (ts_pool_count s')" using assms(9) by (simp add: unat_gt_0)
  moreover have "\<not> in_ready s' a" "\<not> queued s' a" "rcount s' = 0" for a
    using q assms(3,6) by (simp_all add: in_ready_def queued_def rcount_def status_codes)
  ultimately show ?thesis using assms(3,6)
    by (simp add: tq_inv_def lists_ok_def status_ok_def counts_ok_def)
qed

lemma tasks_reach_inv: "tasks_reach s \<Longrightarrow> tq_inv [] s"
proof (induction rule: tasks_reach.induct)
  case (init s pool r s')
  then show ?case using tasks_init_inv by blast
next
  case (init_task s a)
  then show ?case using quiet_steps(4) status_cases same_queues_inv by blast
next
  case (init_waitable s a os)
  have "same_queues s (svc_tasks_init_task a s)" using init_waitable quiet_steps(4) status_cases by blast
  then have "same_queues s (snd (svc_tasks_init_waitable_task os a s))"
    by (simp add: svc_tasks_init_waitable_task_def Let_def same_queues_def upd_task_def svc_tasks_status_def queued_def)
  then show ?case using init_waitable same_queues_inv by blast
next
  case (timer s clk irq)
  then show ?case by (simp add: svc_tasks_virtual_timer_def task_event_inv)
qed (blast intro: same_queues_inv svc_tasks_start_same svc_tasks_stop_same quiet_steps svc_tasks_add_inv
    svc_tasks_schedule_inv task_event_inv svc_tasks_service_task_inv svc_tasks_complete_inv svc_tasks_cancel_inv)+

lemma queued_same [simp]: "queued (log_act act s) a = queued s a" "queued (svc_tasks_task_event clk s) a = queued s a"
    "queued (task_to_ready b s) a = queued s a"
  using task_event_same by (simp_all add: queued_def)

lemma svc_tasks_schedule_queued:
  assumes inv: "tq_inv [] s" and a: "a \<noteq> NULL" "cb \<noteq> NULL" "\<not> queued s a" "length (ts_list s) + rcount s + 1 < 4294967296"
  shows "queued (snd (svc_tasks_schedule clk tset s a cb parm prio ticks)) a"
proof (cases "clipped ticks = 0")
  case True
  have lt: "clipped ticks < 0xFFFFFFFF div 2" by (simp add: clipped_def not_le)
  note op = svc_tasks_schedule_def [of clk tset s a cb parm prio ticks, folded clipped_def,
      unfolded Let_def dbg_assert_def if_P [OF lt]]
  show ?thesis using a(3) True
    by (simp add: op svc_tasks_add_def queued_def [symmetric])
      (simp add: queued_def upd_task_def svc_tasks_status_def status_codes)
next
  case False
  then show ?thesis
  proof (rule_tac schedule_delayed [where clk = clk and tset = tset, OF inv a(1,2,3) a(4) False refl])
    fix xs ys m' assume m': "tq_inv [] m'" "ts_list m' = xs @ a # ys" "svc_tasks_schedule clk tset s a cb parm prio ticks =
      (EOK, if xs = [] then log_act (Timer_set (clipped ticks)) m'
          else if \<not> tset then svc_tasks_task_event (\<lambda>n. clk (Suc n)) m' else m')"
    then have "queued m' a" by (simp add: tq_inv_def status_ok_def)
    then show ?thesis using m'(3) by simp
  qed
qed

lemma svc_tasks_complete_queued: "queued (svc_tasks_complete b s) a = queued s a"
proof -
  have st: "(st AND NOT SERVICE_STATUS_ACTIVE_BIT) AND SERVICE_STATUS_MASK = st AND SERVICE_STATUS_MASK" for st
    by (simp add: status_codes and.assoc)
  show ?thesis by (simp add: svc_tasks_complete_def Let_def) (simp add: queued_def upd_task_def svc_tasks_status_def st)
qed

section \<open>What clients rely on\<close>

text \<open>
  The contract of the scheduler for the modules that own a task: a task that is not queued can be scheduled and then is queued, one
  that is queued is refused, completing a task does not dequeue it. \<open>room\<close> stands for the size of the memory.
\<close>

locale task_scheduler =
  fixes reach :: "'s \<Rightarrow> bool" and is_queued :: "'s \<Rightarrow> addr \<Rightarrow> bool" and room :: "'s \<Rightarrow> bool"
    and schedule :: "'s \<Rightarrow> addr \<Rightarrow> addr \<Rightarrow> u64 \<Rightarrow> u16 \<Rightarrow> u32 \<Rightarrow> int \<times> 's"
    and complete :: "addr \<Rightarrow> 's \<Rightarrow> 's"
  assumes schedule_reach: "reach s \<Longrightarrow> room s \<Longrightarrow> a \<noteq> NULL \<Longrightarrow> cb \<noteq> NULL \<Longrightarrow> reach (snd (schedule s a cb q p t))"
    and schedule_new: "reach s \<Longrightarrow> room s \<Longrightarrow> a \<noteq> NULL \<Longrightarrow> cb \<noteq> NULL \<Longrightarrow> \<not> is_queued s a \<Longrightarrow>
      fst (schedule s a cb q p t) = EOK \<and> is_queued (snd (schedule s a cb q p t)) a"
    and schedule_busy: "reach s \<Longrightarrow> is_queued s a \<Longrightarrow>
      fst (schedule s a cb q p t) = E_BUSY \<and> is_queued (snd (schedule s a cb q p t)) a"
    and complete_reach: "reach s \<Longrightarrow> reach (complete a s)"
    and complete_queued: "reach s \<Longrightarrow> is_queued (complete a s) b = is_queued s b"
begin

text \<open>A task that schedules itself again before it completes stays queued, whether or not it already was.\<close>

lemma resubmit:
  assumes "reach s" "room s" "a \<noteq> NULL" "cb \<noteq> NULL"
  shows "is_queued (complete a (snd (schedule s a cb q p t))) a \<and> reach (complete a (snd (schedule s a cb q p t)))"
  using assms schedule_reach schedule_new schedule_busy complete_reach complete_queued by metis

end

definition tasks_room :: "tasks_state \<Rightarrow> bool" where
  "tasks_room s \<longleftrightarrow> length (ts_list s) + rcount s + 1 < 4294967296"

lemma svc_tasks_schedule_now:
  assumes "\<not> queued s a" "k = SVC_PRIO2QUEUE s (ucast (ucast p :: u8))" "s' = snd (svc_tasks_schedule clk tset s a cb q p 0)"
  shows "ts_ready s' = (ts_ready s)(k := ts_ready s k @ [a])" "tk_callback (ts_obj s' a) = cb" "tk_parm (ts_obj s' a) = q"
    "task_calls s' = task_calls s" "ts_list s' = ts_list s"
proof -
  have c0: "clipped 0 = 0" by (simp add: clipped_def)
  then have lt: "clipped 0 < 0xFFFFFFFF div 2" by simp
  note op = svc_tasks_schedule_def [of clk tset s a cb q p 0, folded clipped_def,
      unfolded Let_def dbg_assert_def if_P [OF lt]]
  define t where "t = upd_task a (\<lambda>t. t\<lparr>tk_callback := cb, tk_parm := q, tk_status := SERVICE_STATUS_QUEUED, tk_prio := ucast p,
      tk_ticks := 0\<rparr>) (if waitable (ts_obj s a) then log_act (Wait_clear (ts_event s a)) s else s)"
  have "snd (svc_tasks_schedule clk tset s a cb q p 0) = task_to_ready a t"
    using assms(1) c0 by (simp add: op svc_tasks_add_def queued_def [symmetric] t_def)
  then have s': "s' = task_to_ready a t" using assms(3) by simp
  have "task_queue t a = k" "ts_ready t = ts_ready s"
    by (simp_all add: t_def upd_task_def log_act_def task_queue_def SVC_PRIO2QUEUE_def assms(2))
  then show "ts_ready s' = (ts_ready s)(k := ts_ready s k @ [a])"
    by (auto simp: s' task_to_ready_def Let_def dbg_assert_def log_act_def list_ops task_queue_def fun_eq_iff)
  show "tk_callback (ts_obj s' a) = cb" "tk_parm (ts_obj s' a) = q" "ts_list s' = ts_list s"
    by (simp_all add: s' t_def upd_task_def log_act_def)
  show "task_calls s' = task_calls s"
    by (simp add: s') (simp add: t_def upd_task_def log_act_def task_calls_def)
qed

lemma service_task_takes:
  assumes "tq_inv [] s" "ts_ready s k = a # r"
  shows "\<exists>t. svc_tasks_service_task now k s = Some (a, t) \<and> tq_inv [] t \<and>
    task_calls t = task_calls s @ [Task_call (tk_callback (ts_obj s a)) a (tk_parm (ts_obj s a)) SERVICE_CALLBACK_REASON_RUN]"
proof -
  have "in_ready s a" using assms(2) by (auto simp: in_ready_def intro: exI [of _ k])
  then have "a \<noteq> NULL" using assms(1) by (simp add: tq_inv_def status_ok_def)
  then obtain t where t: "svc_tasks_service_task now k s = Some (a, t)"
    using assms(2) by (simp add: svc_tasks_service_task_def Let_def)
  obtain r' where "t = log_act (Task_call (tk_callback (ts_obj s a)) a (tk_parm (ts_obj s a)) SERVICE_CALLBACK_REASON_RUN)
      (log_act (Wdt_id k (tk_callback (ts_obj s a)))
        ((upd_task a (\<lambda>t. t\<lparr>tk_status := SERVICE_STATUS_ACTIVE_BIT\<rparr>)
            (s\<lparr>ts_ready := (ts_ready s)(k := r'), ts_ready_count := ts_ready_count s - 1\<rparr>))
          \<lparr>ts_active_task := (ts_active_task s)(k := a), ts_active_timer := (ts_active_timer s)(k := now)\<rparr>))"
    using service_task_eq [OF assms(1) t] by blast
  then have "task_calls t = task_calls s @ [Task_call (tk_callback (ts_obj s a)) a (tk_parm (ts_obj s a)) SERVICE_CALLBACK_REASON_RUN]"
    by (simp add: log_act_def upd_task_def task_calls_def)
  then show ?thesis using t svc_tasks_service_task_inv [OF assms(1) t] by blast
qed

lemma svc_tasks_schedule_busy:
  assumes "queued s a"
  shows "fst (svc_tasks_schedule clk tset s a cb q p t) = E_BUSY \<and> queued (snd (svc_tasks_schedule clk tset s a cb q p t)) a"
proof -
  have lt: "clipped t < 0xFFFFFFFF div 2" by (simp add: clipped_def not_le)
  note op = svc_tasks_schedule_def [of clk tset s a cb q p t, folded clipped_def,
      unfolded Let_def dbg_assert_def if_P [OF lt]]
  show ?thesis using assms by (simp add: op svc_tasks_add_def queued_def [symmetric])
qed

lemma svc_tasks_schedule_new:
  assumes "tq_inv [] s" "a \<noteq> NULL" "cb \<noteq> NULL" "\<not> queued s a" "tasks_room s"
  shows "fst (svc_tasks_schedule clk tset s a cb q p t) = EOK \<and> queued (snd (svc_tasks_schedule clk tset s a cb q p t)) a"
proof (cases "clipped t = 0")
  case True
  have lt: "clipped t < 0xFFFFFFFF div 2" by (simp add: clipped_def not_le)
  note op = svc_tasks_schedule_def [of clk tset s a cb q p t, folded clipped_def,
      unfolded Let_def dbg_assert_def if_P [OF lt]]
  have "fst (svc_tasks_schedule clk tset s a cb q p t) = EOK"
    using True assms(4) by (simp add: op svc_tasks_add_def queued_def [symmetric])
  then show ?thesis using svc_tasks_schedule_queued [OF assms(1-4)] assms(5) by (simp add: tasks_room_def)
next
  case False
  then have "fst (svc_tasks_schedule clk tset s a cb q p t) = EOK"
    by (rule_tac schedule_delayed [where clk = clk and tset = tset and parm = q and prio = p, OF assms(1-4) _ False refl])
      (use assms(5) in \<open>simp_all add: tasks_room_def\<close>)
  then show ?thesis using svc_tasks_schedule_queued [OF assms(1-4)] assms(5) by (simp add: tasks_room_def)
qed

interpretation ts: task_scheduler tasks_reach queued tasks_room "svc_tasks_schedule clk tset" svc_tasks_complete for clk tset
proof
  show "tasks_reach (snd (svc_tasks_schedule clk tset s a cb q p t))"
    if "tasks_reach s" "tasks_room s" "a \<noteq> NULL" "cb \<noteq> NULL" for s a cb q p t
    using tasks_reach.schedule that by (simp add: tasks_room_def)
  show "fst (svc_tasks_schedule clk tset s a cb q p t) = EOK \<and> queued (snd (svc_tasks_schedule clk tset s a cb q p t)) a"
    if "tasks_reach s" "tasks_room s" "a \<noteq> NULL" "cb \<noteq> NULL" "\<not> queued s a" for s a cb q p t
    using svc_tasks_schedule_new [OF tasks_reach_inv] that by simp
qed (simp_all add: tasks_reach.complete svc_tasks_complete_queued svc_tasks_schedule_busy)

text \<open>A task that is not queued, scheduled without a delay into an empty queue, is the next one its thread runs.\<close>

lemma scheduled_task_runs:
  assumes "tasks_reach s" "tasks_room s" "a \<noteq> NULL" "cb \<noteq> NULL" "\<not> queued s a"
    and "k = SVC_PRIO2QUEUE s (ucast (ucast p :: u8))" "ts_ready s k = []"
  obtains t1 t where "svc_tasks_schedule clk tset s a cb q p 0 = (EOK, t1)" "svc_tasks_service_task now k t1 = Some (a, t)"
    "task_calls t = task_calls s @ [Task_call cb a q SERVICE_CALLBACK_REASON_RUN]"
proof -
  define t1 where "t1 = snd (svc_tasks_schedule clk tset s a cb q p 0)"
  have e: "svc_tasks_schedule clk tset s a cb q p 0 = (EOK, t1)"
    using ts.schedule_new [OF assms(1-5)] by (simp add: t1_def prod_eq_iff)
  have inv: "tq_inv [] t1" using ts.schedule_reach [OF assms(1-4)] tasks_reach_inv by (simp add: t1_def)
  note sched = svc_tasks_schedule_now [OF assms(5,6) t1_def]
  have "ts_ready t1 k = a # []" using sched(1) assms(7) by simp
  from service_task_takes [OF inv this, of now] obtain t where "svc_tasks_service_task now k t1 = Some (a, t)"
      "task_calls t = task_calls t1 @ [Task_call (tk_callback (ts_obj t1 a)) a (tk_parm (ts_obj t1 a)) SERVICE_CALLBACK_REASON_RUN]"
    by blast
  then show thesis using sched e by (auto intro: that)
qed

section \<open>Properties\<close>

lemma queued_union:
  assumes inv: "tq_inv [] s"
  shows "{a. queued s a} = set (ts_list s) \<union> (\<Union>k < unat (ts_pool_count s). set (ts_ready s k))"
proof -
  have "(\<exists>k. a \<in> set (ts_ready s k)) \<longleftrightarrow> (\<exists>k < unat (ts_pool_count s). a \<in> set (ts_ready s k))" for a
    using inv task_queue_less [OF inv, of a] by (auto simp: tq_inv_def lists_ok_def)
  then show ?thesis using inv by (auto simp: tq_inv_def status_ok_def in_ready_def)
qed

lemma card_queued:
  assumes inv: "tq_inv [] s"
  shows "card {a. queued s a} = length (ts_list s) + rcount s"
proof -
  have "card (\<Union>k < unat (ts_pool_count s). set (ts_ready s k)) = (\<Sum>k < unat (ts_pool_count s). card (set (ts_ready s k)))"
  proof (rule card_UN_disjoint)
    show "\<forall>i \<in> {..<unat (ts_pool_count s)}. \<forall>j \<in> {..<unat (ts_pool_count s)}. i \<noteq> j \<longrightarrow> set (ts_ready s i) \<inter> set (ts_ready s j) = {}"
    proof (intro ballI impI)
      fix i j :: nat assume "i \<noteq> j"
      have "k = task_queue s a" if "a \<in> set (ts_ready s k)" for k a
        using inv that by (simp add: tq_inv_def lists_ok_def)
      then show "set (ts_ready s i) \<inter> set (ts_ready s j) = {}" using \<open>i \<noteq> j\<close> by (metis disjoint_iff)
    qed
  qed simp_all
  also have "\<dots> = rcount s"
    unfolding rcount_def using inv by (intro sum.cong) (auto simp: tq_inv_def lists_ok_def distinct_card)
  finally have "card (\<Union>k < unat (ts_pool_count s). set (ts_ready s k)) = rcount s" .
  moreover have "set (ts_list s) \<inter> (\<Union>k < unat (ts_pool_count s). set (ts_ready s k)) = {}"
    using inv by (auto simp: tq_inv_def lists_ok_def in_ready_def)
  moreover have "card (set (ts_list s)) = length (ts_list s)"
    using inv by (simp add: tq_inv_def lists_ok_def distinct_card)
  ultimately show ?thesis unfolding queued_union [OF inv] by (subst card_Un_disjoint) auto
qed


definition demo_tasks :: tasks_state where
  "demo_tasks = \<lparr>ts_obj = (\<lambda>_. \<lparr>tk_callback = 0, tk_status = 0, tk_prio = 0, tk_flags = 0, tk_user = 0, tk_parm = 0, tk_ticks = 0\<rparr>),
     ts_list = [], ts_list_count = 0, ts_ready = (\<lambda>_. []), ts_ready_count = 0, ts_pool = [11, 10, 5, 0, 0], ts_pool_count = 3,
     ts_run = False, ts_active_task = (\<lambda>_. 0), ts_active_timer = (\<lambda>_. 0), ts_threads = (\<lambda>_. 0), ts_event = (\<lambda>_. 0),
     ts_failed = False, ts_trace = []\<rparr>"

lemma demo_tasks_reach: "tasks_reach demo_tasks"
proof (rule tasks_reach.init)
  show "svc_tasks_init (Some [11, 10, 5, 0, 0]) (demo_tasks\<lparr>ts_pool_count := of_nat SVC_TASK_CFG_MAX\<rparr>) = Some (EOK, demo_tasks)"
    by (simp add: svc_tasks_init_def demo_tasks_def SVC_TASK_CFG_MAX_def)
qed (simp_all add: demo_tasks_def svc_tasks_status_def status_codes)

definition demo_one :: tasks_state where
  "demo_one = snd (svc_tasks_schedule (\<lambda>_. 1000) True demo_tasks 7 70 (2 ^ 33 + 5) 1 100)"

lemma demo_one_eq: "demo_one = demo_tasks\<lparr>ts_obj := (ts_obj demo_tasks)(7 := \<lparr>tk_callback = 70, tk_status = 1, tk_prio = 1,
    tk_flags = 0, tk_user = 0, tk_parm = 8589934597, tk_ticks = 1100\<rparr>), ts_list := [7], ts_list_count := 1, ts_trace := [Timer_set 100]\<rparr>"
  by (simp add: demo_one_def demo_tasks_def svc_tasks_schedule_def upd_task_def log_act_def waitable_def
      svc_tasks_status_def status_codes list_ops Let_def)

lemma demo_one_reach: "tasks_reach demo_one"
  unfolding demo_one_def by (rule tasks_reach.schedule [OF demo_tasks_reach]) (simp_all add: demo_tasks_def rcount_def)

definition demo_two :: tasks_state where
  "demo_two = snd (svc_tasks_add demo_one 8 80 3 9)"

lemma demo_two_reach: "tasks_reach demo_two"
  unfolding demo_two_def
  by (rule tasks_reach.add [OF demo_one_reach]) (simp_all add: demo_one_eq demo_tasks_def rcount_def)


lemma tick_diff_of_int:
  assumes "\<bar>x - y\<bar> < 2147483648"
  shows "tick_diff (word_of_int x) (word_of_int y) = x - y"
proof -
  have "sint (word_of_int z :: u32) = signed_take_bit 31 z" for z by (simp add: signed_of_int)
  then have "tick_diff (word_of_int x) (word_of_int y) = signed_take_bit 31 (x - y)"
    by (simp only: tick_diff_def of_int_diff [symmetric])
  also have "\<dots> = x - y" using assms by (intro signed_take_bit_int_eq_self) auto
  finally show ?thesis .
qed

lemma sorted_split_filter:
  assumes "sorted_wrt (\<lambda>x y. D x \<le> D y) (xs @ ys)" "\<forall>x \<in> set xs. D x \<le> (d :: int)" "ys \<noteq> [] \<longrightarrow> d < D (hd ys)"
  shows "xs = filter (\<lambda>x. D x \<le> d) (xs @ ys) \<and> ys = filter (\<lambda>x. d < D x) (xs @ ys)"
proof -
  have "\<forall>y \<in> set ys. d < D y"
    using assms(1,3) by (cases ys) (auto simp: sorted_wrt_append)
  then show ?thesis using assms(2) by (auto simp: filter_id_conv filter_empty_conv not_le not_less)
qed


definition demo_wrap :: tasks_state where
  "demo_wrap = snd (svc_tasks_schedule (\<lambda>_. 0xFFFFFFF0) True demo_tasks 7 70 0 1 0x20)"

lemma demo_wrap_eq: "demo_wrap = demo_tasks\<lparr>ts_obj := (ts_obj demo_tasks)(7 := \<lparr>tk_callback = 70, tk_status = 1, tk_prio = 1,
    tk_flags = 0, tk_user = 0, tk_parm = 0, tk_ticks = 0x10\<rparr>), ts_list := [7], ts_list_count := 1, ts_trace := [Timer_set 0x20]\<rparr>"
proof -
  have w: "(4294967312 :: u32) = 16" by simp
  show ?thesis
    by (simp add: w demo_wrap_def demo_tasks_def svc_tasks_schedule_def upd_task_def log_act_def waitable_def
      svc_tasks_status_def status_codes list_ops Let_def)
qed

lemma demo_wrap_reach: "tasks_reach demo_wrap"
  unfolding demo_wrap_def by (rule tasks_reach.schedule [OF demo_tasks_reach]) (simp_all add: demo_tasks_def rcount_def)


text \<open>The tasks of the list that have expired: a prefix.\<close>

definition expired :: "tasks_state \<Rightarrow> u32 \<Rightarrow> addr \<Rightarrow> bool" where
  "expired s now a \<longleftrightarrow> tick_diff (tk_ticks (ts_obj s a)) now \<le> 0"

definition ready_pushed :: "tasks_state \<Rightarrow> addr list \<Rightarrow> nat \<Rightarrow> addr list" where
  "ready_pushed s xs k = ts_ready s k @ filter (\<lambda>a. task_queue s a = k) xs"

lemma task_to_ready_ready: "ts_ready (task_to_ready a s) = ready_pushed s [a]"
  by (auto simp: task_to_ready_def ready_pushed_def dbg_assert_def log_act_def Let_def list_ops task_queue_def fun_eq_iff)

lemma task_queue_cong: "ts_obj s' = ts_obj s \<Longrightarrow> ts_pool_count s' = ts_pool_count s \<Longrightarrow> task_queue s' = task_queue s"
  by (simp add: task_queue_def SVC_PRIO2QUEUE_def fun_eq_iff)

lemma expire_loop_effect:
  "NULL \<notin> set l \<Longrightarrow> l \<noteq> [] \<Longrightarrow> ts_list s = l \<Longrightarrow> expired s now (hd l) \<Longrightarrow> expire_loop (\<lambda>_. now) l s = s' \<Longrightarrow>
   ts_list s' = dropWhile (expired s now) l \<and> ts_ready s' = ready_pushed s (takeWhile (expired s now) l) \<and>
   ts_obj s' = ts_obj s \<and>
   (dropWhile (expired s now) l \<noteq> [] \<longrightarrow>
      last (ts_trace s') = Timer_set (tk_ticks (ts_obj s (hd (dropWhile (expired s now) l))) - now))"
proof (induction "\<lambda>_ :: nat. now" l s arbitrary: s' rule: expire_loop.induct)
  case (2 a rest s)
  let ?t = "task_to_ready a ((dbg_assert (ts_list_count s \<noteq> 0) s)\<lparr>ts_list_count :=
      ts_list_count (dbg_assert (ts_list_count s \<noteq> 0) s) - 1, ts_list := ll_remove_head (ts_list (dbg_assert (ts_list_count s \<noteq> 0) s))\<rparr>)"
  have t: "ts_list ?t = rest" "ts_obj ?t = ts_obj s" "ts_pool_count ?t = ts_pool_count s" "ts_ready ?t = ready_pushed s [a]"
    using 2(4) by (simp_all add: dbg_assert_def list_ops task_to_ready_ready ready_pushed_def task_queue_def SVC_PRIO2QUEUE_def fun_eq_iff)
  have e: "expired ?t now = expired s now" using t(2) by (simp add: expired_def fun_eq_iff)
  have q: "task_queue ?t = task_queue s" using t(2,3) by (rule task_queue_cong)
  have a: "expired s now a" using 2(5) by simp
  show ?case
  proof (cases "rest \<noteq> [] \<and> expired s now (hd rest)")
    case True
    then have n: "ll_head (ts_list ?t) \<noteq> NULL" "tick_diff (tk_ticks (ts_obj ?t (ll_head (ts_list ?t)))) now \<le> 0"
      using 2(2) t by (auto simp: neq_Nil_conv expired_def)
    have s': "expire_loop (\<lambda>_. now) rest ?t = s'" using 2(6) n by (simp add: Let_def)
    have "ts_list s' = dropWhile (expired ?t now) rest \<and> ts_ready s' = ready_pushed ?t (takeWhile (expired ?t now) rest) \<and>
        ts_obj s' = ts_obj ?t \<and> (dropWhile (expired ?t now) rest \<noteq> [] \<longrightarrow>
          last (ts_trace s') = Timer_set (tk_ticks (ts_obj ?t (hd (dropWhile (expired ?t now) rest))) - now))"
      by (rule 2(1) [OF refl refl refl refl]) (use n 2(2) True t e s' in auto)
    then show ?thesis using a t q e by (auto simp: ready_pushed_def fun_eq_iff)
  next
    case False
    have dw: "dropWhile (expired s now) rest = rest" "takeWhile (expired s now) rest = []"
      using False by (cases rest; auto)+
    have nn: "ll_head rest \<noteq> NULL \<longleftrightarrow> rest \<noteq> []" using 2(2) by (cases rest) auto
    have "\<not> (ll_head (ts_list ?t) \<noteq> NULL \<and> tick_diff (tk_ticks (ts_obj ?t (ll_head (ts_list ?t)))) now \<le> 0)"
      using False t nn by (cases rest) (auto simp: expired_def)
    then have "s' = (if rest \<noteq> [] then log_act (Timer_set (tk_ticks (ts_obj s (hd rest)) - now)) ?t else ?t)"
      using 2(6) t nn by (cases rest) (auto simp: Let_def)
    moreover obtain t where td: "t = ?t" by simp
    ultimately have "s' = (if rest \<noteq> [] then log_act (Timer_set (tk_ticks (ts_obj s (hd rest)) - now)) t else t)" by simp
    then show ?thesis using a dw t [folded td] by (simp add: log_act_def)
  qed
qed simp

text \<open>When the timer fires, exactly the expired tasks leave the list of delayed tasks, each to the back of the ready
  queue of its priority, in the order of their deadlines, and the timer is set again for the first task that remains.\<close>

theorem task_event_moves_expired:
  assumes "tasks_reach s" "svc_tasks_task_event (\<lambda>_. now) s = s'"
  shows "ts_list s' = dropWhile (expired s now) (ts_list s) \<and>
    (\<forall>k. ts_ready s' k = ts_ready s k @ filter (\<lambda>a. task_queue s a = k) (takeWhile (expired s now) (ts_list s))) \<and>
    (ts_list s' \<noteq> [] \<longrightarrow> last (ts_trace s') = Timer_set (tk_ticks (ts_obj s (hd (ts_list s'))) - now))"
proof -
  have nn: "NULL \<notin> set (ts_list s)"
    using tasks_reach_inv [OF assms(1)] by (auto simp: tq_inv_def status_ok_def)
  consider (empty) "ts_list s = []" | (wait) "ts_list s \<noteq> []" "\<not> expired s now (hd (ts_list s))"
    | (expired) "ts_list s \<noteq> []" "expired s now (hd (ts_list s))" by blast
  then show ?thesis
  proof cases
    case empty
    then show ?thesis using assms(2) by (simp add: svc_tasks_task_event_def)
  next
    case wait
    then show ?thesis using assms(2) nn
      by (cases "ts_list s") (auto simp: svc_tasks_task_event_def expired_def log_act_def not_le)
  next
    case expired
    then have "expire_loop (\<lambda>_. now) (ts_list s) s = s'"
      using assms(2) nn by (cases "ts_list s") (auto simp: svc_tasks_task_event_def expired_def)
    from expire_loop_effect [OF nn expired(1) refl expired(2) this]
    show ?thesis by (simp add: ready_pushed_def)
  qed
qed

theorem task_event_moves_expired_witness:
  "ts_ready (svc_tasks_task_event (\<lambda>_. 1100) demo_one) 1 = [7] \<and> ts_list (svc_tasks_task_event (\<lambda>_. 1100) demo_one) = []"
proof -
  have "ts_list demo_one = [7]" "ts_ready demo_one 1 = []" "expired demo_one 1100 7" "task_queue demo_one 7 = 1"
    by (simp_all add: demo_one_eq demo_tasks_def expired_def task_queue_def SVC_PRIO2QUEUE_def)
  then show ?thesis using task_event_moves_expired [OF demo_one_reach refl, of 1100] by simp
qed



text \<open>A thread runs the task that has waited longest in its queue, once, with its callback and parameter; the task is
  then active and no longer queued, so that it may be scheduled again, also by its own callback.\<close>

theorem service_task_runs_oldest:
  assumes "tasks_reach s" "svc_tasks_service_task now k s = Some (a, s')"
  shows "ts_ready s k = a # ts_ready s' k \<and> (\<forall>j. j \<noteq> k \<longrightarrow> ts_ready s' j = ts_ready s j) \<and> ts_list s' = ts_list s \<and>
    \<not> queued s' a \<and> svc_tasks_is_active (ts_obj s' a) \<and> ts_active_task s' k = a \<and>
    task_calls s' = task_calls s @ [Task_call (tk_callback (ts_obj s a)) a (tk_parm (ts_obj s a)) SERVICE_CALLBACK_REASON_RUN]"
proof -
  obtain r where r: "ts_ready s k = a # r"
    "s' = log_act (Task_call (tk_callback (ts_obj s a)) a (tk_parm (ts_obj s a)) SERVICE_CALLBACK_REASON_RUN)
      (log_act (Wdt_id k (tk_callback (ts_obj s a)))
        ((upd_task a (\<lambda>t. t\<lparr>tk_status := SERVICE_STATUS_ACTIVE_BIT\<rparr>)
            (s\<lparr>ts_ready := (ts_ready s)(k := r), ts_ready_count := ts_ready_count s - 1\<rparr>))
          \<lparr>ts_active_task := (ts_active_task s)(k := a), ts_active_timer := (ts_active_timer s)(k := now)\<rparr>))"
    using service_task_eq [OF tasks_reach_inv [OF assms(1)] assms(2)] by blast
  show ?thesis
    by (simp add: r log_act_def upd_task_def queued_def svc_tasks_status_def svc_tasks_is_active_def status_codes task_calls_def)
qed

theorem service_task_runs_oldest_witness:
  "\<exists>s'. svc_tasks_service_task 5 2 demo_two = Some (8, s') \<and>
     task_calls s' = [Task_call 80 8 3 SERVICE_CALLBACK_REASON_RUN]"
proof -
  have d: "ts_ready demo_two 2 = [8]" "task_calls demo_two = []" "tk_callback (ts_obj demo_two 8) = 80" "tk_parm (ts_obj demo_two 8) = 3"
    by (simp_all add: demo_two_def demo_one_eq demo_tasks_def upd_task_def log_act_def task_to_ready_def task_calls_def list_ops
      svc_tasks_add_def svc_tasks_status_def status_codes dbg_assert_def Let_def SVC_PRIO2QUEUE_def)
  then obtain s' where e: "svc_tasks_service_task 5 2 demo_two = Some (8, s')"
    by (simp add: svc_tasks_service_task_def Let_def)
  from service_task_runs_oldest [OF demo_two_reach e] d e show ?thesis by simp
qed

lemma wait_loop_returns:
  "(\<And>i. task_done (poll i) \<longleftrightarrow> m \<le> i) \<Longrightarrow>
     wait_loop poll n timeout = Some (if m \<le> n + (unat timeout + 9) div 10 + 1 then EOK else E_TIMEOUT)"
proof (induction "unat timeout" arbitrary: n timeout rule: less_induct)
  case less
  have ms: "SVC_TASK_MS2TICKS 10 = 10" by (simp add: SVC_TASK_MS2TICKS_def OS_ST_FREQUENCY_def)
  show ?case
  proof (cases "\<not> task_done (poll n) \<and> timeout \<noteq> 0")
    case True
    define w where "w = (if timeout > SVC_TASK_MS2TICKS 10 then SVC_TASK_MS2TICKS 10 else timeout)"
    have step: "wait_loop poll n timeout = wait_loop poll (Suc n) (timeout - w)"
      using True by (subst wait_loop.simps) (simp add: w_def Let_def)
    have "w \<le> timeout" by (auto simp: w_def)
    then have u: "unat (timeout - w) = unat timeout - unat w" by (simp add: unat_sub)
    have t0: "0 < unat timeout" using True by (simp add: unat_gt_0)
    have w: "unat w = (if 10 < unat timeout then 10 else unat timeout)"
      by (simp add: w_def ms word_less_nat_alt)
    have less': "unat (timeout - w) < unat timeout" using u w t0 by simp
    have r: "wait_loop poll (Suc n) (timeout - w) =
        Some (if m \<le> Suc n + (unat (timeout - w) + 9) div 10 + 1 then EOK else E_TIMEOUT)"
      by (rule less(1) [OF less' less(2)])
    have "Suc ((unat (timeout - w) + 9) div 10) = (unat timeout + 9) div 10"
    proof (cases "10 < unat timeout")
      case True
      then have "unat (timeout - w) + 9 + 10 = unat timeout + 9" using u w by simp
      then show ?thesis by (metis add.commute div_add_self2 plus_1_eq_Suc zero_neq_numeral)
    next
      case False
      then have "unat (timeout - w) = 0" using u w by simp
      moreover have "(unat timeout + 9) div 10 = 1" using False t0 by simp
      ultimately show ?thesis by simp
    qed
    then show ?thesis unfolding step r by simp
  next
    case False
    then have "wait_loop poll n timeout = Some (if task_done (poll (Suc n)) then EOK else E_TIMEOUT)"
      by (subst wait_loop.simps) (simp only: if_False)
    moreover have "m \<le> Suc n \<longleftrightarrow> m \<le> n + (unat timeout + 9) div 10 + 1"
    proof -
      have "task_done (poll n) \<longleftrightarrow> m \<le> n" by (rule less(2))
      then have "m \<le> n \<or> timeout = 0" using False by blast
      then have "m \<le> n \<or> unat timeout = 0" by (elim disjE) simp_all
      then show ?thesis by (elim disjE) simp_all
    qed
    moreover have "task_done (poll (Suc n)) \<longleftrightarrow> m \<le> Suc n" by (rule less(2))
    ultimately show ?thesis by simp
  qed
qed

text \<open>Waiting for a task without an event always returns: if the task is complete and inactive from the \<open>m\<close>-th look on,
  the result is EOK exactly when \<open>m\<close> is within the timeout, counted in rounds of 10 ticks, and E_TIMEOUT otherwise.\<close>

theorem svc_tasks_wait_returns:
  assumes "\<not> waitable (ts_obj s a)" "\<And>i. task_done (poll i) \<longleftrightarrow> m \<le> i"
  shows "svc_tasks_wait poll bits s a timeout =
    Some (if m \<le> (unat timeout + 9) div 10 + 1 then EOK else E_TIMEOUT)"
  using assms(1) wait_loop_returns [OF assms(2), of 0 timeout] by (simp add: svc_tasks_wait_def)

theorem svc_tasks_wait_returns_witness:
  "svc_tasks_wait (\<lambda>i. if 3 \<le> i then 0 else 1) 0 demo_one 7 25 = Some EOK \<and>
   svc_tasks_wait (\<lambda>i. if 3 \<le> i then 0 else 1) 0 demo_one 7 5 = Some E_TIMEOUT"
proof -
  have w: "\<not> waitable (ts_obj demo_one 7)" by (simp add: waitable_def demo_one_eq)
  have p: "task_done ((\<lambda>i. if 3 \<le> i then 0 else 1) i) \<longleftrightarrow> 3 \<le> i" for i :: nat
    by (simp add: task_done_def status_codes)
  show ?thesis
    using svc_tasks_wait_returns [OF w p, of 0 25] svc_tasks_wait_returns [OF w p, of 0 5] by simp
qed

end
