(* ===== verification/Events.thy ===== *)
theory Events
  imports Lists
begin

text \<open>
  The dispatcher of events, src/svc/svc_events.c: any thread or interrupt sets the bit of an event, and one
  thread of high priority calls the handlers registered for it. The handler stacks are lists of addresses
  (Lists.thy justifies the operations), the handlers a function of their address. The bits of the operating system's event
  object are the field \<open>es_bits\<close>; waiting returns the bits that are set and clears them, as the code asks for.
  The calls of the handlers are recorded.
\<close>

section \<open>Data\<close>

definition SVC_EVENTS_TASK :: u32 where "SVC_EVENTS_TASK = 0"
definition SVC_EVENTS_LAST :: nat where "SVC_EVENTS_LAST = 31"

record SVC_EVENTS_HANDLER_T =
  eh_fp :: addr
  eh_ctx :: addr

text \<open>A call: the function, the event and the context.\<close>

type_synonym event_call = "addr \<times> nat \<times> addr"

record events_state =
  es_stack :: "nat \<Rightarrow> addr list"
  es_obj :: "addr \<Rightarrow> SVC_EVENTS_HANDLER_T"
  es_bits :: u32
  es_stop :: bool
  es_calls :: "event_call list"

section \<open>Operations\<close>

definition svc_events_init :: "events_state \<Rightarrow> int \<times> events_state" where
  "svc_events_init s =
     (EOK, s\<lparr>es_stack := (\<lambda>i. if i < SVC_EVENTS_LAST then [] else es_stack s i), es_bits := 0\<rparr>)"

text \<open>\<open>os\<close>: the result of creating the thread.\<close>

definition svc_events_start :: "int \<Rightarrow> events_state \<Rightarrow> int \<times> events_state" where
  "svc_events_start os s = (os, s\<lparr>es_stop := False\<rparr>)"

definition svc_events_register :: "u32 \<Rightarrow> addr \<Rightarrow> addr \<Rightarrow> addr \<Rightarrow> events_state \<Rightarrow> events_state" where
  "svc_events_register evid handler fp ctx s =
     (let i = unat evid;
          s = s\<lparr>es_stack := (es_stack s)(i := ll_remove (es_stack s i) handler)\<rparr>;
          s = s\<lparr>es_obj := (es_obj s)(handler := \<lparr>eh_fp = fp, eh_ctx = ctx\<rparr>)\<rparr>
      in s\<lparr>es_stack := (es_stack s)(i := ll_add_head (es_stack s i) handler)\<rparr>)"

definition svc_events_unregister :: "u32 \<Rightarrow> addr \<Rightarrow> events_state \<Rightarrow> events_state" where
  "svc_events_unregister evid handler s =
     (let i = unat evid in s\<lparr>es_stack := (es_stack s)(i := ll_remove (es_stack s i) handler)\<rparr>)"

definition svc_events_signal :: "u32 \<Rightarrow> events_state \<Rightarrow> events_state" where
  "svc_events_signal evid s = s\<lparr>es_bits := es_bits s OR push_bit (unat evid) 1\<rparr>"

definition svc_events_signal_isr :: "u32 \<Rightarrow> events_state \<Rightarrow> events_state" where
  "svc_events_signal_isr evid s = s\<lparr>es_bits := es_bits s OR push_bit (unat evid) 1\<rparr>"

definition svc_events_stop :: "events_state \<Rightarrow> events_state" where
  "svc_events_stop s = (if \<not> es_stop s then svc_events_signal 0 (s\<lparr>es_stop := True\<rparr>) else s)"

definition call_handlers :: "nat \<Rightarrow> events_state \<Rightarrow> events_state" where
  "call_handlers eid s =
     s\<lparr>es_calls := es_calls s @ map (\<lambda>a. (eh_fp (es_obj s a), eid, eh_ctx (es_obj s a))) (es_stack s eid)\<rparr>"

text \<open>The inner loop of the thread; \<open>stop n\<close>: whether another thread has asked to stop at the \<open>n\<close>-th look.\<close>

partial_function (option) dispatch_loop :: "(nat \<Rightarrow> bool) \<Rightarrow> u32 \<Rightarrow> nat \<Rightarrow> events_state \<Rightarrow> events_state option" where
  "dispatch_loop stop events eid s =
     (if events \<noteq> 0 \<and> \<not> stop eid then
        (if events AND push_bit eid 1 \<noteq> 0
         then dispatch_loop stop (events AND NOT (push_bit eid 1)) (Suc eid) (call_handlers eid s)
         else dispatch_loop stop events (Suc eid) s)
      else Some s)"

text \<open>One round of the thread.\<close>

definition svc_events_thread :: "(nat \<Rightarrow> bool) \<Rightarrow> events_state \<Rightarrow> events_state option" where
  "svc_events_thread stop s =
     (if es_stop s then Some s else dispatch_loop stop (es_bits s) 0 (s\<lparr>es_bits := 0\<rparr>))"

section \<open>Dispatching\<close>

definition event_calls :: "events_state \<Rightarrow> nat \<Rightarrow> event_call list" where
  "event_calls s eid = map (\<lambda>a. (eh_fp (es_obj s a), eid, eh_ctx (es_obj s a))) (es_stack s eid)"

lemma call_handlers_eq: "call_handlers eid s = s\<lparr>es_calls := es_calls s @ event_calls s eid\<rparr>"
  by (simp add: call_handlers_def event_calls_def)

lemma event_calls_fields [simp]: "event_calls (s\<lparr>es_calls := c\<rparr>) = event_calls s" "event_calls (s\<lparr>es_bits := b\<rparr>) = event_calls s"
  by (simp_all add: event_calls_def fun_eq_iff)

lemma dispatch_loop_calls:
  assumes "\<And>n. \<not> stop n"
  shows "eid \<le> 32 \<Longrightarrow> (\<And>i. i < eid \<Longrightarrow> \<not> bit events i) \<Longrightarrow>
    dispatch_loop stop events eid s =
      Some (s\<lparr>es_calls := es_calls s @ concat (map (event_calls s) (filter (bit events) [eid..<32]))\<rparr>)"
proof (induction "32 - eid" arbitrary: eid events s)
  case 0
  then have "\<not> bit events i" for i
    using bit_imp_le_length [of events i] by (cases "i < eid") auto
  then have "events = 0" by (simp add: bit_eq_iff)
  then show ?case using 0 by (subst dispatch_loop.simps) simp
next
  case (Suc k)
  have eid: "eid < 32" "k = 32 - Suc eid" using Suc.hyps(2) by auto
  have range: "[eid..<32] = eid # [Suc eid..<32]" using eid by (simp add: upt_conv_Cons)
  show ?case
  proof (cases "events = 0")
    case True
    then show ?thesis by (subst dispatch_loop.simps) simp
  next
    case nz: False
    show ?thesis
    proof (cases "bit events eid")
      case True
      let ?e = "events AND NOT (push_bit eid 1)"
      have e: "bit ?e i \<longleftrightarrow> bit events i \<and> i \<noteq> eid" for i by (auto simp: bit_simps dest: bit_imp_le_length)
      have "dispatch_loop stop ?e (Suc eid) (call_handlers eid s) = Some ((call_handlers eid s)\<lparr>es_calls :=
          es_calls (call_handlers eid s) @ concat (map (event_calls (call_handlers eid s)) (filter (bit ?e) [Suc eid..<32]))\<rparr>)"
        by (rule Suc.hyps(1) [OF eid(2)]) (use eid Suc.prems(2) e in \<open>auto simp: less_Suc_eq\<close>)
      moreover have "filter (bit ?e) [Suc eid..<32] = filter (bit events) [Suc eid..<32]"
      proof (rule filter_cong [OF refl])
        fix i assume "i \<in> set [Suc eid..<32]"
        then have "i \<noteq> eid" by simp
        then show "bit ?e i = bit events i" unfolding e by blast
      qed
      ultimately show ?thesis
        using nz True assms by (subst dispatch_loop.simps) (simp add: u32_and_exp range call_handlers_eq)
    next
      case False
      have "dispatch_loop stop events (Suc eid) s =
          Some (s\<lparr>es_calls := es_calls s @ concat (map (event_calls s) (filter (bit events) [Suc eid..<32]))\<rparr>)"
        by (rule Suc.hyps(1) [OF eid(2)]) (use eid Suc.prems(2) False in \<open>auto simp: less_Suc_eq\<close>)
      then show ?thesis using nz False assms by (subst dispatch_loop.simps) (simp add: u32_and_exp range)
    qed
  qed
qed

text \<open>What a sequence of signals leaves in the event object.\<close>

lemma signals_bits:
  "bit (es_bits (fold svc_events_signal ids s)) i \<longleftrightarrow> bit (es_bits s) i \<or> (i < 32 \<and> i \<in> unat ` set ids)"
  by (induction ids arbitrary: s) (auto simp: svc_events_signal_def bit_simps)

lemma signals_same: "es_stack (fold svc_events_signal ids s) = es_stack s" "es_obj (fold svc_events_signal ids s) = es_obj s"
    "es_calls (fold svc_events_signal ids s) = es_calls s" "es_stop (fold svc_events_signal ids s) = es_stop s"
  by (induction ids arbitrary: s) (simp_all add: svc_events_signal_def)

section \<open>Properties\<close>


definition demo_events :: events_state where
  "demo_events = svc_events_register 1 9 90 91 (svc_events_register 1 8 80 81 (snd (svc_events_init
     \<lparr>es_stack = (\<lambda>_. []), es_obj = (\<lambda>_. \<lparr>eh_fp = 0, eh_ctx = 0\<rparr>), es_bits = 0, es_stop = False, es_calls = []\<rparr>)))"


end
