(* ===== verification/Wdt.thy ===== *)
theory Wdt
  imports Tasks
begin

text \<open>
  The software watchdog, src/svc/svc_wdt.c, a client of the task scheduler: threads register a handle in one of three
  timeout groups; a task scheduled at half the interval of the hardware watchdog looks at the handles and kicks the
  hardware only when no active handle hangs. The state holds the one of the scheduler; the hardware watchdog is
  the argument \<open>hw\<close>, the interval its kick returns. Dividing by zero is the result None.
\<close>

section \<open>Data\<close>

definition SVC_WDT_FLAGS_ACTIVE :: u32 where "SVC_WDT_FLAGS_ACTIVE = 1"
definition SVC_WDT_FLAGS_KICKED :: u32 where "SVC_WDT_FLAGS_KICKED = 2"
definition SVC_WDT_FLAGS_FLAGGED :: u32 where "SVC_WDT_FLAGS_FLAGGED = 4"
definition SVC_WDT_FLAGS_REPORTED :: u32 where "SVC_WDT_FLAGS_REPORTED = 8"
definition TIMEOUT_10_SEC :: nat where "TIMEOUT_10_SEC = 0"
definition TIMEOUT_30_SEC :: nat where "TIMEOUT_30_SEC = 1"
definition TIMEOUT_60_SEC :: nat where "TIMEOUT_60_SEC = 2"
definition TIMEOUT_LAST :: nat where "TIMEOUT_LAST = 3"

lemmas wdt_flags = SVC_WDT_FLAGS_ACTIVE_def SVC_WDT_FLAGS_KICKED_def SVC_WDT_FLAGS_FLAGGED_def SVC_WDT_FLAGS_REPORTED_def
lemmas wdt_groups = TIMEOUT_10_SEC_def TIMEOUT_30_SEC_def TIMEOUT_60_SEC_def TIMEOUT_LAST_def

record SVC_WDT_HANDLE_T =
  wh_thread :: nat
  wh_id :: u64
  wh_flags :: u32
  wh_timeout :: nat

record wdt_state =
  wd_interval :: u32
  wd_stack :: "nat \<Rightarrow> addr list"
  wd_counter :: u32
  wd_obj :: "addr \<Rightarrow> SVC_WDT_HANDLE_T"
  wd_kick10 :: u8
  wd_kick30 :: u8
  wd_kick60 :: u8
  wd_hw_kicks :: nat
  wd_tasks :: tasks_state

text \<open>The address of the task and of its callback; \<open>SERVICE_PRIO_QUEUE0\<close> is queue 0.\<close>

definition SVC_WDT_TASK :: addr where "SVC_WDT_TASK = 1"
definition SVC_WDT_TASK_CB :: addr where "SVC_WDT_TASK_CB = 1"

definition SVC_TASK_S2TICKS :: "u32 \<Rightarrow> u32" where "SVC_TASK_S2TICKS sec = sec * OS_ST_FREQUENCY"

definition upd_handle :: "addr \<Rightarrow> (SVC_WDT_HANDLE_T \<Rightarrow> SVC_WDT_HANDLE_T) \<Rightarrow> wdt_state \<Rightarrow> wdt_state" where
  "upd_handle a f s = s\<lparr>wd_obj := (wd_obj s)(a := f (wd_obj s a))\<rparr>"

section \<open>Handles\<close>

definition svc_wdt_init :: "wdt_state \<Rightarrow> int \<times> wdt_state" where
  "svc_wdt_init s = (EOK, s\<lparr>wd_stack := (\<lambda>i. if i < TIMEOUT_LAST then [] else wd_stack s i)\<rparr>)"

definition svc_wdt_register :: "nat \<Rightarrow> addr \<Rightarrow> nat \<Rightarrow> wdt_state \<Rightarrow> wdt_state" where
  "svc_wdt_register thread handler grp s =
     (let s = upd_handle handler (\<lambda>_. \<lparr>wh_thread = thread, wh_id = 0, wh_flags = 0, wh_timeout = grp\<rparr>) s
      in if grp < TIMEOUT_LAST then
           s\<lparr>wd_stack := (wd_stack s)(grp := ll_add_head (ll_remove (wd_stack s grp) handler) handler)\<rparr>
         else s)"

definition svc_wdt_unregister :: "addr \<Rightarrow> nat \<Rightarrow> wdt_state \<Rightarrow> wdt_state" where
  "svc_wdt_unregister handler grp s =
     (if grp < TIMEOUT_LAST then s\<lparr>wd_stack := (wd_stack s)(grp := ll_remove (wd_stack s grp) handler)\<rparr> else s)"

definition svc_wdt_timeout :: "SVC_WDT_HANDLE_T \<Rightarrow> u32" where
  "svc_wdt_timeout h =
     (if wh_timeout h = TIMEOUT_10_SEC then 10 else if wh_timeout h = TIMEOUT_30_SEC then 30
      else if wh_timeout h = TIMEOUT_60_SEC then 60 else 10)"

definition svc_wdt_activate :: "nat \<Rightarrow> addr \<Rightarrow> wdt_state \<Rightarrow> wdt_state" where
  "svc_wdt_activate thread handler =
     upd_handle handler (\<lambda>h. h\<lparr>wh_thread := thread, wh_flags := SVC_WDT_FLAGS_ACTIVE OR SVC_WDT_FLAGS_KICKED\<rparr>)"

definition svc_wdt_set_id :: "addr \<Rightarrow> u64 \<Rightarrow> wdt_state \<Rightarrow> wdt_state" where
  "svc_wdt_set_id handler i = upd_handle handler (\<lambda>h. h\<lparr>wh_id := i\<rparr>)"

definition svc_wdt_deactivate :: "addr \<Rightarrow> wdt_state \<Rightarrow> wdt_state" where
  "svc_wdt_deactivate handler = upd_handle handler (\<lambda>h. h\<lparr>wh_flags := wh_flags h AND
     NOT (SVC_WDT_FLAGS_ACTIVE OR SVC_WDT_FLAGS_KICKED OR SVC_WDT_FLAGS_FLAGGED OR SVC_WDT_FLAGS_REPORTED)\<rparr>)"

definition svc_wdt_handler_kick :: "addr \<Rightarrow> wdt_state \<Rightarrow> wdt_state" where
  "svc_wdt_handler_kick handler = upd_handle handler (\<lambda>h. h\<lparr>wh_flags := (wh_flags h OR SVC_WDT_FLAGS_KICKED) AND
     NOT (SVC_WDT_FLAGS_REPORTED OR SVC_WDT_FLAGS_FLAGGED)\<rparr>)"

definition svc_wdt_kick :: "wdt_state \<Rightarrow> wdt_state" where
  "svc_wdt_kick s = s\<lparr>wd_hw_kicks := wd_hw_kicks s + 1\<rparr>"

section \<open>The watchdog task\<close>

text \<open>One handle: its new flags, and whether it is seen alive.\<close>

definition process_flags :: "u32 \<Rightarrow> u32 \<times> bool" where
  "process_flags f =
     (if f AND SVC_WDT_FLAGS_ACTIVE \<noteq> 0 then
        (if f AND SVC_WDT_FLAGS_KICKED \<noteq> 0 then
           (f AND NOT (SVC_WDT_FLAGS_KICKED OR SVC_WDT_FLAGS_FLAGGED OR SVC_WDT_FLAGS_REPORTED), True)
         else if f AND SVC_WDT_FLAGS_FLAGGED \<noteq> 0 then
           (if f AND SVC_WDT_FLAGS_REPORTED = 0 then f OR SVC_WDT_FLAGS_REPORTED else f, False)
         else (f OR SVC_WDT_FLAGS_FLAGGED, True))
      else (f, True))"

fun process_loop :: "addr list \<Rightarrow> u8 \<Rightarrow> wdt_state \<Rightarrow> u8 \<times> wdt_state" where
  "process_loop [] kick s = (kick, s)"
| "process_loop (start # rest) kick s =
     (let (f, ok) = process_flags (wh_flags (wd_obj s start))
      in process_loop rest (if ok then kick else 0) (upd_handle start (\<lambda>h. h\<lparr>wh_flags := f\<rparr>) s))"

definition svc_wdt_process :: "nat \<Rightarrow> wdt_state \<Rightarrow> u8 \<times> wdt_state" where
  "svc_wdt_process grp s = process_loop (wd_stack s grp) 1 s"

definition schedule_wdt :: "(nat \<Rightarrow> u32) \<Rightarrow> bool \<Rightarrow> wdt_state \<Rightarrow> int \<times> wdt_state" where
  "schedule_wdt clk tset s =
     (let (res, t) = svc_tasks_schedule clk tset (wd_tasks s) SVC_WDT_TASK SVC_WDT_TASK_CB 0 0
                       (SVC_TASK_S2TICKS (wd_interval s div 2))
      in (res, s\<lparr>wd_tasks := t\<rparr>))"

definition svc_wdt_start :: "(nat \<Rightarrow> u32) \<Rightarrow> bool \<Rightarrow> u32 \<Rightarrow> wdt_state \<Rightarrow> int \<times> wdt_state" where
  "svc_wdt_start clk tset hw s =
     (let s = s\<lparr>wd_hw_kicks := wd_hw_kicks s + 1, wd_interval := hw\<rparr>
      in if wd_interval s \<noteq> 0 then
           (let s = s\<lparr>wd_tasks := snd (svc_tasks_cancel clk (wd_tasks s) SVC_WDT_TASK)\<rparr>
            in schedule_wdt clk tset s)
         else (EOK, s))"

definition svc_wdt_stop :: "(nat \<Rightarrow> u32) \<Rightarrow> wdt_state \<Rightarrow> wdt_state" where
  "svc_wdt_stop clk s = s\<lparr>wd_tasks := snd (svc_tasks_cancel clk (wd_tasks s) SVC_WDT_TASK)\<rparr>"

text \<open>Whether the group with the given window is looked at this time; the second operand is evaluated only after the first.\<close>

definition window_due :: "u8 \<Rightarrow> u32 \<Rightarrow> wdt_state \<Rightarrow> bool option" where
  "window_due kick seconds s =
     (if kick = 0 then Some True
      else if wd_interval s = 0 \<or> seconds div wd_interval s = 0 then None
      else Some (wd_counter s mod (seconds div wd_interval s) = 0))"

definition look :: "nat \<Rightarrow> bool \<Rightarrow> u8 \<Rightarrow> wdt_state \<Rightarrow> u8 \<times> wdt_state" where
  "look grp due kick s = (if due then svc_wdt_process grp s else (kick, s))"

definition wdt_round :: "wdt_state \<Rightarrow> (bool \<times> wdt_state) option" where
  "wdt_round s =
     (let s = s\<lparr>wd_counter := wd_counter s + 1\<rparr>;
          (k10, s) = svc_wdt_process TIMEOUT_10_SEC s;
          s = s\<lparr>wd_kick10 := k10\<rparr>
      in case window_due (wd_kick30 s) 30 s of
           None \<Rightarrow> None
         | Some due30 \<Rightarrow>
             (let (k30, s) = look TIMEOUT_30_SEC due30 (wd_kick30 s) s; s = s\<lparr>wd_kick30 := k30\<rparr>
              in case window_due (wd_kick60 s) 60 s of
                   None \<Rightarrow> None
                 | Some due60 \<Rightarrow>
                     (let (k60, s) = look TIMEOUT_60_SEC due60 (wd_kick60 s) s; s = s\<lparr>wd_kick60 := k60\<rparr>
                      in Some (k10 \<noteq> 0 \<and> k30 \<noteq> 0 \<and> k60 \<noteq> 0, s))))"

definition svc_wdt_task_cb :: "(nat \<Rightarrow> u32) \<Rightarrow> bool \<Rightarrow> u32 \<Rightarrow> u32 \<Rightarrow> wdt_state \<Rightarrow> wdt_state option" where
  "svc_wdt_task_cb clk tset hw reason s =
     (if reason = SERVICE_CALLBACK_REASON_RUN then
        (case wdt_round s of
           None \<Rightarrow> None
         | Some (alive, s) \<Rightarrow>
             (let s = (if alive then s\<lparr>wd_hw_kicks := wd_hw_kicks s + 1, wd_interval := hw\<rparr> else s);
                  s = (if wd_interval s \<noteq> 0 then snd (schedule_wdt clk tset s) else s)
              in Some (s\<lparr>wd_tasks := svc_tasks_complete SVC_WDT_TASK (wd_tasks s)\<rparr>)))
      else Some (s\<lparr>wd_tasks := svc_tasks_complete SVC_WDT_TASK (wd_tasks s)\<rparr>))"

section \<open>What a look at a grp does\<close>

definition flags_at :: "wdt_state \<Rightarrow> addr \<Rightarrow> u32" where
  "flags_at s a = wh_flags (wd_obj s a)"

definition hangs :: "u32 \<Rightarrow> bool" where
  "hangs f \<longleftrightarrow> f AND SVC_WDT_FLAGS_ACTIVE \<noteq> 0 \<and> f AND SVC_WDT_FLAGS_KICKED = 0 \<and> f AND SVC_WDT_FLAGS_FLAGGED \<noteq> 0"

lemma process_flags_alive: "snd (process_flags f) \<longleftrightarrow> \<not> hangs f"
  by (simp add: process_flags_def hangs_def)

lemma process_loop_effect:
  "distinct l \<Longrightarrow> process_loop l k s = (k', s') \<Longrightarrow>
     k' = (if \<exists>a \<in> set l. hangs (flags_at s a) then 0 else k) \<and>
     flags_at s' = (\<lambda>a. if a \<in> set l then fst (process_flags (flags_at s a)) else flags_at s a) \<and>
     wd_stack s' = wd_stack s"
proof (induction l k s arbitrary: k' s' rule: process_loop.induct)
  case (2 a rest k s)
  obtain f ok where p: "process_flags (wh_flags (wd_obj s a)) = (f, ok)" by force
  let ?s = "upd_handle a (\<lambda>h. h\<lparr>wh_flags := f\<rparr>) s"
  have fl: "flags_at ?s b = (if b = a then f else flags_at s b)" for b by (simp add: flags_at_def upd_handle_def)
  have ok: "ok \<longleftrightarrow> \<not> hangs (flags_at s a)" using process_flags_alive [of "flags_at s a"] p by (simp add: flags_at_def)
  have "process_loop rest (if ok then k else 0) ?s = (k', s')" using 2(3) p by simp
  from 2(1) [OF p [symmetric] refl _ this] 2(2)
  have ih: "k' = (if \<exists>a \<in> set rest. hangs (flags_at ?s a) then 0 else if ok then k else 0)"
      "flags_at s' = (\<lambda>b. if b \<in> set rest then fst (process_flags (flags_at ?s b)) else flags_at ?s b)"
      "wd_stack s' = wd_stack ?s" by auto
  have "(\<exists>b \<in> set rest. hangs (flags_at ?s b)) \<longleftrightarrow> (\<exists>b \<in> set rest. hangs (flags_at s b))"
    using 2(2) fl by (intro bex_cong refl) auto
  moreover have "fst (process_flags (flags_at s a)) = f" using p by (simp add: flags_at_def)
  moreover have "wd_stack ?s = wd_stack s" by (simp add: upd_handle_def)
  ultimately show ?case using ih ok 2(2) fl by (auto simp: fun_eq_iff)
qed simp

lemma process_effect:
  assumes "distinct (wd_stack s g)" "svc_wdt_process g s = (k, s')"
  shows "k = (if \<exists>a \<in> set (wd_stack s g). hangs (flags_at s a) then 0 else 1)"
    "a \<in> set (wd_stack s g) \<Longrightarrow> flags_at s' a = fst (process_flags (flags_at s a))" "wd_stack s' = wd_stack s"
  using process_loop_effect [OF assms(1) assms(2) [unfolded svc_wdt_process_def]] by auto

lemma flag_bits:
  "f AND SVC_WDT_FLAGS_ACTIVE = 0 \<longleftrightarrow> \<not> bit f 0" "f AND SVC_WDT_FLAGS_KICKED = 0 \<longleftrightarrow> \<not> bit f 1"
  "f AND SVC_WDT_FLAGS_FLAGGED = 0 \<longleftrightarrow> \<not> bit f 2" "f AND SVC_WDT_FLAGS_REPORTED = 0 \<longleftrightarrow> \<not> bit f 3"
  using u32_and_exp [of f 0] u32_and_exp [of f 1] u32_and_exp [of f 2] u32_and_exp [of f 3] by (simp_all add: wdt_flags)

lemma process_flags_bits:
  "bit (fst (process_flags f)) 0 \<longleftrightarrow> bit f 0"
  "bit (fst (process_flags f)) 1 \<longleftrightarrow> bit f 1 \<and> \<not> bit f 0"
  "bit f 0 \<Longrightarrow> bit (fst (process_flags f)) 2 \<longleftrightarrow> \<not> bit f 1"
  by (auto simp: process_flags_def flag_bits) (auto simp: wdt_flags bit_simps)

lemma hangs_bits: "hangs f \<longleftrightarrow> bit f 0 \<and> \<not> bit f 1 \<and> bit f 2"
  by (simp add: hangs_def flag_bits)

text \<open>\<open>n\<close> looks at a group, with nothing else in between.\<close>

definition looks :: "nat \<Rightarrow> nat \<Rightarrow> wdt_state \<Rightarrow> wdt_state" where
  "looks g n s = ((\<lambda>s. snd (svc_wdt_process g s)) ^^ n) s"

lemma looks_flags:
  assumes "distinct (wd_stack s g)"
  shows "wd_stack (looks g n s) = wd_stack s \<and>
    (\<forall>a \<in> set (wd_stack s g). flags_at (looks g n s) a = ((fst \<circ> process_flags) ^^ n) (flags_at s a))"
proof (induction n)
  case (Suc n)
  obtain k s' where e: "svc_wdt_process g (looks g n s) = (k, s')" by force
  have "looks g (Suc n) s = s'" using e by (simp add: looks_def)
  then show ?case using Suc process_effect(2,3) [OF _ e] assms by simp
qed (simp add: looks_def)

lemma flags_after:
  assumes "bit f 0 \<longrightarrow> bit f 1"
  shows "hangs (((fst \<circ> process_flags) ^^ n) f) \<longleftrightarrow> bit f 0 \<and> 2 \<le> n"
proof -
  have b0: "bit (((fst \<circ> process_flags) ^^ n) f) 0 \<longleftrightarrow> bit f 0" for n
    by (induction n) (simp_all add: process_flags_bits)
  have b1: "bit (((fst \<circ> process_flags) ^^ n) f) 1 \<longleftrightarrow> n = 0 \<and> bit f 1" if "bit f 0" for n
    using that b0 by (cases n) (simp_all add: process_flags_bits process_flags_bits(2) [unfolded One_nat_def])
  have b2: "bit (((fst \<circ> process_flags) ^^ Suc n) f) 2 \<longleftrightarrow> 1 \<le> n" if "bit f 0" for n
    using that b0 [of n] b1 [of n] assms by (auto simp: process_flags_bits)
  show ?thesis
  proof (cases "bit f 0")
    case True
    then show ?thesis using b0 [of n] b1 [of n] b2 assms by (cases n) (auto simp: hangs_bits simp del: funpow.simps)
  next
    case False
    then show ?thesis using b0 [of n] by (simp add: hangs_bits)
  qed
qed

section \<open>Properties\<close>

text \<open>C29: when every active handle of a group has been kicked since the last look, the next two looks find the group alive
  even without another kick (no false alarm), and from the third look without a kick on the group is
  reported as hanging in every look if it has an active handle (no hang goes unnoticed).\<close>

theorem wdt_detects_hang:
  assumes "distinct (wd_stack s g)"
    and kicked: "\<forall>a \<in> set (wd_stack s g). flags_at s a AND SVC_WDT_FLAGS_ACTIVE \<noteq> 0 \<longrightarrow> flags_at s a AND SVC_WDT_FLAGS_KICKED \<noteq> 0"
  shows "fst (svc_wdt_process g (looks g n s)) =
    (if 2 \<le> n \<and> (\<exists>a \<in> set (wd_stack s g). flags_at s a AND SVC_WDT_FLAGS_ACTIVE \<noteq> 0) then 0 else 1)"
proof -
  obtain k s' where e: "svc_wdt_process g (looks g n s) = (k, s')" by force
  note l = looks_flags [OF assms(1), of n]
  have "hangs (flags_at (looks g n s) a) \<longleftrightarrow> bit (flags_at s a) 0 \<and> 2 \<le> n" if "a \<in> set (wd_stack s g)" for a
    using l that flags_after [of "flags_at s a" n] kicked by (simp add: flag_bits)
  then have "(\<exists>a \<in> set (wd_stack s g). hangs (flags_at (looks g n s) a)) \<longleftrightarrow>
      2 \<le> n \<and> (\<exists>a \<in> set (wd_stack s g). flags_at s a AND SVC_WDT_FLAGS_ACTIVE \<noteq> 0)" by (auto simp: flag_bits)
  then show ?thesis using process_effect(1) [OF _ e] l assms(1) e by simp
qed

definition demo_wdt :: wdt_state where
  "demo_wdt = svc_wdt_activate 5 8 (svc_wdt_register 5 8 TIMEOUT_10_SEC (snd (svc_wdt_init
     \<lparr>wd_interval = 10, wd_stack = (\<lambda>_. []), wd_counter = 0, wd_obj = (\<lambda>_. \<lparr>wh_thread = 0, wh_id = 0, wh_flags = 0, wh_timeout = 0\<rparr>),
      wd_kick10 = 1, wd_kick30 = 1, wd_kick60 = 1, wd_hw_kicks = 0, wd_tasks = demo_tasks\<rparr>)))"

lemma demo_wdt_fields: "wd_stack demo_wdt 0 = [8]" "flags_at demo_wdt 8 = 3" "wd_kick30 demo_wdt = 1" "wd_tasks demo_wdt = demo_tasks"
    "wd_interval demo_wdt = 10" "wd_stack demo_wdt 1 = []" "wd_stack demo_wdt 2 = []" "wd_kick60 demo_wdt = 1" "wd_counter demo_wdt = 0"
  by (simp_all add: demo_wdt_def svc_wdt_activate_def svc_wdt_register_def svc_wdt_init_def upd_handle_def flags_at_def
      wdt_groups wdt_flags list_ops Let_def)

theorem wdt_detects_hang_witness:
  "fst (svc_wdt_process 0 (looks 0 1 demo_wdt)) = 1 \<and> fst (svc_wdt_process 0 (looks 0 2 demo_wdt)) = 0"
  using wdt_detects_hang [of demo_wdt 0 1] wdt_detects_hang [of demo_wdt 0 2]
  by (simp add: demo_wdt_fields wdt_flags)

text \<open>With a hardware watchdog whose interval is above 30 seconds, the first look after all groups were alive
  divides by zero.\<close>

theorem wdt_long_interval_fails:
  assumes "30 < wd_interval s" "wd_kick30 s \<noteq> 0"
  shows "svc_wdt_task_cb clk tset hw SERVICE_CALLBACK_REASON_RUN s = None"
proof -
  have z: "(30 :: u32) div wd_interval s = 0"
    using assms(1) by (simp add: word_div_def div_pos_pos_trivial word_less_def)
  have l: "wd_interval (snd (process_loop l k t)) = wd_interval t \<and> wd_kick30 (snd (process_loop l k t)) = wd_kick30 t" for l k t
    by (induction l k t rule: process_loop.induct) (simp_all add: upd_handle_def split: prod.split)
  obtain k t where e: "svc_wdt_process TIMEOUT_10_SEC (s\<lparr>wd_counter := wd_counter s + 1\<rparr>) = (k, t)" by force
  have "wd_interval t = wd_interval s" "wd_kick30 t = wd_kick30 s"
    using l [of "wd_stack (s\<lparr>wd_counter := wd_counter s + 1\<rparr>) TIMEOUT_10_SEC" 1 "s\<lparr>wd_counter := wd_counter s + 1\<rparr>"]
      e [unfolded svc_wdt_process_def] by simp_all
  then have "window_due (wd_kick30 t) 30 (t\<lparr>wd_kick10 := k\<rparr>) = None"
    using assms(2) z by (simp add: window_due_def)
  then have "wdt_round s = None" unfolding wdt_round_def Let_def e by simp
  then show ?thesis by (simp add: svc_wdt_task_cb_def)
qed

theorem wdt_long_interval_fails_witness:
  "svc_wdt_task_cb (\<lambda>_. 0) True 10 SERVICE_CALLBACK_REASON_RUN (demo_wdt\<lparr>wd_interval := 31\<rparr>) = None"
proof (rule wdt_long_interval_fails)
  show "30 < wd_interval (demo_wdt\<lparr>wd_interval := 31\<rparr>)" by simp
  show "wd_kick30 (demo_wdt\<lparr>wd_interval := 31\<rparr>) \<noteq> 0" by (simp add: demo_wdt_fields)
qed

lemma process_loop_tasks: "wd_tasks (snd (process_loop l k t)) = wd_tasks t"
  by (induction l k t rule: process_loop.induct) (simp_all add: upd_handle_def split: prod.split)

lemma wdt_round_tasks: "wdt_round s = Some (alive, s') \<Longrightarrow> wd_tasks s' = wd_tasks s"
proof -
  have l: "wd_tasks t' = wd_tasks t" if "look g d k t = (k', t')" for g d k t k' t'
    using that process_loop_tasks [of "wd_stack t g" 1 t] by (auto simp: look_def svc_wdt_process_def split: if_splits)
  assume r: "wdt_round s = Some (alive, s')"
  obtain k10 s1 where e1: "svc_wdt_process TIMEOUT_10_SEC (s\<lparr>wd_counter := wd_counter s + 1\<rparr>) = (k10, s1)" by force
  then have t1: "wd_tasks s1 = wd_tasks s"
    using l [of TIMEOUT_10_SEC True] by (fastforce simp: look_def)
  obtain d30 where e2: "window_due (wd_kick30 (s1\<lparr>wd_kick10 := k10\<rparr>)) 30 (s1\<lparr>wd_kick10 := k10\<rparr>) = Some d30"
    using r unfolding wdt_round_def Let_def e1 by (auto split: option.splits)
  obtain k30 s2 where e3: "look TIMEOUT_30_SEC d30 (wd_kick30 (s1\<lparr>wd_kick10 := k10\<rparr>)) (s1\<lparr>wd_kick10 := k10\<rparr>) = (k30, s2)" by force
  note r2 = r [unfolded wdt_round_def Let_def e1 prod.case e2 option.case e3]
  obtain d60 where e4: "window_due (wd_kick60 (s2\<lparr>wd_kick30 := k30\<rparr>)) 60 (s2\<lparr>wd_kick30 := k30\<rparr>) = Some d60"
    using r2 by (auto split: option.splits)
  obtain k60 s3 where e5: "look TIMEOUT_60_SEC d60 (wd_kick60 (s2\<lparr>wd_kick30 := k30\<rparr>)) (s2\<lparr>wd_kick30 := k30\<rparr>) = (k60, s3)" by force
  have "s' = s3\<lparr>wd_kick60 := k60\<rparr>" using r2 e4 e5 by simp
  then show ?thesis using l [OF e5] l [OF e3] t1 by simp
qed

text \<open>The watchdog keeps itself going: when its task has run and the hardware still has an interval, the task is
  queued again, at a time when the scheduler allows it, and the scheduler stays in its reachable states.\<close>

theorem wdt_task_rearms:
  assumes reach: "tasks_reach (wd_tasks s)" and room: "tasks_room (wd_tasks s)"
    and cb: "svc_wdt_task_cb clk tset hw SERVICE_CALLBACK_REASON_RUN s = Some s'" and live: "wd_interval s' \<noteq> 0"
  shows "queued (wd_tasks s') SVC_WDT_TASK \<and> tasks_reach (wd_tasks s')"
proof -
  obtain alive s1 where r: "wdt_round s = Some (alive, s1)"
    using cb by (auto simp: svc_wdt_task_cb_def split: option.splits)
  define s2 where "s2 = (if alive then s1\<lparr>wd_hw_kicks := wd_hw_kicks s1 + 1, wd_interval := hw\<rparr> else s1)"
  have t2: "wd_tasks s2 = wd_tasks s" using wdt_round_tasks [OF r] by (simp add: s2_def)
  have s': "s' = (let s3 = if wd_interval s2 \<noteq> 0 then snd (schedule_wdt clk tset s2) else s2
      in s3\<lparr>wd_tasks := svc_tasks_complete SVC_WDT_TASK (wd_tasks s3)\<rparr>)"
    using cb [unfolded svc_wdt_task_cb_def r option.case prod.case Let_def, folded s2_def] by (simp add: Let_def)
  have "wd_interval (snd (schedule_wdt clk tset s2)) = wd_interval s2" by (simp add: schedule_wdt_def split: prod.split)
  then have i: "wd_interval s2 \<noteq> 0" using live s' by (auto simp: Let_def split: if_splits)
  define q where "q = snd (svc_tasks_schedule clk tset (wd_tasks s) SVC_WDT_TASK SVC_WDT_TASK_CB 0 0
      (SVC_TASK_S2TICKS (wd_interval s2 div 2)))"
  have wt: "wd_tasks s' = svc_tasks_complete SVC_WDT_TASK q"
    using s' i by (simp add: Let_def schedule_wdt_def t2 q_def split: prod.split)
  show ?thesis
    using ts.resubmit [OF reach room, of SVC_WDT_TASK SVC_WDT_TASK_CB] by (simp add: wt q_def SVC_WDT_TASK_def SVC_WDT_TASK_CB_def)
qed

theorem wdt_task_rearms_witness:
  "\<exists>s'. svc_wdt_task_cb (\<lambda>_. 0) True 10 SERVICE_CALLBACK_REASON_RUN demo_wdt = Some s' \<and> queued (wd_tasks s') SVC_WDT_TASK"
proof -
  obtain s1 where "wdt_round demo_wdt = Some (True, s1)"
    by (simp add: demo_wdt_def wdt_round_def svc_wdt_process_def look_def window_due_def svc_wdt_activate_def svc_wdt_register_def
        svc_wdt_init_def upd_handle_def process_flags_def wdt_groups wdt_flags list_ops Let_def)
  then have "\<exists>s'. svc_wdt_task_cb (\<lambda>_. 0) True 10 SERVICE_CALLBACK_REASON_RUN demo_wdt = Some s' \<and> wd_interval s' \<noteq> 0"
    by (simp add: svc_wdt_task_cb_def schedule_wdt_def split: prod.split)
  then obtain s' where e: "svc_wdt_task_cb (\<lambda>_. 0) True 10 SERVICE_CALLBACK_REASON_RUN demo_wdt = Some s'" "wd_interval s' \<noteq> 0"
    by blast
  have "tasks_reach (wd_tasks demo_wdt)" using demo_tasks_reach by (simp add: demo_wdt_fields)
  moreover have "tasks_room (wd_tasks demo_wdt)" by (simp add: demo_wdt_fields demo_tasks_def tasks_room_def rcount_def)
  ultimately show ?thesis using wdt_task_rearms [OF _ _ e] e by blast
qed

end
