(* ===== verification/Message.thy ===== *)
theory Message
  imports Tasks Rtclib
begin

text \<open>
  Messages between modules, src/svc/svc_message.c: a message is posted as a task of the scheduler and handed to every channel
  whose filter contains its module. A message has the address of its task. The channel list is a list of addresses
  (Lists.thy justifies the operations); the heap is the set of the messages allocated. What \<open>malloc\<close>, the
  clock and the other threads answer are arguments; the calls of the channels are recorded.
\<close>

section \<open>Data\<close>

definition SVC_MESSAGE_MAX_QUEUE_SIZE :: int where "SVC_MESSAGE_MAX_QUEUE_SIZE = 32"
definition SVC_MESSAGE_FILTER_CNT :: nat where "SVC_MESSAGE_FILTER_CNT = 2"

definition SVC_MESSAGE_MODULE_MASK :: "int \<Rightarrow> u64" where
  "SVC_MESSAGE_MODULE_MASK module_id = (if 0 \<le> module_id \<and> module_id < 64 then push_bit (nat module_id) 1 else 0)"

record SVC_MESSAGE_CHANNEL_T =
  mc_fp :: addr
  mc_filter :: "nat \<Rightarrow> u64"
  mc_user :: addr

record SVC_MESSAGE_T =
  me_id :: u32
  me_type :: u32
  me_module :: int
  me_size :: u32
  me_timestamp_ms :: u64
  me_date :: RTCLIB_DATE_T
  me_time :: RTCLIB_TIME_T
  me_payload :: "u8 list"

record message_state =
  ms_filter :: u64
  ms_prio :: u16
  ms_id :: u32
  ms_sending :: int
  ms_channels :: "addr list"
  ms_channel :: "addr \<Rightarrow> SVC_MESSAGE_CHANNEL_T"
  ms_message :: "addr \<Rightarrow> SVC_MESSAGE_T"
  ms_heap :: "addr set"
  ms_tasks :: tasks_state
  ms_calls :: "(addr \<times> addr \<times> addr) list"

text \<open>The address of \<open>message_task_callback\<close>.\<close>

definition MESSAGE_TASK_CALLBACK :: addr where "MESSAGE_TASK_CALLBACK = 2"

section \<open>Channels\<close>

definition message_channel_available :: "message_state \<Rightarrow> message_state" where
  "message_channel_available s =
     s\<lparr>ms_filter := fold (\<lambda>start mask. fold (\<lambda>i mask. mask OR mc_filter (ms_channel s start) i) [0..<SVC_MESSAGE_FILTER_CNT] mask)
        (ms_channels s) 0\<rparr>"

definition message_channel_matches :: "SVC_MESSAGE_CHANNEL_T \<Rightarrow> int \<Rightarrow> bool" where
  "message_channel_matches channel module =
     (let mask = SVC_MESSAGE_MODULE_MASK module
      in if mc_fp channel = NULL \<or> mask = 0 then False
         else \<exists>i \<in> set [0..<SVC_MESSAGE_FILTER_CNT]. mc_filter channel i AND mask \<noteq> 0)"

definition svc_message_channel_add :: "addr \<Rightarrow> message_state \<Rightarrow> message_state" where
  "svc_message_channel_add channel s =
     message_channel_available (s\<lparr>ms_channels := ll_add_tail (ms_channels s) channel\<rparr>)"

definition svc_message_channel_remove :: "addr \<Rightarrow> message_state \<Rightarrow> message_state" where
  "svc_message_channel_remove channel s =
     message_channel_available (s\<lparr>ms_channels := ll_remove (ms_channels s) channel\<rparr>)"

definition svc_message_get_filter :: "message_state \<Rightarrow> u64" where
  "svc_message_get_filter s = ms_filter s"

section \<open>Posting\<close>

definition svc_message_init :: "u16 \<Rightarrow> message_state \<Rightarrow> int \<times> message_state" where
  "svc_message_init prio s =
     (EOK, s\<lparr>ms_channels := [], ms_filter := 0, ms_prio := prio, ms_id := 0, ms_sending := 0\<rparr>)"

definition svc_message_start :: int where "svc_message_start = EOK"

definition svc_message_would_post :: "message_state \<Rightarrow> int \<Rightarrow> bool" where
  "svc_message_would_post s module =
     (let mask = SVC_MESSAGE_MODULE_MASK module in mask \<noteq> 0 \<and> ms_filter s AND mask \<noteq> 0)"

definition message_free :: "addr \<Rightarrow> message_state \<Rightarrow> message_state" where
  "message_free m s = s\<lparr>ms_heap := ms_heap s - {m}\<rparr>"

text \<open>\<open>m\<close>: what \<open>qoraal_malloc\<close> returns; \<open>now\<close>, \<open>stamp\<close>: the clocks.\<close>

definition svc_message_create ::
    "addr \<Rightarrow> u32 \<Rightarrow> u64 \<Rightarrow> message_state \<Rightarrow> u32 \<Rightarrow> u32 \<Rightarrow> int \<Rightarrow> addr \<times> message_state" where
  "svc_message_create m now stamp s sz ty module =
     (if m = NULL then (NULL, s)
      else
        (let (date, time) = rtc_localtime now (Some \<lparr>d_day = 0, d_month = 0, d_year = 0\<rparr>)
                              (Some \<lparr>t_second = 0, t_minute = 0, t_hour = 0, t_day = 0\<rparr>);
             message = \<lparr>me_id = ms_id s, me_type = ty, me_module = module, me_size = sz, me_timestamp_ms = stamp,
                        me_date = the date, me_time = the time, me_payload = replicate (unat sz) 0\<rparr>
         in (m, s\<lparr>ms_heap := insert m (ms_heap s), ms_tasks := svc_tasks_init_task m (ms_tasks s), ms_id := ms_id s + 1,
                  ms_message := (ms_message s)(m := message)\<rparr>)))"

definition svc_message_post :: "(nat \<Rightarrow> u32) \<Rightarrow> bool \<Rightarrow> message_state \<Rightarrow> addr \<Rightarrow> int \<times> message_state" where
  "svc_message_post clk tset s message =
     (if message = NULL then (E_PARM, s)
      else if \<not> svc_message_would_post s (me_module (ms_message s message)) then (EOK, message_free message s)
      else if ms_sending s \<ge> SVC_MESSAGE_MAX_QUEUE_SIZE then (E_TIMEOUT, message_free message s)
      else
        (let (status, t) = svc_tasks_schedule clk tset (ms_tasks s) message MESSAGE_TASK_CALLBACK 0 (ms_prio s) 0;
             s = s\<lparr>ms_tasks := t\<rparr>
         in if status \<noteq> EOK then (status, message_free message s)
            else (EOK, s\<lparr>ms_sending := ms_sending s + 1\<rparr>)))"

definition message_task_callback :: "addr \<Rightarrow> u32 \<Rightarrow> message_state \<Rightarrow> message_state" where
  "message_task_callback message reason s =
     (let s = (if reason = SERVICE_CALLBACK_REASON_RUN then
                 fold (\<lambda>start s. if message_channel_matches (ms_channel s start) (me_module (ms_message s message))
                                 then s\<lparr>ms_calls := ms_calls s @ [(mc_fp (ms_channel s start), start, message)]\<rparr> else s)
                   (ms_channels s) s
               else s);
          s = s\<lparr>ms_sending := ms_sending s - 1\<rparr>;
          s = s\<lparr>ms_tasks := svc_tasks_complete message (ms_tasks s)\<rparr>
      in message_free message s)"

section \<open>Waiting\<close>

text \<open>\<open>sending n\<close>: the counter at the \<open>n\<close>-th look; \<open>bits n\<close>: what the \<open>n\<close>-th wait of the operating system returns.\<close>

partial_function (option) message_wait_loop ::
    "(nat \<Rightarrow> int) \<Rightarrow> (nat \<Rightarrow> u32) \<Rightarrow> message_state \<Rightarrow> nat \<Rightarrow> int \<Rightarrow> int option" where
  "message_wait_loop sending bits s n res =
     (if sending n \<ge> SVC_MESSAGE_MAX_QUEUE_SIZE - 1 then
        (let res = svc_tasks_wait_queue (bits n) (ms_tasks s) (ucast (ms_prio s))
         in if res = E_TIMEOUT then Some res else message_wait_loop sending bits s (Suc n) res)
      else Some res)"

definition svc_message_wait :: "(nat \<Rightarrow> int) \<Rightarrow> (nat \<Rightarrow> u32) \<Rightarrow> message_state \<Rightarrow> int option" where
  "svc_message_wait sending bits s = message_wait_loop sending bits s 0 EOK"

partial_function (option) message_wait_all_loop :: "(nat \<Rightarrow> int) \<Rightarrow> nat \<Rightarrow> u32 \<Rightarrow> int option" where
  "message_wait_all_loop sending n timeout =
     (if sending n > 0 \<and> \<not> timeout \<le> SVC_TASK_MS2TICKS 10
      then message_wait_all_loop sending (Suc n) (timeout - SVC_TASK_MS2TICKS 10)
      else Some (if sending (Suc n) \<noteq> 0 then EFAIL else EOK))"

definition svc_message_wait_all :: "(nat \<Rightarrow> int) \<Rightarrow> u32 \<Rightarrow> int option" where
  "svc_message_wait_all sending timeout = message_wait_all_loop sending 0 timeout"

section \<open>The filter\<close>

text \<open>What \<open>message_channel_available\<close> keeps: the filter is the union of the filters of the channels.\<close>

definition filter_ok :: "message_state \<Rightarrow> bool" where
  "filter_ok s \<longleftrightarrow> (\<forall>b. bit (ms_filter s) b \<longleftrightarrow>
     (\<exists>c \<in> set (ms_channels s). \<exists>i < SVC_MESSAGE_FILTER_CNT. bit (mc_filter (ms_channel s c) i) b))"

lemma fold_or_bits: "bit (fold (\<lambda>x (m :: u64). m OR f x) xs m) b \<longleftrightarrow> bit m b \<or> (\<exists>x \<in> set xs. bit (f x) b)"
  by (induction xs arbitrary: m) (auto simp: bit_simps)

lemma fold_fold_or_bits:
  "bit (fold (\<lambda>c m. fold (\<lambda>i (m :: u64). m OR f c i) is m) cs m) b \<longleftrightarrow>
     bit m b \<or> (\<exists>c \<in> set cs. \<exists>i \<in> set is. bit (f c i) b)"
  by (induction cs arbitrary: m) (auto simp: fold_or_bits)

lemma available_filter: "filter_ok (message_channel_available s)"
  unfolding filter_ok_def message_channel_available_def by (simp add: fold_fold_or_bits Bex_def)

lemma channel_ops_filter: "filter_ok (svc_message_channel_add c s)" "filter_ok (svc_message_channel_remove c s)"
    "filter_ok (snd (svc_message_init prio s))"
  by (simp_all add: svc_message_channel_add_def svc_message_channel_remove_def available_filter)
    (simp add: filter_ok_def svc_message_init_def)

lemma module_mask_and: "(w :: u64) AND SVC_MESSAGE_MODULE_MASK k \<noteq> 0 \<longleftrightarrow> 0 \<le> k \<and> k < 64 \<and> bit w (nat k)"
proof -
  have "bit (w AND push_bit (nat k) 1) b \<longleftrightarrow> bit w (nat k) \<and> b = nat k" for b
    by (auto simp: bit_simps dest: bit_imp_le_length)
  then have "w AND push_bit (nat k) 1 \<noteq> 0 \<longleftrightarrow> bit w (nat k)"
    using bit_eq_iff [of "w AND push_bit (nat k) 1" 0] bit_imp_le_length [of w "nat k"] by auto
  then show ?thesis
    unfolding SVC_MESSAGE_MODULE_MASK_def by (cases "0 \<le> k \<and> k < 64") (simp_all only: if_True if_False, auto)
qed

lemma module_mask_zero: "SVC_MESSAGE_MODULE_MASK k = 0 \<longleftrightarrow> \<not> (0 \<le> k \<and> k < 64)"
proof -
  have "bit (SVC_MESSAGE_MODULE_MASK k) (nat k)" if "0 \<le> k" "k < 64"
    using that by (simp add: SVC_MESSAGE_MODULE_MASK_def bit_simps nat_less_iff)
  then show ?thesis by (auto simp: SVC_MESSAGE_MODULE_MASK_def)
qed

lemma would_post_iff:
  "filter_ok s \<Longrightarrow> svc_message_would_post s k \<longleftrightarrow>
     0 \<le> k \<and> k < 64 \<and> (\<exists>c \<in> set (ms_channels s). \<exists>i < SVC_MESSAGE_FILTER_CNT. bit (mc_filter (ms_channel s c) i) (nat k))"
  by (auto simp: svc_message_would_post_def module_mask_and module_mask_zero filter_ok_def Let_def)

lemma matches_iff:
  "message_channel_matches c k \<longleftrightarrow> mc_fp c \<noteq> NULL \<and> 0 \<le> k \<and> k < 64 \<and> (\<exists>i < SVC_MESSAGE_FILTER_CNT. bit (mc_filter c i) (nat k))"
  by (auto simp: message_channel_matches_def module_mask_and module_mask_zero Let_def)

lemma callback_calls:
  "fold (\<lambda>start s. if message_channel_matches (ms_channel s start) (me_module (ms_message s m))
       then s\<lparr>ms_calls := ms_calls s @ [(mc_fp (ms_channel s start), start, m)]\<rparr> else s) cs s =
   s\<lparr>ms_calls := ms_calls s @ map (\<lambda>c. (mc_fp (ms_channel s c), c, m))
      (filter (\<lambda>c. message_channel_matches (ms_channel s c) (me_module (ms_message s m))) cs)\<rparr>"
  by (induction cs arbitrary: s) simp_all

section \<open>Properties\<close>

text \<open>The channels a message is for.\<close>

definition receivers :: "message_state \<Rightarrow> addr \<Rightarrow> addr list" where
  "receivers s m = filter (\<lambda>c. message_channel_matches (ms_channel s c) (me_module (ms_message s m))) (ms_channels s)"


definition demo_messages :: message_state where
  "demo_messages = svc_message_channel_add 30 (snd (svc_message_init 1
     \<lparr>ms_filter = 0, ms_prio = 0, ms_id = 0, ms_sending = 0, ms_channels = [],
      ms_channel = (\<lambda>_. \<lparr>mc_fp = 33, mc_filter = (\<lambda>i. if i = 0 then 0x20 else 0), mc_user = 0\<rparr>),
      ms_message = (\<lambda>_. \<lparr>me_id = 0, me_type = 0, me_module = 5, me_size = 0, me_timestamp_ms = 0,
        me_date = \<lparr>d_day = 0, d_month = 0, d_year = 0\<rparr>, me_time = \<lparr>t_second = 0, t_minute = 0, t_hour = 0, t_day = 0\<rparr>, me_payload = []\<rparr>),
      ms_heap = {9}, ms_tasks = demo_tasks, ms_calls = []\<rparr>))"


lemma message_wait_loop_none:
  assumes "\<And>n. sending n \<ge> SVC_MESSAGE_MAX_QUEUE_SIZE - 1" "\<And>n. bits n < 64"
  shows "message_wait_loop sending bits s n res = None"
proof -
  have ne: "svc_tasks_wait_queue (bits n) (ms_tasks s) q \<noteq> E_TIMEOUT" for n q
  proof -
    have "unat (bits n) < 64" using assms(2) [of n] by (simp add: word_less_nat_alt)
    then have "sint (bits n) = int (unat (bits n))" by (intro sint_u32_small) simp
    then have "0 \<le> sint (bits n)" by simp
    then show ?thesis by (auto simp: svc_tasks_wait_queue_def err_codes)
  qed
  have "se = sending \<longrightarrow> b = bits \<longrightarrow> st = s \<longrightarrow> False" if "message_wait_loop se b st n r = Some y" for se b st n r y
  proof (rule message_wait_loop.raw_induct [OF _ that], goal_cases)
    case (1 loop f g t n r y)
    show ?case using 1(1) [of f g t] 1(2) assms(1) [of n] ne [of n] by (auto simp: Let_def split: if_splits)
  qed
  then show ?thesis by (cases "message_wait_loop sending bits s n res") blast+
qed

text \<open>\<open>svc_message_wait\<close> never returns while the queue stays full, however many of its waits time out: it compares the event
  bits the wait returns with \<open>E_TIMEOUT\<close>.\<close>

theorem message_wait_ignores_timeout:
  assumes "\<And>n. sending n \<ge> SVC_MESSAGE_MAX_QUEUE_SIZE - 1" "\<And>n. bits n < 64"
  shows "svc_message_wait sending bits s = None"
  unfolding svc_message_wait_def by (rule message_wait_loop_none [OF assms])

theorem message_wait_ignores_timeout_witness: "svc_message_wait (\<lambda>_. 31) (\<lambda>_. 0) demo_messages = None"
  by (rule message_wait_ignores_timeout) (simp_all add: SVC_MESSAGE_MAX_QUEUE_SIZE_def)

end
