(* ===== verification/OsTimer.thy ===== *)
theory OsTimer
  imports Lists
begin

text \<open>
  The timers of the POSIX port, src/os_posix.c and include/qoraal/os_static.h: a list of timers sorted by the time they
  expire, linked through the timer objects, and the thread that calls back the timers that have expired. The loops
  that walk the list through pointers to pointers are partial functions: they do not return on a cyclic list. The
  thread releases the mutex while a callback runs, so that its loop body is split into the step that takes a timer and
  the step that finishes it. The clock, in milliseconds, is an argument; callbacks are recorded.
\<close>

section \<open>Data\<close>

record os_timer_t =
  ot_expire :: u64
  ot_callback :: addr
  ot_callback_param :: addr
  ot_is_set :: bool
  ot_in_processing :: bool

record timer_state =
  tm_head :: addr
  tm_next :: links
  tm_obj :: "addr \<Rightarrow> os_timer_t"
  tm_quit :: bool
  tm_heap :: "addr set"
  tm_calls :: "(addr \<times> addr) list"

definition upd_timer :: "addr \<Rightarrow> (os_timer_t \<Rightarrow> os_timer_t) \<Rightarrow> timer_state \<Rightarrow> timer_state" where
  "upd_timer t f s = s\<lparr>tm_obj := (tm_obj s)(t := f (tm_obj s t))\<rparr>"

text \<open>The variable of type \<open>os_timer_t **\<close> points to the head of the list or to the link of a timer.\<close>

datatype timer_ptr = Head | Next addr

fun deref :: "timer_state \<Rightarrow> timer_ptr \<Rightarrow> addr" where
  "deref s Head = tm_head s"
| "deref s (Next t) = tm_next s t"

fun assign :: "timer_ptr \<Rightarrow> addr \<Rightarrow> timer_state \<Rightarrow> timer_state" where
  "assign Head t s = s\<lparr>tm_head := t\<rparr>"
| "assign (Next u) t s = s\<lparr>tm_next := (tm_next s)(u := t)\<rparr>"

section \<open>Operations\<close>

definition start_timer_manager :: "timer_state \<Rightarrow> timer_state" where
  "start_timer_manager s = s\<lparr>tm_head := NULL, tm_quit := False\<rparr>"

definition os_timer_init :: "addr \<Rightarrow> addr \<Rightarrow> addr \<Rightarrow> timer_state \<Rightarrow> int \<times> timer_state" where
  "os_timer_init timer fp parm s =
     (EOK, (upd_timer timer (\<lambda>_. \<lparr>ot_expire = 0, ot_callback = fp, ot_callback_param = parm, ot_is_set = False,
              ot_in_processing = False\<rparr>) s)\<lparr>tm_next := (tm_next s)(timer := NULL)\<rparr>)"

text \<open>\<open>m\<close>: what \<open>qoraal_malloc\<close> returns.\<close>

definition os_timer_create :: "addr \<Rightarrow> addr \<Rightarrow> addr \<Rightarrow> timer_state \<Rightarrow> int \<times> addr \<times> timer_state" where
  "os_timer_create m fp parm s =
     (if m = NULL then (E_NOMEM, NULL, s)
      else (let (r, s) = os_timer_init m fp parm (s\<lparr>tm_heap := insert m (tm_heap s)\<rparr>) in (r, m, s)))"

partial_function (option) reset_walk :: "timer_state \<Rightarrow> addr \<Rightarrow> timer_ptr \<Rightarrow> timer_ptr option" where
  "reset_walk s timer current =
     (if deref s current \<noteq> NULL \<and> deref s current \<noteq> timer then reset_walk s timer (Next (deref s current))
      else Some current)"

definition os_timer_reset :: "addr \<Rightarrow> timer_state \<Rightarrow> timer_state option" where
  "os_timer_reset timer s =
     (if timer = NULL then Some s
      else if ot_in_processing (tm_obj s timer) then Some s
      else
        (case reset_walk s timer Head of
           None \<Rightarrow> None
         | Some current \<Rightarrow>
             (let s = (if deref s current = timer then assign current (tm_next s timer) s else s)
              in Some (upd_timer timer (\<lambda>x. x\<lparr>ot_is_set := False\<rparr>) s))))"

partial_function (option) set_walk :: "timer_state \<Rightarrow> addr \<Rightarrow> timer_ptr \<Rightarrow> timer_ptr option" where
  "set_walk s timer current =
     (if deref s current \<noteq> NULL \<and> ot_expire (tm_obj s (deref s current)) \<le> ot_expire (tm_obj s timer)
      then set_walk s timer (Next (deref s current))
      else Some current)"

definition os_timer_set :: "u64 \<Rightarrow> addr \<Rightarrow> u32 \<Rightarrow> timer_state \<Rightarrow> timer_state option" where
  "os_timer_set now timer ticks s =
     (if timer = NULL then Some s
      else
        (case os_timer_reset timer s of
           None \<Rightarrow> None
         | Some s \<Rightarrow>
             (let s = upd_timer timer (\<lambda>x. x\<lparr>ot_expire := now + ucast ticks\<rparr>) s;
                  s = upd_timer timer (\<lambda>x. x\<lparr>ot_is_set := True\<rparr>) s
              in case set_walk s timer Head of
                   None \<Rightarrow> None
                 | Some current \<Rightarrow>
                     (let s = s\<lparr>tm_next := (tm_next s)(timer := deref s current)\<rparr>
                      in Some (assign current timer s)))))"

definition os_timer_set_i :: "u64 \<Rightarrow> addr \<Rightarrow> u32 \<Rightarrow> timer_state \<Rightarrow> timer_state option" where
  "os_timer_set_i now timer ticks s = os_timer_set now timer ticks s"

definition os_timer_is_set :: "addr \<Rightarrow> timer_state \<Rightarrow> bool" where
  "os_timer_is_set timer s \<longleftrightarrow> timer \<noteq> NULL \<and> ot_is_set (tm_obj s timer)"

definition os_timer_delete :: "addr \<Rightarrow> timer_state \<Rightarrow> timer_state option" where
  "os_timer_delete timer s =
     (if timer = NULL then Some s
      else map_option (\<lambda>s. s\<lparr>tm_heap := tm_heap s - {timer}\<rparr>) (os_timer_reset timer s))"

section \<open>The thread of the timers\<close>

text \<open>How long the thread wants to wait, and the time it passes to \<open>pthread_cond_timedwait\<close>, as seconds and nanoseconds.\<close>

definition timer_wait_time :: "u64 \<Rightarrow> timer_state \<Rightarrow> u64" where
  "timer_wait_time now s =
     (if ot_expire (tm_obj s (tm_head s)) > now then ot_expire (tm_obj s (tm_head s)) - now else 0)"

definition timer_timespec :: "u64 \<Rightarrow> nat \<times> nat" where
  "timer_timespec wait_time = (unat (wait_time div 1000), unat (wait_time mod 1000) * 1000000)"

text \<open>Under the mutex: take the first timer when it has expired.\<close>

definition timer_take :: "u64 \<Rightarrow> timer_state \<Rightarrow> (addr \<times> timer_state) option" where
  "timer_take now s =
     (if tm_head s \<noteq> NULL \<and> ot_expire (tm_obj s (tm_head s)) \<le> now
      then Some (tm_head s, upd_timer (tm_head s) (\<lambda>x. x\<lparr>ot_in_processing := True\<rparr>) (s\<lparr>tm_head := tm_next s (tm_head s)\<rparr>))
      else None)"

text \<open>Without the mutex: the callback. What it does with timers is the argument \<open>cb\<close>.\<close>

definition timer_callback :: "(addr \<Rightarrow> timer_state \<Rightarrow> timer_state option) \<Rightarrow> addr \<Rightarrow> timer_state \<Rightarrow> timer_state option" where
  "timer_callback cb timer s =
     (if ot_callback (tm_obj s timer) \<noteq> NULL
      then cb timer (s\<lparr>tm_calls := tm_calls s @ [(ot_callback (tm_obj s timer), ot_callback_param (tm_obj s timer))]\<rparr>)
      else Some s)"

definition timer_finish :: "addr \<Rightarrow> timer_state \<Rightarrow> timer_state" where
  "timer_finish timer s = upd_timer timer (\<lambda>x. x\<lparr>ot_is_set := False, ot_in_processing := False\<rparr>) s"

text \<open>The loop of the thread over the expired timers; \<open>clk n\<close>: the clock at its \<open>n\<close>-th test.\<close>

partial_function (option) timer_expire_loop ::
    "(addr \<Rightarrow> timer_state \<Rightarrow> timer_state option) \<Rightarrow> (nat \<Rightarrow> u64) \<Rightarrow> nat \<Rightarrow> timer_state \<Rightarrow> timer_state option" where
  "timer_expire_loop cb clk n s =
     (case timer_take (clk n) s of
        None \<Rightarrow> Some s
      | Some p \<Rightarrow>
          (case timer_callback cb (fst p) (snd p) of
             None \<Rightarrow> None
           | Some s \<Rightarrow> timer_expire_loop cb clk (Suc n) (timer_finish (fst p) s)))"

partial_function (option) free_timers :: "timer_state \<Rightarrow> addr \<Rightarrow> timer_state option" where
  "free_timers s current =
     (if current \<noteq> NULL then free_timers (s\<lparr>tm_heap := tm_heap s - {current}\<rparr>) (tm_next s current) else Some s)"

definition stop_timer_manager :: "timer_state \<Rightarrow> timer_state option" where
  "stop_timer_manager s = free_timers (s\<lparr>tm_quit := True\<rparr>) (tm_head s)"

section \<open>The list of timers\<close>

definition timers :: "timer_state \<Rightarrow> addr list \<Rightarrow> bool" where
  "timers s xs \<longleftrightarrow> is_list (tm_next s) (tm_head s) xs"

abbreviation expire_of :: "timer_state \<Rightarrow> addr \<Rightarrow> u64" where
  "expire_of s t \<equiv> ot_expire (tm_obj s t)"

abbreviation processing :: "timer_state \<Rightarrow> addr \<Rightarrow> bool" where
  "processing s t \<equiv> ot_in_processing (tm_obj s t)"

text \<open>What setting a timer does to the list: it goes behind the timers that do not expire later.\<close>

definition insert_timer :: "(addr \<Rightarrow> u64) \<Rightarrow> addr \<Rightarrow> addr list \<Rightarrow> addr list" where
  "insert_timer e t xs = takeWhile (\<lambda>x. e x \<le> e t) xs @ t # dropWhile (\<lambda>x. e x \<le> e t) xs"

lemma set_insert_timer: "set (insert_timer e t xs) = insert t (set xs)"
  using set_append [of "takeWhile (\<lambda>x. e x \<le> e t) xs" "dropWhile (\<lambda>x. e x \<le> e t) xs"]
  unfolding insert_timer_def takeWhile_dropWhile_id by auto

lemma sorted_insert_timer: "sorted (map e xs) \<Longrightarrow> sorted (map e (insert_timer e t xs))"
proof (induction xs)
  case (Cons x xs)
  show ?case
  proof (cases "e x \<le> e t")
    case True
    then have "insert_timer e t (x # xs) = x # insert_timer e t xs" by (simp add: insert_timer_def)
    then show ?thesis using Cons True by (simp add: set_insert_timer)
  next
    case False
    then show ?thesis using Cons.prems by (fastforce simp: insert_timer_def)
  qed
qed (simp add: insert_timer_def)

lemma sorted_map_remove1: "sorted (map e xs) \<Longrightarrow> sorted (map e (remove1 t xs))"
  by (induction xs) (auto dest: set_remove1_subset [THEN subsetD])

text \<open>Where the walks stop.\<close>

definition ptr_after :: "timer_ptr \<Rightarrow> addr list \<Rightarrow> timer_ptr" where
  "ptr_after p xs = (if xs = [] then p else Next (last xs))"

lemma ptr_after_Cons: "ptr_after p (x # xs) = ptr_after (Next x) xs"
  by (simp add: ptr_after_def)

lemma reset_walk_list:
  "is_list (tm_next s) (deref s p) xs \<Longrightarrow> reset_walk s t p = Some (ptr_after p (takeWhile (\<lambda>x. x \<noteq> t) xs))"
proof (induction xs arbitrary: p)
  case (Cons x xs)
  then show ?case using Cons.IH [of "Next x"] by (subst reset_walk.simps) (auto simp: ptr_after_Cons, simp add: ptr_after_def)
qed (subst reset_walk.simps, simp add: ptr_after_def)

lemma set_walk_list:
  "is_list (tm_next s) (deref s p) xs \<Longrightarrow>
     set_walk s t p = Some (ptr_after p (takeWhile (\<lambda>x. expire_of s x \<le> expire_of s t) xs))"
proof (induction xs arbitrary: p)
  case (Cons x xs)
  then show ?case using Cons.IH [of "Next x"] by (subst set_walk.simps) (auto simp: ptr_after_Cons, simp add: ptr_after_def)
qed (subst set_walk.simps, simp add: ptr_after_def)

lemma deref_after:
  assumes "timers s (xs @ ys)"
  shows "is_list (tm_next s) (deref s (ptr_after Head xs)) ys"
proof (cases xs rule: rev_cases)
  case (snoc zs z)
  then show ?thesis using assms is_list_mid [of "tm_next s" "tm_head s" zs z ys] by (simp add: timers_def ptr_after_def)
qed (use assms in \<open>simp add: timers_def ptr_after_def\<close>)

lemma assign_after:
  assumes "timers s (xs @ ys)" "is_list (tm_next s) q zs" "set xs \<inter> set zs = {}"
  shows "timers (assign (ptr_after Head xs) q s) (xs @ zs)"
proof (cases xs rule: rev_cases)
  case (snoc us u)
  then show ?thesis using assms is_list_relink [of "tm_next s" "tm_head s" us u ys q zs] by (simp add: timers_def ptr_after_def)
qed (use assms in \<open>simp add: timers_def ptr_after_def\<close>)

lemma assign_fields [simp]:
  "tm_obj (assign p q s) = tm_obj s" "tm_calls (assign p q s) = tm_calls s" "tm_heap (assign p q s) = tm_heap s"
  "tm_quit (assign p q s) = tm_quit s"
  by (cases p; simp)+

lemma upd_timer_fields [simp]:
  "tm_head (upd_timer t f s) = tm_head s" "tm_next (upd_timer t f s) = tm_next s" "tm_calls (upd_timer t f s) = tm_calls s"
  "tm_heap (upd_timer t f s) = tm_heap s" "tm_quit (upd_timer t f s) = tm_quit s"
  "tm_obj (upd_timer t f s) = (tm_obj s)(t := f (tm_obj s t))" "timers (upd_timer t f s) xs = timers s xs"
  "deref (upd_timer t f s) p = deref s p"
  by (simp_all add: upd_timer_def timers_def) (cases p; simp)

lemma takeWhile_neq_split: "t \<in> set xs \<Longrightarrow> xs = takeWhile (\<lambda>x. x \<noteq> t) xs @ t # tl (dropWhile (\<lambda>x. x \<noteq> t) xs)"
  by (induction xs) auto

lemma remove1_takeWhile: "t \<in> set xs \<Longrightarrow> remove1 t xs = takeWhile (\<lambda>x. x \<noteq> t) xs @ tl (dropWhile (\<lambda>x. x \<noteq> t) xs)"
  by (induction xs) auto

text \<open>Resetting a timer that is not being processed takes it out of the list.\<close>

lemma os_timer_reset_list:
  assumes "timers s xs" "t \<noteq> NULL" "\<not> processing s t"
  shows "\<exists>s'. os_timer_reset t s = Some s' \<and> timers s' (remove1 t xs) \<and>
    tm_obj s' = (tm_obj s)(t := (tm_obj s t)\<lparr>ot_is_set := False\<rparr>) \<and> tm_calls s' = tm_calls s \<and> tm_heap s' = tm_heap s"
proof -
  let ?ys = "takeWhile (\<lambda>x. x \<noteq> t) xs"
  let ?p = "ptr_after Head ?ys"
  have w: "reset_walk s t Head = Some ?p" using reset_walk_list [of s Head xs t] assms(1) by (simp add: timers_def)
  show ?thesis
  proof (cases "t \<in> set xs")
    case True
    define zs where "zs = tl (dropWhile (\<lambda>x. x \<noteq> t) xs)"
    have xs: "xs = ?ys @ t # zs" unfolding zs_def by (rule takeWhile_neq_split [OF True])
    have l: "is_list (tm_next s) (deref s ?p) (t # zs)" using deref_after [of s ?ys "t # zs"] assms(1) xs by metis
    have d: "distinct (?ys @ t # zs)" using is_list_distinct assms(1) xs unfolding timers_def by metis
    have "timers (assign ?p (tm_next s t) s) (?ys @ zs)"
    proof (rule assign_after [where ys = "t # zs"])
      show "timers s (?ys @ t # zs)" using assms(1) xs by simp
      show "is_list (tm_next s) (tm_next s t) zs" using l by simp
      show "set ?ys \<inter> set zs = {}" using d unfolding distinct_append by simp
    qed
    then show ?thesis
      using w l assms(2,3) remove1_takeWhile [OF True] by (simp add: os_timer_reset_def Let_def zs_def)
  next
    case False
    then have ys: "?ys = xs" by (auto intro: takeWhile_eq_all_conv [THEN iffD2])
    have "deref s (ptr_after Head xs) = NULL" using deref_after [of s xs "[]"] assms(1) by simp
    then show ?thesis using w [unfolded ys] assms False by (simp add: os_timer_reset_def Let_def remove1_idem)
  qed
qed

text \<open>Setting a timer that is not in the list inserts it; it need not be idle.\<close>

lemma os_timer_insert_list:
  fixes t ticks and now :: u64
  assumes "timers s xs" "t \<noteq> NULL" "t \<notin> set xs" "os_timer_reset t s = Some s"
  defines "u \<equiv> upd_timer t (\<lambda>x. x\<lparr>ot_expire := now + ucast ticks, ot_is_set := True\<rparr>) s"
  shows "\<exists>s'. os_timer_set now t ticks s = Some s' \<and> timers s' (insert_timer (expire_of u) t xs) \<and>
    tm_obj s' = tm_obj u \<and> tm_calls s' = tm_calls s \<and> tm_heap s' = tm_heap s"
proof -
  let ?P = "\<lambda>x. expire_of u x \<le> expire_of u t"
  let ?p = "ptr_after Head (takeWhile ?P xs)"
  let ?v = "u\<lparr>tm_next := (tm_next u)(t := deref u ?p)\<rparr>"
  have u: "timers u xs" using assms(1) by (simp add: u_def)
  have w: "set_walk u t Head = Some ?p" using set_walk_list [of u Head xs t] u by (simp add: timers_def)
  have d: "is_list (tm_next u) (deref u ?p) (dropWhile ?P xs)"
    by (rule deref_after) (use u in simp)
  have td: "t \<notin> set (takeWhile ?P xs)" "t \<notin> set (dropWhile ?P xs)"
    using assms(3) by (auto dest: set_takeWhileD set_dropWhileD)
  have "timers ?v (takeWhile ?P xs @ dropWhile ?P xs)" using u assms(3) by (simp add: timers_def)
  moreover have "is_list (tm_next ?v) t (t # dropWhile ?P xs)" using d td assms(2) by simp
  moreover have "distinct xs" using assms(1) is_list_distinct unfolding timers_def by blast
  then have "set (takeWhile ?P xs) \<inter> set (dropWhile ?P xs) = {}"
    by (metis distinct_append takeWhile_dropWhile_id)
  ultimately have "timers (assign ?p t ?v) (takeWhile ?P xs @ t # dropWhile ?P xs)"
    using td by (intro assign_after [where ys = "dropWhile ?P xs"]) auto
  moreover have "os_timer_set now t ticks s = Some (assign ?p t ?v)"
    using w assms(2,4) by (simp add: os_timer_set_def Let_def u_def upd_timer_def)
  ultimately show ?thesis by (simp add: insert_timer_def u_def)
qed

section \<open>Reachable states\<close>

definition in_list :: "timer_state \<Rightarrow> addr \<Rightarrow> bool" where
  "in_list s t \<longleftrightarrow> (\<exists>xs. timers s xs \<and> t \<in> set xs)"

text \<open>
  The calls of the threads and the steps of the timer thread, in any order. A timer is initialised while it is idle and
  not in the list, deleted while it is idle; while its callback runs it is set only when it is not in the list.
\<close>

inductive timers_reach :: "timer_state \<Rightarrow> bool" where
  start: "\<forall>t. \<not> ot_is_set (tm_obj s t) \<and> \<not> processing s t \<Longrightarrow> timers_reach (start_timer_manager s)"
| init: "timers_reach s \<Longrightarrow> \<not> in_list s t \<Longrightarrow> \<not> processing s t \<Longrightarrow> timers_reach (snd (os_timer_init t fp parm s))"
| set: "timers_reach s \<Longrightarrow> processing s t \<longrightarrow> \<not> in_list s t \<Longrightarrow> os_timer_set now t ticks s = Some s' \<Longrightarrow> timers_reach s'"
| reset: "timers_reach s \<Longrightarrow> os_timer_reset t s = Some s' \<Longrightarrow> timers_reach s'"
| delete: "timers_reach s \<Longrightarrow> \<not> processing s t \<Longrightarrow> os_timer_delete t s = Some s' \<Longrightarrow> timers_reach s'"
| take: "timers_reach s \<Longrightarrow> \<forall>t. \<not> processing s t \<Longrightarrow> timer_take now s = Some (t, s') \<Longrightarrow> timers_reach s'"
| call: "timers_reach s \<Longrightarrow> processing s t \<Longrightarrow> timer_callback (\<lambda>t. Some) t s = Some s' \<Longrightarrow> timers_reach s'"
| finish: "timers_reach s \<Longrightarrow> processing s t \<Longrightarrow> timers_reach (timer_finish t s)"

definition timers_inv :: "timer_state \<Rightarrow> addr list \<Rightarrow> bool" where
  "timers_inv s xs \<longleftrightarrow> timers s xs \<and> sorted (map (expire_of s) xs) \<and>
     (\<forall>t. os_timer_is_set t s \<and> \<not> processing s t \<longrightarrow> t \<in> set xs)"

lemma timers_unique: "timers s xs \<Longrightarrow> timers s ys \<Longrightarrow> xs = ys"
  unfolding timers_def by (rule is_list_unique)

lemma timers_inv_unique: "timers_inv s ys \<Longrightarrow> timers s xs \<Longrightarrow> timers_inv s xs"
  unfolding timers_inv_def using timers_unique by metis

lemma timers_facts: "timers s xs \<Longrightarrow> distinct xs \<and> NULL \<notin> set xs \<and> (in_list s t \<longleftrightarrow> t \<in> set xs)"
  unfolding in_list_def using timers_unique is_list_distinct is_list_nonnull unfolding timers_def by blast

lemma sorted_map_same: "(\<And>x. x \<in> set xs \<Longrightarrow> e x = f x) \<Longrightarrow> sorted (map e xs) \<longleftrightarrow> sorted (map f xs)"
  by (rule arg_cong [where f = sorted], rule map_cong) simp_all

lemma timers_inv_reset:
  assumes "timers_inv s xs" "os_timer_reset t s = Some s'"
  shows "timers_inv s' (if processing s t then xs else remove1 t xs)"
proof (cases "t = NULL \<or> processing s t")
  case True
  then have "s' = s" using assms(2) by (auto simp: os_timer_reset_def split: if_splits)
  moreover have "t = NULL \<Longrightarrow> remove1 t xs = xs" using assms(1) timers_facts [of s xs] by (simp add: timers_inv_def remove1_idem)
  ultimately show ?thesis using assms True by auto
next
  case False
  from assms(1) have l: "timers s xs" by (simp add: timers_inv_def)
  from False have t: "t \<noteq> NULL" "\<not> processing s t" by auto
  from os_timer_reset_list [OF l t] assms(2) have s': "timers s' (remove1 t xs)"
      "tm_obj s' = (tm_obj s)(t := (tm_obj s t)\<lparr>ot_is_set := False\<rparr>)" by auto
  have "expire_of s' x = expire_of s x" for x by (simp add: s'(2))
  then have "sorted (map (expire_of s') (remove1 t xs))"
    using assms(1) by (simp add: timers_inv_def sorted_map_remove1 [of "expire_of s"])
  moreover have "\<forall>u. os_timer_is_set u s' \<and> \<not> processing s' u \<longrightarrow> u \<in> set (remove1 t xs)"
    using assms(1) s'(2) by (auto simp: timers_inv_def os_timer_is_set_def in_set_remove1)
  ultimately show ?thesis using s'(1) False by (simp add: timers_inv_def)
qed

lemma os_timer_reset_some:
  assumes "timers s xs"
  shows "\<exists>s'. os_timer_reset t s = Some s'"
proof (cases "t = NULL \<or> processing s t")
  case False
  then show ?thesis using os_timer_reset_list [OF assms] by blast
qed (auto simp: os_timer_reset_def)

lemma timers_inv_insert:
  fixes now :: u64
  assumes i: "timers_inv s xs" and t: "t \<noteq> NULL" "t \<notin> set xs" and r: "os_timer_reset t s = Some s"
  shows "\<exists>s'. os_timer_set now t ticks s = Some s' \<and> timers_inv s' (insert_timer (expire_of s') t xs) \<and>
    expire_of s' t = now + ucast ticks \<and> os_timer_is_set t s' \<and> (\<forall>x. x \<noteq> t \<longrightarrow> tm_obj s' x = tm_obj s x) \<and>
    (processing s' t \<longleftrightarrow> processing s t)"
proof -
  from i have l: "timers s xs" by (simp add: timers_inv_def)
  define u where "u = upd_timer t (\<lambda>x. x\<lparr>ot_expire := now + ucast ticks, ot_is_set := True\<rparr>) s"
  from os_timer_insert_list [OF l t r, of now ticks] obtain s' where s': "os_timer_set now t ticks s = Some s'"
      "timers s' (insert_timer (expire_of u) t xs)" "tm_obj s' = tm_obj u" by (auto simp: u_def)
  have same: "tm_obj s' x = tm_obj s x" if "x \<noteq> t" for x using that s'(3) by (simp add: u_def)
  have "sorted (map (expire_of s') xs) \<longleftrightarrow> sorted (map (expire_of s) xs)"
  proof (rule sorted_map_same)
    fix x assume "x \<in> set xs"
    then show "expire_of s' x = expire_of s x" using same t(2) by metis
  qed
  then have "sorted (map (expire_of s') (insert_timer (expire_of s') t xs))"
    using i sorted_insert_timer unfolding timers_inv_def by blast
  moreover have "\<forall>x. os_timer_is_set x s' \<and> \<not> processing s' x \<longrightarrow> x \<in> set (insert_timer (expire_of s') t xs)"
    using i same unfolding set_insert_timer timers_inv_def os_timer_is_set_def by (metis insertCI)
  ultimately have "timers_inv s' (insert_timer (expire_of s') t xs)" using s' by (simp add: timers_inv_def)
  then show ?thesis using s'(1,3) same t by (simp add: os_timer_is_set_def u_def)
qed

lemma os_timer_reset_idle:
  assumes "timers s xs" "t \<notin> set xs" "\<not> ot_is_set (tm_obj s t)"
  shows "os_timer_reset t s = Some s"
proof (cases "t = NULL \<or> processing s t")
  case False
  have ys: "takeWhile (\<lambda>x. x \<noteq> t) xs = xs" using assms(2) by (auto intro: takeWhile_eq_all_conv [THEN iffD2])
  have "reset_walk s t Head = Some (ptr_after Head xs)"
    using reset_walk_list [of s Head xs t, unfolded ys] assms(1) by (simp add: timers_def)
  moreover have "deref s (ptr_after Head xs) = NULL" using deref_after [of s xs "[]"] assms(1) by simp
  moreover have "upd_timer t (\<lambda>x. x\<lparr>ot_is_set := False\<rparr>) s = s"
  proof -
    have "(tm_obj s t)\<lparr>ot_is_set := False\<rparr> = tm_obj s t" using assms(3) by (cases "tm_obj s t") simp
    then show ?thesis by (simp add: upd_timer_def)
  qed
  ultimately show ?thesis using False by (simp add: os_timer_reset_def)
qed (auto simp: os_timer_reset_def)

lemma timers_inv_set:
  fixes now :: u64
  assumes i: "timers_inv s xs" and t: "t \<noteq> NULL" "processing s t \<longrightarrow> t \<notin> set xs"
  shows "\<exists>s'. os_timer_set now t ticks s = Some s' \<and> timers_inv s' (insert_timer (expire_of s') t (remove1 t xs)) \<and>
    expire_of s' t = now + ucast ticks \<and> os_timer_is_set t s' \<and> (\<forall>x. x \<noteq> t \<longrightarrow> tm_obj s' x = tm_obj s x) \<and>
    (processing s' t \<longleftrightarrow> processing s t)"
proof (cases "processing s t")
  case True
  then have "os_timer_reset t s = Some s" by (simp add: os_timer_reset_def)
  moreover have "t \<notin> set xs" "remove1 t xs = xs" using t True by (simp_all add: remove1_idem)
  ultimately show ?thesis using timers_inv_insert [OF i t(1), of now ticks] by simp
next
  case False
  from i have l: "timers s xs" by (simp add: timers_inv_def)
  from os_timer_reset_list [OF l t(1) False] obtain s1 where s1: "os_timer_reset t s = Some s1"
      "tm_obj s1 = (tm_obj s)(t := (tm_obj s t)\<lparr>ot_is_set := False\<rparr>)" by blast
  from timers_inv_reset [OF i s1(1)] False have i1: "timers_inv s1 (remove1 t xs)" by simp
  have n: "t \<notin> set (remove1 t xs)" using timers_facts [OF l] by simp
  have r: "os_timer_reset t s1 = Some s1"
    using os_timer_reset_idle [of s1 "remove1 t xs" t] i1 n by (simp add: timers_inv_def s1(2))
  have e: "os_timer_set now t ticks s = os_timer_set now t ticks s1" using s1(1) r t(1) by (simp add: os_timer_set_def)
  from timers_inv_insert [OF i1 t(1) n r, of now ticks] show ?thesis unfolding e using s1(2) by simp
qed

lemma timers_reach_inv: "timers_reach s \<Longrightarrow> \<exists>xs. timers_inv s xs"
proof (induction rule: timers_reach.induct)
  case (start s)
  then have "timers_inv (start_timer_manager s) []"
    by (simp add: timers_inv_def timers_def start_timer_manager_def os_timer_is_set_def)
  then show ?case by blast
next
  case (init s t fp parm)
  then obtain xs where xs: "timers_inv s xs" "t \<notin> set xs" by (auto simp: timers_inv_def in_list_def)
  have "expire_of (snd (os_timer_init t fp parm s)) x = expire_of s x" if "x \<in> set xs" for x
    using that xs(2) by (auto simp: os_timer_init_def)
  then have "sorted (map (expire_of (snd (os_timer_init t fp parm s))) xs) \<longleftrightarrow> sorted (map (expire_of s) xs)"
    by (rule sorted_map_same)
  then have "timers_inv (snd (os_timer_init t fp parm s)) xs"
    using xs by (auto simp: timers_inv_def os_timer_init_def timers_def os_timer_is_set_def)
  then show ?case by blast
next
  case (set s t now ticks s')
  show ?case
  proof (cases "t = NULL")
    case False
    from set obtain xs where xs: "timers_inv s xs" by blast
    then have "processing s t \<longrightarrow> t \<notin> set xs" using set(2) by (auto simp: timers_inv_def in_list_def)
    with timers_inv_set [OF xs False, of now ticks] set(3) show ?thesis by auto
  qed (use set in \<open>simp add: os_timer_set_def\<close>)
next
  case (reset s t s')
  then show ?case using timers_inv_reset by blast
next
  case (delete s t s')
  show ?case
  proof (cases "t = NULL")
    case False
    with delete obtain s1 where s1: "os_timer_reset t s = Some s1" "s' = s1\<lparr>tm_heap := tm_heap s1 - {t}\<rparr>"
      by (auto simp: os_timer_delete_def)
    with delete timers_inv_reset obtain xs where "timers_inv s1 xs" by blast
    then have "timers_inv s' xs" by (simp add: s1(2) timers_inv_def timers_def os_timer_is_set_def)
    then show ?thesis by blast
  qed (use delete in \<open>simp add: os_timer_delete_def\<close>)
next
  case (take s now t s')
  then obtain xs where xs: "timers_inv s xs" by blast
  from take(3) have t: "t = tm_head s" "t \<noteq> NULL"
      "s' = upd_timer t (\<lambda>x. x\<lparr>ot_in_processing := True\<rparr>) (s\<lparr>tm_head := tm_next s t\<rparr>)"
    by (auto simp: timer_take_def split: if_splits)
  with xs obtain ys where ys: "xs = t # ys" by (cases xs) (auto simp: timers_inv_def timers_def)
  have "sorted (map (expire_of s') ys) \<longleftrightarrow> sorted (map (expire_of s) ys)"
    by (rule sorted_map_same) (simp add: t(3))
  then have "timers_inv s' ys"
    using xs take(2) unfolding ys timers_inv_def by (auto simp: t(3) timers_def os_timer_is_set_def)
  then show ?case by blast
next
  case (call s t s')
  then obtain xs where "timers_inv s xs" by blast
  with call(3) have "timers_inv s' xs"
    by (auto simp: timer_callback_def timers_inv_def timers_def os_timer_is_set_def split: if_splits)
  then show ?case by blast
next
  case (finish s t)
  then obtain xs where xs: "timers_inv s xs" by blast
  have "sorted (map (expire_of (timer_finish t s)) xs) \<longleftrightarrow> sorted (map (expire_of s) xs)"
    by (rule sorted_map_same) (simp add: timer_finish_def)
  then have "timers_inv (timer_finish t s) xs"
    using xs by (auto simp: timer_finish_def timers_inv_def os_timer_is_set_def)
  then show ?case by blast
qed

section \<open>Properties\<close>


definition demo_timers :: timer_state where
  "demo_timers = \<lparr>tm_head = 0, tm_next = (\<lambda>_. 0), tm_obj = (\<lambda>t. \<lparr>ot_expire = 0, ot_callback = t + 100, ot_callback_param = 0,
     ot_is_set = False, ot_in_processing = False\<rparr>), tm_quit = False, tm_heap = {}, tm_calls = []\<rparr>"

lemma demo_timers_reach: "timers_reach demo_timers" "timers demo_timers []"
proof -
  have "start_timer_manager demo_timers = demo_timers" by (simp add: start_timer_manager_def demo_timers_def)
  then show "timers_reach demo_timers" using timers_reach.start [of demo_timers] by (simp add: demo_timers_def)
qed (simp add: timers_def demo_timers_def)

lemma demo_timers_idle: "timers_inv demo_timers []" "\<not> processing demo_timers t"
  by (simp_all add: timers_inv_def demo_timers_reach os_timer_is_set_def) (simp_all add: demo_timers_def)


lemma timer_expire_loop_list:
  assumes "timers s xs" "sorted (map (expire_of s) xs)"
  shows "\<exists>s'. timer_expire_loop (\<lambda>_. Some) (\<lambda>_. now) n s = Some s' \<and> timers s' (filter (\<lambda>t. expire_of s t > now) xs) \<and>
    tm_calls s' = tm_calls s @ map (\<lambda>t. (ot_callback (tm_obj s t), ot_callback_param (tm_obj s t)))
      (filter (\<lambda>t. expire_of s t \<le> now \<and> ot_callback (tm_obj s t) \<noteq> NULL) xs) \<and>
    (\<forall>t \<in> set xs. expire_of s t \<le> now \<longrightarrow> \<not> os_timer_is_set t s' \<and> \<not> processing s' t) \<and>
    (\<forall>t. t \<notin> set xs \<or> expire_of s t > now \<longrightarrow> tm_obj s' t = tm_obj s t)"
  using assms
proof (induction xs arbitrary: s n)
  case Nil
  then show ?case by (subst timer_expire_loop.simps) (simp add: timer_take_def timers_def)
next
  case (Cons x xs)
  have x: "tm_head s = x" "x \<noteq> NULL" "x \<notin> set xs" "is_list (tm_next s) (tm_next s x) xs"
    using Cons.prems(1) is_list_distinct [of "tm_next s" "tm_head s" "x # xs"] by (auto simp: timers_def)
  show ?case
  proof (cases "expire_of s x \<le> now")
    case False
    then have "\<forall>t \<in> set (x # xs). expire_of s t > now" using Cons.prems(2) by force
    then have "filter (\<lambda>t. expire_of s t > now) (x # xs) = x # xs" "\<forall>t \<in> set (x # xs). \<not> expire_of s t \<le> now"
      by (auto simp: not_le intro: filter_True)
    moreover have "timer_take now s = None" using False x by (simp add: timer_take_def)
    ultimately show ?thesis
      using Cons.prems(1) by (subst timer_expire_loop.simps) (auto simp: filter_empty_conv)
  next
    case True
    let ?c = "if ot_callback (tm_obj s x) \<noteq> NULL then [(ot_callback (tm_obj s x), ot_callback_param (tm_obj s x))] else []"
    define u where "u = upd_timer x (\<lambda>x. x\<lparr>ot_is_set := False, ot_in_processing := False\<rparr>)
      (s\<lparr>tm_head := tm_next s x, tm_calls := tm_calls s @ ?c\<rparr>)"
    have step: "timer_expire_loop (\<lambda>_. Some) (\<lambda>_. now) n s = timer_expire_loop (\<lambda>_. Some) (\<lambda>_. now) (Suc n) u"
      using True x by (subst timer_expire_loop.simps)
        (simp add: timer_take_def timer_callback_def timer_finish_def u_def upd_timer_def)
    have u: "timers u xs" "tm_calls u = tm_calls s @ ?c" "\<And>t. t \<noteq> x \<Longrightarrow> tm_obj u t = tm_obj s t"
        "\<not> ot_is_set (tm_obj u x)" "\<not> processing u x"
      using x(4) by (simp_all add: u_def timers_def)
    have same: "tm_obj u t = tm_obj s t" if "t \<in> set xs" for t using that x(3) u(3) by metis
    have "sorted (map (expire_of u) xs) \<longleftrightarrow> sorted (map (expire_of s) xs)" by (rule sorted_map_same) (simp add: same)
    then have "sorted (map (expire_of u) xs)" using Cons.prems(2) by simp
    from Cons.IH [OF u(1) this, of "Suc n"] obtain s' where s': "timer_expire_loop (\<lambda>_. Some) (\<lambda>_. now) (Suc n) u = Some s'"
        "timers s' (filter (\<lambda>t. expire_of u t > now) xs)"
        "tm_calls s' = tm_calls u @ map (\<lambda>t. (ot_callback (tm_obj u t), ot_callback_param (tm_obj u t)))
          (filter (\<lambda>t. expire_of u t \<le> now \<and> ot_callback (tm_obj u t) \<noteq> NULL) xs)"
        "\<forall>t \<in> set xs. expire_of u t \<le> now \<longrightarrow> \<not> os_timer_is_set t s' \<and> \<not> processing s' t"
        "\<forall>t. t \<notin> set xs \<or> expire_of u t > now \<longrightarrow> tm_obj s' t = tm_obj u t" by blast
    have f: "filter (\<lambda>t. expire_of u t > now) xs = filter (\<lambda>t. expire_of s t > now) xs"
        "filter (\<lambda>t. expire_of u t \<le> now \<and> ot_callback (tm_obj u t) \<noteq> NULL) xs =
         filter (\<lambda>t. expire_of s t \<le> now \<and> ot_callback (tm_obj s t) \<noteq> NULL) xs"
      by (simp_all add: same cong: filter_cong)
    have "tm_calls s' = tm_calls s @ map (\<lambda>t. (ot_callback (tm_obj s t), ot_callback_param (tm_obj s t)))
        (filter (\<lambda>t. expire_of s t \<le> now \<and> ot_callback (tm_obj s t) \<noteq> NULL) (x # xs))"
      unfolding s'(3) f u(2) using True same by simp
    moreover have "\<forall>t \<in> set (x # xs). expire_of s t \<le> now \<longrightarrow> \<not> os_timer_is_set t s' \<and> \<not> processing s' t"
      using s'(4,5) same u(4,5) x(3) unfolding os_timer_is_set_def by (metis set_ConsD)
    moreover have "\<forall>t. t \<notin> set (x # xs) \<or> expire_of s t > now \<longrightarrow> tm_obj s' t = tm_obj s t"
      using s'(5) u(3) True by (metis list.set_intros not_le)
    moreover have "timers s' (filter (\<lambda>t. expire_of s t > now) (x # xs))" using s'(2) f(1) leD [OF True] by simp
    ultimately show ?thesis using s'(1) step by simp
  qed
qed

text \<open>C35: while their callbacks leave the timers alone, the thread calls every timer that has expired, and no other, exactly once in
  the order of their times of expiry; the timers that remain in the list are those that have not expired.\<close>

theorem timer_thread_calls_expired:
  assumes "timers_reach s" "timers s xs"
  shows "\<exists>s'. timer_expire_loop (\<lambda>_. Some) (\<lambda>_. now) 0 s = Some s' \<and> timers s' (filter (\<lambda>t. expire_of s t > now) xs) \<and>
    sorted (map (expire_of s) xs) \<and>
    tm_calls s' = tm_calls s @ map (\<lambda>t. (ot_callback (tm_obj s t), ot_callback_param (tm_obj s t)))
      (filter (\<lambda>t. expire_of s t \<le> now \<and> ot_callback (tm_obj s t) \<noteq> NULL) xs) \<and>
    (\<forall>t \<in> set xs. expire_of s t \<le> now \<longrightarrow> \<not> os_timer_is_set t s' \<and> \<not> processing s' t)"
proof -
  obtain ys where "timers_inv s ys" using timers_reach_inv [OF assms(1)] by blast
  then have "sorted (map (expire_of s) xs)" using timers_unique assms(2) by (auto simp: timers_inv_def)
  with timer_expire_loop_list [OF assms(2) this, of now 0] show ?thesis by blast
qed

definition demo_set_timers :: timer_state where
  "demo_set_timers = \<lparr>tm_head = 7, tm_next = (\<lambda>_. 0), tm_obj = (\<lambda>t. \<lparr>ot_expire = 10 + of_nat t, ot_callback = t + 100,
     ot_callback_param = 3, ot_is_set = t = 7, ot_in_processing = False\<rparr>), tm_quit = False, tm_heap = {}, tm_calls = []\<rparr>"

theorem timer_thread_calls_expired_witness:
  "\<exists>s s'. timers_reach s \<and> timer_expire_loop (\<lambda>_. Some) (\<lambda>_. 20) 0 s = Some s' \<and> timers s' [] \<and> tm_calls s' = [(107, 0)]"
proof -
  from timers_inv_set [OF demo_timers_idle(1), of 7 10 5] obtain s where s: "os_timer_set 10 7 5 demo_timers = Some s" "timers s [7]"
      "expire_of s 7 = 15"
    by (auto simp: insert_timer_def demo_timers_idle timers_inv_def)
  have r: "timers_reach s" by (rule timers_reach.set [OF demo_timers_reach(1) _ s(1)]) (simp add: demo_timers_idle)
  have d: "tm_calls demo_timers = []" "tm_obj demo_timers 7 = \<lparr>ot_expire = 0, ot_callback = 107, ot_callback_param = 0,
      ot_is_set = False, ot_in_processing = False\<rparr>" by (simp_all add: demo_timers_def)
  have "os_timer_reset 7 demo_timers = Some demo_timers" by (rule os_timer_reset_idle [OF demo_timers_reach(2)]) (simp_all add: d)
  from os_timer_insert_list [OF demo_timers_reach(2) _ _ this, of 10 5] s(1) have c: "tm_calls s = []"
      "ot_callback (tm_obj s 7) = 107" "ot_callback_param (tm_obj s 7) = 0"
    by (simp_all add: d)
  show ?thesis using timer_thread_calls_expired [OF r s(2), of 20] s(3) c r by auto
qed

text \<open>A list with a timer linked to itself.\<close>

lemma reset_walk_cycle:
  assumes "tm_next s t = t" "t \<noteq> NULL" "u \<noteq> t" "deref s p = t"
  shows "reset_walk s u p = None"
proof -
  have "v = s \<longrightarrow> w = u \<longrightarrow> deref s q \<noteq> t" if "reset_walk v w q = Some y" for v w q y
  proof (rule reset_walk.raw_induct [OF _ that], goal_cases)
    case (1 walk v w q y)
    show ?case
    proof (intro impI notI)
      assume a: "v = s" "w = u" "deref s q = t"
      then have "walk s u (Next t) = Some y" using 1(2) assms(2,3) by auto
      then show False using 1(1) [of s u "Next t" y] assms(1) by simp
    qed
  qed
  then show ?thesis using assms(4) by (cases "reset_walk s u p") blast+
qed

text \<open>When a timer is set twice while its callback runs, it is linked to itself: from then on, also after the callback has
  ended, setting or resetting any other timer that is idle never returns, and no timer can be taken but this one.\<close>

theorem timer_set_twice_in_callback:
  fixes now now' :: u64
  assumes "timers_reach s" "timers s [t]" "processing s t" "u \<noteq> NULL" "u \<noteq> t" "\<not> processing s u"
  shows "\<exists>s1. os_timer_set now t ticks s = Some s1 \<and> (\<forall>s' \<in> {s1, timer_finish t s1}.
    tm_head s' = t \<and> tm_next s' t = t \<and> os_timer_reset u s' = None \<and> os_timer_set now' u ticks' s' = None)"
proof -
  have t: "t \<noteq> NULL" "tm_head s = t" "tm_next s t = NULL" using assms(2) by (auto simp: timers_def)
  define v where "v = upd_timer t (\<lambda>x. x\<lparr>ot_expire := now + ucast ticks, ot_is_set := True\<rparr>) s"
  define s1 where "s1 = assign (Next t) t (v\<lparr>tm_next := (tm_next v)(t := deref v (Next t))\<rparr>)"
  have "set_walk v t Head = Some (ptr_after Head [t])"
    using set_walk_list [of v Head "[t]" t] assms(2) by (simp add: v_def timers_def)
  then have "set_walk v t Head = Some (Next t)" by (simp add: ptr_after_def)
  then have set: "os_timer_set now t ticks s = Some s1"
    using t assms(3) by (simp add: os_timer_set_def os_timer_reset_def Let_def v_def s1_def upd_timer_def)
  have "tm_head s' = t \<and> tm_next s' t = t \<and> os_timer_reset u s' = None \<and> os_timer_set now' u ticks' s' = None"
    if "s' \<in> {s1, timer_finish t s1}" for s'
  proof -
    have s': "tm_head s' = t" "tm_next s' t = t" "tm_obj s' u = tm_obj s u"
      using that t assms(5) by (auto simp: timer_finish_def s1_def v_def)
    have "reset_walk s' u Head = None" by (rule reset_walk_cycle [OF s'(2) t(1) assms(5)]) (simp add: s')
    then have "os_timer_reset u s' = None" using assms(4,6) s'(3) by (simp add: os_timer_reset_def)
    then show ?thesis using s' assms(4) by (simp add: os_timer_set_def)
  qed
  then show ?thesis using set by blast
qed

theorem timer_set_twice_in_callback_witness:
  "\<exists>s s1. timers_reach s \<and> os_timer_set 21 7 5 s = Some s1 \<and> os_timer_set 30 8 5 (timer_finish 7 s1) = None"
proof -
  obtain s where s: "os_timer_set 10 7 5 demo_timers = Some s" "timers_inv s [7]" "expire_of s 7 = 15"
      "\<forall>x. x \<noteq> 7 \<longrightarrow> tm_obj s x = tm_obj demo_timers x" "\<not> processing s 7"
    using timers_inv_set [OF demo_timers_idle(1), of 7 10 5] by (auto simp: insert_timer_def demo_timers_idle)
  have r: "timers_reach s" by (rule timers_reach.set [OF demo_timers_reach(1) _ s(1)]) (simp add: demo_timers_idle)
  have idle: "\<forall>t. \<not> processing s t" using s(4,5) demo_timers_idle(2) by metis
  define s2 where "s2 = upd_timer 7 (\<lambda>x. x\<lparr>ot_in_processing := True\<rparr>) (s\<lparr>tm_head := tm_next s 7\<rparr>)"
  have h: "tm_head s = 7" "tm_next s 7 = 0" using s(2) by (auto simp: timers_inv_def timers_def)
  have "timer_take 20 s = Some (7, s2)" using h s(3) by (simp add: timer_take_def s2_def)
  with r idle have r2: "timers_reach s2" by (rule timers_reach.take)
  have l2: "timers s2 []" "processing s2 7" "\<not> in_list s2 7" using h by (simp_all add: s2_def timers_def in_list_def)
  have "timers_inv s2 []" using timers_reach_inv [OF r2] l2(1) timers_inv_unique by blast
  from timers_inv_set [OF this, of 7 20 5] l2(2) obtain s3 where s3: "os_timer_set 20 7 5 s2 = Some s3"
      "timers s3 [7]" "processing s3 7" and same: "\<forall>x. x \<noteq> 7 \<longrightarrow> tm_obj s3 x = tm_obj s2 x"
    unfolding timers_inv_def by (auto simp: insert_timer_def)
  have p8: "\<not> processing s3 8" using same [rule_format, of 8] idle by (simp add: s2_def)
  have r3: "timers_reach s3" using timers_reach.set [OF r2 _ s3(1)] l2(3) by simp
  show ?thesis using timer_set_twice_in_callback [OF r3 s3(2,3) _ _ p8, of 21 5 30 5] r3 by auto
qed

text \<open>The timed wait of the thread: the time it passes is the time still to wait, not the time at which the wait ends.\<close>

lemma timer_timespec_past:
  assumes "expire_of s (tm_head s) \<le> now + now"
  shows "fst (timer_timespec (timer_wait_time now s)) \<le> unat now div 1000"
proof -
  have "unat (expire_of s (tm_head s)) \<le> unat now + unat now"
    using assms unat_plus_simple [of now now] by (auto simp: word_le_nat_alt unat_word_ariths dest: order_trans [OF _ mod_less_eq_dividend])
  then have "unat (timer_wait_time now s) \<le> unat now"
    by (auto simp: timer_wait_time_def unat_sub_if' word_less_nat_alt)
  then show ?thesis by (simp add: timer_timespec_def unat_div div_le_mono)
qed

end
