(* ===== verification/OsSync.thy ===== *)
theory OsSync
  imports Prelude
begin

text \<open>
  Thread-local storage, semaphores, events and timeouts of the POSIX port, src/os_posix.c. A thread is the address of its
  working area (NULL for a thread the port has not created). Semaphores are those of POSIX: \<open>sem_timedwait\<close> takes
  the semaphore when its count is positive, fails with an invalid time when the nanoseconds are not below
  1000000000, and else waits until the semaphore is posted or the time has passed. Times are seconds and nanoseconds.
\<close>

section \<open>Thread-local storage\<close>

definition MAX_TLS_ID :: nat where "MAX_TLS_ID = 4"

record tls_state =
  tls_values :: "nat \<Rightarrow> bool"
  tls_slot :: "addr \<Rightarrow> nat \<Rightarrow> u32"

fun tls_search :: "(nat \<Rightarrow> bool) \<Rightarrow> nat list \<Rightarrow> nat" where
  "tls_search vs [] = MAX_TLS_ID"
| "tls_search vs (i # is) = (if \<not> vs i then i else tls_search vs is)"

definition os_thread_tls_set :: "addr \<Rightarrow> int \<Rightarrow> u32 \<Rightarrow> tls_state \<Rightarrow> int \<times> tls_state" where
  "os_thread_tls_set wa idx value s =
     (if idx < 0 \<or> idx \<ge> int MAX_TLS_ID then (E_PARM, s)
      else if wa \<noteq> NULL then (EOK, s\<lparr>tls_slot := (tls_slot s)(wa := (tls_slot s wa)(nat idx := value))\<rparr>)
      else (EFAIL, s))"

definition os_thread_tls_get :: "addr \<Rightarrow> int \<Rightarrow> tls_state \<Rightarrow> u32" where
  "os_thread_tls_get wa idx s =
     (if idx < 0 \<or> idx \<ge> int MAX_TLS_ID then 0 else if wa \<noteq> NULL then tls_slot s wa (nat idx) else 0)"

text \<open>The result is the status, the index written and the storage.\<close>

definition os_thread_tls_alloc :: "addr \<Rightarrow> tls_state \<Rightarrow> int \<times> int \<times> tls_state" where
  "os_thread_tls_alloc wa s =
     (let i = tls_search (tls_values s) [0..<MAX_TLS_ID]
      in if i \<ge> MAX_TLS_ID then (EFAIL, -1, s)
         else (EOK, int i, snd (os_thread_tls_set wa (int i) 0 (s\<lparr>tls_values := (tls_values s)(i := True)\<rparr>))))"

definition os_thread_tls_free :: "int \<Rightarrow> tls_state \<Rightarrow> tls_state" where
  "os_thread_tls_free index s =
     (if index \<ge> 0 \<and> index < int MAX_TLS_ID then s\<lparr>tls_values := (tls_values s)(nat index := False)\<rparr> else s)"

section \<open>Priorities\<close>

text \<open>\<open>lo\<close> and \<open>hi\<close>: the priorities \<open>sched_get_priority_min\<close> and \<open>sched_get_priority_max\<close> return. C division truncates.\<close>

definition OS_THREAD_PRIO_LOWEST :: int where "OS_THREAD_PRIO_LOWEST = 8"
definition OS_THREAD_PRIO_HIGHEST :: int where "OS_THREAD_PRIO_HIGHEST = 112"

definition c_div :: "int \<Rightarrow> int \<Rightarrow> int" where
  "c_div a b = (if (a < 0) = (b < 0) then \<bar>a\<bar> div \<bar>b\<bar> else - (\<bar>a\<bar> div \<bar>b\<bar>))"

definition map_custom_to_posix_priority :: "int \<Rightarrow> int \<Rightarrow> int \<Rightarrow> int" where
  "map_custom_to_posix_priority lo hi custom =
     lo + c_div ((custom - OS_THREAD_PRIO_LOWEST) * (hi - lo)) (OS_THREAD_PRIO_HIGHEST - OS_THREAD_PRIO_LOWEST)"

definition map_posix_to_custom_priority :: "int \<Rightarrow> int \<Rightarrow> int \<Rightarrow> int" where
  "map_posix_to_custom_priority lo hi posix =
     OS_THREAD_PRIO_LOWEST + c_div ((posix - lo) * (OS_THREAD_PRIO_HIGHEST - OS_THREAD_PRIO_LOWEST)) (hi - lo)"

section \<open>Timeouts\<close>

definition OS_TIME_IMMEDIATE :: u32 where "OS_TIME_IMMEDIATE = 0"
definition OS_TIME_INFINITE :: u32 where "OS_TIME_INFINITE = 0xffffffff"

text \<open>\<open>OS_TICKS2MS\<close> computes with 64-bit longs; the port has 1000 ticks in a second.\<close>

definition OS_TICKS2MS :: "u32 \<Rightarrow> nat" where
  "OS_TICKS2MS ticks = (unat ticks * 1000 + 1000 - 1) div 1000"

definition sem_deadline :: "nat \<times> nat \<Rightarrow> u32 \<Rightarrow> nat \<times> nat" where
  "sem_deadline now ticks =
     (fst now + OS_TICKS2MS ticks div 1000, snd now + (OS_TICKS2MS ticks mod 1000) * 1000000)"

definition event_deadline :: "nat \<times> nat \<Rightarrow> u32 \<Rightarrow> nat \<times> nat" where
  "event_deadline now ticks =
     (let sec = fst now + OS_TICKS2MS ticks div 1000;
          nsec = snd now + (OS_TICKS2MS ticks mod 1000) * 1000000
      in (sec + nsec div 1000000000, nsec mod 1000000000))"

text \<open>\<open>os_thread_wait\<close> starts from \<open>gettimeofday\<close>: seconds and microseconds.\<close>

definition os_sys_tick_freq :: u32 where "os_sys_tick_freq = 1000"

definition thread_wait_deadline :: "nat \<times> nat \<Rightarrow> u32 \<Rightarrow> nat \<times> nat" where
  "thread_wait_deadline now ticks =
     (let ms = unat ticks * 1000 div unat os_sys_tick_freq;
          nsec = (snd now + (ms mod 1000) * 1000) * 1000
      in (fst now + ms div 1000 + nsec div 1000000000, nsec mod 1000000000))"

section \<open>Semaphores\<close>

text \<open>The POSIX function; \<open>strict\<close>: whether it looks at the time before it tries to take the semaphore (POSIX leaves it open);
  \<open>passed\<close>: whether the time has passed. \<open>None\<close>: the thread waits on. The result is the status and the count.\<close>

definition sem_timedwait :: "bool \<Rightarrow> bool \<Rightarrow> nat \<times> nat \<Rightarrow> nat \<Rightarrow> (int \<times> nat) option" where
  "sem_timedwait strict passed deadline cnt =
     (if strict \<and> snd deadline \<ge> 1000000000 then Some (-1, cnt)
      else if cnt > 0 then Some (0, cnt - 1)
      else if snd deadline \<ge> 1000000000 \<or> passed then Some (-1, cnt)
      else None)"

definition os_sem_wait_timeout :: "bool \<Rightarrow> bool \<Rightarrow> nat \<times> nat \<Rightarrow> u32 \<Rightarrow> nat \<Rightarrow> (int \<times> nat) option" where
  "os_sem_wait_timeout strict passed now ticks cnt =
     map_option (\<lambda>(r, c). (if r = 0 then EOK else EFAIL, c)) (sem_timedwait strict passed (sem_deadline now ticks) cnt)"

definition os_sem_signal :: "nat \<Rightarrow> nat" where "os_sem_signal cnt = cnt + 1"

section \<open>Events\<close>

text \<open>The flags of an event. \<open>flags n\<close>: what a waiting thread finds at its \<open>n\<close>-th look, \<open>woken n\<close>: whether its \<open>n\<close>-th wait was
  ended by a signal. The result is the events and the flags the thread clears.\<close>

definition os_event_init :: u32 where "os_event_init = 0"

definition os_event_signal :: "u32 \<Rightarrow> u32 \<Rightarrow> u32" where
  "os_event_signal msk flags = flags OR msk"

definition os_event_clear :: "u32 \<Rightarrow> u32 \<Rightarrow> u32" where
  "os_event_clear msk flags = flags AND NOT msk"

definition event_waits :: "bool \<Rightarrow> u32 \<Rightarrow> u32 \<Rightarrow> bool" where
  "event_waits al msk flags \<longleftrightarrow> (if al then flags AND msk \<noteq> msk else flags AND msk = 0)"

definition event_take :: "bool \<Rightarrow> u32 \<Rightarrow> u32 \<Rightarrow> u32 \<times> u32" where
  "event_take clear_on_exit msk flags =
     (let events = flags AND msk in (events, if clear_on_exit then events else 0))"

partial_function (option) os_event_wait :: "(nat \<Rightarrow> u32) \<Rightarrow> nat \<Rightarrow> bool \<Rightarrow> u32 \<Rightarrow> bool \<Rightarrow> (u32 \<times> u32) option" where
  "os_event_wait flags n clear_on_exit msk al =
     (if event_waits al msk (flags n) then os_event_wait flags (Suc n) clear_on_exit msk al
      else Some (event_take clear_on_exit msk (flags n)))"

partial_function (option) os_event_wait_timeout ::
    "(nat \<Rightarrow> u32) \<Rightarrow> (nat \<Rightarrow> bool) \<Rightarrow> nat \<Rightarrow> bool \<Rightarrow> u32 \<Rightarrow> bool \<Rightarrow> (u32 \<times> u32) option" where
  "os_event_wait_timeout flags woken n clear_on_exit msk al =
     (if event_waits al msk (flags n) then
        (if \<not> woken n then Some (0, 0)
         else os_event_wait_timeout flags woken (Suc n) clear_on_exit msk al)
      else Some (event_take clear_on_exit msk (flags n)))"

section \<open>Properties\<close>

lemma ticks_ms: "OS_TICKS2MS ticks = unat ticks"
  by (simp add: OS_TICKS2MS_def)

lemma split_ms: "(ms div 1000) * 1000000000 + (ms mod 1000) * 1000000 = ms * (1000000 :: nat)"
proof -
  have "q * 1000000000 + r * 1000000 = (q * 1000 + r) * (1000000 :: nat)" for q r by simp
  then show ?thesis using div_mult_mod_eq [of ms 1000] by metis
qed

text \<open>C40: the deadlines of events and of \<open>os_thread_wait\<close> are valid times, the current time plus the timeout to the nanosecond. The
  deadline of a semaphore is the same time, but it is invalid whenever the nanoseconds of the sum pass a second.\<close>

theorem port_deadlines:
  assumes "ns < 1000000000" "us < 1000000"
  shows "snd (event_deadline (sec, ns) ticks) < 1000000000 \<and>
    fst (event_deadline (sec, ns) ticks) * 1000000000 + snd (event_deadline (sec, ns) ticks) =
      sec * 1000000000 + ns + unat ticks * 1000000 \<and>
    snd (thread_wait_deadline (sec, us) ticks) < 1000000000 \<and>
    fst (thread_wait_deadline (sec, us) ticks) * 1000000000 + snd (thread_wait_deadline (sec, us) ticks) =
      sec * 1000000000 + us * 1000 + unat ticks * 1000000 \<and>
    (if ns + (unat ticks mod 1000) * 1000000 < 1000000000 then sem_deadline (sec, ns) ticks = event_deadline (sec, ns) ticks
     else snd (sem_deadline (sec, ns) ticks) \<ge> 1000000000)"
proof -
  have n: "(a + b div 1000000000) * 1000000000 + b mod 1000000000 = a * 1000000000 + b" for a b :: nat
    by (simp add: algebra_simps)
  have e: "fst (event_deadline (sec, ns) ticks) * 1000000000 + snd (event_deadline (sec, ns) ticks) =
      sec * 1000000000 + ns + unat ticks * 1000000"
    using split_ms [of "unat ticks"] by (simp add: event_deadline_def Let_def ticks_ms n)
  have t: "fst (thread_wait_deadline (sec, us) ticks) * 1000000000 + snd (thread_wait_deadline (sec, us) ticks) =
      sec * 1000000000 + us * 1000 + unat ticks * 1000000"
    using split_ms [of "unat ticks"] by (simp add: thread_wait_deadline_def Let_def os_sys_tick_freq_def n)
  have s: "if ns + (unat ticks mod 1000) * 1000000 < 1000000000 then sem_deadline (sec, ns) ticks = event_deadline (sec, ns) ticks
     else snd (sem_deadline (sec, ns) ticks) \<ge> 1000000000"
    by (simp add: sem_deadline_def event_deadline_def Let_def ticks_ms)
  show ?thesis using e t s by (simp add: event_deadline_def thread_wait_deadline_def Let_def)
qed

theorem port_deadlines_witness:
  "event_deadline (5, 900000000) 2200 = (8, 100000000) \<and> snd (sem_deadline (5, 900000000) 2200) \<ge> 1000000000"
  using port_deadlines [of 900000000 0 5 2200] by (simp add: event_deadline_def ticks_ms)

text \<open>What a wait for an event answers.\<close>

lemma event_wait_timeout_result:
  assumes "os_event_wait_timeout flags woken n c msk al = Some (events, cleared)"
  shows "events = 0 \<and> cleared = 0 \<and> (\<exists>k \<ge> n. \<not> woken k) \<or>
    (\<exists>k \<ge> n. \<not> event_waits al msk (flags k) \<and> events = flags k AND msk \<and> cleared = (if c then events else 0))"
proof -
  have "\<forall>events cleared. y = (events, cleared) \<longrightarrow> (events = 0 \<and> cleared = 0 \<and> (\<exists>k \<ge> n. \<not> woken k)) \<or>
      (\<exists>k \<ge> n. \<not> event_waits al msk (flags k) \<and> events = flags k AND msk \<and> cleared = (if c then events else 0))"
    if "os_event_wait_timeout flags woken n c msk al = Some y" for flags woken n c msk al y
  proof (rule os_event_wait_timeout.raw_induct [OF _ that], goal_cases)
    case (1 wait flags woken n c msk al y)
    show ?case
    proof (cases "event_waits al msk (flags n)")
      case True
      then show ?thesis using 1(2) 1(1) [of flags woken "Suc n" c msk al y]
        by (cases "woken n") (auto, (metis Suc_leD)+)
    next
      case False
      then show ?thesis using 1(2) by (auto simp: event_take_def Let_def)
    qed
  qed
  then show ?thesis using assms by blast
qed

end
