(* ===== verification/MLock.thy ===== *)
theory MLock
  imports OsSync
begin

text \<open>
  The recursive locks with a priority ceiling, src/os_mlock.c. A lock is a semaphore with an owner and a count; each
  thread keeps the number of locks it holds and its own priority in thread-local storage. The thread that calls is
  the argument \<open>self\<close>. What \<open>os_thread_set_prio (0, prio)\<close> does to the priorities of the threads and what the wait for
  the semaphore answers are arguments, because the ports differ; the POSIX port is the instance given here.
\<close>

section \<open>Data\<close>

record MLock =
  ml_s :: nat
  ml_owner :: addr
  ml_cnt :: int
  ml_prio :: u32

record mlock_state =
  mk_lock :: "addr \<Rightarrow> MLock"
  mk_tls_prio :: int
  mk_tls_cnt :: int
  mk_tls :: tls_state
  mk_prio :: "addr \<Rightarrow> u32"
  mk_heap :: "addr set"

type_synonym set_prio = "addr \<Rightarrow> u32 \<Rightarrow> (addr \<Rightarrow> u32) \<Rightarrow> (addr \<Rightarrow> u32)"

type_synonym sem_wait = "nat \<Rightarrow> (int \<times> nat) option"

text \<open>In the POSIX port \<open>os_thread_set_prio\<close> returns at once when it gets no thread.\<close>

definition os_thread_set_prio :: "(addr \<Rightarrow> u32 \<Rightarrow> (addr \<Rightarrow> u32) \<Rightarrow> (addr \<Rightarrow> u32)) \<Rightarrow> addr \<Rightarrow> u32 \<Rightarrow> (addr \<Rightarrow> u32) \<Rightarrow> (addr \<Rightarrow> u32)" where
  "os_thread_set_prio sched thread prio ps = (if thread = NULL then ps else sched thread prio ps)"

definition posix_set_prio :: "set_prio \<Rightarrow> set_prio" where
  "posix_set_prio sched self = os_thread_set_prio sched NULL"

definition upd_lock :: "addr \<Rightarrow> (MLock \<Rightarrow> MLock) \<Rightarrow> mlock_state \<Rightarrow> mlock_state" where
  "upd_lock m f s = s\<lparr>mk_lock := (mk_lock s)(m := f (mk_lock s m))\<rparr>"

definition tls_put :: "addr \<Rightarrow> int \<Rightarrow> u32 \<Rightarrow> mlock_state \<Rightarrow> mlock_state" where
  "tls_put self idx v s = s\<lparr>mk_tls := snd (os_thread_tls_set self idx v (mk_tls s))\<rparr>"

section \<open>Operations\<close>

definition os_mlock_init :: "addr \<Rightarrow> addr \<Rightarrow> u32 \<Rightarrow> mlock_state \<Rightarrow> int \<times> mlock_state" where
  "os_mlock_init self m prio s =
     (let s = (if mk_tls_prio s < 0 then
                 (let (_, idx, tls) = os_thread_tls_alloc self (mk_tls s) in s\<lparr>mk_tls_prio := idx, mk_tls := tls\<rparr>) else s);
          s = (if mk_tls_cnt s < 0 then
                 (let (_, idx, tls) = os_thread_tls_alloc self (mk_tls s) in s\<lparr>mk_tls_cnt := idx, mk_tls := tls\<rparr>) else s)
      in (EOK, upd_lock m (\<lambda>l. l\<lparr>ml_s := 1, ml_owner := NULL, ml_prio := prio, ml_cnt := 0\<rparr>) s))"

text \<open>\<open>m\<close>: what \<open>qoraal_malloc\<close> returns.\<close>

definition os_mlock_create :: "addr \<Rightarrow> addr \<Rightarrow> u32 \<Rightarrow> mlock_state \<Rightarrow> int \<times> addr \<times> mlock_state" where
  "os_mlock_create self m prio s =
     (if m = NULL then (E_NOMEM, NULL, s)
      else (let (r, s) = os_mlock_init self m prio (s\<lparr>mk_heap := insert m (mk_heap s)\<rparr>) in (r, m, s)))"

text \<open>The priority section of the lock operations.\<close>

definition mlock_raise :: "set_prio \<Rightarrow> addr \<Rightarrow> addr \<Rightarrow> mlock_state \<Rightarrow> mlock_state" where
  "mlock_raise setp self m s =
     (if os_thread_tls_get self (mk_tls_prio s) (mk_tls s) = 0 then
        (let prio = mk_prio s self;
             s = tls_put self (mk_tls_prio s) prio s
         in if prio < ml_prio (mk_lock s m) then s\<lparr>mk_prio := setp self (ml_prio (mk_lock s m)) (mk_prio s)\<rparr> else s)
      else s)"

text \<open>\<open>os_mlock_lock\<close> up to the wait for the semaphore (the result says whether it has returned), and after it.\<close>

definition mlock_lock_begin :: "set_prio \<Rightarrow> addr \<Rightarrow> addr \<Rightarrow> mlock_state \<Rightarrow> bool \<times> mlock_state" where
  "mlock_lock_begin setp self m s =
     (if ml_owner (mk_lock s m) = self then (True, upd_lock m (\<lambda>l. l\<lparr>ml_cnt := ml_cnt l + 1\<rparr>) s)
      else (False, mlock_raise setp self m s))"

definition mlock_lock_end :: "addr \<Rightarrow> addr \<Rightarrow> mlock_state \<Rightarrow> mlock_state" where
  "mlock_lock_end self m s =
     (let s = upd_lock m (\<lambda>l. l\<lparr>ml_owner := self, ml_cnt := 1\<rparr>) s
      in tls_put self (mk_tls_cnt s) (os_thread_tls_get self (mk_tls_cnt s) (mk_tls s) + 1) s)"

definition os_mlock_lock :: "set_prio \<Rightarrow> sem_wait \<Rightarrow> addr \<Rightarrow> addr \<Rightarrow> mlock_state \<Rightarrow> mlock_state option" where
  "os_mlock_lock setp wait self m s =
     (case mlock_lock_begin setp self m s of
        (True, s) \<Rightarrow> Some s
      | (False, s) \<Rightarrow>
          (case wait (ml_s (mk_lock s m)) of
             None \<Rightarrow> None
           | Some (_, c) \<Rightarrow> Some (mlock_lock_end self m (upd_lock m (\<lambda>l. l\<lparr>ml_s := c\<rparr>) s))))"

definition os_mlock_unlock :: "set_prio \<Rightarrow> addr \<Rightarrow> addr \<Rightarrow> mlock_state \<Rightarrow> mlock_state" where
  "os_mlock_unlock setp self m s =
     (let s = upd_lock m (\<lambda>l. l\<lparr>ml_cnt := ml_cnt l - 1\<rparr>) s
      in if ml_cnt (mk_lock s m) = 0 then
           (let s = upd_lock m (\<lambda>l. l\<lparr>ml_owner := NULL\<rparr>) s;
                cnt = os_thread_tls_get self (mk_tls_cnt s) (mk_tls s) - 1;
                s = tls_put self (mk_tls_cnt s) cnt s;
                s = (if cnt = 0 then
                       (let prio = os_thread_tls_get self (mk_tls_prio s) (mk_tls s)
                        in if prio \<noteq> mk_prio s self then s\<lparr>mk_prio := setp self prio (mk_prio s)\<rparr> else s)
                     else s)
            in upd_lock m (\<lambda>l. l\<lparr>ml_s := os_sem_signal (ml_s l)\<rparr>) s)
         else s)"

definition os_mlock_trylock :: "set_prio \<Rightarrow> sem_wait \<Rightarrow> addr \<Rightarrow> addr \<Rightarrow> mlock_state \<Rightarrow> (bool \<times> mlock_state) option" where
  "os_mlock_trylock setp wait self m s =
     (if ml_owner (mk_lock s m) = self then Some (True, upd_lock m (\<lambda>l. l\<lparr>ml_cnt := ml_cnt l + 1\<rparr>) s)
      else
        (case wait (ml_s (mk_lock s m)) of
           None \<Rightarrow> None
         | Some (ret, c) \<Rightarrow>
             (let s = upd_lock m (\<lambda>l. l\<lparr>ml_s := c\<rparr>) s
              in if ret = EOK then Some (True, mlock_lock_end self m (mlock_raise setp self m s)) else Some (False, s))))"

text \<open>\<open>os_mlock_deinit\<close> unlocks until there is no owner; then the semaphore is destroyed.\<close>

partial_function (option) mlock_unlock_all :: "set_prio \<Rightarrow> addr \<Rightarrow> addr \<Rightarrow> mlock_state \<Rightarrow> mlock_state option" where
  "mlock_unlock_all setp self m s =
     (if ml_owner (mk_lock s m) \<noteq> NULL then mlock_unlock_all setp self m (os_mlock_unlock setp self m s) else Some s)"

definition os_mlock_deinit :: "set_prio \<Rightarrow> addr \<Rightarrow> addr \<Rightarrow> mlock_state \<Rightarrow> mlock_state option" where
  "os_mlock_deinit setp self m s = mlock_unlock_all setp self m s"

definition os_mlock_delete :: "set_prio \<Rightarrow> addr \<Rightarrow> addr \<Rightarrow> mlock_state \<Rightarrow> mlock_state option" where
  "os_mlock_delete setp self m s =
     map_option (\<lambda>s. s\<lparr>mk_heap := mk_heap s - {m}\<rparr>) (os_mlock_deinit setp self m s)"

section \<open>Reachable states\<close>

text \<open>Where a thread is: running, waiting for the semaphore of a lock, or past the wait but not yet its owner.\<close>

datatype mlock_pc = Running | Waiting addr | Passed addr

inductive mlock_reach :: "set_prio \<Rightarrow> mlock_state \<Rightarrow> (addr \<Rightarrow> mlock_pc) \<Rightarrow> bool" for setp where
  start: "\<forall>m. ml_s (mk_lock s m) = 1 \<and> ml_owner (mk_lock s m) = NULL \<and> ml_cnt (mk_lock s m) = 0 \<Longrightarrow>
            mlock_reach setp s (\<lambda>_. Running)"
| init: "mlock_reach setp s pc \<Longrightarrow> \<forall>t. pc t \<noteq> Waiting m \<and> pc t \<noteq> Passed m \<Longrightarrow> ml_owner (mk_lock s m) = NULL \<Longrightarrow>
            mlock_reach setp (snd (os_mlock_init t m prio s)) pc"
| lock: "mlock_reach setp s pc \<Longrightarrow> pc t = Running \<Longrightarrow> t \<noteq> NULL \<Longrightarrow> mlock_lock_begin setp t m s = (b, s') \<Longrightarrow>
            mlock_reach setp s' (if b then pc else pc(t := Waiting m))"
| pass: "mlock_reach setp s pc \<Longrightarrow> pc t = Waiting m \<Longrightarrow> ml_s (mk_lock s m) > 0 \<Longrightarrow>
            mlock_reach setp (upd_lock m (\<lambda>l. l\<lparr>ml_s := ml_s l - 1\<rparr>) s) (pc(t := Passed m))"
| own: "mlock_reach setp s pc \<Longrightarrow> pc t = Passed m \<Longrightarrow> mlock_reach setp (mlock_lock_end t m s) (pc(t := Running))"
| trylock: "mlock_reach setp s pc \<Longrightarrow> pc t = Running \<Longrightarrow> t \<noteq> NULL \<Longrightarrow>
            os_mlock_trylock setp (\<lambda>c. if c > 0 then Some (EOK, c - 1) else Some (E_TIMEOUT, c)) t m s = Some (r, s') \<Longrightarrow>
            mlock_reach setp s' pc"
| unlock: "mlock_reach setp s pc \<Longrightarrow> pc t = Running \<Longrightarrow> t \<noteq> NULL \<Longrightarrow> ml_owner (mk_lock s m) = t \<Longrightarrow>
            mlock_reach setp (os_mlock_unlock setp t m s) pc"

definition holds :: "mlock_state \<Rightarrow> (addr \<Rightarrow> mlock_pc) \<Rightarrow> addr \<Rightarrow> addr \<Rightarrow> bool" where
  "holds s pc m t \<longleftrightarrow> t \<noteq> NULL \<and> (ml_owner (mk_lock s m) = t \<or> pc t = Passed m)"

section \<open>The locks are exclusive\<close>

definition lock_ok :: "MLock \<Rightarrow> (addr \<Rightarrow> mlock_pc) \<Rightarrow> addr \<Rightarrow> bool" where
  "lock_ok l pc m \<longleftrightarrow>
     ml_s l = 1 \<and> ml_owner l = NULL \<and> ml_cnt l = 0 \<and> (\<forall>t. pc t \<noteq> Passed m) \<or>
     ml_s l = 0 \<and> ml_owner l \<noteq> NULL \<and> ml_cnt l \<ge> 1 \<and> (\<forall>t. pc t \<noteq> Passed m) \<or>
     ml_s l = 0 \<and> ml_owner l = NULL \<and> ml_cnt l = 0 \<and> (\<exists>t. \<forall>u. pc u = Passed m \<longleftrightarrow> u = t)"

definition mlock_inv :: "mlock_state \<Rightarrow> (addr \<Rightarrow> mlock_pc) \<Rightarrow> bool" where
  "mlock_inv s pc \<longleftrightarrow> (\<forall>m. lock_ok (mk_lock s m) pc m) \<and> pc NULL = Running"

lemma mlock_fields [simp]:
  "mk_lock (upd_lock m f s) = (mk_lock s)(m := f (mk_lock s m))" "mk_lock (tls_put t i v s) = mk_lock s"
  "mk_tls (upd_lock m f s) = mk_tls s" "mk_tls_prio (upd_lock m f s) = mk_tls_prio s" "mk_tls_cnt (upd_lock m f s) = mk_tls_cnt s"
  "mk_prio (upd_lock m f s) = mk_prio s" "mk_prio (tls_put t i v s) = mk_prio s"
  "mk_tls_prio (tls_put t i v s) = mk_tls_prio s" "mk_tls_cnt (tls_put t i v s) = mk_tls_cnt s"
  "mk_lock (mlock_raise setp t m s) = mk_lock s"
  "mk_tls_cnt (mlock_raise setp t m s) = mk_tls_cnt s" "mk_tls_prio (mlock_raise setp t m s) = mk_tls_prio s"
  by (simp_all add: upd_lock_def tls_put_def mlock_raise_def Let_def)

lemma lock_end_lock [simp]: "mk_lock (mlock_lock_end t m s) = (mk_lock s)(m := (mk_lock s m)\<lparr>ml_owner := t, ml_cnt := 1\<rparr>)"
  by (simp add: mlock_lock_end_def Let_def)

lemma unlock_lock:
  "mk_lock (os_mlock_unlock setp t m s) = (mk_lock s)(m := (if ml_cnt (mk_lock s m) = 1
     then (mk_lock s m)\<lparr>ml_cnt := 0, ml_owner := NULL, ml_s := ml_s (mk_lock s m) + 1\<rparr>
     else (mk_lock s m)\<lparr>ml_cnt := ml_cnt (mk_lock s m) - 1\<rparr>))"
  by (simp add: os_mlock_unlock_def Let_def os_sem_signal_def)

lemma lock_begin_lock:
  assumes "mlock_lock_begin setp t m s = (b, s')"
  shows "b \<longleftrightarrow> ml_owner (mk_lock s m) = t"
    "mk_lock s' = (if b then (mk_lock s)(m := (mk_lock s m)\<lparr>ml_cnt := ml_cnt (mk_lock s m) + 1\<rparr>) else mk_lock s)"
  using assms by (auto simp: mlock_lock_begin_def split: if_splits)

lemma trylock_lock:
  assumes "os_mlock_trylock setp (\<lambda>c. if c > 0 then Some (EOK, c - 1) else Some (E_TIMEOUT, c)) t m s = Some (r, s')"
  shows "mk_lock s' = (mk_lock s)(m :=
    (if ml_owner (mk_lock s m) = t then (mk_lock s m)\<lparr>ml_cnt := ml_cnt (mk_lock s m) + 1\<rparr>
     else if ml_s (mk_lock s m) > 0 then (mk_lock s m)\<lparr>ml_s := ml_s (mk_lock s m) - 1, ml_owner := t, ml_cnt := 1\<rparr>
     else (mk_lock s m)\<lparr>ml_s := ml_s (mk_lock s m)\<rparr>))"
  using assms by (auto simp: os_mlock_trylock_def Let_def err_codes split: if_splits)

lemma init_lock:
  "mk_lock (snd (os_mlock_init t m prio s)) =
     (mk_lock s)(m := (mk_lock s m)\<lparr>ml_s := 1, ml_owner := NULL, ml_prio := prio, ml_cnt := 0\<rparr>)"
  by (simp add: os_mlock_init_def Let_def split: prod.split)

text \<open>A step of a thread on one lock leaves the others alone.\<close>

lemma mlock_inv_step:
  assumes "mlock_inv s pc" "mk_lock s' = (mk_lock s)(m := l)" "lock_ok l (pc(t := p)) m" "t \<noteq> NULL"
    and "\<And>m'. m' \<noteq> m \<Longrightarrow> p \<noteq> Passed m' \<and> pc t \<noteq> Passed m'"
  shows "mlock_inv s' (pc(t := p))"
proof -
  have "lock_ok (mk_lock s' m') (pc(t := p)) m'" for m'
  proof (cases "m' = m")
    case False
    then have "(pc(t := p)) u = Passed m' \<longleftrightarrow> pc u = Passed m'" for u using assms(5) by auto
    then show ?thesis using assms(1,2) False by (simp add: mlock_inv_def lock_ok_def)
  qed (use assms(2,3) in simp)
  then show ?thesis using assms(1,4) by (simp add: mlock_inv_def)
qed

lemma mlock_inv_running:
  assumes "mlock_inv s pc" "mk_lock s' = (mk_lock s)(m := l)" "lock_ok l pc m"
  shows "mlock_inv s' pc"
  using assms by (auto simp: mlock_inv_def)

lemma mlock_reach_inv: "mlock_reach setp s pc \<Longrightarrow> mlock_inv s pc"
proof (induction rule: mlock_reach.induct)
  case (init s pc m t prio)
  show ?case by (rule mlock_inv_running [OF init.IH init_lock]) (use init.hyps in \<open>simp add: lock_ok_def\<close>)
next
  case (lock s pc t m b s')
  have ok: "lock_ok (mk_lock s m) pc m" using lock.IH by (simp add: mlock_inv_def)
  show ?case
  proof (cases b)
    case True
    have "lock_ok ((mk_lock s m)\<lparr>ml_cnt := ml_cnt (mk_lock s m) + 1\<rparr>) pc m"
      using ok lock_begin_lock(1) [OF lock.hyps(4)] True lock.hyps(3) by (auto simp: lock_ok_def)
    then show ?thesis
      using mlock_inv_running [OF lock.IH] lock_begin_lock(2) [OF lock.hyps(4)] True by auto
  next
    case False
    have "\<And>u m'. (pc(t := Waiting m)) u = Passed m' \<longleftrightarrow> pc u = Passed m'" using lock.hyps(2) by auto
    then have "lock_ok (mk_lock s m) (pc(t := Waiting m)) m" using ok by (simp add: lock_ok_def)
    then have "mlock_inv s' (pc(t := Waiting m))"
      by (intro mlock_inv_step [OF lock.IH, of s' m "mk_lock s m"])
        (use lock_begin_lock(2) [OF lock.hyps(4)] False lock.hyps(2,3) in auto)
    then show ?thesis using False by (simp only: if_False)
  qed
next
  case (pass s pc t m)
  have "pc NULL = Running" using pass.IH by (simp add: mlock_inv_def)
  then have t: "t \<noteq> NULL" using pass.hyps(2) by (cases "t = NULL") simp_all
  have "lock_ok (mk_lock s m) pc m" using pass.IH by (simp add: mlock_inv_def)
  then have "lock_ok ((mk_lock s m)\<lparr>ml_s := ml_s (mk_lock s m) - 1\<rparr>) (pc(t := Passed m)) m"
    using pass.hyps(3) by (auto simp: lock_ok_def)
  then show ?case
    by (intro mlock_inv_step [OF pass.IH, where m = m]) (use t pass.hyps(2) in auto)
next
  case (own s pc t m)
  have "pc NULL = Running" using own.IH by (simp add: mlock_inv_def)
  then have t: "t \<noteq> NULL" using own.hyps(2) by (cases "t = NULL") simp_all
  have "lock_ok (mk_lock s m) pc m" using own.IH by (simp add: mlock_inv_def)
  then have "lock_ok ((mk_lock s m)\<lparr>ml_owner := t, ml_cnt := 1\<rparr>) (pc(t := Running)) m"
    using own.hyps(2) t by (auto simp: lock_ok_def)
  then show ?case
    by (intro mlock_inv_step [OF own.IH, where m = m]) (use t own.hyps(2) in auto)
next
  case (trylock s pc t m r s')
  have ok: "lock_ok (mk_lock s m) pc m" using trylock.IH by (simp add: mlock_inv_def)
  note l = trylock_lock [OF trylock.hyps(4)]
  show ?case by (rule mlock_inv_running [OF trylock.IH l]) (use ok trylock.hyps(3) in \<open>auto simp: lock_ok_def\<close>)
next
  case (unlock s pc t m)
  have "lock_ok (mk_lock s m) pc m" using unlock.IH by (simp add: mlock_inv_def)
  then show ?case
    by (intro mlock_inv_running [OF unlock.IH unlock_lock]) (use unlock.hyps(3,4) in \<open>auto simp: lock_ok_def\<close>)
qed (simp add: mlock_inv_def lock_ok_def)


definition demo_mlock :: mlock_state where
  "demo_mlock = \<lparr>mk_lock = (\<lambda>_. \<lparr>ml_s = 1, ml_owner = 0, ml_cnt = 0, ml_prio = 80\<rparr>), mk_tls_prio = 0, mk_tls_cnt = 1,
     mk_tls = \<lparr>tls_values = (\<lambda>i. i < 2), tls_slot = (\<lambda>_ _. 0)\<rparr>, mk_prio = (\<lambda>_. 16), mk_heap = {}\<rparr>"


section \<open>The POSIX port\<close>

text \<open>In the POSIX port a thread that locks a lock held by another becomes its owner at once, without having taken the
  semaphore, whenever the fraction of the current second is 0.705 or more: the deadline computed for an infinite wait
  is invalid then, and the result of the wait is ignored.\<close>

theorem mlock_posix_not_exclusive:
  assumes "ml_s (mk_lock s m) = 0" "ml_owner (mk_lock s m) \<noteq> self" "ns \<ge> 705000000"
  shows "\<exists>s'. os_mlock_lock (posix_set_prio sched) (os_sem_wait_timeout strict passed (sec, ns) OS_TIME_INFINITE) self m s = Some s' \<and>
    ml_owner (mk_lock s' m) = self \<and> ml_cnt (mk_lock s' m) = 1 \<and> ml_s (mk_lock s' m) = 0"
proof -
  have "OS_TICKS2MS OS_TIME_INFINITE mod 1000 = 295" by (simp add: ticks_ms OS_TIME_INFINITE_def)
  then have "snd (sem_deadline (sec, ns) OS_TIME_INFINITE) \<ge> 1000000000" using assms(3) by (simp add: sem_deadline_def)
  then have "os_sem_wait_timeout strict passed (sec, ns) OS_TIME_INFINITE 0 = Some (EFAIL, 0)"
    by (simp add: os_sem_wait_timeout_def sem_timedwait_def)
  then show ?thesis using assms(1,2) by (simp add: os_mlock_lock_def mlock_lock_begin_def)
qed

theorem mlock_posix_not_exclusive_witness:
  "\<exists>s'. os_mlock_lock (posix_set_prio (\<lambda>_ _ ps. ps)) (os_sem_wait_timeout False False (0, 705000000) OS_TIME_INFINITE) 2 5
      (upd_lock 5 (\<lambda>l. l\<lparr>ml_s := 0, ml_owner := 1\<rparr>) demo_mlock) = Some s' \<and> ml_owner (mk_lock s' 5) = 2"
  using mlock_posix_not_exclusive [of "upd_lock 5 (\<lambda>l. l\<lparr>ml_s := 0, ml_owner := 1\<rparr>) demo_mlock" 5 2 705000000
    "\<lambda>_ _ ps. ps" False False 0] by auto

section \<open>The priority ceiling\<close>

text \<open>A wait that takes a free semaphore.\<close>

abbreviation take_sem :: sem_wait where
  "take_sem \<equiv> \<lambda>c. if c > 0 then Some (EOK, c - 1) else None"

lemma tls_put_get:
  assumes "self \<noteq> NULL" "0 \<le> (i :: int)" "i < 4"
  shows "os_thread_tls_get self j (mk_tls (tls_put self i v s)) = (if j = i then v else os_thread_tls_get self j (mk_tls s))"
  using assms eq_nat_nat_iff [of j i]
  by (auto simp: os_thread_tls_get_def tls_put_def os_thread_tls_set_def MAX_TLS_ID_def)

lemma mlock_raise_tls:
  assumes "self \<noteq> NULL" "0 \<le> mk_tls_prio s" "mk_tls_prio s < 4"
  shows "os_thread_tls_get self j (mk_tls (mlock_raise setp self m s)) =
    (if j = mk_tls_prio s \<and> os_thread_tls_get self j (mk_tls s) = 0 then mk_prio s self else os_thread_tls_get self j (mk_tls s))"
proof -
  let ?t = "tls_put self (mk_tls_prio s) (mk_prio s self) s"
  have "mk_tls (mlock_raise setp self m s) = (if os_thread_tls_get self (mk_tls_prio s) (mk_tls s) = 0 then mk_tls ?t else mk_tls s)"
    by (simp add: mlock_raise_def Let_def)
  then show ?thesis
    by (cases "os_thread_tls_get self (mk_tls_prio s) (mk_tls s) = 0"; cases "j = mk_tls_prio s") (simp_all add: tls_put_get [OF assms])
qed

text \<open>The first lock a thread takes raises it to the priority of the lock, and the unlock restores its own priority, but
  the saved priority is kept: the next time the thread locks, its priority is not raised any more.\<close>

theorem mlock_ceiling_only_once:
  assumes setp: "\<And>t p ps. setp t p ps = ps(t := p)"
    and tls: "0 \<le> mk_tls_prio s" "mk_tls_prio s < 4" "0 \<le> mk_tls_cnt s" "mk_tls_cnt s < 4" "mk_tls_prio s \<noteq> mk_tls_cnt s"
      "os_thread_tls_get self (mk_tls_prio s) (mk_tls s) = 0" "os_thread_tls_get self (mk_tls_cnt s) (mk_tls s) = 0"
    and l: "self \<noteq> NULL" "ml_s (mk_lock s m) = 1" "ml_owner (mk_lock s m) = NULL"
    and p: "mk_prio s self = p" "p \<noteq> 0" "p < ml_prio (mk_lock s m)"
  shows "\<exists>s1 s3. os_mlock_lock setp take_sem self m s = Some s1 \<and> mk_prio s1 self = ml_prio (mk_lock s m) \<and>
    mk_prio (os_mlock_unlock setp self m s1) self = p \<and>
    os_mlock_lock setp take_sem self m (os_mlock_unlock setp self m s1) = Some s3 \<and>
    mk_prio s3 self = p \<and> ml_owner (mk_lock s3 m) = self"
proof -
  define r where "r = mlock_raise setp self m s"
  define s1 where "s1 = mlock_lock_end self m (upd_lock m (\<lambda>l. l\<lparr>ml_s := 0\<rparr>) r)"
  define s2 where "s2 = os_mlock_unlock setp self m s1"
  have r: "mk_prio r self = ml_prio (mk_lock s m)" "mk_lock r = mk_lock s" "mk_tls_prio r = mk_tls_prio s" "mk_tls_cnt r = mk_tls_cnt s"
    using p tls(6) by (simp_all add: r_def mlock_raise_def Let_def setp)
  have lock: "os_mlock_lock setp take_sem self m s = Some s1"
    using l by (simp add: os_mlock_lock_def mlock_lock_begin_def s1_def r_def)
  have s1: "mk_prio s1 = mk_prio r" "mk_tls_prio s1 = mk_tls_prio s" "mk_tls_cnt s1 = mk_tls_cnt s"
      "os_thread_tls_get self (mk_tls_prio s) (mk_tls s1) = p" "os_thread_tls_get self (mk_tls_cnt s) (mk_tls s1) = 1"
      "mk_lock s1 m = (mk_lock s m)\<lparr>ml_s := 0, ml_owner := self, ml_cnt := 1\<rparr>"
    using tls l p by (simp_all add: s1_def mlock_lock_end_def Let_def tls_put_get r mlock_raise_tls r_def)
  have "p \<noteq> mk_prio s1 self" using p(3) r(1) s1(1) by simp
  then have s2: "mk_prio s2 self = p" "mk_tls_prio s2 = mk_tls_prio s" "mk_lock s2 m = (mk_lock s m)\<lparr>ml_s := 1, ml_owner := NULL, ml_cnt := 0\<rparr>"
      "os_thread_tls_get self (mk_tls_prio s) (mk_tls s2) = p"
    using s1 tls l by (simp_all add: s2_def os_mlock_unlock_def Let_def setp tls_put_get os_sem_signal_def)
  have "mlock_raise setp self m s2 = s2" using s2 p(2) by (simp add: mlock_raise_def)
  then have "os_mlock_lock setp take_sem self m s2 = Some (mlock_lock_end self m (upd_lock m (\<lambda>l. l\<lparr>ml_s := 0\<rparr>) s2))"
    using s2(3) l by (simp add: os_mlock_lock_def mlock_lock_begin_def)
  then show ?thesis using lock s1(1) r(1) s2(1) by (simp add: s2_def [symmetric] mlock_lock_end_def Let_def)
qed

theorem mlock_ceiling_only_once_witness:
  "\<exists>s1 s3. os_mlock_lock (\<lambda>t p ps. ps(t := p)) take_sem 1 5 demo_mlock = Some s1 \<and> mk_prio s1 1 = 80 \<and>
    os_mlock_lock (\<lambda>t p ps. ps(t := p)) take_sem 1 5 (os_mlock_unlock (\<lambda>t p ps. ps(t := p)) 1 5 s1) = Some s3 \<and> mk_prio s3 1 = 16"
proof -
  have d: "mk_prio demo_mlock 1 = 16" "ml_prio (mk_lock demo_mlock 5) = 80" "ml_s (mk_lock demo_mlock 5) = 1"
      "ml_owner (mk_lock demo_mlock 5) = 0" "mk_tls_prio demo_mlock = 0" "mk_tls_cnt demo_mlock = 1"
      "os_thread_tls_get 1 i (mk_tls demo_mlock) = 0" for i
    by (simp_all add: demo_mlock_def os_thread_tls_get_def)
  have "\<exists>s1 s3. os_mlock_lock (\<lambda>t p ps. ps(t := p)) take_sem 1 5 demo_mlock = Some s1 \<and> mk_prio s1 1 = ml_prio (mk_lock demo_mlock 5) \<and>
    mk_prio (os_mlock_unlock (\<lambda>t p ps. ps(t := p)) 1 5 s1) 1 = 16 \<and>
    os_mlock_lock (\<lambda>t p ps. ps(t := p)) take_sem 1 5 (os_mlock_unlock (\<lambda>t p ps. ps(t := p)) 1 5 s1) = Some s3 \<and>
    mk_prio s3 1 = 16 \<and> ml_owner (mk_lock s3 5) = 1"
    by (rule mlock_ceiling_only_once) (simp_all only: d, simp_all)
  then show ?thesis unfolding d(2) by blast
qed

end
