(* ===== verification/Mlog.thy ===== *)
theory Mlog
  imports CBuffer Rtclib
begin

text \<open>
  The logs in memory, src/common/mlog.c: two logs, for debug messages and assertions, each an item queue (CBuffer.thy)
  of messages of variable length, from which the oldest are dropped when there is no room. The content of a message is
  kept by the address of its item: items do not overlap (\<open>cqueue_enqueue_safe\<close>). A text is the list of its bytes before
  the terminating zero. What \<open>vsnprintf\<close> makes of the arguments of a message and the clock are arguments of the model.
\<close>

section \<open>Data\<close>

record QORAAL_LOG_MSG_T =
  lm_date :: RTCLIB_DATE_T
  lm_time :: RTCLIB_TIME_T
  lm_cnt :: u16
  lm_id :: u16
  lm_type :: u16
  lm_len :: u16
  lm_msg :: "u8 list"

datatype MLOG_TYPE_T = MLOG_DBG | MLOG_ASSERT

record MLOG_INST_T =
  in_cbuffer :: CBUFFER_QUEUE_T
  in_logbuffer_size :: u32
  in_logbuffer :: addr
  in_msg :: "addr \<Rightarrow> QORAAL_LOG_MSG_T"

text \<open>\<open>mg_lock\<close>: how often the mutex is locked.\<close>

record mlog_state =
  mg_inst :: "MLOG_TYPE_T \<Rightarrow> MLOG_INST_T option"
  mg_started :: bool
  mg_cnt :: u16
  mg_lock :: int

definition MLOG_LOGS_BUFFERSIZE_MIN :: u32 where "MLOG_LOGS_BUFFERSIZE_MIN = 512"
definition MLOG_LOGS_MSG_SIZE_MAX :: nat where "MLOG_LOGS_MSG_SIZE_MAX = 256"

text \<open>The sizes of the two structures with 64-bit pointers, and the offset of the buffer in words.\<close>

definition MLOG_INST_SIZE :: u32 where "MLOG_INST_SIZE = 64"
definition MLOG_INST_LOGBUFFER :: nat where "MLOG_INST_LOGBUFFER = 15"
definition LOG_MSG_SIZE :: nat where "LOG_MSG_SIZE = 16"

section \<open>Starting\<close>

definition get_cqueue :: "mlog_state \<Rightarrow> MLOG_TYPE_T \<Rightarrow> CBUFFER_QUEUE_T option" where
  "get_cqueue s log = (if \<not> mg_started s then None else map_option in_cbuffer (mg_inst s log))"

definition upd_inst :: "MLOG_TYPE_T \<Rightarrow> MLOG_INST_T \<Rightarrow> mlog_state \<Rightarrow> mlog_state" where
  "upd_inst log i s = s\<lparr>mg_inst := (mg_inst s)(log := Some i)\<rparr>"

definition inst_init :: "MLOG_INST_T \<Rightarrow> MLOG_INST_T" where
  "inst_init i = i\<lparr>in_cbuffer := cqueue_init (in_cbuffer i) (in_logbuffer i) (unat (in_logbuffer_size i) div 4)\<rparr>"

definition mlog_reset :: "MLOG_TYPE_T \<Rightarrow> mlog_state \<Rightarrow> int \<times> mlog_state" where
  "mlog_reset log s =
     (if \<not> mg_started s then (E_UNEXP, s)
      else case mg_inst s log of None \<Rightarrow> (EOK, s) | Some i \<Rightarrow> (EOK, upd_inst log (inst_init i) s))"

text \<open>One of the two logs: \<open>buffer\<close> is its memory, \<open>found\<close> what the memory contains, which may be a log from before a reset.\<close>

definition mlog_init_log :: "MLOG_TYPE_T \<Rightarrow> addr \<Rightarrow> u32 \<Rightarrow> MLOG_INST_T \<Rightarrow> mlog_state \<Rightarrow> mlog_state option" where
  "mlog_init_log log buffer sz found s =
     (if buffer \<noteq> NULL \<and> sz \<ge> MLOG_LOGS_BUFFERSIZE_MIN then
        (let i = found\<lparr>in_logbuffer_size := sz - MLOG_INST_SIZE, in_logbuffer := buffer + MLOG_INST_LOGBUFFER\<rparr>
         in case cqueue_validate (in_cbuffer i) (in_logbuffer i) (unat (in_logbuffer_size i) div 4) of
              None \<Rightarrow> None
            | Some (ok, q) \<Rightarrow>
                (let i = i\<lparr>in_cbuffer := q\<rparr> in Some (upd_inst log (if ok then i else inst_init i) s)))
      else Some s)"

definition mlog_init ::
    "addr \<Rightarrow> u32 \<Rightarrow> MLOG_INST_T \<Rightarrow> addr \<Rightarrow> u32 \<Rightarrow> MLOG_INST_T \<Rightarrow> mlog_state \<Rightarrow> (int \<times> mlog_state) option" where
  "mlog_init log_buffer log_size log_found assert_buffer assert_size assert_found s =
     (case mlog_init_log MLOG_DBG log_buffer log_size log_found s of
        None \<Rightarrow> None
      | Some s \<Rightarrow>
          (case mlog_init_log MLOG_ASSERT assert_buffer assert_size assert_found s of
             None \<Rightarrow> None
           | Some s \<Rightarrow> Some (EOK, s\<lparr>mg_started := True\<rparr>)))"

definition mlog_started :: "mlog_state \<Rightarrow> bool" where
  "mlog_started s \<longleftrightarrow> mg_started s"

section \<open>Adding messages\<close>

text \<open>The text in the print buffer: \<open>None\<close> is an error of \<open>vsnprintf\<close>, else all it would have written.\<close>

definition print_buffer :: "u8 list option \<Rightarrow> u8 list" where
  "print_buffer printed =
     (case printed of
        None \<Rightarrow> []
      | Some text \<Rightarrow> if length text \<ge> MLOG_LOGS_MSG_SIZE_MAX then take (MLOG_LOGS_MSG_SIZE_MAX - 1) text else text)"

fun strip_eol :: "u8 list \<Rightarrow> u8 list" where
  "strip_eol msg = (if msg \<noteq> [] \<and> (last msg = 13 \<or> last msg = 10) then strip_eol (butlast msg) else msg)"

declare strip_eol.simps [simp del]

text \<open>The loop that drops the oldest messages; \<open>cnt\<close> is the variable of the loop.\<close>

fun make_room :: "('q \<Rightarrow> u32 \<Rightarrow> addr \<times> 'q) \<Rightarrow> ('q \<Rightarrow> nat \<times> 'q) \<Rightarrow> nat \<Rightarrow> u32 \<Rightarrow> addr \<times> 'q \<Rightarrow> addr \<times> 'q" where
  "make_room enq deq cnt len (buffer, q) =
     (if buffer \<noteq> NULL then (buffer, q)
      else
        (let (r, q) = deq q
         in if r = 0 then (buffer, q)
            else case cnt of 0 \<Rightarrow> (buffer, q) | Suc cnt \<Rightarrow> make_room enq deq cnt len (enq q len)))"

declare make_room.simps [simp del]

definition msg_words :: "nat \<Rightarrow> u32" where
  "msg_words msglen = of_nat ((LOG_MSG_SIZE + msglen + 1 + 4) div 4)"

definition append_msg :: "u16 \<Rightarrow> u16 \<Rightarrow> MLOG_TYPE_T \<Rightarrow> u8 list option \<Rightarrow> u32 \<Rightarrow> mlog_state \<Rightarrow> int \<times> mlog_state" where
  "append_msg ty ident log printed now s =
     (case mg_inst s log of
        None \<Rightarrow> (E_UNEXP, s)
      | Some i \<Rightarrow>
          if get_cqueue s log = None then (E_UNEXP, s)
          else
            (let text = print_buffer printed;
                 (buffer, q) = make_room cqueue_enqueue cqueue_dequeue 10 (msg_words (length text))
                                 (cqueue_enqueue (in_cbuffer i) (msg_words (length text)));
                 i = i\<lparr>in_cbuffer := q\<rparr>
             in if buffer \<noteq> NULL then
                  (let msg = \<lparr>lm_date = rtc_get_date now, lm_time = rtc_get_time now, lm_cnt = mg_cnt s, lm_id = ident, lm_type = ty,
                              lm_len = of_nat (length (strip_eol text) + 1), lm_msg = strip_eol text\<rparr>
                   in (EOK, upd_inst log (i\<lparr>in_msg := (in_msg i)(buffer := msg)\<rparr>) (s\<lparr>mg_cnt := mg_cnt s + 1\<rparr>)))
                else (EOK, upd_inst log i s)))"

definition mlog_append :: "u16 \<Rightarrow> u16 \<Rightarrow> MLOG_TYPE_T \<Rightarrow> u8 list option \<Rightarrow> u32 \<Rightarrow> mlog_state \<Rightarrow> int \<times> mlog_state" where
  "mlog_append ty ident log printed now s =
     (if \<not> mg_started s then (E_UNEXP, s) else append_msg ty ident log printed now s)"

definition mlog_vdbg :: "u16 \<Rightarrow> u16 \<Rightarrow> u8 list option \<Rightarrow> u32 \<Rightarrow> mlog_state \<Rightarrow> int \<times> mlog_state" where
  "mlog_vdbg ty ident printed now s = mlog_append ty ident MLOG_DBG printed now s"

definition mlog_dbg :: "u16 \<Rightarrow> u16 \<Rightarrow> u8 list option \<Rightarrow> u32 \<Rightarrow> mlog_state \<Rightarrow> int \<times> mlog_state" where
  "mlog_dbg ty ident printed now s = mlog_append ty ident MLOG_DBG printed now s"

text \<open>The union of \<open>mlog_log\<close>: the severity is the low byte of the type.\<close>

definition mlog_log :: "u16 \<Rightarrow> u16 \<Rightarrow> u8 list option \<Rightarrow> u32 \<Rightarrow> mlog_state \<Rightarrow> int \<times> mlog_state" where
  "mlog_log facility severity printed now s =
     mlog_append (push_bit 8 (ucast (ucast facility :: u8)) OR ucast (ucast severity :: u8)) 0 MLOG_DBG printed now s"

definition mlog_assert :: "u8 list option \<Rightarrow> u32 \<Rightarrow> mlog_state \<Rightarrow> int \<times> mlog_state" where
  "mlog_assert printed now s = append_msg 0 0 MLOG_ASSERT printed now s"

section \<open>Reading messages\<close>

fun get_walk :: "CBUFFER_QUEUE_T \<Rightarrow> nat \<Rightarrow> addr \<Rightarrow> addr" where
  "get_walk q 0 it = it"
| "get_walk q (Suc idx) it = (if it = NULL then it else get_walk q idx (cqueue_backwards q it))"

text \<open>A message is returned as the address of its item; \<open>msg_at\<close> is its content.\<close>

definition mlog_get :: "mlog_state \<Rightarrow> MLOG_TYPE_T \<Rightarrow> u16 \<Rightarrow> addr" where
  "mlog_get s log idx =
     (if \<not> mg_started s then NULL
      else case get_cqueue s log of None \<Rightarrow> NULL | Some q \<Rightarrow> get_walk q (unat idx) (cqueue_front q))"

definition mlog_total :: "mlog_state \<Rightarrow> MLOG_TYPE_T \<Rightarrow> int" where
  "mlog_total s log =
     (if \<not> mg_started s then 0 else case get_cqueue s log of None \<Rightarrow> 0 | Some q \<Rightarrow> cqueue_count q)"

definition type_matches :: "(addr \<Rightarrow> QORAAL_LOG_MSG_T) \<Rightarrow> u16 \<Rightarrow> addr \<Rightarrow> bool" where
  "type_matches msg ty it \<longleftrightarrow> ty = 0 \<or> lm_type (msg it) AND ty \<noteq> 0"

partial_function (option) count_walk ::
    "CBUFFER_QUEUE_T \<Rightarrow> (addr \<Rightarrow> QORAAL_LOG_MSG_T) \<Rightarrow> u16 \<Rightarrow> addr \<Rightarrow> int \<Rightarrow> int option" where
  "count_walk q msg ty it count =
     (if it = NULL then Some count
      else if \<not> cqueue_validate_item q it then Some count
      else count_walk q msg ty (cqueue_backwards q it) (if type_matches msg ty it then count + 1 else count))"

definition mlog_count :: "mlog_state \<Rightarrow> MLOG_TYPE_T \<Rightarrow> u16 \<Rightarrow> int option" where
  "mlog_count s log ty =
     (if \<not> mg_started s then Some 0
      else case mg_inst s log of None \<Rightarrow> Some 0 | Some i \<Rightarrow> count_walk (in_cbuffer i) (in_msg i) ty (cqueue_front (in_cbuffer i)) 0)"

text \<open>The loop of the iterators; \<open>step\<close> is \<open>cqueue_backwards\<close> or \<open>cqueue_forwards\<close>.\<close>

partial_function (option) iter_walk ::
    "(CBUFFER_QUEUE_T \<Rightarrow> addr \<Rightarrow> addr) \<Rightarrow> CBUFFER_QUEUE_T \<Rightarrow> (addr \<Rightarrow> QORAAL_LOG_MSG_T) \<Rightarrow> u16 \<Rightarrow> addr \<Rightarrow> addr option" where
  "iter_walk step q msg ty it =
     (if it = NULL then Some it
      else if \<not> cqueue_validate_item q it then Some NULL
      else if type_matches msg ty it then Some it
      else iter_walk step q msg ty (step q it))"

definition mlog_itertor_first :: "mlog_state \<Rightarrow> MLOG_TYPE_T \<Rightarrow> u16 \<Rightarrow> addr option" where
  "mlog_itertor_first s log ty =
     (if \<not> mg_started s then Some NULL
      else case mg_inst s log of None \<Rightarrow> Some NULL
           | Some i \<Rightarrow> iter_walk cqueue_backwards (in_cbuffer i) (in_msg i) ty (cqueue_front (in_cbuffer i)))"

definition mlog_itertor_last :: "mlog_state \<Rightarrow> MLOG_TYPE_T \<Rightarrow> u16 \<Rightarrow> addr option" where
  "mlog_itertor_last s log ty =
     (if \<not> mg_started s then Some NULL
      else case mg_inst s log of None \<Rightarrow> Some NULL
           | Some i \<Rightarrow> iter_walk cqueue_forwards (in_cbuffer i) (in_msg i) ty (cqueue_back (in_cbuffer i)))"

definition mlog_itertor_prev :: "mlog_state \<Rightarrow> MLOG_TYPE_T \<Rightarrow> addr \<Rightarrow> u16 \<Rightarrow> addr option" where
  "mlog_itertor_prev s log it ty =
     (if \<not> mg_started s then Some NULL
      else case mg_inst s log of None \<Rightarrow> Some NULL
           | Some i \<Rightarrow> iter_walk cqueue_backwards (in_cbuffer i) (in_msg i) ty (cqueue_backwards (in_cbuffer i) it))"

definition mlog_itertor_next :: "mlog_state \<Rightarrow> MLOG_TYPE_T \<Rightarrow> addr \<Rightarrow> u16 \<Rightarrow> addr option" where
  "mlog_itertor_next s log it ty =
     (if \<not> mg_started s then Some NULL
      else case mg_inst s log of None \<Rightarrow> Some NULL
           | Some i \<Rightarrow> iter_walk cqueue_forwards (in_cbuffer i) (in_msg i) ty (cqueue_forwards (in_cbuffer i) it))"

text \<open>The mutex stays locked when a message is returned, until the release.\<close>

definition mlog_itertor_get :: "mlog_state \<Rightarrow> MLOG_TYPE_T \<Rightarrow> addr \<Rightarrow> QORAAL_LOG_MSG_T option \<times> mlog_state" where
  "mlog_itertor_get s log it =
     (if \<not> mg_started s then (None, s)
      else
        (let s' = s\<lparr>mg_lock := mg_lock s + 1\<rparr>
         in case mg_inst s log of
              None \<Rightarrow> (None, s'\<lparr>mg_lock := mg_lock s' - 1\<rparr>)
            | Some i \<Rightarrow>
                if it \<noteq> NULL \<and> cqueue_validate_item (in_cbuffer i) it then (Some (in_msg i it), s')
                else (None, s'\<lparr>mg_lock := mg_lock s' - 1\<rparr>)))"

definition mlog_itertor_release :: "mlog_state \<Rightarrow> MLOG_TYPE_T \<Rightarrow> addr \<Rightarrow> mlog_state" where
  "mlog_itertor_release s log it = (if \<not> mg_started s then s else s\<lparr>mg_lock := mg_lock s - 1\<rparr>)"

section \<open>The iterator of the platform\<close>

record MEMLOG_IT_T =
  pi_it :: addr
  pi_log :: MLOG_TYPE_T

definition it_prev_log :: "mlog_state \<Rightarrow> MEMLOG_IT_T \<Rightarrow> (int \<times> MEMLOG_IT_T) option" where
  "it_prev_log s it =
     (case mlog_itertor_prev s (pi_log it) (pi_it it) 0 of
        None \<Rightarrow> None
      | Some a \<Rightarrow> Some (if a = NULL then E_BOF else EOK, it\<lparr>pi_it := a\<rparr>))"

text \<open>The result is the status, the message copied from, how many bytes are copied, and up to where the memory of the
  caller is written.\<close>

definition it_get_log :: "mlog_state \<Rightarrow> MEMLOG_IT_T \<Rightarrow> u32 \<Rightarrow> (int \<times> QORAAL_LOG_MSG_T option \<times> u32 \<times> nat) \<times> mlog_state" where
  "it_get_log s it len =
     (case mlog_itertor_get s (pi_log it) (pi_it it) of
        (None, s) \<Rightarrow> ((EFAIL, None, 0, 0), s)
      | (Some m, s) \<Rightarrow>
          (let len = (if len > of_nat LOG_MSG_SIZE + ucast (lm_len m) then of_nat LOG_MSG_SIZE + ucast (lm_len m) else len);
               s = mlog_itertor_release s (pi_log it) (pi_it it)
           in ((sint len, Some m, len, max (unat len) (LOG_MSG_SIZE + unat (lm_len m) + 1)), s)))"

text \<open>\<open>m\<close>: what \<open>qoraal_malloc\<close> returns; it is freed again when the log is empty.\<close>

definition mlog_platform_it_create :: "addr \<Rightarrow> mlog_state \<Rightarrow> MLOG_TYPE_T \<Rightarrow> (addr \<times> MEMLOG_IT_T) option" where
  "mlog_platform_it_create m s log =
     (if \<not> mg_started s \<or> m = NULL then Some (NULL, \<lparr>pi_it = NULL, pi_log = log\<rparr>)
      else case mlog_itertor_first s log 0 of
             None \<Rightarrow> None
           | Some a \<Rightarrow> Some (if a = NULL then NULL else m, \<lparr>pi_it = a, pi_log = log\<rparr>))"

section \<open>Dropping the oldest messages\<close>

text \<open>The contract of the queue as the log uses it: no item is empty, so that a dequeue answers 0 only when the queue is empty.\<close>

locale sized_queue = item_queue +
  assumes item_sized: "inv q xs \<Longrightarrow> x \<in> set xs \<Longrightarrow> 0 < snd x"

context sized_queue
begin

lemma make_room_drops:
  assumes "inv q xs" "unat dw + CBUFFER_ITEM_HDR_DWSIZE < 4294967296" "make_room enq deq cnt dw (enq q dw) = (b, q')"
  shows "\<exists>k \<le> cnt + 1. if b = NULL then inv q' (drop k xs) \<and> (k = cnt + 1 \<or> length xs \<le> k)
    else inv q' (drop k xs @ [(b, unat dw + CBUFFER_ITEM_HDR_DWSIZE)]) \<and> (fst (enq q dw) \<noteq> NULL \<longrightarrow> k = 0)"
  using assms
proof (induction cnt arbitrary: q xs)
  case 0
  obtain a r where a: "enq q dw = (a, r)" by force
  show ?case
  proof (cases "a = NULL")
    case False
    then show ?thesis using 0 a enq_ok [OF 0(1,2) a] by (auto simp: make_room.simps)
  next
    case True
    then have r: "r = q" using enq_ok [OF 0(1,2) a] by simp
    show ?thesis
    proof (cases xs)
      case Nil
      then show ?thesis using 0 a r True deq_nil by (auto simp: make_room.simps)
    next
      case (Cons x ys)
      obtain n u where d: "deq q = (n, u)" by force
      have "inv u ys" "n \<noteq> 0" using deq_cons [OF _ d] item_sized [of q xs x] 0(1) Cons by auto
      then show ?thesis using 0(3) a r True d Cons by (intro exI [of _ 1]) (auto simp: make_room.simps)
    qed
  qed
next
  case (Suc cnt)
  obtain a r where a: "enq q dw = (a, r)" by force
  show ?case
  proof (cases "a = NULL")
    case False
    then show ?thesis using Suc.prems a enq_ok [OF Suc.prems(1,2) a] by (auto simp: make_room.simps)
  next
    case True
    then have r: "r = q" using enq_ok [OF Suc.prems(1,2) a] by simp
    show ?thesis
    proof (cases xs)
      case Nil
      then show ?thesis using Suc.prems a r True deq_nil by (auto simp: make_room.simps)
    next
      case (Cons x ys)
      obtain n u where d: "deq q = (n, u)" by force
      have u: "inv u ys" "n \<noteq> 0" using deq_cons [OF _ d] item_sized [of q xs x] Suc.prems(1) Cons by auto
      have "make_room enq deq cnt dw (enq u dw) = (b, q')"
        using Suc.prems(3) a r True d u(2) by (simp add: make_room.simps)
      from Suc.IH [OF u(1) Suc.prems(2) this] obtain k where "k \<le> cnt + 1"
          "if b = NULL then inv q' (drop k ys) \<and> (k = cnt + 1 \<or> length ys \<le> k)
           else inv q' (drop k ys @ [(b, unat dw + CBUFFER_ITEM_HDR_DWSIZE)]) \<and> (fst (enq u dw) \<noteq> NULL \<longrightarrow> k = 0)" by blast
      then show ?thesis using a True Cons by (intro exI [of _ "Suc k"]) (auto split: if_splits)
    qed
  qed
qed

end

interpretation log_queue: sized_queue cq_inv cqueue_enqueue cqueue_dequeue
proof
  show "0 < snd x" if "cq_inv q xs" "x \<in> set xs" for q xs x using item_place [OF that] HDR_pos by linarith
qed

section \<open>Properties\<close>

definition log_msgs :: "MLOG_INST_T \<Rightarrow> (addr \<times> nat) list \<Rightarrow> QORAAL_LOG_MSG_T list" where
  "log_msgs i xs = map (\<lambda>x. in_msg i (fst x)) xs"

lemma strip_eol_snoc: "strip_eol [] = []" "strip_eol (msg @ [c]) = (if c = 13 \<or> c = 10 then strip_eol msg else msg @ [c])"
  by (simp_all add: strip_eol.simps [of "[]"] strip_eol.simps [of "msg @ [c]"])

lemma strip_eol_text: "\<exists>e. msg = strip_eol msg @ e \<and> set e \<subseteq> {13, 10} \<and> (strip_eol msg = [] \<or> last (strip_eol msg) \<notin> {13, 10})"
proof (induction msg rule: rev_induct)
  case (snoc c msg)
  then obtain e where "msg = strip_eol msg @ e" "set e \<subseteq> {13, 10}" "strip_eol msg = [] \<or> last (strip_eol msg) \<notin> {13, 10}"
    by blast
  then show ?case
    by (cases "c = 13 \<or> c = 10") (auto simp: strip_eol_snoc intro!: exI [of _ "e @ [c]"])
qed (simp add: strip_eol_snoc)

lemma print_buffer_short: "length (print_buffer printed) < 256"
  by (auto simp: print_buffer_def MLOG_LOGS_MSG_SIZE_MAX_def split: option.split)

text \<open>The words reserved for a message hold its structure and its text with the terminating zero.\<close>

lemma msg_words_enough:
  assumes "length text < 256"
  shows "LOG_MSG_SIZE + length text + 1 \<le> 4 * unat (msg_words (length text))" "unat (msg_words (length text)) \<le> 69"
proof -
  have "unat (msg_words (length text)) = (LOG_MSG_SIZE + length text + 1 + 4) div 4"
    using assms by (simp add: msg_words_def LOG_MSG_SIZE_def unat_u32_of_nat)
  then show "LOG_MSG_SIZE + length text + 1 \<le> 4 * unat (msg_words (length text))" "unat (msg_words (length text)) \<le> 69"
    using assms by (simp_all add: LOG_MSG_SIZE_def)
qed

text \<open>C9: a log is a bounded FIFO of messages. A message for which there is room is put behind the others, cut to 255 bytes and
  without line ends at its end, and nothing is dropped. Else at most 11 of the oldest messages are dropped, the others stay
  in order and unchanged, and the new message is put behind them; it is lost only when 11 messages, or all, had to go
  without making room for it.\<close>

theorem mlog_append_bounded_fifo:
  assumes "mg_started s" "mg_inst s log = Some i" "cq_inv (in_cbuffer i) xs"
    and new: "new = \<lparr>lm_date = rtc_get_date now, lm_time = rtc_get_time now, lm_cnt = mg_cnt s, lm_id = ident, lm_type = ty,
      lm_len = of_nat (length (strip_eol (print_buffer printed)) + 1), lm_msg = strip_eol (print_buffer printed)\<rparr>"
    and res: "mlog_append ty ident log printed now s = (r, s')"
  shows "\<exists>i' ys k. r = EOK \<and> mg_inst s' log = Some i' \<and> cq_inv (in_cbuffer i') ys \<and> k \<le> 11 \<and>
    (if fst (cqueue_enqueue (in_cbuffer i) (msg_words (length (print_buffer printed)))) \<noteq> NULL
     then log_msgs i' ys = log_msgs i xs @ [new]
     else log_msgs i' ys = drop k (log_msgs i xs) @ [new] \<or>
       log_msgs i' ys = drop k (log_msgs i xs) \<and> (k = 11 \<or> length xs \<le> k))"
proof -
  define w where "w = msg_words (length (print_buffer printed))"
  have w: "unat w + CBUFFER_ITEM_HDR_DWSIZE < 4294967296"
    using msg_words_enough(2) [OF print_buffer_short, of printed] by (simp add: w_def CBUFFER_ITEM_HDR_DWSIZE_def)
  obtain b q where q: "make_room cqueue_enqueue cqueue_dequeue 10 w (cqueue_enqueue (in_cbuffer i) w) = (b, q)" by force
  obtain k where "k \<le> 10 + 1" "if b = NULL then cq_inv q (drop k xs) \<and> (k = 10 + 1 \<or> length xs \<le> k)
    else cq_inv q (drop k xs @ [(b, unat w + CBUFFER_ITEM_HDR_DWSIZE)]) \<and> (fst (cqueue_enqueue (in_cbuffer i) w) \<noteq> NULL \<longrightarrow> k = 0)"
    using log_queue.make_room_drops [OF assms(3) w q] by blast
  note k = this
  have g: "get_cqueue s log = Some (in_cbuffer i)" using assms(1,2) by (simp add: get_cqueue_def)
  show ?thesis
  proof (cases "b = NULL")
    case True
    let ?i = "i\<lparr>in_cbuffer := q\<rparr>"
    have "r = EOK" "s' = upd_inst log ?i s"
      using res assms(1,2) g q True by (simp_all add: mlog_append_def append_msg_def Let_def w_def)
    moreover have "fst (cqueue_enqueue (in_cbuffer i) w) = NULL"
      using q True by (cases "cqueue_enqueue (in_cbuffer i) w") (simp add: make_room.simps split: if_splits)
    ultimately show ?thesis using k True
      by (intro exI [of _ ?i] exI [of _ "drop k xs"] exI [of _ k]) (simp add: upd_inst_def log_msgs_def drop_map w_def)
  next
    case False
    let ?i = "i\<lparr>in_cbuffer := q, in_msg := (in_msg i)(b := new)\<rparr>"
    let ?ys = "drop k xs @ [(b, unat w + CBUFFER_ITEM_HDR_DWSIZE)]"
    have "r = EOK" "s' = upd_inst log ?i (s\<lparr>mg_cnt := mg_cnt s + 1\<rparr>)"
      using res assms(1,2) g q False by (simp_all add: mlog_append_def append_msg_def Let_def w_def new)
    moreover have inv: "cq_inv q ?ys" using k False by simp
    have "b \<notin> fst ` set (drop k xs)" using queue_distinct [OF inv] by auto
    then have "log_msgs ?i ?ys = drop k (log_msgs i xs) @ [new]"
      by (force simp: log_msgs_def drop_map)
    ultimately show ?thesis using k inv False
      by (intro exI [of _ ?i] exI [of _ ?ys] exI [of _ k], cases "fst (cqueue_enqueue (in_cbuffer i) w) = NULL")
        (simp_all add: upd_inst_def w_def)
  qed
qed

definition demo_log :: mlog_state where
  "demo_log = \<lparr>mg_inst = (\<lambda>_. Some \<lparr>in_cbuffer = demo_cq, in_logbuffer_size = 80, in_logbuffer = 100,
     in_msg = (\<lambda>_. \<lparr>lm_date = RTCLOCK_FIRST_DATE, lm_time = RTCLOCK_FIRST_TIME, lm_cnt = 0, lm_id = 0, lm_type = 0, lm_len = 0,
       lm_msg = []\<rparr>)\<rparr>), mg_started = True, mg_cnt = 4, mg_lock = 0\<rparr>"

lemma demo_enqueue_msg: "fst (cqueue_enqueue demo_cq 6) = 100"
  by (simp add: demo_cq_def cqueue_init_def cbuffer_init_def cqueue_enqueue_def cbuffer_alloc_def
      CBUFFER_ITEM_HDR_DWSIZE_def dw_diff_def set_item_def set_next_def Let_def)

theorem mlog_append_bounded_fifo_witness:
  "\<exists>i ys m. mg_inst (snd (mlog_append 2 9 MLOG_DBG (Some [72, 105, 10]) 0 demo_log)) MLOG_DBG = Some i \<and>
     cq_inv (in_cbuffer i) ys \<and> log_msgs i ys = [m] \<and> lm_msg m = [72, 105] \<and> lm_len m = 3 \<and> lm_cnt m = 4"
proof -
  obtain i where i: "mg_inst demo_log MLOG_DBG = Some i" "in_cbuffer i = demo_cq" by (simp add: demo_log_def)
  have t: "print_buffer (Some [72, 105, 10]) = [72, 105, 10]" "strip_eol [72, 105, 10] = [72, 105]" "msg_words 3 = 6"
    by (simp_all add: print_buffer_def MLOG_LOGS_MSG_SIZE_MAX_def strip_eol.simps msg_words_def LOG_MSG_SIZE_def)
  define m where "m = \<lparr>lm_date = rtc_get_date 0, lm_time = rtc_get_time 0, lm_cnt = mg_cnt demo_log, lm_id = 9, lm_type = 2,
      lm_len = of_nat (length (strip_eol (print_buffer (Some [72, 105, 10]))) + 1), lm_msg = strip_eol (print_buffer (Some [72, 105, 10]))\<rparr>"
  have e: "fst (cqueue_enqueue (in_cbuffer i) (msg_words (length (print_buffer (Some [72, 105, 10]))))) \<noteq> NULL"
    using t demo_enqueue_msg i(2) by (simp add: numeral_3_eq_3)
  have "mg_started demo_log" "cq_inv (in_cbuffer i) []" using i(2) demo_cq_inv by (simp_all add: demo_log_def)
  from mlog_append_bounded_fifo [OF this(1) i(1) this(2) m_def prod.collapse [symmetric]]
  obtain i' ys where "mg_inst (snd (mlog_append 2 9 MLOG_DBG (Some [72, 105, 10]) 0 demo_log)) MLOG_DBG = Some i'"
      "cq_inv (in_cbuffer i') ys" "log_msgs i' ys = [m]"
    using e by (auto simp: log_msgs_def)
  moreover have "lm_msg m = [72, 105]" "lm_len m = 3" "lm_cnt m = 4" by (simp_all add: m_def t, simp add: demo_log_def)
  ultimately show ?thesis by blast
qed

section \<open>Iterating\<close>

definition matching :: "MLOG_INST_T \<Rightarrow> u16 \<Rightarrow> (addr \<times> nat) list \<Rightarrow> addr list" where
  "matching i ty xs = filter (type_matches (in_msg i) ty) (map fst xs)"

lemma iter_backwards:
  assumes "cq_inv (in_cbuffer i) (as @ bs)"
  shows "iter_walk cqueue_backwards (in_cbuffer i) (in_msg i) ty (if as = [] then NULL else fst (last as)) =
    Some (if matching i ty as = [] then NULL else last (matching i ty as))"
  using assms
proof (induction as arbitrary: bs rule: rev_induct)
  case (snoc x as)
  have inv: "cq_inv (in_cbuffer i) (as @ x # bs)" using snoc.prems by simp
  have x: "fst x \<noteq> NULL" "cqueue_validate_item (in_cbuffer i) (fst x)"
    using item_place [OF inv, of x] validate_item_ok [OF inv, of x] by auto
  show ?case using x snoc.IH [OF inv] backwards_last [OF inv] by (subst iter_walk.simps) (simp add: matching_def)
qed (simp add: iter_walk.simps matching_def)

lemma iter_forwards:
  assumes "cq_inv (in_cbuffer i) (as @ bs)"
  shows "iter_walk cqueue_forwards (in_cbuffer i) (in_msg i) ty (if bs = [] then NULL else fst (hd bs)) =
    Some (if matching i ty bs = [] then NULL else hd (matching i ty bs))"
  using assms
proof (induction bs arbitrary: as)
  case (Cons x bs)
  have x: "fst x \<noteq> NULL" "cqueue_validate_item (in_cbuffer i) (fst x)"
    using item_place [OF Cons.prems, of x] validate_item_ok [OF Cons.prems, of x] by auto
  have "cq_inv (in_cbuffer i) ((as @ [x]) @ bs)" using Cons.prems by simp
  from Cons.IH [OF this] x forwards_hd [OF Cons.prems] show ?case by (subst iter_walk.simps) (simp add: matching_def)
qed (simp add: iter_walk.simps matching_def)

lemma count_backwards:
  assumes "cq_inv (in_cbuffer i) (as @ bs)"
  shows "count_walk (in_cbuffer i) (in_msg i) ty (if as = [] then NULL else fst (last as)) n =
    Some (n + int (length (matching i ty as)))"
  using assms
proof (induction as arbitrary: bs n rule: rev_induct)
  case (snoc x as)
  have inv: "cq_inv (in_cbuffer i) (as @ x # bs)" using snoc.prems by simp
  have x: "fst x \<noteq> NULL" "cqueue_validate_item (in_cbuffer i) (fst x)"
    using item_place [OF inv, of x] validate_item_ok [OF inv, of x] by auto
  show ?case using x snoc.IH [OF inv] backwards_last [OF inv] by (subst count_walk.simps) (simp add: matching_def)
qed (simp add: count_walk.simps matching_def)

text \<open>The iterators return on every well formed log: the first message is the newest one with the type, the last one the
  oldest, and from any message the previous one is the nearest older and the next the nearest newer one with the type;
  the count is their number.\<close>

theorem mlog_iteration_order:
  assumes "mg_started s" "mg_inst s log = Some i" "cq_inv (in_cbuffer i) (as @ x # bs)"
  shows "mlog_itertor_first s log ty =
      Some (if matching i ty (as @ x # bs) = [] then NULL else last (matching i ty (as @ x # bs))) \<and>
    mlog_itertor_last s log ty =
      Some (if matching i ty (as @ x # bs) = [] then NULL else hd (matching i ty (as @ x # bs))) \<and>
    mlog_itertor_prev s log (fst x) ty = Some (if matching i ty as = [] then NULL else last (matching i ty as)) \<and>
    mlog_itertor_next s log (fst x) ty = Some (if matching i ty bs = [] then NULL else hd (matching i ty bs)) \<and>
    mlog_count s log ty = Some (int (length (matching i ty (as @ x # bs)))) \<and>
    mlog_total s log = int (length (as @ x # bs))"
proof -
  let ?xs = "as @ x # bs"
  have inv: "cq_inv (in_cbuffer i) (?xs @ [])" "cq_inv (in_cbuffer i) ([] @ ?xs)" "cq_inv (in_cbuffer i) ((as @ [x]) @ bs)"
    using assms(3) by simp_all
  have g: "get_cqueue s log = Some (in_cbuffer i)" using assms(1,2) by (simp add: get_cqueue_def)
  have n: "cqueue_count (in_cbuffer i) = int (length ?xs)"
    using assms(3) unfolding cq_inv_def cqueue_count_def by (metis uint_nat)
  note ends = front_back_inv [OF assms(3)] backwards_last [OF assms(3)] forwards_hd [OF assms(3)]
  show ?thesis
    using iter_backwards [OF inv(1), of ty] iter_backwards [OF assms(3), of ty] iter_forwards [OF inv(2), of ty]
      iter_forwards [OF inv(3), of ty] count_backwards [OF inv(1), of ty 0] ends n g assms(1,2)
    by (simp add: mlog_itertor_first_def mlog_itertor_last_def mlog_itertor_prev_def mlog_itertor_next_def mlog_count_def mlog_total_def)
qed

definition demo_log_one :: mlog_state where
  "demo_log_one = upd_inst MLOG_DBG ((the (mg_inst demo_log MLOG_DBG))\<lparr>in_cbuffer := snd (cqueue_enqueue demo_cq 6)\<rparr>) demo_log"

theorem mlog_iteration_order_witness:
  "mlog_itertor_first demo_log_one MLOG_DBG 0 = Some 100 \<and> mlog_itertor_prev demo_log_one MLOG_DBG 100 0 = Some 0 \<and>
     mlog_count demo_log_one MLOG_DBG 0 = Some 1 \<and> mlog_count demo_log_one MLOG_DBG 4 = Some 0"
proof -
  define i where "i = (the (mg_inst demo_log MLOG_DBG))\<lparr>in_cbuffer := snd (cqueue_enqueue demo_cq 6)\<rparr>"
  have s: "mg_started demo_log_one" "mg_inst demo_log_one MLOG_DBG = Some i"
    by (simp_all add: demo_log_one_def i_def upd_inst_def demo_log_def)
  have "cq_inv (in_cbuffer i) [(100, 12)]"
    using enqueue_inv [OF demo_cq_inv _ prod.collapse [symmetric], of 6] demo_enqueue_msg
    by (simp add: i_def CBUFFER_ITEM_HDR_DWSIZE_def)
  then have inv: "cq_inv (in_cbuffer i) ([] @ (100, 12) # [])" by simp
  have m: "type_matches (in_msg i) 0 100" "\<not> type_matches (in_msg i) 4 100"
    by (simp_all add: type_matches_def i_def demo_log_def)
  show ?thesis
    using mlog_iteration_order [OF s inv, of 0] mlog_iteration_order [OF s inv, of 4] m by (simp add: matching_def)
qed

text \<open>\<open>_it_get\<close> writes a zero behind the message also when the memory of the caller ends before.\<close>

lemma it_get_writes_beyond:
  assumes "mg_started s" "mg_inst s (pi_log it) = Some i" "cq_inv (in_cbuffer i) xs" "x \<in> set xs" "pi_it it = fst x"
    "unat len \<le> LOG_MSG_SIZE + unat (lm_len (in_msg i (fst x)))"
  shows "fst (it_get_log s it len) = (sint len, Some (in_msg i (fst x)), len, LOG_MSG_SIZE + unat (lm_len (in_msg i (fst x))) + 1)"
proof -
  have x: "fst x \<noteq> NULL" "cqueue_validate_item (in_cbuffer i) (fst x)"
    using item_place [OF assms(3,4)] validate_item_ok [OF assms(3,4)] by auto
  have l: "unat (lm_len (in_msg i (fst x))) < 65536" using unsigned_less [of "lm_len (in_msg i (fst x))"] by simp
  then have "unat (ucast (lm_len (in_msg i (fst x))) :: u32) = unat (lm_len (in_msg i (fst x)))"
    by (simp add: unsigned_ucast_eq take_bit_nat_eq_self)
  with l have "unat (of_nat LOG_MSG_SIZE + ucast (lm_len (in_msg i (fst x))) :: u32) = LOG_MSG_SIZE + unat (lm_len (in_msg i (fst x)))"
    by (subst unat_u32_add) (simp_all add: LOG_MSG_SIZE_def)
  then have "\<not> len > of_nat LOG_MSG_SIZE + ucast (lm_len (in_msg i (fst x)))" using assms(6) by (simp add: word_less_nat_alt)
  then show ?thesis using assms x by (simp add: it_get_log_def mlog_itertor_get_def Let_def)
qed

end
