(* ===== verification/Memdbg.thy ===== *)
theory Memdbg
  imports Prelude
begin

text \<open>
  The dump of memory as text, src/common/memdbg.c, in the build without MEMDBG_MAKE_CARRAY. The result of a function is
  the text it leaves in its buffer, without the terminating zero, or \<open>None\<close> if it writes nothing, so that the buffer keeps what
  it held. Whether a text fits is stated by the lemmas: \<open>sprintf\<close> does not check it. Sizes are C's \<open>int\<close>.
\<close>

section \<open>Formats\<close>

text \<open>The last \<open>k\<close> hexadecimal digits of a number; \<open>a\<close> is the digit ten less ten.\<close>

primrec hex_digits :: "u8 \<Rightarrow> nat \<Rightarrow> nat \<Rightarrow> u8 list" where
  "hex_digits a 0 n = []"
| "hex_digits a (Suc k) n = hex_digits a k (n div 16) @ [if n mod 16 < 10 then 0x30 + of_nat (n mod 16) else a + of_nat (n mod 16)]"

definition CHAR_NONPRINTABLE :: u8 where "CHAR_NONPRINTABLE = 0x2E"
definition DUMP_DATA_LINE_SIZE :: int where "DUMP_DATA_LINE_SIZE = 16"
definition ASCII_SEPERATOR :: "u8 list" where "ASCII_SEPERATOR = [0x20, 0x2D, 0x20]"
definition MEMDBG_NEWLINE :: "u8 list" where "MEMDBG_NEWLINE = [13, 10]"

definition get_printable :: "u8 \<Rightarrow> u8" where
  "get_printable c = (if 0x20 \<le> c \<and> c \<le> 0x7E then c else CHAR_NONPRINTABLE)"

text \<open>\<open>"    0x%.8x:   "\<close> and \<open>"%.2X "\<close>.\<close>

definition dump_addr :: "u32 \<Rightarrow> u8 list" where
  "dump_addr a = bytes ''    0x'' @ hex_digits 0x57 8 (unat a) @ bytes '':   ''"

definition dump_hex :: "u8 \<Rightarrow> u8 list" where
  "dump_hex b = hex_digits 0x37 2 (unat b) @ [0x20]"

section \<open>The dump\<close>

definition LINE_LENGTH :: "int \<Rightarrow> int" where
  "LINE_LENGTH w = 18 + w * 3 + 5 + w + 2"

text \<open>A full line; byte \<open>i\<close> of line \<open>j\<close>.\<close>

definition dump_byte :: "u8 list \<Rightarrow> int \<Rightarrow> nat \<Rightarrow> nat \<Rightarrow> u8" where
  "dump_byte data width j i = data ! nat (int i + int j * width)"

definition full_line :: "u8 list \<Rightarrow> u32 \<Rightarrow> int \<Rightarrow> nat \<Rightarrow> u8 list" where
  "full_line data addr width j =
     dump_addr (addr + of_int (int j * width)) @ concat (map (\<lambda>i. dump_hex (dump_byte data width j i)) [0..<nat width])
     @ ASCII_SEPERATOR @ map (\<lambda>i. get_printable (dump_byte data width j i)) [0..<nat width] @ MEMDBG_NEWLINE"

definition last_line :: "u8 list \<Rightarrow> int \<Rightarrow> u32 \<Rightarrow> int \<Rightarrow> nat \<Rightarrow> u8 list" where
  "last_line data n addr width j =
     (let left = n - int j * width
      in dump_addr (addr + of_int (int j * width))
         @ concat (map (\<lambda>i. if int i < left then dump_hex (dump_byte data width j i) else [0x20, 0x20, 0x20]) [0..<nat width])
         @ ASCII_SEPERATOR @ map (\<lambda>i. get_printable (dump_byte data width j i)) [0..<nat left] @ MEMDBG_NEWLINE)"

lemma hex_digits_length [simp]: "length (hex_digits a k n) = k"
  by (induction k arbitrary: n) auto

lemma dump_length [simp]: "length (dump_addr a) = 18" "length (dump_hex b) = 3"
  by (simp_all add: dump_addr_def dump_hex_def bytes_def)

lemma length_concat_map: "(\<And>x. x \<in> set xs \<Longrightarrow> length (f x) = k) \<Longrightarrow> length (concat (map f xs)) = k * length xs"
  by (induction xs) auto

lemma full_line_length: "length (full_line data addr width j) = 23 + 4 * nat width"
proof -
  have "length (concat (map (\<lambda>i. dump_hex (dump_byte data width j i)) [0..<nat width])) = 3 * nat width"
    using length_concat_map [of "[0..<nat width]" "\<lambda>i. dump_hex (dump_byte data width j i)" 3] by simp
  then show ?thesis by (simp add: full_line_def ASCII_SEPERATOR_def MEMDBG_NEWLINE_def)
qed

lemma last_line_length: "length (last_line data n addr width j) = 23 + 3 * nat width + nat (n - int j * width)"
proof -
  have "length (concat (map (\<lambda>i. if int i < l then dump_hex (dump_byte data width j i) else [0x20, 0x20, 0x20]) [0..<nat width])) = 3 * nat width" for l
    by (subst length_concat_map [of _ _ 3]) auto
  then show ?thesis by (simp add: last_line_def ASCII_SEPERATOR_def MEMDBG_NEWLINE_def Let_def)
qed

function dump_loop :: "int \<Rightarrow> u8 list \<Rightarrow> int \<Rightarrow> u32 \<Rightarrow> int \<Rightarrow> nat \<Rightarrow> u8 list \<Rightarrow> nat \<times> u8 list" where
  "dump_loop buffer_len data n addr width j out =
     (if int (j + 1) * width < n \<and> int (length out) < buffer_len - LINE_LENGTH width
      then dump_loop buffer_len data n addr width (j + 1) (out @ full_line data addr width j) else (j, out))"
  by pat_completeness auto

termination
  by (relation "measure (\<lambda>(bl, d, n, a, w, j, out). nat (bl - LINE_LENGTH w - int (length out)))") (auto simp: full_line_length)

declare dump_loop.simps [simp del]

definition dbg_format_mem_dump_width :: "int \<Rightarrow> u8 list \<Rightarrow> int \<Rightarrow> u32 \<Rightarrow> int \<Rightarrow> u8 list option" where
  "dbg_format_mem_dump_width buffer_len data n addr width =
     (if buffer_len < 22 then Some []
      else
        (let (j, out) = dump_loop buffer_len data n addr width 0 [];
             out = (if int (length out) < buffer_len - LINE_LENGTH width then out @ last_line data n addr width j else out)
         in if out = [] then None else Some out))"

definition dbg_format_mem_dump_buffer :: "int \<Rightarrow> u8 list \<Rightarrow> int \<Rightarrow> u32 \<Rightarrow> u8 list option" where
  "dbg_format_mem_dump_buffer buffer_len data n addr = dbg_format_mem_dump_width buffer_len data n addr DUMP_DATA_LINE_SIZE"

text \<open>\<open>dbg_format_mem_dump_line\<close>: the text so far and the bytes that follow.\<close>

fun line_loop :: "int \<Rightarrow> u8 list \<Rightarrow> u8 list \<Rightarrow> u8 list" where
  "line_loop buffer_len out [] = out"
| "line_loop buffer_len out (b # bs) =
     (let out = out @ dump_hex b in if int (length out) \<ge> buffer_len - 4 then out else line_loop buffer_len out bs)"

definition dbg_format_mem_dump_line :: "int \<Rightarrow> u8 list \<Rightarrow> int \<Rightarrow> u8 list option" where
  "dbg_format_mem_dump_line buffer_len data n =
     (let out = line_loop buffer_len [] (take (nat n) data) in if out = [] then None else Some out)"

fun html_loop :: "int \<Rightarrow> u8 list \<Rightarrow> u8 list \<Rightarrow> u8 list" where
  "html_loop buffer_len out [] = out"
| "html_loop buffer_len out (b # bs) =
     (if int (length out) < buffer_len - 8
      then html_loop buffer_len (if b = 13 then out else if b = 10 then out @ bytes ''<br>'' @ [13, 10] else out @ [b]) bs
      else out)"

definition html_head :: "int \<Rightarrow> u32 \<Rightarrow> u8 list" where
  "html_head n addr = bytes ''<b>'' @ (if n < 0 then [0x2D] else []) @ dec_digits 1 (nat \<bar>n\<bar>) @ bytes '' bytes from 0x''
     @ hex_digits 0x57 8 (unat addr) @ bytes '':</b><br>''"

definition dbg_format_mem_2html_buffer :: "int \<Rightarrow> u8 list \<Rightarrow> int \<Rightarrow> u32 \<Rightarrow> u8 list" where
  "dbg_format_mem_2html_buffer buffer_len data n addr =
     (if buffer_len < 22 then [] else html_loop buffer_len (html_head n addr) (take (nat n) data))"

section \<open>Bounds\<close>

lemma dump_loop_bound:
  assumes "dump_loop bl data n addr width j out = (j', out')" "0 \<le> width" "int (length out) \<le> bl - 2"
  shows "int (length out') \<le> bl - 2"
  using assms
proof (induction bl data n addr width j out rule: dump_loop.induct)
  case (1 bl data n addr width j out)
  then show ?case
    using dump_loop.simps [of bl data n addr width j out] by (auto simp: full_line_length LINE_LENGTH_def split: if_splits)
qed

lemma dump_loop_left:
  assumes "dump_loop bl data n addr width j out = (j', out')" "int (length out') < bl - LINE_LENGTH width"
  shows "n \<le> int (j' + 1) * width"
  using assms
proof (induction bl data n addr width j out rule: dump_loop.induct)
  case (1 bl data n addr width j out)
  then show ?case
    using dump_loop.simps [of bl data n addr width j out] by (auto split: if_splits)
qed

lemma dump_bounds:
  shows "1 \<le> bl \<and> 0 \<le> width \<longrightarrow> (case dbg_format_mem_dump_width bl data n addr width of None \<Rightarrow> True | Some t \<Rightarrow> int (length t) + 1 \<le> bl)"
    and "4 \<le> bl \<longrightarrow> (case dbg_format_mem_dump_line bl data n of None \<Rightarrow> True | Some t \<Rightarrow> int (length t) + 1 \<le> bl)"
    and "1 \<le> bl \<and> int (length (html_head n addr)) + 1 \<le> bl \<longrightarrow> int (length (dbg_format_mem_2html_buffer bl data n addr)) + 1 \<le> bl"
proof -
  have "int (length t) + 1 \<le> bl" if h: "1 \<le> bl" "0 \<le> width" "dbg_format_mem_dump_width bl data n addr width = Some t" for t
  proof (cases "bl < 22")
    case True
    then show ?thesis using h by (simp add: dbg_format_mem_dump_width_def)
  next
    case False
    obtain j out where l: "dump_loop bl data n addr width 0 [] = (j, out)" by fastforce
    have len: "int (length out) \<le> bl - 2" using dump_loop_bound [OF l h(2)] False by simp
    show ?thesis
    proof (cases "int (length out) < bl - LINE_LENGTH width")
      case True
      have "n - int j * width \<le> width" using dump_loop_left [OF l True] by (simp add: algebra_simps)
      moreover have "t = out @ last_line data n addr width j"
        using h False True l by (auto simp: dbg_format_mem_dump_width_def split: if_splits)
      ultimately show ?thesis using True h(2) by (simp add: last_line_length LINE_LENGTH_def)
    next
      case False
      then show ?thesis using h len l by (auto simp: dbg_format_mem_dump_width_def split: if_splits)
    qed
  qed
  then show "1 \<le> bl \<and> 0 \<le> width \<longrightarrow> (case dbg_format_mem_dump_width bl data n addr width of None \<Rightarrow> True | Some t \<Rightarrow> int (length t) + 1 \<le> bl)"
    by (auto split: option.split)
  have line: "int (length (line_loop bl out bs)) + 1 \<le> bl" if "int (length out) + 4 \<le> bl" for out bs
    using that by (induction bl out bs rule: line_loop.induct) (auto simp: Let_def)
  show "4 \<le> bl \<longrightarrow> (case dbg_format_mem_dump_line bl data n of None \<Rightarrow> True | Some t \<Rightarrow> int (length t) + 1 \<le> bl)"
    using line [of "[]"] by (auto simp: dbg_format_mem_dump_line_def Let_def split: option.split)
  have html: "int (length (html_loop bl out bs)) + 1 \<le> bl" if "int (length out) + 1 \<le> bl" for out bs
    using that by (induction bl out bs rule: html_loop.induct) (auto simp: bytes_def)
  show "1 \<le> bl \<and> int (length (html_head n addr)) + 1 \<le> bl \<longrightarrow> int (length (dbg_format_mem_2html_buffer bl data n addr)) + 1 \<le> bl"
    using html by (simp add: dbg_format_mem_2html_buffer_def)
qed

text \<open>No dump writes behind its buffer: the text that the dump, the line dump or the HTML dump leaves there, its terminating
  zero included, fits a buffer of at least four bytes that takes the heading of the HTML dump.
\<close>

theorem dumps_fit:
  assumes "4 \<le> bl" "0 \<le> width" "int (length (html_head n addr)) + 1 \<le> bl"
    and "t \<in> set_option (dbg_format_mem_dump_width bl data n addr width) \<or> t \<in> set_option (dbg_format_mem_dump_line bl data n) \<or>
      t = dbg_format_mem_2html_buffer bl data n addr"
  shows "int (length t) + 1 \<le> bl"
  using dump_bounds(1) [where bl = bl and width = width and data = data and n = n and addr = addr]
    dump_bounds(2) [where bl = bl and data = data and n = n] dump_bounds(3) [where bl = bl and data = data and n = n and addr = addr] assms by auto

section \<open>The lines of a dump\<close>

definition mem_line :: "nat \<Rightarrow> u32 \<Rightarrow> u8 list \<Rightarrow> u8 list" where
  "mem_line w addr bs = dump_addr addr @ concat (map dump_hex bs) @ replicate (3 * (w - length bs)) 0x20 @ ASCII_SEPERATOR
     @ map get_printable bs @ MEMDBG_NEWLINE"

text \<open>Line \<open>i\<close> of a dump of \<open>w\<close> bytes a line shows the bytes from \<open>i * w\<close> on; an empty memory has one line.\<close>

definition mem_lines :: "nat \<Rightarrow> u32 \<Rightarrow> u8 list \<Rightarrow> u8 list list" where
  "mem_lines w addr data = map (\<lambda>i. mem_line w (addr + of_nat (i * w)) (take w (drop (i * w) data))) [0..<Suc ((length data - 1) div w)]"

lemma mem_lines_length [simp]: "length (mem_lines w addr data) = Suc ((length data - 1) div w)"
  by (simp add: mem_lines_def)

lemma mem_lines_nth:
  "i \<le> (length data - 1) div w \<Longrightarrow> mem_lines w addr data ! i = mem_line w (addr + of_nat (i * w)) (take w (drop (i * w) data))"
  unfolding mem_lines_def by (subst nth_map) (simp_all del: upt_Suc add: nth_append)

lemma bytes_of_line:
  assumes "i * w + k \<le> length data"
  shows "map (dump_byte data (int w) i) [0..<k] = take k (drop (i * w) data)"
  using assms by (intro nth_equalityI) (auto simp: dump_byte_def nat_add_distrib nat_mult_distrib add.commute)

lemma full_line_spec:
  assumes "Suc i * w \<le> length data"
  shows "full_line data addr (int w) i = mem_line w (addr + of_nat (i * w)) (take w (drop (i * w) data))"
proof -
  have b: "map (dump_byte data (int w) i) [0..<w] = take w (drop (i * w) data)" by (rule bytes_of_line) (use assms in simp)
  have "map (\<lambda>k. dump_hex (dump_byte data (int w) i k)) [0..<w] = map dump_hex (take w (drop (i * w) data))"
    "map (\<lambda>k. get_printable (dump_byte data (int w) i k)) [0..<w] = map get_printable (take w (drop (i * w) data))"
    unfolding b [symmetric] by simp_all
  moreover have "length (take w (drop (i * w) data)) = w" using assms by simp
  ultimately show ?thesis unfolding full_line_def mem_line_def by simp
qed

lemma last_line_spec:
  assumes "i * w \<le> length data" "length data \<le> Suc i * w" "n = int (length data)"
  shows "last_line data n addr (int w) i = mem_line w (addr + of_nat (i * w)) (take w (drop (i * w) data))"
proof -
  let ?l = "length data - i * w"
  have left: "n - int i * int w = int ?l" "?l \<le> w" using assms by (auto simp: of_nat_diff)
  have b: "map (dump_byte data (int w) i) [0..<?l] = drop (i * w) data" by (subst bytes_of_line) (use assms in simp_all)
  have up: "[0..<w] = [0..<?l] @ [?l..<w]" using left(2) by (metis le_add_diff_inverse upt_add_eq_append zero_le)
  have "map (\<lambda>k. if int k < int ?l then dump_hex (dump_byte data (int w) i k) else [0x20, 0x20, 0x20]) [0..<w]
      = map (\<lambda>k. dump_hex (dump_byte data (int w) i k)) [0..<?l] @ map (\<lambda>k. [0x20, 0x20, 0x20]) [?l..<w]"
    unfolding up by simp
  moreover have "map (\<lambda>k. dump_hex (dump_byte data (int w) i k)) [0..<?l] = map dump_hex (drop (i * w) data)"
    "map (\<lambda>k. get_printable (dump_byte data (int w) i k)) [0..<?l] = map get_printable (drop (i * w) data)"
    unfolding b [symmetric] by simp_all
  moreover have "concat (map (\<lambda>k. [0x20, 0x20, 0x20 :: u8]) xs) = replicate (3 * length xs) 0x20" for xs :: "nat list"
    by (induction xs) (auto simp: numeral_3_eq_3)
  ultimately show ?thesis using left unfolding last_line_def mem_line_def by (simp add: Let_def)
qed

definition line_fits :: "int \<Rightarrow> nat \<Rightarrow> nat \<Rightarrow> bool" where
  "line_fits bl w i \<longleftrightarrow> int (i * (4 * w + 23)) < bl - LINE_LENGTH (int w)"

lemma lines_before:
  assumes "0 < w" "i \<le> (length data - 1) div w"
  shows "i * w \<le> length data" "j < i \<Longrightarrow> Suc j * w \<le> length data" "length (concat (take i (mem_lines w addr data))) = i * (4 * w + 23)"
proof -
  have le: "i * w \<le> length data - 1" using assms by (metis div_times_less_eq_dividend le_trans mult_le_mono1)
  then show "i * w \<le> length data" by simp
  show suc: "Suc j * w \<le> length data" if "j < i" for j
    using mult_le_mono1 [of "Suc j" i w] that le by simp
  have "length x = 4 * w + 23" if x: "x \<in> set (take i (mem_lines w addr data))" for x
  proof -
    have "take i (mem_lines w addr data) = map (\<lambda>i. mem_line w (addr + of_nat (i * w)) (take w (drop (i * w) data))) [0..<i]"
      using assms(2) by (simp add: mem_lines_def take_map)
    then obtain j where j: "j < i" "x = mem_line w (addr + of_nat (j * w)) (take w (drop (j * w) data))" using x by auto
    then have "x = full_line data addr (int w) j" using full_line_spec [OF suc [OF j(1)]] by simp
    then show ?thesis by (simp add: full_line_length)
  qed
  then have "length (concat (map (\<lambda>x. x) (take i (mem_lines w addr data)))) = (4 * w + 23) * length (take i (mem_lines w addr data))"
    by (rule length_concat_map)
  then have "length (concat (take i (mem_lines w addr data))) = (4 * w + 23) * length (take i (mem_lines w addr data))"
    by (simp only: list.map_ident)
  then show "length (concat (take i (mem_lines w addr data))) = i * (4 * w + 23)" using assms(2) by (simp add: mem_lines_def min_absorb2)
qed

lemma dump_loop_lines:
  assumes w: "0 < w" and n: "n = int (length data)" and K: "K = (length data - 1) div w"
    and "dump_loop bl data n addr (int w) j (concat (take j (mem_lines w addr data))) = (j', out)" "j \<le> K" "\<forall>i<j. line_fits bl w i"
  shows "out = concat (take j' (mem_lines w addr data)) \<and> j' \<le> K \<and> (\<forall>i<j'. line_fits bl w i) \<and> (j' < K \<longrightarrow> \<not> line_fits bl w j')"
  using assms(4-6)
proof (induction "K - j" arbitrary: j rule: less_induct)
  case less
  let ?ls = "mem_lines w addr data"
  have len: "length (concat (take j ?ls)) = j * (4 * w + 23)" using lines_before(3) w less(3) K by blast
  have more: "int (j + 1) * int w < n \<longleftrightarrow> j < K"
  proof -
    have "int (j + 1) * int w < n \<longleftrightarrow> (j + 1) * w \<le> length data - 1"
      unfolding n of_nat_mult [symmetric] of_nat_less_iff using w by (cases data) auto
    also have "\<dots> \<longleftrightarrow> j + 1 \<le> K" unfolding K by (metis less_eq_div_iff_mult_less_eq w)
    finally show ?thesis by (simp add: Suc_le_eq)
  qed
  show ?case
  proof (cases "j < K \<and> line_fits bl w j")
    case True
    have "mem_lines w addr data ! j = full_line data addr (int w) j"
      using True full_line_spec [OF lines_before(2) [OF w, of "K" data j]] K by (simp add: mem_lines_nth)
    then have "take (Suc j) ?ls = take j ?ls @ [full_line data addr (int w) j]"
      using True K by (simp add: take_Suc_conv_app_nth)
    then have "dump_loop bl data n addr (int w) (Suc j) (concat (take (Suc j) ?ls)) = (j', out)"
      using less(2) True more len by (subst (asm) dump_loop.simps) (simp add: line_fits_def)
    then show ?thesis using less(1) [of "Suc j"] less(4) True diff_less_mono2 [of j "Suc j" K] by (auto simp: less_Suc_eq)
  next
    case False
    then have "(j', out) = (j, concat (take j ?ls))"
      using less(2) more len by (subst (asm) dump_loop.simps) (auto simp: line_fits_def)
    then show ?thesis using less(3,4) False by auto
  qed
qed

lemma dump_lines:
  assumes "0 < w" "22 \<le> bl"
  shows "\<exists>m \<le> length (mem_lines w addr data).
    dbg_format_mem_dump_width bl data (int (length data)) addr (int w) = (if m = 0 then None else Some (concat (take m (mem_lines w addr data)))) \<and>
    (\<forall>i<m. line_fits bl w i) \<and> (m < length (mem_lines w addr data) \<longrightarrow> \<not> line_fits bl w m)"
proof -
  let ?ls = "mem_lines w addr data" and ?K = "(length data - 1) div w"
  obtain j out where l: "dump_loop bl data (int (length data)) addr (int w) 0 [] = (j, out)" by fastforce
  then have d: "out = concat (take j ?ls)" "j \<le> ?K" "\<forall>i<j. line_fits bl w i" "j < ?K \<longrightarrow> \<not> line_fits bl w j"
    using dump_loop_lines [OF assms(1) refl refl, of bl data addr 0 j out] by auto
  have len: "length ?ls = Suc ?K" by (simp add: mem_lines_def)
  have fit: "int (length out) < bl - LINE_LENGTH (int w) \<longleftrightarrow> line_fits bl w j"
    using lines_before(3) [OF assms(1) d(2)] d(1) by (simp add: line_fits_def)
  have ne: "concat (take i ?ls) = [] \<longleftrightarrow> i = 0" if "i \<le> ?K" for i
    using lines_before(3) [OF assms(1) that, of addr] by (metis add_is_0 length_0_conv list.size(3) mult_is_0 numeral_eq_one_iff rel_simps(76) semiring_norm(85) zero_neq_numeral)
  show ?thesis
  proof (cases "line_fits bl w j")
    case True
    then have j: "j = ?K" using d by linarith
    have "length data \<le> Suc ?K * w" using assms(1) by (cases data) (auto simp: dividend_less_times_div algebra_simps Suc_le_eq)
    then have "last_line data (int (length data)) addr (int w) j = ?ls ! j"
      using last_line_spec [OF lines_before(1) [OF assms(1) d(2)]] by (simp add: j mem_lines_nth)
    moreover have "concat (take (Suc j) ?ls) = out @ ?ls ! j"
      using d(1,2) len by (simp add: take_Suc_conv_app_nth)
    ultimately have "out @ last_line data (int (length data)) addr (int w) j = concat (take (Suc j) ?ls)" by simp
    moreover have "last_line data (int (length data)) addr (int w) j \<noteq> []" by (metis last_line_length length_0_conv add_is_0 zero_neq_numeral)
    ultimately have "dbg_format_mem_dump_width bl data (int (length data)) addr (int w) = Some (concat (take (Suc j) ?ls))"
      using True fit assms(2) l by (auto simp: dbg_format_mem_dump_width_def Let_def simp del: concat_eq_Nil_conv)
    then show ?thesis using True len j d(3) by (intro exI [of _ "Suc j"]) (simp add: less_Suc_eq)
  next
    case False
    then show ?thesis using fit assms(2) l len d ne [OF d(2)]
      by (intro exI [of _ j]) (auto simp: dbg_format_mem_dump_width_def)
  qed
qed

text \<open>The dump of a memory is the text of its lines, each with its address, its bytes in hexadecimal and as characters; of
  the lines it prints the first ones, as long as the next one fits what the buffer has left by the estimate of
  \<open>LINE_LENGTH\<close>. If not even the first one fits, the buffer is left as it was.
\<close>

theorem dump_prints_lines:
  assumes "0 < w" "22 \<le> bl"
  shows "\<exists>m \<le> length (mem_lines w addr data).
    dbg_format_mem_dump_width bl data (int (length data)) addr (int w) = (if m = 0 then None else Some (concat (take m (mem_lines w addr data)))) \<and>
    (\<forall>i<m. line_fits bl w i) \<and> (m < length (mem_lines w addr data) \<longrightarrow> \<not> line_fits bl w m)"
  by (rule dump_lines [OF assms])

section \<open>Reading a dump back\<close>

definition hex_val :: "u8 \<Rightarrow> nat" where
  "hex_val c = (if c \<le> 0x39 then unat c - 48 else unat c - 55)"

text \<open>The bytes in the at most \<open>k\<close> columns of a line, up to a blank one.\<close>

fun undump_hex :: "nat \<Rightarrow> u8 list \<Rightarrow> u8 list" where
  "undump_hex (Suc k) (a # b # c # t) = (if a = 0x20 then [] else of_nat (16 * hex_val a + hex_val b) # undump_hex k t)"
| "undump_hex _ _ = []"

function undump :: "nat \<Rightarrow> u8 list \<Rightarrow> u8 list" where
  "undump w t = (if t = [] then [] else undump_hex w (drop 18 t) @ undump w (drop 1 (dropWhile (\<lambda>c. c \<noteq> 10) t)))"
  by pat_completeness auto

termination
proof (relation "measure (\<lambda>(w, t). length t)")
  fix w :: nat and t :: "u8 list" assume "t \<noteq> []"
  then have "0 < length t" by simp
  moreover have "length (dropWhile (\<lambda>c. c \<noteq> 10) t) \<le> length t" by (rule length_dropWhile_le)
  ultimately show "((w, drop 1 (dropWhile (\<lambda>c. c \<noteq> 10) t)), w, t) \<in> measure (\<lambda>(w, t). length t)"
    unfolding in_measure case_prod_conv length_drop by linarith
qed simp

declare undump.simps [simp del]

text \<open>What the characters of a line can be; \<open>a\<close> is the first letter less ten.\<close>

lemma hex_char:
  fixes a :: u8
  assumes "d < 16" "a = 0x37 \<or> a = 0x57"
  shows "(if d < 10 then 0x30 + of_nat d else a + of_nat d) \<noteq> 10" "(if d < 10 then 0x30 + of_nat d else a + of_nat d) \<noteq> 0x20"
    "a = 0x37 \<Longrightarrow> hex_val (if d < 10 then 0x30 + of_nat d else a + of_nat d) = d"
proof -
  have "d = 0 \<or> d = 1 \<or> d = 2 \<or> d = 3 \<or> d = 4 \<or> d = 5 \<or> d = 6 \<or> d = 7 \<or> d = 8 \<or> d = 9 \<or> d = 10 \<or> d = 11 \<or> d = 12 \<or> d = 13 \<or> d = 14 \<or> d = 15"
    using assms(1) by arith
  then show "(if d < 10 then 0x30 + of_nat d else a + of_nat d) \<noteq> 10" "(if d < 10 then 0x30 + of_nat d else a + of_nat d) \<noteq> 0x20"
    "a = 0x37 \<Longrightarrow> hex_val (if d < 10 then 0x30 + of_nat d else a + of_nat d) = d"
    using assms(2) by (elim disjE; simp add: hex_val_def)+
qed

lemma hex_digits_chars: "a = 0x37 \<or> a = 0x57 \<Longrightarrow> 10 \<notin> set (hex_digits a k n)"
proof (induction k arbitrary: n)
  case (Suc k)
  then show ?case using hex_char(1) [of "n mod 16" a] by auto
qed simp

lemma dump_hex_eq:
  obtains x y where "dump_hex b = [x, y, 0x20]" "x \<noteq> 0x20" "x \<noteq> 10" "y \<noteq> 10" "of_nat (16 * hex_val x + hex_val y) = b"
proof -
  let ?c = "\<lambda>d. if d < 10 then 0x30 + of_nat d else 0x37 + of_nat d :: u8"
  have b: "unat b < 256" using unsigned_less [of b] by simp
  then have d: "unat b div 16 mod 16 = unat b div 16" "unat b div 16 < 16" by auto
  have "dump_hex b = [?c (unat b div 16), ?c (unat b mod 16), 0x20]"
    by (simp add: dump_hex_def numeral_2_eq_2 d del: One_nat_def)
  moreover have "16 * hex_val (?c (unat b div 16)) + hex_val (?c (unat b mod 16)) = unat b"
    using hex_char(3) [of "unat b div 16" "0x37"] hex_char(3) [of "unat b mod 16" "0x37"] d by simp
  then have "of_nat (16 * hex_val (?c (unat b div 16)) + hex_val (?c (unat b mod 16))) = b" by (metis of_nat_unat ucast_id)
  ultimately show thesis
    using that [of "?c (unat b div 16)" "?c (unat b mod 16)"] hex_char(1,2) [of "unat b div 16" "0x37"] hex_char(1) [of "unat b mod 16" "0x37"] d(2) by simp
qed

lemma undump_hex_line:
  "length bs \<le> w \<Longrightarrow> undump_hex w (concat (map dump_hex bs) @ replicate (3 * (w - length bs)) 0x20 @ ASCII_SEPERATOR @ r) = bs"
proof (induction bs arbitrary: w)
  case Nil
  then show ?case by (cases w) (simp_all add: ASCII_SEPERATOR_def numeral_3_eq_3)
next
  case (Cons b bs)
  obtain x y where "dump_hex b = [x, y, 0x20]" "x \<noteq> 0x20" "of_nat (16 * hex_val x + hex_val y) = b" by (rule dump_hex_eq)
  then show ?case using Cons by (cases w) simp_all
qed

lemma mem_line_end: "\<exists>p. mem_line w a bs = p @ [10] \<and> 10 \<notin> set p"
proof -
  have "10 \<notin> set (dump_hex b)" for b by (rule dump_hex_eq [of b]) simp
  moreover have "10 \<notin> set (dump_addr a)" using hex_digits_chars [of "0x57" 8 "unat a"] by (simp add: dump_addr_def bytes_def)
  moreover have "get_printable b \<noteq> 10" for b by (auto simp: get_printable_def CHAR_NONPRINTABLE_def)
  ultimately show ?thesis
    by (intro exI [of _ "butlast (mem_line w a bs)"]) (auto simp: mem_line_def MEMDBG_NEWLINE_def ASCII_SEPERATOR_def butlast_append)
qed

lemma undump_line: "length bs \<le> w \<Longrightarrow> undump w (mem_line w a bs @ t) = bs @ undump w t"
proof -
  assume "length bs \<le> w"
  then have "undump_hex w (drop 18 (mem_line w a bs @ t)) = bs"
    using undump_hex_line [of bs w "map get_printable bs @ MEMDBG_NEWLINE @ t"] by (simp add: mem_line_def)
  moreover obtain p where "mem_line w a bs = p @ [10]" "10 \<notin> set p" using mem_line_end by blast
  then have "dropWhile (\<lambda>c. c \<noteq> 10) (mem_line w a bs @ t) = 10 # t" by (simp, subst dropWhile_append2) auto
  then have "drop 1 (dropWhile (\<lambda>c. c \<noteq> 10) (mem_line w a bs @ t)) = t" by simp
  moreover have "mem_line w a bs \<noteq> []" by (simp add: mem_line_def MEMDBG_NEWLINE_def)
  ultimately show ?thesis by (subst undump.simps) simp
qed


lemma undump_lines:
  assumes "0 < w"
  shows "undump w (concat (mem_lines w addr data) @ t) = data @ undump w t"
proof -
  have "undump w (concat (map (\<lambda>i. mem_line w (f i) (take w (drop (i * w) data))) xs) @ t) =
      concat (map (\<lambda>i. take w (drop (i * w) data)) xs) @ undump w t" for f xs
    by (induction xs) (simp_all add: undump_line)
  moreover have "concat (map (\<lambda>i. take w (drop (i * w) data)) [0..<k]) = take (k * w) data" for k
    by (induction k) (simp_all add: take_add [symmetric] add.commute)
  moreover have "length data \<le> Suc ((length data - 1) div w) * w"
    using assms by (cases data) (auto simp: dividend_less_times_div algebra_simps Suc_le_eq)
  ultimately show ?thesis unfolding mem_lines_def by (simp del: upt_Suc mult_Suc)
qed

lemma dump_fits_whole:
  assumes "0 < w" "22 \<le> bl" "line_fits bl w ((length data - 1) div w)"
  shows "\<exists>t. dbg_format_mem_dump_width bl data (int (length data)) addr (int w) = Some t \<and> undump w t = data"
proof -
  let ?ls = "mem_lines w addr data"
  obtain m where m: "m \<le> length ?ls" "m < length ?ls \<longrightarrow> \<not> line_fits bl w m"
    "dbg_format_mem_dump_width bl data (int (length data)) addr (int w) = (if m = 0 then None else Some (concat (take m ?ls)))"
    using dump_lines [OF assms(1,2)] by blast
  have "line_fits bl w m" if "m < length ?ls"
  proof -
    have "m * (4 * w + 23) \<le> (length data - 1) div w * (4 * w + 23)" using that by (intro mult_le_mono1) simp
    then show ?thesis using assms(3) unfolding line_fits_def by linarith
  qed
  then have "m = length ?ls" using m(1,2) by fastforce
  then show ?thesis using m(3) undump_lines [OF assms(1), where t = "[]"] by (simp add: undump.simps)
qed

text \<open>
  C22: A dump that fits its buffer loses nothing: the bytes read back from the hexadecimal columns of its lines are those
  of the memory.
\<close>

theorem dump_roundtrip:
  assumes "0 < w" "22 \<le> bl" "line_fits bl w ((length data - 1) div w)"
  shows "\<exists>t. dbg_format_mem_dump_width bl data (int (length data)) addr (int w) = Some t \<and> undump w t = data"
  by (rule dump_fits_whole [OF assms])

text \<open>A small buffer that is large enough for the first check gets no text and no terminating zero.\<close>

theorem small_buffer_untouched:
  assumes "0 < w" "22 \<le> bl" "bl \<le> LINE_LENGTH (int w)"
  shows "dbg_format_mem_dump_width bl data (int (length data)) addr (int w) = None"
  using dump_lines [OF assms(1,2), where data = data and addr = addr] assms(3) by (auto simp: line_fits_def split: if_splits)

definition demo_data :: "u8 list" where
  "demo_data = [0x41, 0, 0xFF, 10, 0x7A]"

theorem dumps_fit_witness: "int (length (dbg_format_mem_2html_buffer 40 demo_data 5 0)) + 1 \<le> 40"
  by (rule dumps_fit [where width = 4 and data = demo_data and n = 5 and addr = 0 and bl = 40])
    (simp_all add: html_head_def bytes_def dec_digits.simps)

theorem dump_prints_lines_witness:
  "dbg_format_mem_dump_width 81 demo_data 5 0x1000 4 = Some (concat (mem_lines 4 0x1000 demo_data)) \<and>
   dbg_format_mem_dump_width 70 demo_data 5 0x1000 4 = Some (mem_lines 4 0x1000 demo_data ! 0)"
proof -
  have d: "length demo_data = 5" by (simp add: demo_data_def)
  have len: "length (mem_lines 4 0x1000 demo_data) = 2" by (simp add: d)
  then obtain x y where ls: "mem_lines 4 0x1000 demo_data = [x, y]" by (auto simp del: mem_lines_length simp: numeral_2_eq_2 length_Suc_conv)
  have all: "\<exists>m \<le> 2. dbg_format_mem_dump_width bl demo_data 5 0x1000 4 = (if m = 0 then None else Some (concat (take m (mem_lines 4 0x1000 demo_data)))) \<and>
     (\<forall>i<m. line_fits bl 4 i) \<and> (m < 2 \<longrightarrow> \<not> line_fits bl 4 m)" if "22 \<le> bl" for bl
    using dump_prints_lines [where w = 4 and bl = bl and data = demo_data and addr = "0x1000"] that by (simp add: len d del: mem_lines_length)
  have big: "(22 :: int) \<le> 81" "(22 :: int) \<le> 70" by simp_all
  obtain m where m: "m \<le> 2" "dbg_format_mem_dump_width 81 demo_data 5 0x1000 4 =
      (if m = 0 then None else Some (concat (take m (mem_lines 4 0x1000 demo_data))))" "m < 2 \<longrightarrow> \<not> line_fits 81 4 m"
    using all [OF big(1)] by blast
  obtain n where n: "n \<le> 2" "dbg_format_mem_dump_width 70 demo_data 5 0x1000 4 = (if n = 0 then None else Some (concat (take n (mem_lines 4 0x1000 demo_data))))"
      "\<forall>i<n. line_fits 70 4 i" "n < 2 \<longrightarrow> \<not> line_fits 70 4 n"
    using all [OF big(2)] by blast
  have "m = 2" using m(1,3) by (auto simp: line_fits_def LINE_LENGTH_def)
  moreover have "n \<noteq> 2" using n(3) [rule_format, of 1] by (auto simp: line_fits_def LINE_LENGTH_def)
  then have "n = 1" using n(1,4) by (cases n) (auto simp: line_fits_def LINE_LENGTH_def)
  ultimately show ?thesis using m(2) n(2) ls by simp
qed

theorem dump_roundtrip_witness: "\<exists>t. dbg_format_mem_dump_width 100 demo_data 5 0x1000 4 = Some t \<and> undump 4 t = demo_data"
  using dump_roundtrip [where w = 4 and bl = 100 and data = demo_data and addr = "0x1000"] by (simp add: demo_data_def line_fits_def LINE_LENGTH_def)

end
