(* ===== verification/Logger.thy ===== *)
theory Logger
  imports Tasks Mlog Memdbg
begin

text \<open>
  The logger, src/svc/svc_logger.c: a log message is formatted into a task, stored in the log in memory (Mlog.thy) when the
  filter of the memory accepts it, and scheduled (Tasks.thy) so that a thread hands it to the channels whose filters
  accept it. A text is the list of its bytes before the terminating zero; the formatted text of a message, what
  \<open>malloc\<close> returns and the clocks are an environment. The calls of the channels are recorded.
\<close>

section \<open>Data\<close>

definition SVC_LOGGER_MAX_QUEUE_SIZE :: int where "SVC_LOGGER_MAX_QUEUE_SIZE = 16"
definition SVC_LOGGER_FILTER_CNT :: nat where "SVC_LOGGER_FILTER_CNT = 2"

definition SVC_LOGGER_SEVERITY_NEVER :: u8 where "SVC_LOGGER_SEVERITY_NEVER = 0"
definition SVC_LOGGER_SEVERITY_WARNING :: u8 where "SVC_LOGGER_SEVERITY_WARNING = 3"
definition SVC_LOGGER_SEVERITY_REPORT :: u8 where "SVC_LOGGER_SEVERITY_REPORT = 4"
definition SVC_LOGGER_FLAGS_NO_FORMATTING :: u8 where "SVC_LOGGER_FLAGS_NO_FORMATTING = 0x10"
definition SVC_LOGGER_FLAGS_NO_TIMESTAMP :: u8 where "SVC_LOGGER_FLAGS_NO_TIMESTAMP = 0x20"
definition SVC_LOGGER_FLAGS_PROGRESS :: u8 where "SVC_LOGGER_FLAGS_PROGRESS = 0x40"
definition SVC_LOGGER_MASK :: u64 where "SVC_LOGGER_MASK = - 1"

definition SVC_LOGGER_GET_SEVERITY :: "u8 \<Rightarrow> u8" where "SVC_LOGGER_GET_SEVERITY ty = ty AND 0x0F"
definition SVC_LOGGER_TYPE :: "u8 \<Rightarrow> u8 \<Rightarrow> u8" where "SVC_LOGGER_TYPE severity flags = severity OR flags"

text \<open>The shift is defined for facilities below 64.\<close>

definition SVC_LOGGER_FACILITY_MASK :: "u8 \<Rightarrow> u64" where "SVC_LOGGER_FACILITY_MASK facility = push_bit (unat facility) 1"

record LOGGGER_CHANNEL_FILTER_T =
  lf_mask :: u64
  lf_type :: u8

record LOGGER_CHANNEL_T =
  lc_fp :: addr
  lc_filter :: "nat \<Rightarrow> LOGGGER_CHANNEL_FILTER_T"
  lc_user :: addr

record LOGGER_TASK_T =
  lt_type :: u8
  lt_facility :: u8
  lt_id :: u16
  lt_message :: "u8 list"

record logger_state =
  lg_filter :: LOGGGER_CHANNEL_FILTER_T
  lg_filter_mem :: LOGGGER_CHANNEL_FILTER_T
  lg_prio :: u16
  lg_id :: u16
  lg_sending :: int
  lg_cnt :: u32
  lg_channels :: "addr list"
  lg_channel :: "addr \<Rightarrow> LOGGER_CHANNEL_T"
  lg_task :: "addr \<Rightarrow> LOGGER_TASK_T"
  lg_heap :: "addr set"
  lg_tasks :: tasks_state
  lg_mlog :: mlog_state
  lg_calls :: "(addr \<times> addr \<times> u8 \<times> u8 \<times> u8 list) list"

text \<open>The environment of a call: what \<open>qoraal_malloc\<close> returns, the clocks, and \<open>le_fmt\<close>: what \<open>vsnprintf\<close> prints for a format without
  arguments.\<close>

record log_env =
  le_malloc :: addr
  le_stamp :: u32
  le_now :: u32
  le_clk :: "nat \<Rightarrow> u32"
  le_tset :: bool
  le_fmt :: "u8 list \<Rightarrow> u8 list option"

definition LOGGER_TASK_CALLBACK :: addr where "LOGGER_TASK_CALLBACK = 3"

section \<open>Filters and channels\<close>

definition SVC_LOGGER_WOULD_LOG :: "LOGGGER_CHANNEL_FILTER_T \<Rightarrow> u8 \<Rightarrow> u8 \<Rightarrow> bool" where
  "SVC_LOGGER_WOULD_LOG f ty facility \<longleftrightarrow>
     SVC_LOGGER_GET_SEVERITY ty \<le> SVC_LOGGER_GET_SEVERITY (lf_type f) \<and>
     (facility = 0 \<or> SVC_LOGGER_FACILITY_MASK facility AND lf_mask f \<noteq> 0)"

definition svc_logger_would_log :: "logger_state \<Rightarrow> u8 \<Rightarrow> u8 \<Rightarrow> bool" where
  "svc_logger_would_log s ty facility \<longleftrightarrow>
     SVC_LOGGER_WOULD_LOG (lg_filter s) ty facility \<or>
     mlog_started (lg_mlog s) \<and> lf_type (lg_filter_mem s) AND SVC_LOGGER_FLAGS_PROGRESS = 0 \<and>
       SVC_LOGGER_WOULD_LOG (lg_filter_mem s) ty facility"

text \<open>One filter of a channel in the loops of \<open>severity_channel_available\<close>.\<close>

definition add_filter :: "LOGGGER_CHANNEL_FILTER_T \<Rightarrow> u8 \<times> u64 \<Rightarrow> u8 \<times> u64" where
  "add_filter f acc =
     (let (severity, mask) = acc
      in if lf_mask f = 0 then acc
         else (if severity < SVC_LOGGER_GET_SEVERITY (lf_type f) then SVC_LOGGER_GET_SEVERITY (lf_type f) else severity,
               mask OR lf_mask f))"

definition severity_channel_available :: "logger_state \<Rightarrow> logger_state" where
  "severity_channel_available s =
     (let (severity, mask) = fold (\<lambda>start. fold (\<lambda>i. add_filter (lc_filter (lg_channel s start) i)) [0..<SVC_LOGGER_FILTER_CNT])
            (lg_channels s) (SVC_LOGGER_SEVERITY_NEVER, 0)
      in s\<lparr>lg_filter := \<lparr>lf_mask = mask, lf_type = SVC_LOGGER_TYPE severity 0\<rparr>\<rparr>)"

definition svc_logger_set_mem_filter :: "LOGGGER_CHANNEL_FILTER_T \<Rightarrow> logger_state \<Rightarrow> logger_state" where
  "svc_logger_set_mem_filter f s = s\<lparr>lg_filter_mem := f\<rparr>"

definition svc_logger_channel_add :: "addr \<Rightarrow> logger_state \<Rightarrow> logger_state" where
  "svc_logger_channel_add channel s = severity_channel_available (s\<lparr>lg_channels := ll_add_tail (lg_channels s) channel\<rparr>)"

definition svc_logger_channel_remove :: "addr \<Rightarrow> logger_state \<Rightarrow> logger_state" where
  "svc_logger_channel_remove channel s = severity_channel_available (s\<lparr>lg_channels := ll_remove (lg_channels s) channel\<rparr>)"

definition svs_logger_get_filter :: "logger_state \<Rightarrow> LOGGGER_CHANNEL_FILTER_T" where
  "svs_logger_get_filter s = lg_filter s"

text \<open>\<open>base\<close> and \<open>sz\<close>: the memory between the symbols of the linker, \<open>found\<close> its content.\<close>

definition svc_logger_init ::
    "addr \<Rightarrow> u32 \<Rightarrow> MLOG_INST_T \<Rightarrow> MLOG_INST_T \<Rightarrow> u16 \<Rightarrow> logger_state \<Rightarrow> (int \<times> logger_state) option" where
  "svc_logger_init base sz found assert_found prio s =
     (let s = s\<lparr>lg_channels := [], lg_prio := prio\<rparr>
      in if \<not> mlog_started (lg_mlog s) \<and> sz \<ge> 4 * 1024 then
           (case mlog_init base (sz - 512) found (base + unat (sz - 512) div 4) 512 assert_found (lg_mlog s) of
              None \<Rightarrow> None
            | Some (_, m) \<Rightarrow> Some (EOK, s\<lparr>lg_mlog := m\<rparr>))
         else Some (EOK, s))"

definition svc_logger_start :: int where "svc_logger_start = EOK"

section \<open>The task of a message\<close>

definition logger_free :: "addr \<Rightarrow> logger_state \<Rightarrow> logger_state" where
  "logger_free task s = s\<lparr>lg_heap := lg_heap s - {task}\<rparr>"

text \<open>A filter accepts a message for a channel.\<close>

definition filter_accepts :: "LOGGER_CHANNEL_T \<Rightarrow> LOGGER_TASK_T \<Rightarrow> nat \<Rightarrow> bool" where
  "filter_accepts c t i \<longleftrightarrow>
     (let mask = (if lt_facility t = 0 then SVC_LOGGER_MASK else SVC_LOGGER_FACILITY_MASK (lt_facility t));
          f = lc_filter c i
      in SVC_LOGGER_GET_SEVERITY (lt_type t) \<le> SVC_LOGGER_GET_SEVERITY (lf_type f) \<and> mask AND lf_mask f \<noteq> 0 \<and> lc_fp c \<noteq> NULL \<and>
         (lt_type t AND SVC_LOGGER_FLAGS_PROGRESS = 0 \<or> lf_type f AND SVC_LOGGER_FLAGS_PROGRESS \<noteq> 0))"

text \<open>What the channel gets: without the timestamp, 12 bytes, when its filter asks for it. 0x5B is the opening bracket.\<close>

definition message_for :: "LOGGGER_CHANNEL_FILTER_T \<Rightarrow> u8 list \<Rightarrow> u8 list" where
  "message_for f msg =
     (let offset = (if lf_type f AND SVC_LOGGER_FLAGS_NO_TIMESTAMP \<noteq> 0 \<and> msg \<noteq> [] \<and> hd msg = 0x5B then 12 else 0) in drop offset msg)"

definition call_channel :: "addr \<Rightarrow> addr \<Rightarrow> logger_state \<Rightarrow> logger_state" where
  "call_channel task start s =
     (let c = lg_channel s start; t = lg_task s task
      in case find (filter_accepts c t) [0..<SVC_LOGGER_FILTER_CNT] of
           None \<Rightarrow> s
         | Some i \<Rightarrow> s\<lparr>lg_calls := lg_calls s @ [(lc_fp c, start, lt_type t, lt_facility t, message_for (lc_filter c i) (lt_message t))]\<rparr>)"

definition logger_task_callback :: "addr \<Rightarrow> u32 \<Rightarrow> logger_state \<Rightarrow> logger_state" where
  "logger_task_callback task reason s =
     (let s = (if reason = SERVICE_CALLBACK_REASON_RUN then fold (call_channel task) (lg_channels s) s else s);
          s = s\<lparr>lg_sending := lg_sending s - 1\<rparr>;
          s = s\<lparr>lg_tasks := svc_tasks_complete task (lg_tasks s)\<rparr>
      in logger_free task s)"

text \<open>The timestamp is \<open>[%05u.%03u] \<close>.\<close>

definition timestamp_text :: "u32 \<Rightarrow> u8 list" where
  "timestamp_text stamp =
     (let mseconds = unat stamp; seconds = mseconds div 1000
      in [0x5B] @ dec_digits 5 (seconds mod 100000) @ [0x2E] @ dec_digits 3 (mseconds mod 1000) @ [0x5D, 0x20])"

text \<open>One of the two tests \<open>message[len - 1] == c\<close>. With an empty message the byte before the message is read, the high byte of the
  identifier; when it is \<open>c\<close>, the length wraps and the terminator is written outside the task: \<open>None\<close>.\<close>

definition trim_char :: "u8 \<Rightarrow> u16 \<Rightarrow> u8 list \<Rightarrow> u8 list option" where
  "trim_char c ident msg =
     (if msg \<noteq> [] then Some (if last msg = c then butlast msg else msg)
      else if ucast (drop_bit 8 ident) = c then None else Some [])"

definition EXTRA_CHARS :: nat where "EXTRA_CHARS = 2"

definition format_message :: "u32 \<Rightarrow> u8 \<Rightarrow> u16 \<Rightarrow> u8 list \<Rightarrow> u8 list option" where
  "format_message stamp ty ident printed =
     (let message_size = length printed + 32 + EXTRA_CHARS;
          msg = (if ty AND (SVC_LOGGER_FLAGS_NO_FORMATTING OR SVC_LOGGER_FLAGS_NO_TIMESTAMP) = 0 then timestamp_text stamp else []);
          msg = msg @ take (message_size - length msg - EXTRA_CHARS - 1) printed
      in if ty AND SVC_LOGGER_FLAGS_NO_FORMATTING = 0 then
           (let msg = (if length msg \<ge> message_size - EXTRA_CHARS then take (message_size - EXTRA_CHARS - 1) msg else msg)
            in case trim_char 10 ident msg of None \<Rightarrow> None | Some msg \<Rightarrow> trim_char 13 ident msg)
         else Some msg)"

text \<open>\<open>printed\<close>: the text \<open>vsnprintf\<close> makes of the message, \<open>None\<close> for an error. The result is \<open>None\<close> on a write outside the task.\<close>

definition logger_create_task ::
    "log_env \<Rightarrow> u8 \<Rightarrow> u8 \<Rightarrow> u8 list option \<Rightarrow> logger_state \<Rightarrow> (addr \<times> logger_state) option" where
  "logger_create_task e ty facility printed s =
     (case printed of
        None \<Rightarrow> Some (NULL, s)
      | Some printed \<Rightarrow>
          if le_malloc e = NULL then Some (NULL, s)
          else
            (case format_message (le_stamp e) ty (lg_id s) printed of
               None \<Rightarrow> None
             | Some msg \<Rightarrow>
                 Some (le_malloc e,
                   s\<lparr>lg_heap := insert (le_malloc e) (lg_heap s), lg_id := lg_id s + 1,
                     lg_task := (lg_task s)(le_malloc e := \<lparr>lt_type = ty, lt_facility = facility, lt_id = lg_id s, lt_message = msg\<rparr>),
                     lg_tasks := svc_tasks_init_task (le_malloc e) (lg_tasks s)\<rparr>)))"

section \<open>Logging\<close>

text \<open>The common end of the functions: schedule the task or free it. In \<open>svc_logger_vlogx\<close> the status is that of the comparison.\<close>

definition schedule_log :: "log_env \<Rightarrow> addr \<Rightarrow> logger_state \<Rightarrow> int \<times> logger_state" where
  "schedule_log e task s =
     (let (r, t) = svc_tasks_schedule (le_clk e) (le_tset e) (lg_tasks s) task LOGGER_TASK_CALLBACK 0 (lg_prio s) 0;
          s = s\<lparr>lg_tasks := t\<rparr>
      in if r \<noteq> EOK then (r, logger_free task s) else (r, s\<lparr>lg_sending := lg_sending s + 1\<rparr>))"

definition vlogx_schedule :: "log_env \<Rightarrow> u8 \<Rightarrow> addr \<Rightarrow> logger_state \<Rightarrow> int \<times> logger_state" where
  "vlogx_schedule e ty task s =
     (if SVC_LOGGER_GET_SEVERITY ty > SVC_LOGGER_GET_SEVERITY (lf_type (lg_filter s)) then (EOK, logger_free task s)
      else (let (r, s) = schedule_log e task s in (if r \<noteq> EOK then 1 else 0, s)))"

definition svc_logger_vlogx :: "log_env \<Rightarrow> u8 \<Rightarrow> u8 \<Rightarrow> u8 list option \<Rightarrow> logger_state \<Rightarrow> (int \<times> logger_state) option" where
  "svc_logger_vlogx e ty facility printed s =
     (if lg_sending s \<ge> SVC_LOGGER_MAX_QUEUE_SIZE then Some (E_TIMEOUT, s)
      else
        (case logger_create_task e ty facility printed s of
           None \<Rightarrow> None
         | Some (task, s) \<Rightarrow>
             if task = NULL then Some (E_NOMEM, s)
             else
               (let s = (if mlog_started (lg_mlog s) \<and> ty AND SVC_LOGGER_FLAGS_PROGRESS = 0 \<and>
                            SVC_LOGGER_GET_SEVERITY ty \<le> SVC_LOGGER_GET_SEVERITY (lf_type (lg_filter_mem s)) \<and>
                            SVC_LOGGER_FACILITY_MASK facility AND lf_mask (lg_filter_mem s) \<noteq> 0
                         then s\<lparr>lg_mlog := snd (mlog_log (ucast facility) (ucast (SVC_LOGGER_GET_SEVERITY (lt_type (lg_task s task))))
                                (le_fmt e (lt_message (lg_task s task))) (le_now e) (lg_mlog s))\<rparr>
                         else s)
                in Some (vlogx_schedule e ty task s))))"

definition svc_logger_type_vlog :: "log_env \<Rightarrow> u8 \<Rightarrow> u8 \<Rightarrow> u8 list option \<Rightarrow> logger_state \<Rightarrow> (int \<times> logger_state) option" where
  "svc_logger_type_vlog e ty facility printed s =
     (if svc_logger_would_log s ty facility then svc_logger_vlogx e ty facility printed s else Some (EOK, s))"

definition svc_logger_type_log :: "log_env \<Rightarrow> u8 \<Rightarrow> u8 \<Rightarrow> u8 list option \<Rightarrow> logger_state \<Rightarrow> (int \<times> logger_state) option" where
  "svc_logger_type_log e ty facility printed s = svc_logger_type_vlog e ty facility printed s"

definition svc_logger_printf :: "log_env \<Rightarrow> u8 list option \<Rightarrow> logger_state \<Rightarrow> (int \<times> logger_state) option" where
  "svc_logger_printf e printed s = svc_logger_type_vlog e (SVC_LOGGER_TYPE SVC_LOGGER_SEVERITY_REPORT 0) 0 printed s"

definition svc_logger_vprintf :: "log_env \<Rightarrow> u8 list option \<Rightarrow> logger_state \<Rightarrow> (int \<times> logger_state) option" where
  "svc_logger_vprintf e printed s = svc_logger_type_vlog e (SVC_LOGGER_TYPE SVC_LOGGER_SEVERITY_REPORT 0) 0 printed s"

text \<open>\<open>svc_logger_put\<close>: \<open>str\<close> is the content of the string, \<open>len\<close> how many bytes to take.\<close>

definition svc_logger_put :: "log_env \<Rightarrow> u8 list \<Rightarrow> u32 \<Rightarrow> logger_state \<Rightarrow> int \<times> logger_state" where
  "svc_logger_put e str len s =
     (if le_malloc e = NULL then (0, s)
      else
        (let task = le_malloc e;
             ty = SVC_LOGGER_TYPE SVC_LOGGER_SEVERITY_REPORT
               (SVC_LOGGER_FLAGS_NO_FORMATTING OR SVC_LOGGER_FLAGS_NO_TIMESTAMP OR SVC_LOGGER_FLAGS_PROGRESS);
             s = s\<lparr>lg_heap := insert task (lg_heap s), lg_id := lg_id s + 1,
                    lg_task := (lg_task s)(task := \<lparr>lt_type = ty, lt_facility = 0, lt_id = lg_id s, lt_message = take (unat len) str\<rparr>),
                    lg_tasks := svc_tasks_init_task task (lg_tasks s)\<rparr>
         in schedule_log e task s))"

text \<open>The text of \<open>svc_logger_vlog_state\<close>: \<open><%d>[%.5u.%.3u - %.3u] \<close> or \<open><->...\<close>, then the message, cut to the size of the buffer.\<close>

definition state_text :: "u32 \<Rightarrow> int \<Rightarrow> u32 \<Rightarrow> u8 list \<Rightarrow> u8 list" where
  "state_text stamp inst cnt printed =
     (let message_size = length printed + 32;
          head = [0x3C] @ (if inst \<ge> 0 then dec_digits 1 (nat inst) else [0x2D]) @ [0x3E, 0x5B] @ dec_digits 5 (unat stamp div 1000) @
            [0x2E] @ dec_digits 3 (unat stamp mod 1000) @ [0x20, 0x2D, 0x20] @ dec_digits 3 (unat cnt) @ [0x5D, 0x20];
          msg = take (message_size - 1) head
      in msg @ take (message_size - length head - 1) printed)"

definition memory_accepts :: "logger_state \<Rightarrow> u8 \<Rightarrow> bool" where
  "memory_accepts s severity \<longleftrightarrow> mlog_started (lg_mlog s) \<and> severity \<le> SVC_LOGGER_GET_SEVERITY (lf_type (lg_filter_mem s))"

definition svc_logger_vlog_state :: "log_env \<Rightarrow> int \<Rightarrow> u8 list option \<Rightarrow> logger_state \<Rightarrow> int \<times> logger_state" where
  "svc_logger_vlog_state e inst printed s =
     (if \<not> (SVC_LOGGER_SEVERITY_WARNING \<le> SVC_LOGGER_GET_SEVERITY (lf_type (lg_filter s)) \<or> memory_accepts s SVC_LOGGER_SEVERITY_WARNING)
      then (EOK, s)
      else case printed of
        None \<Rightarrow> (0, s)
      | Some printed \<Rightarrow>
          if le_malloc e = NULL then (E_NOMEM, s)
          else
            (let task = le_malloc e;
                 msg = state_text (le_stamp e) inst (lg_cnt s) printed;
                 ty = SVC_LOGGER_TYPE SVC_LOGGER_SEVERITY_WARNING 0;
                 s = s\<lparr>lg_heap := insert task (lg_heap s), lg_cnt := lg_cnt s + 1,
                        lg_task := (lg_task s)(task := \<lparr>lt_type = ty, lt_facility = 0, lt_id = of_int inst, lt_message = msg\<rparr>)\<rparr>;
                 s = (if memory_accepts s SVC_LOGGER_SEVERITY_WARNING
                      then s\<lparr>lg_mlog := snd (mlog_dbg (ucast (SVC_LOGGER_GET_SEVERITY ty)) (lg_id s) (le_fmt e msg) (le_now e) (lg_mlog s)),
                             lg_id := lg_id s + 1\<rparr>
                      else s)
             in if SVC_LOGGER_SEVERITY_WARNING \<le> SVC_LOGGER_GET_SEVERITY (lf_type (lg_filter s)) then
                  (let s = s\<lparr>lg_tasks := svc_tasks_init_task task (lg_tasks s)\<rparr>
                   in if SVC_LOGGER_SEVERITY_REPORT > SVC_LOGGER_GET_SEVERITY (lf_type (lg_filter s)) \<or> lg_channels s = []
                      then (EOK, logger_free task s)
                      else (EOK, snd (schedule_log e task s)))
                else (EOK, s)))"

text \<open>
  \<open>svc_logger_type_mem\<close>: the message is \<open>head\<close> and the dump of the memory in what \<open>head\<close> leaves of \<open>message_size\<close> bytes
  (below 4 GiB); if the dump writes nothing, \<open>head\<close> stays. The argument \<open>tail\<close> is not used. The task is cleared, which sets the fields
  \<open>svc_tasks_init_task\<close> sets to the same values.
\<close>

definition mem_message :: "u8 list \<Rightarrow> u8 list \<Rightarrow> u8 list" where
  "mem_message head mem =
     (let message_size = length mem * 6 + 96
      in take (message_size - 1) head @
         (case dbg_format_mem_dump_width (int message_size - int (length head)) mem (int (length mem)) 0 16 of None \<Rightarrow> [] | Some t \<Rightarrow> t))"

definition svc_logger_type_mem :: "log_env \<Rightarrow> u8 \<Rightarrow> u8 \<Rightarrow> u8 list \<Rightarrow> u8 list \<Rightarrow> logger_state \<Rightarrow> int \<times> logger_state" where
  "svc_logger_type_mem e ty facility mem head s =
     (if lg_sending s \<ge> SVC_LOGGER_MAX_QUEUE_SIZE then (E_TIMEOUT, s)
      else if \<not> (SVC_LOGGER_SEVERITY_WARNING \<le> SVC_LOGGER_GET_SEVERITY (lf_type (lg_filter s)) \<or> memory_accepts s SVC_LOGGER_SEVERITY_WARNING)
      then (EOK, s)
      else if le_malloc e = NULL then (E_NOMEM, s)
      else
        (let task = le_malloc e; dump = mem_message head mem;
             s = s\<lparr>lg_heap := insert task (lg_heap s), lg_id := lg_id s + 1,
                    lg_task := (lg_task s)(task := \<lparr>lt_type = ty, lt_facility = facility, lt_id = lg_id s, lt_message = dump\<rparr>),
                    lg_tasks := svc_tasks_init_task task (lg_tasks s)\<rparr>;
             s = (if memory_accepts s (SVC_LOGGER_GET_SEVERITY ty)
                  then s\<lparr>lg_mlog := snd (mlog_log 0 (ucast (SVC_LOGGER_GET_SEVERITY ty)) (le_fmt e dump) (le_now e) (lg_mlog s))\<rparr>
                  else s)
         in vlogx_schedule e ty task s))"

section \<open>Waiting\<close>

text \<open>\<open>sending n\<close>: the counter at the \<open>n\<close>-th look; \<open>bits n\<close>: what the \<open>n\<close>-th wait of the operating system returns.\<close>

partial_function (option) logger_wait_loop ::
    "(nat \<Rightarrow> int) \<Rightarrow> (nat \<Rightarrow> u32) \<Rightarrow> logger_state \<Rightarrow> nat \<Rightarrow> int \<Rightarrow> int option" where
  "logger_wait_loop sending bits s n res =
     (if sending n \<ge> SVC_LOGGER_MAX_QUEUE_SIZE - 1 then
        (let res = svc_tasks_wait_queue (bits n) (lg_tasks s) (ucast (lg_prio s))
         in if res = E_TIMEOUT then Some res else logger_wait_loop sending bits s (Suc n) res)
      else Some res)"

definition svc_logger_wait :: "(nat \<Rightarrow> int) \<Rightarrow> (nat \<Rightarrow> u32) \<Rightarrow> logger_state \<Rightarrow> int option" where
  "svc_logger_wait sending bits s = logger_wait_loop sending bits s 0 EOK"

partial_function (option) logger_wait_all_loop :: "(nat \<Rightarrow> int) \<Rightarrow> nat \<Rightarrow> u32 \<Rightarrow> int option" where
  "logger_wait_all_loop sending n timeout =
     (if sending n > 0 \<and> \<not> timeout \<le> SVC_TASK_MS2TICKS 10
      then logger_wait_all_loop sending (Suc n) (timeout - SVC_TASK_MS2TICKS 10)
      else Some (if sending (Suc n) \<noteq> 0 then EFAIL else EOK))"

definition svc_logger_wait_all :: "(nat \<Rightarrow> int) \<Rightarrow> u32 \<Rightarrow> int option" where
  "svc_logger_wait_all sending timeout = logger_wait_all_loop sending 0 timeout"

definition svs_logger_severity_str :: "u8 \<Rightarrow> string" where
  "svs_logger_severity_str ty =
     (let severity = SVC_LOGGER_GET_SEVERITY ty;
          names = [''never'', ''assert'', ''error'', ''warning'', ''report'', ''log'', ''info'', ''debug'', ''(undefined)''];
          severity = (if unat severity \<ge> length names then length names - 1 else unat severity)
      in names ! severity)"

section \<open>The filter of all channels\<close>

text \<open>Every filter of a channel that accepts anything is covered by the filter of the logger.\<close>

definition covers :: "u8 \<Rightarrow> u64 \<Rightarrow> LOGGGER_CHANNEL_FILTER_T \<Rightarrow> bool" where
  "covers severity msk f \<longleftrightarrow>
     lf_mask f \<noteq> 0 \<longrightarrow> SVC_LOGGER_GET_SEVERITY (lf_type f) \<le> severity \<and> (\<forall>b. bit (lf_mask f) b \<longrightarrow> bit msk b)"

definition log_filter_ok :: "logger_state \<Rightarrow> bool" where
  "log_filter_ok s \<longleftrightarrow> (\<forall>c \<in> set (lg_channels s). \<forall>i < SVC_LOGGER_FILTER_CNT.
     covers (SVC_LOGGER_GET_SEVERITY (lf_type (lg_filter s))) (lf_mask (lg_filter s)) (lc_filter (lg_channel s c) i))"

definition acc_le :: "u8 \<times> u64 \<Rightarrow> u8 \<times> u64 \<Rightarrow> bool" where
  "acc_le a b \<longleftrightarrow> fst a \<le> fst b \<and> (\<forall>n. bit (snd a) n \<longrightarrow> bit (snd b) n)"

lemma acc_le_refl [simp]: "acc_le a a"
  by (simp add: acc_le_def)

lemma acc_le_trans: "acc_le a b \<Longrightarrow> acc_le b c \<Longrightarrow> acc_le a c"
  by (auto simp: acc_le_def)

lemma covers_le: "covers (fst a) (snd a) f \<Longrightarrow> acc_le a b \<Longrightarrow> covers (fst b) (snd b) f"
  by (auto simp: covers_def acc_le_def)

definition acc_ok :: "u8 \<times> u64 \<Rightarrow> bool" where
  "acc_ok a \<longleftrightarrow> SVC_LOGGER_GET_SEVERITY (fst a) = fst a"

lemma add_filter_acc: "acc_le a (add_filter f a)" "covers (fst (add_filter f a)) (snd (add_filter f a)) f"
    "acc_ok a \<Longrightarrow> acc_ok (add_filter f a)"
  by (auto simp: acc_le_def add_filter_def covers_def acc_ok_def SVC_LOGGER_GET_SEVERITY_def bit_simps not_less and.assoc
      split: prod.splits if_splits)

lemma fold_acc:
  assumes step: "\<And>x a. acc_le a (g x a) \<and> (acc_ok a \<longrightarrow> acc_ok (g x a)) \<and> (\<forall>f \<in> F x. covers (fst (g x a)) (snd (g x a)) f)"
  shows "acc_le a (fold g xs a) \<and> (acc_ok a \<longrightarrow> acc_ok (fold g xs a)) \<and>
    (\<forall>x \<in> set xs. \<forall>f \<in> F x. covers (fst (fold g xs a)) (snd (fold g xs a)) f)"
proof (induction xs arbitrary: a)
  case (Cons x xs)
  have c: "acc_le (g x a) (fold g xs (g x a))" using Cons.IH by blast
  then have "\<forall>f \<in> F x. covers (fst (fold g xs (g x a))) (snd (fold g xs (g x a))) f" using covers_le step by blast
  then show ?case using Cons.IH [of "g x a"] step [of a x] acc_le_trans [OF _ c] by auto
qed simp

lemma severity_available_filter: "log_filter_ok (severity_channel_available s)"
proof -
  let ?g = "\<lambda>c. fold (\<lambda>i. add_filter (lc_filter (lg_channel s c) i)) [0..<SVC_LOGGER_FILTER_CNT]"
  let ?F = "\<lambda>c. {lc_filter (lg_channel s c) i |i. i < SVC_LOGGER_FILTER_CNT}"
  have inner: "acc_le a (?g c a) \<and> (acc_ok a \<longrightarrow> acc_ok (?g c a)) \<and> (\<forall>f \<in> ?F c. covers (fst (?g c a)) (snd (?g c a)) f)" for c a
    using fold_acc [where g = "\<lambda>i. add_filter (lc_filter (lg_channel s c) i)" and F = "\<lambda>i. {lc_filter (lg_channel s c) i}"
      and xs = "[0..<SVC_LOGGER_FILTER_CNT]" and a = a] add_filter_acc by fastforce
  let ?r = "fold ?g (lg_channels s) (SVC_LOGGER_SEVERITY_NEVER, 0)"
  have outer: "acc_le (SVC_LOGGER_SEVERITY_NEVER, 0) ?r \<and> (acc_ok (SVC_LOGGER_SEVERITY_NEVER, 0) \<longrightarrow> acc_ok ?r) \<and>
      (\<forall>c \<in> set (lg_channels s). \<forall>f \<in> ?F c. covers (fst ?r) (snd ?r) f)"
    by (rule fold_acc [where g = ?g and F = ?F]) (rule inner)
  have "acc_ok ?r" using outer by (simp add: acc_ok_def SVC_LOGGER_GET_SEVERITY_def SVC_LOGGER_SEVERITY_NEVER_def)
  moreover obtain sev msk where "?r = (sev, msk)" by force
  ultimately have "SVC_LOGGER_GET_SEVERITY (lf_type (lg_filter (severity_channel_available s))) = fst ?r"
      "lf_mask (lg_filter (severity_channel_available s)) = snd ?r"
    by (simp_all add: severity_channel_available_def SVC_LOGGER_TYPE_def acc_ok_def)
  moreover have "lg_channels (severity_channel_available s) = lg_channels s" "lg_channel (severity_channel_available s) = lg_channel s"
    by (simp_all add: severity_channel_available_def split: prod.split)
  ultimately show ?thesis using outer unfolding log_filter_ok_def by auto
qed

lemma logger_channel_ops_filter: "log_filter_ok (svc_logger_channel_add c s)" "log_filter_ok (svc_logger_channel_remove c s)"
  by (simp_all add: svc_logger_channel_add_def svc_logger_channel_remove_def severity_available_filter)

text \<open>What a task delivers to a channel.\<close>

definition deliver :: "(addr \<Rightarrow> LOGGER_CHANNEL_T) \<Rightarrow> LOGGER_TASK_T \<Rightarrow> addr \<Rightarrow> (addr \<times> addr \<times> u8 \<times> u8 \<times> u8 list) list" where
  "deliver cs t c =
     (case find (filter_accepts (cs c) t) [0..<SVC_LOGGER_FILTER_CNT] of
        None \<Rightarrow> []
      | Some i \<Rightarrow> [(lc_fp (cs c), c, lt_type t, lt_facility t, message_for (lc_filter (cs c) i) (lt_message t))])"

lemma call_channels:
  "fold (call_channel task) cs s = s\<lparr>lg_calls := lg_calls s @ concat (map (deliver (lg_channel s) (lg_task s task)) cs)\<rparr>"
  by (induction cs arbitrary: s) (simp_all add: call_channel_def deliver_def Let_def split: option.split)

lemma facility_bit: "(msk AND SVC_LOGGER_FACILITY_MASK facility \<noteq> 0) \<longleftrightarrow> bit msk (unat facility)"
proof -
  have "bit (msk AND push_bit (unat facility) 1) b \<longleftrightarrow> bit msk (unat facility) \<and> b = unat facility" for b
    by (auto simp: bit_simps dest: bit_imp_le_length)
  then show ?thesis unfolding SVC_LOGGER_FACILITY_MASK_def
    using bit_eq_iff [of "msk AND push_bit (unat facility) 1" 0] bit_imp_le_length [of msk "unat facility"] by auto
qed

text \<open>A message the logger drops at once is for no channel.\<close>

lemma dropped_for_none:
  assumes f: "log_filter_ok s" and c: "c \<in> set (lg_channels s)"
    and d: "\<not> (SVC_LOGGER_GET_SEVERITY (lt_type t) \<le> SVC_LOGGER_GET_SEVERITY (lf_type (lg_filter s)) \<and>
      SVC_LOGGER_WOULD_LOG (lg_filter s) (lt_type t) (lt_facility t))"
  shows "deliver (lg_channel s) t c = []"
proof -
  have "\<not> filter_accepts (lg_channel s c) t i" if i: "i < SVC_LOGGER_FILTER_CNT" for i
  proof
    assume a: "filter_accepts (lg_channel s c) t i"
    let ?f = "lc_filter (lg_channel s c) i"
    have cov: "covers (SVC_LOGGER_GET_SEVERITY (lf_type (lg_filter s))) (lf_mask (lg_filter s)) ?f"
      using f c i by (simp add: log_filter_ok_def)
    have m: "lf_mask ?f \<noteq> 0" "SVC_LOGGER_GET_SEVERITY (lt_type t) \<le> SVC_LOGGER_GET_SEVERITY (lf_type ?f)"
        "lt_facility t \<noteq> 0 \<Longrightarrow> bit (lf_mask ?f) (unat (lt_facility t))"
      using a facility_bit [of "lf_mask ?f" "lt_facility t"] by (auto simp: filter_accepts_def Let_def and.commute split: if_splits)
    then have "SVC_LOGGER_GET_SEVERITY (lt_type t) \<le> SVC_LOGGER_GET_SEVERITY (lf_type (lg_filter s))"
        "lt_facility t \<noteq> 0 \<Longrightarrow> bit (lf_mask (lg_filter s)) (unat (lt_facility t))"
      using cov by (auto simp: covers_def)
    then show False using d facility_bit [of "lf_mask (lg_filter s)" "lt_facility t"]
      by (auto simp: SVC_LOGGER_WOULD_LOG_def and.commute)
  qed
  then have "find (filter_accepts (lg_channel s c) t) [0..<SVC_LOGGER_FILTER_CNT] = None" by (simp add: find_None_iff)
  then show ?thesis by (simp add: deliver_def)
qed

section \<open>Properties\<close>

text \<open>What the channels get of a message: the filters decide per channel, the first filter that accepts is used.\<close>

definition deliveries :: "logger_state \<Rightarrow> LOGGER_TASK_T \<Rightarrow> (addr \<times> addr \<times> u8 \<times> u8 \<times> u8 list) list" where
  "deliveries s t = concat (map (deliver (lg_channel s) t) (lg_channels s))"

text \<open>The task scheduled: what \<open>svc_logger_vlogx\<close> leaves behind once the message is formatted.\<close>

lemma vlogx_effect:
  assumes "lg_sending s < SVC_LOGGER_MAX_QUEUE_SIZE" "le_malloc e = m" "m \<noteq> NULL" "format_message (le_stamp e) ty (lg_id s) text = Some msg"
    and "svc_logger_vlogx e ty facility (Some text) s = Some (r, s1)"
  obtains ml where "(r, s1) = vlogx_schedule e ty m (s\<lparr>lg_heap := insert m (lg_heap s), lg_id := lg_id s + 1,
    lg_task := (lg_task s)(m := \<lparr>lt_type = ty, lt_facility = facility, lt_id = lg_id s, lt_message = msg\<rparr>),
    lg_tasks := svc_tasks_init_task m (lg_tasks s), lg_mlog := ml\<rparr>)"
proof -
  define s0 where "s0 = s\<lparr>lg_heap := insert m (lg_heap s), lg_id := lg_id s + 1,
    lg_task := (lg_task s)(m := \<lparr>lt_type = ty, lt_facility = facility, lt_id = lg_id s, lt_message = msg\<rparr>),
    lg_tasks := svc_tasks_init_task m (lg_tasks s)\<rparr>"
  have "logger_create_task e ty facility (Some text) s = Some (m, s0)"
    using assms(2-4) by (simp add: logger_create_task_def s0_def)
  then obtain c ml where "(r, s1) = vlogx_schedule e ty m (if c then s0\<lparr>lg_mlog := ml\<rparr> else s0)"
    using assms(1,3,5) by (auto simp: svc_logger_vlogx_def Let_def not_le dest: sym)
  then show thesis using that [of ml] that [of "lg_mlog s0"] by (cases c) (simp_all add: s0_def)
qed


lemma filter_indices: "[0..<SVC_LOGGER_FILTER_CNT] = [0, 1]"
  by (simp add: SVC_LOGGER_FILTER_CNT_def upt_rec)

definition demo_logger :: logger_state where
  "demo_logger = svc_logger_channel_add 30
     \<lparr>lg_filter = \<lparr>lf_mask = 0, lf_type = 0\<rparr>, lg_filter_mem = \<lparr>lf_mask = 0x20, lf_type = 5\<rparr>, lg_prio = 1, lg_id = 7, lg_sending = 0,
      lg_cnt = 0, lg_channels = [],
      lg_channel = (\<lambda>_. \<lparr>lc_fp = 33, lc_filter = (\<lambda>i. if i = 0 then \<lparr>lf_mask = 0x20, lf_type = 0x27\<rparr> else \<lparr>lf_mask = 0, lf_type = 0\<rparr>), lc_user = 0\<rparr>),
      lg_task = (\<lambda>_. \<lparr>lt_type = 0, lt_facility = 0, lt_id = 0, lt_message = []\<rparr>), lg_heap = {}, lg_tasks = demo_tasks,
      lg_mlog = demo_log, lg_calls = []\<rparr>"

lemma demo_logger_fields: "lg_tasks demo_logger = demo_tasks" "lg_sending demo_logger = 0" "lg_prio demo_logger = 1" "lg_calls demo_logger = []"
    "lg_heap demo_logger = {}" "lg_channels demo_logger = [30]" "lg_mlog demo_logger = demo_log" "lg_filter_mem demo_logger = \<lparr>lf_mask = 0x20, lf_type = 5\<rparr>"
    "lc_fp (lg_channel demo_logger 30) = 33" "lc_filter (lg_channel demo_logger 30) 0 = \<lparr>lf_mask = 0x20, lf_type = 0x27\<rparr>"
    "lg_filter demo_logger = \<lparr>lf_mask = 0x20, lf_type = 7\<rparr>" "lg_id demo_logger = 7"
  by (simp_all add: demo_logger_def svc_logger_channel_add_def severity_channel_available_def list_ops add_filter_def
      filter_indices SVC_LOGGER_GET_SEVERITY_def SVC_LOGGER_SEVERITY_NEVER_def SVC_LOGGER_TYPE_def)

lemmas log_codes = SVC_LOGGER_GET_SEVERITY_def SVC_LOGGER_SEVERITY_NEVER_def SVC_LOGGER_TYPE_def SVC_LOGGER_FLAGS_NO_FORMATTING_def
  SVC_LOGGER_FLAGS_NO_TIMESTAMP_def SVC_LOGGER_FLAGS_PROGRESS_def SVC_LOGGER_MASK_def SVC_LOGGER_FACILITY_MASK_def filter_indices
  SVC_LOGGER_SEVERITY_WARNING_def SVC_LOGGER_SEVERITY_REPORT_def

lemma demo_format: "format_message 1234 4 7 [104, 105, 13, 10] = Some [0x5B, 0x30, 0x30, 0x30, 0x30, 0x31, 0x2E, 0x32, 0x33, 0x34, 0x5D, 0x20, 104, 105]"
  by (simp add: format_message_def timestamp_text_def dec_digits.simps log_codes EXTRA_CHARS_def trim_char_def)

definition demo_log_env :: log_env where
  "demo_log_env = \<lparr>le_malloc = 9, le_stamp = 1234, le_now = 0, le_clk = (\<lambda>_. 0), le_tset = True, le_fmt = (\<lambda>_. None)\<rparr>"


text \<open>While only the memory takes warnings, every call of \<open>svc_logger_vlog_state\<close> keeps the block it has allocated: it is
  neither scheduled nor freed.\<close>

theorem vlog_state_leaks:
  assumes "SVC_LOGGER_GET_SEVERITY (lf_type (lg_filter s)) < SVC_LOGGER_SEVERITY_WARNING"
    "memory_accepts s SVC_LOGGER_SEVERITY_WARNING" "le_malloc e \<noteq> NULL" "svc_logger_vlog_state e inst (Some text) s = (r, s')"
  shows "r = EOK \<and> lg_heap s' = insert (le_malloc e) (lg_heap s) \<and> lg_tasks s' = lg_tasks s \<and> lg_sending s' = lg_sending s"
  using assms(2-4) assms(1) [unfolded not_le [symmetric]] by (auto simp: svc_logger_vlog_state_def Let_def memory_accepts_def)

theorem vlog_state_leaks_witness:
  "lg_heap (snd (svc_logger_vlog_state demo_log_env 2 (Some [104, 105]) (svc_logger_channel_remove 30 demo_logger))) = {9}"
proof -
  let ?s = "svc_logger_channel_remove 30 demo_logger"
  have r: "lg_filter ?s = \<lparr>lf_mask = 0, lf_type = 0\<rparr>" "lg_heap ?s = {}" "lg_mlog ?s = demo_log"
      "lg_filter_mem ?s = \<lparr>lf_mask = 0x20, lf_type = 5\<rparr>"
    by (simp_all add: svc_logger_channel_remove_def severity_channel_available_def demo_logger_fields list_ops log_codes)
  obtain res s' where e: "svc_logger_vlog_state demo_log_env 2 (Some [104, 105]) ?s = (res, s')" by force
  show ?thesis using vlog_state_leaks [OF _ _ _ e]
    by (simp add: e r memory_accepts_def log_codes demo_log_def mlog_started_def) (simp add: demo_log_env_def)
qed


section \<open>Dumps of memory\<close>

text \<open>
  What becomes of a dump in a log message. The text of the memory is complete, and tells its bytes, exactly if the heading
  is shorter than the size of the task leaves by the estimate of the dump; a heading that is longer costs the last line,
  and a short memory its only one.
\<close>

theorem mem_message_complete:
  assumes "length head + 87 * ((length mem - 1) div 16) < 6 * length mem + 7"
  shows "\<exists>t. mem_message head mem = head @ t \<and> undump 16 t = mem"
proof -
  let ?bl = "int (length mem * 6 + 96) - int (length head)"
  have fit: "line_fits ?bl 16 ((length mem - 1) div 16)" using assms unfolding line_fits_def LINE_LENGTH_def by simp
  have "(0 :: nat) < 16" "22 \<le> ?bl" "int (16 :: nat) = 16" using assms by simp_all
  with dump_fits_whole [OF this(1,2) fit, of 0] show ?thesis using assms by (auto simp: mem_message_def Let_def)
qed

theorem mem_message_loses_dump:
  assumes "length mem \<le> 16" "6 * length mem + 7 \<le> length head" "length head \<le> 6 * length mem + 74"
  shows "mem_message head mem = head"
proof -
  let ?bl = "int (length mem * 6 + 96) - int (length head)"
  have "dbg_format_mem_dump_width ?bl mem (int (length mem)) 0 (int (16 :: nat)) = None"
    by (rule small_buffer_untouched) (use assms in \<open>simp_all add: LINE_LENGTH_def\<close>)
  then show ?thesis using assms by (simp add: mem_message_def Let_def)
qed

end
