(* ===== verification/Shell.thy ===== *)
theory Shell
  imports Services Wdt Strsub "HOL-Library.List_Lexorder" "HOL-Library.Sublist"
begin

text \<open>
  The commands of the shell, src/svc/svc_shell.c: the chain of command lists, the search for a command, its run under the
  watchdog, the help listing and the output functions. A text is the list of its bytes before the terminating zero.

  The chain starts with the static list; a pointer to a list is the rest of the chain from it on. The entries of a list
  are those before its terminating null pointer, for the static list the entries of the table of the linker. The functions of
  the commands and the output function of the interface are an environment: a command may change the whole state, the
  answer of the output function depends on everything that was written. Order and comparison of texts are those of
  \<open>strcmp\<close>, the lexicographic order of unsigned bytes.
\<close>

section \<open>Data\<close>

definition SVC_SHELL_OUT_NULL :: u32 where "SVC_SHELL_OUT_NULL = 0"
definition SVC_SHELL_OUT_STD :: u32 where "SVC_SHELL_OUT_STD = 1"
definition SVC_SHELL_OUT_ERR :: u32 where "SVC_SHELL_OUT_ERR = 2"
definition SVC_SHELL_CMD_E_OK :: int where "SVC_SHELL_CMD_E_OK = 0"
definition SVC_SHELL_CMD_E_FAIL :: int where "SVC_SHELL_CMD_E_FAIL = -1"
definition SVC_SHELL_CMD_E_NOT_FOUND :: int where "SVC_SHELL_CMD_E_NOT_FOUND = -2"
definition SVC_SHELL_CMD_E_PARMS :: int where "SVC_SHELL_CMD_E_PARMS = -3"
definition SVC_SHELL_CMD_E_NOT_READY :: int where "SVC_SHELL_CMD_E_NOT_READY = -7"
definition SVC_SHELL_CMD_E_MEMORY :: int where "SVC_SHELL_CMD_E_MEMORY = -8"
definition SVC_SHELL_PRINT_BUFFER_SIZE :: nat where "SVC_SHELL_PRINT_BUFFER_SIZE = 488"
definition SVC_SHELL_NEWLINE :: "u8 list" where "SVC_SHELL_NEWLINE = [13, 10]"

lemmas shell_codes = SVC_SHELL_CMD_E_OK_def SVC_SHELL_CMD_E_FAIL_def SVC_SHELL_CMD_E_NOT_FOUND_def SVC_SHELL_CMD_E_PARMS_def
  SVC_SHELL_CMD_E_NOT_READY_def SVC_SHELL_CMD_E_MEMORY_def

record SVC_SHELL_CMD_T =
  cm_cmd :: "u8 list"
  cm_fp :: addr
  cm_usage :: "u8 list option"

record SVC_SHELL_CMD_LIST_T =
  cl_service :: int
  cl_cmds :: "SVC_SHELL_CMD_T list"
  cl_cnt :: nat

record SVC_SHELL_CMD_LIST_IT_T =
  si_lst :: "addr list"
  si_idx :: nat

record SVC_SHELL_IF_T =
  sf_status :: int
  sf_recurse :: u32
  sf_wdt :: addr

text \<open>\<open>sh_chain\<close>: the installed lists; the static list has the address \<open>QSHELL_STATIC_LIST\<close> and is in front of them.
  \<open>sh_outs\<close>: what was written through an interface, \<open>None\<close> for the null pointer.\<close>

record shell_state =
  sh_chain :: "addr list"
  sh_list :: "addr \<Rightarrow> SVC_SHELL_CMD_LIST_T"
  sh_if :: "addr \<Rightarrow> SVC_SHELL_IF_T"
  sh_outs :: "(addr \<times> u32 \<times> u8 list option) list"
  sh_wdt :: wdt_state
  sh_services :: services
  sh_strsub :: "dst STRSUB_INSTANCE_T"

record shell_env =
  xe_cmd :: "addr \<Rightarrow> addr \<Rightarrow> u8 list list \<Rightarrow> shell_state \<Rightarrow> int \<times> shell_state"
  xe_out :: "(addr \<times> u32 \<times> u8 list option) list \<Rightarrow> int"
  xe_thread :: nat
  xe_senv :: senv

definition QSHELL_STATIC_LIST :: addr where "QSHELL_STATIC_LIST = 1"

definition upd_if :: "addr \<Rightarrow> (SVC_SHELL_IF_T \<Rightarrow> SVC_SHELL_IF_T) \<Rightarrow> shell_state \<Rightarrow> shell_state" where
  "upd_if pif f s = s\<lparr>sh_if := (sh_if s)(pif := f (sh_if s pif))\<rparr>"

section \<open>Starting\<close>

text \<open>\<open>table\<close>: the commands between the symbols of the linker.\<close>

definition svc_shell_init :: "SVC_SHELL_CMD_T list \<Rightarrow> shell_state \<Rightarrow> int \<times> shell_state" where
  "svc_shell_init table s =
     (SVC_SHELL_CMD_E_OK,
      if length table > 0
      then s\<lparr>sh_list := (sh_list s)(QSHELL_STATIC_LIST := (sh_list s QSHELL_STATIC_LIST)\<lparr>cl_cmds := table, cl_cnt := length table\<rparr>)\<rparr>
      else s)"

definition svc_shell_start :: int where "svc_shell_start = SVC_SHELL_CMD_E_OK"
definition svc_shell_stop :: int where "svc_shell_stop = SVC_SHELL_CMD_E_OK"

text \<open>The context and the functions of the interface are part of the environment.\<close>

definition svc_shell_if_init :: "addr \<Rightarrow> shell_state \<Rightarrow> int \<times> shell_state" where
  "svc_shell_if_init pif s = (EOK, upd_if pif (\<lambda>p. p\<lparr>sf_status := 0\<rparr>) s)"

section \<open>The chain of command lists\<close>

definition cmd_get :: "shell_state \<Rightarrow> SVC_SHELL_CMD_LIST_IT_T \<Rightarrow> SVC_SHELL_CMD_T option" where
  "cmd_get s it = (let l = sh_list s (hd (si_lst it)) in if si_idx it < length (cl_cmds l) then Some (cl_cmds l ! si_idx it) else None)"

definition cmd_first :: "shell_state \<Rightarrow> SVC_SHELL_CMD_LIST_IT_T \<times> SVC_SHELL_CMD_T option" where
  "cmd_first s =
     (let it = \<lparr>si_lst = (if cl_cmds (sh_list s QSHELL_STATIC_LIST) = [] then sh_chain s else QSHELL_STATIC_LIST # sh_chain s), si_idx = 0\<rparr>
      in (it, if si_lst it = [] then None else cmd_get s it))"

definition cmd_next :: "shell_state \<Rightarrow> SVC_SHELL_CMD_LIST_IT_T \<Rightarrow> SVC_SHELL_CMD_LIST_IT_T \<times> SVC_SHELL_CMD_T option" where
  "cmd_next s it =
     (let it = it\<lparr>si_idx := si_idx it + 1\<rparr>; l = sh_list s (hd (si_lst it))
      in if si_lst it = [] \<or> cl_cnt l \<noteq> 0 \<and> si_idx it \<ge> cl_cnt l \<or> cmd_get s it = None then
           (if tl (si_lst it) = [] then (it, None)
            else (let it = \<lparr>si_lst = tl (si_lst it), si_idx = 0\<rparr> in (it, cmd_get s it)))
         else (it, cmd_get s it))"

text \<open>The loop over all commands, \<open>for (cmd = _cmd_first(&it); cmd; cmd = _cmd_next(&it))\<close>: the iterators it visits. The
  bodies of these loops do not change the lists, except for a command that is run, behind which the loop ends.\<close>

function cmd_walk :: "shell_state \<Rightarrow> SVC_SHELL_CMD_LIST_IT_T \<Rightarrow> (SVC_SHELL_CMD_LIST_IT_T \<times> SVC_SHELL_CMD_T) list" where
  "cmd_walk s it =
     (case cmd_get s it of
        None \<Rightarrow> []
      | Some cmd \<Rightarrow> (it, cmd) # (if snd (cmd_next s it) = None then [] else cmd_walk s (fst (cmd_next s it))))"
  by pat_completeness auto

termination
proof (relation "measures [\<lambda>(s, it). length (si_lst it), \<lambda>(s, it). length (cl_cmds (sh_list s (hd (si_lst it)))) - si_idx it]", goal_cases)
  case (2 s it cmd)
  then have "si_idx it < length (cl_cmds (sh_list s (hd (si_lst it))))" by (simp add: cmd_get_def Let_def split: if_splits)
  then show ?case using 2 by (cases "si_lst it") (auto simp: cmd_next_def Let_def split: if_splits)
qed simp

declare cmd_walk.simps [simp del]

definition all_cmds :: "shell_state \<Rightarrow> (SVC_SHELL_CMD_LIST_IT_T \<times> SVC_SHELL_CMD_T) list" where
  "all_cmds s = (case cmd_first s of (it, None) \<Rightarrow> [] | (it, Some _) \<Rightarrow> cmd_walk s it)"

definition svc_shell_install :: "addr \<Rightarrow> shell_state \<Rightarrow> int \<times> shell_state" where
  "svc_shell_install lst s =
     (if lst \<in> set (sh_chain s) then (E_PARM, s) else (SVC_SHELL_CMD_E_OK, s\<lparr>sh_chain := sh_chain s @ [lst]\<rparr>))"

text \<open>The static list is in front of the chain, so it has no predecessor and stays.\<close>

definition svc_shell_uninstall :: "addr \<Rightarrow> shell_state \<Rightarrow> int \<times> shell_state" where
  "svc_shell_uninstall lst s =
     (SVC_SHELL_CMD_E_OK, if lst = QSHELL_STATIC_LIST then s else s\<lparr>sh_chain := remove1 lst (sh_chain s)\<rparr>)"

section \<open>Output\<close>

definition shell_out :: "shell_env \<Rightarrow> addr \<Rightarrow> u32 \<Rightarrow> u8 list option \<Rightarrow> shell_state \<Rightarrow> int \<times> shell_state" where
  "shell_out e pif out str s = (let s = s\<lparr>sh_outs := sh_outs s @ [(pif, out, str)]\<rparr> in (xe_out e (sh_outs s), s))"

text \<open>\<open>printed\<close>: the text \<open>vsnprintf\<close> makes; the buffer takes what fits.\<close>

definition svc_shell_print :: "shell_env \<Rightarrow> addr \<Rightarrow> u32 \<Rightarrow> u8 list \<Rightarrow> shell_state \<Rightarrow> int \<times> shell_state" where
  "svc_shell_print e pif out printed s =
     (int (length printed), snd (shell_out e pif out (Some (take (SVC_SHELL_PRINT_BUFFER_SIZE - 1) printed)) s))"

text \<open>The loop that fills up with blanks to the column \<open>tabright\<close>.\<close>

function tab_loop :: "u8 list \<Rightarrow> int \<Rightarrow> u8 list" where
  "tab_loop buf tabright =
     (let buf = buf @ [32]
      in if int (length buf) < tabright \<and> length buf < SVC_SHELL_PRINT_BUFFER_SIZE - 3 then tab_loop buf tabright else buf)"
  by pat_completeness auto

termination
  by (relation "measure (\<lambda>(buf, _). SVC_SHELL_PRINT_BUFFER_SIZE - length buf)") auto

declare tab_loop.simps [simp del]

text \<open>\<open>None\<close>: a write outside the buffer, since \<open>snprintf\<close> returns the length of the whole text. When \<open>left\<close> is cut its
  terminator is in front of the blanks and ends the text.\<close>

definition svc_shell_print_table ::
    "shell_env \<Rightarrow> addr \<Rightarrow> u32 \<Rightarrow> u8 list \<Rightarrow> int \<Rightarrow> u8 list \<Rightarrow> shell_state \<Rightarrow> (int \<times> shell_state) option" where
  "svc_shell_print_table e pif out left tabright printed s =
     (if length left \<ge> SVC_SHELL_PRINT_BUFFER_SIZE then None
      else if length left \<ge> SVC_SHELL_PRINT_BUFFER_SIZE - 3 then
        Some (int (length left) + 1 + int (length printed), snd (shell_out e pif out (Some (take (SVC_SHELL_PRINT_BUFFER_SIZE - 4) left)) s))
      else
        (let buf = tab_loop left tabright
         in Some (int (length buf) + int (length printed),
              snd (shell_out e pif out (Some (buf @ take (SVC_SHELL_PRINT_BUFFER_SIZE - length buf - 1) printed)) s))))"

text \<open>\<open>str\<close>: the \<open>len\<close> bytes to write; \<open>strncpy\<close> stops at a zero.\<close>

function svc_shell_write :: "shell_env \<Rightarrow> addr \<Rightarrow> u32 \<Rightarrow> u8 list \<Rightarrow> nat \<Rightarrow> shell_state \<Rightarrow> nat \<times> shell_state" where
  "svc_shell_write e pif out str offset s =
     (let n = (if length str > 480 then 480 else length str);
          s = snd (shell_out e pif out (Some (takeWhile (\<lambda>c. c \<noteq> 0) (take n str))) s)
      in if drop n str \<noteq> [] then svc_shell_write e pif out (drop n str) (offset + n) s else (offset + n, s))"
  by pat_completeness auto

termination
  by (relation "measure (\<lambda>(_, _, _, str, _, _). length str)") auto

declare svc_shell_write.simps [simp del]

definition hex_digit :: "nat \<Rightarrow> u8" where
  "hex_digit n = (if n < 10 then 0x30 + of_nat n else 0x57 + of_nat n)"

definition hex2 :: "u8 \<Rightarrow> u8 list" where
  "hex2 b = [hex_digit (unat b div 16), hex_digit (unat b mod 16)]"

text \<open>The text of one pass through the buffer and the number \<open>i\<close> of bytes in it; \<open>snprintf\<close> writes what fits.\<close>

fun hex_chunk :: "u8 list \<Rightarrow> nat \<Rightarrow> u8 list \<times> nat" where
  "hex_chunk [] offset = ([], 0)"
| "hex_chunk (b # bs) offset =
     (let hex_len = SVC_SHELL_PRINT_BUFFER_SIZE - 1
      in if offset < hex_len then
           (let w = take (hex_len - offset - 1) (hex2 b); offset = offset + length (hex2 b)
            in if offset \<ge> hex_len then (w, 0) else (let (t, i) = hex_chunk bs offset in (w @ t, i + 1)))
         else ([], 0))"

lemma hex_chunk_pos: "buffer \<noteq> [] \<Longrightarrow> 0 < snd (hex_chunk buffer 0)"
  by (cases buffer) (simp_all add: Let_def hex2_def SVC_SHELL_PRINT_BUFFER_SIZE_def split: prod.split)

function write_hex_loop :: "shell_env \<Rightarrow> addr \<Rightarrow> u32 \<Rightarrow> u8 list \<Rightarrow> shell_state \<Rightarrow> shell_state" where
  "write_hex_loop e pif out buffer s =
     (if buffer \<noteq> [] then
        write_hex_loop e pif out (drop (snd (hex_chunk buffer 0)) buffer)
          (snd (shell_out e pif out (Some (fst (hex_chunk buffer 0))) s))
      else s)"
  by pat_completeness auto

termination
  by (relation "measure (\<lambda>(_, _, _, buffer, _). length buffer)") (use hex_chunk_pos in auto)

declare write_hex_loop.simps [simp del]

definition svc_shell_write_hex :: "shell_env \<Rightarrow> addr \<Rightarrow> u32 \<Rightarrow> u8 list \<Rightarrow> shell_state \<Rightarrow> int \<times> shell_state" where
  "svc_shell_write_hex e pif out buffer s = (int (length buffer), write_hex_loop e pif out buffer s)"

section \<open>Numbers\<close>

definition isspace :: "u8 \<Rightarrow> bool" where
  "isspace c \<longleftrightarrow> c = 32 \<or> 9 \<le> c \<and> c \<le> 13"

text \<open>\<open>strtoull\<close> of the C library: the value, whether it is out of range, and the rest of the text.\<close>

definition digit_val :: "u8 \<Rightarrow> nat" where
  "digit_val c =
     (if 48 \<le> c \<and> c \<le> 57 then unat c - 48 else if 65 \<le> c \<and> c \<le> 90 then unat c - 55
      else if 97 \<le> c \<and> c \<le> 122 then unat c - 87 else 36)"

definition strtoull :: "u8 list \<Rightarrow> nat \<Rightarrow> nat \<times> bool \<times> u8 list" where
  "strtoull str base =
     (let t = dropWhile isspace str;
          neg = (t \<noteq> [] \<and> hd t = 45);
          t = (if t \<noteq> [] \<and> (hd t = 43 \<or> hd t = 45) then tl t else t);
          hex = (length t > 2 \<and> hd t = 48 \<and> t ! 1 \<in> {120, 88} \<and> digit_val (t ! 2) < 16);
          (b, t) = (if base \<noteq> 0 then (base, t) else if hex then (16, drop 2 t) else if t \<noteq> [] \<and> hd t = 48 then (8, t) else (10, t));
          ds = takeWhile (\<lambda>c. digit_val c < b) t;
          v = foldl (\<lambda>a c. a * b + digit_val c) 0 ds
      in if ds = [] then (0, False, str)
         else if v \<ge> 2 ^ 64 then (2 ^ 64 - 1, True, drop (length ds) t)
         else (if neg \<and> v > 0 then 2 ^ 64 - v else v, False, drop (length ds) t))"

text \<open>The value is \<open>None\<close> where the function fails. A null pointer is not modelled.\<close>

definition binary_prefix :: "u8 list \<Rightarrow> bool" where
  "binary_prefix digits \<longleftrightarrow> length digits \<ge> 2 \<and> hd digits = 48 \<and> digits ! 1 \<in> {98, 66}"

definition svc_shell_scan_int :: "u8 list \<Rightarrow> int \<times> u32 option" where
  "svc_shell_scan_int str =
     (if str = [] then (SVC_SHELL_CMD_E_FAIL, None)
      else
        (let signed = (hd str = 43 \<or> hd str = 45); negative = (hd str = 45); digits = (if signed then tl str else str)
         in if signed \<and> digits = [] then (SVC_SHELL_CMD_E_FAIL, None)
            else
              (let binary = binary_prefix digits;
                   digits = (if binary then drop 2 digits else digits)
               in if binary \<and> digits = [] then (SVC_SHELL_CMD_E_FAIL, None)
                  else
                    (let (parsed, range, end_ptr) = strtoull digits (if binary then 2 else 0)
                     in if range \<or> end_ptr \<noteq> [] then (SVC_SHELL_CMD_E_FAIL, None)
                        else if negative then
                          (if parsed > 2147483647 + 1 then (SVC_SHELL_CMD_E_FAIL, None)
                           else (SVC_SHELL_CMD_E_OK, Some (of_int (- int parsed))))
                        else if parsed > 4294967295 then (SVC_SHELL_CMD_E_FAIL, None)
                        else (SVC_SHELL_CMD_E_OK, Some (of_nat parsed))))))"

section \<open>Commands\<close>

text \<open>Whether the service of a list has started, and the run of a command that was found.\<close>

definition service_started :: "shell_env \<Rightarrow> int \<Rightarrow> shell_state \<Rightarrow> bool \<times> shell_state" where
  "service_started e service s =
     (if service \<noteq> 0
      then (let (status, v) = svc_service_status (xe_senv e) (sh_services s) (svc_service_get (sh_services s) service)
            in (status \<ge> SVC_SERVICE_STATUS_STARTED, s\<lparr>sh_services := v\<rparr>))
      else (True, s))"

definition run_found :: "shell_env \<Rightarrow> addr \<Rightarrow> u8 list list \<Rightarrow> int \<Rightarrow> SVC_SHELL_CMD_T \<Rightarrow> shell_state \<Rightarrow> int \<times> shell_state" where
  "run_found e pif argv service cmd s =
     (let usage = \<not> (length argv \<le> 1 \<or> argv ! 1 = [] \<or> hd (argv ! 1) \<noteq> 63);
          (res, s) =
            (if usage then (SVC_SHELL_CMD_E_NOT_FOUND, s)
             else
               (let (started, s) = service_started e service s
                in if started then xe_cmd e (cm_fp cmd) pif argv s else (SVC_SHELL_CMD_E_NOT_READY, s)))
      in case cm_usage cmd of
           Some u \<Rightarrow>
             if usage \<or> res = SVC_SHELL_CMD_E_PARMS then
               (SVC_SHELL_CMD_E_OK, snd (svc_shell_print e pif SVC_SHELL_OUT_STD
                  (bytes ''usage: '' @ cm_cmd cmd @ [32] @ u @ SVC_SHELL_NEWLINE) s))
             else (res, s)
         | None \<Rightarrow> (res, s))"

definition svc_shell_cmd_run :: "shell_env \<Rightarrow> addr \<Rightarrow> u8 list list \<Rightarrow> shell_state \<Rightarrow> int \<times> shell_state" where
  "svc_shell_cmd_run e pif argv s =
     (if argv ! 0 \<noteq> [] \<and> hd (argv ! 0) = 35 then (SVC_SHELL_CMD_E_OK, s)
      else
        (let s = s\<lparr>sh_wdt := svc_wdt_activate (xe_thread e) (sf_wdt (sh_if s pif))
                     (svc_wdt_register (xe_thread e) (sf_wdt (sh_if s pif)) TIMEOUT_60_SEC (sh_wdt s))\<rparr>;
             (res, s) =
               (case find (\<lambda>(it, cmd). cm_cmd cmd = argv ! 0) (all_cmds s) of
                  None \<Rightarrow> (SVC_SHELL_CMD_E_NOT_FOUND, s)
                | Some (it, cmd) \<Rightarrow> run_found e pif argv (cl_service (sh_list s (hd (si_lst it)))) cmd s);
             s = (if res = SVC_SHELL_CMD_E_NOT_FOUND
                  then snd (svc_shell_print e pif SVC_SHELL_OUT_ERR
                    (bytes ''ERROR: '' @ [39] @ argv ! 0 @ [39] @ bytes '' not found!'' @ SVC_SHELL_NEWLINE) s)
                  else s)
         in (res, s\<lparr>sh_wdt := svc_wdt_unregister (sf_wdt (sh_if s pif)) TIMEOUT_60_SEC (sh_wdt s)\<rparr>)))"

text \<open>\<open>svc_shell_cmd_help\<close>: the text in the buffer and the result.\<close>

fun cmd_help_loop :: "nat \<Rightarrow> (SVC_SHELL_CMD_LIST_IT_T \<times> SVC_SHELL_CMD_T) list \<Rightarrow> u8 list \<Rightarrow> u8 list" where
  "cmd_help_loop len [] buffer = buffer"
| "cmd_help_loop len ((it, cmd) # cs) buffer =
     (case cm_usage cmd of
        Some u \<Rightarrow>
          if length buffer + 3 \<le> len then
            (if length buffer + length u + length (cm_cmd cmd) + 4 < len
             then cmd_help_loop len cs (buffer @ take (len - length buffer - 1) (cm_cmd cmd @ [32] @ u @ [13, 10]))
             else buffer)
          else cmd_help_loop len cs buffer
      | None \<Rightarrow> cmd_help_loop len cs buffer)"

definition svc_shell_cmd_help :: "nat \<Rightarrow> shell_state \<Rightarrow> u8 list \<times> nat" where
  "svc_shell_cmd_help len s = (let buffer = cmd_help_loop len (all_cmds s) [] in (buffer, length buffer + 1))"

section \<open>The commands of the shell itself\<close>

definition qshell_rem :: "addr \<Rightarrow> u8 list list \<Rightarrow> shell_state \<Rightarrow> int \<times> shell_state" where
  "qshell_rem pif argv s = (SVC_SHELL_CMD_E_OK, s)"

definition qshell_nop :: "addr \<Rightarrow> u8 list list \<Rightarrow> shell_state \<Rightarrow> int \<times> shell_state" where
  "qshell_nop pif argv s =
     (if length argv > 1
      then (case snd (svc_shell_scan_int (argv ! 1)) of Some v \<Rightarrow> sint v | None \<Rightarrow> SVC_SHELL_CMD_E_OK, s)
      else (SVC_SHELL_CMD_E_OK, s))"

definition upd_wdt :: "addr \<Rightarrow> (addr \<Rightarrow> wdt_state \<Rightarrow> wdt_state) \<Rightarrow> shell_state \<Rightarrow> shell_state" where
  "upd_wdt pif f s = s\<lparr>sh_wdt := f (sf_wdt (sh_if s pif)) (sh_wdt s)\<rparr>"

definition svc_shell_wdt_kick :: "addr \<Rightarrow> shell_state \<Rightarrow> shell_state" where
  "svc_shell_wdt_kick pif = upd_wdt pif svc_wdt_handler_kick"

definition svc_shell_wdt_activate :: "shell_env \<Rightarrow> addr \<Rightarrow> shell_state \<Rightarrow> shell_state" where
  "svc_shell_wdt_activate e pif = upd_wdt pif (svc_wdt_activate (xe_thread e))"

definition svc_shell_wdt_deactivate :: "addr \<Rightarrow> shell_state \<Rightarrow> shell_state" where
  "svc_shell_wdt_deactivate pif = upd_wdt pif svc_wdt_deactivate"

definition qshell_wdt_kick :: "addr \<Rightarrow> u8 list list \<Rightarrow> shell_state \<Rightarrow> int \<times> shell_state" where
  "qshell_wdt_kick pif argv s = (SVC_SHELL_CMD_E_OK, upd_wdt pif svc_wdt_handler_kick s)"

definition qshell_wdt_activate :: "shell_env \<Rightarrow> addr \<Rightarrow> u8 list list \<Rightarrow> shell_state \<Rightarrow> int \<times> shell_state" where
  "qshell_wdt_activate e pif argv s = (SVC_SHELL_CMD_E_OK, upd_wdt pif (svc_wdt_activate (xe_thread e)) s)"

definition qshell_wdt_deactivate :: "addr \<Rightarrow> u8 list list \<Rightarrow> shell_state \<Rightarrow> int \<times> shell_state" where
  "qshell_wdt_deactivate pif argv s = (SVC_SHELL_CMD_E_OK, upd_wdt pif svc_wdt_deactivate s)"

section \<open>Help\<close>

definition cmd_name :: "shell_state \<Rightarrow> SVC_SHELL_CMD_LIST_IT_T \<Rightarrow> u8 list" where
  "cmd_name s it = cm_cmd (the (cmd_get s it))"

definition cmd_less :: "shell_state \<Rightarrow> SVC_SHELL_CMD_LIST_IT_T \<Rightarrow> SVC_SHELL_CMD_LIST_IT_T \<Rightarrow> bool" where
  "cmd_less s it1 it2 \<longleftrightarrow> cmd_name s it1 < cmd_name s it2"

definition cmd_help :: "shell_env \<Rightarrow> addr \<Rightarrow> u8 list option \<Rightarrow> SVC_SHELL_CMD_LIST_IT_T \<Rightarrow> shell_state \<Rightarrow> shell_state" where
  "cmd_help e pif filter_str it s =
     (let cmd = the (cmd_get s it)
      in case cm_usage cmd of
           None \<Rightarrow> s
         | Some u \<Rightarrow>
             if (case filter_str of None \<Rightarrow> True | Some f \<Rightarrow> sublist f (cm_cmd cmd))
             then snd (svc_shell_print e pif SVC_SHELL_OUT_STD (cm_cmd cmd @ [32] @ u @ SVC_SHELL_NEWLINE) s)
             else s)"

text \<open>The first loop: the least command, the next one and the last one.\<close>

definition help_ends :: "shell_state \<Rightarrow> SVC_SHELL_CMD_LIST_IT_T \<Rightarrow>
    SVC_SHELL_CMD_LIST_IT_T \<times> SVC_SHELL_CMD_LIST_IT_T \<times> SVC_SHELL_CMD_LIST_IT_T \<Rightarrow>
    SVC_SHELL_CMD_LIST_IT_T \<times> SVC_SHELL_CMD_LIST_IT_T \<times> SVC_SHELL_CMD_LIST_IT_T" where
  "help_ends s it its =
     (let (firstit, nextit, lastit) = its;
          (firstit, nextit) = (if cmd_less s it firstit then (it, it) else (firstit, nextit));
          lastit = (if cmd_less s lastit it then it else lastit)
      in (firstit, nextit, lastit))"

text \<open>The inner loop: the least command behind \<open>firstit\<close>, if it is in front of \<open>lastit\<close>.\<close>

definition help_next :: "shell_state \<Rightarrow> SVC_SHELL_CMD_LIST_IT_T \<Rightarrow> SVC_SHELL_CMD_LIST_IT_T \<Rightarrow> SVC_SHELL_CMD_LIST_IT_T list \<Rightarrow>
    SVC_SHELL_CMD_LIST_IT_T \<times> bool" where
  "help_next s firstit lastit its =
     fold (\<lambda>it (nextit, found). if \<not> cmd_less s firstit it then (nextit, found)
       else if cmd_less s it nextit then (it, True) else (nextit, found)) its (lastit, False)"

lemma help_next_fold:
  assumes "fold (\<lambda>it (nextit, found). if \<not> cmd_less s firstit it then (nextit, found)
       else if cmd_less s it nextit then (it, True) else (nextit, found)) its (n0, f0) = (n, found)"
  shows "(n = n0 \<and> found = f0 \<or> found \<and> n \<in> set its \<and> cmd_less s firstit n \<and> cmd_less s n n0) \<and>
    (\<forall>it \<in> set its. cmd_less s firstit it \<longrightarrow> \<not> cmd_less s it n)"
  using assms
proof (induction its arbitrary: n0 f0)
  case (Cons it its)
  show ?case
  proof (cases "cmd_less s firstit it \<and> cmd_less s it n0")
    case True
    then have "fold (\<lambda>it (nextit, found). if \<not> cmd_less s firstit it then (nextit, found)
       else if cmd_less s it nextit then (it, True) else (nextit, found)) its (it, True) = (n, found)"
      using Cons.prems by simp
    from Cons.IH [OF this] show ?thesis using True by (auto simp: cmd_less_def)
  next
    case False
    then have "fold (\<lambda>it (nextit, found). if \<not> cmd_less s firstit it then (nextit, found)
       else if cmd_less s it nextit then (it, True) else (nextit, found)) its (n0, f0) = (n, found)"
      using Cons.prems by (auto split: if_splits)
    from Cons.IH [OF this] show ?thesis using False by (auto simp: cmd_less_def)
  qed
qed simp

lemma help_next_found:
  assumes "help_next s f l its = (n, found)"
  shows "found \<Longrightarrow> n \<in> set its \<and> cmd_less s f n \<and> cmd_less s n l" "\<not> found \<Longrightarrow> n = l"
    "\<forall>it \<in> set its. cmd_less s f it \<longrightarrow> \<not> cmd_less s it n"
  using help_next_fold [OF assms [unfolded help_next_def]] by auto

lemma shell_out_fields [simp]: "sh_list (snd (shell_out e pif out str s)) = sh_list s" "sh_chain (snd (shell_out e pif out str s)) = sh_chain s"
    "sh_if (snd (shell_out e pif out str s)) = sh_if s" "sh_strsub (snd (shell_out e pif out str s)) = sh_strsub s"
    "sh_outs (snd (shell_out e pif out str s)) = sh_outs s @ [(pif, out, str)]"
  by (simp_all add: shell_out_def Let_def)

lemma cmd_help_list [simp]: "sh_list (cmd_help e pif fl it s) = sh_list s"
  by (simp add: cmd_help_def svc_shell_print_def Let_def split: option.split)

lemma cmd_get_list: "sh_list s' = sh_list s \<Longrightarrow> cmd_get s' = cmd_get s"
  by (simp add: cmd_get_def fun_eq_iff)

lemma cmd_less_help [simp]: "cmd_less (cmd_help e pif fl it s) = cmd_less s"
  using cmd_get_list [OF cmd_help_list, of e pif fl it s] by (simp add: cmd_less_def cmd_name_def fun_eq_iff)

lemma help_next_help [simp]: "help_next (cmd_help e pif fl it s) = help_next s"
  unfolding help_next_def cmd_less_help ..

function help_loop :: "shell_env \<Rightarrow> addr \<Rightarrow> u8 list option \<Rightarrow> SVC_SHELL_CMD_LIST_IT_T list \<Rightarrow> SVC_SHELL_CMD_LIST_IT_T \<Rightarrow>
    SVC_SHELL_CMD_LIST_IT_T \<Rightarrow> SVC_SHELL_CMD_LIST_IT_T \<Rightarrow> shell_state \<Rightarrow> shell_state" where
  "help_loop e pif fl its firstit nextit lastit s =
     (let s = cmd_help e pif fl nextit s
      in if snd (help_next s firstit lastit its)
         then help_loop e pif fl its (fst (help_next s firstit lastit its)) (fst (help_next s firstit lastit its)) lastit s
         else cmd_help e pif fl (fst (help_next s firstit lastit its)) s)"
  by pat_completeness auto

termination
proof (relation "measure (\<lambda>(e, pif, fl, its, firstit, nextit, lastit, s). card {it \<in> set its. cmd_less s firstit it})", goal_cases)
  case (2 e pif fl its firstit nextit lastit s x)
  obtain n where n: "help_next s firstit lastit its = (n, True)"
    using 2 by (cases "help_next s firstit lastit its") auto
  have "{it \<in> set its. cmd_less s n it} \<subset> {it \<in> set its. cmd_less s firstit it}"
    using help_next_found(1) [OF n TrueI] by (auto simp: cmd_less_def)
  then have "card {it \<in> set its. cmd_less s n it} < card {it \<in> set its. cmd_less s firstit it}" by (intro psubset_card_mono) simp_all
  then show ?case using 2 n by simp
qed simp

declare help_loop.simps [simp del]

definition qshell_help :: "shell_env \<Rightarrow> addr \<Rightarrow> u8 list list \<Rightarrow> shell_state \<Rightarrow> int \<times> shell_state" where
  "qshell_help e pif argv s =
     (let it = fst (cmd_first s); its = map fst (all_cmds s);
          (firstit, nextit, lastit) = fold (help_ends s) its (it, it, it)
      in (SVC_SHELL_CMD_E_OK, help_loop e pif (if length argv > 1 then Some (argv ! 1) else None) its firstit nextit lastit s))"

section \<open>The help listing is sorted\<close>

definition help_line :: "addr \<Rightarrow> u8 list option \<Rightarrow> SVC_SHELL_CMD_T \<Rightarrow> (addr \<times> u32 \<times> u8 list option) list" where
  "help_line pif fl cmd =
     (case cm_usage cmd of
        None \<Rightarrow> []
      | Some u \<Rightarrow>
          if \<forall>f \<in> set_option fl. sublist f (cm_cmd cmd)
          then [(pif, SVC_SHELL_OUT_STD, Some (take (SVC_SHELL_PRINT_BUFFER_SIZE - 1) (cm_cmd cmd @ [32] @ u @ SVC_SHELL_NEWLINE)))]
          else [])"

lemma cmd_help_outs [simp]: "sh_outs (cmd_help e pif fl it s) = sh_outs s @ help_line pif fl (the (cmd_get s it))"
  by (simp add: cmd_help_def help_line_def svc_shell_print_def Let_def split: option.split)

lemma help_get [simp]: "cmd_get (cmd_help e pif fl it s) = cmd_get s" "cmd_name (cmd_help e pif fl it s) = cmd_name s"
  using cmd_get_list [OF cmd_help_list, of e pif fl it s] by (simp_all add: cmd_name_def fun_eq_iff)

lemma help_loop_sorted:
  assumes "firstit \<in> set its" "lastit \<in> set its" "cmd_less s firstit lastit" "\<forall>it \<in> set its. \<not> cmd_less s lastit it"
  shows "\<exists>P. sh_outs (help_loop e pif fl its firstit firstit lastit s) = sh_outs s @ concat (map (\<lambda>it. help_line pif fl (the (cmd_get s it))) P) \<and>
    sorted_wrt (<) (map (cmd_name s) P) \<and> set P \<subseteq> set its \<and>
    cmd_name s ` set P = cmd_name s ` {it \<in> set its. \<not> cmd_less s it firstit}"
proof -
  define nextit where "nextit = firstit"
  have "\<exists>P. sh_outs (help_loop e pif fl its firstit nextit lastit s) = sh_outs s @ concat (map (\<lambda>it. help_line pif fl (the (cmd_get s it))) P) \<and>
    sorted_wrt (<) (map (cmd_name s) P) \<and> set P \<subseteq> set its \<and>
    cmd_name s ` set P = cmd_name s ` {it \<in> set its. \<not> cmd_less s it firstit}"
    using assms nextit_def
  proof (induction e pif fl its firstit nextit lastit s rule: help_loop.induct)
    case (1 e pif fl its f nextit l s)
    let ?N = "cmd_name s"
    obtain n found where n: "help_next s f l its = (n, found)" by force
    note fd = help_next_found [OF n]
    let ?s = "cmd_help e pif fl f s"
    show ?case
    proof (cases found)
      case True
      then have t: "n \<in> set its" "?N f < ?N n" "?N n < ?N l" using fd(1) by (auto simp: cmd_less_def)
      obtain P where P: "sh_outs (help_loop e pif fl its n n l ?s) = sh_outs ?s @ concat (map (\<lambda>it. help_line pif fl (the (cmd_get s it))) P)"
          "sorted_wrt (<) (map ?N P)" "set P \<subseteq> set its" "?N ` set P = ?N ` {it \<in> set its. \<not> cmd_less s it n}"
        using 1(1) [OF refl] 1(2-6) t True n by (auto simp: cmd_less_def)
      have "sh_outs (help_loop e pif fl its f nextit l s) = sh_outs s @ concat (map (\<lambda>it. help_line pif fl (the (cmd_get s it))) (f # P))"
        using P(1) True n 1(6) by (subst help_loop.simps) (simp add: Let_def)
      moreover have "sorted_wrt (<) (map ?N (f # P))" using P(2,4) t(2) by (auto simp: cmd_less_def)
      moreover have "?N ` set (f # P) = ?N ` {it \<in> set its. \<not> cmd_less s it f}"
      proof -
        have "{it \<in> set its. \<not> cmd_less s it f} = {it \<in> set its. ?N it = ?N f} \<union> {it \<in> set its. \<not> cmd_less s it n}"
          using fd(3) t(2) by (auto simp: cmd_less_def)
        then show ?thesis using P(4) 1(2) by auto
      qed
      ultimately show ?thesis using P(3) 1(2) by (intro exI [of _ "f # P"]) simp
    next
      case False
      then have nl: "n = l" using fd(2) by simp
      have "sh_outs (help_loop e pif fl its f nextit l s) = sh_outs s @ concat (map (\<lambda>it. help_line pif fl (the (cmd_get s it))) [f, l])"
        using False n nl 1(6) by (subst help_loop.simps) (simp add: Let_def)
      moreover have "?N ` set [f, l] = ?N ` {it \<in> set its. \<not> cmd_less s it f}"
      proof -
        have "?N it = ?N f \<or> ?N it = ?N l" if "it \<in> set its" "\<not> ?N it < ?N f" for it
          using 1(5) fd(3) nl that by (auto simp: cmd_less_def dest: linorder_neqE)
        then show ?thesis using 1(2-4) by (auto simp: cmd_less_def)
      qed
      ultimately show ?thesis using 1(2-4) by (intro exI [of _ "[f, l]"]) (auto simp: cmd_less_def)
    qed
  qed
  then show ?thesis unfolding nextit_def .
qed

lemma help_ends_fold:
  assumes "fold (help_ends s) its (f0, f0, l0) = (f, n, l)"
  shows "n = f \<and> f \<in> insert f0 (set its) \<and> l \<in> insert l0 (set its) \<and>
    (\<forall>it \<in> insert f0 (set its). \<not> cmd_less s it f) \<and> (\<forall>it \<in> insert l0 (set its). \<not> cmd_less s l it)"
  using assms
proof (induction its arbitrary: f0 l0)
  case (Cons it its)
  let ?f = "if cmd_less s it f0 then it else f0"
  let ?l = "if cmd_less s l0 it then it else l0"
  have "help_ends s it (f0, f0, l0) = (?f, ?f, ?l)" by (simp add: help_ends_def)
  then have "fold (help_ends s) its (?f, ?f, ?l) = (f, n, l)" using Cons.prems by simp
  from Cons.IH [OF this] show ?case by (auto simp: cmd_less_def split: if_splits)
qed (simp add: cmd_less_def)

lemma all_cmds_first:
  assumes "all_cmds s \<noteq> []"
  shows "fst (cmd_first s) \<in> fst ` set (all_cmds s)"
proof -
  obtain it where it: "cmd_first s = (it, cmd_get s it)" "cmd_get s it \<noteq> None"
    using assms by (cases "cmd_first s") (auto simp: all_cmds_def cmd_first_def Let_def split: option.splits if_splits)
  then obtain cmd where "cmd_get s it = Some cmd" by blast
  then have "(it, cmd) \<in> set (all_cmds s)" using it by (simp add: all_cmds_def) (subst cmd_walk.simps, simp)
  then show ?thesis using it(1) by force
qed

section \<open>The commands of the chain\<close>

text \<open>The installed lists are not empty, and a count is that of the entries.\<close>

definition chain_ok :: "shell_state \<Rightarrow> bool" where
  "chain_ok s \<longleftrightarrow> (\<forall>l \<in> set (sh_chain s). cl_cmds (sh_list s l) \<noteq> []) \<and>
     (\<forall>l \<in> insert QSHELL_STATIC_LIST (set (sh_chain s)). cl_cnt (sh_list s l) \<noteq> 0 \<longrightarrow> cl_cnt (sh_list s l) = length (cl_cmds (sh_list s l)))"

definition installed :: "shell_state \<Rightarrow> SVC_SHELL_CMD_T list" where
  "installed s = concat (map (\<lambda>l. cl_cmds (sh_list s l)) (QSHELL_STATIC_LIST # sh_chain s))"

lemma cmd_walk_get: "(it, cmd) \<in> set (cmd_walk s x) \<Longrightarrow> cmd_get s it = Some cmd"
proof (induction s x rule: cmd_walk.induct)
  case (1 s x)
  obtain c where c: "cmd_get s x = Some c"
    using 1(2) by (cases "cmd_get s x") (auto simp: cmd_walk.simps [of s x])
  then have "(it, cmd) = (x, c) \<or> snd (cmd_next s x) \<noteq> None \<and> (it, cmd) \<in> set (cmd_walk s (fst (cmd_next s x)))"
    using 1(2) by (subst (asm) cmd_walk.simps) (auto split: if_splits)
  then show ?case using 1(1) [OF c] c by auto
qed

lemma cmd_walk_chain:
  assumes "\<forall>l \<in> set ls. cl_cmds (sh_list s l) \<noteq> []"
    "\<forall>l \<in> set ls. cl_cnt (sh_list s l) \<noteq> 0 \<longrightarrow> cl_cnt (sh_list s l) = length (cl_cmds (sh_list s l))"
    "ls \<noteq> []" "i < length (cl_cmds (sh_list s (hd ls)))"
  shows "map snd (cmd_walk s \<lparr>si_lst = ls, si_idx = i\<rparr>) =
    drop i (cl_cmds (sh_list s (hd ls))) @ concat (map (\<lambda>l. cl_cmds (sh_list s l)) (tl ls))"
  using assms
proof (induction "length ls" arbitrary: ls i)
  case (Suc n)
  note IH = Suc(1)
  obtain l ls' where ls: "ls = l # ls'" using Suc(2) by (cases ls) auto
  let ?cs = "cl_cmds (sh_list s l)"
  have "map snd (cmd_walk s \<lparr>si_lst = ls, si_idx = j\<rparr>) = drop j ?cs @ concat (map (\<lambda>l. cl_cmds (sh_list s l)) ls')" if "j < length ?cs" for j
    using that
  proof (induction "length ?cs - j" arbitrary: j)
    case (Suc m)
    have g: "cmd_get s \<lparr>si_lst = ls, si_idx = j\<rparr> = Some (?cs ! j)" using Suc.prems by (simp add: cmd_get_def ls)
    have d: "drop j ?cs = ?cs ! j # drop (Suc j) ?cs" using Suc.prems by (rule Cons_nth_drop_Suc [symmetric])
    show ?case
    proof (cases "Suc j < length ?cs")
      case True
      then have "cmd_next s \<lparr>si_lst = ls, si_idx = j\<rparr> = (\<lparr>si_lst = ls, si_idx = Suc j\<rparr>, Some (?cs ! Suc j))"
        using \<open>\<forall>l \<in> set ls. cl_cnt (sh_list s l) \<noteq> 0 \<longrightarrow> _\<close> by (auto simp: cmd_next_def Let_def cmd_get_def ls)
      then show ?thesis using Suc.hyps True g d by (subst cmd_walk.simps) (simp add: ls)
    next
      case False
      then have len: "length ?cs = Suc j" using Suc.prems by simp
      show ?thesis
      proof (cases ls')
        case Nil
        then have "snd (cmd_next s \<lparr>si_lst = ls, si_idx = j\<rparr>) = None" using len by (simp add: cmd_next_def Let_def cmd_get_def ls)
        then show ?thesis using g d len Nil by (subst cmd_walk.simps) simp
      next
        case (Cons l2 ls2)
        then have "cmd_next s \<lparr>si_lst = ls, si_idx = j\<rparr> = (\<lparr>si_lst = ls', si_idx = 0\<rparr>, Some (cl_cmds (sh_list s l2) ! 0))"
          using len \<open>\<forall>l \<in> set ls. cl_cmds (sh_list s l) \<noteq> []\<close> by (simp add: cmd_next_def Let_def cmd_get_def ls)
        moreover have "map snd (cmd_walk s \<lparr>si_lst = ls', si_idx = 0\<rparr>) = cl_cmds (sh_list s l2) @ concat (map (\<lambda>l. cl_cmds (sh_list s l)) ls2)"
          using \<open>Suc n = length ls\<close> \<open>\<forall>l \<in> set ls. cl_cnt (sh_list s l) \<noteq> 0 \<longrightarrow> _\<close> \<open>\<forall>l \<in> set ls. cl_cmds (sh_list s l) \<noteq> []\<close>
          by (subst IH) (auto simp: ls Cons)
        ultimately show ?thesis using g d len Cons by (subst cmd_walk.simps) simp
      qed
    qed
  qed simp
  then show ?case using Suc.prems(4) by (simp add: ls)
qed simp

lemma all_cmds_installed:
  assumes "chain_ok s"
  shows "map snd (all_cmds s) = installed s"
proof -
  define ls where "ls = (if cl_cmds (sh_list s QSHELL_STATIC_LIST) = [] then sh_chain s else QSHELL_STATIC_LIST # sh_chain s)"
  have first: "cmd_first s = (\<lparr>si_lst = ls, si_idx = 0\<rparr>, if ls = [] then None else cmd_get s \<lparr>si_lst = ls, si_idx = 0\<rparr>)"
    by (simp add: cmd_first_def ls_def Let_def)
  have i: "installed s = concat (map (\<lambda>l. cl_cmds (sh_list s l)) ls)" by (simp add: installed_def ls_def)
  show ?thesis
  proof (cases ls)
    case Nil
    then show ?thesis using first i by (simp add: all_cmds_def)
  next
    case (Cons l ls')
    have ok: "\<forall>l \<in> set ls. cl_cmds (sh_list s l) \<noteq> []"
        "\<forall>l \<in> set ls. cl_cnt (sh_list s l) \<noteq> 0 \<longrightarrow> cl_cnt (sh_list s l) = length (cl_cmds (sh_list s l))"
      using assms by (auto simp: chain_ok_def ls_def)
    have "map snd (cmd_walk s \<lparr>si_lst = ls, si_idx = 0\<rparr>) = installed s"
      using cmd_walk_chain [OF ok, of 0] ok(1) by (simp add: i Cons)
    moreover have "cmd_get s \<lparr>si_lst = ls, si_idx = 0\<rparr> \<noteq> None" using ok(1) by (simp add: cmd_get_def Cons)
    ultimately show ?thesis using Cons by (auto simp: all_cmds_def first split: option.split)
  qed
qed


definition demo_shell :: shell_state where
  "demo_shell = \<lparr>sh_chain = [5], sh_list = (\<lambda>a. if a = QSHELL_STATIC_LIST
       then \<lparr>cl_service = 0, cl_cmds = [\<lparr>cm_cmd = [98], cm_fp = 71, cm_usage = None\<rparr>, \<lparr>cm_cmd = [97], cm_fp = 72, cm_usage = Some []\<rparr>], cl_cnt = 2\<rparr>
       else \<lparr>cl_service = 0, cl_cmds = [\<lparr>cm_cmd = [97], cm_fp = 73, cm_usage = Some [120]\<rparr>], cl_cnt = 0\<rparr>),
     sh_if = (\<lambda>_. \<lparr>sf_status = 0, sf_recurse = 0, sf_wdt = 9\<rparr>), sh_outs = [], sh_wdt = demo_wdt, sh_services = demo_fresh,
     sh_strsub = demo_inst\<rparr>"

definition demo_shell_env :: shell_env where
  "demo_shell_env = \<lparr>xe_cmd = (\<lambda>fp pif argv s. (0, s)), xe_out = (\<lambda>_. 0), xe_thread = 1, xe_senv = demo_env 0\<rparr>"

lemma demo_shell_chain: "chain_ok demo_shell" "installed demo_shell = [\<lparr>cm_cmd = [98], cm_fp = 71, cm_usage = None\<rparr>,
     \<lparr>cm_cmd = [97], cm_fp = 72, cm_usage = Some []\<rparr>, \<lparr>cm_cmd = [97], cm_fp = 73, cm_usage = Some [120]\<rparr>]" "sh_outs demo_shell = []"
  by (simp_all add: demo_shell_def chain_ok_def installed_def QSHELL_STATIC_LIST_def)


section \<open>Numbers and dumps\<close>

lemma digit_chars:
  assumes "d < 10"
  shows "48 \<le> 0x30 + (of_nat d :: u8)" "0x30 + (of_nat d :: u8) \<le> 57" "digit_val (0x30 + of_nat d) = d"
proof -
  have "d = 0 \<or> d = 1 \<or> d = 2 \<or> d = 3 \<or> d = 4 \<or> d = 5 \<or> d = 6 \<or> d = 7 \<or> d = 8 \<or> d = 9" using assms by arith
  then show "48 \<le> 0x30 + (of_nat d :: u8)" "0x30 + (of_nat d :: u8) \<le> 57" "digit_val (0x30 + of_nat d) = d"
    by (elim disjE; simp add: digit_val_def)+
qed

lemma dec_digits_range: "c \<in> set (dec_digits 1 n) \<Longrightarrow> 48 \<le> c \<and> c \<le> 57"
proof (induction n rule: less_induct)
  case (less n)
  have "n mod 10 < 10" by simp
  then have "c = 0x30 + of_nat (n mod 10) \<or> \<not> n < 10 \<and> c \<in> set (dec_digits 1 (n div 10))"
    using less(2) dec_digits_snoc [of n] by (auto split: if_splits)
  then show ?case using digit_chars(1,2) [of "n mod 10"] less(1) [of "n div 10"] by auto
qed

lemma dec_digits_value: "foldl (\<lambda>a c. a * 10 + digit_val c) 0 (dec_digits 1 n) = n"
proof (induction n rule: less_induct)
  case (less n)
  have "n mod 10 < 10" by simp
  from digit_chars(3) [OF this] show ?case using less [of "n div 10"] by (subst dec_digits_snoc) auto
qed

lemma dec_digits_hd: "dec_digits 1 n \<noteq> [] \<and> (hd (dec_digits 1 n) = 48 \<longrightarrow> n = 0)"
proof (induction n rule: less_induct)
  case (less n)
  show ?case
  proof (cases "n < 10")
    case True
    then show ?thesis using digit_chars(3) [of n] by (subst (1 2) dec_digits_snoc) (auto simp: digit_val_def)
  next
    case False
    then show ?thesis using less [of "n div 10"] by (subst (1 2) dec_digits_snoc) auto
  qed
qed

lemma digit_val_range: "48 \<le> c \<and> c \<le> 57 \<Longrightarrow> digit_val c < 10"
proof -
  assume c: "48 \<le> c \<and> c \<le> 57"
  then have "unat (48 :: u8) \<le> unat c" "unat c \<le> unat (57 :: u8)" by (simp_all only: word_le_nat_alt)
  then show ?thesis using c by (simp add: digit_val_def)
qed

lemma strtoull_plain:
  assumes "d \<noteq> []" "\<not> isspace (hd d)" "hd d \<noteq> 43" "hd d \<noteq> 45" "hd d \<noteq> 48" "takeWhile (\<lambda>c. digit_val c < 10) d = d"
    "foldl (\<lambda>a c. a * 10 + digit_val c) 0 d < 2 ^ 64"
  shows "strtoull d 0 = (foldl (\<lambda>a c. a * 10 + digit_val c) 0 d, False, [])"
proof -
  have "dropWhile isspace d = d" using assms(1,2) by (cases d) auto
  moreover have "\<not> 2 ^ 64 \<le> foldl (\<lambda>a c. a * 10 + digit_val c) 0 d" using assms(7) by (simp only: not_le)
  ultimately show ?thesis unfolding strtoull_def Let_def by (simp only: assms(1-6) if_False simp_thms prod.case drop_all le_refl)
qed

lemma strtoull_dec: "n < 2 ^ 64 \<Longrightarrow> strtoull (dec_digits 1 n) 0 = (n, False, [])"
proof -
  assume n: "n < 2 ^ 64"
  let ?d = "dec_digits 1 n"
  have r: "\<forall>c \<in> set ?d. 48 \<le> c \<and> c \<le> 57" using dec_digits_range by blast
  have h: "48 \<le> hd ?d \<and> hd ?d \<le> 57" using r dec_digits_hd [of n] by auto
  have ne: "?d \<noteq> []" "hd ?d = 48 \<Longrightarrow> n = 0" using dec_digits_hd [of n] by auto
  have "\<not> hd ?d \<le> 13" using h order.trans [of 48 "hd ?d" 13] by auto
  then have neq: "\<not> isspace (hd ?d)" "hd ?d \<noteq> 43" "hd ?d \<noteq> 45" using h by (auto simp: isspace_def)
  then have sp: "dropWhile isspace ?d = ?d" using ne by (cases ?d) auto
  have tw: "takeWhile (\<lambda>c. digit_val c < 10) ?d = ?d" using r digit_val_range by (simp add: takeWhile_eq_all_conv)
  show ?thesis
  proof (cases "n = 0")
    case True
    then show ?thesis by (simp add: strtoull_def dec_digits.simps isspace_def digit_val_def)
  next
    case False
    then have z: "hd ?d \<noteq> 48" using ne by blast
    show ?thesis using strtoull_plain [OF ne(1) neq z tw] n unfolding dec_digits_value by simp
  qed
qed

lemma scan_dec:
  "n < 2 ^ 32 \<Longrightarrow> svc_shell_scan_int (dec_digits 1 n) = (SVC_SHELL_CMD_E_OK, Some (of_nat n))"
  "n \<le> 2 ^ 31 \<Longrightarrow> svc_shell_scan_int (45 # dec_digits 1 n) = (SVC_SHELL_CMD_E_OK, Some (of_int (- int n)))"
proof -
  let ?d = "dec_digits 1 n"
  have r: "\<forall>c \<in> set ?d. 48 \<le> c \<and> c \<le> 57" using dec_digits_range by blast
  have ne: "?d \<noteq> []" using dec_digits_hd by blast
  have "48 \<le> hd ?d" using r hd_in_set [OF ne] by blast
  then have h: "hd ?d \<noteq> 43" "hd ?d \<noteq> 45" by auto
  have "?d ! 1 \<le> 57" if "length ?d \<ge> 2" using r nth_mem [of 1 ?d] that by simp
  then have b: "\<not> binary_prefix ?d" by (auto simp: binary_prefix_def)
  show "svc_shell_scan_int (dec_digits 1 n) = (SVC_SHELL_CMD_E_OK, Some (of_nat n))" if "n < 2 ^ 32"
    using that ne h b strtoull_dec [of n] by (simp add: svc_shell_scan_int_def Let_def)
  show "svc_shell_scan_int (45 # dec_digits 1 n) = (SVC_SHELL_CMD_E_OK, Some (of_int (- int n)))" if "n \<le> 2 ^ 31"
    using that ne b strtoull_dec [of n] by (simp add: svc_shell_scan_int_def Let_def)
qed

lemma hex2_length [simp]: "length (hex2 b) = 2"
  by (simp add: hex2_def)

lemma hex_chunk_text:
  assumes "hex_chunk bs offset = (t, i)" "even offset" "offset < SVC_SHELL_PRINT_BUFFER_SIZE"
  shows "t = concat (map hex2 (take i bs)) \<and> i \<le> length bs \<and> offset + length t < SVC_SHELL_PRINT_BUFFER_SIZE - 1"
  using assms
proof (induction bs offset arbitrary: t i rule: hex_chunk.induct)
  case (1 offset)
  then show ?case by (auto simp: SVC_SHELL_PRINT_BUFFER_SIZE_def elim!: evenE)
next
  case (2 b bs offset)
  have o: "offset \<le> 486" using 2(3,4) by (auto simp: SVC_SHELL_PRINT_BUFFER_SIZE_def elim!: evenE)
  show ?case
  proof (cases "offset = 486")
    case True
    then show ?thesis using 2(2) by (auto simp: SVC_SHELL_PRINT_BUFFER_SIZE_def Let_def hex2_def)
  next
    case False
    then have o2: "offset + 2 < 487" using o 2(3) by (cases "offset = 485") auto
    obtain t' i' where r: "hex_chunk bs (offset + 2) = (t', i')" by force
    have "t = hex2 b @ t'" "i = i' + 1" using 2(2) o2 r by (auto simp: SVC_SHELL_PRINT_BUFFER_SIZE_def Let_def)
    moreover have "t' = concat (map hex2 (take i' bs)) \<and> i' \<le> length bs \<and> offset + 2 + length t' < SVC_SHELL_PRINT_BUFFER_SIZE - 1"
      using 2(1) [OF refl _ refl _ _ _ _ _] o2 r 2(3) by (simp add: SVC_SHELL_PRINT_BUFFER_SIZE_def)
    ultimately show ?thesis by (elim conjE) simp
  qed
qed

lemma write_hex_outs:
  "\<exists>ts. sh_outs (write_hex_loop e pif out buffer s) = sh_outs s @ map (\<lambda>t. (pif, out, Some t)) ts \<and>
     concat ts = concat (map hex2 buffer) \<and> (\<forall>t \<in> set ts. length t < SVC_SHELL_PRINT_BUFFER_SIZE - 1)"
proof (induction e pif out buffer s rule: write_hex_loop.induct)
  case (1 e pif out buffer s)
  show ?case
  proof (cases "buffer = []")
    case True
    then show ?thesis by (intro exI [of _ "[]"]) (simp add: write_hex_loop.simps)
  next
    case False
    obtain t i where c: "hex_chunk buffer 0 = (t, i)" by force
    have h: "t = concat (map hex2 (take i buffer)) \<and> i \<le> length buffer \<and> 0 + length t < SVC_SHELL_PRINT_BUFFER_SIZE - 1"
      by (rule hex_chunk_text [OF c even_zero]) (simp add: SVC_SHELL_PRINT_BUFFER_SIZE_def)
    have t: "t = concat (map hex2 (take i buffer))" using h by blast
    have tl: "length t < SVC_SHELL_PRINT_BUFFER_SIZE - 1" using h unfolding add_0 by blast
    obtain ts where ts: "sh_outs (write_hex_loop e pif out (drop i buffer) (snd (shell_out e pif out (Some t) s))) =
          sh_outs s @ (pif, out, Some t) # map (\<lambda>t. (pif, out, Some t)) ts"
        "concat ts = concat (map hex2 (drop i buffer))" "\<forall>t \<in> set ts. length t < SVC_SHELL_PRINT_BUFFER_SIZE - 1"
      using 1(1) [OF False] c by auto
    have "concat (map hex2 buffer) = t @ concat ts"
      unfolding t ts(2) by (metis append_take_drop_id concat_append map_append)
    then show ?thesis using ts tl False c by (intro exI [of _ "t # ts"]) (simp add: write_hex_loop.simps [of e pif out buffer s])
  qed
qed

section \<open>Running a command\<close>

text \<open>The state in which the command runs: the handle of the interface is registered and active.\<close>

definition under_watchdog :: "shell_env \<Rightarrow> addr \<Rightarrow> shell_state \<Rightarrow> shell_state" where
  "under_watchdog e pif s = s\<lparr>sh_wdt := svc_wdt_activate (xe_thread e) (sf_wdt (sh_if s pif))
     (svc_wdt_register (xe_thread e) (sf_wdt (sh_if s pif)) TIMEOUT_60_SEC (sh_wdt s))\<rparr>"

definition end_watchdog :: "addr \<Rightarrow> shell_state \<Rightarrow> shell_state" where
  "end_watchdog pif s = s\<lparr>sh_wdt := svc_wdt_unregister (sf_wdt (sh_if s pif)) TIMEOUT_60_SEC (sh_wdt s)\<rparr>"

lemma all_cmds_list:
  assumes "sh_list s' = sh_list s" "sh_chain s' = sh_chain s"
  shows "all_cmds s' = all_cmds s"
proof -
  have n: "cmd_get s' = cmd_get s" "cmd_next s' = cmd_next s" "cmd_first s' = cmd_first s"
    using assms by (simp_all add: cmd_next_def cmd_first_def cmd_get_def Let_def fun_eq_iff)
  have "cmd_get s' = cmd_get t \<longrightarrow> cmd_next s' = cmd_next t \<longrightarrow> cmd_walk s' it = cmd_walk t it" for t it
    by (induction t it rule: cmd_walk.induct) (auto simp: cmd_walk.simps [of s'] cmd_walk.simps split: option.split)
  then have w: "cmd_walk s' = cmd_walk s" using n by blast
  show ?thesis unfolding all_cmds_def n w ..
qed

lemma find_snd: "map_option snd (find (\<lambda>(a, b). P b) xs) = find P (map snd xs)"
  by (induction xs) auto

text \<open>The first command of the chain that has the name of the line is run, when its arguments are not a question mark and its list
  belongs to no service.\<close>

lemma cmd_run_first:
  assumes ok: "chain_ok s" "\<forall>l. cl_service (sh_list s l) = 0" and name: "name \<noteq> []" "hd name \<noteq> 35"
    and cmd: "find (\<lambda>c. cm_cmd c = name) (installed s) = Some cmd" and args: "args = [] \<or> hd args = [] \<or> hd (hd args) \<noteq> 63"
    and run: "xe_cmd e (cm_fp cmd) pif (name # args) (under_watchdog e pif s) = (res, s')" "res \<noteq> SVC_SHELL_CMD_E_PARMS" "res \<noteq> SVC_SHELL_CMD_E_NOT_FOUND"
  shows "svc_shell_cmd_run e pif (name # args) s = (res, end_watchdog pif s')"
proof -
  have l: "all_cmds (under_watchdog e pif s) = all_cmds s" by (rule all_cmds_list) (simp_all add: under_watchdog_def)
  obtain it where it: "find (\<lambda>(it, cmd). cm_cmd cmd = name) (all_cmds s) = Some (it, cmd)"
    using cmd find_snd [of "\<lambda>c. cm_cmd c = name" "all_cmds s"] by (auto simp: all_cmds_installed [OF ok(1)])
  have u: "\<not> \<not> (length (name # args) \<le> 1 \<or> (name # args) ! 1 = [] \<or> hd ((name # args) ! 1) \<noteq> 63)"
    using args by (cases args) auto
  have "run_found e pif (name # args) 0 cmd (under_watchdog e pif s) = (res, s')"
    using u run by (simp add: run_found_def service_started_def split: option.split)
  moreover have "cl_service (sh_list (under_watchdog e pif s) l) = 0" for l using ok(2) by (simp add: under_watchdog_def)
  ultimately show ?thesis
    using name it run(3) by (simp add: svc_shell_cmd_run_def Let_def l flip: under_watchdog_def) (simp add: end_watchdog_def)
qed

end
