(* ===== verification/Script.thy ===== *)
theory Script
  imports Shell
begin

text \<open>
  Command lines and scripts of the shell, src/svc/svc_shell.c: \<open>svc_shell_cmd_split\<close> cuts a line into arguments in its
  buffer, \<open>svc_shell_script_run\<close> takes a text apart into lines, substitutes each (Strsub.thy), splits it and runs it
  (Shell.thy), with the error states that \<open>:onerror\<close> and \<open>:clearerror\<close> switch.

  The arguments are offsets into the buffer; their text is what is there up to a zero at the end. A script text is the list of its bytes, the
  terminating zero behind it is left out.
\<close>

section \<open>Splitting a line\<close>

definition SVC_SHELL_ARGC_MAX :: nat where "SVC_SHELL_ARGC_MAX = 14"
definition SVC_SHELL_LINE_SIZE_MAX :: nat where "SVC_SHELL_LINE_SIZE_MAX = 256"
definition SVC_SHELL_LINE_STRSUB_SIZE_MAX :: u32 where "SVC_SHELL_LINE_STRSUB_SIZE_MAX = 320"
definition SVC_SHELL_COMMAND_SEPARATOR :: u8 where "SVC_SHELL_COMMAND_SEPARATOR = 38"

datatype split_states = DULL | IN_WORD | IN_STRING | IN_WORD_STRING

record split_state =
  sp_buffer :: "u8 list"
  sp_state :: split_states
  sp_start_of_word :: nat
  sp_strchar :: u8
  sp_argv :: "nat list"

definition close_word :: "nat \<Rightarrow> split_state \<Rightarrow> split_state" where
  "close_word p st = st\<lparr>sp_buffer := (sp_buffer st)[p := 0], sp_argv := sp_argv st @ [sp_start_of_word st], sp_state := DULL\<rparr>"

definition split_step :: "nat \<Rightarrow> split_state \<Rightarrow> split_state" where
  "split_step p st =
     (let c = sp_buffer st ! p
      in case sp_state st of
           DULL \<Rightarrow>
             if isspace c then st
             else if c = 34 \<or> c = 39 then st\<lparr>sp_state := IN_STRING, sp_strchar := c, sp_start_of_word := p + 1\<rparr>
             else st\<lparr>sp_state := IN_WORD, sp_start_of_word := p\<rparr>
         | IN_STRING \<Rightarrow> if c = sp_strchar st then close_word p st else st
         | IN_WORD \<Rightarrow>
             if isspace c then close_word p st else if c = 34 then st\<lparr>sp_state := IN_WORD_STRING\<rparr> else st
         | IN_WORD_STRING \<Rightarrow> if c = 34 then st\<lparr>sp_state := IN_WORD\<rparr> else st)"

lemma split_step_length [simp]: "length (sp_buffer (split_step p st)) = length (sp_buffer st)"
  by (simp add: split_step_def close_word_def Let_def split: split_states.split)

function split_loop :: "nat \<Rightarrow> nat \<Rightarrow> nat \<Rightarrow> split_state \<Rightarrow> split_state" where
  "split_loop len argv_size p st =
     (if length (sp_argv st) < argv_size \<and> p < length (sp_buffer st) \<and> sp_buffer st ! p \<noteq> 0 \<and> p < len
      then split_loop len argv_size (p + 1) (split_step p st) else st)"
  by pat_completeness auto

termination
  by (relation "measure (\<lambda>(_, _, p, st). length (sp_buffer st) - p)") auto

declare split_loop.simps [simp del]

definition cstr :: "u8 list \<Rightarrow> nat \<Rightarrow> u8 list" where
  "cstr buffer p = takeWhile (\<lambda>c. c \<noteq> 0) (drop p buffer)"

definition svc_shell_cmd_split :: "u8 list \<Rightarrow> nat \<Rightarrow> nat \<Rightarrow> u8 list list" where
  "svc_shell_cmd_split buffer len argv_size =
     (let st = split_loop len argv_size 0
            \<lparr>sp_buffer = buffer, sp_state = DULL, sp_start_of_word = 0, sp_strchar = 0, sp_argv = []\<rparr>;
          argv = (if sp_state st \<noteq> DULL \<and> length (sp_argv st) < argv_size then sp_argv st @ [sp_start_of_word st] else sp_argv st)
      in map (cstr (sp_buffer st)) argv)"

section \<open>Scripts\<close>

datatype script_error_state = stateNormal | stateInHandler | stateInError

text \<open>The code compares the values of the enumeration.\<close>

fun state_value :: "script_error_state \<Rightarrow> nat" where
  "state_value stateNormal = 0"
| "state_value stateInHandler = 1"
| "state_value stateInError = 2"

instantiation script_error_state :: linorder
begin

definition less_eq_script_error_state :: "script_error_state \<Rightarrow> script_error_state \<Rightarrow> bool" where
  "less_eq_script_error_state a b \<longleftrightarrow> state_value a \<le> state_value b"

definition less_script_error_state :: "script_error_state \<Rightarrow> script_error_state \<Rightarrow> bool" where
  "less_script_error_state a b \<longleftrightarrow> state_value a < state_value b"

instance
proof
  fix a b :: script_error_state
  show "a \<le> b \<Longrightarrow> b \<le> a \<Longrightarrow> a = b" by (cases a; cases b) (simp_all add: less_eq_script_error_state_def)
qed (auto simp: less_eq_script_error_state_def less_script_error_state_def)

end

lemma error_state_order [simp]: "st > stateNormal \<longleftrightarrow> st \<noteq> stateNormal" "st > stateInHandler \<longleftrightarrow> st = stateInError"
  by (cases st; simp add: less_script_error_state_def)+

record script_locals =
  sl_status :: int
  sl_lasterror :: int
  sl_lineno :: nat
  sl_i :: nat
  sl_error_state :: script_error_state

text \<open>\<open>%d\<close> and \<open>sscanf\<close> with \<open>%d\<close>, whose overflow is undefined.\<close>

definition dec_int :: "int \<Rightarrow> u8 list" where
  "dec_int v = (if v < 0 then 45 # dec_digits 1 (nat (- v)) else dec_digits 1 (nat v))"

definition scan_d :: "u8 list \<Rightarrow> int option" where
  "scan_d str =
     (let t = dropWhile isspace str;
          neg = (t \<noteq> [] \<and> hd t = 45);
          t = (if t \<noteq> [] \<and> (hd t = 43 \<or> hd t = 45) then tl t else t);
          ds = takeWhile (\<lambda>c. digit_val c < 10) t;
          v = int (foldl (\<lambda>a c. a * 10 + digit_val c) 0 ds)
      in if ds = [] then None else Some (if neg then - v else v))"

definition shell_say :: "shell_env \<Rightarrow> addr \<Rightarrow> u8 list \<Rightarrow> shell_state \<Rightarrow> shell_state" where
  "shell_say e pif str s = snd (svc_shell_print e pif SVC_SHELL_OUT_STD (str @ SVC_SHELL_NEWLINE) s)"

definition arg_or_empty :: "u8 list list \<Rightarrow> nat \<Rightarrow> u8 list" where
  "arg_or_empty argv n = (if length argv > n then argv ! n else [])"

definition script_onerror :: "shell_env \<Rightarrow> addr \<Rightarrow> u8 list \<Rightarrow> u8 list list \<Rightarrow> script_locals \<Rightarrow> shell_state \<Rightarrow> script_locals \<times> shell_state" where
  "script_onerror e pif name argv l s =
     (if sl_status l \<ge> SVC_SHELL_CMD_E_OK then (l\<lparr>sl_error_state := stateInError\<rparr>, s)
      else
        (let error_state =
               (if length argv > 1 then
                  (if scan_d (argv ! 1) = Some (sl_status l) then stateInHandler
                   else if argv ! 1 \<noteq> [] \<and> hd (argv ! 1) \<in> {120, 35} then stateInHandler else stateInError)
                else stateInHandler)
         in (l\<lparr>sl_error_state := error_state\<rparr>,
             if error_state = stateInHandler
             then shell_say e pif (bytes ''shell '' @ [39] @ name @ [39] @ bytes '' onerror '' @ dec_int (sl_status l) @
                    bytes '' handler on line '' @ dec_digits 1 (sl_lineno l) @ bytes ''!'') s
             else s)))"

definition script_clearerror :: "shell_env \<Rightarrow> addr \<Rightarrow> u8 list \<Rightarrow> script_locals \<Rightarrow> shell_state \<Rightarrow> script_locals \<times> shell_state" where
  "script_clearerror e pif name l s =
     (if sl_error_state l > stateNormal then
        (l\<lparr>sl_lasterror := SVC_SHELL_CMD_E_OK, sl_status := SVC_SHELL_CMD_E_OK, sl_error_state := stateNormal\<rparr>,
         upd_if pif (\<lambda>p. p\<lparr>sf_status := SVC_SHELL_CMD_E_OK\<rparr>)
           (shell_say e pif (bytes ''shell '' @ [39] @ name @ [39] @ bytes '' clearerror '' @ dec_int (sl_status l) @
              bytes '' on line '' @ dec_digits 1 (sl_lineno l) @ bytes ''!'') s))
      else (l\<lparr>sl_error_state := stateNormal\<rparr>, s))"

definition script_exec :: "shell_env \<Rightarrow> addr \<Rightarrow> u8 list \<Rightarrow> u8 list list \<Rightarrow> script_locals \<Rightarrow> shell_state \<Rightarrow> script_locals \<times> shell_state" where
  "script_exec e pif name argv l s =
     (let where_str = bytes ''shell '' @ [39] @ name @ [32] @ arg_or_empty argv 1 @ [32] @ arg_or_empty argv 2 @ [39];
          (status, s) = svc_shell_cmd_run e pif argv s;
          l = l\<lparr>sl_status := status\<rparr>;
          (l, s) =
            (if status < SVC_SHELL_CMD_E_OK then
               (l\<lparr>sl_error_state := stateInError\<rparr>,
                if sl_lineno l > 1
                then shell_say e pif (where_str @ bytes '' error '' @ dec_int status @ bytes '' for '' @ [39] @ argv ! 0 @ [39] @
                       bytes '' on line '' @ dec_digits 1 (sl_lineno l) @ bytes ''!'') s
                else s)
             else (l, s))
      in if sf_status (sh_if s pif) \<ge> SVC_SHELL_CMD_E_OK then
           (let l = (if status < SVC_SHELL_CMD_E_OK then l\<lparr>sl_lasterror := status\<rparr> else l);
                (cancel, s) = shell_out e pif SVC_SHELL_OUT_NULL None s
            in if cancel < SVC_SHELL_CMD_E_OK then
                 (l\<lparr>sl_lasterror := cancel, sl_status := cancel\<rparr>,
                  shell_say e pif (where_str @ bytes '' cancelled with '' @ dec_int status @ bytes '' on line '' @
                    dec_digits 1 (sl_lineno l) @ bytes ''!'') s)
               else (l, s))
         else (l, s))"

text \<open>One line that is split; the result says whether the script exits.\<close>

definition script_command ::
    "shell_env \<Rightarrow> addr \<Rightarrow> u8 list \<Rightarrow> u8 list list \<Rightarrow> script_locals \<Rightarrow> shell_state \<Rightarrow> bool \<times> script_locals \<times> shell_state" where
  "script_command e pif name argv l s =
     (if argv = [] then (False, l, s)
      else if argv ! 0 = bytes '':exit'' then
        (True, l, shell_say e pif (bytes ''shell '' @ [39] @ name @ [39] @ bytes '' exit on line '' @ dec_digits 1 (sl_lineno l) @ bytes ''!'') s)
      else if argv ! 0 = bytes '':onerror'' then (False, script_onerror e pif name argv l s)
      else if argv ! 0 = bytes '':clearerror'' then (False, script_clearerror e pif name l s)
      else if sl_error_state l > stateInHandler then (False, l, s)
      else (False, script_exec e pif name argv l s))"

text \<open>The line that begins at \<open>i\<close>: up to a separator, the end or the size of the buffer. \<open>mem\<close> is what \<open>malloc\<close> returned for the
  substituted line.\<close>

definition script_sep :: "u8 \<Rightarrow> bool" where
  "script_sep c \<longleftrightarrow> c = 13 \<or> c = 10 \<or> c = 0 \<or> c = SVC_SHELL_COMMAND_SEPARATOR"

definition line_at :: "u8 list \<Rightarrow> nat \<Rightarrow> u8 list" where
  "line_at txt i = take (SVC_SHELL_LINE_SIZE_MAX - 1) (takeWhile (\<lambda>c. \<not> script_sep c) (drop i txt))"

definition line_args :: "dst STRSUB_INSTANCE_T \<Rightarrow> u8 list \<Rightarrow> u8 list \<Rightarrow> u8 list list" where
  "line_args inst mem line =
     (let (len, strsub_line) = strsub_parse_string_to inst line (length line) mem SVC_SHELL_LINE_STRSUB_SIZE_MAX
      in svc_shell_cmd_split strsub_line (unat len) (SVC_SHELL_ARGC_MAX - 1))"

text \<open>The separators at \<open>i\<close>, and whether a line feed is there.\<close>

definition skip_at :: "u8 list \<Rightarrow> nat \<Rightarrow> u8 list" where
  "skip_at txt i = takeWhile script_sep (drop i txt)"

definition newline_at :: "u8 list \<Rightarrow> nat \<Rightarrow> nat" where
  "newline_at txt i = (if i < length txt \<and> txt ! i = 10 then 1 else 0)"

lemma script_progress:
  assumes "j = i + length (line_at txt i)" "j + length (skip_at txt j) < length txt"
  shows "i < j + length (skip_at txt j)"
proof (cases "script_sep (txt ! i)")
  case True
  have i: "i < length txt" using assms by simp
  have d: "drop i txt = txt ! i # drop (Suc i) txt" using i by (rule Cons_nth_drop_Suc [symmetric])
  show ?thesis using True d assms(1) by (cases "line_at txt i") (simp_all add: skip_at_def line_at_def)
next
  case False
  have i: "i < length txt" using assms by simp
  have d: "drop i txt = txt ! i # drop (Suc i) txt" using i by (rule Cons_nth_drop_Suc [symmetric])
  show ?thesis using False d assms(1) by (simp add: line_at_def SVC_SHELL_LINE_SIZE_MAX_def)
qed

lemma script_measure:
  assumes "i + length (line_at t i) + length (skip_at t (i + length (line_at t i))) < length t"
  shows "length t - (i + length (line_at t i) + length (skip_at t (i + length (line_at t i)))) < length t - i"
  using script_progress [OF refl assms] assms by (metis diff_less_mono2 less_trans)

function script_loop :: "shell_env \<Rightarrow> addr \<Rightarrow> u8 list \<Rightarrow> u8 list \<Rightarrow> u8 list \<Rightarrow> script_locals \<Rightarrow> shell_state \<Rightarrow> script_locals \<times> shell_state" where
  "script_loop e pif name mem txt l s =
     (let line = line_at txt (sl_i l); i = sl_i l + length line;
          l1 = l\<lparr>sl_i := i, sl_lineno := sl_lineno l + newline_at txt i\<rparr>;
          (ex, l2, s) = script_command e pif name (line_args (sh_strsub s) mem line) l1 s;
          l3 = l2\<lparr>sl_i := i + length (skip_at txt i), sl_lineno := sl_lineno l2 + length (filter (\<lambda>c. c = 10) (skip_at txt i))\<rparr>
      in if ex then (l2, s)
         else if i + length (skip_at txt i) < length txt then script_loop e pif name mem txt l3 s else (l3, s))"
  by pat_completeness auto

termination
proof (relation "measure (\<lambda>(e, pif, name, mem, txt, l, s). length txt - sl_i l)", goal_cases)
  case (2 e pif nm mem tx l s ln j la p ex q lb u lc)
  then show ?case by (simp add: script_measure)
qed simp

declare script_loop.simps [simp del]

text \<open>The end of a script.\<close>

definition script_end :: "addr \<Rightarrow> script_locals \<Rightarrow> shell_state \<Rightarrow> int \<times> shell_state" where
  "script_end pif l s =
     (let s = (if sf_recurse (sh_if s pif) \<noteq> 0 then upd_if pif (\<lambda>p. p\<lparr>sf_recurse := sf_recurse p - 1\<rparr>) s else s);
          s = (if sl_lasterror l < 0 then upd_if pif (\<lambda>p. p\<lparr>sf_status := sl_lasterror l\<rparr>) s else s)
      in (sf_status (sh_if s pif), s))"

definition script_start :: script_locals where
  "script_start = \<lparr>sl_status = SVC_SHELL_CMD_E_OK, sl_lasterror = SVC_SHELL_CMD_E_OK, sl_lineno = 0, sl_i = 0, sl_error_state = stateNormal\<rparr>"

text \<open>\<open>line_mem\<close>, \<open>strsub_mem\<close>: whether there is memory for the line, and the memory for the substituted line.\<close>

definition svc_shell_script_run ::
    "shell_env \<Rightarrow> bool \<Rightarrow> u8 list option \<Rightarrow> addr \<Rightarrow> u8 list \<Rightarrow> u8 list \<Rightarrow> shell_state \<Rightarrow> int \<times> shell_state" where
  "svc_shell_script_run e line_mem strsub_mem pif name txt s =
     (let s = upd_if pif (\<lambda>p. p\<lparr>sf_recurse := 0\<rparr>) s;
          (cancel, s) = shell_out e pif SVC_SHELL_OUT_NULL None s
      in if cancel < SVC_SHELL_CMD_E_OK then (cancel, s)
         else case (line_mem, strsub_mem) of
           (True, Some mem) \<Rightarrow>
             (let (l, s) = script_loop e pif name mem txt script_start s in script_end pif l s)
         | _ \<Rightarrow> (SVC_SHELL_CMD_E_MEMORY, s))"

definition svc_shell_script_clear_last_error :: "addr \<Rightarrow> shell_state \<Rightarrow> int \<times> shell_state" where
  "svc_shell_script_clear_last_error pif s = (SVC_SHELL_CMD_E_OK, upd_if pif (\<lambda>p. p\<lparr>sf_status := 0\<rparr>) s)"

section \<open>The arguments of a line\<close>

text \<open>The words of a text, without a buffer: \<open>w\<close> is the word so far, \<open>q\<close> the quote it began with.\<close>

fun words :: "split_states \<Rightarrow> u8 \<Rightarrow> u8 list \<Rightarrow> u8 list \<Rightarrow> u8 list list" where
  "words DULL q w [] = []"
| "words t q w [] = [w]"
| "words DULL q w (c # cs) =
     (if isspace c then words DULL q w cs else if c = 34 \<or> c = 39 then words IN_STRING c [] cs else words IN_WORD q [c] cs)"
| "words IN_STRING q w (c # cs) = (if c = q then w # words DULL q w cs else words IN_STRING q (w @ [c]) cs)"
| "words IN_WORD q w (c # cs) =
     (if isspace c then w # words DULL q w cs else words (if c = 34 then IN_WORD_STRING else IN_WORD) q (w @ [c]) cs)"
| "words IN_WORD_STRING q w (c # cs) = words (if c = 34 then IN_WORD else IN_WORD_STRING) q (w @ [c]) cs"

definition split_argv :: "nat \<Rightarrow> split_state \<Rightarrow> nat list" where
  "split_argv argv_size st =
     (if sp_state st \<noteq> DULL \<and> length (sp_argv st) < argv_size then sp_argv st @ [sp_start_of_word st] else sp_argv st)"

lemma cstr_append: "a \<le> length pre \<Longrightarrow> 0 \<in> set (drop a pre) \<Longrightarrow> cstr (pre @ x) a = cstr pre a"
  by (simp add: cstr_def takeWhile_append1)

lemma takeWhile_nonzero: "(0 :: u8) \<notin> set w \<Longrightarrow> takeWhile (\<lambda>c. c \<noteq> 0) (w @ 0 # x) = w"
  by (induction w) auto

lemma cstr_word: "a \<le> length pre \<Longrightarrow> drop a pre = w \<Longrightarrow> 0 \<notin> set w \<Longrightarrow> cstr (pre @ 0 # x) a = w"
  by (simp add: cstr_def takeWhile_nonzero)

lemma update_append: "(pre @ c # cs)[length pre := d] = (pre @ [d]) @ cs"
  by simp

text \<open>\<open>pre\<close> has been read, the words in \<open>argv\<close> are closed, \<open>w\<close> is open unless the state is \<open>DULL\<close>.\<close>

definition split_inv :: "u8 list \<Rightarrow> u8 list \<Rightarrow> split_state \<Rightarrow> bool" where
  "split_inv pre w st \<longleftrightarrow> (\<forall>a \<in> set (sp_argv st). a \<le> length pre \<and> 0 \<in> set (drop a pre)) \<and>
     (sp_state st \<noteq> DULL \<longrightarrow> sp_start_of_word st \<le> length pre \<and> drop (sp_start_of_word st) pre = w \<and> 0 \<notin> set w)"

lemma split_loop_words:
  assumes "split_inv pre w st" "sp_buffer st = pre @ cs @ 0 # rest" "0 \<notin> set cs" "length (sp_argv st) \<le> n" "len = length pre + length cs"
    "R = split_loop len n (length pre) st"
  shows "map (cstr (sp_buffer R)) (split_argv n R) =
    take n (map (cstr pre) (sp_argv st) @ words (sp_state st) (sp_strchar st) w cs)"
  using assms
proof (induction cs arbitrary: pre w st)
  case Nil
  then have R: "R = st" by (simp add: split_loop.simps nth_append)
  have a: "map (cstr (sp_buffer st)) (sp_argv st) = map (cstr pre) (sp_argv st)"
    using Nil by (auto simp: split_inv_def cstr_append)
  have w: "sp_state st \<noteq> DULL \<Longrightarrow> cstr (sp_buffer st) (sp_start_of_word st) = w"
    using Nil by (simp add: split_inv_def cstr_word)
  show ?case using Nil(4) a w unfolding R by (cases "sp_state st") (auto simp: split_argv_def)
next
  case (Cons c cs)
  show ?case
  proof (cases "length (sp_argv st) = n")
    case True
    then have R: "R = st" using Cons.prems(6) by (simp add: split_loop.simps)
    have a: "map (cstr (sp_buffer st)) (sp_argv st) = map (cstr pre) (sp_argv st)"
      using Cons.prems by (auto simp: split_inv_def cstr_append)
    then show ?thesis using True by (simp add: R split_argv_def)
  next
    case False
    then have lt: "length (sp_argv st) < n" using Cons.prems(4) by simp
    have c: "sp_buffer st ! length pre = c" "c \<noteq> 0" "0 \<notin> set cs" using Cons.prems(2,3) by (auto simp: nth_append)
    let ?st = "split_step (length pre) st"
    have R: "R = split_loop len n (length pre + 1) ?st"
      using Cons.prems lt c by (subst (asm) split_loop.simps) (simp add: nth_append)
    have close: "map (cstr (sp_buffer R)) (split_argv n R) = take n (map (cstr pre) (sp_argv st) @ w # words DULL (sp_strchar st) w cs)"
      if s: "?st = close_word (length pre) st" "sp_state st \<noteq> DULL"
    proof -
      have b: "sp_buffer ?st = (pre @ [0]) @ cs @ 0 # rest" using Cons.prems(2) by (simp add: s close_word_def)
      have i: "split_inv (pre @ [0]) w ?st" using Cons.prems(1) s(2) by (auto simp: split_inv_def s(1) close_word_def)
      have m: "map (cstr (pre @ [0])) (sp_argv ?st) = map (cstr pre) (sp_argv st) @ [w]"
        using Cons.prems(1) s(2) cstr_word [of "sp_start_of_word st" pre w "[]"]
        by (auto simp: s(1) close_word_def split_inv_def cstr_append)
      have "map (cstr (sp_buffer R)) (split_argv n R) =
          take n (map (cstr (pre @ [0])) (sp_argv ?st) @ words (sp_state ?st) (sp_strchar ?st) w cs)"
        by (rule Cons.IH [OF i b c(3)]) (use lt Cons.prems(5) R in \<open>simp_all add: s(1) close_word_def\<close>)
      then show ?thesis unfolding m by (simp add: s(1) close_word_def)
    qed
    have keep: "map (cstr (sp_buffer R)) (split_argv n R) = take n (map (cstr pre) (sp_argv st) @ words (sp_state ?st) (sp_strchar ?st) w' cs)"
      if s: "sp_buffer ?st = sp_buffer st" "sp_argv ?st = sp_argv st"
        "sp_state ?st \<noteq> DULL \<Longrightarrow> sp_start_of_word ?st \<le> length pre + 1 \<and> drop (sp_start_of_word ?st) (pre @ [c]) = w' \<and> 0 \<notin> set w'" for w'
    proof -
      have b: "sp_buffer ?st = (pre @ [c]) @ cs @ 0 # rest" using Cons.prems(2) by (simp add: s)
      have i: "split_inv (pre @ [c]) w' ?st" using Cons.prems(1) s(3) by (auto simp: split_inv_def s(2))
      have m: "map (cstr (pre @ [c])) (sp_argv ?st) = map (cstr pre) (sp_argv st)"
        using Cons.prems(1) by (auto simp: s(2) split_inv_def cstr_append)
      have "map (cstr (sp_buffer R)) (split_argv n R) =
          take n (map (cstr (pre @ [c])) (sp_argv ?st) @ words (sp_state ?st) (sp_strchar ?st) w' cs)"
        by (rule Cons.IH [OF i b c(3)]) (use lt Cons.prems(5) R in \<open>simp_all add: s(2)\<close>)
      then show ?thesis using m by simp
    qed
    have open_w: "sp_state st \<noteq> DULL \<Longrightarrow> drop (sp_start_of_word st) pre = w \<and> sp_start_of_word st \<le> length pre \<and> 0 \<notin> set w \<and> c \<noteq> 0"
      using Cons.prems(1) c(2) by (auto simp: split_inv_def)
    show ?thesis
    proof (cases "sp_state st")
      case DULL
      consider "isspace c" | "\<not> isspace c" "c = 34 \<or> c = 39" | "\<not> isspace c" "c \<noteq> 34" "c \<noteq> 39" by blast
      then show ?thesis
      proof cases
        case 1
        then show ?thesis using keep [of w] DULL c(1) by (simp add: split_step_def Let_def)
      next
        case 2
        then show ?thesis using keep [of "[]"] DULL c(1) by (simp add: split_step_def Let_def)
      next
        case 3
        then show ?thesis using keep [of "[c]"] DULL c(1,2) by (simp add: split_step_def Let_def)
      qed
    next
      case IN_STRING
      then show ?thesis using close keep [of "w @ [c]"] open_w c(1) by (cases "c = sp_strchar st") (simp_all add: split_step_def Let_def)
    next
      case IN_WORD
      consider "isspace c" | "\<not> isspace c" "c = 34" | "\<not> isspace c" "c \<noteq> 34" by blast
      then show ?thesis
      proof cases
        case 1
        then show ?thesis using close IN_WORD c(1) by (simp add: split_step_def Let_def)
      next
        case 2
        then show ?thesis using keep [of "w @ [c]"] open_w IN_WORD c(1) by (simp add: split_step_def Let_def)
      next
        case 3
        then show ?thesis using keep [of "w @ [c]"] open_w IN_WORD c(1) by (simp add: split_step_def Let_def)
      qed
    next
      case IN_WORD_STRING
      then show ?thesis using keep [of "w @ [c]"] open_w c(1) by (cases "c = 34") (simp_all add: split_step_def Let_def)
    qed
  qed
qed

lemma cmd_split_words:
  assumes "0 \<notin> set line"
  shows "svc_shell_cmd_split (line @ 0 # rest) (length line) n = take n (words DULL 0 [] line)"
proof -
  define st where "st = \<lparr>sp_buffer = line @ 0 # rest, sp_state = DULL, sp_start_of_word = 0, sp_strchar = 0, sp_argv = []\<rparr>"
  have st: "split_inv [] [] st" "sp_buffer st = [] @ line @ 0 # rest" "length (sp_argv st) \<le> n" "length line = length [] + length line"
      "sp_argv st = []" "sp_state st = DULL" "sp_strchar st = 0"
    by (simp_all add: split_inv_def st_def)
  have "map (cstr (sp_buffer (split_loop (length line) n 0 st))) (split_argv n (split_loop (length line) n 0 st)) = take n (words DULL 0 [] line)"
    using split_loop_words [OF st(1,2) assms st(3,4) refl] unfolding st(5-7) by simp
  then show ?thesis unfolding svc_shell_cmd_split_def st_def [symmetric] Let_def split_argv_def .
qed

text \<open>How to write an argument: as it is, or in quotes it does not contain.\<close>

definition quote_arg :: "u8 list \<Rightarrow> u8 list" where
  "quote_arg w =
     (if w \<noteq> [] \<and> (\<forall>c \<in> set w. \<not> isspace c \<and> c \<noteq> 34 \<and> c \<noteq> 39) then w
      else if 34 \<notin> set w then 34 # w @ [34] else 39 # w @ [39])"

lemma words_quote_unused: "t \<noteq> IN_STRING \<Longrightarrow> t = DULL \<or> w = v \<Longrightarrow> words t q w cs = words t p v cs"
proof (induction cs arbitrary: t w v q p)
  case Nil
  then show ?case by (cases t) auto
next
  case (Cons c cs)
  show ?case
    using Cons.prems Cons.IH [of DULL w v q p] Cons.IH [of IN_WORD "[c]" "[c]" q p] Cons.IH [of IN_WORD "w @ [c]" "w @ [c]" q p]
      Cons.IH [of IN_WORD_STRING "w @ [c]" "w @ [c]" q p]
    by (cases t) auto
qed

lemma words_dull: "words DULL q w cs = words DULL 0 [] cs"
  by (rule words_quote_unused) simp_all

lemma words_in_word: "\<forall>c \<in> set u. \<not> isspace c \<and> c \<noteq> 34 \<Longrightarrow> words IN_WORD q w (u @ 32 # cs) = (w @ u) # words DULL 0 [] cs"
  by (induction u arbitrary: w) (simp_all add: isspace_def words_dull [of q])

lemma words_in_string: "q \<notin> set u \<Longrightarrow> words IN_STRING q w (u @ q # cs) = (w @ u) # words DULL 0 [] cs"
  by (induction u arbitrary: w) (auto simp: words_dull [of q])

lemma words_quote:
  assumes "\<not> (34 \<in> set w \<and> 39 \<in> set w)"
  shows "words DULL 0 [] (quote_arg w @ 32 # cs) = w # words DULL 0 [] cs"
proof -
  have sp: "words DULL 0 [] (32 # cs) = words DULL 0 [] cs" by (simp add: isspace_def)
  have q: "\<not> isspace 34" "\<not> isspace 39" by (simp_all add: isspace_def)
  show ?thesis
  proof (cases "w \<noteq> [] \<and> (\<forall>c \<in> set w. \<not> isspace c \<and> c \<noteq> 34 \<and> c \<noteq> 39)")
    case True
    then obtain c u where "w = c # u" by (cases w) auto
    then show ?thesis using True words_in_word [of u 0 "[c]" cs] by (simp add: quote_arg_def)
  next
    case False
    then show ?thesis
      using assms q sp words_in_string [of 34 w "[]" "32 # cs"] words_in_string [of 39 w "[]" "32 # cs"]
      by (cases "34 \<in> set w") (auto simp: quote_arg_def)
  qed
qed

text \<open>C26: splitting a line gives back the arguments it was written from: any texts without a zero that do not contain both quotes,
  written plainly or in quotes, as many as there is room for.\<close>

theorem cmd_split_roundtrip:
  assumes "\<forall>w \<in> set ws. 0 \<notin> set w \<and> \<not> (34 \<in> set w \<and> 39 \<in> set w)" "length ws \<le> n"
    and line: "line = concat (map (\<lambda>w. quote_arg w @ [32]) ws)"
  shows "svc_shell_cmd_split (line @ 0 # rest) (length line) n = ws"
proof -
  have w: "words DULL 0 [] (concat (map (\<lambda>w. quote_arg w @ [32]) vs)) = vs"
    if "\<forall>w \<in> set vs. \<not> (34 \<in> set w \<and> 39 \<in> set w)" for vs
    using that by (induction vs) (simp_all add: words_quote)
  have "0 \<notin> set line" using assms(1) by (auto simp: line quote_arg_def split: if_splits)
  then show ?thesis using cmd_split_words [of line rest n] w [of ws] assms(1,2) by (simp add: line)
qed

theorem cmd_split_roundtrip_witness:
  "svc_shell_cmd_split ([115, 101, 116, 32, 34, 97, 32, 98, 34, 32, 34, 34, 32] @ 0 # [7]) 13 13 = [[115, 101, 116], [97, 32, 98], []]"
proof -
  define line :: "u8 list" where "line = [115, 101, 116, 32, 34, 97, 32, 98, 34, 32, 34, 34, 32]"
  have l: "length line = 13" by (simp add: line_def)
  have q: "line = concat (map (\<lambda>w. quote_arg w @ [32]) [[115, 101, 116], [97, 32, 98], []])"
    by (simp add: line_def quote_arg_def isspace_def)
  have "svc_shell_cmd_split (line @ 0 # [7]) (length line) 13 = [[115, 101, 116], [97, 32, 98], []]"
    by (rule cmd_split_roundtrip [OF _ _ q]) simp_all
  then show ?thesis unfolding l unfolding line_def .
qed

section \<open>The lines of a script\<close>

text \<open>The lines with the line numbers they run with.\<close>

function script_lines :: "u8 list \<Rightarrow> nat \<Rightarrow> nat \<Rightarrow> (u8 list \<times> nat) list" where
  "script_lines t i lineno =
     (let line = line_at t i; j = i + length line; n = lineno + newline_at t j; k = j + length (skip_at t j)
      in (line, n) # (if k < length t then script_lines t k (n + length (filter (\<lambda>c. c = 10) (skip_at t j))) else []))"
  by pat_completeness auto

termination
  by (relation "measure (\<lambda>(t, i, _). length t - i)") (simp_all add: script_measure)

declare script_lines.simps [simp del]

fun run_lines :: "shell_env \<Rightarrow> addr \<Rightarrow> u8 list \<Rightarrow> u8 list \<Rightarrow> (u8 list \<times> nat) list \<Rightarrow> script_locals \<Rightarrow> shell_state \<Rightarrow>
    script_locals \<times> shell_state" where
  "run_lines e pif nm mem [] l s = (l, s)"
| "run_lines e pif nm mem ((line, n) # ls) l s =
     (let (ex, l, s) = script_command e pif nm (line_args (sh_strsub s) mem line) (l\<lparr>sl_lineno := n\<rparr>) s
      in if ex then (l, s) else run_lines e pif nm mem ls l s)"

lemma script_command_i:
  "script_command e pif nm argv (l\<lparr>sl_i := k\<rparr>) s =
     (fst (script_command e pif nm argv l s), (fst (snd (script_command e pif nm argv l s)))\<lparr>sl_i := k\<rparr>, snd (snd (script_command e pif nm argv l s)))"
  by (simp add: script_command_def script_onerror_def script_clearerror_def script_exec_def Let_def split: prod.split)

text \<open>The locals without the position and the line number.\<close>

definition base :: "script_locals \<Rightarrow> script_locals" where
  "base l = l\<lparr>sl_i := 0, sl_lineno := 0\<rparr>"

lemma base_simps [simp]: "base (l\<lparr>sl_i := k\<rparr>) = base l" "base (l\<lparr>sl_lineno := n\<rparr>) = base l"
    "sl_lasterror (base l) = sl_lasterror l" "sl_error_state (base l) = sl_error_state l" "sl_status (base l) = sl_status l"
  by (simp_all add: base_def)

lemma base_eq: "base l = base l' \<Longrightarrow> sl_lineno l = sl_lineno l' \<Longrightarrow> l\<lparr>sl_i := 0\<rparr> = l'\<lparr>sl_i := 0\<rparr>"
  by (cases l; cases l') (simp add: base_def)

lemma script_command_base:
  assumes "base l = base l'" "sl_lineno l = sl_lineno l'"
    "script_command e pif nm argv l s = (ex, l1, s1)" "script_command e pif nm argv l' s = (ex', l1', s1')"
  shows "ex = ex' \<and> s1 = s1' \<and> base l1 = base l1'"
proof -
  have "l\<lparr>sl_i := 0\<rparr> = l'\<lparr>sl_i := 0\<rparr>" by (rule base_eq [OF assms(1,2)])
  then have "script_command e pif nm argv (l\<lparr>sl_i := 0\<rparr>) s = script_command e pif nm argv (l'\<lparr>sl_i := 0\<rparr>) s" by simp
  then have "ex = ex'" "s1 = s1'" "l1\<lparr>sl_i := 0\<rparr> = l1'\<lparr>sl_i := 0\<rparr>" unfolding script_command_i assms(3,4) by simp_all
  then show ?thesis using base_simps(1) [of 0 l1] base_simps(1) [of 0 l1'] by metis
qed

lemma script_loop_lines:
  assumes "base l = base l'" "script_loop e pif nm mem t l s = (r, sr)"
    "run_lines e pif nm mem (script_lines t (sl_i l) (sl_lineno l)) l' s = (q, sq)"
  shows "base r = base q \<and> sr = sq"
  using assms
proof (induction e pif nm mem t l s arbitrary: l' r sr q sq rule: script_loop.induct)
  case (1 e pif nm mem t l s)
  define line where "line = line_at t (sl_i l)"
  define j where "j = sl_i l + length line"
  define n where "n = sl_lineno l + newline_at t j"
  define k where "k = j + length (skip_at t j)"
  define n' where "n' = n + length (filter (\<lambda>c. c = 10) (skip_at t j))"
  note d = line_def j_def n_def k_def n'_def
  let ?a = "line_args (sh_strsub s) mem line"
  obtain ex l2 s2 where c: "script_command e pif nm ?a (l\<lparr>sl_i := j, sl_lineno := n\<rparr>) s = (ex, l2, s2)" by (metis prod_cases3)
  obtain ex' l2' s2' where c': "script_command e pif nm ?a (l'\<lparr>sl_lineno := n\<rparr>) s = (ex', l2', s2')" by (metis prod_cases3)
  have b: "ex = ex'" "s2 = s2'" "base l2 = base l2'"
    using script_command_base [OF _ _ c c'] 1(2) by simp_all
  have ln: "sl_lineno l2 = n"
    using c by (auto simp: script_command_def script_onerror_def script_clearerror_def script_exec_def Let_def split: prod.splits if_splits)
  let ?l3 = "l2\<lparr>sl_i := k, sl_lineno := n'\<rparr>"
  have L: "script_loop e pif nm mem t l s =
      (if ex then (l2, s2) else if k < length t then script_loop e pif nm mem t ?l3 s2 else (?l3, s2))"
    using c ln by (subst script_loop.simps) (simp add: Let_def d)
  have S: "script_lines t (sl_i l) (sl_lineno l) = (line, n) # (if k < length t then script_lines t k n' else [])"
    by (subst script_lines.simps) (simp add: Let_def d)
  have Q: "run_lines e pif nm mem (script_lines t (sl_i l) (sl_lineno l)) l' s =
      (if ex then (l2', s2) else if k < length t then run_lines e pif nm mem (script_lines t k n') l2' s2 else (l2', s2))"
    using c' b by (simp add: S)
  show ?case
  proof (cases "\<not> ex \<and> k < length t")
    case True
    then have r: "script_loop e pif nm mem t ?l3 s2 = (r, sr)" using 1(3) L by simp
    have q: "run_lines e pif nm mem (script_lines t (sl_i ?l3) (sl_lineno ?l3)) l2' s2 = (q, sq)" using 1(4) Q True by simp
    have bl: "base ?l3 = base l2'" using b by simp
    show ?thesis
      by (rule 1(1) [of line j "l\<lparr>sl_i := j, sl_lineno := n\<rparr>" "(ex, l2, s2)" ex "(l2, s2)" l2 s2 ?l3, OF line_def j_def _ _ _ _ _ _ _ bl r q])
        (use True in \<open>simp_all add: c [unfolded n_def] ln k_def n'_def n_def\<close>)
  next
    case False
    then show ?thesis using 1(3,4) L Q b by (auto split: if_splits)
  qed
qed

section \<open>Error handlers as blocks\<close>

text \<open>The commands do not change the installed substitutions.\<close>

definition keeps_strsub :: "shell_env \<Rightarrow> bool" where
  "keeps_strsub e \<longleftrightarrow> (\<forall>fp pif argv s. sh_strsub (snd (xe_cmd e fp pif argv s)) = sh_strsub s)"

lemma shell_print_strsub [simp]: "sh_strsub (snd (svc_shell_print e pif out str s)) = sh_strsub s" "sh_strsub (shell_say e pif str s) = sh_strsub s"
    "sh_strsub (upd_if pif f s) = sh_strsub s"
  by (simp_all add: svc_shell_print_def shell_say_def upd_if_def)

lemma service_started_strsub [simp]: "sh_strsub (snd (service_started e v s)) = sh_strsub s"
  by (simp add: service_started_def case_prod_unfold Let_def)

lemma run_found_strsub: "keeps_strsub e \<Longrightarrow> sh_strsub (snd (run_found e pif argv service cmd s)) = sh_strsub s"
  by (simp add: run_found_def case_prod_unfold Let_def keeps_strsub_def split: option.split)

lemma cmd_run_strsub:
  assumes "keeps_strsub e"
  shows "sh_strsub (snd (svc_shell_cmd_run e pif argv s)) = sh_strsub s"
  using run_found_strsub [OF assms] by (simp add: svc_shell_cmd_run_def Let_def case_prod_unfold split: option.split)

lemma script_command_strsub:
  assumes "keeps_strsub e"
  shows "sh_strsub (snd (snd (script_command e pif nm argv l s))) = sh_strsub s"
  using cmd_run_strsub [OF assms]
  by (simp add: script_command_def script_onerror_def script_clearerror_def script_exec_def Let_def case_prod_unfold)

text \<open>The lines of a script as arguments, and their run.\<close>

definition script_args :: "dst STRSUB_INSTANCE_T \<Rightarrow> u8 list \<Rightarrow> u8 list \<Rightarrow> (u8 list list \<times> nat) list" where
  "script_args inst mem t = map (\<lambda>(line, n). (line_args inst mem line, n)) (script_lines t 0 0)"

fun run_args :: "shell_env \<Rightarrow> addr \<Rightarrow> u8 list \<Rightarrow> (u8 list list \<times> nat) list \<Rightarrow> script_locals \<Rightarrow> shell_state \<Rightarrow> script_locals \<times> shell_state" where
  "run_args e pif nm [] l s = (l, s)"
| "run_args e pif nm ((argv, n) # as) l s =
     (let (ex, l, s) = script_command e pif nm argv (l\<lparr>sl_lineno := n\<rparr>) s in if ex then (l, s) else run_args e pif nm as l s)"

lemma run_lines_args:
  assumes "keeps_strsub e"
  shows "run_lines e pif nm mem ls l s = run_args e pif nm (map (\<lambda>(line, n). (line_args (sh_strsub s) mem line, n)) ls) l s"
proof (induction ls arbitrary: l s)
  case (Cons x ls)
  obtain line n where x: "x = (line, n)" by force
  let ?c = "script_command e pif nm (line_args (sh_strsub s) mem line) (l\<lparr>sl_lineno := n\<rparr>) s"
  have "sh_strsub (snd (snd ?c)) = sh_strsub s" by (rule script_command_strsub [OF assms])
  then show ?case using Cons.IH [of "fst (snd ?c)" "snd (snd ?c)"] by (simp add: x case_prod_unfold Let_def)
qed simp

text \<open>A block: its commands run in order until one fails.\<close>

fun exec_block :: "shell_env \<Rightarrow> addr \<Rightarrow> u8 list \<Rightarrow> (u8 list list \<times> nat) list \<Rightarrow> script_locals \<Rightarrow> shell_state \<Rightarrow> script_locals \<times> shell_state" where
  "exec_block e pif nm [] l s = (l, s)"
| "exec_block e pif nm ((argv, n) # as) l s =
     (let (l, s) = (if argv = [] then (l, s) else script_exec e pif nm argv (l\<lparr>sl_lineno := n\<rparr>) s)
      in if sl_error_state l = stateInError then (l, s) else exec_block e pif nm as l s)"

text \<open>A guarded block: body, \<open>:onerror\<close> line, handler and \<open>:clearerror\<close> line. The handler runs when the body has failed and the
  \<open>:onerror\<close> line takes the error; then the error is cleared.\<close>

record guarded_block =
  gb_body :: "(u8 list list \<times> nat) list"
  gb_onerror :: "u8 list list \<times> nat"
  gb_handler :: "(u8 list list \<times> nat) list"
  gb_clearerror :: "u8 list list \<times> nat"

definition flatten_block :: "guarded_block \<Rightarrow> (u8 list list \<times> nat) list" where
  "flatten_block b = gb_body b @ gb_onerror b # gb_handler b @ [gb_clearerror b]"

definition exec_guarded :: "shell_env \<Rightarrow> addr \<Rightarrow> u8 list \<Rightarrow> guarded_block \<Rightarrow> script_locals \<Rightarrow> shell_state \<Rightarrow> script_locals \<times> shell_state" where
  "exec_guarded e pif nm b l s =
     (let (l, s) = exec_block e pif nm (gb_body b) l s;
          (l, s) = script_onerror e pif nm (fst (gb_onerror b)) (l\<lparr>sl_lineno := snd (gb_onerror b)\<rparr>) s;
          (l, s) = (if sl_error_state l = stateInHandler then exec_block e pif nm (gb_handler b) l s else (l, s))
      in script_clearerror e pif nm (l\<lparr>sl_lineno := snd (gb_clearerror b)\<rparr>) s)"

fun exec_blocks :: "shell_env \<Rightarrow> addr \<Rightarrow> u8 list \<Rightarrow> guarded_block list \<Rightarrow> script_locals \<Rightarrow> shell_state \<Rightarrow> script_locals \<times> shell_state" where
  "exec_blocks e pif nm [] l s = (l, s)"
| "exec_blocks e pif nm (b # bs) l s = (let (l, s) = exec_guarded e pif nm b l s in exec_blocks e pif nm bs l s)"

definition plain_args :: "u8 list list \<times> nat \<Rightarrow> bool" where
  "plain_args a \<longleftrightarrow> fst a = [] \<or> fst a ! 0 \<notin> {bytes '':exit'', bytes '':onerror'', bytes '':clearerror''}"

definition block_ok :: "guarded_block \<Rightarrow> bool" where
  "block_ok b \<longleftrightarrow> (\<forall>a \<in> set (gb_body b) \<union> set (gb_handler b). plain_args a) \<and>
     fst (gb_onerror b) \<noteq> [] \<and> fst (gb_onerror b) ! 0 = bytes '':onerror'' \<and>
     fst (gb_clearerror b) \<noteq> [] \<and> fst (gb_clearerror b) ! 0 = bytes '':clearerror''"

lemma keyword_names: "bytes '':exit'' \<noteq> bytes '':onerror''" "bytes '':exit'' \<noteq> bytes '':clearerror''" "bytes '':onerror'' \<noteq> bytes '':clearerror''"
  by (simp_all add: bytes_def)

lemma run_args_append:
  assumes "\<forall>a \<in> set as. plain_args a \<or> fst a \<noteq> [] \<and> fst a ! 0 \<in> {bytes '':onerror'', bytes '':clearerror''}"
  shows "run_args e pif nm (as @ bs) l s = (let (l, s) = run_args e pif nm as l s in run_args e pif nm bs l s)"
  using assms
proof (induction as arbitrary: l s)
  case (Cons a as)
  obtain argv n where a: "a = (argv, n)" by force
  have "\<not> fst (script_command e pif nm argv l s)" for l s
    using Cons.prems keyword_names by (auto simp: script_command_def plain_args_def a)
  then show ?case using Cons by (simp add: a case_prod_unfold Let_def)
qed simp

text \<open>In the error state the commands of a block are skipped; otherwise they run as a block does.\<close>

lemma run_args_skip:
  assumes "\<forall>a \<in> set as. plain_args a" "sl_error_state l = stateInError"
  shows "\<exists>m. run_args e pif nm as l s = (l\<lparr>sl_lineno := m\<rparr>, s)"
  using assms
proof (induction as arbitrary: l)
  case Nil
  show ?case by (rule exI [of _ "sl_lineno l"]) simp
next
  case (Cons a as)
  obtain argv n where a: "a = (argv, n)" by force
  have "script_command e pif nm argv (l\<lparr>sl_lineno := n\<rparr>) s = (False, l\<lparr>sl_lineno := n\<rparr>, s)"
    using Cons.prems by (auto simp: script_command_def plain_args_def a)
  then show ?case using Cons.IH [of "l\<lparr>sl_lineno := n\<rparr>"] Cons.prems by (simp add: a)
qed

lemma run_args_block:
  assumes "\<forall>a \<in> set as. plain_args a" "sl_error_state l \<noteq> stateInError"
  shows "\<exists>m. run_args e pif nm as (l\<lparr>sl_lineno := k'\<rparr>) s =
    ((fst (exec_block e pif nm as l s))\<lparr>sl_lineno := m\<rparr>, snd (exec_block e pif nm as l s))"
  using assms
proof (induction as arbitrary: l s k')
  case Nil
  then show ?case by auto
next
  case (Cons a as)
  obtain argv n where a: "a = (argv, n)" by force
  show ?case
  proof (cases "argv = []")
    case True
    have "run_args e pif nm (a # as) (l\<lparr>sl_lineno := k'\<rparr>) s = run_args e pif nm as (l\<lparr>sl_lineno := n\<rparr>) s"
      using True by (simp add: a script_command_def)
    then show ?thesis using Cons.IH [of l n s] Cons.prems True by (simp add: a)
  next
    case False
    obtain l1 s1 where x: "script_exec e pif nm argv (l\<lparr>sl_lineno := n\<rparr>) s = (l1, s1)" by force
    have c: "script_command e pif nm argv (l\<lparr>sl_lineno := k', sl_lineno := n\<rparr>) s = (False, l1, s1)"
      using Cons.prems False x by (auto simp: script_command_def plain_args_def a)
    show ?thesis
    proof (cases "sl_error_state l1 = stateInError")
      case True
      obtain m where "run_args e pif nm as l1 s1 = (l1\<lparr>sl_lineno := m\<rparr>, s1)" using run_args_skip [of as l1 e pif nm s1] Cons.prems True by auto
      then show ?thesis using c x True False by (auto simp: a)
    next
      case e: False
      obtain m where "run_args e pif nm as (l1\<lparr>sl_lineno := sl_lineno l1\<rparr>) s1 =
          ((fst (exec_block e pif nm as l1 s1))\<lparr>sl_lineno := m\<rparr>, snd (exec_block e pif nm as l1 s1))"
        using Cons.IH [of l1 "sl_lineno l1" s1] Cons.prems e by auto
      then show ?thesis using c x e False by (auto simp: a)
    qed
  qed
qed

lemma onerror_state: "script_onerror e pif nm argv l s = (l', s') \<Longrightarrow> sl_error_state l' = stateInHandler \<or> sl_error_state l' = stateInError"
  by (auto simp: script_onerror_def Let_def split: if_splits)

lemma clearerror_state: "sl_error_state (fst (script_clearerror e pif nm l s)) = stateNormal"
  by (simp add: script_clearerror_def)

lemma run_args_guarded:
  assumes "block_ok b" "sl_error_state l = stateNormal"
  shows "run_args e pif nm (flatten_block b) (l\<lparr>sl_lineno := k\<rparr>) s = exec_guarded e pif nm b l s"
proof -
  have plain: "\<forall>a \<in> set (gb_body b). plain_args a" "\<forall>a \<in> set (gb_handler b). plain_args a" using assms(1) by (auto simp: block_ok_def)
  obtain l1 s1 where b1: "exec_block e pif nm (gb_body b) l s = (l1, s1)" by force
  then obtain m1 where r1: "run_args e pif nm (gb_body b) (l\<lparr>sl_lineno := k\<rparr>) s = (l1\<lparr>sl_lineno := m1\<rparr>, s1)"
    using run_args_block [OF plain(1), of l e pif nm k s] assms(2) by auto
  obtain on n where on: "gb_onerror b = (on, n)" by force
  obtain cl n' where cl: "gb_clearerror b = (cl, n')" by force
  obtain l2 s2 where o2: "script_onerror e pif nm on (l1\<lparr>sl_lineno := n\<rparr>) s1 = (l2, s2)" by force
  have c2: "script_command e pif nm on (l1\<lparr>sl_lineno := m1, sl_lineno := n\<rparr>) s1 = (False, l2, s2)"
    using o2 assms(1) keyword_names by (auto simp: script_command_def block_ok_def on)
  have cc: "script_command e pif nm cl l' s' = (False, script_clearerror e pif nm l' s')" for l' s'
    using assms(1) keyword_names by (auto simp: script_command_def block_ok_def cl)
  let ?h = "if sl_error_state l2 = stateInHandler then exec_block e pif nm (gb_handler b) l2 s2 else (l2, s2)"
  obtain m3 where r3: "run_args e pif nm (gb_handler b) l2 s2 = ((fst ?h)\<lparr>sl_lineno := m3\<rparr>, snd ?h)"
  proof (cases "sl_error_state l2 = stateInHandler")
    case True
    then show ?thesis using run_args_block [OF plain(2), of l2 e pif nm "sl_lineno l2" s2] that by auto
  next
    case False
    then show ?thesis using run_args_skip [OF plain(2), of l2 e pif nm s2] onerror_state [OF o2] that by auto
  qed
  have t: "run_args e pif nm (gb_handler b @ [(cl, n')]) l2 s2 = script_clearerror e pif nm ((fst ?h)\<lparr>sl_lineno := n'\<rparr>) (snd ?h)"
    using plain(2) r3 cc by (subst run_args_append) (auto simp: case_prod_unfold)
  have "run_args e pif nm (flatten_block b) (l\<lparr>sl_lineno := k\<rparr>) s = run_args e pif nm ((on, n) # gb_handler b @ [(cl, n')]) (l1\<lparr>sl_lineno := m1\<rparr>) s1"
    unfolding flatten_block_def on cl using plain(1) r1 by (subst run_args_append) auto
  also have "\<dots> = script_clearerror e pif nm ((fst ?h)\<lparr>sl_lineno := n'\<rparr>) (snd ?h)" using c2 t by simp
  also have "\<dots> = exec_guarded e pif nm b l s" using b1 o2 by (simp add: exec_guarded_def on cl case_prod_unfold Let_def)
  finally show ?thesis .
qed

lemma run_args_blocks:
  assumes "\<forall>b \<in> set bs. block_ok b" "\<forall>a \<in> set tail. plain_args a" "sl_error_state l = stateNormal"
  shows "\<exists>m. run_args e pif nm (concat (map flatten_block bs) @ tail) (l\<lparr>sl_lineno := k\<rparr>) s =
    (let (l, s) = exec_blocks e pif nm bs l s; (l, s) = exec_block e pif nm tail l s in (l\<lparr>sl_lineno := m\<rparr>, s))"
  using assms
proof (induction bs arbitrary: l s k)
  case Nil
  then show ?case using run_args_block [of tail l e pif nm k s] by (auto simp: case_prod_unfold Let_def)
next
  case (Cons b bs)
  obtain l1 s1 where g: "exec_guarded e pif nm b l s = (l1, s1)" by force
  have n: "sl_error_state l1 = stateNormal" using g clearerror_state by (auto simp: exec_guarded_def case_prod_unfold Let_def) (metis fst_conv)
  have "\<forall>a \<in> set (flatten_block b). plain_args a \<or> fst a \<noteq> [] \<and> fst a ! 0 \<in> {bytes '':onerror'', bytes '':clearerror''}"
    using Cons.prems(1) by (auto simp: block_ok_def flatten_block_def)
  then have "run_args e pif nm (flatten_block b @ concat (map flatten_block bs) @ tail) (l\<lparr>sl_lineno := k\<rparr>) s =
      run_args e pif nm (concat (map flatten_block bs) @ tail) (l1\<lparr>sl_lineno := sl_lineno l1\<rparr>) s1"
    using run_args_guarded [of b l e pif nm k s] Cons.prems g by (subst run_args_append) auto
  then show ?case using Cons.IH [of l1 "sl_lineno l1" s1] Cons.prems n by (simp add: g)
qed

lemma script_run_exec:
  assumes "keeps_strsub e" "\<forall>b \<in> set bs. block_ok b" "\<forall>a \<in> set tail. plain_args a"
    and lines: "script_args (sh_strsub s) mem t = concat (map flatten_block bs) @ tail"
    and start: "shell_out e pif SVC_SHELL_OUT_NULL None (upd_if pif (\<lambda>p. p\<lparr>sf_recurse := 0\<rparr>) s) = (cancel, s1)" "cancel \<ge> 0"
  shows "svc_shell_script_run e True (Some mem) pif nm t s =
    (let (l, s) = exec_blocks e pif nm bs script_start s1; (l, s) = exec_block e pif nm tail l s in script_end pif l s)"
proof -
  obtain l2 s2 where loop: "script_loop e pif nm mem t script_start s1 = (l2, s2)" by force
  obtain l3 s3 where run: "run_lines e pif nm mem (script_lines t 0 0) script_start s1 = (l3, s3)" by force
  have eq: "base l2 = base l3" "s2 = s3"
    using script_loop_lines [OF refl loop, of l3 s3] run by (simp_all add: script_start_def)
  have s1: "sh_strsub s1 = sh_strsub s" using start(1) shell_out_fields(4) [of e pif SVC_SHELL_OUT_NULL None "upd_if pif (\<lambda>p. p\<lparr>sf_recurse := 0\<rparr>) s"]
    by simp
  obtain l4 s4 where ref: "(let (l, s) = exec_blocks e pif nm bs script_start s1 in exec_block e pif nm tail l s) = (l4, s4)" by force
  have st: "script_start\<lparr>sl_lineno := 0\<rparr> = script_start" "sl_error_state script_start = stateNormal" by (simp_all add: script_start_def)
  have "run_lines e pif nm mem (script_lines t 0 0) script_start s1 = run_args e pif nm (concat (map flatten_block bs) @ tail) script_start s1"
    using run_lines_args [OF assms(1), of pif nm mem "script_lines t 0 0" script_start s1] lines by (simp add: script_args_def s1)
  then obtain m where "(l3, s3) = (l4\<lparr>sl_lineno := m\<rparr>, s4)"
    using run_args_blocks [OF assms(2,3) st(2), of e pif nm 0 s1] st(1) run ref by (auto simp: case_prod_unfold Let_def)
  then have "base l2 = base l4" "s2 = s4" using eq by simp_all
  then have "script_end pif l2 s2 = script_end pif l4 s4" using base_simps(3) [of l2] base_simps(3) [of l4] by (simp add: script_end_def)
  then show ?thesis using loop ref start
    by (simp add: svc_shell_script_run_def SVC_SHELL_CMD_E_OK_def case_prod_unfold Let_def)
qed


lemma render_plain:
  assumes "\<forall>c \<in> set str. c \<noteq> ss_escape inst \<and> open_token inst c = None"
  shows "render inst f StrsubDull a w str = str"
  using assms by (induction str) simp_all

text \<open>A line without escapes and tokens is split as it is.\<close>

lemma line_args_plain:
  assumes "pure_handlers inst f" "length line < 319" "length mem \<ge> 320" "0 \<notin> set line"
    "\<forall>c \<in> set line. c \<noteq> ss_escape inst \<and> open_token inst c = None"
  shows "line_args inst mem line = take 13 (words DULL 0 [] line)"
proof -
  let ?L = "if length line = 0 then length line else length line"
  have R: "line = render inst f StrsubDull 0 [] (parse_input line ?L)" using render_plain [OF assms(5)] parse_input_all [OF assms(4)] by simp
  obtain rest where r: "strsub_parse_string_to inst line (length line) mem 320 = (of_nat (length line), line @ 0 # rest)"
    using parse_string_to_eq [OF assms(1) _ _ R, of 320 mem] assms(2,3) by (simp add: min_def)
  have "unat (of_nat (length line) :: u32) = length line" using assms(2) by (intro unat_u32_of_nat) simp
  then show ?thesis
    using cmd_split_words [OF assms(4), of rest 13] by (simp add: line_args_def r SVC_SHELL_LINE_STRSUB_SIZE_MAX_def SVC_SHELL_ARGC_MAX_def)
qed

definition demo_script_env :: shell_env where
  "demo_script_env = \<lparr>xe_cmd = (\<lambda>fp pif argv s. if fp = 72 then (-1, s) else (0, s\<lparr>sh_outs := sh_outs s @ [(pif, 9, None)]\<rparr>)),
     xe_out = (\<lambda>_. 0), xe_thread = 1, xe_senv = demo_env 0\<rparr>"

text \<open>The lines are a, :onerror, b, :clearerror and b; the command a fails.\<close>

definition demo_script :: "u8 list" where
  "demo_script = [97, 10, 58, 111, 110, 101, 114, 114, 111, 114, 10, 98, 10, 58, 99, 108, 101, 97, 114, 101, 114, 114, 111, 114, 10, 98]"

lemma demo_script_lines: "script_lines demo_script 0 0 = [([97], 1), ([58, 111, 110, 101, 114, 114, 111, 114], 3), ([98], 5),
    ([58, 99, 108, 101, 97, 114, 101, 114, 114, 111, 114], 7), ([98], 8)]"
  by (simp add: script_lines.simps demo_script_def line_at_def skip_at_def newline_at_def script_sep_def SVC_SHELL_COMMAND_SEPARATOR_def
      SVC_SHELL_LINE_SIZE_MAX_def Let_def)

lemma demo_script_args: "script_args (sh_strsub demo_shell) (replicate 320 0) demo_script = [([[97]], 1), ([bytes '':onerror''], 3), ([[98]], 5),
    ([bytes '':clearerror''], 7), ([[98]], 8)]"
proof -
  have plain: "\<forall>c \<in> set line. c \<noteq> ss_escape demo_inst \<and> open_token demo_inst c = None" if "\<forall>c \<in> set line. c \<noteq> 91 \<and> c \<noteq> 92" for line
    using that by (auto simp: demo_inst_def open_token_def StrsubLast_def STRSUB_ESCAPE_TOKEN_def STRSUB_HANDLERS_TOKENS_def upt_rec)
  have args: "line_args demo_inst (replicate 320 0) line = take 13 (words DULL 0 [] line)"
    if "\<forall>c \<in> set line. c \<noteq> 91 \<and> c \<noteq> 92" "length line < 319" "0 \<notin> set line" for line
    by (rule line_args_plain [OF demo_pure that(2) _ that(3) plain [OF that(1)]]) simp
  show ?thesis
    unfolding script_args_def demo_script_lines by (simp add: demo_shell_def args isspace_def bytes_def)
qed


section \<open>Errors that stay and cancels that do not stop\<close>

lemma cmd_run_status:
  assumes "\<forall>fp argv s. sf_status (sh_if (snd (xe_cmd e fp pif argv s)) pif) = sf_status (sh_if s pif)"
  shows "sf_status (sh_if (snd (svc_shell_cmd_run e pif argv s)) pif) = sf_status (sh_if s pif)"
proof -
  have "sh_if (snd (service_started e v t)) = sh_if t" for v t
    by (simp add: service_started_def case_prod_unfold Let_def)
  then have "sf_status (sh_if (snd (run_found e pif argv v c t)) pif) = sf_status (sh_if t pif)" for v c t
    using assms by (simp add: run_found_def case_prod_unfold Let_def svc_shell_print_def split: option.split)
  then show ?thesis by (simp add: svc_shell_cmd_run_def Let_def case_prod_unfold svc_shell_print_def split: option.split)
qed

lemma shell_say_if [simp]: "sh_if (shell_say e pif str s) = sh_if s"
  by (simp add: shell_say_def svc_shell_print_def)

lemma exec_block_sticks:
  assumes "\<forall>fp argv s. sf_status (sh_if (snd (xe_cmd e fp pif argv s)) pif) = sf_status (sh_if s pif)" "sf_status (sh_if s pif) < 0"
    "exec_block e pif nm as l s = (l', s')"
  shows "sf_status (sh_if s' pif) = sf_status (sh_if s pif) \<and> sl_lasterror l' = sl_lasterror l"
  using assms(2,3)
proof (induction as arbitrary: l s)
  case (Cons a as)
  obtain argv n where a: "a = (argv, n)" by force
  obtain l1 s1 where x: "script_exec e pif nm argv (l\<lparr>sl_lineno := n\<rparr>) s = (l1, s1)" by force
  have "sf_status (sh_if s1 pif) = sf_status (sh_if s pif) \<and> sl_lasterror l1 = sl_lasterror l"
  proof -
    obtain st s0 where c: "svc_shell_cmd_run e pif argv s = (st, s0)" by force
    have "sf_status (sh_if s0 pif) = sf_status (sh_if s pif)" using cmd_run_status [OF assms(1), of argv s] c by simp
    then show ?thesis using x c Cons.prems(1) by (auto simp: script_exec_def Let_def SVC_SHELL_CMD_E_OK_def split: if_splits)
  qed
  then show ?case using Cons.IH [of s1 l1] Cons.IH [of s l] Cons.prems x by (auto simp: a split: if_splits)
qed simp

text \<open>Once a script has left an error in its interface, every later script of plain command lines returns that error, whether or
  not its commands succeed.\<close>

theorem script_error_sticks:
  assumes "keeps_strsub e" "\<forall>fp argv s. sf_status (sh_if (snd (xe_cmd e fp pif argv s)) pif) = sf_status (sh_if s pif)"
    "sf_status (sh_if s pif) < 0" "\<forall>a \<in> set (script_args (sh_strsub s) mem t). plain_args a"
    "xe_out e (sh_outs s @ [(pif, SVC_SHELL_OUT_NULL, None)]) \<ge> 0"
  shows "fst (svc_shell_script_run e True (Some mem) pif nm t s) = sf_status (sh_if s pif)"
proof -
  obtain cancel s1 where p: "shell_out e pif SVC_SHELL_OUT_NULL None (upd_if pif (\<lambda>p. p\<lparr>sf_recurse := 0\<rparr>) s) = (cancel, s1)" by force
  then have p1: "cancel \<ge> 0" "sf_status (sh_if s1 pif) = sf_status (sh_if s pif)"
    using assms(5) by (auto simp: shell_out_def Let_def upd_if_def)
  obtain l2 s2 where x: "exec_block e pif nm (script_args (sh_strsub s) mem t) script_start s1 = (l2, s2)" by force
  have "sf_status (sh_if s2 pif) = sf_status (sh_if s pif)" "sl_lasterror l2 = 0"
    using exec_block_sticks [OF assms(2) _ x] p1(2) assms(3) by (simp_all add: script_start_def SVC_SHELL_CMD_E_OK_def)
  then show ?thesis
    using script_run_exec [where bs = "[]" and mem = mem and t = t and nm = nm, OF assms(1) _ assms(4) _ p p1(1)] x
    by (simp add: script_end_def Let_def upd_if_def)
qed

theorem script_error_sticks_witness:
  "fst (svc_shell_script_run demo_script_env True (Some (replicate 320 0)) 3 [] [98] (upd_if 3 (\<lambda>p. p\<lparr>sf_status := - 1\<rparr>) demo_shell)) = - 1"
proof -
  let ?s = "upd_if 3 (\<lambda>p. p\<lparr>sf_status := - 1\<rparr>) demo_shell"
  have l: "script_lines [98] 0 0 = [([98], 0)]"
    by (simp add: script_lines.simps line_at_def skip_at_def newline_at_def script_sep_def SVC_SHELL_COMMAND_SEPARATOR_def
        SVC_SHELL_LINE_SIZE_MAX_def Let_def)
  have "line_args demo_inst (replicate 320 0) [98] = take 13 (words DULL 0 [] [98])"
    by (rule line_args_plain [OF demo_pure])
      (auto simp: demo_inst_def open_token_def StrsubLast_def STRSUB_ESCAPE_TOKEN_def STRSUB_HANDLERS_TOKENS_def upt_rec)
  then have a: "script_args (sh_strsub ?s) (replicate 320 0) [98] = [([[98]], 0)]"
    by (simp add: script_args_def l upd_if_def demo_shell_def isspace_def)
  have s: "sf_status (sh_if ?s 3) = - 1" by (simp add: upd_if_def)
  have "fst (svc_shell_script_run demo_script_env True (Some (replicate 320 0)) 3 [] [98] ?s) = sf_status (sh_if ?s 3)"
    by (rule script_error_sticks, unfold a s)
      (simp_all add: keeps_strsub_def demo_script_env_def plain_args_def bytes_def)
  then show ?thesis unfolding s .
qed

text \<open>A cancel ends neither the loop nor the block: the output function asks to stop after the first command, and the second one
  runs nevertheless.\<close>

theorem script_cancel_runs_on:
  assumes "keeps_strsub e" "script_args (sh_strsub s) mem t = [(a, n), (b, m)]" "plain_args (a, n)" "plain_args (b, m)" "a \<noteq> []" "b \<noteq> []"
    and start: "shell_out e pif SVC_SHELL_OUT_NULL None (upd_if pif (\<lambda>p. p\<lparr>sf_recurse := 0\<rparr>) s) = (0, s1)"
    and first: "svc_shell_cmd_run e pif a s1 = (st, s2)" "st \<ge> 0" "sf_status (sh_if s2 pif) \<ge> 0"
      "shell_out e pif SVC_SHELL_OUT_NULL None s2 = (cancel, s3)" "cancel < 0"
  obtains s4 where "sh_outs s4 = sh_outs s3 @ [last (sh_outs s4)]"
    "svc_shell_script_run e True (Some mem) pif nm t s =
      (let (l, s) = script_exec e pif nm b (script_start\<lparr>sl_status := cancel, sl_lasterror := cancel, sl_lineno := m\<rparr>) s4 in script_end pif l s)"
proof -
  obtain s4 where x: "script_exec e pif nm a (script_start\<lparr>sl_lineno := n\<rparr>) s1 = (script_start\<lparr>sl_status := cancel, sl_lasterror := cancel, sl_lineno := n\<rparr>, s4)"
      "sh_outs s4 = sh_outs s3 @ [last (sh_outs s4)]"
    using first by (simp add: script_exec_def Let_def SVC_SHELL_CMD_E_OK_def shell_say_def svc_shell_print_def script_start_def)
  have "svc_shell_script_run e True (Some mem) pif nm t s =
      (let (l, s) = script_exec e pif nm b (script_start\<lparr>sl_status := cancel, sl_lasterror := cancel, sl_lineno := m\<rparr>) s4 in script_end pif l s)"
    using script_run_exec [OF assms(1) _ _ _ start, of "[]" "[(a, n), (b, m)]" mem t nm] assms(2-6) x(1)
    by (simp add: case_prod_unfold Let_def script_start_def)
  then show ?thesis using that x(2) by blast
qed

end
