(* ===== verification/Heap.thy ===== *)
theory Heap
  imports Prelude
begin

unbundle bit_operations_syntax

text \<open>
  The instance of the platform and the checked heap, src/qoraal.c, and the debug output of src/debug.c. The platform is
  a \<open>QORAAL_CFG_T\<close>, a table of functions; its allocator works on a state of its own, the type variable, and on the memory
  \<open>hp_mem\<close>, bytes by address. A call through an empty entry of the table has no result, \<open>None\<close>.

  Two builds compile: the one of config.h, which puts the size in front of a block (\<open>COUNTED\<close>), and the one that puts a
  header and two guards of eight bytes around it as well (\<open>CHECKED\<close>). The first has the second's layout with empty guards.
  NDEBUG is not set, so that \<open>DBG_ASSERT_T\<close> calls \<open>debug_assert\<close>; that of the platform returns, and its calls are listed in \<open>hp_asserts\<close>, those of \<open>print\<close> in \<open>hp_prints\<close>.
\<close>

section \<open>Data\<close>

datatype QORAAL_HEAP = QORAAL_HeapOperatingSystem | QORAAL_HeapAuxiliary | QORAAL_HeapDirectMemoryAccess | QORAAL_HeapLast

type_synonym bmem = "addr \<Rightarrow> u8"

record 'p QORAAL_CFG_T =
  cfg_malloc :: "(QORAAL_HEAP \<Rightarrow> u64 \<Rightarrow> 'p \<times> bmem \<Rightarrow> addr \<times> 'p \<times> bmem) option"
  cfg_free :: "(QORAAL_HEAP \<Rightarrow> addr \<Rightarrow> 'p \<times> bmem \<Rightarrow> 'p \<times> bmem) option"
  cfg_print :: bool
  cfg_debug_assert :: bool

record 'p heap_state =
  hp_instance :: "'p QORAAL_CFG_T option"
  hp_mem :: bmem
  hp_plat :: 'p
  hp_total :: u32
  hp_asserts :: "u8 list list"
  hp_prints :: "u8 list list"

record heap_build =
  hc_head :: nat
  hc_tail :: nat
  hc_header :: nat

definition CHECKED :: heap_build where "CHECKED = \<lparr>hc_head = 8, hc_tail = 8, hc_header = 16\<rparr>"
definition COUNTED :: heap_build where "COUNTED = \<lparr>hc_head = 0, hc_tail = 0, hc_header = 0\<rparr>"
definition DEBUG_HEAD_FILL :: u8 where "DEBUG_HEAD_FILL = 0x77"
definition DEBUG_TAIL_FILL :: u8 where "DEBUG_TAIL_FILL = 0x77"
definition DEBUG_CLEAR_FILL :: u8 where "DEBUG_CLEAR_FILL = 0xED"

definition DEBUG_BYTES :: "heap_build \<Rightarrow> nat" where
  "DEBUG_BYTES c = hc_head c + hc_tail c + hc_header c + 4"

section \<open>Memory\<close>

definition mem_fill :: "bmem \<Rightarrow> addr \<Rightarrow> u8 \<Rightarrow> nat \<Rightarrow> bmem" where
  "mem_fill m a v n = (\<lambda>x. if a \<le> x \<and> x < a + n then v else m x)"

definition mem_write :: "bmem \<Rightarrow> addr \<Rightarrow> u8 list \<Rightarrow> bmem" where
  "mem_write m a bs = (\<lambda>x. if a \<le> x \<and> x < a + length bs then bs ! (x - a) else m x)"

text \<open>A 32-bit value in memory, least significant byte first.\<close>

definition store32 :: "bmem \<Rightarrow> addr \<Rightarrow> u32 \<Rightarrow> bmem" where
  "store32 m a w = mem_write m a [ucast w, ucast (drop_bit 8 w), ucast (drop_bit 16 w), ucast (drop_bit 24 w)]"

definition load32 :: "bmem \<Rightarrow> addr \<Rightarrow> u32" where
  "load32 m a = ucast (m a) OR push_bit 8 (ucast (m (a + 1))) OR push_bit 16 (ucast (m (a + 2))) OR push_bit 24 (ucast (m (a + 3)))"

section \<open>The instance\<close>

definition qoraal_print :: "u8 list \<Rightarrow> 'p heap_state \<Rightarrow> 'p heap_state" where
  "qoraal_print msg s =
     (case hp_instance s of None \<Rightarrow> s
      | Some i \<Rightarrow> if cfg_print i then s\<lparr>hp_prints := hp_prints s @ [msg]\<rparr> else s)"

definition qoraal_debug_assert :: "u8 list \<Rightarrow> 'p heap_state \<Rightarrow> 'p heap_state" where
  "qoraal_debug_assert msg s =
     (case hp_instance s of None \<Rightarrow> s
      | Some i \<Rightarrow> if cfg_debug_assert i then s\<lparr>hp_asserts := hp_asserts s @ [msg]\<rparr> else s)"

text \<open>\<open>debug_assert\<close> and \<open>debug_printf\<close> get the formatted text; a buffer of 128 bytes cuts it.\<close>

definition DEBUG_MSG_SIZE :: nat where "DEBUG_MSG_SIZE = 128"

definition debug_assert :: "u8 list \<Rightarrow> 'p heap_state \<Rightarrow> 'p heap_state" where
  "debug_assert msg s = qoraal_debug_assert (take (DEBUG_MSG_SIZE - 1) msg) s"

text \<open>\<open>%5d\<close> of a 32-bit counter: a signed number in at least five columns.\<close>

definition format_d5 :: "u32 \<Rightarrow> u8 list" where
  "format_d5 w = (let d = (if sint w < 0 then [0x2D] else []) @ dec_digits 1 (nat \<bar>sint w\<bar>) in replicate (5 - length d) 0x20 @ d)"

text \<open>A message whose first byte is its end is one without a first byte.\<close>

definition qoraal_debug_print :: "u8 list \<Rightarrow> 'p heap_state \<Rightarrow> 'p heap_state" where
  "qoraal_debug_print msg s =
     (case hp_instance s of None \<Rightarrow> s
      | Some i \<Rightarrow> if cfg_print i
          then qoraal_print msg (if msg \<noteq> [] \<and> (hd msg = 13 \<or> hd msg = 10) then s
                 else qoraal_print (take 31 ([0x5B] @ format_d5 (hp_total s) @ [0x5D, 0x20])) s)
          else s)"

definition debug_printf :: "u8 list \<Rightarrow> 'p heap_state \<Rightarrow> int \<times> 'p heap_state" where
  "debug_printf msg s = (int (length msg), qoraal_debug_print (take (DEBUG_MSG_SIZE - 1) msg) s)"

definition qoraal_instance_init :: "'p QORAAL_CFG_T \<Rightarrow> 'p heap_state \<Rightarrow> int \<times> 'p heap_state" where
  "qoraal_instance_init inst s =
     (if hp_instance s = None then
        (let s = s\<lparr>hp_instance := Some inst\<rparr>;
             s = (if cfg_malloc inst = None then qoraal_debug_assert (bytes ''qoraal malloc required'') s else s);
             s = (if cfg_free inst = None then qoraal_debug_assert (bytes ''qoraal free required'') s else s)
         in (EOK, s))
      else (EOK, s))"

section \<open>The checked heap\<close>

text \<open>\<open>snprintf (pmem, DEBUG_HEADER, "%u:%s", line, name)\<close>.\<close>

definition debug_header :: "heap_build \<Rightarrow> u8 list option \<Rightarrow> u32 \<Rightarrow> addr \<Rightarrow> bmem \<Rightarrow> bmem" where
  "debug_header c name line p m =
     (case name of None \<Rightarrow> m
      | Some nm \<Rightarrow> if hc_header c \<noteq> 0
          then mem_write m p (take (hc_header c - 1) (dec_digits 1 (unat line) @ [0x3A] @ nm) @ [0]) else m)"

definition heap_add_check :: "heap_build \<Rightarrow> addr \<Rightarrow> u32 \<Rightarrow> u8 list option \<Rightarrow> u32 \<Rightarrow> 'p heap_state \<Rightarrow> addr \<times> 'p heap_state" where
  "heap_add_check c mem n name line s =
     (if mem = NULL then (mem, s)
      else
        (let s = s\<lparr>hp_mem := store32 (hp_mem s) mem n, hp_total := hp_total s + n\<rparr>;
             pmem = mem + 4
         in if hc_head c + hc_header c + hc_tail c = 0 then (pmem, s)
            else
              (let m = debug_header c name line pmem (hp_mem s);
                   pmem = pmem + hc_header c;
                   m = mem_fill m pmem DEBUG_HEAD_FILL (hc_head c);
                   pmem = pmem + hc_head c;
                   m = mem_fill m (pmem + unat n) DEBUG_TAIL_FILL (hc_tail c)
               in (pmem, s\<lparr>hp_mem := m\<rparr>))))"

text \<open>One \<open>DBG_ASSERT_T\<close> for each byte of a guard.\<close>

definition check_fill :: "addr \<Rightarrow> nat \<Rightarrow> u8 \<Rightarrow> u8 list \<Rightarrow> 'p heap_state \<Rightarrow> 'p heap_state" where
  "check_fill p n v msg s = fold (\<lambda>i s. if hp_mem s (p + i) = v then s else debug_assert msg s) [0..<n] s"

definition heap_do_check :: "heap_build \<Rightarrow> addr \<Rightarrow> bool \<Rightarrow> u8 list option \<Rightarrow> u32 \<Rightarrow> 'p heap_state \<Rightarrow> addr \<times> 'p heap_state" where
  "heap_do_check c mem clear name line s =
     (if mem = NULL then (NULL, s)
      else
        (let pmem = mem - (hc_head c + hc_header c + 4);
             n = load32 (hp_mem s) pmem;
             pmem = pmem + 4;
             s = s\<lparr>hp_total := hp_total s - n\<rparr>;
             s = (if hc_head c + hc_header c + hc_tail c = 0 then s
                  else
                    (let s = (if clear then s\<lparr>hp_mem := debug_header c name line pmem (mem_fill (hp_mem s) mem DEBUG_CLEAR_FILL (unat n))\<rparr> else s);
                         pmem = pmem + hc_header c;
                         s = check_fill pmem (hc_head c) DEBUG_HEAD_FILL (bytes ''heap_do_check : buffer underrun'') s;
                         pmem = pmem + hc_head c + unat n
                     in check_fill pmem (hc_tail c) DEBUG_TAIL_FILL (bytes ''heap_do_check : buffer overrun'') s))
         in (mem - (hc_head c + hc_header c + 4), s)))"

definition qoraal_malloc :: "heap_build \<Rightarrow> QORAAL_HEAP \<Rightarrow> u64 \<Rightarrow> 'p heap_state \<Rightarrow> (addr \<times> 'p heap_state) option" where
  "qoraal_malloc c heap n s =
     (case hp_instance s of None \<Rightarrow> Some (NULL, s)
      | Some i \<Rightarrow>
          (case cfg_malloc i of None \<Rightarrow> None
           | Some f \<Rightarrow>
               (let (mem, w, m) = f heap (n + of_nat (DEBUG_BYTES c)) (hp_plat s, hp_mem s);
                    s = s\<lparr>hp_plat := w, hp_mem := m\<rparr>
                in Some (if mem = NULL then (NULL, s) else heap_add_check c mem (ucast n) None 0 s))))"

definition qoraal_free :: "heap_build \<Rightarrow> QORAAL_HEAP \<Rightarrow> addr \<Rightarrow> 'p heap_state \<Rightarrow> 'p heap_state option" where
  "qoraal_free c heap mem s =
     (case hp_instance s of None \<Rightarrow> Some s
      | Some i \<Rightarrow>
          if mem = NULL then Some s
          else
            (let (mem, s) = heap_do_check c mem True None 0 s
             in case cfg_free i of None \<Rightarrow> None
                | Some f \<Rightarrow> (let (w, m) = f heap mem (hp_plat s, hp_mem s) in Some (s\<lparr>hp_plat := w, hp_mem := m\<rparr>))))"

section \<open>Loads and stores\<close>

lemma mem_fill_at [simp]: "mem_fill m a v n x = (if a \<le> x \<and> x < a + n then v else m x)"
  by (simp add: mem_fill_def)

lemma mem_fill_none [simp]: "mem_fill m a v 0 = m"
  by (rule ext) auto

lemma mem_write_at: "mem_write m a bs x = (if a \<le> x \<and> x < a + length bs then bs ! (x - a) else m x)"
  by (simp add: mem_write_def)

lemma word_of_bytes:
  fixes w :: u32
  shows "ucast (ucast w :: u8) OR push_bit 8 (ucast (ucast (drop_bit 8 w) :: u8)) OR push_bit 16 (ucast (ucast (drop_bit 16 w) :: u8))
     OR push_bit 24 (ucast (ucast (drop_bit 24 w) :: u8)) = w" (is "?v = w")
proof (rule bit_word_eqI)
  fix n assume n: "n < LENGTH(32)"
  consider "n < 8" | "8 \<le> n" "n < 16" | "16 \<le> n" "n < 24" | "24 \<le> n" by linarith
  then show "bit ?v n = bit w n" using n by cases (auto simp add: bit_simps)
qed

lemma store32_at: "store32 m a w a = ucast w" "store32 m a w (a + 1) = ucast (drop_bit 8 w)"
  "store32 m a w (a + 2) = ucast (drop_bit 16 w)" "store32 m a w (a + 3) = ucast (drop_bit 24 w)"
  by (simp_all add: store32_def mem_write_def eval_nat_numeral)

lemma load_store [simp]: "load32 (store32 m a w) a = w"
  by (simp only: load32_def store32_at word_of_bytes)

lemma store32_other: "x < a \<or> a + 4 \<le> x \<Longrightarrow> store32 m a w x = m x"
  by (auto simp: store32_def mem_write_at)

lemma load32_cong: "(\<And>i. i < 4 \<Longrightarrow> m (a + i) = m' (a + i)) \<Longrightarrow> load32 m a = load32 m' a"
proof -
  assume h: "\<And>i. i < 4 \<Longrightarrow> m (a + i) = m' (a + i)"
  show ?thesis using h [of 0] h [of 1] h [of 2] h [of 3] by (simp add: load32_def)
qed

section \<open>The guards of one block\<close>

text \<open>The distance of the user's pointer from the block of the platform.\<close>

definition block_off :: "heap_build \<Rightarrow> nat" where
  "block_off c = hc_head c + hc_header c + 4"

definition intact :: "heap_build \<Rightarrow> bmem \<Rightarrow> addr \<Rightarrow> u32 \<Rightarrow> bool" where
  "intact c m p n \<longleftrightarrow> load32 m (p - block_off c) = n \<and> (\<forall>j < hc_head c. m (p - hc_head c + j) = DEBUG_HEAD_FILL) \<and>
     (\<forall>j < hc_tail c. m (p + unat n + j) = DEBUG_TAIL_FILL)"

definition broken :: "bmem \<Rightarrow> addr \<Rightarrow> nat \<Rightarrow> u8 \<Rightarrow> nat" where
  "broken m p n v = length (filter (\<lambda>j. m (p + j) \<noteq> v) [0..<n])"

definition assert_calls :: "'p heap_state \<Rightarrow> nat \<Rightarrow> u8 list \<Rightarrow> u8 list list" where
  "assert_calls s n msg =
     (case hp_instance s of None \<Rightarrow> [] | Some i \<Rightarrow> if cfg_debug_assert i then replicate n (take (DEBUG_MSG_SIZE - 1) msg) else [])"

lemma debug_assert_eq: "debug_assert msg s = s\<lparr>hp_asserts := hp_asserts s @ assert_calls s 1 msg\<rparr>"
  by (simp add: debug_assert_def qoraal_debug_assert_def assert_calls_def split: option.splits)

lemma check_fill_eq: "check_fill p n v msg s = s\<lparr>hp_asserts := hp_asserts s @ assert_calls s (broken (hp_mem s) p n v) msg\<rparr>"
proof (induction n)
  case 0
  show ?case by (simp add: check_fill_def broken_def assert_calls_def split: option.split)
next
  case (Suc n)
  have "check_fill p (Suc n) v msg s = (\<lambda>s'. if hp_mem s' (p + n) = v then s' else debug_assert msg s') (check_fill p n v msg s)"
    by (simp add: check_fill_def)
  then show ?case unfolding Suc
    by (auto simp: debug_assert_eq broken_def assert_calls_def replicate_append_same split: option.split)
qed

lemma broken_none: "(\<And>j. j < n \<Longrightarrow> m (p + j) = v) \<Longrightarrow> broken m p n v = 0"
  by (simp add: broken_def filter_empty_conv)

lemma assert_calls_none [simp]: "assert_calls s 0 msg = []"
  by (simp add: assert_calls_def split: option.split)

lemma heap_add_check_block:
  assumes "heap_add_check c mem n None line s = (p, s')" "mem \<noteq> NULL"
  shows "p = mem + block_off c" "\<exists>m. s' = s\<lparr>hp_mem := m, hp_total := hp_total s + n\<rparr> \<and> intact c m p n \<and>
    (\<forall>x. x < mem \<or> mem + unat n + DEBUG_BYTES c \<le> x \<longrightarrow> m x = hp_mem s x)"
proof -
  let ?m = "store32 (hp_mem s) mem n"
  let ?h = "mem_fill ?m (mem + 4 + hc_header c) DEBUG_HEAD_FILL (hc_head c)"
  let ?t = "mem_fill ?h (mem + 4 + hc_header c + hc_head c + unat n) DEBUG_TAIL_FILL (hc_tail c)"
  have "p = mem + 4 + hc_header c + hc_head c \<and> s' = s\<lparr>hp_mem := ?t, hp_total := hp_total s + n\<rparr>"
    using assms by (auto simp: heap_add_check_def Let_def debug_header_def add.assoc split: if_splits)
  then have "p = mem + block_off c" "s' = s\<lparr>hp_mem := ?t, hp_total := hp_total s + n\<rparr>" by (simp_all add: block_off_def)
  moreover have "load32 ?t mem = n"
    using load32_cong [of ?t mem ?m] by simp
  then have "intact c ?t (mem + block_off c) n" unfolding intact_def by (auto simp: block_off_def)
  moreover have "\<forall>x. x < mem \<or> mem + unat n + DEBUG_BYTES c \<le> x \<longrightarrow> ?t x = hp_mem s x"
    by (auto simp: store32_other block_off_def DEBUG_BYTES_def)
  ultimately show "p = mem + block_off c" "\<exists>m. s' = s\<lparr>hp_mem := m, hp_total := hp_total s + n\<rparr> \<and> intact c m p n \<and>
      (\<forall>x. x < mem \<or> mem + unat n + DEBUG_BYTES c \<le> x \<longrightarrow> m x = hp_mem s x)"
    by blast+
qed

text \<open>What \<open>qoraal_free\<close> does to the memory before the platform gets the block.\<close>

definition cleared :: "heap_build \<Rightarrow> addr \<Rightarrow> nat \<Rightarrow> bmem \<Rightarrow> bmem" where
  "cleared c p n m = (if hc_head c + hc_header c + hc_tail c = 0 then m else mem_fill m p DEBUG_CLEAR_FILL n)"

lemma cleared_other: "x < p \<or> p + n \<le> x \<Longrightarrow> cleared c p n m x = m x"
  by (auto simp: cleared_def)

lemma heap_do_check_block:
  assumes "p \<noteq> NULL" "block_off c \<le> p" "n = load32 (hp_mem s) (p - block_off c)"
  shows "heap_do_check c p True None line s = (p - block_off c, s\<lparr>hp_mem := cleared c p (unat n) (hp_mem s), hp_total := hp_total s - n,
    hp_asserts := hp_asserts s @ assert_calls s (broken (hp_mem s) (p - hc_head c) (hc_head c) DEBUG_HEAD_FILL) (bytes ''heap_do_check : buffer underrun'')
      @ assert_calls s (broken (hp_mem s) (p + unat n) (hc_tail c) DEBUG_TAIL_FILL) (bytes ''heap_do_check : buffer overrun'')\<rparr>)"
proof -
  have ptr: "p - block_off c + 4 + hc_header c = p - hc_head c" "p - hc_head c + hc_head c = p"
    using assms(2) by (auto simp: block_off_def)
  have mem: "broken (mem_fill m p v (unat n)) (p - hc_head c) (hc_head c) w = broken m (p - hc_head c) (hc_head c) w"
    "broken (mem_fill m p v (unat n)) (p + unat n) (hc_tail c) w = broken m (p + unat n) (hc_tail c) w" for m v w
    using assms(2) by (auto simp: broken_def block_off_def intro!: arg_cong [of _ _ length] filter_cong)
  show ?thesis
    using assms(1) by (auto simp: heap_do_check_def Let_def check_fill_eq debug_header_def cleared_def assert_calls_def ptr mem broken_none
        simp flip: block_off_def assms(3) split: option.split)
qed

lemma qoraal_malloc_block:
  assumes "qoraal_malloc c h n s = Some (p, s')" "p \<noteq> NULL" "hp_instance s = Some i" "cfg_malloc i = Some f"
  obtains mem w m m' where "f h (n + of_nat (DEBUG_BYTES c)) (hp_plat s, hp_mem s) = (mem, w, m)" "mem \<noteq> NULL" "p = mem + block_off c"
    "s' = s\<lparr>hp_plat := w, hp_mem := m', hp_total := hp_total s + ucast n\<rparr>" "intact c m' p (ucast n)"
    "\<And>x. x < mem \<or> mem + unat (ucast n :: u32) + DEBUG_BYTES c \<le> x \<Longrightarrow> m' x = m x"
proof -
  obtain mem w m where f: "f h (n + of_nat (DEBUG_BYTES c)) (hp_plat s, hp_mem s) = (mem, w, m)" by (metis prod_cases3)
  then have mem: "mem \<noteq> NULL" "heap_add_check c mem (ucast n) None 0 (s\<lparr>hp_plat := w, hp_mem := m\<rparr>) = (p, s')"
    using assms by (auto simp: qoraal_malloc_def Let_def split: if_splits)
  from heap_add_check_block [OF mem(2,1)] obtain m' where "p = mem + block_off c"
      "s' = s\<lparr>hp_plat := w, hp_mem := m', hp_total := hp_total s + ucast n\<rparr>" "intact c m' p (ucast n)"
      "\<And>x. x < mem \<or> mem + unat (ucast n :: u32) + DEBUG_BYTES c \<le> x \<Longrightarrow> m' x = m x"
    by auto
  then show thesis using that f mem(1) by blast
qed

text \<open>
  C33: What the checked heap reports: a block is allocated, then the memory changes in any way that leaves the size in
  front of the block, and the block is freed. The free calls the assertion of the platform once for every byte in which
  a guard differs from its pattern, first those in front of the block, then those behind it, and never for another
  reason; it hands the platform the very pointer its allocator returned and takes the size from the total again.
\<close>

theorem heap_free_reports:
  assumes "qoraal_malloc c h n s = Some (p, s1)" "p \<noteq> NULL" "hp_instance s = Some i" "cfg_malloc i = Some f" "cfg_free i = Some g"
    and same: "load32 m (p - block_off c) = load32 (hp_mem s1) (p - block_off c)"
  shows "\<exists>base w k w' k'. f h (n + of_nat (DEBUG_BYTES c)) (hp_plat s, hp_mem s) = (base, w, k) \<and> hp_plat s1 = w \<and>
    g h base (w, cleared c p (unat (ucast n :: u32)) m) = (w', k') \<and>
    qoraal_free c h p (s1\<lparr>hp_mem := m\<rparr>) = Some (s\<lparr>hp_mem := k', hp_plat := w', hp_asserts := hp_asserts s
      @ assert_calls s (broken m (p - hc_head c) (hc_head c) DEBUG_HEAD_FILL) (bytes ''heap_do_check : buffer underrun'')
      @ assert_calls s (broken m (p + unat (ucast n :: u32)) (hc_tail c) DEBUG_TAIL_FILL) (bytes ''heap_do_check : buffer overrun'')\<rparr>)"
proof -
  obtain mem w k m' where b: "f h (n + of_nat (DEBUG_BYTES c)) (hp_plat s, hp_mem s) = (mem, w, k)" "mem \<noteq> NULL" "p = mem + block_off c"
    "s1 = s\<lparr>hp_plat := w, hp_mem := m', hp_total := hp_total s + ucast n\<rparr>" "intact c m' p (ucast n)"
    using qoraal_malloc_block [OF assms(1-4)] by metis
  have "load32 m (p - block_off c) = ucast n" using same b(4,5) by (simp add: intact_def)
  then have chk: "heap_do_check c p True None 0 (s1\<lparr>hp_mem := m\<rparr>) = (mem, s\<lparr>hp_plat := w, hp_mem := cleared c p (unat (ucast n :: u32)) m,
      hp_asserts := hp_asserts s @ assert_calls s (broken m (p - hc_head c) (hc_head c) DEBUG_HEAD_FILL) (bytes ''heap_do_check : buffer underrun'')
      @ assert_calls s (broken m (p + unat (ucast n :: u32)) (hc_tail c) DEBUG_TAIL_FILL) (bytes ''heap_do_check : buffer overrun'')\<rparr>)"
    using heap_do_check_block [of p c "ucast n" "s1\<lparr>hp_mem := m\<rparr>"] assms(2) b(3,4) by (simp add: assert_calls_def)
  obtain w' k' where "g h mem (w, cleared c p (unat (ucast n :: u32)) m) = (w', k')" by fastforce
  then show ?thesis using b(1,4) assms(2,3,5) chk by (simp add: qoraal_free_def)
qed

section \<open>Runs of the heap\<close>

text \<open>
  What the heap relies on in the platform: its state stands for a set of blocks, address and size; an allocation fails or
  returns a block apart from all others, a release removes one, and both leave the bytes of the other blocks as they are.
\<close>

definition apart :: "addr \<times> nat \<Rightarrow> addr \<times> nat \<Rightarrow> bool" where
  "apart x y \<longleftrightarrow> fst x + snd x \<le> fst y \<or> fst y + snd y \<le> fst x"

definition disjoint_blocks :: "(addr \<times> nat) set \<Rightarrow> bool" where
  "disjoint_blocks S \<longleftrightarrow> (\<forall>x\<in>S. \<forall>y\<in>S. x = y \<or> apart x y)"

definition keeps :: "(addr \<times> nat) set \<Rightarrow> bmem \<Rightarrow> bmem \<Rightarrow> bool" where
  "keeps S m m' \<longleftrightarrow> (\<forall>x\<in>S. \<forall>a. fst x \<le> a \<and> a < fst x + snd x \<longrightarrow> m' a = m a)"

definition allocator_ok :: "('p \<Rightarrow> (addr \<times> nat) set) \<Rightarrow> 'p QORAAL_CFG_T \<Rightarrow> bool" where
  "allocator_ok B i \<longleftrightarrow> (\<exists>f g. cfg_malloc i = Some f \<and> cfg_free i = Some g \<and>
     (\<forall>h n w m b w' m'. f h n (w, m) = (b, w', m') \<longrightarrow> keeps (B w) m m' \<and>
        (if b = NULL then B w' = B w else (\<forall>x\<in>B w. apart (b, unat n) x) \<and> B w' = insert (b, unat n) (B w))) \<and>
     (\<forall>h w m a n w' m'. (a, n) \<in> B w \<longrightarrow> g h a (w, m) = (w', m') \<longrightarrow> B w' = B w - {(a, n)} \<and> keeps (B w - {(a, n)}) m m'))"

text \<open>
  The abstract heap: the live blocks, each with its bytes. A client allocates, writes inside its blocks, and frees what
  it got. A size that does not leave room for the guards in 32 bits is not asked for.
\<close>

inductive heap_run :: "heap_build \<Rightarrow> ('p \<Rightarrow> (addr \<times> nat) set) \<Rightarrow> 'p QORAAL_CFG_T \<Rightarrow> (addr \<rightharpoonup> u8 list) \<Rightarrow> 'p heap_state \<Rightarrow> bool"
  for c B i where
  heap_start: "hp_instance s = Some i \<Longrightarrow> hp_asserts s = [] \<Longrightarrow> hp_total s = 0 \<Longrightarrow> disjoint_blocks (B (hp_plat s))
    \<Longrightarrow> heap_run c B i Map.empty s"
| heap_malloc: "heap_run c B i live s \<Longrightarrow> unat n + DEBUG_BYTES c < 4294967296 \<Longrightarrow> qoraal_malloc c h n s = Some (p, s')
    \<Longrightarrow> heap_run c B i (if p = NULL then live else live(p \<mapsto> map (\<lambda>j. hp_mem s' (p + j)) [0..<unat n])) s'"
| heap_store: "heap_run c B i live s \<Longrightarrow> live p = Some bs \<Longrightarrow> j < length bs
    \<Longrightarrow> heap_run c B i (live(p \<mapsto> bs[j := v])) (s\<lparr>hp_mem := (hp_mem s)(p + j := v)\<rparr>)"
| heap_free: "heap_run c B i live s \<Longrightarrow> p \<in> dom live \<Longrightarrow> qoraal_free c h p s = Some s' \<Longrightarrow> heap_run c B i (live(p := None)) s'"

definition block_ok :: "heap_build \<Rightarrow> bmem \<Rightarrow> addr \<Rightarrow> u8 list \<Rightarrow> bool" where
  "block_ok c m p bs \<longleftrightarrow> intact c m p (of_nat (length bs)) \<and> (\<forall>j < length bs. m (p + j) = bs ! j)"

definition block_of :: "heap_build \<Rightarrow> addr \<Rightarrow> u8 list \<Rightarrow> addr \<times> nat" where
  "block_of c p bs = (p - block_off c, length bs + DEBUG_BYTES c)"

definition heap_inv :: "heap_build \<Rightarrow> ('p \<Rightarrow> (addr \<times> nat) set) \<Rightarrow> 'p QORAAL_CFG_T \<Rightarrow> (addr \<rightharpoonup> u8 list) \<Rightarrow> 'p heap_state \<Rightarrow> bool" where
  "heap_inv c B i live s \<longleftrightarrow> hp_instance s = Some i \<and> hp_asserts s = [] \<and> finite (dom live) \<and>
     hp_total s = (\<Sum>p\<in>dom live. of_nat (length (the (live p)))) \<and> disjoint_blocks (B (hp_plat s)) \<and>
     (\<forall>p bs. live p = Some bs \<longrightarrow> length bs + DEBUG_BYTES c < 4294967296 \<and> block_off c < p \<and> block_of c p bs \<in> B (hp_plat s) \<and>
        block_ok c (hp_mem s) p bs)"

lemma block_ok_cong:
  assumes "block_off c \<le> p" "length bs < 4294967296"
    and "\<And>x. fst (block_of c p bs) \<le> x \<Longrightarrow> x < fst (block_of c p bs) + snd (block_of c p bs) \<Longrightarrow> m' x = m x"
  shows "block_ok c m' p bs \<longleftrightarrow> block_ok c m p bs"
proof -
  have n: "unat (of_nat (length bs) :: u32) = length bs" using assms(2) by (simp add: unat_u32_of_nat)
  have "load32 m' (p - block_off c) = load32 m (p - block_off c)"
    by (rule load32_cong) (auto simp: block_of_def DEBUG_BYTES_def intro!: assms(3))
  moreover have "m' (p - hc_head c + j) = m (p - hc_head c + j)" if "j < hc_head c" for j
    using that assms(1) by (intro assms(3)) (auto simp: block_of_def DEBUG_BYTES_def block_off_def)
  moreover have "m' (p + length bs + j) = m (p + length bs + j)" if "j < hc_tail c" for j
    using that assms(1) by (intro assms(3)) (auto simp: block_of_def DEBUG_BYTES_def block_off_def)
  moreover have "m' (p + j) = m (p + j)" if "j < length bs" for j
    using that assms(1) by (intro assms(3)) (auto simp: block_of_def DEBUG_BYTES_def block_off_def)
  ultimately show ?thesis by (auto simp: block_ok_def intact_def n)
qed

lemma block_ok_keeps:
  assumes "keeps S m m'" "block_of c p bs \<in> S" "block_off c \<le> p" "length bs < 4294967296"
  shows "block_ok c m' p bs \<longleftrightarrow> block_ok c m p bs"
  by (rule block_ok_cong) (use assms in \<open>auto simp: keeps_def\<close>)

lemma heap_inv_block:
  assumes "heap_inv c B i live s" "live p = Some bs"
  shows "length bs + DEBUG_BYTES c < 4294967296" "block_off c < p" "block_of c p bs \<in> B (hp_plat s)" "block_ok c (hp_mem s) p bs"
    "length bs < 4294967296" "unat (of_nat (length bs) :: u32) = length bs"
proof -
  show "length bs + DEBUG_BYTES c < 4294967296" "block_off c < p" "block_of c p bs \<in> B (hp_plat s)" "block_ok c (hp_mem s) p bs"
    using assms by (auto simp: heap_inv_def)
  then show "length bs < 4294967296" by simp
  then show "unat (of_nat (length bs) :: u32) = length bs" by (rule unat_u32_of_nat)
qed

lemma heap_inv_apart:
  assumes "heap_inv c B i live s" "live p = Some bs" "live q = Some cs" "p \<noteq> q"
  shows "apart (block_of c p bs) (block_of c q cs)"
proof -
  note b = heap_inv_block [OF assms(1,2)] and d = heap_inv_block [OF assms(1,3)]
  have "block_of c p bs \<noteq> block_of c q cs" using assms(4) b(2) d(2) by (auto simp: block_of_def)
  then show ?thesis using b(3) d(3) assms(1) by (auto simp: heap_inv_def disjoint_blocks_def)
qed

text \<open>An allocation of the platform, whether the caller got a block or not, leaves the live blocks alone.\<close>

lemma heap_inv_platform:
  assumes "heap_inv c B i live s" "keeps (B (hp_plat s)) (hp_mem s) m" "B (hp_plat s) \<subseteq> B w" "disjoint_blocks (B w)"
  shows "heap_inv c B i live (s\<lparr>hp_plat := w, hp_mem := m\<rparr>)"
proof -
  have "block_ok c m p bs" if p: "live p = Some bs" for p bs
  proof -
    note b = heap_inv_block [OF assms(1) p]
    then show ?thesis using block_ok_keeps [OF assms(2) b(3)] by simp
  qed
  then show ?thesis using assms by (fastforce simp: heap_inv_def)
qed

lemma heap_inv_insert:
  assumes inv: "heap_inv c B i live s" and new: "live p = None"
    and "length bs + DEBUG_BYTES c < 4294967296" "block_off c < p" "block_of c p bs \<in> B (hp_plat s)" "block_ok c (hp_mem s) p bs"
  shows "heap_inv c B i (live(p \<mapsto> bs)) (s\<lparr>hp_total := hp_total s + of_nat (length bs)\<rparr>)"
proof -
  have "finite (dom live)" "p \<notin> dom live" using inv new by (auto simp: heap_inv_def)
  moreover have "(\<Sum>q\<in>dom live. of_nat (length (the ((live(p \<mapsto> bs)) q)))) = (\<Sum>q\<in>dom live. of_nat (length (the (live q))) :: u32)"
    by (rule sum.cong) (use new in auto)
  ultimately have "(\<Sum>q\<in>dom (live(p \<mapsto> bs)). of_nat (length (the ((live(p \<mapsto> bs)) q)))) = of_nat (length bs) + hp_total s"
    using inv by (simp add: heap_inv_def)
  then show ?thesis using assms unfolding heap_inv_def by (simp add: add.commute)
qed

lemma heap_inv_malloc:
  assumes al: "allocator_ok B i" and inv: "heap_inv c B i live s" and n: "unat n + DEBUG_BYTES c < 4294967296"
    and ma: "qoraal_malloc c h n s = Some (p, s')"
  shows "heap_inv c B i (if p = NULL then live else live(p \<mapsto> map (\<lambda>j. hp_mem s' (p + j)) [0..<unat n])) s'"
proof -
  let ?bs = "map (\<lambda>j. hp_mem s' (p + j)) [0..<unat n]"
  have i: "hp_instance s = Some i" using inv by (simp add: heap_inv_def)
  have un: "unat (n + of_nat (DEBUG_BYTES c)) = unat n + DEBUG_BYTES c" "unat (ucast n :: u32) = unat n"
    using n by (simp_all add: unat_word_ariths unat_of_nat unsigned_ucast_eq take_bit_eq_mod)
  obtain f where f: "cfg_malloc i = Some f" and al': "\<And>h n w m b w' m'. f h n (w, m) = (b, w', m') \<Longrightarrow> keeps (B w) m m' \<and>
        (if b = NULL then B w' = B w else (\<forall>x\<in>B w. apart (b, unat n) x) \<and> B w' = insert (b, unat n) (B w))"
    using al unfolding allocator_ok_def by blast
  show ?thesis
  proof (cases "p = NULL")
    case True
    obtain mem w m where r: "f h (n + of_nat (DEBUG_BYTES c)) (hp_plat s, hp_mem s) = (mem, w, m)" by (metis prod_cases3)
    have "mem = NULL"
      using ma i f r True heap_add_check_block(1) [of c mem "ucast n" 0 "s\<lparr>hp_plat := w, hp_mem := m\<rparr>" NULL s']
      by (auto simp: qoraal_malloc_def Let_def block_off_def split: if_splits)
    then have "s' = s\<lparr>hp_plat := w, hp_mem := m\<rparr>" "keeps (B (hp_plat s)) (hp_mem s) m" "B w = B (hp_plat s)"
      using ma i f r al' [OF r] by (auto simp: qoraal_malloc_def Let_def)
    moreover have "disjoint_blocks (B (hp_plat s))" using inv by (simp add: heap_inv_def)
    ultimately show ?thesis using heap_inv_platform [OF inv, of m w] True by simp
  next
    case False
    obtain mem w m m' where r: "f h (n + of_nat (DEBUG_BYTES c)) (hp_plat s, hp_mem s) = (mem, w, m)" "mem \<noteq> NULL" "p = mem + block_off c"
      "s' = s\<lparr>hp_plat := w, hp_mem := m', hp_total := hp_total s + ucast n\<rparr>" "intact c m' p (ucast n)"
      "\<And>x. x < mem \<or> mem + unat n + DEBUG_BYTES c \<le> x \<Longrightarrow> m' x = m x"
      using qoraal_malloc_block [OF ma False i f] unfolding un by metis
    have B: "keeps (B (hp_plat s)) (hp_mem s) m" "\<forall>x\<in>B (hp_plat s). apart (block_of c p ?bs) x" "B w = insert (block_of c p ?bs) (B (hp_plat s))"
      using al' [OF r(1)] r(2,3) by (auto simp: un block_of_def)
    have k: "keeps (B (hp_plat s)) (hp_mem s) m'"
      using B(1,2) r(3,6) by (fastforce simp: keeps_def apart_def block_of_def)
    have dis: "disjoint_blocks (B w)"
      using inv B(2,3) by (auto simp: heap_inv_def disjoint_blocks_def apart_def)
    have new: "live p = None"
    proof (rule ccontr)
      assume "live p \<noteq> None"
      then obtain cs where "live p = Some cs" by auto
      from heap_inv_block(3) [OF inv this] B(2) show False by (fastforce simp: apart_def block_of_def DEBUG_BYTES_def)
    qed
    have nn: "(of_nat (unat n) :: u32) = ucast n" by (simp flip: un(2))
    then have ok: "block_ok c m' p ?bs" using r(4,5) by (simp add: block_ok_def)
    have "heap_inv c B i live (s\<lparr>hp_plat := w, hp_mem := m'\<rparr>)" using heap_inv_platform [OF inv k _ dis] B(3) by blast
    from heap_inv_insert [OF this new, of ?bs] have "heap_inv c B i (live(p \<mapsto> ?bs)) (s\<lparr>hp_plat := w, hp_mem := m',
        hp_total := hp_total s + of_nat (unat n)\<rparr>)"
      using n ok B(3) r(2,3) by (simp add: add.commute)
    then show ?thesis using False nn r(4) by simp
  qed
qed

lemma heap_inv_store:
  assumes inv: "heap_inv c B i live s" and p: "live p = Some bs" and j: "j < length bs"
  shows "heap_inv c B i (live(p \<mapsto> bs[j := v])) (s\<lparr>hp_mem := (hp_mem s)(p + j := v)\<rparr>)"
proof -
  let ?m = "(hp_mem s)(p + j := v)"
  note b = heap_inv_block [OF inv p]
  have inside: "fst (block_of c p bs) \<le> p + j" "p + j < fst (block_of c p bs) + snd (block_of c p bs)"
    using j by (auto simp: block_of_def DEBUG_BYTES_def block_off_def)
  have other: "block_ok c ?m q cs" if q: "live q = Some cs" "q \<noteq> p" for q cs
  proof -
    note d = heap_inv_block [OF inv q(1)]
    have "apart (block_of c q cs) (block_of c p bs)" using heap_inv_apart [OF inv q(1) p q(2)] .
    then show ?thesis using inside block_ok_cong [of c q cs ?m "hp_mem s"] d(2,4,5) by (auto simp: apart_def)
  qed
  have "intact c ?m p (of_nat (length bs))"
  proof -
    have off: "p - block_off c + k \<noteq> p + j" if "k < 4" for k using that b(2) by (auto simp: block_off_def)
    have "load32 ?m (p - block_off c) = load32 (hp_mem s) (p - block_off c)" by (rule load32_cong) (simp add: off)
    then show ?thesis using b(2,4,6) j unfolding block_ok_def intact_def by (auto simp: block_off_def)
  qed
  then have "block_ok c ?m p (bs[j := v])" using b(4) by (auto simp: block_ok_def nth_list_update)
  moreover have "(\<Sum>q\<in>dom live. of_nat (length (the ((live(p \<mapsto> bs[j := v])) q)))) = (\<Sum>q\<in>dom live. of_nat (length (the (live q))) :: u32)"
    by (rule sum.cong) (auto simp: p)
  moreover have "insert p (dom live) = dom live" using p by auto
  ultimately show ?thesis using inv b(1-3) other by (auto simp: heap_inv_def block_of_def)
qed

lemma heap_inv_free:
  assumes al: "allocator_ok B i" and inv: "heap_inv c B i live s" and p: "live p = Some bs"
  obtains s' where "qoraal_free c h p s = Some s'" "heap_inv c B i (live(p := None)) s'"
proof -
  have i: "hp_instance s = Some i" using inv by (simp add: heap_inv_def)
  note b = heap_inv_block [OF inv p]
  obtain g where g: "cfg_free i = Some g" and al': "\<And>h w m a n w' m'. (a, n) \<in> B w \<Longrightarrow> g h a (w, m) = (w', m') \<Longrightarrow>
      B w' = B w - {(a, n)} \<and> keeps (B w - {(a, n)}) m m'"
    using al unfolding allocator_ok_def by blast
  let ?m = "cleared c p (length bs) (hp_mem s)"
  obtain w m where r: "g h (p - block_off c) (hp_plat s, ?m) = (w, m)" by fastforce
  let ?s = "s\<lparr>hp_mem := m, hp_plat := w, hp_total := hp_total s - of_nat (length bs)\<rparr>"
  have "broken (hp_mem s) (p - hc_head c) (hc_head c) DEBUG_HEAD_FILL = 0" "broken (hp_mem s) (p + length bs) (hc_tail c) DEBUG_TAIL_FILL = 0"
    "of_nat (length bs) = load32 (hp_mem s) (p - block_off c)"
    using b(4,6) by (auto simp: block_ok_def intact_def intro!: broken_none)
  then have free: "qoraal_free c h p s = Some ?s"
    using heap_do_check_block [of p c "of_nat (length bs)" s 0] b(2,6) i g r by (simp add: qoraal_free_def)
  have B: "B w = B (hp_plat s) - {block_of c p bs}" "keeps (B (hp_plat s) - {block_of c p bs}) ?m m"
    using al' [OF _ r] b(3) unfolding block_of_def by blast+
  have other: "block_of c q cs \<in> B w \<and> block_ok c m q cs" if q: "live q = Some cs" "q \<noteq> p" for q cs
  proof -
    note d = heap_inv_block [OF inv q(1)]
    have ap: "apart (block_of c q cs) (block_of c p bs)" using heap_inv_apart [OF inv q(1) p q(2)] .
    have "?m x = hp_mem s x" if "fst (block_of c q cs) \<le> x" "x < fst (block_of c q cs) + snd (block_of c q cs)" for x
      by (rule cleared_other) (use that ap b(2) in \<open>unfold apart_def block_of_def DEBUG_BYTES_def block_off_def fst_conv snd_conv, linarith\<close>)
    then have "block_ok c ?m q cs" using block_ok_cong [of c q cs ?m "hp_mem s"] d(2,4,5) by simp
    moreover have "block_of c q cs \<noteq> block_of c p bs" using d(2) b(2) q(2) by (auto simp: block_of_def)
    then have "block_of c q cs \<in> B (hp_plat s) - {block_of c p bs}" using d(3) by blast
    ultimately show ?thesis using block_ok_keeps [OF B(2)] B(1) d(2,5) by simp
  qed
  have fin: "finite (dom live)" using inv by (simp add: heap_inv_def)
  have "(\<Sum>q\<in>dom live - {p}. of_nat (length (the ((live(p := None)) q)))) = (\<Sum>q\<in>dom live - {p}. of_nat (length (the (live q))) :: u32)"
    by (rule sum.cong) auto
  then have "(\<Sum>q\<in>dom live - {p}. of_nat (length (the ((live(p := None)) q)))) = hp_total s - of_nat (length bs)"
    using inv sum.remove [OF fin domI [of live p, OF p], of "\<lambda>q. of_nat (length (the (live q))) :: u32"] p by (simp add: heap_inv_def)
  moreover have "disjoint_blocks (B w)" using inv B(1) by (auto simp: heap_inv_def disjoint_blocks_def)
  moreover have "\<forall>q cs. (live(p := None)) q = Some cs \<longrightarrow> length cs + DEBUG_BYTES c < 4294967296 \<and> block_off c < q \<and>
      block_of c q cs \<in> B w \<and> block_ok c m q cs"
    using other heap_inv_block(1,2) [OF inv] by (metis fun_upd_apply option.distinct(1))
  ultimately have "heap_inv c B i (live(p := None)) ?s"
    using inv fin unfolding heap_inv_def by simp
  then show thesis using that free by blast
qed

lemma heap_run_inv: "heap_run c B i live s \<Longrightarrow> allocator_ok B i \<Longrightarrow> heap_inv c B i live s"
proof (induction rule: heap_run.induct)
  case (heap_start s)
  then show ?case by (simp add: heap_inv_def)
next
  case (heap_malloc live s n h p s')
  then show ?case using heap_inv_malloc by blast
next
  case (heap_store live s p bs j v)
  then show ?case using heap_inv_store by blast
next
  case (heap_free live s p h s')
  then show ?case by (metis domD heap_inv_free option.inject)
qed

text \<open>
  C15: The checked heap refines a heap of separate byte arrays: after any run of allocations, stores inside the client's
  blocks and frees of its blocks, no assertion has been called, the total is the sum of the sizes of the live blocks, every
  live block reads as what was last stored in it, and no two of them share a byte. Both operations return.
\<close>

theorem heap_run_refines:
  assumes "allocator_ok B i" "heap_run c B i live s"
  shows "hp_asserts s = [] \<and> hp_total s = (\<Sum>p\<in>dom live. of_nat (length (the (live p)))) \<and>
    (\<forall>p bs j. live p = Some bs \<and> j < length bs \<longrightarrow> hp_mem s (p + j) = bs ! j) \<and>
    (\<forall>p bs q cs. live p = Some bs \<and> live q = Some cs \<and> p \<noteq> q \<longrightarrow> p + length bs \<le> q \<or> q + length cs \<le> p) \<and>
    (\<forall>h n. qoraal_malloc c h n s \<noteq> None) \<and> (\<forall>h p. p \<in> dom live \<longrightarrow> qoraal_free c h p s \<noteq> None)"
proof -
  note inv = heap_run_inv [OF assms(2,1)]
  have "p + length bs \<le> q \<or> q + length cs \<le> p" if "live p = Some bs" "live q = Some cs" "p \<noteq> q" for p bs q cs
    using heap_inv_apart [OF inv that] heap_inv_block(2) [OF inv that(1)] heap_inv_block(2) [OF inv that(2)]
    by (auto simp: apart_def block_of_def DEBUG_BYTES_def block_off_def)
  moreover have "qoraal_malloc c h n s \<noteq> None" for h n
    using assms(1) inv by (auto simp: allocator_ok_def heap_inv_def qoraal_malloc_def Let_def split: option.splits prod.splits)
  moreover have "qoraal_free c h p s \<noteq> None" if "p \<in> dom live" for h p
    using that heap_inv_free [OF assms(1) inv] by blast
  ultimately show ?thesis using inv by (auto simp: heap_inv_def block_ok_def)
qed

section \<open>A platform\<close>

text \<open>A platform with an endless memory: it keeps a list of its blocks and puts a new one behind all of them.\<close>

definition demo_top :: "(addr \<times> nat) list \<Rightarrow> addr" where
  "demo_top w = foldr (\<lambda>x t. max (fst x + snd x + 1) t) w 64"

definition demo_blocks :: "(addr \<times> nat) list \<Rightarrow> (addr \<times> nat) set" where
  "demo_blocks w = {(a, n). map_of w a = Some n}"

definition demo_platform :: "(addr \<times> nat) list QORAAL_CFG_T" where
  "demo_platform = \<lparr>cfg_malloc = Some (\<lambda>h n (w, m). (demo_top w, (demo_top w, unat n) # w, m)),
     cfg_free = Some (\<lambda>h a (w, m). (filter (\<lambda>x. fst x \<noteq> a) w, m)), cfg_print = True, cfg_debug_assert = True\<rparr>"

definition demo_heap :: "(addr \<times> nat) list heap_state" where
  "demo_heap = \<lparr>hp_instance = Some demo_platform, hp_mem = (\<lambda>_. 0), hp_plat = [], hp_total = 0, hp_asserts = [], hp_prints = []\<rparr>"

lemma demo_top_above: "(a, n) \<in> set w \<Longrightarrow> a + n < demo_top w" "0 < demo_top w"
  by (induction w) (auto simp: demo_top_def)

lemma allocator_okI:
  assumes "cfg_malloc i = Some f" "cfg_free i = Some g"
    and "\<And>h n w m. keeps (B w) m (snd (snd (f h n (w, m))))"
    and "\<And>h n w m. fst (f h n (w, m)) \<noteq> NULL"
    and "\<And>h n w m x. x \<in> B w \<Longrightarrow> apart (fst (f h n (w, m)), unat n) x"
    and "\<And>h n w m. B (fst (snd (f h n (w, m)))) = insert (fst (f h n (w, m)), unat n) (B w)"
    and "\<And>h a n w m. (a, n) \<in> B w \<Longrightarrow> B (fst (g h a (w, m))) = B w - {(a, n)} \<and> keeps (B w - {(a, n)}) m (snd (g h a (w, m)))"
  shows "allocator_ok B i"
  unfolding allocator_ok_def
proof (intro exI conjI allI impI)
  show "cfg_malloc i = Some f" "cfg_free i = Some g" by fact+
  fix h n w m b w' m' assume "f h n (w, m) = (b, w', m')"
  then show "keeps (B w) m m'" "if b = NULL then B w' = B w else (\<forall>x\<in>B w. apart (b, unat n) x) \<and> B w' = insert (b, unat n) (B w)"
    using assms(3-6) [where h = h and n = n and w = w and m = m] by auto
next
  fix h w m a n w' m' assume "(a, n) \<in> B w" "g h a (w, m) = (w', m')"
  then show "B w' = B w - {(a, n)}" "keeps (B w - {(a, n)}) m m'" using assms(7) [where h = h and a = a and n = n and w = w and m = m] by auto
qed

lemma demo_platform_ok: "allocator_ok demo_blocks demo_platform"
proof -
  have "\<forall>x\<in>demo_blocks w. apart (demo_top w, k) x" for w k
    using demo_top_above(1) by (fastforce simp: demo_blocks_def apart_def dest: map_of_SomeD)
  moreover have "demo_blocks ((demo_top w, k) # w) = insert (demo_top w, k) (demo_blocks w)" for w k
    using demo_top_above(1) by (fastforce simp: demo_blocks_def dest: map_of_SomeD split: if_splits)
  moreover have "demo_blocks (filter (\<lambda>x. fst x \<noteq> a) w) = demo_blocks w - {(a, k)}" if "(a, k) \<in> demo_blocks w" for a k w
  proof -
    have "map_of (filter (\<lambda>x. fst x \<noteq> a) w) = (map_of w)(a := None)" by (induction w) auto
    then show ?thesis using that by (auto simp: demo_blocks_def split: if_splits)
  qed
  ultimately show ?thesis
    using demo_top_above(2)
    by (intro allocator_okI [of demo_platform "\<lambda>h n (w, m). (demo_top w, (demo_top w, unat n) # w, m)" "\<lambda>h a (w, m). (filter (\<lambda>x. fst x \<noteq> a) w, m)"])
      (simp_all add: demo_platform_def keeps_def)
qed

text \<open>Three bytes at address 92; the client writes the byte behind them.\<close>

definition demo_overrun :: "(addr \<times> nat) list heap_state" where
  "demo_overrun = snd (the (qoraal_malloc CHECKED QORAAL_HeapAuxiliary 3 demo_heap))"

lemma demo_malloc: "qoraal_malloc CHECKED QORAAL_HeapAuxiliary 3 demo_heap = Some (92, demo_overrun)"
  by (simp add: demo_overrun_def qoraal_malloc_def demo_heap_def demo_platform_def demo_top_def CHECKED_def DEBUG_BYTES_def heap_add_check_def Let_def)

lemma demo_overrun_mem: "hp_mem demo_overrun = mem_fill (mem_fill (store32 (\<lambda>_. 0) 64 3) 84 0x77 8) 95 0x77 8"
  by (simp add: demo_overrun_def qoraal_malloc_def demo_heap_def demo_platform_def demo_top_def CHECKED_def DEBUG_BYTES_def
    heap_add_check_def Let_def debug_header_def DEBUG_HEAD_FILL_def DEBUG_TAIL_FILL_def)

theorem heap_free_reports_witness:
  "\<exists>k w. qoraal_free CHECKED QORAAL_HeapAuxiliary 92 (demo_overrun\<lparr>hp_mem := (hp_mem demo_overrun)(95 := 0)\<rparr>) =
     Some (demo_heap\<lparr>hp_mem := k, hp_plat := w, hp_asserts := [bytes ''heap_do_check : buffer overrun'']\<rparr>)"
proof -
  let ?m = "(hp_mem demo_overrun)(95 := 0)"
  obtain f g where fg: "hp_instance demo_heap = Some demo_platform" "cfg_malloc demo_platform = Some f" "cfg_free demo_platform = Some g"
    by (simp add: demo_heap_def demo_platform_def)
  have "broken ?m 84 8 0x77 = 0" "broken ?m 95 8 0x77 = 1"
    by (simp_all add: broken_def demo_overrun_mem upt_rec)
  moreover have "load32 ?m (92 - block_off CHECKED) = load32 (hp_mem demo_overrun) (92 - block_off CHECKED)"
    by (rule load32_cong) (simp add: block_off_def CHECKED_def)
  ultimately show ?thesis
    using heap_free_reports [OF demo_malloc _ fg, of ?m]
    by (auto simp: assert_calls_def demo_heap_def demo_platform_def DEBUG_MSG_SIZE_def DEBUG_HEAD_FILL_def DEBUG_TAIL_FILL_def CHECKED_def bytes_def)
qed

lemma demo_run: "heap_run CHECKED demo_blocks demo_platform [92 \<mapsto> map (\<lambda>j. hp_mem demo_overrun (92 + j)) [0..<3]] demo_overrun"
proof -
  have "heap_run CHECKED demo_blocks demo_platform Map.empty demo_heap"
    by (rule heap_start) (simp_all add: demo_heap_def demo_blocks_def disjoint_blocks_def)
  from heap_malloc [OF this _ demo_malloc] show ?thesis by (simp add: CHECKED_def DEBUG_BYTES_def)
qed

theorem heap_run_refines_witness:
  "hp_asserts (demo_overrun\<lparr>hp_mem := (hp_mem demo_overrun)(93 := 7)\<rparr>) = [] \<and> hp_total demo_overrun = 3"
proof -
  have "heap_run CHECKED demo_blocks demo_platform ([92 \<mapsto> map (\<lambda>j. hp_mem demo_overrun (92 + j)) [0..<3]](92 \<mapsto> (map (\<lambda>j. hp_mem demo_overrun (92 + j)) [0..<3])[1 := 7]))
      (demo_overrun\<lparr>hp_mem := (hp_mem demo_overrun)(92 + 1 := 7)\<rparr>)"
    by (rule heap_store [OF demo_run]) simp_all
  from heap_run_refines [OF demo_platform_ok this] show ?thesis by simp
qed

section \<open>Alignment\<close>

text \<open>In neither build is a block aligned for a 64-bit field: with a platform that aligns its blocks to eight bytes, every
  pointer the heap returns lies four bytes off.\<close>

theorem malloc_misaligned:
  assumes "qoraal_malloc c h n s = Some (p, s')" "p \<noteq> NULL" "hp_instance s = Some i" "cfg_malloc i = Some f"
    and "c = CHECKED \<or> c = COUNTED" and "\<And>h n w. fst (f h n w) mod 8 = 0"
  shows "p mod 8 = 4"
proof -
  obtain mem w m where "f h (n + of_nat (DEBUG_BYTES c)) (hp_plat s, hp_mem s) = (mem, w, m)" "p = mem + block_off c"
    using qoraal_malloc_block [OF assms(1-4)] by metis
  then have "p = mem + block_off c" "mem mod 8 = 0" using assms(6) [of h "n + of_nat (DEBUG_BYTES c)" "(hp_plat s, hp_mem s)"] by simp_all
  then show ?thesis using assms(5) by (auto simp: block_off_def CHECKED_def COUNTED_def mod_add_eq [of mem 8, symmetric])
qed

end
