(* ===== verification/Console.thy ===== *)
theory Console
  imports Heap Logger Script
begin

text \<open>
  The console, src/qshell/console.c: a service that reads lines from the platform and runs each as a script (Script.thy), prints
  what the shell writes (the prints of Heap.thy) and is a channel of the logger (Logger.thy).

  The input is a list with one entry for each call of \<open>qoraal_getch\<close>: what it returns, and whether another thread has stopped the
  service by then, as \<open>console_service_ctrl\<close> does. An input that ends before a line does leaves the reader waiting, which is the
  value \<open>None\<close>. \<open>ce_exit\<close> tells whether the commands run so far include one that ends the console, \<open>ce_mem\<close> what memory there is
  for a script. The messages of the service itself are of severities that \<open>DBG_MESSAGE_T_REPORT\<close> leaves out.
\<close>

section \<open>Data\<close>

definition SVC_SHELL_OUT_SYS :: u32 where "SVC_SHELL_OUT_SYS = 3"
definition SVC_SHELL_IN_STD :: u32 where "SVC_SHELL_IN_STD = 4"
definition SVC_LOGGER_SEVERITY_LOG :: u8 where "SVC_LOGGER_SEVERITY_LOG = 5"
definition SVC_LOGGER_SEVERITY_MASK :: u8 where "SVC_LOGGER_SEVERITY_MASK = 0x0F"
definition SVC_LOGGER_FLAGS_MASK :: u8 where "SVC_LOGGER_FLAGS_MASK = 0xF0"
definition SHELL_PROMPT :: "u8 list" where "SHELL_PROMPT = bytes ''[Qoraal] #> ''"
definition SHELL_HELLO :: "u8 list" where "SHELL_HELLO = bytes ''Enter '' @ [39] @ bytes ''help'' @ [39] @ bytes '' or '' @ [39] @ bytes ''?'' @ [39] @ bytes '' to view available commands. ''"

text \<open>The address of \<open>_shell_log_channel\<close>.\<close>

definition SHELL_LOG_CHANNEL :: addr where "SHELL_LOG_CHANNEL = 1"

record 'p console_state =
  con_id :: int
  con_echo :: bool
  con_exit :: bool
  con_swallow_lf :: bool
  con_sleeps :: nat
  con_heap :: "'p heap_state"
  con_log :: logger_state

record console_env =
  ce_shell :: shell_env
  ce_exit :: "shell_state \<Rightarrow> bool"
  ce_mem :: "shell_state \<Rightarrow> bool \<times> u8 list option"
  ce_date :: "u8 list"

definition SVC_LOGGER_GET_FLAGS :: "u8 \<Rightarrow> u8" where
  "SVC_LOGGER_GET_FLAGS ty = ty AND SVC_LOGGER_FLAGS_MASK"

definition SVC_LOGGER_SET_SEVERITY :: "u8 \<Rightarrow> u32 \<Rightarrow> u8" where
  "SVC_LOGGER_SET_SEVERITY ty severity = (ty AND NOT SVC_LOGGER_SEVERITY_MASK) OR ucast severity"

section \<open>Output\<close>

definition on_heap :: "('p heap_state \<Rightarrow> 'p heap_state) \<Rightarrow> 'p console_state \<Rightarrow> 'p console_state" where
  "on_heap f con = con\<lparr>con_heap := f (con_heap con)\<rparr>"

definition console_print :: "u8 list \<Rightarrow> 'p console_state \<Rightarrow> 'p console_state" where
  "console_print str con = on_heap (qoraal_debug_print str) con"

definition console_out :: "u32 \<Rightarrow> u8 list option \<Rightarrow> 'p console_state \<Rightarrow> int \<times> 'p console_state" where
  "console_out out str con =
     (SVC_SHELL_CMD_E_OK,
      case str of None \<Rightarrow> con
      | Some t \<Rightarrow> if out \<noteq> 0 \<and> out < SVC_SHELL_IN_STD
          then on_heap (if out = SVC_SHELL_OUT_SYS then qoraal_debug_print t else qoraal_print t) con else con)"

definition console_logger_cb :: "u8 \<Rightarrow> u8 list \<Rightarrow> 'p console_state \<Rightarrow> 'p console_state" where
  "console_logger_cb ty msg con =
     (if SVC_LOGGER_GET_FLAGS ty AND SVC_LOGGER_FLAGS_NO_FORMATTING \<noteq> 0 then on_heap (qoraal_print msg) con
      else on_heap (qoraal_debug_print [13, 10]) (on_heap (qoraal_debug_print msg) con))"

section \<open>The service\<close>

definition console_service_ctrl :: "services \<Rightarrow> ctrl_cmd \<Rightarrow> u32 \<Rightarrow> 'p console_state \<Rightarrow> int \<times> 'p console_state" where
  "console_service_ctrl sv cmd arg con =
     (case cmd of
        SVC_SERVICE_CTRL_INIT \<Rightarrow> (EOK, con\<lparr>con_id := svc_service_service sv arg\<rparr>)
      | SVC_SERVICE_CTRL_START \<Rightarrow> (EOK, con\<lparr>con_log := svc_logger_channel_add SHELL_LOG_CHANNEL (con_log con)\<rparr>)
      | SVC_SERVICE_CTRL_STOP \<Rightarrow> (EOK, con\<lparr>con_log := svc_logger_channel_remove SHELL_LOG_CHANNEL (con_log con), con_exit := True\<rparr>)
      | _ \<Rightarrow> (E_NOIMPL, con))"

definition status_callback :: "int \<Rightarrow> int \<Rightarrow> int \<Rightarrow> 'p console_state \<Rightarrow> bool" where
  "status_callback exit_id sid status con \<longleftrightarrow>
     (status = SVC_SERVICE_STATUS_STOPPED \<or> status = SVC_SERVICE_STATUS_STOPPING) \<and> (sid = exit_id \<or> sid = con_id con)"

text \<open>\<open>console_wait_for_exit\<close> in front of the wait for its semaphore and behind it; \<open>changes\<close> are the changes of services that the
  handler gets, each of which may signal the semaphore.\<close>

definition wait_for_exit_begin :: "addr \<Rightarrow> addr \<Rightarrow> nat \<Rightarrow> services \<Rightarrow> services" where
  "wait_for_exit_begin handler fp parm sv = svc_service_register_handler sv handler fp parm"

definition wait_for_exit_ends :: "int \<Rightarrow> (int \<times> int) list \<Rightarrow> 'p console_state \<Rightarrow> bool" where
  "wait_for_exit_ends exit_id changes con \<longleftrightarrow> (\<exists>(sid, status) \<in> set changes. status_callback exit_id sid status con)"

definition wait_for_exit_end :: "addr \<Rightarrow> services \<Rightarrow> services" where
  "wait_for_exit_end handler sv = svc_service_unregister_handler sv handler"

section \<open>The line editor\<close>

definition EOF :: int where "EOF = -1"

text \<open>The loop of \<open>console_get_line\<close>; the line so far is the buffer up to \<open>i\<close>. An echoed zero byte is an empty text.\<close>

definition echo :: "u8 list \<Rightarrow> 'p console_state \<Rightarrow> 'p console_state" where
  "echo t con = (if con_echo con then on_heap (qoraal_print t) con else con)"

definition get_line_char :: "int \<Rightarrow> u8 list \<Rightarrow> 'p console_state \<Rightarrow> bool \<times> u8 list \<times> 'p console_state" where
  "get_line_char c buf con =
     (if c = 8 \<or> c = 0x7f then
        (if buf \<noteq> [] then (False, butlast buf, echo [8, 0x20, 8] con) else (False, buf, con))
      else if c = 13 then (True, buf @ [10], echo [13, 10] (con\<lparr>con_swallow_lf := True\<rparr>))
      else if c = 10 then (True, buf @ [of_int c], echo [13, 10] con)
      else (False, buf @ [of_int c], echo (if of_int c = (0 :: u8) then [] else [of_int c]) con))"

fun get_line_loop :: "nat \<Rightarrow> (int \<times> bool) list \<Rightarrow> u8 list \<Rightarrow> 'p console_state \<Rightarrow> (u8 list \<times> (int \<times> bool) list \<times> 'p console_state) option" where
  "get_line_loop len [] buf con = (if length buf + 1 < len then None else Some (buf, [], con))"
| "get_line_loop len ((c, stop) # inp) buf con =
     (if length buf + 1 < len then
        (let con = con\<lparr>con_exit := con_exit con \<or> stop\<rparr>
         in if con_exit con then Some (buf, inp, con)
            else if c \<le> 0 then get_line_loop len inp buf (if c = EOF then con\<lparr>con_sleeps := con_sleeps con + 1\<rparr> else con)
            else if con_swallow_lf con \<and> c = 10 then get_line_loop len inp buf (con\<lparr>con_swallow_lf := False\<rparr>)
            else
              (let (eol, buf, con) = get_line_char c buf (con\<lparr>con_swallow_lf := False\<rparr>)
               in if eol then Some (buf, inp, con) else get_line_loop len inp buf con))
      else Some (buf, (c, stop) # inp, con))"

definition console_get_line :: "nat \<Rightarrow> (int \<times> bool) list \<Rightarrow> 'p console_state \<Rightarrow> (u8 list \<times> (int \<times> bool) list \<times> 'p console_state) option" where
  "console_get_line len inp con = (if len = 0 then Some ([], inp, con) else get_line_loop len inp [] con)"

section \<open>Running lines\<close>

text \<open>A script, with what it writes through the interface of the console.\<close>

definition console_script :: "console_env \<Rightarrow> addr \<Rightarrow> u8 list \<Rightarrow> 'p console_state \<times> shell_state \<Rightarrow> 'p console_state \<times> shell_state" where
  "console_script ce pif txt cs =
     (let (con, s) = cs;
          (lm, sm) = ce_mem ce s;
          (res, s') = svc_shell_script_run (ce_shell ce) lm sm pif [] txt s;
          con = fold (\<lambda>(p, out, str) con. if p = pif then snd (console_out out str con) else con) (drop (length (sh_outs s)) (sh_outs s')) con
      in (con\<lparr>con_exit := con_exit con \<or> ce_exit ce s'\<rparr>, s'))"

text \<open>The loop of \<open>console_service_run\<close>; \<open>stops\<close> has for each pass whether the service was stopped by the look behind the
  line and by that at the end.\<close>

definition LINE_SIZE :: nat where "LINE_SIZE = 256"

fun console_loop :: "console_env \<Rightarrow> addr \<Rightarrow> (bool \<times> bool) list \<Rightarrow> (int \<times> bool) list \<Rightarrow> 'p console_state \<times> shell_state
    \<Rightarrow> ((int \<times> bool) list \<times> 'p console_state \<times> shell_state) option" where
  "console_loop ce pif [] inp cs = None"
| "console_loop ce pif ((a, b) # stops) inp cs =
     (case console_get_line LINE_SIZE inp (console_print SHELL_PROMPT (fst cs)) of
        None \<Rightarrow> None
      | Some (line, inp, con) \<Rightarrow>
          (let con = con\<lparr>con_exit := con_exit con \<or> a\<rparr>;
               (con, s) = (if \<not> con_exit con \<and> length line > 0 then console_script ce pif line (con, snd cs) else (con, snd cs));
               con = con\<lparr>con_exit := con_exit con \<or> b\<rparr>
           in if con_exit con then Some (inp, con, s) else console_loop ce pif stops inp (con, s)))"

definition console_service_run :: "console_env \<Rightarrow> addr \<Rightarrow> (bool \<times> bool) list \<Rightarrow> (int \<times> bool) list \<Rightarrow> 'p console_state \<times> shell_state
    \<Rightarrow> (int \<times> (int \<times> bool) list \<times> 'p console_state \<times> shell_state) option" where
  "console_service_run ce pif stops inp cs =
     (let cs = (fst cs, snd (svc_shell_if_init pif (snd cs)));
          cs = console_script ce pif (bytes ''version'') cs;
          cs = console_script ce pif (bytes ''hello'') cs
      in map_option (Pair EOK) (console_loop ce pif stops inp cs))"

section \<open>Commands\<close>

definition qshell_cmd_version :: "console_env \<Rightarrow> addr \<Rightarrow> u8 list list \<Rightarrow> shell_state \<Rightarrow> int \<times> shell_state" where
  "qshell_cmd_version ce pif argv s =
     (SVC_SHELL_CMD_E_OK, snd (svc_shell_print (ce_shell ce) pif SVC_SHELL_OUT_STD
        (bytes ''Navaro Qoraal Demo v '' @ [39] @ ce_date ce @ [39, 13, 10]) s))"

definition qshell_cmd_hello :: "console_env \<Rightarrow> addr \<Rightarrow> u8 list list \<Rightarrow> shell_state \<Rightarrow> int \<times> shell_state" where
  "qshell_cmd_hello ce pif argv s =
     (SVC_SHELL_CMD_E_OK, snd (svc_shell_print (ce_shell ce) pif SVC_SHELL_OUT_STD (SHELL_HELLO @ [13, 10, 13, 10]) s))"

definition qshell_cmd_exit :: "u8 list list \<Rightarrow> 'p console_state \<Rightarrow> int \<times> 'p console_state" where
  "qshell_cmd_exit argv con = (SVC_SHELL_CMD_E_OK, con\<lparr>con_exit := True\<rparr>)"

text \<open>The severity of the first filter of the channel of the console, and what the command prints.\<close>

definition log_severity :: "u32 \<Rightarrow> logger_state \<Rightarrow> logger_state" where
  "log_severity v l =
     (let ch = lg_channel l SHELL_LOG_CHANNEL;
          f = (lc_filter ch 0)\<lparr>lf_type := SVC_LOGGER_SET_SEVERITY (lf_type (lc_filter ch 0)) v\<rparr>
      in l\<lparr>lg_channel := (lg_channel l)(SHELL_LOG_CHANNEL := ch\<lparr>lc_filter := (lc_filter ch)(0 := f)\<rparr>)\<rparr>)"

definition level_line :: "u32 \<Rightarrow> u8 list" where
  "level_line v = bytes ''Filter level '' @ (if sint v < 0 then [0x2D] else []) @ dec_digits 1 (nat \<bar>sint v\<bar>) @ [13, 10]"

definition qshell_loglevel :: "console_env \<Rightarrow> addr \<Rightarrow> u8 list list \<Rightarrow> 'p console_state \<times> shell_state \<Rightarrow> int \<times> 'p console_state \<times> shell_state" where
  "qshell_loglevel ce pif argv cs =
     (let (con, s) = cs;
          v = ucast (SVC_LOGGER_GET_SEVERITY (lf_type (lc_filter (lg_channel (con_log con) SHELL_LOG_CHANNEL) 0)));
          (v, con) =
            (if length argv > 1 then
               (case svc_shell_scan_int (argv ! 1) of
                  (r, Some v) \<Rightarrow> (v, con\<lparr>con_log := svc_logger_channel_add SHELL_LOG_CHANNEL
                     (svc_logger_channel_remove SHELL_LOG_CHANNEL (log_severity v (con_log con)))\<rparr>)
                | (r, None) \<Rightarrow> (v, con))
             else (v, con))
      in (SVC_SHELL_CMD_E_OK, con, snd (svc_shell_print (ce_shell ce) pif SVC_SHELL_OUT_STD (level_line v) s)))"

section \<open>Lines and keys\<close>

text \<open>What the keys of a line amount to: a character is added, backspace and delete take the last one back.\<close>

definition edit_key :: "u8 list \<Rightarrow> int \<Rightarrow> u8 list" where
  "edit_key l c = (if c = 8 \<or> c = 0x7f then butlast l else l @ [of_int c])"

definition edit :: "int list \<Rightarrow> u8 list" where
  "edit ks = foldl edit_key [] ks"

text \<open>The keys of a line for a buffer of \<open>len\<close> bytes: no line ends, and never more characters than leave room for the line
  end and the terminating zero.\<close>

definition typed :: "nat \<Rightarrow> int list \<Rightarrow> bool" where
  "typed len ks \<longleftrightarrow> (\<forall>c \<in> set ks. 0 < c \<and> c \<noteq> 10 \<and> c \<noteq> 13) \<and> (\<forall>k \<le> length ks. length (edit (take k ks)) + 1 < len)"

abbreviation keys :: "int list \<Rightarrow> (int \<times> bool) list" where
  "keys ks \<equiv> map (\<lambda>c. (c, False)) ks"

lemma on_heap_fields [simp]: "con_exit (on_heap f con) = con_exit con" "con_swallow_lf (on_heap f con) = con_swallow_lf con"
  "con_exit (echo t con) = con_exit con" "con_swallow_lf (echo t con) = con_swallow_lf con"
  by (simp_all add: on_heap_def echo_def)

lemma get_line_key:
  assumes "0 < c" "c \<noteq> 10" "c \<noteq> 13"
  obtains con' where "get_line_char c buf con = (False, edit_key buf c, con')" "con_exit con' = con_exit con" "con_swallow_lf con' = con_swallow_lf con"
proof -
  have "\<exists>con'. get_line_char c buf con = (False, edit_key buf c, con') \<and> con_exit con' = con_exit con \<and> con_swallow_lf con' = con_swallow_lf con"
    using assms by (auto simp: get_line_char_def edit_key_def)
  then show thesis using that by blast
qed

text \<open>A line and what ends it, without a line feed that is still to be swallowed.\<close>

lemma get_line_keys:
  assumes "\<forall>c \<in> set ks. 0 < c \<and> c \<noteq> 10 \<and> c \<noteq> 13" "\<forall>k \<le> length ks. length (foldl edit_key buf (take k ks)) + 1 < len"
    and "\<not> con_exit con" "t = 10 \<or> t = 13" "con_swallow_lf con \<longrightarrow> ks \<noteq> [] \<or> t = 13"
  shows "\<exists>con'. get_line_loop len (keys ks @ (t, False) # rest) buf con = Some (foldl edit_key buf ks @ [10], rest, con') \<and>
    \<not> con_exit con' \<and> con_swallow_lf con' = (t = 13)"
  using assms
proof (induction ks arbitrary: buf con)
  case Nil
  then show ?case by (auto simp: get_line_char_def)
next
  case (Cons c ks)
  let ?con = "con\<lparr>con_exit := con_exit con \<or> False, con_swallow_lf := False\<rparr>"
  obtain con' where k: "get_line_char c buf ?con = (False, edit_key buf c, con')" "\<not> con_exit con'" "\<not> con_swallow_lf con'"
    using get_line_key [of c buf ?con] Cons.prems(1,3) by auto
  have "length (foldl edit_key (edit_key buf c) (take j ks)) + 1 < len" if "j \<le> length ks" for j
    using Cons.prems(2) [rule_format, of "Suc j"] that by simp
  then obtain con'' where "get_line_loop len (keys ks @ (t, False) # rest) (edit_key buf c) con' = Some (foldl edit_key (edit_key buf c) ks @ [10], rest, con'')"
      "\<not> con_exit con''" "con_swallow_lf con'' = (t = 13)"
    using Cons.IH [of "edit_key buf c" con'] Cons.prems(1,4) k(2,3) by auto
  then show ?case
    using k(1) Cons.prems(1,3) Cons.prems(2) [rule_format, of 0] by (auto simp: Let_def)
qed

datatype line_end = LF | CR | CRLF

primrec end_keys :: "line_end \<Rightarrow> int list" where
  "end_keys LF = [10]"
| "end_keys CR = [13]"
| "end_keys CRLF = [13, 10]"

definition stream :: "line_end \<Rightarrow> int list list \<Rightarrow> int list" where
  "stream e lns = concat (map (\<lambda>ks. ks @ end_keys e) lns)"

text \<open>What the reader is left with behind a line of a stream: after a carriage return it waits for a line feed to drop.\<close>

definition pending :: "line_end \<Rightarrow> bool \<Rightarrow> int list" where
  "pending e sw = (if sw \<and> e = CRLF then [10] else [])"

lemma get_line_stream:
  assumes "typed len ks" "\<not> con_exit con" "e = LF \<longrightarrow> \<not> con_swallow_lf con" "0 < len"
  shows "\<exists>con'. console_get_line len (keys (pending e (con_swallow_lf con) @ ks @ end_keys e) @ rest) con =
    Some (edit ks @ [10], keys (pending e (con_swallow_lf con')) @ rest, con') \<and> \<not> con_exit con' \<and> con_swallow_lf con' = (e \<noteq> LF)"
proof -
  let ?t = "hd (end_keys e)"
  have e: "keys (ks @ end_keys e) @ rest = keys ks @ (?t, False) # keys (pending e (?t = 13)) @ rest" "?t = 10 \<or> ?t = 13" "(?t = 13) = (e \<noteq> LF)"
    by (cases e; simp add: pending_def)+
  have line: "\<exists>con'. get_line_loop len (keys (ks @ end_keys e) @ rest) [] c = Some (edit ks @ [10], keys (pending e (con_swallow_lf con')) @ rest, con') \<and>
      \<not> con_exit con' \<and> con_swallow_lf con' = (e \<noteq> LF)"
    if "\<not> con_exit c" "con_swallow_lf c \<longrightarrow> ks \<noteq> [] \<or> e \<noteq> LF" for c :: "'a console_state"
    using get_line_keys [of ks "[]" len c ?t "keys (pending e (?t = 13)) @ rest"] that assms(1) e unfolding typed_def edit_def by fastforce
  show ?thesis
  proof (cases "pending e (con_swallow_lf con) = []")
    case True
    have "con_swallow_lf con \<longrightarrow> ks \<noteq> [] \<or> e \<noteq> LF" using assms(3) by blast
    with True show ?thesis using line [OF assms(2)] assms(4) by (simp add: console_get_line_def)
  next
    case False
    then have p: "pending e (con_swallow_lf con) = [10]" "con_swallow_lf con" "e \<noteq> LF" by (auto simp: pending_def split: if_splits)
    have "1 < len" using assms(1) by (auto simp: typed_def edit_def dest: spec [of _ 0])
    then have "get_line_loop len (keys (pending e (con_swallow_lf con) @ ks @ end_keys e) @ rest) [] con =
        get_line_loop len (keys (ks @ end_keys e) @ rest) [] (con\<lparr>con_exit := False, con_swallow_lf := False\<rparr>)"
      using p assms(2) by simp
    then show ?thesis using line [of "con\<lparr>con_exit := False, con_swallow_lf := False\<rparr>"] p(3) assms(4) by (simp add: console_get_line_def)
  qed
qed

section \<open>Sessions\<close>

text \<open>The scripts a shell runs, one after the other.\<close>

fun run_scripts :: "console_env \<Rightarrow> addr \<Rightarrow> u8 list list \<Rightarrow> shell_state \<Rightarrow> shell_state" where
  "run_scripts ce pif [] s = s"
| "run_scripts ce pif (l # ls) s =
     run_scripts ce pif ls (snd (svc_shell_script_run (ce_shell ce) (fst (ce_mem ce s)) (snd (ce_mem ce s)) pif [] l s))"

text \<open>The console ends with the last of the scripts and not before.\<close>

fun ends_last :: "console_env \<Rightarrow> addr \<Rightarrow> u8 list list \<Rightarrow> shell_state \<Rightarrow> bool" where
  "ends_last ce pif [] s = False"
| "ends_last ce pif (l # ls) s =
     (let s' = snd (svc_shell_script_run (ce_shell ce) (fst (ce_mem ce s)) (snd (ce_mem ce s)) pif [] l s)
      in ce_exit ce s' = (ls = []) \<and> (ls \<noteq> [] \<longrightarrow> ends_last ce pif ls s'))"

lemma console_out_fields:
  "con_exit (if b then snd (console_out out str con) else con) = con_exit con"
  "con_swallow_lf (if b then snd (console_out out str con) else con) = con_swallow_lf con"
  by (simp_all add: console_out_def split: option.split)

lemma console_outs_fields:
  "con_exit (fold (\<lambda>(p, out, str) con. if p = pif then snd (console_out out str con) else con) os c) = con_exit c"
  "con_swallow_lf (fold (\<lambda>(p, out, str) con. if p = pif then snd (console_out out str con) else con) os c) = con_swallow_lf c"
  by (induction os arbitrary: c) (auto simp: console_out_fields)

lemma console_script_fields:
  assumes "console_script ce pif l (con, s) = (con', s')"
  shows "s' = snd (svc_shell_script_run (ce_shell ce) (fst (ce_mem ce s)) (snd (ce_mem ce s)) pif [] l s)"
    "con_exit con' = (con_exit con \<or> ce_exit ce s')" "con_swallow_lf con' = con_swallow_lf con"
proof -
  obtain res s1 where r: "svc_shell_script_run (ce_shell ce) (fst (ce_mem ce s)) (snd (ce_mem ce s)) pif [] l s = (res, s1)" by fastforce
  have "(con', s') = ((fold (\<lambda>(p, out, str) con. if p = pif then snd (console_out out str con) else con) (drop (length (sh_outs s)) (sh_outs s1)) con)
      \<lparr>con_exit := con_exit con \<or> ce_exit ce s1\<rparr>, s1)"
    unfolding assms [symmetric] console_script_def Let_def prod.case case_prod_beta [of _ "ce_mem ce s"] r by (simp only: console_outs_fields)
  then show "s' = snd (svc_shell_script_run (ce_shell ce) (fst (ce_mem ce s)) (snd (ce_mem ce s)) pif [] l s)"
    "con_exit con' = (con_exit con \<or> ce_exit ce s')" "con_swallow_lf con' = con_swallow_lf con"
    by (simp_all add: r console_outs_fields)
qed

lemma console_loop_stream:
  assumes "lns \<noteq> []" "\<forall>ks \<in> set lns. typed LINE_SIZE ks" "\<not> con_exit con" "e = LF \<longrightarrow> \<not> con_swallow_lf con"
    and "ends_last ce pif (map (\<lambda>ks. edit ks @ [10]) lns) s"
  shows "\<exists>con' rest. console_loop ce pif (replicate (length lns) (False, False)) (keys (pending e (con_swallow_lf con) @ stream e lns)) (con, s) =
    Some (rest, con', run_scripts ce pif (map (\<lambda>ks. edit ks @ [10]) lns) s)"
  using assms
proof (induction lns arbitrary: con s)
  case (Cons ks lns)
  let ?p = "console_print SHELL_PROMPT con" and ?l = "edit ks @ [10]"
  have p: "\<not> con_exit ?p" "con_swallow_lf ?p = con_swallow_lf con" using Cons.prems(3) by (simp_all add: console_print_def)
  obtain c where c: "console_get_line LINE_SIZE (keys (pending e (con_swallow_lf con) @ ks @ end_keys e) @ keys (stream e lns)) ?p =
      Some (?l, keys (pending e (con_swallow_lf c)) @ keys (stream e lns), c)" "\<not> con_exit c" "con_swallow_lf c = (e \<noteq> LF)"
    using get_line_stream [of LINE_SIZE ks ?p e "keys (stream e lns)"] Cons.prems(2,4) p by (auto simp: LINE_SIZE_def)
  obtain c' s' where r: "console_script ce pif ?l (c\<lparr>con_exit := False\<rparr>, s) = (c', s')" by fastforce
  note f = console_script_fields [OF r]
  have in_eq: "keys (pending e (con_swallow_lf con) @ stream e (ks # lns)) = keys (pending e (con_swallow_lf con) @ ks @ end_keys e) @ keys (stream e lns)"
    by (simp add: stream_def)
  have ex: "ce_exit ce s' = (lns = [])" "lns \<noteq> [] \<longrightarrow> ends_last ce pif (map (\<lambda>ks. edit ks @ [10]) lns) s'"
    using Cons.prems(5) f(1) by (simp_all add: Let_def)
  have cc: "c\<lparr>con_exit := False\<rparr> = c" using c(2) by simp
  have step: "console_loop ce pif (replicate (length (ks # lns)) (False, False)) (keys (pending e (con_swallow_lf con) @ stream e (ks # lns))) (con, s) =
      (if lns = [] then Some (keys (pending e (con_swallow_lf c)) @ keys (stream e lns), c'\<lparr>con_exit := True\<rparr>, s')
       else console_loop ce pif (replicate (length lns) (False, False)) (keys (pending e (con_swallow_lf c')) @ keys (stream e lns)) (c', s'))"
    using c r f(2,3) ex(1) unfolding in_eq by (simp add: Let_def cc)
  show ?case
  proof (cases "lns = []")
    case True
    then show ?thesis using step f(1) by simp
  next
    case False
    have "\<exists>con' rest. console_loop ce pif (replicate (length lns) (False, False)) (keys (pending e (con_swallow_lf c') @ stream e lns)) (c', s') =
        Some (rest, con', run_scripts ce pif (map (\<lambda>ks. edit ks @ [10]) lns) s')"
      using Cons.prems(2) False ex f(2,3) c(2,3) by (intro Cons.IH) auto
    then show ?thesis using step False f(1) by simp
  qed
qed simp

text \<open>
  C16: What is typed is what runs: with lines ended by line feeds, by carriage returns or by both, and characters taken back by
  backspace or delete, the console runs the edited lines as scripts, each once and in order, and returns behind the one
  that ends it.
\<close>

theorem console_runs_lines:
  assumes "lns \<noteq> []" "\<forall>ks \<in> set lns. typed LINE_SIZE ks" "\<not> con_exit con" "\<not> con_swallow_lf con"
    and "ends_last ce pif (map (\<lambda>ks. edit ks @ [10]) lns) s"
  shows "\<exists>con' rest. console_loop ce pif (replicate (length lns) (False, False)) (map (\<lambda>c. (c, False)) (stream e lns)) (con, s) =
    Some (rest, con', run_scripts ce pif (map (\<lambda>ks. edit ks @ [10]) lns) s)"
  using console_loop_stream [OF assms(1-3) _ assms(5), of e] assms(4) by (simp add: pending_def)

definition demo_console :: "(addr \<times> nat) list console_state" where
  "demo_console = \<lparr>con_id = 3, con_echo = True, con_exit = False, con_swallow_lf = False, con_sleeps = 0, con_heap = demo_heap, con_log = demo_logger\<rparr>"

text \<open>Without memory a script only asks whether it is cancelled; the second one ends the console.\<close>

definition demo_console_env :: console_env where
  "demo_console_env = \<lparr>ce_shell = demo_shell_env, ce_exit = (\<lambda>s. length (sh_outs s) \<ge> 2), ce_mem = (\<lambda>_. (True, None)), ce_date = []\<rparr>"

text \<open>The keys a, b, delete, c and the key x.\<close>

theorem console_runs_lines_witness:
  "\<exists>con' rest. console_loop demo_console_env 3 [(False, False), (False, False)]
       (map (\<lambda>c. (c, False)) [97, 98, 127, 99, 13, 10, 120, 13, 10]) (demo_console, demo_shell) =
     Some (rest, con', run_scripts demo_console_env 3 [[97, 99, 10], [120, 10]] demo_shell)"
proof -
  have run: "snd (svc_shell_script_run demo_shell_env True None 3 [] l s) = (upd_if 3 (\<lambda>p. p\<lparr>sf_recurse := 0\<rparr>) s)\<lparr>sh_outs := sh_outs s @ [(3, 0, None)]\<rparr>" for l s
    by (simp add: svc_shell_script_run_def shell_out_def demo_shell_env_def SVC_SHELL_OUT_NULL_def SVC_SHELL_CMD_E_OK_def upd_if_def Let_def)
  have lns: "\<forall>ks \<in> set [[97, 98, 127, 99], [120]]. typed LINE_SIZE ks"
    by (auto simp: typed_def LINE_SIZE_def edit_def edit_key_def le_Suc_eq numeral_eq_Suc)
  have "ends_last demo_console_env 3 (map (\<lambda>ks. edit ks @ [10]) [[97, 98, 127, 99], [120]]) demo_shell"
    by (simp add: demo_console_env_def run demo_shell_chain(3))
  from console_runs_lines [OF _ lns _ _ this, of demo_console CRLF] show ?thesis
    by (simp add: demo_console_def stream_def edit_def edit_key_def)
qed

text \<open>A line that is too long for the buffer is cut without a line end, and what follows is read as a line of its own.\<close>

lemma get_line_full:
  assumes "\<forall>c \<in> set ks. 0 < c \<and> c \<notin> {8, 10, 13, 0x7f}" "length buf + length ks + 1 = len" "\<not> con_exit con"
  shows "\<exists>con'. get_line_loop len (keys ks @ rest) buf con = Some (buf @ map of_int ks, rest, con')"
  using assms
proof (induction ks arbitrary: buf con)
  case Nil
  then show ?case by (cases rest) auto
next
  case (Cons c ks)
  let ?con = "con\<lparr>con_exit := con_exit con \<or> False, con_swallow_lf := False\<rparr>"
  obtain con' where k: "get_line_char c buf ?con = (False, edit_key buf c, con')" "\<not> con_exit con'"
    using get_line_key [of c buf ?con] Cons.prems(1,3) by auto
  moreover have "edit_key buf c = buf @ [of_int c]" using Cons.prems(1) by (simp add: edit_key_def)
  ultimately show ?case using Cons.IH [of "buf @ [of_int c]" con'] Cons.prems by (auto simp: Let_def)
qed

theorem long_line_is_split:
  assumes "length ks = LINE_SIZE - 1" "\<forall>c \<in> set ks. 0 < c \<and> c \<notin> {8, 10, 13, 0x7f}" "\<not> con_exit con"
  shows "\<exists>con'. console_get_line LINE_SIZE (map (\<lambda>c. (c, False)) ks @ rest) con = Some (map of_int ks, rest, con')"
  using get_line_full [OF assms(2) _ assms(3), of "[]" LINE_SIZE rest] assms(1) by (simp add: console_get_line_def LINE_SIZE_def)

text \<open>Whatever is typed, the line and its terminating zero fit the buffer.\<close>

theorem line_fits_buffer:
  assumes "console_get_line len inp con = Some (l, rest, con')" "0 < len"
  shows "length l < len"
proof -
  have "length l < len" if "get_line_loop len inp buf con = Some (l, rest, con')" "length buf < len" for buf
    using that
  proof (induction len inp buf con rule: get_line_loop.induct)
    case (2 len c stop inp buf con)
    have "length (fst (snd (get_line_char c buf con'))) \<le> Suc (length buf)" for con' :: "'a console_state"
      by (auto simp: get_line_char_def)
    then show ?case using 2
      by (auto simp: Let_def split: if_splits prod.splits) (metis Suc_eq_plus1 fst_conv le_less_trans snd_conv)+
  qed (auto split: if_splits)
  then show ?thesis using assms by (simp add: console_get_line_def)
qed

text \<open>The command loglevel: the channel gets the severity, and the filter of the logger covers its channels again. A number
  above the severities sets flags of the channel instead, and is printed as if it had been taken.\<close>

theorem loglevel_sets_severity:
  assumes "svc_shell_scan_int (argv ! 1) = (EOK, Some v)" "length argv > 1" "unat v < 16"
    and "qshell_loglevel ce pif argv (con, s) = (r, con', s')"
  shows "SVC_LOGGER_GET_SEVERITY (lf_type (lc_filter (lg_channel (con_log con') SHELL_LOG_CHANNEL) 0)) = ucast v"
    "log_filter_ok (con_log con')" "SHELL_LOG_CHANNEL \<in> set (lg_channels (con_log con'))"
proof -
  let ?l = "log_severity v (con_log con)"
  have con': "con_log con' = svc_logger_channel_add SHELL_LOG_CHANNEL (svc_logger_channel_remove SHELL_LOG_CHANNEL ?l)"
    using assms(1,2,4) by (auto simp: qshell_loglevel_def Let_def)
  have ch: "lg_channel (svc_logger_channel_add a l) = lg_channel l" "lg_channel (svc_logger_channel_remove a l) = lg_channel l"
    "lg_channels (svc_logger_channel_add a l) = ll_add_tail (lg_channels l) a" for a l
    by (simp_all add: svc_logger_channel_add_def svc_logger_channel_remove_def severity_channel_available_def split: prod.split)
  have v: "take_bit 4 v = v" using assms(3) by (intro word_unat_eq_iff [THEN iffD2]) (simp add: unsigned_take_bit_eq take_bit_nat_eq_self)
  have "SVC_LOGGER_GET_SEVERITY (SVC_LOGGER_SET_SEVERITY t v) = ucast v" for t
  proof (rule bit_word_eqI)
    fix n assume "n < LENGTH(8)"
    have "bit v n \<Longrightarrow> n < 4" by (subst (asm) v [symmetric]) (simp add: bit_take_bit_iff)
    moreover have "(0xF :: u8) = Bit_Operations.mask 4" by (simp add: mask_eq_exp_minus_1)
    then have "bit (0xF :: u8) n \<longleftrightarrow> n < 4" using \<open>n < LENGTH(8)\<close> by (simp only: bit_mask_iff) simp
    ultimately show "bit (SVC_LOGGER_GET_SEVERITY (SVC_LOGGER_SET_SEVERITY t v)) n = bit (ucast v :: u8) n"
      using \<open>n < LENGTH(8)\<close> by (auto simp: SVC_LOGGER_GET_SEVERITY_def SVC_LOGGER_SET_SEVERITY_def SVC_LOGGER_SEVERITY_MASK_def bit_simps)
  qed
  then show "SVC_LOGGER_GET_SEVERITY (lf_type (lc_filter (lg_channel (con_log con') SHELL_LOG_CHANNEL) 0)) = ucast v"
    by (simp add: con' ch log_severity_def Let_def)
  show "log_filter_ok (con_log con')" "SHELL_LOG_CHANNEL \<in> set (lg_channels (con_log con'))"
    by (simp_all add: con' logger_channel_ops_filter ch list_ops)
qed

text \<open>Nothing takes the stop of the service back: a console that is started again after a stop returns behind the first
  character, without running a line.\<close>

theorem restarted_console_ends:
  assumes "snd (console_service_ctrl sv SVC_SERVICE_CTRL_START h (snd (console_service_ctrl sv SVC_SERVICE_CTRL_STOP h con))) = con1"
    and "inp \<noteq> []" "stops \<noteq> []"
  shows "\<exists>con'. console_loop ce pif stops inp (con1, s) = Some (tl inp, con', s)"
proof -
  have "con_exit con1" using assms(1) by (auto simp: console_service_ctrl_def)
  then show ?thesis using assms(2,3)
    by (cases inp; cases stops) (auto simp: console_get_line_def LINE_SIZE_def Let_def console_print_def)
qed

end
