(* ===== verification/ServicesCmd.thy ===== *)
theory ServicesCmd
  imports Script Logger "HOL-Library.Multiset"
begin

text \<open>
  The commands on services and logs, src/qshell/servicescmd.c, on top of the shell (Shell.thy, Script.thy), the services
  (Services.thy), the logger and the logs in memory (Logger.thy, Mlog.thy). A command gets its arguments and the state
  it works on, and returns its result and the new state. \<open>None\<close> is a write or read outside a buffer, or a loop that
  does not end.
\<close>

section \<open>Data\<close>

text \<open>\<open>sc_stop\<close>, \<open>sc_start\<close>: what the waits of the blocking stop and start return, and the state the other threads leave
  meanwhile; \<open>sc_malloc\<close>, \<open>sc_it\<close>: the memory for the message and the iterator of dmesg.\<close>

record svc_cmd_env =
  sc_shell :: shell_env
  sc_stop :: "services \<Rightarrow> int \<times> services"
  sc_start :: "services \<Rightarrow> int \<times> services"
  sc_sem :: nat
  sc_log :: log_env
  sc_malloc :: addr
  sc_it :: addr

abbreviation sc_senv :: "svc_cmd_env \<Rightarrow> senv" where
  "sc_senv e \<equiv> xe_senv (sc_shell e)"

section \<open>ctrl\<close>

text \<open>\<open>strcmp\<close> of the names; no name is a null pointer.\<close>

definition compare_by_handle :: "services \<Rightarrow> u32 \<Rightarrow> u32 \<Rightarrow> int" where
  "compare_by_handle sv a b =
     (if svc_service_name sv a < svc_service_name sv b then -1 else if svc_service_name sv a = svc_service_name sv b then 0 else 1)"

partial_function (option) handle_walk :: "services \<Rightarrow> u32 \<Rightarrow> u32 list option" where
  "handle_walk sv h =
     (if h = SVC_SERVICE_INVALID_HANDLE then Some []
      else Option.bind (handle_walk sv (svc_service_next sv h)) (\<lambda>hs. Some (h # hs)))"

text \<open>The handles as \<open>qsort\<close> leaves them; those of equal names can come in any order, here they keep theirs.\<close>

definition sorted_handles :: "services \<Rightarrow> u32 list option" where
  "sorted_handles sv = map_option (sort_key (svc_service_name sv)) (handle_walk sv svc_service_first)"

fun ctrl_list :: "svc_cmd_env \<Rightarrow> addr \<Rightarrow> u32 list \<Rightarrow> nat \<Rightarrow> shell_state \<Rightarrow> shell_state option" where
  "ctrl_list e pif [] j s = Some s"
| "ctrl_list e pif (h # hs) j s =
     (let (status, sv) = svc_service_status (sc_senv e) (sh_services s) h;
          s = s\<lparr>sh_services := sv\<rparr>
      in if status \<noteq> SVC_SERVICE_STATUS_RESIDENT then
           (let tmp = take 47 (dec_digits 1 j @ (if j < 10 then [32] else []) @ bytes ''   '' @ svc_service_name sv h);
                (nm, sv) = svc_service_status_name (sc_senv e) sv h
            in case svc_shell_print_table (sc_shell e) pif SVC_SHELL_OUT_STD tmp 20 (bytes nm @ [13, 10]) (s\<lparr>sh_services := sv\<rparr>) of
                 None \<Rightarrow> None
               | Some (_, s) \<Rightarrow> ctrl_list e pif hs (j + 1) s)
         else ctrl_list e pif hs j s)"

definition ctrl_say :: "svc_cmd_env \<Rightarrow> addr \<Rightarrow> u8 list \<Rightarrow> shell_state \<Rightarrow> shell_state" where
  "ctrl_say e pif t s = snd (svc_shell_print (sc_shell e) pif SVC_SHELL_OUT_STD t s)"

definition ctrl_stop :: "svc_cmd_env \<Rightarrow> addr \<Rightarrow> u8 list list \<Rightarrow> u32 \<Rightarrow> shell_state \<Rightarrow> int \<times> shell_state" where
  "ctrl_stop e pif argv h s =
     (let (res, sv) = svc_service_stop_timeout (sc_senv e) (sc_stop e) (sh_services s) h (sc_sem e);
          s = s\<lparr>sh_services := sv\<rparr>
      in (res, if res \<noteq> EOK then ctrl_say e pif (bytes ''ERROR: Stopping '' @ [39] @ argv ! 1 @ [39] @
             bytes '' service failed with '' @ dec_int res @ [13, 10]) s else s))"

definition ctrl_start :: "svc_cmd_env \<Rightarrow> addr \<Rightarrow> u8 list list \<Rightarrow> u32 \<Rightarrow> shell_state \<Rightarrow> int \<times> shell_state" where
  "ctrl_start e pif argv h s =
     (let s = (if length argv > 3 then
                 (let arg = (case svc_shell_scan_int (argv ! 3) of (_, Some v) \<Rightarrow> v | _ \<Rightarrow> 0)
                  in s\<lparr>sh_services := snd (svc_service_set_arg (sh_services s) h (unat arg))\<rparr>)
               else s);
          (res, sv) = svc_service_start_timeout (sc_senv e) (sc_start e) (sh_services s) h (sc_sem e);
          s = s\<lparr>sh_services := sv\<rparr>
      in (res, if res \<noteq> EOK then ctrl_say e pif (bytes ''ERROR: Starting '' @ [39] @ argv ! 1 @ [39] @
             bytes '' service failed with '' @ dec_int res @ [13, 10]) s else s))"

definition qshell_cmd_ctrl :: "svc_cmd_env \<Rightarrow> addr \<Rightarrow> u8 list list \<Rightarrow> shell_state \<Rightarrow> (int \<times> shell_state) option" where
  "qshell_cmd_ctrl e pif argv s =
     (if length argv < 2 then
        (case sorted_handles (sh_services s) of
           None \<Rightarrow> None
         | Some hs \<Rightarrow> map_option (Pair EOK) (ctrl_list e pif hs 0 s))
      else
        (let h = svc_service_get_by_name (sh_services s) (argv ! 1)
         in if h = SVC_SERVICE_INVALID_HANDLE then
              Some (EFAIL, ctrl_say e pif (bytes ''service '' @ argv ! 1 @ bytes '' not found'' @ [13, 10]) s)
            else if length argv = 2 then
              (let (nm, sv) = svc_service_status_name (sc_senv e) (sh_services s) h
               in Some (EOK, ctrl_say e pif (svc_service_name sv h @ [32] @ bytes nm @ [13, 10]) (s\<lparr>sh_services := sv\<rparr>)))
            else
              (let stop = same_name (bytes ''stop'') (argv ! 2);
                   start = same_name (bytes ''start'') (argv ! 2);
                   restart = same_name (bytes ''restart'') (argv ! 2)
               in if \<not> stop \<and> \<not> start \<and> \<not> restart then Some (SVC_SHELL_CMD_E_PARMS, s)
                  else
                    (let (res, s) = (if stop \<or> restart then ctrl_stop e pif argv h s else (EOK, s))
                     in if res \<noteq> EOK then Some (res, s)
                        else if start \<or> restart then
                          (let (res, s) = ctrl_start e pif argv h s in Some (if res \<noteq> EOK then res else EOK, s))
                        else Some (EOK, s)))))"

section \<open>logmsg, sleep and cls\<close>

text \<open>\<open>sscanf (str, "%u", &v)\<close> where \<open>v\<close> has the value \<open>v0\<close>: without a number it keeps it.\<close>

definition scan_u :: "u8 list \<Rightarrow> u32 \<Rightarrow> u32" where
  "scan_u str v0 = (let (v, range, rest) = strtoull str 10 in if rest = str then v0 else of_nat v)"

text \<open>The text of the user is the format of the message.\<close>

definition qshell_cmd_logmsg :: "svc_cmd_env \<Rightarrow> u8 list list \<Rightarrow> logger_state \<Rightarrow> (int \<times> logger_state) option" where
  "qshell_cmd_logmsg e argv l =
     (if length argv < 2 then Some (SVC_SHELL_CMD_E_PARMS, l)
      else
        (let level = (if length argv > 2 then scan_u (argv ! 2) (ucast SVC_LOGGER_SEVERITY_REPORT) else ucast SVC_LOGGER_SEVERITY_REPORT)
         in svc_logger_type_log (sc_log e) (ucast level) 0 (le_fmt (sc_log e) (argv ! 1)) l))"

text \<open>The result and how long the thread sleeps.\<close>

definition qshell_cmd_sleep :: "u8 list list \<Rightarrow> int \<times> u32" where
  "qshell_cmd_sleep argv = (SVC_SHELL_CMD_E_OK, if length argv > 1 then scan_u (argv ! 1) 0 else 0)"

definition qshell_cmd_cls :: "svc_cmd_env \<Rightarrow> addr \<Rightarrow> u8 list list \<Rightarrow> shell_state \<Rightarrow> int \<times> shell_state" where
  "qshell_cmd_cls e pif argv s = (EOK, ctrl_say e pif ([0x1b] @ bytes ''[2J'' @ [0x1b] @ bytes ''[H'') s)"

section \<open>dmesg\<close>

definition DMESG_MSG_SIZE :: u32 where "DMESG_MSG_SIZE = of_nat LOG_MSG_SIZE + 200"

text \<open>The low byte of the type is the severity.\<close>

definition dmesg_line :: "QORAAL_LOG_MSG_T \<Rightarrow> u8 list" where
  "dmesg_line m =
     dec_digits 6 (unat (lm_id m)) @ bytes '' ('' @ dec_digits 1 (unat (ucast (lm_type m) :: u8)) @ bytes '') - '' @
     dec_digits 4 (unat (d_year (lm_date m))) @ [45] @ dec_digits 2 (unat (d_month (lm_date m))) @ [45] @
     dec_digits 2 (unat (d_day (lm_date m))) @ [32] @ dec_digits 2 (unat (t_hour (lm_time m))) @ [58] @
     dec_digits 2 (unat (t_minute (lm_time m))) @ [58] @ dec_digits 2 (unat (t_second (lm_time m))) @ bytes '':  '' @ lm_msg m @ [13, 10]"

text \<open>The message is copied to \<open>msg\<close>; where that is too small, or null, its zero is written outside.\<close>

partial_function (option) dmesg_loop ::
    "svc_cmd_env \<Rightarrow> addr \<Rightarrow> u32 \<Rightarrow> u32 \<Rightarrow> MEMLOG_IT_T \<Rightarrow> mlog_state \<Rightarrow> shell_state \<Rightarrow> (mlog_state \<times> shell_state) option" where
  "dmesg_loop e pif severity cnt it g s =
     (if cnt = 0 then Some (g, s)
      else
        (case it_get_log g it DMESG_MSG_SIZE of
           ((res, None, _, _), g) \<Rightarrow> Some (g, s)
         | ((res, Some m, len, wr), g) \<Rightarrow>
             if sc_malloc e = NULL \<or> wr > unat DMESG_MSG_SIZE then None
             else if res < EOK then Some (g, s)
             else
               (let shown = (ucast (ucast (lm_type m) :: u8) \<le> severity);
                    s = (if shown then ctrl_say e pif (dmesg_line m) s else s);
                    cnt = (if shown then cnt - 1 else cnt)
                in case it_prev_log g it of
                     None \<Rightarrow> None
                   | Some (r, it) \<Rightarrow> if r \<noteq> EOK then Some (g, s) else dmesg_loop e pif severity cnt it g s)))"

definition dmesg_head :: "u32 \<Rightarrow> u8 list" where
  "dmesg_head severity = bytes ''severity<='' @ dec_int (sint severity) @ bytes ''   (log [severity] [count])'' @ SVC_SHELL_NEWLINE @
     replicate 39 45 @ SVC_SHELL_NEWLINE"

definition qshell_cmd_dmesg :: "svc_cmd_env \<Rightarrow> addr \<Rightarrow> u8 list list \<Rightarrow> mlog_state \<Rightarrow> shell_state \<Rightarrow> (int \<times> mlog_state \<times> shell_state) option" where
  "qshell_cmd_dmesg e pif argv g s =
     (let severity = (if length argv > 1 then scan_u (argv ! 1) 6 else 6);
          cnt = (if length argv > 2 then scan_u (argv ! 2) 16 else 16)
      in case mlog_platform_it_create (sc_it e) g MLOG_DBG of
           None \<Rightarrow> None
         | Some (a, it) \<Rightarrow>
             (let s = ctrl_say e pif (dmesg_head severity) s
              in if a \<noteq> NULL then map_option (\<lambda>(g, s). (SVC_SHELL_CMD_E_OK, g, s)) (dmesg_loop e pif severity cnt it g s)
                 else Some (SVC_SHELL_CMD_E_OK, g, s)))"

section \<open>What dmesg shows\<close>

lemma ctrl_say_eq: "ctrl_say e pif t s = s\<lparr>sh_outs := sh_outs s @ [(pif, SVC_SHELL_OUT_STD, Some (take (SVC_SHELL_PRINT_BUFFER_SIZE - 1) t))]\<rparr>"
  by (simp add: ctrl_say_def svc_shell_print_def shell_out_def)

lemma matching_all: "matching i 0 xs = map fst xs"
  by (simp add: matching_def type_matches_def)

text \<open>The read of a message that fits the memory of the command.\<close>

lemma it_get_short:
  assumes "mg_started g" "mg_inst g (pi_log it) = Some i" "cq_inv (in_cbuffer i) xs" "x \<in> set xs" "pi_it it = fst x"
    and short: "unat (lm_len (in_msg i (fst x))) < 200"
  obtains len wr where "it_get_log g it DMESG_MSG_SIZE = ((sint len, Some (in_msg i (fst x)), len, wr), g)" "EOK \<le> sint len" "wr \<le> unat DMESG_MSG_SIZE"
proof -
  have x: "fst x \<noteq> NULL" "cqueue_validate_item (in_cbuffer i) (fst x)"
    using item_place [OF assms(3,4)] validate_item_ok [OF assms(3,4)] by auto
  let ?n = "of_nat LOG_MSG_SIZE + ucast (lm_len (in_msg i (fst x))) :: u32"
  have "unat (ucast (lm_len (in_msg i (fst x))) :: u32) = unat (lm_len (in_msg i (fst x)))"
    using short by (simp add: unsigned_ucast_eq take_bit_nat_eq_self)
  then have n: "unat ?n = LOG_MSG_SIZE + unat (lm_len (in_msg i (fst x)))"
    using short by (subst unat_u32_add) (simp_all add: LOG_MSG_SIZE_def)
  have "it_get_log g it DMESG_MSG_SIZE = ((sint ?n, Some (in_msg i (fst x)), ?n, LOG_MSG_SIZE + unat (lm_len (in_msg i (fst x))) + 1), g)"
    using assms(1,2,5) x n short
    by (simp add: it_get_log_def mlog_itertor_get_def mlog_itertor_release_def word_less_nat_alt DMESG_MSG_SIZE_def LOG_MSG_SIZE_def Let_def)
  moreover have "EOK \<le> sint ?n" using n short by (subst sint_u32_small) (simp_all add: LOG_MSG_SIZE_def EOK_def)
  ultimately show thesis using that short by (simp add: DMESG_MSG_SIZE_def LOG_MSG_SIZE_def)
qed

definition shown :: "u32 \<Rightarrow> QORAAL_LOG_MSG_T \<Rightarrow> bool" where
  "shown severity m \<longleftrightarrow> ucast (ucast (lm_type m) :: u8) \<le> severity"

definition line_out :: "addr \<Rightarrow> u8 list \<Rightarrow> addr \<times> u32 \<times> u8 list option" where
  "line_out pif t = (pif, SVC_SHELL_OUT_STD, Some (take (SVC_SHELL_PRINT_BUFFER_SIZE - 1) t))"

lemma dmesg_loop_shows:
  assumes "mg_started g" "mg_inst g MLOG_DBG = Some i" "cq_inv (in_cbuffer i) (as @ x # bs)" "sc_malloc e \<noteq> NULL"
    and "\<forall>y \<in> set (as @ [x]). unat (lm_len (in_msg i (fst y))) < 200"
  shows "dmesg_loop e pif severity cnt \<lparr>pi_it = fst x, pi_log = MLOG_DBG\<rparr> g s =
    Some (g, s\<lparr>sh_outs := sh_outs s @ map (\<lambda>m. line_out pif (dmesg_line m)) (take (unat cnt) (filter (shown severity) (log_msgs i (rev (as @ [x])))))\<rparr>)"
  using assms
proof (induction "length as" arbitrary: as x bs cnt s rule: less_induct)
  case less
  let ?it = "\<lparr>pi_it = fst x, pi_log = MLOG_DBG\<rparr>" and ?m = "in_msg i (fst x)"
  let ?ms = "\<lambda>as. filter (shown severity) (log_msgs i (rev as))"
  show ?case
  proof (cases "cnt = 0")
    case True
    then show ?thesis by (subst dmesg_loop.simps) simp
  next
    case False
    then obtain k where k: "unat cnt = Suc k" "unat (cnt - 1) = k" using unat_u32_pred by (metis not0_implies_Suc unat_eq_zero)
    obtain len wr where get: "it_get_log g ?it DMESG_MSG_SIZE = ((sint len, Some ?m, len, wr), g)" "EOK \<le> sint len" "wr \<le> unat DMESG_MSG_SIZE"
      using it_get_short [of g ?it i "as @ x # bs" x] less.prems(1-3,5) by auto
    have prev: "it_prev_log g ?it = Some (if as = [] then E_BOF else EOK, \<lparr>pi_it = if as = [] then NULL else fst (last as), pi_log = MLOG_DBG\<rparr>)"
    proof -
      have "as \<noteq> [] \<Longrightarrow> fst (last as) \<noteq> NULL" using item_place [OF less.prems(3), of "last as"] by simp
      moreover have "iter_walk cqueue_backwards (in_cbuffer i) (in_msg i) 0 (cqueue_backwards (in_cbuffer i) (fst x)) =
          Some (if as = [] then NULL else fst (last as))"
        using iter_backwards [OF less.prems(3), of 0] backwards_last [OF less.prems(3)] by (simp add: matching_all last_map)
      ultimately show ?thesis using less.prems(1,2) by (cases "as = []") (simp_all add: it_prev_log_def mlog_itertor_prev_def)
    qed
    let ?s = "if shown severity ?m then ctrl_say e pif (dmesg_line ?m) s else s" and ?cnt = "if shown severity ?m then cnt - 1 else cnt"
    have loop: "dmesg_loop e pif severity cnt ?it g s = (if as = [] then Some (g, ?s)
        else dmesg_loop e pif severity ?cnt \<lparr>pi_it = fst (last as), pi_log = MLOG_DBG\<rparr> g ?s)"
      using False get prev less.prems(4) by (subst dmesg_loop.simps) (auto simp: shown_def Let_def E_BOF_def EOK_def QORAAL_ERROR_def)
    have outs: "?s\<lparr>sh_outs := sh_outs ?s @ map (\<lambda>m. line_out pif (dmesg_line m)) (take (unat ?cnt) ms)\<rparr> =
        s\<lparr>sh_outs := sh_outs s @ map (\<lambda>m. line_out pif (dmesg_line m)) (take (unat cnt) (filter (shown severity) [?m] @ ms))\<rparr>" for ms
      using k by (simp add: ctrl_say_eq line_out_def)
    show ?thesis
    proof (cases as rule: rev_cases)
      case Nil
      then show ?thesis using loop k by (simp add: log_msgs_def ctrl_say_eq line_out_def)
    next
      case (snoc as' y)
      have "cq_inv (in_cbuffer i) (as' @ y # x # bs)" using less.prems(3) snoc by simp
      then have "dmesg_loop e pif severity ?cnt \<lparr>pi_it = fst y, pi_log = MLOG_DBG\<rparr> g ?s =
          Some (g, ?s\<lparr>sh_outs := sh_outs ?s @ map (\<lambda>m. line_out pif (dmesg_line m)) (take (unat ?cnt) (?ms (as' @ [y])))\<rparr>)"
        using less.prems snoc by (intro less.hyps) auto
      then have rest: "dmesg_loop e pif severity ?cnt \<lparr>pi_it = fst y, pi_log = MLOG_DBG\<rparr> g ?s =
          Some (g, s\<lparr>sh_outs := sh_outs s @ map (\<lambda>m. line_out pif (dmesg_line m)) (take (unat cnt) (filter (shown severity) [?m] @ ?ms as))\<rparr>)"
        unfolding outs snoc [symmetric] .
      have ms: "?ms (as @ [x]) = filter (shown severity) [?m] @ ?ms as" by (simp add: log_msgs_def)
      have ne: "as \<noteq> []" "fst (last as) = fst y" using snoc by simp_all
      show ?thesis unfolding ms loop if_not_P [OF ne(1)] ne(2) by (rule rest)
    qed
  qed
qed

text \<open>
  C34: What dmesg shows: of a well formed log with messages of less than 200 bytes it prints, below its heading, the newest
  messages whose severity is not above the asked one, the newest first, as many as are asked for, 16 if no number is
  given. The log stays as it is.
\<close>

theorem dmesg_shows_newest:
  assumes "mg_started g" "mg_inst g MLOG_DBG = Some i" "cq_inv (in_cbuffer i) xs" "sc_malloc e \<noteq> NULL" "sc_it e \<noteq> NULL"
    and "\<forall>m \<in> set (log_msgs i xs). unat (lm_len m) < 200"
    and "severity = (if length argv > 1 then scan_u (argv ! 1) 6 else 6)" "cnt = (if length argv > 2 then scan_u (argv ! 2) 16 else 16)"
  shows "qshell_cmd_dmesg e pif argv g s = Some (SVC_SHELL_CMD_E_OK, g, s\<lparr>sh_outs := sh_outs s @
    line_out pif (dmesg_head severity) # map (\<lambda>m. line_out pif (dmesg_line m)) (take (unat cnt) (filter (shown severity) (rev (log_msgs i xs))))\<rparr>)"
proof -
  have first: "mlog_itertor_first g MLOG_DBG 0 = Some (if xs = [] then NULL else fst (last xs))"
    using iter_backwards [of i xs "[]" 0] front_back_inv [OF assms(3)] assms(1-3) by (simp add: mlog_itertor_first_def matching_all last_map)
  show ?thesis
  proof (cases xs rule: rev_cases)
    case Nil
    then show ?thesis using first assms(1,5,7)
      by (simp add: qshell_cmd_dmesg_def mlog_platform_it_create_def ctrl_say_eq line_out_def log_msgs_def)
  next
    case (snoc as x)
    have x: "fst x \<noteq> NULL" using item_place [OF assms(3), of x] snoc by simp
    have "cq_inv (in_cbuffer i) (as @ x # [])" using assms(3) snoc by simp
    note loop = dmesg_loop_shows [OF assms(1,2) this assms(4), of pif severity cnt "ctrl_say e pif (dmesg_head severity) s"]
    have "dmesg_loop e pif severity cnt \<lparr>pi_it = fst x, pi_log = MLOG_DBG\<rparr> g (ctrl_say e pif (dmesg_head severity) s) =
        Some (g, s\<lparr>sh_outs := sh_outs s @ line_out pif (dmesg_head severity) #
          map (\<lambda>m. line_out pif (dmesg_line m)) (take (unat cnt) (filter (shown severity) (rev (log_msgs i xs))))\<rparr>)"
      using assms(6) snoc by (subst loop) (simp_all add: log_msgs_def rev_map ctrl_say_eq line_out_def)
    moreover have "mlog_platform_it_create (sc_it e) g MLOG_DBG = Some (sc_it e, \<lparr>pi_it = fst x, pi_log = MLOG_DBG\<rparr>)"
      using first x assms(1,5) snoc by (simp add: mlog_platform_it_create_def)
    ultimately show ?thesis using assms(5) unfolding qshell_cmd_dmesg_def assms(7,8) [symmetric] Let_def by simp
  qed
qed

definition demo_svc_cmd :: svc_cmd_env where
  "demo_svc_cmd = \<lparr>sc_shell = demo_shell_env, sc_stop = (\<lambda>v. (EOK, v)), sc_start = (\<lambda>v. (EOK, v)), sc_sem = 80, sc_log = demo_log_env,
     sc_malloc = 500, sc_it = 600\<rparr>"

theorem dmesg_shows_newest_witness:
  "\<exists>m. qshell_cmd_dmesg demo_svc_cmd 3 [[100]] demo_log_one demo_shell = Some (SVC_SHELL_CMD_E_OK, demo_log_one,
     demo_shell\<lparr>sh_outs := [line_out 3 (dmesg_head 6), line_out 3 (dmesg_line m)]\<rparr>)"
proof -
  define i where "i = (the (mg_inst demo_log MLOG_DBG))\<lparr>in_cbuffer := snd (cqueue_enqueue demo_cq 6)\<rparr>"
  have s: "mg_started demo_log_one" "mg_inst demo_log_one MLOG_DBG = Some i"
    by (simp_all add: demo_log_one_def i_def upd_inst_def demo_log_def)
  have inv: "cq_inv (in_cbuffer i) [(100, 12)]"
    using enqueue_inv [OF demo_cq_inv _ prod.collapse [symmetric], of 6] demo_enqueue_msg
    by (simp add: i_def CBUFFER_ITEM_HDR_DWSIZE_def)
  have msgs: "log_msgs i [(100, 12)] = [in_msg i 100]" "lm_len (in_msg i 100) = 0" "lm_type (in_msg i 100) = 0"
    by (simp_all add: log_msgs_def i_def demo_log_def)
  have env: "sc_malloc demo_svc_cmd \<noteq> NULL" "sc_it demo_svc_cmd \<noteq> NULL" by (simp_all add: demo_svc_cmd_def)
  have short: "\<forall>m \<in> set (log_msgs i [(100, 12)]). unat (lm_len m) < 200" by (simp add: msgs)
  from dmesg_shows_newest [OF s inv env short refl refl, where argv = "[[100]]" and pif = 3 and s = demo_shell] show ?thesis
    by (auto simp: msgs shown_def demo_shell_chain(3))
qed

section \<open>The list of services\<close>

lemma handle_walk_all:
  assumes "sx_list v \<noteq> None" "i < unat (sx_cnt v)"
  shows "handle_walk v (of_nat i) = Some (map of_nat [i..<unat (sx_cnt v)])"
  using assms(2)
proof (induction "unat (sx_cnt v) - i" arbitrary: i)
  case (Suc k)
  have i: "unat (of_nat i :: u32) = i" using Suc.prems(1) u32_less [of "sx_cnt v"] by (intro unat_u32_of_nat) linarith
  have cnt: "unat (sx_cnt v - 1) = unat (sx_cnt v) - 1" using Suc.prems(1) by (intro unat_u32_pred) simp
  have ni: "(of_nat i :: u32) \<noteq> SVC_SERVICE_INVALID_HANDLE"
  proof
    assume "(of_nat i :: u32) = SVC_SERVICE_INVALID_HANDLE"
    then have "i = 4294967295" using i by (simp add: SVC_SERVICE_INVALID_HANDLE_def)
    then show False using Suc.prems(1) u32_less [of "sx_cnt v"] by linarith
  qed
  have nx: "svc_service_next v (of_nat i) = (if i < unat (sx_cnt v) - 1 then of_nat (Suc i) else SVC_SERVICE_INVALID_HANDLE)"
    using assms(1) i cnt by (simp add: svc_service_next_def word_less_nat_alt add.commute)
  show ?case
  proof (cases "i < unat (sx_cnt v) - 1")
    case True
    then have "handle_walk v (of_nat (Suc i)) = Some (map of_nat [Suc i..<unat (sx_cnt v)])" using Suc.hyps(2) by (intro Suc.hyps(1)) auto
    then show ?thesis using ni nx True Suc.prems by (subst handle_walk.simps) (simp add: upt_conv_Cons)
  next
    case False
    then have "[i..<unat (sx_cnt v)] = [i]" using Suc.prems(1) by (simp add: upt_rec)
    moreover have "handle_walk v SVC_SERVICE_INVALID_HANDLE = Some []" by (subst handle_walk.simps) simp
    ultimately show ?thesis using ni nx False by (subst handle_walk.simps) simp
  qed
qed simp

text \<open>The list of the services names each of them once, in the order of the names.\<close>

theorem sorted_handles_all:
  assumes "sx_list v \<noteq> None" "0 < sx_cnt v"
  shows "\<exists>hs. sorted_handles v = Some hs \<and> mset hs = mset (map of_nat [0..<unat (sx_cnt v)]) \<and> sorted (map (svc_service_name v) hs)"
  using handle_walk_all [OF assms(1), of 0] assms(2)
  by (simp add: sorted_handles_def svc_service_first_def unat_gt_0 word_neq_0_conv mset_sort)

section \<open>What ctrl does not report\<close>

lemma find_upt: "List.find P [0..<n] = Some i \<Longrightarrow> i < n"
  by (auto simp: find_Some_iff)

lemma prefix_loop_result: "prefix_loop l name is handle \<in> {SVC_SERVICE_INVALID_HANDLE, handle} \<union> of_nat ` set is"
  by (induction l name "is" handle rule: prefix_loop.induct) auto

lemma get_by_name_bound:
  assumes "sx_list v = Some l" "svc_service_get_by_name v n \<noteq> SVC_SERVICE_INVALID_HANDLE"
  shows "svc_service_get_by_name v n < sx_cnt v"
proof -
  have "\<exists>i < unat (sx_cnt v). svc_service_get_by_name v n = of_nat i"
    using assms prefix_loop_result [of l n "[0..<unat (sx_cnt v)]" SVC_SERVICE_INVALID_HANDLE]
    by (auto simp: svc_service_get_by_name_def dest!: find_upt split: option.splits)
  then obtain i where i: "i < unat (sx_cnt v)" "svc_service_get_by_name v n = of_nat i" by blast
  moreover have "unat (of_nat i :: u32) = i" using i(1) u32_less [of "sx_cnt v"] by (intro unat_u32_of_nat) linarith
  ultimately show ?thesis by (simp add: word_less_nat_alt)
qed

definition waits_keep :: "(services \<Rightarrow> int \<times> services) \<Rightarrow> bool" where
  "waits_keep w \<longleftrightarrow> (\<forall>v. (sx_list (snd (w v)) = None) = (sx_list v = None) \<and> sx_cnt (snd (w v)) = sx_cnt v)"

lemma stop_timeout_ok:
  assumes "sx_list v \<noteq> None" "handle < sx_cnt v" "unat (sx_cnt v) \<le> length (statuses v)" "waits_keep w"
  obtains v' where "svc_service_stop_timeout env w v handle sem = (EOK, v')" "sx_list v' \<noteq> None" "sx_cnt v' = sx_cnt v"
proof -
  obtain st v1 where st: "service_status env v (unat handle) = (st, v1)" by fastforce
  have c1: "same_core v v1" using service_status_core [OF st] by blast
  have h: "unat handle < length (statuses v1)" using c1 assms(2,3) by (simp add: same_core_def word_less_nat_alt)
  obtain r v2 where r: "svc_service_stop env v1 handle RESTART_CB sem = (r, v2)" by fastforce
  have k2: "sx_cnt v2 = sx_cnt v" "sx_list v2 \<noteq> None"
    using svc_service_stop_outcome [OF h r] c1 assms(1) by (auto simp: stop_outcome_def same_core_def set_core_def)
  obtain x v3 where w: "w v2 = (x, v3)" by fastforce
  have k3: "sx_cnt v3 = sx_cnt v" "sx_list v3 \<noteq> None"
    using assms(4) k2 w by (auto simp: waits_keep_def dest!: spec [of _ v2])
  let ?v = "if st = SVC_SERVICE_STATUS_STOPPED then v1 else if r = EOK then upd_svc v3 (unat handle) (\<lambda>p. p\<lparr>sv_cb := NULL, sv_cb_parm := 0\<rparr>) else v2"
  have "svc_service_stop_timeout env w v handle sem = (EOK, ?v)"
    using assms(1,2) st r w by (auto simp: svc_service_stop_timeout_def Let_def not_le [symmetric])
  moreover have "sx_list ?v \<noteq> None" "sx_cnt ?v = sx_cnt v"
    using c1 k2 k3 assms(1) by (auto simp: same_core_def upd_svc_def)
  ultimately show thesis by (rule that)
qed

text \<open>A start, a stop or a restart of a service that is registered never fails for the command, whatever the control functions of
  the service answer, whether its thread could be created, and whether the waits time out: the blocking operations always
  return EOK, so that the messages of the command for a failure cannot appear.\<close>

theorem ctrl_hides_failures:
  assumes "sx_list (sh_services s) \<noteq> None" "unat (sx_cnt (sh_services s)) \<le> length (statuses (sh_services s))"
    and "svc_service_get_by_name (sh_services s) (argv ! 1) \<noteq> SVC_SERVICE_INVALID_HANDLE" "length argv = 3"
    and "same_name (bytes ''stop'') (argv ! 2) \<or> same_name (bytes ''start'') (argv ! 2) \<or> same_name (bytes ''restart'') (argv ! 2)"
    and "waits_keep (sc_stop e)"
  shows "\<exists>s'. qshell_cmd_ctrl e pif argv s = Some (EOK, s') \<and> sh_outs s' = sh_outs s"
proof -
  define h where "h = svc_service_get_by_name (sh_services s) (argv ! 1)"
  define stop where "stop \<longleftrightarrow> same_name (bytes ''stop'') (argv ! 2)"
  define start where "start \<longleftrightarrow> same_name (bytes ''start'') (argv ! 2)"
  define restart where "restart \<longleftrightarrow> same_name (bytes ''restart'') (argv ! 2)"
  have h: "h \<noteq> SVC_SERVICE_INVALID_HANDLE" "h < sx_cnt (sh_services s)" using assms(1,3) get_by_name_bound by (auto simp: h_def)
  obtain v where stop_ok: "svc_service_stop_timeout (sc_senv e) (sc_stop e) (sh_services s) h (sc_sem e) = (EOK, v)"
    and v: "sx_list v \<noteq> None" "sx_cnt v = sx_cnt (sh_services s)"
    using stop_timeout_ok [OF assms(1) h(2) assms(2,6)] by blast
  have stop_eq: "ctrl_stop e pif argv h s = (EOK, s\<lparr>sh_services := v\<rparr>)"
    using stop_ok by (simp add: ctrl_stop_def)
  define t where "t = (if stop \<or> restart then s\<lparr>sh_services := v\<rparr> else s)"
  have t: "sx_list (sh_services t) \<noteq> None" "h < sx_cnt (sh_services t)" "sh_outs t = sh_outs s"
    using v h(2) assms(1) by (simp_all add: t_def)
  obtain r v' where r: "svc_service_start_timeout (sc_senv e) (sc_start e) (sh_services t) h (sc_sem e) = (r, v')" by fastforce
  have "r = EOK" using start_timeout_always_ok [OF t(1,2), of "sc_senv e" "sc_start e" "sc_sem e"] r by simp
  then have start_eq: "ctrl_start e pif argv h t = (EOK, t\<lparr>sh_services := v'\<rparr>)"
    using r assms(4) by (simp add: ctrl_start_def)
  have "qshell_cmd_ctrl e pif argv s = Some (EOK, if start \<or> restart then t\<lparr>sh_services := v'\<rparr> else t)"
    using assms(4,5) h(1) stop_eq start_eq
    unfolding qshell_cmd_ctrl_def h_def [symmetric] stop_def [symmetric] start_def [symmetric] restart_def [symmetric] t_def
    by (cases stop; cases restart; cases start) simp_all
  then show ?thesis using t(3) by simp
qed

end
