(* ===== verification/OsThread.thy ===== *)
theory OsThread
  imports OsTimer OsSync
begin

text \<open>
  Threads, mutexes, the objects of semaphores and events and the clock of the POSIX port, src/os_posix.c. The functions of
  pthreads are given with their documented behaviour; whether one fails is an argument. The life of a thread that the
  port creates is a step relation between the thread and the one that joins it.
\<close>

section \<open>The working area of a thread\<close>

text \<open>Where the thread is: created by \<open>pthread_create\<close>, in its function, behind it, behind the post of its semaphore, ended.\<close>

datatype thread_phase = Created | Running | Finished | Posted | Ended

text \<open>\<open>wa_exists\<close>: the memory of the area may be used; \<open>wa_join_sem\<close>, \<open>wa_suspend\<close>: the semaphore with its count, the mutex and the
  condition, while they are initialised; \<open>wa_handle\<close>: whether \<open>*thread\<close> points to the area; \<open>wa_waiting\<close>, \<open>wa_woken\<close>: the thread in \<open>os_thread_wait\<close>.\<close>

record OS_THREAD_WA_T =
  wa_exists :: bool
  wa_heap :: bool
  wa_phase :: thread_phase
  wa_join_sem :: "nat option"
  wa_suspend :: bool
  wa_suspend_msg :: int
  wa_waiting :: bool
  wa_woken :: bool
  wa_handle :: bool

definition wa_zero :: "bool \<Rightarrow> OS_THREAD_WA_T" where
  "wa_zero heap = \<lparr>wa_exists = True, wa_heap = heap, wa_phase = Created, wa_join_sem = None, wa_suspend = False, wa_suspend_msg = 0,
     wa_waiting = False, wa_woken = False, wa_handle = False\<rparr>"

section \<open>Creation\<close>

text \<open>The result is the status, the handle and the blocks that stay allocated, and the area where a thread was started. \<open>m\<close>: what
  \<open>qoraal_malloc\<close> returns; \<open>sem_ok\<close>, \<open>create_ok\<close>: whether \<open>sem_init\<close> and \<open>pthread_create\<close> succeed.\<close>

definition os_thread_create :: "addr \<Rightarrow> bool \<Rightarrow> bool \<Rightarrow> int \<times> addr \<times> addr set \<times> OS_THREAD_WA_T option" where
  "os_thread_create m sem_ok create_ok =
     (if m = NULL then (E_NOMEM, NULL, {}, None)
      else
        (let blocks = {m}; wa = wa_zero True
         in if \<not> sem_ok then (EFAIL, NULL, blocks - {m}, None)
            else
              (let wa = wa\<lparr>wa_join_sem := Some 0\<rparr>
               in if \<not> create_ok then (EFAIL, NULL, blocks - {m}, None)
                  else (EOK, m, blocks, Some (wa\<lparr>wa_handle := True\<rparr>)))))"

text \<open>\<open>wsp\<close>, \<open>sz\<close>: the memory of the caller and its size, \<open>need\<close>: that of the area.\<close>

definition os_thread_create_static :: "addr \<Rightarrow> u16 \<Rightarrow> nat \<Rightarrow> bool \<Rightarrow> bool \<Rightarrow> int \<times> addr \<times> OS_THREAD_WA_T option" where
  "os_thread_create_static wsp sz need sem_ok create_ok =
     (if wsp = NULL then (E_NOMEM, NULL, None)
      else if unat sz < need then (EFAIL, NULL, None)
      else
        (let wa = wa_zero False
         in if \<not> sem_ok then (EFAIL, NULL, None)
            else
              (let wa = wa\<lparr>wa_join_sem := Some 0\<rparr>
               in if \<not> create_ok then (EFAIL, NULL, None)
                  else (EOK, wsp, Some (wa\<lparr>wa_handle := True\<rparr>)))))"

section \<open>The thread\<close>

text \<open>The parts of \<open>task_start\<close>: before the function of the thread and behind it.\<close>

definition task_start_begin :: "OS_THREAD_WA_T \<Rightarrow> OS_THREAD_WA_T" where
  "task_start_begin wa = wa\<lparr>wa_suspend := True, wa_suspend_msg := 0, wa_phase := Running\<rparr>"

definition task_start_end :: "OS_THREAD_WA_T \<Rightarrow> OS_THREAD_WA_T" where
  "task_start_end wa = wa\<lparr>wa_join_sem := map_option Suc (wa_join_sem wa), wa_phase := Posted\<rparr>"

text \<open>\<open>key\<close>: whether the key of the thread-local storage is made, \<open>self\<close>: what \<open>pthread_self\<close> returns, \<open>own\<close>: the value of the key.\<close>

definition os_thread_current :: "bool \<Rightarrow> addr \<Rightarrow> addr \<Rightarrow> addr" where
  "os_thread_current key self own = (if \<not> key then self else if own \<noteq> NULL then own else self)"

definition os_thread_get_name :: "addr \<Rightarrow> bool \<Rightarrow> addr \<Rightarrow> addr \<Rightarrow> addr \<times> string" where
  "os_thread_get_name handle key self own = (if handle = NULL then os_thread_current key self own else handle, ''posix thread'')"

text \<open>The wait: the thread releases the mutex and waits for the condition; what ended the wait.\<close>

datatype wait_end = Signalled | Timed_out | Wait_failed

definition os_thread_wait_begin :: "OS_THREAD_WA_T \<Rightarrow> OS_THREAD_WA_T" where
  "os_thread_wait_begin wa = wa\<lparr>wa_waiting := True, wa_woken := False\<rparr>"

definition os_thread_wait_end :: "u32 \<Rightarrow> wait_end \<Rightarrow> OS_THREAD_WA_T \<Rightarrow> int \<times> OS_THREAD_WA_T" where
  "os_thread_wait_end ticks how wa =
     (if ticks = OS_TIME_INFINITE then wa_suspend_msg wa
      else case how of Signalled \<Rightarrow> wa_suspend_msg wa | Timed_out \<Rightarrow> E_TIMEOUT | Wait_failed \<Rightarrow> EFAIL,
      wa\<lparr>wa_waiting := False, wa_woken := False\<rparr>)"

definition os_thread_notify :: "int \<Rightarrow> OS_THREAD_WA_T \<Rightarrow> int \<times> OS_THREAD_WA_T" where
  "os_thread_notify msg wa =
     (if \<not> wa_handle wa then (E_NOIMPL, wa)
      else (EOK, wa\<lparr>wa_suspend_msg := msg, wa_woken := wa_waiting wa\<rparr>))"

definition os_thread_notify_isr :: "int \<Rightarrow> OS_THREAD_WA_T \<Rightarrow> int \<times> OS_THREAD_WA_T" where
  "os_thread_notify_isr msg wa = os_thread_notify msg wa"

section \<open>Join and release\<close>

text \<open>\<open>os_thread_release\<close> returns when the thread has ended; \<open>None\<close>: it waits in \<open>pthread_join\<close>.\<close>

definition os_thread_release :: "OS_THREAD_WA_T \<Rightarrow> OS_THREAD_WA_T option" where
  "os_thread_release wa =
     (if \<not> wa_handle wa then Some wa
      else if wa_phase wa \<noteq> Ended then None
      else Some (wa\<lparr>wa_join_sem := None, wa_suspend := False, wa_exists := \<not> wa_heap wa, wa_handle := False\<rparr>))"

text \<open>The wait of \<open>os_thread_join\<close> and \<open>os_thread_join_timeout\<close> for the semaphore, whatever the timeout; \<open>None\<close>: it waits on.\<close>

definition join_wait :: "OS_THREAD_WA_T \<Rightarrow> OS_THREAD_WA_T option" where
  "join_wait wa = (case wa_join_sem wa of Some (Suc n) \<Rightarrow> Some (wa\<lparr>wa_join_sem := Some n\<rparr>) | _ \<Rightarrow> None)"

definition os_thread_join :: "OS_THREAD_WA_T \<Rightarrow> OS_THREAD_WA_T option" where
  "os_thread_join wa = (if \<not> wa_handle wa then Some wa else Option.bind (join_wait wa) os_thread_release)"

definition os_thread_join_timeout :: "u32 \<Rightarrow> OS_THREAD_WA_T \<Rightarrow> (int \<times> OS_THREAD_WA_T) option" where
  "os_thread_join_timeout ticks wa =
     (if \<not> wa_handle wa then Some (EFAIL, wa) else map_option (Pair EOK) (Option.bind (join_wait wa) os_thread_release))"

section \<open>Mutexes\<close>

text \<open>A recursive mutex of pthreads: its owner and how often it holds it.\<close>

record pmutex =
  pm_owner :: "nat option"
  pm_cnt :: nat

definition os_mutex_init :: "bool \<Rightarrow> bool \<Rightarrow> bool \<Rightarrow> int \<times> pmutex option" where
  "os_mutex_init given attr_ok init_ok =
     (if \<not> given then (EFAIL, None) else if \<not> attr_ok then (EFAIL, None)
      else if \<not> init_ok then (EFAIL, None) else (EOK, Some \<lparr>pm_owner = None, pm_cnt = 0\<rparr>))"

text \<open>The status, the handle, the blocks that stay allocated and the mutex.\<close>

definition os_mutex_create :: "addr \<Rightarrow> bool \<Rightarrow> bool \<Rightarrow> int \<times> addr \<times> addr set \<times> pmutex option" where
  "os_mutex_create m attr_ok init_ok =
     (if m = NULL then (EFAIL, NULL, {}, None)
      else (let (res, mx) = os_mutex_init True attr_ok init_ok in (res, m, if res \<noteq> EOK then {m} - {m} else {m}, mx)))"

text \<open>\<open>None\<close>: the thread \<open>t\<close> waits for the owner. Without a mutex the handle is null.\<close>

definition os_mutex_lock :: "nat \<Rightarrow> pmutex option \<Rightarrow> (int \<times> pmutex option) option" where
  "os_mutex_lock t mx =
     (case mx of
        None \<Rightarrow> Some (EFAIL, None)
      | Some p \<Rightarrow> if pm_owner p \<in> {None, Some t} then Some (EOK, Some (p\<lparr>pm_owner := Some t, pm_cnt := pm_cnt p + 1\<rparr>)) else None)"

definition os_mutex_trylock :: "nat \<Rightarrow> pmutex option \<Rightarrow> int \<times> pmutex option" where
  "os_mutex_trylock t mx =
     (case mx of
        None \<Rightarrow> (EFAIL, None)
      | Some p \<Rightarrow> if pm_owner p \<in> {None, Some t} then (EOK, Some (p\<lparr>pm_owner := Some t, pm_cnt := pm_cnt p + 1\<rparr>)) else (EFAIL, Some p))"

definition os_mutex_unlock :: "nat \<Rightarrow> pmutex option \<Rightarrow> pmutex option" where
  "os_mutex_unlock t mx =
     (case mx of
        None \<Rightarrow> None
      | Some p \<Rightarrow> Some (if pm_owner p = Some t then (if pm_cnt p \<le> 1 then p\<lparr>pm_owner := None, pm_cnt := 0\<rparr> else p\<lparr>pm_cnt := pm_cnt p - 1\<rparr>) else p))"

definition os_mutex_deinit :: "pmutex option \<Rightarrow> pmutex option" where "os_mutex_deinit mx = None"

text \<open>The handle, the blocks and the mutex behind the call.\<close>

definition os_mutex_delete :: "addr \<Rightarrow> addr set \<Rightarrow> pmutex option \<Rightarrow> addr \<times> addr set \<times> pmutex option" where
  "os_mutex_delete h blocks mx = (if h = NULL then (h, blocks, mx) else (NULL, blocks - {h}, None))"

section \<open>Semaphores and events as objects\<close>

text \<open>The count of a semaphore, \<open>None\<close> for a null handle; \<open>ok\<close>: whether \<open>sem_init\<close> succeeds.\<close>

definition os_sem_init :: "bool \<Rightarrow> bool \<Rightarrow> int \<Rightarrow> int \<times> nat option" where
  "os_sem_init given ok cnt = (if \<not> given then (EFAIL, None) else if ok then (EOK, Some (nat cnt)) else (EFAIL, None))"

definition os_sem_create :: "addr \<Rightarrow> bool \<Rightarrow> int \<Rightarrow> int \<times> addr \<times> addr set \<times> nat option" where
  "os_sem_create m ok cnt =
     (if m = NULL then (EFAIL, NULL, {}, None) else (let (res, c) = os_sem_init True ok cnt in (res, m, {m}, c)))"

definition os_sem_reset :: "bool \<Rightarrow> int \<Rightarrow> nat option \<Rightarrow> int \<times> nat option" where
  "os_sem_reset ok cnt sem = (if sem = None then (EFAIL, None) else os_sem_init True ok cnt)"

definition os_sem_delete :: "addr \<Rightarrow> addr set \<Rightarrow> nat option \<Rightarrow> addr \<times> addr set \<times> nat option" where
  "os_sem_delete h blocks sem = (if h = NULL then (h, blocks, sem) else (NULL, blocks - {h}, None))"

definition os_sem_deinit :: "nat option \<Rightarrow> nat option" where "os_sem_deinit sem = None"

text \<open>\<open>None\<close>: the thread waits on.\<close>

definition os_sem_wait :: "nat option \<Rightarrow> (int \<times> nat option) option" where
  "os_sem_wait sem =
     (case sem of None \<Rightarrow> Some (EFAIL, None) | Some 0 \<Rightarrow> None | Some (Suc n) \<Rightarrow> Some (EOK, Some n))"

definition os_sem_post :: "nat option \<Rightarrow> nat option" where
  "os_sem_post sem = map_option os_sem_signal sem"

definition os_sem_count :: "nat option \<Rightarrow> int" where
  "os_sem_count sem = (case sem of None \<Rightarrow> EFAIL | Some n \<Rightarrow> int n)"

definition os_bsem_init :: "bool \<Rightarrow> bool \<Rightarrow> int \<Rightarrow> int \<times> nat option" where
  "os_bsem_init given ok taken = os_sem_init given ok (if taken \<noteq> 0 then 0 else 1)"

definition os_bsem_create :: "addr \<Rightarrow> bool \<Rightarrow> int \<Rightarrow> int \<times> addr \<times> addr set \<times> nat option" where
  "os_bsem_create m ok taken = os_sem_create m ok (if taken \<noteq> 0 then 0 else 1)"

definition os_bsem_reset :: "bool \<Rightarrow> int \<Rightarrow> nat option \<Rightarrow> int \<times> nat option" where
  "os_bsem_reset ok taken sem = os_sem_reset ok (if taken \<noteq> 0 then 0 else 1) sem"

definition os_bsem_wait :: "nat option \<Rightarrow> (int \<times> nat option) option" where "os_bsem_wait sem = os_sem_wait sem"
definition os_bsem_signal :: "nat option \<Rightarrow> nat option" where "os_bsem_signal sem = os_sem_post sem"

text \<open>The status, the handle, the blocks and the flags of an event; \<open>blocks\<close> has the block of the handle, if it has one.\<close>

definition os_event_init_at :: "bool \<Rightarrow> addr \<Rightarrow> addr set \<Rightarrow> int \<times> addr \<times> addr set \<times> u32 option" where
  "os_event_init_at ok h blocks = (if \<not> ok then (EFAIL, NULL, blocks - {h}, None) else (EOK, h, blocks, Some os_event_init))"

definition os_event_create :: "addr \<Rightarrow> bool \<Rightarrow> int \<times> addr \<times> addr set \<times> u32 option" where
  "os_event_create m ok = (if m = NULL then (EFAIL, NULL, {}, None) else os_event_init_at ok m {m})"

definition os_event_deinit :: "u32 option \<Rightarrow> u32 option" where "os_event_deinit flags = None"

definition os_event_delete :: "addr \<Rightarrow> addr set \<Rightarrow> u32 option \<Rightarrow> addr \<times> addr set \<times> u32 option" where
  "os_event_delete h blocks flags = (if h = NULL then (h, blocks, flags) else (NULL, blocks - {h}, os_event_deinit flags))"

section \<open>The system\<close>

text \<open>The time of \<open>gettimeofday\<close>: seconds and microseconds.\<close>

definition os_sys_ticks :: "nat \<times> nat \<Rightarrow> u32" where "os_sys_ticks tv = of_nat (fst tv * 1000 + snd tv div 1000)"
definition os_sys_timestamp :: "nat \<times> nat \<Rightarrow> u32" where "os_sys_timestamp tv = of_nat (fst tv * 1000 + snd tv div 1000)"
definition os_sys_us_timestamp :: "nat \<times> nat \<Rightarrow> u32" where "os_sys_us_timestamp tv = of_nat (fst tv * 1000000 + snd tv)"

text \<open>How many microseconds a sleep takes, 0 for a yield; the argument of \<open>usleep\<close> has 32 bits.\<close>

definition os_thread_sleep :: "u32 \<Rightarrow> u32" where "os_thread_sleep msec = (if msec \<noteq> 0 then msec * 1000 else 0)"
definition os_thread_sleep_ticks :: "u32 \<Rightarrow> u32" where "os_thread_sleep_ticks ticks = (if ticks \<noteq> 0 then ticks * 1000 else 0)"

definition os_sys_start :: "bool \<Rightarrow> timer_state \<Rightarrow> bool \<times> timer_state" where
  "os_sys_start started s = (if \<not> started then (True, start_timer_manager s) else (started, s))"

definition os_sys_started :: "bool \<Rightarrow> bool" where "os_sys_started started = started"

definition os_sys_stop :: "bool \<Rightarrow> timer_state \<Rightarrow> (bool \<times> timer_state) option" where
  "os_sys_stop started s = (if started then map_option (Pair False) (stop_timer_manager s) else Some (started, s))"

definition os_sys_is_irq :: u32 where "os_sys_is_irq = 0"

text \<open>\<open>mem\<close>: the word at an address; the identifier of a thread is the first word of its working area, \<open>errno_at\<close> the place of its error
  number. \<open>sched\<close>: the priority \<open>pthread_getschedparam\<close> returns. \<open>cur\<close>: what \<open>os_thread_current\<close> returns; these two
  functions take it for a pointer to a handle.\<close>

definition os_thread_get_prio :: "(addr \<Rightarrow> addr) \<Rightarrow> (addr \<Rightarrow> int option) \<Rightarrow> int \<Rightarrow> int \<Rightarrow> addr \<Rightarrow> u32" where
  "os_thread_get_prio mem sched lo hi cur =
     (let wa = mem cur
      in if wa = NULL then 0
         else case sched (mem wa) of Some p \<Rightarrow> word_of_int (map_posix_to_custom_priority lo hi p) | None \<Rightarrow> 0)"

definition os_thread_errno :: "(addr \<Rightarrow> addr) \<Rightarrow> nat \<Rightarrow> addr \<Rightarrow> addr" where
  "os_thread_errno mem errno_at cur = (let wa = mem cur in if wa = NULL then NULL else wa + errno_at)"

definition os_bsem_delete :: "addr \<Rightarrow> addr set \<Rightarrow> nat option \<Rightarrow> addr \<times> addr set \<times> nat option" where
  "os_bsem_delete h blocks sem = os_sem_delete h blocks sem"

definition os_bsem_wait_timeout :: "bool \<Rightarrow> bool \<Rightarrow> nat \<times> nat \<Rightarrow> u32 \<Rightarrow> nat \<Rightarrow> (int \<times> nat) option" where
  "os_bsem_wait_timeout strict passed now ticks cnt = os_sem_wait_timeout strict passed now ticks cnt"

definition os_event_signal_isr :: "u32 \<Rightarrow> u32 \<Rightarrow> u32" where
  "os_event_signal_isr msk flags = os_event_signal msk flags"

section \<open>The life of a thread\<close>

text \<open>The steps of the thread, of those that notify it and of the one that joins it; the flag says whether the join has taken the
  semaphore. A wait of the thread can end at any time.\<close>

inductive thread_step :: "OS_THREAD_WA_T \<times> bool \<Rightarrow> OS_THREAD_WA_T \<times> bool \<Rightarrow> bool" where
  starts: "wa_phase wa = Created \<Longrightarrow> thread_step (wa, j) (task_start_begin wa, j)"
| finish: "wa_phase wa = Running \<Longrightarrow> \<not> wa_waiting wa \<Longrightarrow> thread_step (wa, j) (wa\<lparr>wa_phase := Finished\<rparr>, j)"
| post: "wa_phase wa = Finished \<Longrightarrow> thread_step (wa, j) (task_start_end wa, j)"
| ended: "wa_phase wa = Posted \<Longrightarrow> thread_step (wa, j) (wa\<lparr>wa_phase := Ended\<rparr>, j)"
| wait: "wa_phase wa = Running \<Longrightarrow> \<not> wa_waiting wa \<Longrightarrow> thread_step (wa, j) (os_thread_wait_begin wa, j)"
| wake: "wa_phase wa = Running \<Longrightarrow> wa_waiting wa \<Longrightarrow> thread_step (wa, j) (snd (os_thread_wait_end ticks how wa), j)"
| notify: "thread_step (wa, j) (snd (os_thread_notify msg wa), j)"
| taken: "wa_handle wa \<Longrightarrow> \<not> j \<Longrightarrow> join_wait wa = Some wa' \<Longrightarrow> thread_step (wa, j) (wa', True)"
| release: "wa_handle wa \<Longrightarrow> os_thread_release wa = Some wa' \<Longrightarrow> thread_step (wa, j) (wa', j)"

definition created_area :: "bool \<Rightarrow> OS_THREAD_WA_T" where
  "created_area heap = (wa_zero heap)\<lparr>wa_join_sem := Some 0, wa_handle := True\<rparr>"

lemma create_makes_area:
  "os_thread_create m sem_ok create_ok = (r, h, blocks, wa) \<Longrightarrow>
    (if r = EOK then h = m \<and> blocks = {m} \<and> wa = Some (created_area True) else h = NULL \<and> blocks = {} \<and> wa = None)"
  "os_thread_create_static wsp sz need sem_ok create_ok = (r, h, wa) \<Longrightarrow>
    (if r = EOK then h = wsp \<and> wa = Some (created_area False) else h = NULL \<and> wa = None)"
  by (auto simp: os_thread_create_def os_thread_create_static_def created_area_def wa_zero_def Let_def err_codes split: if_splits)

definition thread_reach :: "bool \<Rightarrow> OS_THREAD_WA_T \<times> bool \<Rightarrow> bool" where
  "thread_reach heap s \<longleftrightarrow> thread_step\<^sup>*\<^sup>* (created_area heap, False) s"

definition area_inv :: "bool \<Rightarrow> OS_THREAD_WA_T \<times> bool \<Rightarrow> bool" where
  "area_inv heap s \<longleftrightarrow> (let wa = fst s; posted = (wa_phase wa = Posted \<or> wa_phase wa = Ended) in
     wa_heap wa = heap \<and> (wa_waiting wa \<longrightarrow> wa_phase wa = Running) \<and> (snd s \<longrightarrow> posted) \<and>
     (if wa_handle wa then wa_exists wa \<and> wa_join_sem wa = Some (if posted \<and> \<not> snd s then 1 else 0) \<and> wa_suspend wa = (wa_phase wa \<noteq> Created)
      else wa_phase wa = Ended \<and> wa_exists wa = (\<not> heap) \<and> wa_join_sem wa = None \<and> \<not> wa_suspend wa))"

lemma area_inv_step: "thread_step s s' \<Longrightarrow> area_inv heap s \<Longrightarrow> area_inv heap s'"
proof (induction rule: thread_step.induct)
  case (taken wa j wa')
  then show ?case by (auto simp: area_inv_def Let_def join_wait_def split: if_splits)
qed (auto simp: area_inv_def Let_def task_start_begin_def task_start_end_def os_thread_wait_begin_def os_thread_wait_end_def
  os_thread_notify_def os_thread_release_def split: if_splits)

lemma area_inv_reach: "thread_reach heap s \<Longrightarrow> area_inv heap s"
proof -
  have "thread_step\<^sup>*\<^sup>* s0 s \<Longrightarrow> area_inv heap s0 \<Longrightarrow> area_inv heap s" for s0
    by (induction rule: rtranclp_induct) (auto intro: area_inv_step)
  moreover have "area_inv heap (created_area heap, False)" by (simp add: area_inv_def created_area_def wa_zero_def)
  ultimately show "thread_reach heap s \<Longrightarrow> area_inv heap s" by (simp add: thread_reach_def)
qed

text \<open>What is left until the join returns.\<close>

definition join_left :: "OS_THREAD_WA_T \<times> bool \<Rightarrow> nat" where
  "join_left s = (case wa_phase (fst s) of Created \<Rightarrow> 6 | Running \<Rightarrow> 5 | Finished \<Rightarrow> 3 | Posted \<Rightarrow> 2 | Ended \<Rightarrow> 1) +
     (if wa_waiting (fst s) then 1 else 0) + (if snd s then 0 else 1)"

lemma join_progress:
  assumes "area_inv heap s" "wa_handle (fst s)" "\<not> (snd s \<and> wa_phase (fst s) = Ended)"
  shows "\<exists>s'. thread_step s s' \<and> join_left s' < join_left s \<and> wa_handle (fst s')"
proof -
  obtain wa j where s: "s = (wa, j)" by fastforce
  have h: "wa_handle wa" using assms(2) s by simp
  show ?thesis
  proof (cases "wa_phase wa")
    case Created
    have "thread_step s (task_start_begin wa, j)" unfolding s by (rule thread_step.starts [OF Created])
    then show ?thesis using s h Created by (intro exI [of _ "(task_start_begin wa, j)"]) (simp add: join_left_def task_start_begin_def)
  next
    case Running
    show ?thesis
    proof (cases "wa_waiting wa")
      case True
      let ?w = "snd (os_thread_wait_end OS_TIME_INFINITE Signalled wa)"
      have "thread_step s (?w, j)" unfolding s by (rule thread_step.wake [OF Running True])
      then show ?thesis using s h Running True by (intro exI [of _ "(?w, j)"]) (simp add: join_left_def os_thread_wait_end_def)
    next
      case False
      have "thread_step s (wa\<lparr>wa_phase := Finished\<rparr>, j)" unfolding s by (rule thread_step.finish [OF Running False])
      then show ?thesis using s h Running False by (intro exI [of _ "(wa\<lparr>wa_phase := Finished\<rparr>, j)"]) (simp add: join_left_def)
    qed
  next
    case Finished
    have "thread_step s (task_start_end wa, j)" unfolding s by (rule thread_step.post [OF Finished])
    then show ?thesis using s h Finished by (intro exI [of _ "(task_start_end wa, j)"]) (simp add: join_left_def task_start_end_def)
  next
    case Posted
    have "thread_step s (wa\<lparr>wa_phase := Ended\<rparr>, j)" unfolding s by (rule thread_step.ended [OF Posted])
    then show ?thesis using s h Posted by (intro exI [of _ "(wa\<lparr>wa_phase := Ended\<rparr>, j)"]) (simp add: join_left_def)
  next
    case Ended
    then have j: "\<not> j" "join_wait wa = Some (wa\<lparr>wa_join_sem := Some 0\<rparr>)" using assms s by (auto simp: area_inv_def join_wait_def)
    have "thread_step s (wa\<lparr>wa_join_sem := Some 0\<rparr>, True)" unfolding s by (rule thread_step.taken [OF h j])
    then show ?thesis using s h j Ended by (intro exI [of _ "(wa\<lparr>wa_join_sem := Some 0\<rparr>, True)"]) (simp add: join_left_def)
  qed
qed

lemma join_reaches:
  assumes "area_inv heap s" "wa_handle (fst s)"
  shows "\<exists>wa. thread_step\<^sup>*\<^sup>* s (wa, True) \<and> wa_handle wa \<and> wa_phase wa = Ended"
  using assms
proof (induction "join_left s" arbitrary: s rule: less_induct)
  case less
  show ?case
  proof (cases "snd s \<and> wa_phase (fst s) = Ended")
    case True
    then show ?thesis using less.prems(2) by (cases s) auto
  next
    case False
    obtain s' where s': "thread_step s s'" "join_left s' < join_left s" "wa_handle (fst s')" using join_progress [OF less.prems False] by blast
    then show ?thesis using less.hyps [OF s'(2) area_inv_step [OF s'(1) less.prems(1)] s'(3)] by (meson converse_rtranclp_into_rtranclp)
  qed
qed

text \<open>C17: As long as a thread has not ended its working area exists with its semaphore, and behind the first step of the thread with
  the mutex and the condition of its waits; a join is never stuck: from every state it can come to its end, which finds the thread
  ended, releases a block of the heap and clears the handle.\<close>

theorem thread_area_lives:
  assumes "thread_reach heap (wa, j)"
  shows "(wa_phase wa \<noteq> Ended \<longrightarrow> wa_exists wa \<and> wa_join_sem wa \<noteq> None) \<and>
    (wa_phase wa \<notin> {Created, Ended} \<longrightarrow> wa_suspend wa) \<and>
    (wa_handle wa \<longrightarrow> (\<exists>wa'. thread_step\<^sup>*\<^sup>* (wa, j) (wa', True) \<and> wa_phase wa' = Ended \<and> \<not> wa_handle wa' \<and> wa_exists wa' = (\<not> heap)))"
proof (intro conjI impI)
  note inv = area_inv_reach [OF assms]
  show "wa_exists wa" "wa_join_sem wa \<noteq> None" if "wa_phase wa \<noteq> Ended" using inv that by (auto simp: area_inv_def Let_def split: if_splits)
  show "wa_suspend wa" if "wa_phase wa \<notin> {Created, Ended}" using inv that by (auto simp: area_inv_def Let_def split: if_splits)
  assume "wa_handle wa"
  then obtain wa1 where wa1: "thread_step\<^sup>*\<^sup>* (wa, j) (wa1, True)" "wa_handle wa1" "wa_phase wa1 = Ended" using join_reaches [OF inv] by auto
  let ?wa2 = "wa1\<lparr>wa_join_sem := None, wa_suspend := False, wa_exists := \<not> wa_heap wa1, wa_handle := False\<rparr>"
  have "thread_step (wa1, True) (?wa2, True)" using wa1 by (intro thread_step.release) (simp_all add: os_thread_release_def)
  then have run: "thread_step\<^sup>*\<^sup>* (wa, j) (?wa2, True)" using wa1(1) by simp
  then have "thread_reach heap (?wa2, True)" using assms by (simp add: thread_reach_def)
  then have "wa_exists ?wa2 = (\<not> heap)" using area_inv_reach [of heap "(?wa2, True)"] by (simp add: area_inv_def Let_def)
  then show "\<exists>wa'. thread_step\<^sup>*\<^sup>* (wa, j) (wa', True) \<and> wa_phase wa' = Ended \<and> \<not> wa_handle wa' \<and> wa_exists wa' = (\<not> heap)"
    using run wa1(3) by (intro exI [of _ ?wa2]) simp
qed

theorem thread_area_lives_witness:
  "\<exists>wa'. thread_step\<^sup>*\<^sup>* (task_start_begin (created_area True), False) (wa', True) \<and> wa_phase wa' = Ended \<and> \<not> wa_handle wa' \<and> wa_exists wa' = False"
proof -
  have "wa_phase (created_area True) = Created" by (simp add: created_area_def wa_zero_def)
  then have "thread_reach True (task_start_begin (created_area True), False)"
    unfolding thread_reach_def using thread_step.starts by blast
  from thread_area_lives [OF this] show ?thesis by (simp add: task_start_begin_def created_area_def)
qed

section \<open>Lost notifications and times\<close>

text \<open>A notification that comes before the wait does not end it, and one before the first step of the thread loses its message as well.\<close>

theorem early_notify_is_lost:
  "\<not> wa_woken (os_thread_wait_begin (snd (os_thread_notify msg wa))) \<and>
   wa_suspend_msg (task_start_begin (snd (os_thread_notify msg wa))) = 0"
  by (simp add: os_thread_wait_begin_def task_start_begin_def)

text \<open>The join with a timeout is the join without.\<close>

theorem join_timeout_ignored: "wa_handle wa \<Longrightarrow> os_thread_join_timeout ticks wa = map_option (Pair EOK) (os_thread_join wa)"
  by (simp add: os_thread_join_timeout_def os_thread_join_def)

text \<open>A binary semaphore counts: two signals let two waits pass.\<close>

theorem bsem_counts: "os_sem_count (os_bsem_signal (os_bsem_signal (snd (os_bsem_init True True 1)))) = 2"
  by (simp add: os_bsem_signal_def os_bsem_init_def os_sem_init_def os_sem_post_def os_sem_signal_def os_sem_count_def)

text \<open>A sleep of more than 71 minutes is cut.\<close>

theorem long_sleep_wraps: "os_thread_sleep 4294968 = 704"
  by (simp add: os_thread_sleep_def)

text \<open>The difference of two tick counts is that of the times in milliseconds, over every overflow of the counts.\<close>

theorem ticks_measure_time:
  assumes "ms t = fst t * 1000 + snd t div 1000" "ms t' = fst t' * 1000 + snd t' div 1000" "ms t \<le> ms t'" "ms t' < ms t + 2147483648"
  shows "tick_diff (os_sys_ticks t') (os_sys_ticks t) = int (ms t') - int (ms t)"
proof -
  have "os_sys_ticks t' - os_sys_ticks t = of_nat (ms t' - ms t)"
    unfolding os_sys_ticks_def assms(1,2) [symmetric] using assms(3) by (simp add: of_nat_diff)
  moreover have "unat (of_nat (ms t' - ms t) :: u32) = ms t' - ms t" using assms(4) by (intro unat_u32_of_nat) linarith
  ultimately show ?thesis using assms(3,4) by (simp add: tick_diff_def sint_u32_small)
qed

text \<open>The error number of a thread is not in its working area, but where its thread identifier points to.\<close>

theorem errno_outside_area: "mem cur \<noteq> NULL \<Longrightarrow> os_thread_errno mem errno_at cur = mem cur + errno_at"
  by (simp add: os_thread_errno_def)

text \<open>A mutex that could not be made is released, but its handle keeps the address; a semaphore that could not be made is not released.\<close>

theorem failed_objects:
  "m \<noteq> NULL \<Longrightarrow> os_mutex_create m attr_ok False = (EFAIL, m, {}, None) \<and> os_sem_create m False cnt = (EFAIL, m, {m}, None)"
  by (simp add: os_mutex_create_def os_mutex_init_def os_sem_create_def os_sem_init_def err_codes)

end
