(* ===== verification/Qoraal.thy ===== *)
theory Qoraal
  imports Heap Events Message Logger Shell
begin

text \<open>
  The start and the stop of the library, src/qoraal.c: the functions that initialise, start and stop its services in order.
  The state holds that of every part; the scheduler, which the watchdog, the messages and the logger share, is kept in the
  watchdog, which the shell holds as well as the services with their threads. The initialisations of messages and
  logger do not touch the scheduler.
\<close>

section \<open>Data\<close>

definition SERVICE_PRIO_QUEUE3 :: u16 where "SERVICE_PRIO_QUEUE3 = 3"
definition SVC_SERVICE_FLAGS_AUTOSTART :: u32 where "SVC_SERVICE_FLAGS_AUTOSTART = 1"

record 'p qoraal_state =
  qr_heap :: "'p heap_state"
  qr_events :: events_state
  qr_message :: message_state
  qr_logger :: logger_state
  qr_shell :: shell_state

abbreviation qr_wdt :: "'p qoraal_state \<Rightarrow> wdt_state" where
  "qr_wdt q \<equiv> sh_wdt (qr_shell q)"

abbreviation qr_tasks :: "'p qoraal_state \<Rightarrow> tasks_state" where
  "qr_tasks q \<equiv> wd_tasks (qr_wdt q)"

abbreviation qr_services :: "'p qoraal_state \<Rightarrow> services" where
  "qr_services q \<equiv> sh_services (qr_shell q)"

text \<open>The memory of the logs and what is found in it; the table of the commands; what the system answers: the clock, whether the
  timer is set, the interval of the hardware watchdog, the creation of the threads.\<close>

record qoraal_env =
  qe_log_base :: addr
  qe_log_size :: u32
  qe_log_found :: MLOG_INST_T
  qe_log_assert :: MLOG_INST_T
  qe_commands :: "SVC_SHELL_CMD_T list"
  qe_senv :: senv
  qe_clk :: "nat \<Rightarrow> u32"
  qe_timer_set :: bool
  qe_hw :: u32
  qe_events :: int
  qe_idle :: int
  qe_create :: "nat \<Rightarrow> int \<times> nat"
  qe_started :: "nat \<Rightarrow> bool"
  qe_join :: "nat \<Rightarrow> int"

definition on_shell :: "(shell_state \<Rightarrow> shell_state) \<Rightarrow> 'p qoraal_state \<Rightarrow> 'p qoraal_state" where
  "on_shell f q = q\<lparr>qr_shell := f (qr_shell q)\<rparr>"

definition on_wdt :: "(wdt_state \<Rightarrow> wdt_state) \<Rightarrow> 'p qoraal_state \<Rightarrow> 'p qoraal_state" where
  "on_wdt f q = on_shell (\<lambda>s. s\<lparr>sh_wdt := f (sh_wdt s)\<rparr>) q"

definition on_tasks :: "(tasks_state \<Rightarrow> tasks_state) \<Rightarrow> 'p qoraal_state \<Rightarrow> 'p qoraal_state" where
  "on_tasks f q = on_wdt (\<lambda>w. w\<lparr>wd_tasks := f (wd_tasks w)\<rparr>) q"

definition on_services :: "(services \<Rightarrow> services) \<Rightarrow> 'p qoraal_state \<Rightarrow> 'p qoraal_state" where
  "on_services f q = on_shell (\<lambda>s. s\<lparr>sh_services := f (sh_services s)\<rparr>) q"

section \<open>Initialisation\<close>

text \<open>The results of the parts are not looked at. \<open>None\<close>: the logs do not fit their memory.\<close>

definition qoraal_init_default :: "qoraal_env \<Rightarrow> 'p QORAAL_CFG_T \<Rightarrow> SVC_SERVICE_T list option \<Rightarrow> 'p qoraal_state \<Rightarrow> (int \<times> 'p qoraal_state) option" where
  "qoraal_init_default e inst l q =
     (let (res, h) = qoraal_instance_init inst (qr_heap q); q = q\<lparr>qr_heap := h\<rparr>
      in if res \<noteq> EOK then Some (E_UNEXP, q)
         else
           (let q = q\<lparr>qr_events := snd (svc_events_init (qr_events q))\<rparr>;
                q = q\<lparr>qr_message := snd (svc_message_init SERVICE_PRIO_QUEUE3 (qr_message q))\<rparr>
            in case svc_tasks_init None (qr_tasks q) of
                 None \<Rightarrow> None
               | Some (_, t) \<Rightarrow>
                   (let q = on_wdt (\<lambda>w. snd (svc_wdt_init w)) (on_tasks (\<lambda>_. t) q)
                    in case svc_logger_init (qe_log_base e) (qe_log_size e) (qe_log_found e) (qe_log_assert e) SERVICE_PRIO_QUEUE3 (qr_logger q) of
                         None \<Rightarrow> None
                       | Some (_, lg) \<Rightarrow>
                           (let q = q\<lparr>qr_logger := lg\<rparr>;
                                q = on_services (\<lambda>s. s\<lparr>sx_thr := snd (svc_threads_init (sx_thr s))\<rparr>) q;
                                q = on_shell (\<lambda>s. snd (svc_shell_init (qe_commands e) s)) q
                            in Some (EOK, case l of None \<Rightarrow> q | Some svs \<Rightarrow> on_services (\<lambda>s. snd (svc_service_services_init (qe_senv e) s svs)) q)))))"

section \<open>Start and stop\<close>

definition qoraal_start_default :: "qoraal_env \<Rightarrow> 'p qoraal_state \<Rightarrow> int \<times> 'p qoraal_state" where
  "qoraal_start_default e q =
     (if hp_instance (qr_heap q) = None then (E_UNEXP, q)
      else
        (let q = on_wdt (\<lambda>w. snd (svc_wdt_start (qe_clk e) (qe_timer_set e) (qe_hw e) w)) q;
             q = q\<lparr>qr_events := snd (svc_events_start (qe_events e) (qr_events q))\<rparr>;
             ignored = svc_message_start;
             q = on_tasks (\<lambda>t. snd (svc_tasks_start (qe_create e) (qe_started e) (qe_join e) t)) q;
             ignored = svc_logger_start;
             ignored = svc_threads_start (qe_idle e);
             ignored = svc_shell_start;
             q = on_services (\<lambda>s. snd (svc_service_services_start (qe_senv e) s SVC_SERVICE_FLAGS_AUTOSTART)) q
         in (EOK, q)))"

definition qoraal_stop_default :: "qoraal_env \<Rightarrow> 'p qoraal_state \<Rightarrow> int \<times> 'p qoraal_state" where
  "qoraal_stop_default e q =
     (if hp_instance (qr_heap q) = None then (E_UNEXP, q)
      else
        (let q = on_services (svc_service_system_halt (qe_senv e)) q;
             ignored = svc_shell_stop;
             q = on_tasks (\<lambda>t. snd (svc_tasks_stop (qe_join e) 100 t)) q;
             q = q\<lparr>qr_events := svc_events_stop (qr_events q)\<rparr>;
             q = on_wdt (svc_wdt_stop (qe_clk e)) q
         in (EOK, q)))"
section \<open>The parts together\<close>

lemma start_loop_obj: "ts_obj (snd (start_loop create started is s)) = ts_obj s"
  by (induction "is" arbitrary: s) (auto simp: log_act_def Let_def)

lemma fold_notify_obj: "ts_obj (fold (\<lambda>i s. if ts_threads s i \<noteq> 0 then log_act (Notify i) s else s) is s) = ts_obj s"
  by (induction "is" arbitrary: s) (auto simp: log_act_def)

lemma tasks_start_queued: "queued (snd (svc_tasks_start create started join s)) a = queued s a"
proof -
  have "ts_obj (snd (svc_tasks_start create started join s)) = ts_obj s"
    using start_loop_obj [of create started "[0..<unat (ts_pool_count s)]" "log_act Register (s\<lparr>ts_run := True\<rparr>)"] fold_notify_obj
    by (simp add: svc_tasks_start_def svc_tasks_stop_def log_act_def Let_def case_prod_unfold)
  then show ?thesis by (simp add: queued_def)
qed

lemma reach_not_queued: "tasks_reach s \<Longrightarrow> \<not> queued s a \<Longrightarrow> svc_tasks_status (ts_obj s a) = SERVICE_STATUS_COMPLETE \<and> a \<notin> set (ts_list s)"
  using tasks_reach_inv [of s] by (auto simp: tq_inv_def status_ok_def)

lemma wdt_start_queues:
  assumes "tasks_reach (wd_tasks w)" "tasks_room (wd_tasks w)" "\<not> queued (wd_tasks w) SVC_WDT_TASK"
  shows "tasks_reach (wd_tasks (snd (svc_wdt_start clk tset hw w))) \<and> (queued (wd_tasks (snd (svc_wdt_start clk tset hw w))) SVC_WDT_TASK \<longleftrightarrow> hw \<noteq> 0)"
proof -
  have "snd (svc_tasks_cancel clk (wd_tasks w) SVC_WDT_TASK) = wd_tasks w"
    using reach_not_queued [OF assms(1,3)] by (simp add: svc_tasks_cancel_def Let_def)
  then show ?thesis
    using assms ts.schedule_reach [OF assms(1,2), of SVC_WDT_TASK SVC_WDT_TASK_CB clk tset] ts.schedule_new [OF assms(1,2) _ _ assms(3), of SVC_WDT_TASK_CB clk tset]
    by (auto simp: svc_wdt_start_def schedule_wdt_def Let_def SVC_WDT_TASK_def SVC_WDT_TASK_CB_def case_prod_unfold)
qed

text \<open>A program before its start: no instance, no task queued, no thread.\<close>

definition fresh :: "'p qoraal_state \<Rightarrow> bool" where
  "fresh q \<longleftrightarrow> hp_instance (qr_heap q) = None \<and> tasks_reach (qr_tasks q) \<and> tasks_room (qr_tasks q) \<and> \<not> queued (qr_tasks q) SVC_WDT_TASK \<and>
     th_count (sx_thr (qr_services q)) = 0 \<and> (\<forall>a. thd_pf (th_obj (sx_thr (qr_services q)) a) = NULL)"

lemma init_default_parts:
  assumes "qoraal_init_default e inst (Some l) q = Some (r, q1)"
  shows "hp_instance (qr_heap q1) \<noteq> None \<and> r = EOK \<and> qr_tasks q1 = qr_tasks q \<and>
    qr_services q1 = snd (svc_service_services_init (qe_senv e) ((qr_services q)\<lparr>sx_thr := snd (svc_threads_init (sx_thr (qr_services q)))\<rparr>) l)"
proof -
  obtain res h where h: "qoraal_instance_init inst (qr_heap q) = (res, h)" by fastforce
  have hi: "res = EOK" "hp_instance h \<noteq> None"
    using h by (auto simp: qoraal_instance_init_def qoraal_debug_assert_def Let_def split: if_splits option.splits)
  show ?thesis
    using assms h hi
    by (auto simp: qoraal_init_default_def svc_tasks_init_def svc_wdt_init_def svc_shell_init_def on_shell_def on_wdt_def on_tasks_def
        on_services_def Let_def split: option.splits)
qed

lemma start_default_parts:
  assumes "hp_instance (qr_heap q) \<noteq> None"
  shows "fst (qoraal_start_default e q) = EOK \<and> hp_instance (qr_heap (snd (qoraal_start_default e q))) \<noteq> None \<and>
    qr_tasks (snd (qoraal_start_default e q)) = snd (svc_tasks_start (qe_create e) (qe_started e) (qe_join e)
      (wd_tasks (snd (svc_wdt_start (qe_clk e) (qe_timer_set e) (qe_hw e) (qr_wdt q))))) \<and>
    qr_services (snd (qoraal_start_default e q)) = snd (svc_service_services_start (qe_senv e) (qr_services q) SVC_SERVICE_FLAGS_AUTOSTART)"
  using assms by (auto simp: qoraal_start_default_def on_shell_def on_wdt_def on_tasks_def on_services_def Let_def)

lemma stop_default_parts:
  assumes "hp_instance (qr_heap q) \<noteq> None"
  shows "fst (qoraal_stop_default e q) = EOK \<and>
    qr_tasks (snd (qoraal_stop_default e q)) = snd (svc_tasks_cancel (qe_clk e) (snd (svc_tasks_stop (qe_join e) 100 (qr_tasks q))) SVC_WDT_TASK) \<and>
    qr_services (snd (qoraal_stop_default e q)) = svc_service_system_halt (qe_senv e) (qr_services q)"
  using assms by (auto simp: qoraal_stop_default_def svc_wdt_stop_def on_shell_def on_wdt_def on_tasks_def on_services_def Let_def)

definition demo_qoraal :: "(addr \<times> nat) list qoraal_state" where
  "demo_qoraal = \<lparr>qr_heap = demo_heap\<lparr>hp_instance := None\<rparr>,
     qr_events = \<lparr>es_stack = (\<lambda>_. []), es_obj = (\<lambda>_. \<lparr>eh_fp = 0, eh_ctx = 0\<rparr>), es_bits = 0, es_stop = True, es_calls = []\<rparr>,
     qr_message = demo_messages, qr_logger = demo_logger, qr_shell = demo_shell\<rparr>"

definition demo_qoraal_env :: qoraal_env where
  "demo_qoraal_env = \<lparr>qe_log_base = 0, qe_log_size = 0, qe_log_found = the (mg_inst demo_log MLOG_DBG), qe_log_assert = the (mg_inst demo_log MLOG_DBG),
     qe_commands = [], qe_senv = demo_env 0, qe_clk = (\<lambda>_. 0), qe_timer_set = True, qe_hw = 10, qe_events = 0, qe_idle = 0,
     qe_create = (\<lambda>i. (0, i + 1)), qe_started = (\<lambda>_. True), qe_join = (\<lambda>_. 0)\<rparr>"


end
