(* ===== verification/Qfs.thy ===== *)
theory Qfs
  imports Prelude
begin

text \<open>
  What the two file systems of src/qfs_posix.c and src/qfs_zephyr.c share: the constants and types of include/qoraal/qfs.h,
  paths as the bytes before the terminating zero, and the numbers of errno.h, which are those of the platform. Outputs
  through pointers are part of the result; memory that a call leaves as it was is not.
\<close>

section \<open>Data\<close>

definition QFS_PATH_MAX :: nat where "QFS_PATH_MAX = 256"
definition QFS_OPEN_READ :: u32 where "QFS_OPEN_READ = 0x01"
definition QFS_OPEN_APPEND :: u32 where "QFS_OPEN_APPEND = 0x02"

record qfs_dirent_t =
  de_name :: "u8 list"
  de_is_dir :: int

datatype errno = EIO | ENOENT | ENOMEM | EEXIST | ENOTDIR | EINVAL | ENAMETOOLONG

text \<open>\<open>strncpy\<close> to a buffer of \<open>n\<close> bytes, the last of which is then set to zero.\<close>

definition copy_text :: "nat \<Rightarrow> u8 list \<Rightarrow> u8 list" where
  "copy_text n t = take (n - 1) t"

lemma copy_text_short [simp]: "length t < n \<Longrightarrow> copy_text n t = t"
  by (simp add: copy_text_def)

lemma copy_text_less: "0 < n \<Longrightarrow> length (copy_text n t) < n"
  by (simp add: copy_text_def)

section \<open>The components of a path\<close>

text \<open>The text between the slashes, and the components, those texts that are not empty; 47 is the slash.\<close>

fun pieces :: "u8 list \<Rightarrow> u8 list list" where
  "pieces [] = [[]]"
| "pieces (c # s) = (if c = 47 then [] # pieces s else (c # hd (pieces s)) # tl (pieces s))"

definition comps :: "u8 list \<Rightarrow> u8 list list" where
  "comps s = filter (\<lambda>p. p \<noteq> []) (pieces s)"

lemma pieces_not_Nil [simp]: "pieces s \<noteq> []"
  by (cases s) auto

lemma pieces_no_slash: "47 \<notin> set p \<Longrightarrow> pieces (p @ 47 # s) = p # pieces s" "47 \<notin> set p \<Longrightarrow> pieces p = [p]"
  by (induction p) auto

lemma pieces_slash_free: "p \<in> set (pieces s) \<Longrightarrow> 47 \<notin> set p"
proof (induction s arbitrary: p)
  case (Cons c s)
  then show ?case by (cases "pieces s") (auto split: if_splits)
qed simp

lemma comps_slash: "comps (47 # s) = comps s"
  by (simp add: comps_def)

lemma comps_Nil [simp]: "comps [] = []"
  by (simp add: comps_def)

lemma comps_skip: "comps (dropWhile (\<lambda>c. c = 47) s) = comps s"
  by (induction s) (simp_all add: comps_slash)

lemma comps_first:
  assumes "47 \<notin> set p" "p \<noteq> []" "s = [] \<or> hd s = 47"
  shows "comps (p @ s) = p # comps s"
  using assms by (cases s) (auto simp: comps_def pieces_no_slash)

lemma comps_unroll:
  assumes "s' = dropWhile (\<lambda>c. c = 47) s"
  shows "comps s = (if s' = [] then [] else takeWhile (\<lambda>c. c \<noteq> 47) s' # comps (dropWhile (\<lambda>c. c \<noteq> 47) s'))"
proof (cases "s' = []")
  case True
  then have "comps s = comps []" using comps_skip [of s] assms by argo
  with True show ?thesis by simp
next
  case False
  then have "hd s' \<noteq> 47" unfolding assms by (rule hd_dropWhile)
  with False have "takeWhile (\<lambda>c. c \<noteq> 47) s' \<noteq> []" by (cases s') auto
  moreover have "47 \<notin> set (takeWhile (\<lambda>c. c \<noteq> 47) s')" by (auto dest: set_takeWhileD)
  moreover have "dropWhile (\<lambda>c. c \<noteq> 47) s' = [] \<or> hd (dropWhile (\<lambda>c. c \<noteq> 47) s') = 47"
    using hd_dropWhile [of "\<lambda>c. c \<noteq> 47" s'] by auto
  ultimately have "comps (takeWhile (\<lambda>c. c \<noteq> 47) s' @ dropWhile (\<lambda>c. c \<noteq> 47) s') =
      takeWhile (\<lambda>c. c \<noteq> 47) s' # comps (dropWhile (\<lambda>c. c \<noteq> 47) s')" using comps_first by blast
  moreover have "comps s = comps s'" using comps_skip [of s] assms by argo
  ultimately show ?thesis using False by simp
qed

text \<open>The path with the given components.\<close>

definition path_of :: "u8 list list \<Rightarrow> u8 list" where
  "path_of cs = concat (map (\<lambda>c. 47 # c) cs)"

lemma path_of_simps [simp]: "path_of [] = []" "path_of (c # cs) = 47 # c @ path_of cs" "path_of (as @ bs) = path_of as @ path_of bs"
  by (simp_all add: path_of_def)

lemma comps_path_of: "\<forall>c \<in> set cs. c \<noteq> [] \<and> 47 \<notin> set c \<Longrightarrow> comps (path_of cs) = cs"
proof (induction cs)
  case (Cons c cs)
  have "path_of cs = [] \<or> hd (path_of cs) = 47" by (cases cs) simp_all
  then show ?case using Cons by (simp add: comps_slash comps_first)
qed simp

end
