(* ===== verification/QfsZephyr.thy ===== *)
theory QfsZephyr
  imports Qfs
begin

text \<open>
  The file system of Zephyr, src/qfs_zephyr.c: paths below the root /lfs, the current directory it emulates, and the
  functions of qfs.h on top of the calls of Zephyr.
\<close>

section \<open>Paths\<close>

definition QFS_ROOT :: "u8 list" where "QFS_ROOT = bytes ''/lfs''"

text \<open>Back to the last slash of \<open>tmp\<close>, but not into the root, and over it.\<close>

function unwind :: "u8 list \<Rightarrow> u8 list" where
  "unwind tmp = (if length tmp > length QFS_ROOT \<and> last tmp \<noteq> 47 then unwind (butlast tmp) else tmp)"
  by pat_completeness auto

termination
  by (relation "measure length") auto

definition up_level :: "u8 list \<Rightarrow> u8 list" where
  "up_level tmp =
     (if length tmp > length QFS_ROOT then
        (let tmp = unwind tmp in if length tmp > length QFS_ROOT \<and> last tmp = 47 then butlast tmp else tmp)
      else tmp)"

lemma rest_shorter:
  assumes "s' = dropWhile (\<lambda>c. c = 47) s" "takeWhile (\<lambda>c. c \<noteq> 47) s' \<noteq> []"
  shows "length (dropWhile (\<lambda>c. c \<noteq> 47) s') < length (s :: u8 list)"
proof -
  have "length (dropWhile (\<lambda>c. c \<noteq> 47) s') < length s'"
    using assms(2) by (metis length_append length_greater_0_conv less_add_same_cancel2 takeWhile_dropWhile_id)
  then show ?thesis using length_dropWhile_le [of "\<lambda>c. c = 47" s] assms(1) by simp
qed

text \<open>\<open>tmp\<close>: the path built so far, \<open>s\<close>: the rest of the path read. 46 is the dot.\<close>

function normalize_loop :: "u8 list \<Rightarrow> u8 list \<Rightarrow> int + u8 list" where
  "normalize_loop tmp s =
     (if s = [] then Inr tmp
      else
        (let s = dropWhile (\<lambda>c. c = 47) s;
             seg = takeWhile (\<lambda>c. c \<noteq> 47) s;
             s = dropWhile (\<lambda>c. c \<noteq> 47) s
         in if seg = [] then Inr tmp
            else if seg = [46] then normalize_loop tmp s
            else if seg = [46, 46] then normalize_loop (up_level tmp) s
            else if length tmp + 1 \<ge> QFS_PATH_MAX then Inl (-4)
            else
              (let tmp = (if tmp = [] \<or> last tmp \<noteq> 47 then tmp @ [47] else tmp)
               in if length tmp + length seg \<ge> QFS_PATH_MAX then Inl (-4) else normalize_loop (tmp @ seg) s)))"
  by pat_completeness auto

termination
  by (relation "measure (\<lambda>(tmp, s). length s)") (auto intro: rest_shorter)

declare unwind.simps [simp del] normalize_loop.simps [simp del]

definition normalize_path :: "u8 list \<Rightarrow> nat \<Rightarrow> int + u8 list" where
  "normalize_path path path_sz =
     (if take (length QFS_ROOT) path \<noteq> QFS_ROOT then Inl (-2)
      else if length QFS_ROOT \<ge> QFS_PATH_MAX then Inl (-3)
      else case normalize_loop QFS_ROOT (drop (length QFS_ROOT) path) of
             Inl r \<Rightarrow> Inl r
           | Inr tmp \<Rightarrow>
               (let tmp = (if length tmp > length QFS_ROOT \<and> last tmp = 47 then butlast tmp else tmp)
                in if length tmp + 1 > path_sz then Inl (-5) else Inr tmp))"

text \<open>\<open>cwd\<close>: \<open>s_cwd\<close>; \<open>inp\<close>: the path, \<open>None\<close> for the null pointer.\<close>

definition make_path :: "u8 list \<Rightarrow> nat \<Rightarrow> u8 list option \<Rightarrow> int + u8 list" where
  "make_path cwd out_sz inp =
     (case inp of
        None \<Rightarrow> Inr (copy_text out_sz cwd)
      | Some [] \<Rightarrow> Inr (copy_text out_sz cwd)
      | Some p \<Rightarrow>
          if hd p = 47 then normalize_path (copy_text out_sz p) out_sz
          else if length cwd + 1 + length p + 1 > out_sz then Inl (-1)
          else normalize_path ((if cwd = [] \<or> last cwd \<noteq> 47 then cwd @ [47] else cwd) @ p) out_sz)"

section \<open>The wildcards\<close>

text \<open>\<open>bk\<close>: where the match is taken up again, the pattern behind the last star and the text. 42 is the star, 63 the
  question mark.\<close>

partial_function (option) match_loop :: "u8 list \<Rightarrow> u8 list \<Rightarrow> (u8 list \<times> u8 list) option \<Rightarrow> bool option" where
  "match_loop pat str bk =
     (if str = [] then Some (dropWhile (\<lambda>c. c = 42) pat = [])
      else if pat \<noteq> [] \<and> hd pat = 42 then match_loop (tl pat) str (Some (tl pat, str))
      else if pat \<noteq> [] \<and> (hd pat = 63 \<or> hd pat = hd str) then match_loop (tl pat) (tl str) bk
      else case bk of
             Some (ps, ss) \<Rightarrow> match_loop ps (tl ss) (Some (ps, tl ss))
           | None \<Rightarrow> Some False)"

definition match_simple :: "u8 list \<Rightarrow> u8 list \<Rightarrow> bool option" where
  "match_simple pat str = match_loop pat str None"

definition qfs_match :: "u8 list \<Rightarrow> u8 list \<Rightarrow> int option" where
  "qfs_match pattern name' = map_option (\<lambda>b. if b then 1 else 0) (match_simple pattern name')"

section \<open>What a path means\<close>

text \<open>The components of a path below the root: a dot stays, two dots leave the last component, if there is one.\<close>

definition climb :: "u8 list list \<Rightarrow> u8 list \<Rightarrow> u8 list list" where
  "climb stk c = (if c = [46] then stk else if c = [46, 46] then butlast stk else stk @ [c])"

definition plain_comp :: "u8 list \<Rightarrow> bool" where
  "plain_comp c \<longleftrightarrow> c \<noteq> [] \<and> 47 \<notin> set c \<and> c \<noteq> [46] \<and> c \<noteq> [46, 46]"

definition below_root :: "u8 list \<Rightarrow> bool" where
  "below_root p \<longleftrightarrow> (\<exists>stk. p = QFS_ROOT @ path_of stk \<and> (\<forall>c \<in> set stk. plain_comp c)) \<and> length p < QFS_PATH_MAX"

lemma QFS_ROOT_eq: "QFS_ROOT = [47, 108, 102, 115]"
  by (simp add: QFS_ROOT_def bytes_def)

lemma comps_plain: "c \<in> set (comps s) \<Longrightarrow> c \<noteq> [] \<and> 47 \<notin> set c"
  by (auto simp: comps_def dest: pieces_slash_free)

lemma climb_plain:
  assumes "\<forall>c \<in> set stk. plain_comp c" "\<forall>c \<in> set cs. c \<noteq> [] \<and> 47 \<notin> set c"
  shows "\<forall>c \<in> set (foldl climb stk cs). plain_comp c"
  using assms
proof (induction cs arbitrary: stk)
  case (Cons c cs)
  have "\<forall>d \<in> set (climb stk c). plain_comp d"
    using Cons.prems by (auto simp: climb_def plain_comp_def [of c] dest: in_set_butlastD)
  then show ?case using Cons by simp
qed simp

lemma last_render:
  assumes "\<forall>c \<in> set stk. plain_comp c"
  shows "last (QFS_ROOT @ path_of stk) \<noteq> 47"
proof (cases stk rule: rev_cases)
  case Nil
  then show ?thesis by (simp add: QFS_ROOT_eq)
next
  case (snoc as c)
  then have "plain_comp c" using assms by simp
  then have c: "c \<noteq> []" "47 \<notin> set c" by (auto simp: plain_comp_def)
  then have "last c \<noteq> 47" by (metis last_in_set)
  then show ?thesis using snoc c by simp
qed

lemma unwind_comp: "4 \<le> length t \<Longrightarrow> 47 \<notin> set c \<Longrightarrow> unwind (t @ 47 # c) = t @ [47]"
proof (induction c rule: rev_induct)
  case Nil
  then show ?case by (subst unwind.simps) simp
next
  case (snoc x c)
  have "butlast (t @ 47 # c @ [x]) = t @ 47 # c" using butlast_snoc [of "t @ 47 # c" x] by simp
  then show ?case using snoc by (subst unwind.simps) (simp add: QFS_ROOT_eq)
qed

lemma up_level_render:
  assumes "\<forall>c \<in> set stk. plain_comp c"
  shows "up_level (QFS_ROOT @ path_of stk) = QFS_ROOT @ path_of (butlast stk)"
proof (cases stk rule: rev_cases)
  case Nil
  then show ?thesis by (simp add: up_level_def)
next
  case (snoc as c)
  have "unwind ((QFS_ROOT @ path_of as) @ 47 # c) = (QFS_ROOT @ path_of as) @ [47]"
    using assms snoc by (intro unwind_comp) (auto simp: plain_comp_def QFS_ROOT_eq)
  then show ?thesis using snoc by (simp add: up_level_def butlast_append)
qed

text \<open>The loop follows the components, as long as every path in between fits.\<close>

definition all_fit :: "u8 list list \<Rightarrow> u8 list list \<Rightarrow> bool" where
  "all_fit stk cs \<longleftrightarrow> (\<forall>k \<le> length cs. length (QFS_ROOT @ path_of (foldl climb stk (take k cs))) < QFS_PATH_MAX)"

lemma all_fit_Cons:
  "all_fit stk (c # cs) \<longleftrightarrow> length (QFS_ROOT @ path_of stk) < QFS_PATH_MAX \<and> all_fit (climb stk c) cs"
proof -
  have "(\<forall>k \<le> Suc n. P k) \<longleftrightarrow> P 0 \<and> (\<forall>k \<le> n. P (Suc k))" for P :: "nat \<Rightarrow> bool" and n
    by (metis Suc_le_mono le0 not0_implies_Suc)
  then show ?thesis unfolding all_fit_def by simp
qed

lemma all_fit_Nil: "all_fit stk [] \<longleftrightarrow> length (QFS_ROOT @ path_of stk) < QFS_PATH_MAX"
  by (simp add: all_fit_def)

lemma all_fit_first: "all_fit stk cs \<Longrightarrow> length (QFS_ROOT @ path_of stk) < QFS_PATH_MAX"
  unfolding all_fit_def by (drule spec [of _ 0]) simp

lemma normalize_loop_climbs:
  assumes "\<forall>c \<in> set stk. plain_comp c" "length (QFS_ROOT @ path_of stk) < QFS_PATH_MAX"
  shows "normalize_loop (QFS_ROOT @ path_of stk) s =
    (if all_fit stk (comps s) then Inr (QFS_ROOT @ path_of (foldl climb stk (comps s))) else Inl (-4))"
  using assms
proof (induction "length s" arbitrary: s stk rule: less_induct)
  case less
  define s' where "s' = dropWhile (\<lambda>c. c = 47) s"
  define seg where "seg = takeWhile (\<lambda>c. c \<noteq> 47) s'"
  define r where "r = dropWhile (\<lambda>c. c \<noteq> 47) s'"
  note unr = comps_unroll [OF s'_def, folded seg_def r_def]
  note step = normalize_loop.simps [of "QFS_ROOT @ path_of stk" s, unfolded Let_def, folded s'_def, folded seg_def r_def]
  show ?case
  proof (cases "seg = []")
    case True
    then have "s' = []" using hd_dropWhile [of "\<lambda>c. c = 47" s] by (cases s') (auto simp: seg_def s'_def [symmetric])
    then show ?thesis using step True less.prems unr by (simp add: all_fit_def)
  next
    case False
    have "s' \<noteq> []" using False by (auto simp: seg_def)
    then have "s \<noteq> []" by (auto simp: s'_def)
    have cs: "comps s = seg # comps r" using unr \<open>s' \<noteq> []\<close> by simp
    have seg: "seg \<noteq> []" "47 \<notin> set seg" using False by (auto simp: seg_def dest: set_takeWhileD)
    have IH: "normalize_loop (QFS_ROOT @ path_of (climb stk seg)) r =
        (if all_fit (climb stk seg) (comps r) then Inr (QFS_ROOT @ path_of (foldl climb (climb stk seg) (comps r))) else Inl (-4))"
      if "length (QFS_ROOT @ path_of (climb stk seg)) < QFS_PATH_MAX"
      using less.hyps [of r "climb stk seg"] that rest_shorter [OF s'_def] False climb_plain [OF less.prems(1), of "[seg]"] seg
      by (simp add: seg_def r_def)
    have shorter: "length (path_of (butlast stk)) \<le> length (path_of stk)" by (cases stk rule: rev_cases) simp_all
    consider (dot) "seg = [46]" | (up) "seg = [46, 46]" | (comp) "seg \<noteq> [46]" "seg \<noteq> [46, 46]" by blast
    then show ?thesis
    proof cases
      case dot
      then have "normalize_loop (QFS_ROOT @ path_of stk) s = normalize_loop (QFS_ROOT @ path_of (climb stk seg)) r"
        using step \<open>s \<noteq> []\<close> by (simp add: climb_def)
      then show ?thesis using IH less.prems dot by (simp add: cs all_fit_Cons climb_def)
    next
      case up
      then have "normalize_loop (QFS_ROOT @ path_of stk) s = normalize_loop (QFS_ROOT @ path_of (climb stk seg)) r"
        using step \<open>s \<noteq> []\<close> up_level_render [OF less.prems(1)] by (simp add: climb_def)
      then show ?thesis using IH less.prems up shorter by (simp add: cs all_fit_Cons climb_def)
    next
      case comp
      have "normalize_loop (QFS_ROOT @ path_of stk) s =
          (if length (QFS_ROOT @ path_of (climb stk seg)) \<ge> QFS_PATH_MAX then Inl (-4)
           else normalize_loop (QFS_ROOT @ path_of (climb stk seg)) r)"
        using step \<open>s \<noteq> []\<close> seg comp last_render [OF less.prems(1)] by (auto simp: climb_def)
      then show ?thesis using IH less.prems(2) all_fit_first [of "climb stk seg" "comps r"] by (auto simp: cs all_fit_Cons not_le)
    qed
  qed
qed

lemma normalize_path_climbs:
  "normalize_path (QFS_ROOT @ rest) QFS_PATH_MAX =
    (if all_fit [] (comps rest) then Inr (QFS_ROOT @ path_of (foldl climb [] (comps rest))) else Inl (-4))"
proof -
  let ?p = "QFS_ROOT @ path_of (foldl climb [] (comps rest))"
  have loop: "normalize_loop QFS_ROOT rest = (if all_fit [] (comps rest) then Inr ?p else Inl (-4))"
    using normalize_loop_climbs [of "[]" rest] by (simp add: QFS_ROOT_eq QFS_PATH_MAX_def)
  have last: "last ?p \<noteq> 47" using last_render climb_plain [of "[]" "comps rest"] comps_plain by simp
  have len: "all_fit [] (comps rest) \<Longrightarrow> length ?p < QFS_PATH_MAX"
    unfolding all_fit_def by (drule spec [of _ "length (comps rest)"]) simp
  have root: "take (length QFS_ROOT) (QFS_ROOT @ rest) = QFS_ROOT" "drop (length QFS_ROOT) (QFS_ROOT @ rest) = rest"
    "\<not> length QFS_ROOT \<ge> QFS_PATH_MAX" by (simp_all add: QFS_ROOT_eq QFS_PATH_MAX_def)
  show ?thesis
    using loop last len root(3) unfolding normalize_path_def root Let_def by (cases "all_fit [] (comps rest)") simp_all
qed

lemma length_climb: "length (path_of (foldl climb stk cs)) \<le> length (path_of stk) + length (path_of cs)"
proof (induction cs arbitrary: stk)
  case (Cons c cs)
  have "length (path_of (climb stk c)) \<le> length (path_of stk) + length (path_of [c])"
    by (cases stk rule: rev_cases) (simp_all add: climb_def)
  then show ?case using Cons.IH [of "climb stk c"] by simp
qed simp

lemma length_pieces: "length (path_of (pieces s)) = Suc (length s)"
proof (induction s)
  case (Cons c s)
  then show ?case by (cases "pieces s") auto
qed simp

lemma length_comps: "length (path_of (comps s)) \<le> Suc (length s)" "s = [] \<or> hd s = 47 \<Longrightarrow> length (path_of (comps s)) \<le> length s"
proof -
  have f: "length (path_of (filter P ps)) \<le> length (path_of ps)" for P :: "u8 list \<Rightarrow> bool" and ps by (induction ps) auto
  then show le: "length (path_of (comps s)) \<le> Suc (length s)" for s by (metis comps_def length_pieces)
  show "s = [] \<or> hd s = 47 \<Longrightarrow> length (path_of (comps s)) \<le> length s"
    using le [of "tl s"] comps_slash [of "tl s"] by (cases s) auto
qed

lemma all_fit_short:
  assumes "length (QFS_ROOT @ rest) < QFS_PATH_MAX" "rest = [] \<or> hd rest = 47"
  shows "all_fit [] (comps rest)"
  unfolding all_fit_def
proof (intro allI impI)
  fix k
  have "length (path_of (take k cs)) \<le> length (path_of cs)" for cs by (metis append_take_drop_id le_add1 length_append path_of_simps(3))
  then have "length (path_of (foldl climb [] (take k (comps rest)))) \<le> length rest"
    using length_climb [of "[]" "take k (comps rest)"] length_comps(2) [OF assms(2)] by (metis add_0 le_trans list.size(3) path_of_simps(1))
  then show "length (QFS_ROOT @ path_of (foldl climb [] (take k (comps rest)))) < QFS_PATH_MAX" using assms(1) by simp
qed

text \<open>A path below the root that fits its buffer is normalised without an error to the path whose components are those
  left when dots are dropped and each pair of dots leaves the last component, where there is one: nothing leads above the
  root, and repeated slashes and one at the end disappear.\<close>

theorem normalize_path_resolves:
  assumes "length (QFS_ROOT @ rest) < QFS_PATH_MAX" "rest = [] \<or> hd rest = 47"
  shows "normalize_path (QFS_ROOT @ rest) QFS_PATH_MAX = Inr (QFS_ROOT @ path_of (foldl climb [] (comps rest))) \<and>
    below_root (QFS_ROOT @ path_of (foldl climb [] (comps rest)))"
proof -
  have "all_fit [] (comps rest)" using all_fit_short [OF assms] .
  moreover from this have "length (QFS_ROOT @ path_of (foldl climb [] (comps rest))) < QFS_PATH_MAX"
    unfolding all_fit_def by (drule_tac spec [of _ "length (comps rest)"]) simp
  moreover have "\<forall>c \<in> set (foldl climb [] (comps rest)). plain_comp c" using climb_plain [of "[]" "comps rest"] comps_plain by simp
  ultimately show ?thesis unfolding normalize_path_climbs below_root_def by auto
qed

theorem normalize_path_resolves_witness:
  "normalize_path (QFS_ROOT @ [47, 97, 47, 47, 46, 46, 47, 46, 46, 47, 98, 47, 46, 47]) QFS_PATH_MAX = Inr (QFS_ROOT @ [47, 98])"
  using normalize_path_resolves [of "[47, 97, 47, 47, 46, 46, 47, 46, 46, 47, 98, 47, 46, 47]"]
  by (simp add: QFS_ROOT_eq QFS_PATH_MAX_def comps_def climb_def)

text \<open>A path that is normal stays as it is.\<close>

theorem normalize_path_idempotent:
  assumes "below_root p"
  shows "normalize_path p QFS_PATH_MAX = Inr p"
proof -
  obtain stk where p: "p = QFS_ROOT @ path_of stk" "\<forall>c \<in> set stk. plain_comp c" "length p < QFS_PATH_MAX"
    using assms by (auto simp: below_root_def)
  have cs: "comps (path_of stk) = stk" using p(2) by (intro comps_path_of) (auto simp: plain_comp_def)
  have "foldl climb as stk = as @ stk" for as using p(2) by (induction stk arbitrary: as) (auto simp: climb_def plain_comp_def)
  moreover have "path_of stk = [] \<or> hd (path_of stk) = 47" by (cases stk) simp_all
  ultimately show ?thesis using all_fit_short [of "path_of stk"] p(1,3) cs by (simp add: normalize_path_climbs)
qed

text \<open>The prefix is compared without the slash behind it: a path beside the root is taken for one below it.\<close>

theorem path_beside_root_is_taken:
  "make_path cwd QFS_PATH_MAX (Some (QFS_ROOT @ [120])) = Inr (QFS_ROOT @ [47, 120])"
proof -
  have "normalize_path (QFS_ROOT @ [120]) QFS_PATH_MAX = Inr (QFS_ROOT @ [47, 120])"
    unfolding normalize_path_climbs by (simp add: comps_def climb_def all_fit_Cons all_fit_Nil QFS_ROOT_eq QFS_PATH_MAX_def)
  then show ?thesis by (simp add: make_path_def QFS_ROOT_eq QFS_PATH_MAX_def copy_text_def)
qed

section \<open>What the wildcards match\<close>

fun glob :: "u8 list \<Rightarrow> u8 list \<Rightarrow> bool" where
  "glob [] str = (str = [])"
| "glob (c # pat) str =
     (if c = 42 then \<exists>k \<le> length str. glob pat (drop k str)
      else str \<noteq> [] \<and> (c = 63 \<or> c = hd str) \<and> glob pat (tl str))"

lemma glob_Nil: "glob pat [] \<longleftrightarrow> dropWhile (\<lambda>c. c = 42) pat = []"
  by (induction pat) auto

lemma glob_star_drop:
  assumes "glob (42 # pat) (drop k str)"
  shows "glob (42 # pat) str"
proof -
  obtain j where j: "j \<le> length (drop k str)" "glob pat (drop j (drop k str))" using assms by auto
  then have "glob pat (drop (min (j + k) (length str)) str)" by (cases "j + k \<le> length str") (simp_all add: min_def)
  then show ?thesis by (auto intro: exI [of _ "min (j + k) (length str)"])
qed

lemma glob_starfree: "42 \<notin> set q \<Longrightarrow> glob (q @ pat) str \<Longrightarrow> length q \<le> length str \<and> glob pat (drop (length q) str)"
proof (induction q arbitrary: str)
  case (Cons c q)
  then show ?case by (cases str) auto
qed simp

text \<open>The later starts that are left to the match.\<close>

definition retry :: "(u8 list \<times> u8 list) option \<Rightarrow> bool" where
  "retry bk = (case bk of None \<Rightarrow> False | Some (ps, ss) \<Rightarrow> \<exists>k. 1 \<le> k \<and> k \<le> length ss \<and> glob ps (drop k ss))"

definition back_ok :: "u8 list \<Rightarrow> u8 list \<Rightarrow> (u8 list \<times> u8 list) option \<Rightarrow> bool" where
  "back_ok pat str bk = (case bk of None \<Rightarrow> True | Some (ps, ss) \<Rightarrow>
     \<exists>q. 42 \<notin> set q \<and> ps = q @ pat \<and> length q \<le> length ss \<and> str = drop (length q) ss)"

definition match_rank :: "u8 list \<Rightarrow> u8 list \<Rightarrow> (u8 list \<times> u8 list) option \<Rightarrow> nat \<times> nat \<times> nat" where
  "match_rank pat str bk = (case bk of None \<Rightarrow> (Suc (length pat), 0, 0) | Some (ps, ss) \<Rightarrow> (length ps, length ss, length str))"
lemma glob_hd: "pat \<noteq> [] \<Longrightarrow> hd pat \<noteq> 42 \<Longrightarrow> glob pat str \<longleftrightarrow> str \<noteq> [] \<and> (hd pat = 63 \<or> hd pat = hd str) \<and> glob (tl pat) (tl str)"
  by (cases pat) auto

lemma ex_from_one: "(\<exists>k. 1 \<le> k \<and> k \<le> Suc n \<and> Q k) \<longleftrightarrow> (\<exists>k \<le> n. Q (Suc k))"
proof
  assume "\<exists>k. 1 \<le> k \<and> k \<le> Suc n \<and> Q k"
  then obtain k where "1 \<le> k" "k \<le> Suc n" "Q k" by blast
  then show "\<exists>k \<le> n. Q (Suc k)" by (cases k) auto
qed auto

lemma retry_start: "glob (42 # pat) str \<longleftrightarrow> glob pat str \<or> retry (Some (pat, str))"
proof -
  have "(\<exists>k \<le> length str. glob pat (drop k str)) \<longleftrightarrow> glob pat str \<or> (\<exists>k. 1 \<le> k \<and> k \<le> length str \<and> glob pat (drop k str))"
    by (metis drop0 le0 less_one linorder_not_less)
  then show ?thesis by (simp add: retry_def)
qed

lemma retry_next: "ss \<noteq> [] \<Longrightarrow> retry (Some (ps, ss)) \<longleftrightarrow> glob ps (tl ss) \<or> retry (Some (ps, tl ss))"
  using retry_start [of ps "tl ss"] ex_from_one [of "length (tl ss)" "\<lambda>k. glob ps (drop k ss)"] by (cases ss) (simp_all add: retry_def)

lemma retry_reaches:
  assumes "back_ok pat str bk" "retry bk"
  obtains k where "1 \<le> k" "k \<le> length str" "glob pat (drop k str)"
proof -
  obtain ps ss k q where b: "bk = Some (ps, ss)" "1 \<le> k" "k \<le> length ss" "glob ps (drop k ss)" "42 \<notin> set q" "ps = q @ pat" "length q \<le> length ss" "str = drop (length q) ss"
    using assms by (auto simp: retry_def back_ok_def split: option.splits)
  have "length q \<le> length ss - k" "glob pat (drop k str)" using glob_starfree [OF b(5), of pat "drop k ss"] b by (simp_all add: add.commute)
  then show thesis using b by (intro that [of k]) auto
qed

lemma back_ok_step:
  assumes "back_ok pat str bk" "pat \<noteq> []" "str \<noteq> []" "hd pat \<noteq> 42"
  shows "back_ok (tl pat) (tl str) bk"
proof (cases bk)
  case (Some b)
  then obtain ps ss q where b: "bk = Some (ps, ss)" "42 \<notin> set q" "ps = q @ pat" "length q \<le> length ss" "str = drop (length q) ss"
    using assms(1) by (cases b) (auto simp: back_ok_def)
  have "42 \<notin> set (q @ [hd pat])" "ps = (q @ [hd pat]) @ tl pat" using b assms by (cases pat; simp)+
  moreover have "length (q @ [hd pat]) \<le> length ss" using b assms(3) by (cases "length q = length ss") auto
  moreover have "tl str = drop (length (q @ [hd pat])) ss" using b by (simp add: drop_Suc drop_tl)
  ultimately show ?thesis using b(1) unfolding back_ok_def by (auto intro: exI [of _ "q @ [hd pat]"])
qed (simp add: back_ok_def)

lemma match_rank_less:
  assumes "back_ok pat str bk" "r = less_than <*lex*> less_than <*lex*> less_than"
  shows "pat \<noteq> [] \<Longrightarrow> (match_rank (tl pat) str (Some (tl pat, str)), match_rank pat str bk) \<in> r"
    and "pat \<noteq> [] \<Longrightarrow> str \<noteq> [] \<Longrightarrow> (match_rank (tl pat) (tl str) bk, match_rank pat str bk) \<in> r"
    and "bk = Some (ps, ss) \<Longrightarrow> ss \<noteq> [] \<Longrightarrow> (match_rank ps (tl ss) (Some (ps, tl ss)), match_rank pat str bk) \<in> r"
proof -
  assume pat: "pat \<noteq> []"
  then have l: "length (tl pat) < length pat" by (cases pat) auto
  then have "length (tl pat) < length (q @ pat)" for q by (simp del: length_tl)
  then show "(match_rank (tl pat) str (Some (tl pat, str)), match_rank pat str bk) \<in> r"
    using assms l by (cases bk) (auto simp: match_rank_def back_ok_def simp del: length_tl length_append)
qed (use assms in \<open>cases bk; auto simp: match_rank_def\<close>)+

lemma match_loop_decides:
  assumes "back_ok pat str bk"
  shows "match_loop pat str bk = Some (glob pat str \<or> retry bk)"
proof -
  have wf: "wf (less_than <*lex*> less_than <*lex*> less_than)" by auto
  show ?thesis using assms
  proof (induction "match_rank pat str bk" arbitrary: pat str bk rule: wf_induct_rule [OF wf])
    case 1
    note IH = "1.hyps" and ok = "1.prems" and less = match_rank_less [OF "1.prems" refl]
    have fresh: "back_ok ps ss (Some (ps, ss))" for ps ss by (auto simp: back_ok_def intro: exI [of _ "[]"])
    consider (fin) "str = []" | (star) "str \<noteq> []" "pat \<noteq> []" "hd pat = 42"
      | (char) "str \<noteq> []" "pat \<noteq> []" "hd pat \<noteq> 42" "hd pat = 63 \<or> hd pat = hd str"
      | (fail) "str \<noteq> []" "pat = [] \<or> hd pat \<noteq> 42 \<and> hd pat \<noteq> 63 \<and> hd pat \<noteq> hd str" by blast
    then show ?case
    proof cases
      case fin
      then have "\<not> retry bk" using ok by (auto elim!: retry_reaches)
      then show ?thesis using fin by (subst match_loop.simps) (simp add: glob_Nil)
    next
      case star
      then have pat: "42 # tl pat = pat" by (cases pat) auto
      have "retry bk \<Longrightarrow> glob pat str" using retry_reaches [OF ok] glob_star_drop [of "tl pat" _ str] pat by metis
      then show ?thesis using IH [OF less(1) fresh] star retry_start [of "tl pat" str, unfolded pat] by (subst match_loop.simps) auto
    next
      case char
      show ?thesis using IH [OF less(2) back_ok_step [OF ok]] char by (subst match_loop.simps) (simp add: glob_hd)
    next
      case fail
      then have ng: "\<not> glob pat str" by (cases pat) auto
      show ?thesis
      proof (cases bk)
        case None
        then show ?thesis using fail ng by (subst match_loop.simps) (auto simp: retry_def)
      next
        case (Some b)
        then obtain ps ss where b: "bk = Some (ps, ss)" by (cases b) auto
        then have "ss \<noteq> []" using fail ok by (auto simp: back_ok_def)
        then show ?thesis using IH [OF less(3) fresh, of ps ss] b fail ng retry_next by (subst match_loop.simps) auto
      qed
    qed
  qed
qed

text \<open>C21: The match of the wildcards ends and says whether the name has the form of the pattern, a star for any text and a
  question mark for any character, although only the last star is taken up again.\<close>

theorem match_simple_decides: "match_simple pat str = Some (glob pat str)"
  unfolding match_simple_def using match_loop_decides [of pat str None] by (simp add: back_ok_def retry_def)
section \<open>The relative and the absolute path\<close>

lemma normalize_path_below: "normalize_path t QFS_PATH_MAX = Inr q \<Longrightarrow> below_root q"
proof -
  assume n: "normalize_path t QFS_PATH_MAX = Inr q"
  have "take (length QFS_ROOT) t = QFS_ROOT" using n unfolding normalize_path_def by (rule_tac ccontr) simp
  then have t: "t = QFS_ROOT @ drop (length QFS_ROOT) t" using append_take_drop_id [of "length QFS_ROOT" t] by simp
  then have q: "all_fit [] (comps (drop (length QFS_ROOT) t))" "q = QFS_ROOT @ path_of (foldl climb [] (comps (drop (length QFS_ROOT) t)))"
    using n normalize_path_climbs [of "drop (length QFS_ROOT) t"] by (auto split: if_splits)
  have "length q < QFS_PATH_MAX"
    using q unfolding all_fit_def by (drule_tac spec [of _ "length (comps (drop (length QFS_ROOT) t))"]) simp
  moreover have "\<forall>c \<in> set (foldl climb [] (comps (drop (length QFS_ROOT) t))). plain_comp c"
    using climb_plain [of "[]" "comps (drop (length QFS_ROOT) t)"] comps_plain by simp
  ultimately show ?thesis using q(2) by (auto simp: below_root_def)
qed

lemma make_path_below: "below_root cwd \<Longrightarrow> make_path cwd QFS_PATH_MAX p = Inr q \<Longrightarrow> below_root q"
  using copy_text_short [of cwd QFS_PATH_MAX] normalize_path_below
  by (auto simp: make_path_def below_root_def [THEN iffD1, THEN conjunct2] split: option.splits list.splits if_splits)

lemma comps_append: "\<forall>c \<in> set cs. plain_comp c \<Longrightarrow> s = [] \<or> hd s = 47 \<Longrightarrow> comps (path_of cs @ s) = cs @ comps s"
proof (induction cs)
  case (Cons c cs)
  have "path_of cs @ s = [] \<or> hd (path_of cs @ s) = 47" using Cons.prems by (cases cs) simp_all
  then show ?case using Cons by (simp add: comps_slash comps_first plain_comp_def)
qed simp

lemma foldl_climb_plain: "\<forall>c \<in> set cs. plain_comp c \<Longrightarrow> foldl climb as cs = as @ cs"
  by (induction cs arbitrary: as) (auto simp: climb_def plain_comp_def)

lemma resolve_paths:
  assumes "cwd = QFS_ROOT @ path_of stk" "\<forall>c \<in> set stk. plain_comp c" "p \<noteq> []"
  shows "(hd p \<noteq> 47 \<and> length cwd + 1 + length p < QFS_PATH_MAX \<longrightarrow>
      make_path cwd QFS_PATH_MAX (Some p) = Inr (QFS_ROOT @ path_of (foldl climb stk (comps p)))) \<and>
    (\<forall>rest. p = QFS_ROOT @ rest \<and> (rest = [] \<or> hd rest = 47) \<and> length p < QFS_PATH_MAX \<longrightarrow>
      make_path cwd QFS_PATH_MAX (Some p) = Inr (QFS_ROOT @ path_of (foldl climb [] (comps rest))))"
proof (intro conjI impI allI)
  assume p: "hd p \<noteq> 47 \<and> length cwd + 1 + length p < QFS_PATH_MAX"
  have "last cwd \<noteq> 47" "cwd \<noteq> []" using last_render [OF assms(2)] assms(1) by (simp_all add: QFS_ROOT_eq)
  then have "make_path cwd QFS_PATH_MAX (Some p) = normalize_path (QFS_ROOT @ path_of stk @ 47 # p) QFS_PATH_MAX"
    using assms p by (cases p) (simp_all add: make_path_def)
  moreover have "path_of stk @ 47 # p = [] \<or> hd (path_of stk @ 47 # p) = 47" by (cases stk) simp_all
  moreover have "comps (path_of stk @ 47 # p) = stk @ comps p" using comps_append [OF assms(2), of "47 # p"] by (simp add: comps_slash)
  ultimately show "make_path cwd QFS_PATH_MAX (Some p) = Inr (QFS_ROOT @ path_of (foldl climb stk (comps p)))"
    using normalize_path_resolves [of "path_of stk @ 47 # p"] assms(1) p foldl_climb_plain [OF assms(2), of "[]"] by simp
next
  fix rest assume p: "p = QFS_ROOT @ rest \<and> (rest = [] \<or> hd rest = 47) \<and> length p < QFS_PATH_MAX"
  then have "make_path cwd QFS_PATH_MAX (Some p) = normalize_path p QFS_PATH_MAX"
    using copy_text_short [of p QFS_PATH_MAX] by (auto simp: make_path_def QFS_ROOT_eq)
  then show "make_path cwd QFS_PATH_MAX (Some p) = Inr (QFS_ROOT @ path_of (foldl climb [] (comps rest)))"
    using normalize_path_resolves [of rest] p by auto
qed

text \<open>C18: A relative path is taken from the current directory, an absolute one below the root from the root. Both give the
  path whose components are those left when dots are dropped and each pair of dots leaves the last component, where there is
  one, and there is no error if the path with its directory fits the buffer.\<close>

theorem make_path_resolves:
  assumes "cwd = QFS_ROOT @ path_of stk" "\<forall>c \<in> set stk. plain_comp c" "p \<noteq> []"
  shows "(hd p \<noteq> 47 \<and> length cwd + 1 + length p < QFS_PATH_MAX \<longrightarrow>
      make_path cwd QFS_PATH_MAX (Some p) = Inr (QFS_ROOT @ path_of (foldl climb stk (comps p)))) \<and>
    (\<forall>rest. p = QFS_ROOT @ rest \<and> (rest = [] \<or> hd rest = 47) \<and> length p < QFS_PATH_MAX \<longrightarrow>
      make_path cwd QFS_PATH_MAX (Some p) = Inr (QFS_ROOT @ path_of (foldl climb [] (comps rest))))"
  using assms by (rule resolve_paths)

theorem make_path_resolves_witness:
  "make_path (QFS_ROOT @ [47, 97]) QFS_PATH_MAX (Some [46, 46, 47, 46, 46, 47, 98]) = Inr (QFS_ROOT @ [47, 98]) \<and>
   make_path (QFS_ROOT @ [47, 97]) QFS_PATH_MAX (Some (QFS_ROOT @ [47, 46, 46])) = Inr QFS_ROOT"
  using make_path_resolves [of _ "[[97]]" "[46, 46, 47, 46, 46, 47, 98]"] make_path_resolves [of _ "[[97]]" "QFS_ROOT @ [47, 46, 46]"]
  by (simp add: QFS_ROOT_eq QFS_PATH_MAX_def comps_def climb_def plain_comp_def)

end
