(* ===== verification/ZephyrFiles.thy ===== *)
theory ZephyrFiles
  imports QfsZephyr
begin

text \<open>
  The functions on files and directories of src/qfs_zephyr.c. The calls of Zephyr and of the allocators are recorded in
  the state, and what they answer is an argument: a function of the calls made so far, the last one included.
\<close>

section \<open>Data\<close>

datatype fs_o = FS_O_READ | FS_O_WRITE | FS_O_CREATE | FS_O_APPEND | FS_O_TRUNC
datatype fs_dir_entry_type = FS_DIR_ENTRY_FILE | FS_DIR_ENTRY_DIR | FS_DIR_ENTRY_OTHER

record fs_dirent =
  fd_type :: fs_dir_entry_type
  fd_name :: "u8 list"
  fd_size :: nat

text \<open>A directory or file is named by the address of its handle, 0 where it is on the stack.\<close>

datatype fs_call =
    Fs_opendir "u8 list" | Fs_readdir addr | Fs_closedir addr
  | Fs_open addr "u8 list" "fs_o list" | Fs_close addr | Fs_stat "u8 list" | Fs_read addr nat | Fs_write addr "u8 list"
  | Fs_unlink "u8 list" | Fs_mkdir "u8 list"
  | Malloc | Free addr | Qoraal_malloc nat | Qoraal_free addr

record zephyr_env =
  ze_rc :: "fs_call list \<Rightarrow> int"
  ze_entry :: "fs_call list \<Rightarrow> fs_dirent"
  ze_data :: "fs_call list \<Rightarrow> u8 list"
  ze_mem :: "fs_call list \<Rightarrow> addr"
  ze_errno :: "errno \<Rightarrow> int"

text \<open>\<open>zf_opened\<close>: the field of the handles.\<close>

record zephyr_fs =
  zf_cwd :: "u8 list"
  zf_calls :: "fs_call list"
  zf_opened :: "addr \<Rightarrow> bool"

definition s_cwd_init :: "u8 list" where "s_cwd_init = QFS_ROOT"

definition zcall :: "fs_call \<Rightarrow> zephyr_fs \<Rightarrow> zephyr_fs" where
  "zcall c z = z\<lparr>zf_calls := zf_calls z @ [c]\<rparr>"

abbreviation zrc :: "zephyr_env \<Rightarrow> zephyr_fs \<Rightarrow> int" where
  "zrc e z \<equiv> ze_rc e (zf_calls z)"

abbreviation zentry :: "zephyr_env \<Rightarrow> zephyr_fs \<Rightarrow> fs_dirent" where
  "zentry e z \<equiv> ze_entry e (zf_calls z)"

abbreviation zmem :: "zephyr_env \<Rightarrow> zephyr_fs \<Rightarrow> addr" where
  "zmem e z \<equiv> ze_mem e (zf_calls z)"

section \<open>Directories\<close>

definition qfs_dir_open :: "zephyr_env \<Rightarrow> u8 list option \<Rightarrow> zephyr_fs \<Rightarrow> int \<times> addr \<times> zephyr_fs" where
  "qfs_dir_open e path z =
     (case make_path (zf_cwd z) QFS_PATH_MAX (Some (case path of Some p \<Rightarrow> p | None \<Rightarrow> zf_cwd z)) of
        Inl rc \<Rightarrow> (rc, NULL, z)
      | Inr p \<Rightarrow>
          (let z = zcall (Fs_opendir p) z; rc = zrc e z
           in if rc \<noteq> 0 then (rc, NULL, z)
              else
                (let z = zcall Malloc z; h = zmem e z
                 in if h = NULL then (E_NOMEM, NULL, zcall (Fs_closedir 0) z)
                    else (0, h, z\<lparr>zf_opened := (zf_opened z)(h := True)\<rparr>))))"

text \<open>\<open>en\<close>: the entry before the call; it is left as it is at the end and after an error.\<close>

definition qfs_dir_read :: "zephyr_env \<Rightarrow> addr \<Rightarrow> qfs_dirent_t \<Rightarrow> zephyr_fs \<Rightarrow> int \<times> qfs_dirent_t \<times> zephyr_fs" where
  "qfs_dir_read e d en z =
     (if d = NULL then (- ze_errno e EINVAL, en, z)
      else
        (let z = zcall (Fs_readdir d) z; rc = zrc e z; ent = zentry e z
         in if rc \<noteq> 0 then (- rc, en, z)
            else if fd_name ent = [] then (0, en, z)
            else (1, \<lparr>de_name = copy_text 256 (fd_name ent),
                      de_is_dir = (if fd_type ent = FS_DIR_ENTRY_DIR then 1 else if fd_type ent = FS_DIR_ENTRY_FILE then 0 else -1)\<rparr>, z)))"

definition qfs_dir_close :: "addr \<Rightarrow> zephyr_fs \<Rightarrow> zephyr_fs" where
  "qfs_dir_close d z =
     (if d = NULL then z else zcall (Free d) (if zf_opened z d then zcall (Fs_closedir d) z else z))"

section \<open>Files\<close>

text \<open>\<open>got\<close> bytes are in \<open>buf\<close>. The size is returned as an \<open>int\<close>.\<close>

function qfs_read_file_loop :: "zephyr_env \<Rightarrow> addr \<Rightarrow> nat \<Rightarrow> nat \<Rightarrow> u8 list \<Rightarrow> zephyr_fs \<Rightarrow> int \<times> u8 list \<times> zephyr_fs" where
  "qfs_read_file_loop e f got file_sz buf z =
     (if got < file_sz then
        (let z = zcall (Fs_read f (file_sz - got)) z; n = zrc e z
         in if n < 0 then (n, buf, z)
            else if n = 0 then (- ze_errno e EIO, buf, z)
            else qfs_read_file_loop e f (got + nat n) file_sz (buf @ take (nat n) (ze_data e (zf_calls z))) z)
      else (sint (of_nat file_sz :: u32), buf, z))"
  by pat_completeness auto

termination
  by (relation "measure (\<lambda>(e, f, got, file_sz, buf, z). file_sz - got)") auto

declare qfs_read_file_loop.simps [simp del]

definition qfs_read_file_all :: "zephyr_env \<Rightarrow> addr \<Rightarrow> nat \<Rightarrow> zephyr_fs \<Rightarrow> int \<times> u8 list \<times> zephyr_fs" where
  "qfs_read_file_all e f file_sz z = qfs_read_file_loop e f 0 file_sz [] z"

text \<open>The result, the buffer and the text in it.\<close>

definition qfs_read_all :: "zephyr_env \<Rightarrow> u8 list option \<Rightarrow> zephyr_fs \<Rightarrow> int \<times> addr \<times> u8 list \<times> zephyr_fs" where
  "qfs_read_all e path z =
     (case make_path (zf_cwd z) QFS_PATH_MAX path of
        Inl rc \<Rightarrow> (rc, NULL, [], z)
      | Inr p \<Rightarrow>
          (let z = zcall (Fs_open 0 p [FS_O_READ]) z; rc = zrc e z
           in if rc \<noteq> 0 then (rc, NULL, [], z)
              else
                (let z = zcall (Fs_stat p) z; rc = zrc e z; st = zentry e z
                 in if rc \<noteq> 0 then (rc, NULL, [], zcall (Fs_close 0) z)
                    else if fd_type st \<noteq> FS_DIR_ENTRY_FILE then (- ze_errno e EIO, NULL, [], zcall (Fs_close 0) z)
                    else
                      (let z = zcall (Qoraal_malloc (fd_size st + 1)) z; buf = zmem e z
                       in if buf = NULL then (- ze_errno e ENOMEM, NULL, [], zcall (Fs_close 0) z)
                          else
                            (let (n, t, z) = qfs_read_file_all e 0 (fd_size st) z; z = zcall (Fs_close 0) z
                             in if n < 0 then (n, NULL, [], zcall (Qoraal_free buf) z) else (n, buf, t, z))))))"

definition qfs_free :: "addr \<Rightarrow> zephyr_fs \<Rightarrow> zephyr_fs" where
  "qfs_free p z = (if p \<noteq> NULL then zcall (Qoraal_free p) z else z)"

definition qfs_open :: "zephyr_env \<Rightarrow> u8 list option \<Rightarrow> u32 \<Rightarrow> zephyr_fs \<Rightarrow> int \<times> addr \<times> zephyr_fs" where
  "qfs_open e path flags z =
     (if path = None then (- ze_errno e EINVAL, NULL, z)
      else
        (case make_path (zf_cwd z) QFS_PATH_MAX path of
           Inl rc \<Rightarrow> (rc, NULL, z)
         | Inr p \<Rightarrow>
             (let z = zcall Malloc z; h = zmem e z
              in if h = NULL then (E_NOMEM, NULL, z)
                 else
                   (let flags = (if flags = 0 then QFS_OPEN_READ else flags)
                    in if flags AND QFS_OPEN_READ \<noteq> 0 \<and> flags AND QFS_OPEN_APPEND \<noteq> 0 then (- ze_errno e EINVAL, NULL, zcall (Free h) z)
                       else
                         (let mode = (if flags AND QFS_OPEN_READ \<noteq> 0 then [FS_O_READ]
                                      else [FS_O_CREATE, FS_O_WRITE] @ (if flags AND QFS_OPEN_APPEND \<noteq> 0 then [FS_O_APPEND] else [FS_O_TRUNC]));
                              z = zcall (Fs_open h p mode) z; rc = zrc e z
                          in if rc \<noteq> 0 then (rc, NULL, zcall (Free h) z)
                             else (0, h, z\<lparr>zf_opened := (zf_opened z)(h := True)\<rparr>))))))"

text \<open>The result and the bytes read.\<close>

definition qfs_read :: "zephyr_env \<Rightarrow> addr \<Rightarrow> nat \<Rightarrow> zephyr_fs \<Rightarrow> int \<times> u8 list \<times> zephyr_fs" where
  "qfs_read e f len z =
     (if f = NULL \<or> \<not> zf_opened z f then (- ze_errno e EINVAL, [], z)
      else if len = 0 then (0, [], z)
      else (let z = zcall (Fs_read f len) z; n = zrc e z in (n, take (nat n) (ze_data e (zf_calls z)), z)))"

definition qfs_write :: "zephyr_env \<Rightarrow> addr \<Rightarrow> u8 list \<Rightarrow> zephyr_fs \<Rightarrow> int \<times> zephyr_fs" where
  "qfs_write e f buf z =
     (if f = NULL \<or> \<not> zf_opened z f then (- ze_errno e EINVAL, z)
      else (let z = zcall (Fs_write f buf) z in (zrc e z, z)))"

definition qfs_close :: "zephyr_env \<Rightarrow> addr \<Rightarrow> zephyr_fs \<Rightarrow> int \<times> zephyr_fs" where
  "qfs_close e f z =
     (if f = NULL then (0, z)
      else
        (let (rc, z) = (if zf_opened z f then
                          (let z = zcall (Fs_close f) z in (zrc e z, z\<lparr>zf_opened := (zf_opened z)(f := False)\<rparr>))
                        else (0, z))
         in (rc, zcall (Free f) z)))"

section \<open>The current directory and changes\<close>

definition qfs_chdir :: "zephyr_env \<Rightarrow> u8 list option \<Rightarrow> zephyr_fs \<Rightarrow> int \<times> zephyr_fs" where
  "qfs_chdir e path z =
     (case make_path (zf_cwd z) QFS_PATH_MAX path of
        Inl rc \<Rightarrow> (rc, z)
      | Inr p \<Rightarrow>
          (let z = zcall (Fs_stat p) z; rc = zrc e z; st = zentry e z
           in if rc \<noteq> 0 then (rc, z)
              else if fd_type st \<noteq> FS_DIR_ENTRY_DIR then (E_NOTFOUND, z)
              else (0, z\<lparr>zf_cwd := copy_text 256 p\<rparr>)))"

definition qfs_getcwd :: "zephyr_fs \<Rightarrow> u8 list" where
  "qfs_getcwd z = zf_cwd z"

definition qfs_make_abs :: "nat \<Rightarrow> u8 list option \<Rightarrow> zephyr_fs \<Rightarrow> int + u8 list" where
  "qfs_make_abs out_sz inp z = make_path (zf_cwd z) out_sz inp"

definition qfs_unlink :: "zephyr_env \<Rightarrow> u8 list option \<Rightarrow> zephyr_fs \<Rightarrow> int \<times> zephyr_fs" where
  "qfs_unlink e path z =
     (case make_path (zf_cwd z) QFS_PATH_MAX path of
        Inl rc \<Rightarrow> (rc, z)
      | Inr p \<Rightarrow> (let z = zcall (Fs_unlink p) z in (zrc e z, z)))"

definition qfs_rmdir :: "zephyr_env \<Rightarrow> u8 list option \<Rightarrow> zephyr_fs \<Rightarrow> int \<times> zephyr_fs" where
  "qfs_rmdir e path z =
     (case make_path (zf_cwd z) QFS_PATH_MAX path of
        Inl rc \<Rightarrow> (rc, z)
      | Inr p \<Rightarrow> (let z = zcall (Fs_unlink p) z in (zrc e z, z)))"

lemma rest_after_slashes:
  assumes "s' = dropWhile (\<lambda>c. c = 47) s" "s' \<noteq> []"
  shows "length (dropWhile (\<lambda>c. c \<noteq> 47) s') < length (s :: u8 list)"
proof -
  have "hd s' \<noteq> 47" using assms hd_dropWhile [of "\<lambda>c. c = 47" s] by simp
  then have "takeWhile (\<lambda>c. c \<noteq> 47) s' \<noteq> []" using assms(2) by (cases s') auto
  then show ?thesis using rest_shorter [OF assms(1)] by simp
qed

text \<open>\<open>cur\<close>: the path made so far, \<open>s\<close>: the rest.\<close>

function qfs_mkdir_loop :: "zephyr_env \<Rightarrow> u8 list \<Rightarrow> u8 list \<Rightarrow> zephyr_fs \<Rightarrow> int \<times> zephyr_fs" where
  "qfs_mkdir_loop e cur s z =
     (let s = dropWhile (\<lambda>c. c = 47) s;
          seg = takeWhile (\<lambda>c. c \<noteq> 47) s;
          r = dropWhile (\<lambda>c. c \<noteq> 47) s
      in if s = [] then (0, z)
         else if length cur + 1 + length seg + 1 > QFS_PATH_MAX then (- ze_errno e ENAMETOOLONG, z)
         else
           (let cur = (if cur = [] \<or> last cur \<noteq> 47 then cur @ [47] else cur) @ seg;
                z = zcall (Fs_stat cur) z; rc = zrc e z; st = zentry e z
            in if rc = 0 then
                 (if fd_type st \<noteq> FS_DIR_ENTRY_DIR then (- ze_errno e ENOTDIR, z) else qfs_mkdir_loop e cur r z)
               else
                 (let z = zcall (Fs_mkdir cur) z; rc = zrc e z
                  in if rc \<noteq> 0 \<and> rc \<noteq> - ze_errno e EEXIST then (rc, z) else qfs_mkdir_loop e cur r z)))"
  by pat_completeness auto

termination
  by (relation "measure (\<lambda>(e, cur, s, z). length s)") (auto intro: rest_after_slashes)

declare qfs_mkdir_loop.simps [simp del]

definition qfs_mkdir :: "zephyr_env \<Rightarrow> u8 list option \<Rightarrow> zephyr_fs \<Rightarrow> int \<times> zephyr_fs" where
  "qfs_mkdir e path z =
     (case make_path (zf_cwd z) QFS_PATH_MAX path of
        Inl rc \<Rightarrow> (rc, z)
      | Inr full \<Rightarrow>
          if full = QFS_ROOT then (0, z)
          else if take (length QFS_ROOT) full \<noteq> QFS_ROOT then (- ze_errno e EINVAL, z)
          else if length QFS_ROOT + 1 > QFS_PATH_MAX then (- ze_errno e ENAMETOOLONG, z)
          else qfs_mkdir_loop e QFS_ROOT (drop (length QFS_ROOT) full) z)"
section \<open>The root is never left\<close>

fun call_below :: "fs_call \<Rightarrow> bool" where
  "call_below (Fs_opendir p) = below_root p"
| "call_below (Fs_open h p mode) = below_root p"
| "call_below (Fs_stat p) = below_root p"
| "call_below (Fs_unlink p) = below_root p"
| "call_below (Fs_mkdir p) = below_root p"
| "call_below c = True"

definition confined :: "zephyr_fs \<Rightarrow> bool" where
  "confined z \<longleftrightarrow> below_root (zf_cwd z) \<and> (\<forall>c \<in> set (zf_calls z). call_below c)"

text \<open>The functions of qfs.h that a program can call.\<close>

datatype qfs_op =
    Dir_open "u8 list option" | Dir_read addr qfs_dirent_t | Dir_close addr | Read_all "u8 list option" | Free_buffer addr
  | Open "u8 list option" u32 | Read addr nat | Write addr "u8 list" | Close addr
  | Chdir "u8 list option" | Unlink "u8 list option" | Rmdir "u8 list option" | Mkdir "u8 list option"

fun qfs_step :: "zephyr_env \<Rightarrow> qfs_op \<Rightarrow> zephyr_fs \<Rightarrow> zephyr_fs" where
  "qfs_step e (Dir_open p) z = snd (snd (qfs_dir_open e p z))"
| "qfs_step e (Dir_read d en) z = snd (snd (qfs_dir_read e d en z))"
| "qfs_step e (Dir_close d) z = qfs_dir_close d z"
| "qfs_step e (Read_all p) z = snd (snd (snd (qfs_read_all e p z)))"
| "qfs_step e (Free_buffer a) z = qfs_free a z"
| "qfs_step e (Open p flags) z = snd (snd (qfs_open e p flags z))"
| "qfs_step e (Read f n) z = snd (snd (qfs_read e f n z))"
| "qfs_step e (Write f t) z = snd (qfs_write e f t z)"
| "qfs_step e (Close f) z = snd (qfs_close e f z)"
| "qfs_step e (Chdir p) z = snd (qfs_chdir e p z)"
| "qfs_step e (Unlink p) z = snd (qfs_unlink e p z)"
| "qfs_step e (Rmdir p) z = snd (qfs_rmdir e p z)"
| "qfs_step e (Mkdir p) z = snd (qfs_mkdir e p z)"

definition zephyr_start :: "(addr \<Rightarrow> bool) \<Rightarrow> zephyr_fs" where
  "zephyr_start opened = \<lparr>zf_cwd = s_cwd_init, zf_calls = [], zf_opened = opened\<rparr>"

lemma confined_zcall [simp]: "confined (zcall c z) \<longleftrightarrow> confined z \<and> call_below c"
  by (auto simp: confined_def zcall_def)

lemma confined_update [simp]: "confined (z\<lparr>zf_opened := op'\<rparr>) = confined z" "confined (z\<lparr>zf_cwd := w\<rparr>) \<longleftrightarrow> below_root w \<and> (\<forall>c \<in> set (zf_calls z). call_below c)"
  by (simp_all add: confined_def)

lemma zcall_fields [simp]: "zf_cwd (zcall c z) = zf_cwd z" "zf_opened (zcall c z) = zf_opened z" "zf_calls (zcall c z) = zf_calls z @ [c]"
  by (simp_all add: zcall_def)

lemma confined_make_path: "confined z \<Longrightarrow> make_path (zf_cwd z) QFS_PATH_MAX p = Inr q \<Longrightarrow> below_root q"
  by (auto simp: confined_def intro: make_path_below)

lemma confined_read_loop: "confined (snd (snd (qfs_read_file_loop e f got file_sz buf z))) = confined z"
proof (induction e f got file_sz buf z rule: qfs_read_file_loop.induct)
  case (1 e f got file_sz buf z)
  then show ?case by (subst qfs_read_file_loop.simps) (simp add: Let_def)
qed

lemma below_root_render: "\<forall>c \<in> set cs. plain_comp c \<Longrightarrow> length (QFS_ROOT @ path_of cs) < QFS_PATH_MAX \<Longrightarrow> below_root (QFS_ROOT @ path_of cs)"
  by (auto simp: below_root_def)

text \<open>One round of the loop takes the next component.\<close>

lemma mkdir_loop_round:
  assumes "\<forall>c \<in> set (seg # cs). plain_comp c" "\<forall>c \<in> set stk. plain_comp c" "length (QFS_ROOT @ path_of (stk @ [seg])) < QFS_PATH_MAX"
    "cur = QFS_ROOT @ path_of (stk @ [seg])" "z1 = zcall (Fs_stat cur) z" "z2 = zcall (Fs_mkdir cur) z1"
  shows "qfs_mkdir_loop e (QFS_ROOT @ path_of stk) (path_of (seg # cs)) z =
    (if zrc e z1 = 0 then
       (if fd_type (zentry e z1) \<noteq> FS_DIR_ENTRY_DIR then (- ze_errno e ENOTDIR, z1) else qfs_mkdir_loop e cur (path_of cs) z1)
     else if zrc e z2 \<noteq> 0 \<and> zrc e z2 \<noteq> - ze_errno e EEXIST then (zrc e z2, z2) else qfs_mkdir_loop e cur (path_of cs) z2)"
proof -
  have seg: "seg \<noteq> []" "47 \<notin> set seg" using assms(1) by (auto simp: plain_comp_def)
  have r: "path_of cs = [] \<or> hd (path_of cs) = 47" by (cases cs) simp_all
  have s: "dropWhile (\<lambda>c. c = 47) (path_of (seg # cs)) = seg @ path_of cs" using seg by (cases seg) auto
  have t: "takeWhile (\<lambda>c. c \<noteq> 47) (seg @ path_of cs) = seg" using seg r by (cases "path_of cs") (auto simp: takeWhile_append)
  have d: "dropWhile (\<lambda>c. c \<noteq> 47) (seg @ path_of cs) = path_of cs" using seg r by (cases "path_of cs") (auto simp: dropWhile_append)
  have c: "(if QFS_ROOT @ path_of stk = [] \<or> last (QFS_ROOT @ path_of stk) \<noteq> 47 then (QFS_ROOT @ path_of stk) @ [47] else QFS_ROOT @ path_of stk) @ seg = cur"
    using last_render [OF assms(2)] assms(4) by simp
  have l: "\<not> length (QFS_ROOT @ path_of stk) + 1 + length seg + 1 > QFS_PATH_MAX" using assms(3) by simp
  have ne: "(seg @ path_of cs = []) = False" using seg by simp
  show ?thesis
    by (subst qfs_mkdir_loop.simps) (simp only: Let_def s t d c l ne if_False assms(5,6) [symmetric])
qed
text \<open>The directories from the root to a path, and one after the other looked at and, where it is missing, made.\<close>

fun dirs_to :: "u8 list list \<Rightarrow> u8 list list \<Rightarrow> u8 list list" where
  "dirs_to stk [] = []"
| "dirs_to stk (c # cs) = (QFS_ROOT @ path_of (stk @ [c])) # dirs_to (stk @ [c]) cs"

fun make_dirs :: "zephyr_env \<Rightarrow> u8 list list \<Rightarrow> zephyr_fs \<Rightarrow> int \<times> zephyr_fs" where
  "make_dirs e [] z = (0, z)"
| "make_dirs e (p # ps) z =
     (let z = zcall (Fs_stat p) z
      in if zrc e z = 0 then (if fd_type (zentry e z) = FS_DIR_ENTRY_DIR then make_dirs e ps z else (- ze_errno e ENOTDIR, z))
         else (let z = zcall (Fs_mkdir p) z in if zrc e z \<in> {0, - ze_errno e EEXIST} then make_dirs e ps z else (zrc e z, z)))"

lemma mkdir_loop_dirs:
  assumes "\<forall>c \<in> set (stk @ cs). plain_comp c" "length (QFS_ROOT @ path_of (stk @ cs)) < QFS_PATH_MAX"
  shows "qfs_mkdir_loop e (QFS_ROOT @ path_of stk) (path_of cs) z = make_dirs e (dirs_to stk cs) z"
  using assms
proof (induction cs arbitrary: stk z)
  case Nil
  then show ?case by (subst qfs_mkdir_loop.simps) simp
next
  case (Cons c cs)
  have IH: "qfs_mkdir_loop e (QFS_ROOT @ path_of (stk @ [c])) (path_of cs) z' = make_dirs e (dirs_to (stk @ [c]) cs) z'" for z'
    using Cons.IH [of "stk @ [c]" z'] Cons.prems by simp
  have "\<forall>d \<in> set (c # cs). plain_comp d" "\<forall>d \<in> set stk. plain_comp d" "length (QFS_ROOT @ path_of (stk @ [c])) < QFS_PATH_MAX"
    using Cons.prems by auto
  from mkdir_loop_round [OF this refl refl refl, of e z] show ?case
    unfolding IH by (simp add: Let_def)
qed

lemma dirs_to_below:
  assumes "\<forall>c \<in> set (stk @ cs). plain_comp c" "length (QFS_ROOT @ path_of (stk @ cs)) < QFS_PATH_MAX"
  shows "\<forall>p \<in> set (dirs_to stk cs). below_root p"
  using assms
proof (induction cs arbitrary: stk)
  case (Cons c cs)
  then show ?case using below_root_render [of "stk @ [c]"] Cons.IH [of "stk @ [c]"] by simp
qed simp

lemma confined_make_dirs: "\<forall>p \<in> set ps. below_root p \<Longrightarrow> confined z \<Longrightarrow> confined (snd (make_dirs e ps z))"
  by (induction ps arbitrary: z) (simp_all add: Let_def)

text \<open>Making a directory looks at every directory from the root to it in turn and makes those that are missing; it ends at
  the first that is no directory or cannot be made, with its error, and never for the length of the path.\<close>

theorem qfs_mkdir_makes_parents:
  assumes "below_root (zf_cwd z)"
  shows "qfs_mkdir e path z =
    (case make_path (zf_cwd z) QFS_PATH_MAX path of
       Inl rc \<Rightarrow> (rc, z)
     | Inr full \<Rightarrow> make_dirs e (dirs_to [] (comps (drop (length QFS_ROOT) full))) z)"
proof (cases "make_path (zf_cwd z) QFS_PATH_MAX path")
  case (Inr full)
  then obtain cs where full: "full = QFS_ROOT @ path_of cs" "\<forall>c \<in> set cs. plain_comp c" "length full < QFS_PATH_MAX"
    using make_path_below [OF assms Inr] by (auto simp: below_root_def)
  have "comps (path_of cs) = cs" using full(2) by (intro comps_path_of) (auto simp: plain_comp_def)
  moreover have "cs = [] \<longleftrightarrow> full = QFS_ROOT" using full by (cases cs) simp_all
  ultimately show ?thesis
    using full Inr mkdir_loop_dirs [of "[]" cs e z] by (auto simp: qfs_mkdir_def QFS_PATH_MAX_def QFS_ROOT_eq)
qed (simp add: qfs_mkdir_def)
lemma confined_step:
  assumes "confined z"
  shows "confined (qfs_step e op z)"
proof (cases op)
  case (Dir_open p)
  have "make_path (zf_cwd z) QFS_PATH_MAX (Some (case p of Some p \<Rightarrow> p | None \<Rightarrow> zf_cwd z)) = Inr q \<Longrightarrow> below_root q" for q
    using confined_make_path [OF assms] by blast
  then show ?thesis using Dir_open assms by (auto simp: qfs_dir_open_def Let_def split: sum.split)
next
  case (Read_all p)
  have "make_path (zf_cwd z) QFS_PATH_MAX p = Inr q \<Longrightarrow> below_root q" for q using confined_make_path [OF assms] by blast
  moreover have "confined (snd (snd (qfs_read_file_all e 0 n z'))) = confined z'" for n z'
    by (simp add: qfs_read_file_all_def confined_read_loop)
  ultimately show ?thesis using Read_all assms by (auto simp: qfs_read_all_def Let_def case_prod_unfold split: sum.split)
next
  case (Open p flags)
  then show ?thesis using assms confined_make_path [OF assms, of p] by (auto simp: qfs_open_def Let_def split: sum.split)
next
  case (Chdir p)
  have "below_root q" "copy_text 256 q = q" if "make_path (zf_cwd z) QFS_PATH_MAX p = Inr q" for q
    using confined_make_path [OF assms that] by (simp_all add: below_root_def QFS_PATH_MAX_def)
  then show ?thesis using Chdir assms by (auto simp: qfs_chdir_def confined_def zcall_def Let_def split: sum.split)
next
  case (Mkdir p)
  have cwd: "below_root (zf_cwd z)" using assms by (simp add: confined_def)
  show ?thesis
  proof (cases "make_path (zf_cwd z) QFS_PATH_MAX p")
    case (Inr full)
    then obtain cs where full: "full = QFS_ROOT @ path_of cs" "\<forall>c \<in> set cs. plain_comp c" "length full < QFS_PATH_MAX"
      using make_path_below [OF cwd Inr] by (auto simp: below_root_def)
    then have "confined (snd (qfs_mkdir_loop e QFS_ROOT (path_of cs) z))"
      using mkdir_loop_dirs [of "[]" cs e z] dirs_to_below [of "[]" cs] assms by (simp add: confined_make_dirs)
    then show ?thesis using Mkdir Inr full(1) assms by (simp add: qfs_mkdir_def)
  qed (use Mkdir assms in \<open>simp add: qfs_mkdir_def\<close>)
qed (use assms confined_make_path [OF assms] in \<open>auto simp: qfs_dir_read_def qfs_dir_close_def qfs_free_def qfs_read_def qfs_write_def qfs_close_def
  qfs_unlink_def qfs_rmdir_def Let_def split: sum.split\<close>)

text \<open>C7: Whatever paths a program passes to the file system, and whatever Zephyr answers, the current directory and every path
  that is opened, looked at, deleted or made is a normal path below the root that fits its buffer.\<close>

theorem zephyr_paths_confined: "confined (fold (qfs_step e) ops (zephyr_start opened))"
proof -
  have run: "confined z \<Longrightarrow> confined (fold (qfs_step e) ops z)" for z
    by (induction ops arbitrary: z) (simp_all add: confined_step)
  have "below_root QFS_ROOT" using below_root_render [of "[]"] by (simp add: QFS_ROOT_eq QFS_PATH_MAX_def)
  then have "confined (zephyr_start opened)" by (simp add: zephyr_start_def confined_def s_cwd_init_def)
  with run show ?thesis by blast
qed

text \<open>The calls of Zephyr return negative numbers for errors: the directory read turns them into a positive number, which
  says that there is an entry, and leaves the entry of the caller as it was.\<close>

theorem dir_read_error_looks_ok:
  assumes "d \<noteq> NULL" "ze_rc e (zf_calls z @ [Fs_readdir d]) < 0"
  shows "0 < fst (qfs_dir_read e d en z) \<and> fst (snd (qfs_dir_read e d en z)) = en"
  using assms by (simp add: qfs_dir_read_def Let_def)

theorem qfs_mkdir_makes_parents_witness:
  "qfs_mkdir \<lparr>ze_rc = (\<lambda>cs. if length cs = 1 then -2 else 0), ze_entry = (\<lambda>_. \<lparr>fd_type = FS_DIR_ENTRY_FILE, fd_name = [], fd_size = 0\<rparr>),
     ze_data = (\<lambda>_. []), ze_mem = (\<lambda>_. 0), ze_errno = (\<lambda>_. 20)\<rparr> (Some [97, 47, 98]) (zephyr_start (\<lambda>_. False)) =
   (-20, (zephyr_start (\<lambda>_. False))\<lparr>zf_calls := [Fs_stat (QFS_ROOT @ [47, 97]), Fs_mkdir (QFS_ROOT @ [47, 97]), Fs_stat (QFS_ROOT @ [47, 97, 47, 98])]\<rparr>)"
proof -
  have "make_path QFS_ROOT QFS_PATH_MAX (Some [97, 47, 98]) = Inr (QFS_ROOT @ [47, 97, 47, 98])"
    using resolve_paths [of _ "[]" "[97, 47, 98]"] by (simp add: QFS_ROOT_eq QFS_PATH_MAX_def comps_def climb_def)
  moreover have "below_root QFS_ROOT" using below_root_render [of "[]"] by (simp add: QFS_ROOT_eq QFS_PATH_MAX_def)
  ultimately show ?thesis
    using qfs_mkdir_makes_parents [of "zephyr_start (\<lambda>_. False)" _ "Some [97, 47, 98]"]
    by (simp add: zephyr_start_def s_cwd_init_def zcall_def QFS_ROOT_eq comps_def)
qed

section \<open>What failed calls leave\<close>

text \<open>The blocks of the two allocators, the directories and the files that are held.\<close>

datatype holding = C_block | Q_block | Directory | File

fun holds :: "zephyr_env \<Rightarrow> fs_call list \<Rightarrow> fs_call \<Rightarrow> holding \<Rightarrow> int" where
  "holds e cs Malloc k = (if k = C_block \<and> ze_mem e (cs @ [Malloc]) \<noteq> NULL then 1 else 0)"
| "holds e cs (Free a) k = (if k = C_block then -1 else 0)"
| "holds e cs (Qoraal_malloc n) k = (if k = Q_block \<and> ze_mem e (cs @ [Qoraal_malloc n]) \<noteq> NULL then 1 else 0)"
| "holds e cs (Qoraal_free a) k = (if k = Q_block then -1 else 0)"
| "holds e cs (Fs_opendir p) k = (if k = Directory \<and> ze_rc e (cs @ [Fs_opendir p]) = 0 then 1 else 0)"
| "holds e cs (Fs_closedir d) k = (if k = Directory then -1 else 0)"
| "holds e cs (Fs_open h p mode) k = (if k = File \<and> ze_rc e (cs @ [Fs_open h p mode]) = 0 then 1 else 0)"
| "holds e cs (Fs_close f) k = (if k = File then -1 else 0)"
| "holds e cs c k = 0"

definition held :: "zephyr_env \<Rightarrow> zephyr_fs \<Rightarrow> holding \<Rightarrow> int" where
  "held e z k = (\<Sum>i < length (zf_calls z). holds e (take i (zf_calls z)) (zf_calls z ! i) k)"

lemma held_zcall [simp]: "held e (zcall c z) k = held e z k + holds e (zf_calls z) c k"
proof -
  have "(\<Sum>i < length (zf_calls z). holds e (take i (zf_calls z @ [c])) ((zf_calls z @ [c]) ! i) k) = held e z k"
    unfolding held_def by (intro sum.cong refl) (simp add: nth_append)
  then show ?thesis by (simp add: held_def)
qed

lemma held_update [simp]: "held e (z\<lparr>zf_opened := op'\<rparr>) = held e z"
  by (simp add: held_def fun_eq_iff)

lemma held_read_loop: "held e (snd (snd (qfs_read_file_loop e f got file_sz buf z))) = held e z"
proof (induction e f got file_sz buf z rule: qfs_read_file_loop.induct)
  case (1 e f got file_sz buf z)
  have "held e (zcall (Fs_read f n) z) = held e z" for n by (simp add: fun_eq_iff)
  then show ?case using 1 by (subst qfs_read_file_loop.simps) (simp add: Let_def)
qed

lemma dir_open_holds:
  assumes "qfs_dir_open e p z = (rc, h, z')"
  shows "held e z' k = held e z k + (if h \<noteq> NULL \<and> k \<in> {C_block, Directory} then 1 else 0)"
  using assms by (auto simp: qfs_dir_open_def Let_def split: sum.splits if_splits)

lemma open_holds:
  assumes "qfs_open e p flags z = (rc, h, z')"
  shows "held e z' k = held e z k + (if h \<noteq> NULL \<and> k \<in> {C_block, File} then 1 else 0)"
  using assms by (auto simp: qfs_open_def Let_def split: sum.splits if_splits)

lemma read_all_holds:
  "held e (snd (snd (snd (qfs_read_all e p z)))) k = held e z k + (if fst (snd (qfs_read_all e p z)) \<noteq> NULL \<and> k = Q_block then 1 else 0)"
  by (auto simp: qfs_read_all_def Let_def case_prod_unfold qfs_read_file_all_def held_read_loop split: sum.split)

text \<open>A call that fails releases everything it took: an open of a directory or of a file that returns an error, and a read of
  a whole file that does, leave no block, no directory and no file behind. One that succeeds keeps exactly its handle or its buffer.\<close>

theorem failed_calls_release:
  "(let r = qfs_dir_open e p z in held e (snd (snd r)) k = held e z k + (if fst (snd r) \<noteq> NULL \<and> k \<in> {C_block, Directory} then 1 else 0)) \<and>
   (let r = qfs_open e p flags z in held e (snd (snd r)) k = held e z k + (if fst (snd r) \<noteq> NULL \<and> k \<in> {C_block, File} then 1 else 0)) \<and>
   (let r = qfs_read_all e p z in held e (snd (snd (snd r))) k = held e z k + (if fst (snd r) \<noteq> NULL \<and> k = Q_block then 1 else 0))"
  unfolding Let_def
  using dir_open_holds [of e p z _ _ "snd (snd (qfs_dir_open e p z))" k] open_holds [of e p flags z _ _ "snd (snd (qfs_open e p flags z))" k]
    read_all_holds [of e p z k] by (metis prod.collapse)
section \<open>A file is read as a whole\<close>

text \<open>The position in the file that was opened last, over the calls in reverse order; \<open>delivers\<close>: a read returns at most as many
  bytes as it was asked for, those of the file \<open>D\<close> at the position, or an error; the size is that of the file.\<close>

fun file_pos :: "zephyr_env \<Rightarrow> fs_call list \<Rightarrow> nat" where
  "file_pos e [] = 0"
| "file_pos e (Fs_open h p mode # cs) = 0"
| "file_pos e (Fs_read f n # cs) = file_pos e cs + nat (ze_rc e (rev cs @ [Fs_read f n]))"
| "file_pos e (c # cs) = file_pos e cs"

definition delivers :: "zephyr_env \<Rightarrow> u8 list \<Rightarrow> bool" where
  "delivers e D \<longleftrightarrow>
     (\<forall>cs f n. ze_rc e (cs @ [Fs_read f n]) \<le> int n \<and>
        file_pos e (rev cs) + nat (ze_rc e (cs @ [Fs_read f n])) \<le> max (file_pos e (rev cs)) (length D) \<and>
        ze_data e (cs @ [Fs_read f n]) = take (nat (ze_rc e (cs @ [Fs_read f n]))) (drop (file_pos e (rev cs)) D)) \<and>
     (\<forall>cs p. fd_size (ze_entry e (cs @ [Fs_stat p])) = length D) \<and> (\<forall>x. 0 < ze_errno e x)"

lemma read_loop_whole:
  assumes "delivers e D" "got = file_pos e (rev (zf_calls z))" "got \<le> length D" "buf = take got D"
    "qfs_read_file_loop e f got (length D) buf z = (r, t, z')" "0 \<le> r"
  shows "t = D \<and> r = sint (of_nat (length D) :: u32) \<and> set (zf_calls z) \<subseteq> set (zf_calls z')"
  using assms
proof (induction e f got "length D" buf z rule: qfs_read_file_loop.induct)
  case (1 e f got buf z)
  let ?z = "zcall (Fs_read f (length D - got)) z"
  have e: "0 < ze_errno e EIO" using 1(2) by (simp add: delivers_def)
  show ?case
  proof (cases "got < length D")
    case False
    then show ?thesis using 1(4-7) by (subst (asm) qfs_read_file_loop.simps) auto
  next
    case True
    have step: "0 < zrc e ?z \<and> qfs_read_file_loop e f (got + nat (zrc e ?z)) (length D) (buf @ take (nat (zrc e ?z)) (ze_data e (zf_calls ?z))) ?z = (r, t, z')"
      using 1(6,7) True e by (subst (asm) qfs_read_file_loop.simps) (auto simp: Let_def split: if_splits)
    have d: "got + nat (zrc e ?z) \<le> length D" "ze_data e (zf_calls ?z) = take (nat (zrc e ?z)) (drop got D)"
      using 1(2,3) True unfolding delivers_def zcall_fields by (metis max.absorb2 order_less_imp_le)+
    have "buf @ take (nat (zrc e ?z)) (ze_data e (zf_calls ?z)) = take (got + nat (zrc e ?z)) D"
      using d 1(5) by (simp add: take_add)
    moreover have "got + nat (zrc e ?z) = file_pos e (rev (zf_calls ?z))" using 1(3) by simp
    ultimately show ?thesis using 1(1) [OF True refl refl _ _ 1(2)] step d(1) 1(7) by fastforce
  qed
qed

lemma read_all_success:
  assumes "make_path (zf_cwd z) QFS_PATH_MAX p = Inr q" "z2 = zcall (Fs_stat q) (zcall (Fs_open 0 q [FS_O_READ]) z)"
    "qfs_read_all e p z = (n, b, t, z')" "b \<noteq> NULL"
  obtains z4 where "qfs_read_file_all e 0 (fd_size (zentry e z2)) (zcall (Qoraal_malloc (fd_size (zentry e z2) + 1)) z2) = (n, t, z4)"
    "0 \<le> n" "z' = zcall (Fs_close 0) z4"
  using assms by (auto simp: qfs_read_all_def Let_def split: if_splits prod.splits)

text \<open>C32: A read of a whole file that succeeds returns the file: every byte of it once and in order, however short the pieces are
  in which it comes, its size, and a buffer with room for it and a terminating zero.\<close>

theorem qfs_read_all_whole:
  assumes "delivers e D" "qfs_read_all e p z = (n, b, t, z')" "b \<noteq> NULL"
  shows "t = D \<and> n = sint (of_nat (length D) :: u32) \<and> Qoraal_malloc (length D + 1) \<in> set (zf_calls z')"
proof -
  obtain q where q: "make_path (zf_cwd z) QFS_PATH_MAX p = Inr q"
    using assms(2,3) by (cases "make_path (zf_cwd z) QFS_PATH_MAX p") (auto simp: qfs_read_all_def)
  let ?z2 = "zcall (Fs_stat q) (zcall (Fs_open 0 q [FS_O_READ]) z)"
  let ?z3 = "zcall (Qoraal_malloc (length D + 1)) ?z2"
  have sz: "fd_size (zentry e ?z2) = length D" using assms(1) unfolding delivers_def zcall_fields by blast
  obtain z4 where r: "qfs_read_file_all e 0 (length D) ?z3 = (n, t, z4)" "0 \<le> n" "z' = zcall (Fs_close 0) z4"
    using read_all_success [OF q refl assms(2,3)] unfolding sz by metis
  have "t = D \<and> n = sint (of_nat (length D) :: u32) \<and> set (zf_calls ?z3) \<subseteq> set (zf_calls z4)"
    using read_loop_whole [OF assms(1), of 0 ?z3 "[]" 0 n t z4] r(1,2) by (simp add: qfs_read_file_all_def)
  then show ?thesis using r(3) by auto
qed

text \<open>A file of three bytes that comes in pieces of at most two.\<close>

fun demo_pos :: "fs_call list \<Rightarrow> nat" where
  "demo_pos [] = 0"
| "demo_pos (Fs_open h p mode # cs) = 0"
| "demo_pos (Fs_read f n # cs) = demo_pos cs + min (min n 2) (3 - demo_pos cs)"
| "demo_pos (c # cs) = demo_pos cs"

fun demo_rc :: "fs_call list \<Rightarrow> int" where
  "demo_rc (Fs_read f n # cs) = int (min (min n 2) (3 - demo_pos cs))"
| "demo_rc cs = 0"

fun demo_data :: "fs_call list \<Rightarrow> u8 list" where
  "demo_data (Fs_read f n # cs) = take (min (min n 2) (3 - demo_pos cs)) (drop (demo_pos cs) [7, 8, 9])"
| "demo_data cs = []"

definition demo_zephyr :: zephyr_env where
  "demo_zephyr = \<lparr>ze_rc = (\<lambda>cs. demo_rc (rev cs)), ze_entry = (\<lambda>_. \<lparr>fd_type = FS_DIR_ENTRY_FILE, fd_name = [], fd_size = 3\<rparr>),
     ze_data = (\<lambda>cs. demo_data (rev cs)), ze_mem = (\<lambda>_. 4096), ze_errno = (\<lambda>_. 5)\<rparr>"

lemma demo_zephyr_pos: "file_pos demo_zephyr cs = demo_pos cs"
  by (induction cs rule: demo_pos.induct) (simp_all add: demo_zephyr_def)

lemma demo_zephyr_delivers: "delivers demo_zephyr [7, 8, 9]"
  unfolding delivers_def demo_zephyr_pos by (auto simp: demo_zephyr_def)

definition demo_zephyr_fs :: zephyr_fs where
  "demo_zephyr_fs = zephyr_start (\<lambda>_. False)"

lemma demo_read: "\<exists>n t z'. qfs_read_all demo_zephyr (Some [102]) demo_zephyr_fs = (n, 4096, t, z')"
proof -
  have "make_path s_cwd_init QFS_PATH_MAX (Some [102]) = Inr (QFS_ROOT @ [47, 102])"
    using resolve_paths [of _ "[]" "[102]"] by (simp add: s_cwd_init_def QFS_ROOT_eq QFS_PATH_MAX_def comps_def climb_def)
  then show ?thesis
    by (simp add: qfs_read_all_def demo_zephyr_fs_def zephyr_start_def zcall_def demo_zephyr_def Let_def qfs_read_file_all_def qfs_read_file_loop.simps)
qed

theorem qfs_read_all_whole_witness: "fst (snd (snd (qfs_read_all demo_zephyr (Some [102]) demo_zephyr_fs))) = [7, 8, 9]"
proof -
  obtain n t z' where r: "qfs_read_all demo_zephyr (Some [102]) demo_zephyr_fs = (n, 4096, t, z')" using demo_read by blast
  from qfs_read_all_whole [OF demo_zephyr_delivers r] show ?thesis by (simp add: r)
qed

end
