(* ===== verification/QfsPosix.thy ===== *)
theory QfsPosix
  imports Qfs "HOL-Library.Sublist"
begin

text \<open>
  The file system of POSIX, src/qfs_posix.c. The calls of the C library and of the allocator are recorded in the state, and
  what they answer is an argument: a function of the calls made so far, the last one included. \<open>fread\<close> returns at most as many
  bytes as it was asked for.
\<close>

section \<open>Data\<close>

datatype d_type = DT_DIR | DT_REG | DT_OTHER

datatype posix_call =
    P_opendir "u8 list" | P_readdir addr | P_closedir addr
  | P_fopen "u8 list" string | P_fseek addr bool | P_ftell addr | P_fread addr nat | P_fwrite addr "u8 list" | P_fclose addr
  | P_chdir "u8 list" | P_getcwd nat | P_unlink "u8 list" | P_rmdir "u8 list" | P_mkdir "u8 list"
  | P_malloc nat | P_free addr

text \<open>\<open>pe_num\<close>: the numbers of errno.h; \<open>pe_errno\<close>: \<open>errno\<close>; \<open>pe_d_type\<close>: whether entries have a type. A handle has the size
  \<open>pe_size\<close>. The number of \<open>P_fseek\<close> is true for the end of the file.\<close>

record posix_env =
  pe_rc :: "posix_call list \<Rightarrow> int"
  pe_ptr :: "posix_call list \<Rightarrow> addr"
  pe_entry :: "posix_call list \<Rightarrow> (u8 list \<times> d_type) option"
  pe_data :: "posix_call list \<Rightarrow> u8 list"
  pe_written :: "posix_call list \<Rightarrow> nat"
  pe_cwd :: "posix_call list \<Rightarrow> u8 list option"
  pe_feof :: "posix_call list \<Rightarrow> bool"
  pe_ferror :: "posix_call list \<Rightarrow> bool"
  pe_errno :: "posix_call list \<Rightarrow> errno"
  pe_num :: "errno \<Rightarrow> int"
  pe_d_type :: bool
  pe_fnmatch :: "u8 list \<Rightarrow> u8 list \<Rightarrow> int"
  pe_size :: nat

text \<open>\<open>pf_dp\<close>, \<open>pf_fp\<close>: the fields of the handles.\<close>

record posix_fs =
  pf_calls :: "posix_call list"
  pf_dp :: "addr \<Rightarrow> addr"
  pf_fp :: "addr \<Rightarrow> addr"

definition pcall :: "posix_call \<Rightarrow> posix_fs \<Rightarrow> posix_fs" where
  "pcall c z = z\<lparr>pf_calls := pf_calls z @ [c]\<rparr>"

abbreviation prc :: "posix_env \<Rightarrow> posix_fs \<Rightarrow> int" where
  "prc e z \<equiv> pe_rc e (pf_calls z)"

abbreviation pptr :: "posix_env \<Rightarrow> posix_fs \<Rightarrow> addr" where
  "pptr e z \<equiv> pe_ptr e (pf_calls z)"

abbreviation perrno :: "posix_env \<Rightarrow> posix_fs \<Rightarrow> int" where
  "perrno e z \<equiv> pe_num e (pe_errno e (pf_calls z))"

section \<open>Directories\<close>

definition posix_dir_open :: "posix_env \<Rightarrow> u8 list option \<Rightarrow> posix_fs \<Rightarrow> int \<times> addr \<times> posix_fs" where
  "posix_dir_open e path z =
     (let z = pcall (P_opendir (case path of Some p \<Rightarrow> p | None \<Rightarrow> [46])) z; dp = pptr e z
      in if dp = NULL then (-1, NULL, z)
         else
           (let z = pcall (P_malloc (pe_size e)) z; h = pptr e z
            in if h = NULL then (-1, NULL, pcall (P_closedir dp) z)
               else (0, h, z\<lparr>pf_dp := (pf_dp z)(h := dp)\<rparr>)))"

definition posix_dir_read :: "posix_env \<Rightarrow> addr \<Rightarrow> qfs_dirent_t \<Rightarrow> posix_fs \<Rightarrow> int \<times> qfs_dirent_t \<times> posix_fs" where
  "posix_dir_read e d en z =
     (if d = NULL then (-1, en, z)
      else
        (let z = pcall (P_readdir (pf_dp z d)) z
         in case pe_entry e (pf_calls z) of
              None \<Rightarrow> (0, en, z)
            | Some (nm, ty) \<Rightarrow>
                (1, \<lparr>de_name = copy_text 256 nm,
                     de_is_dir = (if pe_d_type e then (if ty = DT_DIR then 1 else if ty = DT_REG then 0 else -1) else 0)\<rparr>, z)))"

definition posix_dir_close :: "addr \<Rightarrow> posix_fs \<Rightarrow> posix_fs" where
  "posix_dir_close d z = (if d \<noteq> NULL then pcall (P_free d) (pcall (P_closedir (pf_dp z d)) z) else z)"

section \<open>Files\<close>

text \<open>\<open>got\<close> bytes are in \<open>buf\<close>. A read of nothing is an error whether \<open>ferror\<close> says so or not.\<close>

function posix_read_fp_loop :: "posix_env \<Rightarrow> addr \<Rightarrow> nat \<Rightarrow> nat \<Rightarrow> u8 list \<Rightarrow> posix_fs \<Rightarrow> int \<times> u8 list \<times> posix_fs" where
  "posix_read_fp_loop e fp got file_sz buf z =
     (if got < file_sz then
        (let z = pcall (P_fread fp (file_sz - got)) z; t = take (file_sz - got) (pe_data e (pf_calls z)); n = length t
         in if n > 0 then posix_read_fp_loop e fp (got + n) file_sz (buf @ t) z
            else if pe_ferror e (pf_calls z) then (- pe_num e EIO, buf, z)
            else (- pe_num e EIO, buf, z))
      else (sint (of_nat file_sz :: u32), buf, z))"
  by pat_completeness auto

termination
  by (relation "measure (\<lambda>(e, fp, got, file_sz, buf, z). file_sz - got)") (auto simp flip: length_greater_0_conv)

declare posix_read_fp_loop.simps [simp del]

definition qfs_read_fp_all :: "posix_env \<Rightarrow> addr \<Rightarrow> nat \<Rightarrow> posix_fs \<Rightarrow> int \<times> u8 list \<times> posix_fs" where
  "qfs_read_fp_all e fp file_sz z = posix_read_fp_loop e fp 0 file_sz [] z"

text \<open>The result, the buffer and the text in it.\<close>

definition posix_read_all :: "posix_env \<Rightarrow> u8 list \<Rightarrow> posix_fs \<Rightarrow> int \<times> addr \<times> u8 list \<times> posix_fs" where
  "posix_read_all e path z =
     (let z = pcall (P_fopen path ''rb'') z; fp = pptr e z
      in if fp = NULL then (-1, NULL, [], z)
         else
           (let z = pcall (P_fseek fp True) z
            in if prc e z \<noteq> 0 then (-2, NULL, [], pcall (P_fclose fp) z)
               else
                 (let z = pcall (P_ftell fp) z; sz = prc e z
                  in if sz < 0 then (-3, NULL, [], pcall (P_fclose fp) z)
                     else
                       (let z = pcall (P_fseek fp False) z
                        in if prc e z \<noteq> 0 then (-4, NULL, [], pcall (P_fclose fp) z)
                           else
                             (let z = pcall (P_malloc (nat sz + 1)) z; buf = pptr e z
                              in if buf = NULL then (-5, NULL, [], pcall (P_fclose fp) z)
                                 else
                                   (let (rc, t, z) = qfs_read_fp_all e fp (nat sz) z; z = pcall (P_fclose fp) z
                                    in if rc < 0 then (rc, NULL, [], pcall (P_free buf) z) else (rc, buf, t, z)))))))"

definition posix_free :: "addr \<Rightarrow> posix_fs \<Rightarrow> posix_fs" where
  "posix_free p z = (if p \<noteq> NULL then pcall (P_free p) z else z)"

definition posix_open :: "posix_env \<Rightarrow> u8 list option \<Rightarrow> u32 \<Rightarrow> posix_fs \<Rightarrow> int \<times> addr \<times> posix_fs" where
  "posix_open e path flags z =
     (case path of
        None \<Rightarrow> (- pe_num e EINVAL, NULL, z)
      | Some p \<Rightarrow>
          (let flags = (if flags = 0 then QFS_OPEN_READ else flags)
           in if flags AND QFS_OPEN_READ \<noteq> 0 \<and> flags AND QFS_OPEN_APPEND \<noteq> 0 then (- pe_num e EINVAL, NULL, z)
              else
                (let mode = (if flags AND QFS_OPEN_READ \<noteq> 0 then ''rb'' else if flags AND QFS_OPEN_APPEND \<noteq> 0 then ''ab'' else ''wb'');
                     z = pcall (P_fopen p mode) z; fp = pptr e z
                 in if fp = NULL then (- perrno e z, NULL, z)
                    else
                      (let z = pcall (P_malloc (pe_size e)) z; h = pptr e z
                       in if h = NULL then (- pe_num e ENOMEM, NULL, pcall (P_fclose fp) z)
                          else (0, h, z\<lparr>pf_fp := (pf_fp z)(h := fp)\<rparr>)))))"

text \<open>The result and the bytes read.\<close>

definition posix_read :: "posix_env \<Rightarrow> addr \<Rightarrow> nat \<Rightarrow> posix_fs \<Rightarrow> int \<times> u8 list \<times> posix_fs" where
  "posix_read e f len z =
     (if f = NULL \<or> pf_fp z f = NULL then (- pe_num e EINVAL, [], z)
      else if len = 0 then (0, [], z)
      else
        (let z = pcall (P_fread (pf_fp z f) len) z; t = take len (pe_data e (pf_calls z)); n = length t
         in if n > 0 then (sint (of_nat n :: u32), t, z)
            else if pe_feof e (pf_calls z) then (0, [], z)
            else if pe_ferror e (pf_calls z) then (- pe_num e EIO, [], z)
            else (- pe_num e EIO, [], z)))"

definition posix_write :: "posix_env \<Rightarrow> addr \<Rightarrow> u8 list \<Rightarrow> posix_fs \<Rightarrow> int \<times> posix_fs" where
  "posix_write e f buf z =
     (if f = NULL \<or> pf_fp z f = NULL then (- pe_num e EINVAL, z)
      else
        (let z = pcall (P_fwrite (pf_fp z f) buf) z; n = pe_written e (pf_calls z)
         in if n = length buf then (sint (of_nat n :: u32), z)
            else if pe_ferror e (pf_calls z) then (- pe_num e EIO, z)
            else (sint (of_nat n :: u32), z)))"

definition posix_close :: "posix_env \<Rightarrow> addr \<Rightarrow> posix_fs \<Rightarrow> int \<times> posix_fs" where
  "posix_close e f z =
     (if f = NULL then (0, z)
      else
        (let (rc, z) = (if pf_fp z f \<noteq> NULL then
                          (let z = pcall (P_fclose (pf_fp z f)) z; rc = prc e z
                           in (if rc \<noteq> 0 then - perrno e z else rc, z\<lparr>pf_fp := (pf_fp z)(f := NULL)\<rparr>))
                        else (0, z))
         in (rc, pcall (P_free f) z)))"

section \<open>The current directory and changes\<close>

definition CWD_BUF_SIZE :: nat where "CWD_BUF_SIZE = 256"

definition posix_chdir :: "posix_env \<Rightarrow> u8 list \<Rightarrow> posix_fs \<Rightarrow> int \<times> posix_fs" where
  "posix_chdir e path z = (let z = pcall (P_chdir path) z in (prc e z, z))"

definition posix_getcwd :: "posix_env \<Rightarrow> posix_fs \<Rightarrow> u8 list \<times> posix_fs" where
  "posix_getcwd e z =
     (let z = pcall (P_getcwd CWD_BUF_SIZE) z in (case pe_cwd e (pf_calls z) of None \<Rightarrow> [] | Some w \<Rightarrow> w, z))"

definition posix_make_abs :: "posix_env \<Rightarrow> nat \<Rightarrow> u8 list option \<Rightarrow> posix_fs \<Rightarrow> (int + u8 list) \<times> posix_fs" where
  "posix_make_abs e out_sz inp z =
     (if inp = None \<or> inp = Some [] then (Inl (-1), z)
      else if hd (the inp) = 47 then (Inr (copy_text out_sz (the inp)), z)
      else
        (let (cwd, z) = posix_getcwd e z
         in if length cwd + 1 + length (the inp) + 1 > out_sz then (Inl (-1), z)
            else (Inr (cwd @ [47] @ the inp), z)))"

definition posix_unlink :: "posix_env \<Rightarrow> u8 list \<Rightarrow> posix_fs \<Rightarrow> int \<times> posix_fs" where
  "posix_unlink e path z =
     (let z = pcall (P_unlink path) z; rc = prc e z
      in if rc = 0 then (0, z) else if pe_errno e (pf_calls z) = ENOENT then (0, z) else (- perrno e z, z))"

definition posix_rmdir :: "posix_env \<Rightarrow> u8 list \<Rightarrow> posix_fs \<Rightarrow> int \<times> posix_fs" where
  "posix_rmdir e path z =
     (let z = pcall (P_rmdir path) z; rc = prc e z
      in if rc = 0 then (0, z) else if pe_errno e (pf_calls z) = ENOENT then (0, z) else (- perrno e z, z))"

definition posix_match :: "posix_env \<Rightarrow> u8 list \<Rightarrow> u8 list \<Rightarrow> int" where
  "posix_match e pattern nm = (if pe_fnmatch e pattern nm = 0 then 1 else 0)"

definition posix_mkdir :: "posix_env \<Rightarrow> u8 list \<Rightarrow> posix_fs \<Rightarrow> int \<times> posix_fs" where
  "posix_mkdir e path z =
     (let z = pcall (P_mkdir path) z; rc = prc e z
      in if rc < 0 \<and> pe_errno e (pf_calls z) = EEXIST then (0, z) else (rc, z))"

section \<open>Absolute paths\<close>

text \<open>An absolute path fits its buffer with the terminating zero, and is the path itself if that starts with a slash and fits,
  else the current directory, a slash and the path; a relative path that does not fit is an error, and so is an empty path.\<close>

theorem posix_make_abs_result:
  assumes "0 < out_sz"
  shows "case fst (posix_make_abs e out_sz inp z) of
      Inl r \<Rightarrow> r = -1 \<and> (inp = None \<or> inp = Some [] \<or> hd (the inp) \<noteq> 47 \<and> out_sz < length (fst (posix_getcwd e z)) + length (the inp) + 2)
    | Inr p \<Rightarrow> length p < out_sz \<and> (\<exists>t. inp = Some t \<and> t \<noteq> [] \<and>
        (hd t = 47 \<and> prefix p t \<and> (length t < out_sz \<longrightarrow> p = t) \<or> hd t \<noteq> 47 \<and> p = fst (posix_getcwd e z) @ 47 # t))"
  using assms by (cases inp) (auto simp: posix_make_abs_def Let_def copy_text_def case_prod_unfold take_is_prefix)
theorem posix_make_abs_result_witness:
  "\<forall>e z. fst (posix_make_abs e 6 (Some [47, 97, 98, 99, 100, 101]) z) = Inr [47, 97, 98, 99, 100] \<and>
   (case fst (posix_make_abs e 6 (Some [97, 98, 99, 100, 101]) z) of Inl r \<Rightarrow> r = -1 | Inr p \<Rightarrow> False)"
proof (intro allI)
  fix e z
  show "fst (posix_make_abs e 6 (Some [47, 97, 98, 99, 100, 101]) z) = Inr [47, 97, 98, 99, 100] \<and>
   (case fst (posix_make_abs e 6 (Some [97, 98, 99, 100, 101]) z) of Inl r \<Rightarrow> r = -1 | Inr p \<Rightarrow> False)"
    using posix_make_abs_result [where out_sz = 6 and e = e and inp = "Some [97, 98, 99, 100, 101]" and z = z]
    by (cases "fst (posix_make_abs e 6 (Some [97, 98, 99, 100, 101]) z)") (simp_all add: posix_make_abs_def copy_text_def)
qed

text \<open>An absolute path that does not fit is cut without an error: the call that follows works on another file.\<close>

theorem absolute_path_is_cut:
  assumes "hd p = 47" "out_sz \<le> length p" "0 < out_sz"
  shows "fst (posix_make_abs e out_sz (Some p) z) = Inr (take (out_sz - 1) p) \<and> take (out_sz - 1) p \<noteq> p"
proof -
  have "length (take (out_sz - 1) p) < length p" using assms by simp
  then have "take (out_sz - 1) p \<noteq> p" by (metis less_irrefl)
  then show ?thesis using assms by (auto simp: posix_make_abs_def copy_text_def)
qed

text \<open>Where the current directory cannot be had, it is the empty text, and a relative path is taken from the root.\<close>

theorem relative_path_without_cwd:
  assumes "pe_cwd e (pf_calls z @ [P_getcwd CWD_BUF_SIZE]) = None" "p \<noteq> []" "hd p \<noteq> 47" "length p + 2 \<le> out_sz"
  shows "fst (posix_make_abs e out_sz (Some p) z) = Inr (47 # p)"
  using assms by (simp add: posix_make_abs_def posix_getcwd_def pcall_def Let_def)

section \<open>What failed calls leave\<close>

datatype p_holding = P_block | P_directory | P_file

fun p_holds :: "posix_env \<Rightarrow> posix_call list \<Rightarrow> posix_call \<Rightarrow> p_holding \<Rightarrow> int" where
  "p_holds e cs (P_malloc n) k = (if k = P_block \<and> pe_ptr e (cs @ [P_malloc n]) \<noteq> NULL then 1 else 0)"
| "p_holds e cs (P_free a) k = (if k = P_block then -1 else 0)"
| "p_holds e cs (P_opendir p) k = (if k = P_directory \<and> pe_ptr e (cs @ [P_opendir p]) \<noteq> NULL then 1 else 0)"
| "p_holds e cs (P_closedir d) k = (if k = P_directory then -1 else 0)"
| "p_holds e cs (P_fopen p mode) k = (if k = P_file \<and> pe_ptr e (cs @ [P_fopen p mode]) \<noteq> NULL then 1 else 0)"
| "p_holds e cs (P_fclose f) k = (if k = P_file then -1 else 0)"
| "p_holds e cs c k = 0"

definition p_held :: "posix_env \<Rightarrow> posix_fs \<Rightarrow> p_holding \<Rightarrow> int" where
  "p_held e z k = (\<Sum>i < length (pf_calls z). p_holds e (take i (pf_calls z)) (pf_calls z ! i) k)"

lemma pcall_fields [simp]: "pf_calls (pcall c z) = pf_calls z @ [c]" "pf_dp (pcall c z) = pf_dp z" "pf_fp (pcall c z) = pf_fp z"
  by (simp_all add: pcall_def)

lemma p_held_pcall [simp]: "p_held e (pcall c z) k = p_held e z k + p_holds e (pf_calls z) c k"
proof -
  have "(\<Sum>i < length (pf_calls z). p_holds e (take i (pf_calls z @ [c])) ((pf_calls z @ [c]) ! i) k) = p_held e z k"
    unfolding p_held_def by (intro sum.cong refl) (simp add: nth_append)
  then show ?thesis by (simp add: p_held_def)
qed

lemma p_held_update [simp]: "p_held e (z\<lparr>pf_dp := d\<rparr>) = p_held e z" "p_held e (z\<lparr>pf_fp := d\<rparr>) = p_held e z"
  by (simp_all add: p_held_def fun_eq_iff)

lemma p_held_read_loop: "p_held e (snd (snd (posix_read_fp_loop e fp got file_sz buf z))) = p_held e z"
proof (induction e fp got file_sz buf z rule: posix_read_fp_loop.induct)
  case (1 e fp got file_sz buf z)
  have "p_held e (pcall (P_fread fp n) z) = p_held e z" for n by (simp add: fun_eq_iff)
  then show ?case using 1 by (subst posix_read_fp_loop.simps) (simp add: Let_def)
qed

lemma posix_dir_open_holds:
  "p_held e (snd (snd (posix_dir_open e p z))) k = p_held e z k + (if fst (snd (posix_dir_open e p z)) \<noteq> NULL \<and> k \<in> {P_block, P_directory} then 1 else 0)"
  by (auto simp: posix_dir_open_def Let_def)

lemma posix_open_holds:
  "p_held e (snd (snd (posix_open e p flags z))) k = p_held e z k + (if fst (snd (posix_open e p flags z)) \<noteq> NULL \<and> k \<in> {P_block, P_file} then 1 else 0)"
  by (auto simp: posix_open_def Let_def split: option.split)

lemma posix_read_all_holds:
  "p_held e (snd (snd (snd (posix_read_all e p z)))) k = p_held e z k + (if fst (snd (posix_read_all e p z)) \<noteq> NULL \<and> k = P_block then 1 else 0)"
  by (auto simp: posix_read_all_def Let_def case_prod_unfold qfs_read_fp_all_def p_held_read_loop)

text \<open>As for Zephyr: what an open or a read of a whole file took is released when it fails.\<close>

theorem posix_failed_calls_release:
  "(let r = posix_dir_open e p z in p_held e (snd (snd r)) k = p_held e z k + (if fst (snd r) \<noteq> NULL \<and> k \<in> {P_block, P_directory} then 1 else 0)) \<and>
   (let r = posix_open e p flags z in p_held e (snd (snd r)) k = p_held e z k + (if fst (snd r) \<noteq> NULL \<and> k \<in> {P_block, P_file} then 1 else 0)) \<and>
   (let r = posix_read_all e t z in p_held e (snd (snd (snd r))) k = p_held e z k + (if fst (snd r) \<noteq> NULL \<and> k = P_block then 1 else 0))"
  unfolding Let_def by (intro conjI posix_dir_open_holds posix_open_holds posix_read_all_holds)

end
