(* ===== verification/FsCmds.thy ===== *)
theory FsCmds
  imports Script ZephyrFiles QfsPosix
begin

text \<open>
  The commands on files, src/qshell/fscmds.c, on top of the shell (Shell.thy, Script.thy) and of the functions of qfs.h.
  These are a record, so that the commands run on either file system (ZephyrFiles.thy, QfsPosix.thy). A command gets
  its arguments, the state of the file system and that of the shell, and returns its result and both states. \<open>None\<close> is a
  loop that does not end. Directories are not deleted, as without the option ALLOW_RMDIR.
\<close>

section \<open>Data\<close>

record 'q qfs_ops =
  qo_dir_open :: "u8 list \<Rightarrow> 'q \<Rightarrow> int \<times> addr \<times> 'q"
  qo_dir_read :: "addr \<Rightarrow> qfs_dirent_t \<Rightarrow> 'q \<Rightarrow> int \<times> qfs_dirent_t \<times> 'q"
  qo_dir_close :: "addr \<Rightarrow> 'q \<Rightarrow> 'q"
  qo_chdir :: "u8 list \<Rightarrow> 'q \<Rightarrow> int \<times> 'q"
  qo_getcwd :: "'q \<Rightarrow> u8 list \<times> 'q"
  qo_read_all :: "u8 list \<Rightarrow> 'q \<Rightarrow> int \<times> addr \<times> u8 list \<times> 'q"
  qo_free :: "addr \<Rightarrow> 'q \<Rightarrow> 'q"
  qo_make_abs :: "nat \<Rightarrow> u8 list \<Rightarrow> 'q \<Rightarrow> (int + u8 list) \<times> 'q"
  qo_unlink :: "u8 list \<Rightarrow> 'q \<Rightarrow> int \<times> 'q"
  qo_mkdir :: "u8 list \<Rightarrow> 'q \<Rightarrow> int \<times> 'q"
  qo_match :: "u8 list \<Rightarrow> u8 list \<Rightarrow> int option"
  qo_open :: "u8 list \<Rightarrow> u32 \<Rightarrow> 'q \<Rightarrow> int \<times> addr \<times> 'q"
  qo_write :: "addr \<Rightarrow> u8 list \<Rightarrow> 'q \<Rightarrow> int \<times> 'q"
  qo_close :: "addr \<Rightarrow> 'q \<Rightarrow> int \<times> 'q"

definition zephyr_ops :: "zephyr_env \<Rightarrow> zephyr_fs qfs_ops" where
  "zephyr_ops e = \<lparr>qo_dir_open = (\<lambda>p. qfs_dir_open e (Some p)), qo_dir_read = qfs_dir_read e, qo_dir_close = qfs_dir_close,
     qo_chdir = (\<lambda>p. qfs_chdir e (Some p)), qo_getcwd = (\<lambda>z. (qfs_getcwd z, z)), qo_read_all = (\<lambda>p. qfs_read_all e (Some p)),
     qo_free = qfs_free, qo_make_abs = (\<lambda>n p z. (qfs_make_abs n (Some p) z, z)), qo_unlink = (\<lambda>p. qfs_unlink e (Some p)),
     qo_mkdir = (\<lambda>p. qfs_mkdir e (Some p)), qo_match = qfs_match, qo_open = (\<lambda>p. qfs_open e (Some p)),
     qo_write = qfs_write e, qo_close = qfs_close e\<rparr>"

definition posix_ops :: "posix_env \<Rightarrow> posix_fs qfs_ops" where
  "posix_ops e = \<lparr>qo_dir_open = (\<lambda>p. posix_dir_open e (Some p)), qo_dir_read = posix_dir_read e, qo_dir_close = posix_dir_close,
     qo_chdir = posix_chdir e, qo_getcwd = posix_getcwd e, qo_read_all = posix_read_all e, qo_free = posix_free,
     qo_make_abs = (\<lambda>n p. posix_make_abs e n (Some p)), qo_unlink = posix_unlink e, qo_mkdir = posix_mkdir e,
     qo_match = (\<lambda>p t. Some (posix_match e p t)), qo_open = (\<lambda>p. posix_open e (Some p)), qo_write = posix_write e,
     qo_close = posix_close e\<rparr>"

text \<open>\<open>fx_mem\<close>: whether the script of \<open>source\<close> gets the memory for its lines; \<open>fx_entry\<close>: the entry on the stack before the
  first read.\<close>

record fs_cmd_env =
  fx_shell :: shell_env
  fx_mem :: "shell_state \<Rightarrow> bool \<times> u8 list option"
  fx_entry :: qfs_dirent_t

definition fs_say :: "fs_cmd_env \<Rightarrow> addr \<Rightarrow> u8 list \<Rightarrow> shell_state \<Rightarrow> shell_state" where
  "fs_say x pif t s = snd (svc_shell_print (fx_shell x) pif SVC_SHELL_OUT_STD t s)"

section \<open>ls, cd and pwd\<close>

partial_function (option) ls_loop :: "'q qfs_ops \<Rightarrow> fs_cmd_env \<Rightarrow> addr \<Rightarrow> addr \<Rightarrow> qfs_dirent_t \<Rightarrow> 'q \<Rightarrow> shell_state \<Rightarrow> ('q \<times> shell_state) option" where
  "ls_loop f x pif d en q s =
     (let (rc, en, q) = qo_dir_read f d en q
      in if rc > 0 then ls_loop f x pif d en q (fs_say x pif (de_name en @ [13, 10]) s) else Some (q, s))"

definition qshell_cmd_ls :: "'q qfs_ops \<Rightarrow> fs_cmd_env \<Rightarrow> addr \<Rightarrow> u8 list list \<Rightarrow> 'q \<Rightarrow> shell_state \<Rightarrow> (int \<times> 'q \<times> shell_state) option" where
  "qshell_cmd_ls f x pif argv q s =
     (let dir = (if length argv > 1 then argv ! 1 else [46]);
          (rc, d, q) = qo_dir_open f dir q
      in if rc < 0 \<or> d = NULL then Some (SVC_SHELL_CMD_E_FAIL, q, fs_say x pif (bytes ''Unable to read directory'' @ [13, 10]) s)
         else map_option (\<lambda>(q, s). (SVC_SHELL_CMD_E_OK, qo_dir_close f d q, s)) (ls_loop f x pif d (fx_entry x) q s))"

definition qshell_cmd_cd :: "'q qfs_ops \<Rightarrow> fs_cmd_env \<Rightarrow> addr \<Rightarrow> u8 list list \<Rightarrow> 'q \<Rightarrow> shell_state \<Rightarrow> int \<times> 'q \<times> shell_state" where
  "qshell_cmd_cd f x pif argv q s =
     (if length argv < 2 then (SVC_SHELL_CMD_E_PARMS, q, s)
      else
        (let (rc, q) = qo_chdir f (argv ! 1) q
         in if rc \<noteq> 0 then (SVC_SHELL_CMD_E_FAIL, q, fs_say x pif (bytes ''failed'' @ [13, 10]) s) else (SVC_SHELL_CMD_E_OK, q, s)))"

definition qshell_cmd_pwd :: "'q qfs_ops \<Rightarrow> fs_cmd_env \<Rightarrow> addr \<Rightarrow> u8 list list \<Rightarrow> 'q \<Rightarrow> shell_state \<Rightarrow> int \<times> 'q \<times> shell_state" where
  "qshell_cmd_pwd f x pif argv q s =
     (let (cwd, q) = qo_getcwd f q
      in if cwd = [] then (SVC_SHELL_CMD_E_FAIL, q, fs_say x pif (bytes ''unable to get current directory.'' @ [13, 10]) s)
         else (SVC_SHELL_CMD_E_OK, q, fs_say x pif (cwd @ [13, 10]) s))"

section \<open>source, cat and echo\<close>

text \<open>The result, the buffer and the text in it. 34 is the double quote.\<close>

definition read_file_qfs :: "'q qfs_ops \<Rightarrow> fs_cmd_env \<Rightarrow> addr \<Rightarrow> u8 list \<Rightarrow> 'q \<Rightarrow> shell_state \<Rightarrow> int \<times> addr \<times> u8 list \<times> 'q \<times> shell_state" where
  "read_file_qfs f x pif filename q s =
     (let (n, b, t, q) = qo_read_all f filename q
      in if n < 0 \<or> b = NULL then
           (if n < 0 then SVC_SHELL_CMD_E_FAIL else SVC_SHELL_CMD_E_NOT_FOUND, b, t, q,
            fs_say x pif (bytes ''unable to open/read file '' @ [34] @ filename @ [34] @ bytes ''.'' @ [13, 10]) s)
         else (n, b, t, q, s))"

definition qshell_cmd_source :: "'q qfs_ops \<Rightarrow> fs_cmd_env \<Rightarrow> addr \<Rightarrow> u8 list list \<Rightarrow> 'q \<Rightarrow> shell_state \<Rightarrow> int \<times> 'q \<times> shell_state" where
  "qshell_cmd_source f x pif argv q s =
     (if length argv < 2 then (SVC_SHELL_CMD_E_PARMS, q, s)
      else
        (let (res, b, t, q, s) = read_file_qfs f x pif (argv ! 1) q s
         in if res > 0 then
              (let (lm, sm) = fx_mem x s; (run_res, s) = svc_shell_script_run (fx_shell x) lm sm pif [] t s
               in (run_res, qo_free f b q, s))
            else (res, q, s)))"

definition qshell_cmd_cat :: "'q qfs_ops \<Rightarrow> fs_cmd_env \<Rightarrow> addr \<Rightarrow> u8 list list \<Rightarrow> 'q \<Rightarrow> shell_state \<Rightarrow> int \<times> 'q \<times> shell_state" where
  "qshell_cmd_cat f x pif argv q s =
     (if length argv < 2 then (SVC_SHELL_CMD_E_OK, q, s)
      else
        (let (res, b, t, q, s) = read_file_qfs f x pif (argv ! 1) q s
         in if res > 0 then
              (SVC_SHELL_CMD_E_OK, qo_free f b q, snd (svc_shell_write (fx_shell x) pif SVC_SHELL_OUT_STD t 0 s))
            else (res, q, s)))"

definition qshell_cmd_echo :: "fs_cmd_env \<Rightarrow> addr \<Rightarrow> u8 list list \<Rightarrow> shell_state \<Rightarrow> int \<times> shell_state" where
  "qshell_cmd_echo x pif argv s =
     (SVC_SHELL_CMD_E_OK, fs_say x pif (if length argv < 2 then [13, 10] else argv ! 1 @ [13, 10]) s)"

section \<open>rm\<close>

definition rm_single :: "'q qfs_ops \<Rightarrow> fs_cmd_env \<Rightarrow> addr \<Rightarrow> u8 list \<Rightarrow> 'q \<Rightarrow> shell_state \<Rightarrow> int \<times> 'q \<times> shell_state" where
  "rm_single f x pif arg q s =
     (case qo_make_abs f QFS_PATH_MAX arg q of
        (Inl _, q) \<Rightarrow> (SVC_SHELL_CMD_E_FAIL, q, fs_say x pif (bytes ''error: bad path'' @ [13, 10]) s)
      | (Inr abs', q) \<Rightarrow>
          (let (rc, q) = qo_unlink f abs' q
           in if rc < 0 then (SVC_SHELL_CMD_E_FAIL, q, fs_say x pif (bytes ''error '' @ dec_int rc @ bytes '' deleting '' @ abs' @ [13, 10]) s)
              else (SVC_SHELL_CMD_E_OK, q, fs_say x pif (bytes ''deleted: '' @ abs' @ [13, 10]) s)))"

text \<open>An entry that the pattern matches: the result so far, the file system and the shell.\<close>

definition rm_entry :: "'q qfs_ops \<Rightarrow> fs_cmd_env \<Rightarrow> addr \<Rightarrow> u8 list \<Rightarrow> qfs_dirent_t \<Rightarrow> int \<times> 'q \<times> shell_state \<Rightarrow> int \<times> 'q \<times> shell_state" where
  "rm_entry f x pif dir_path ent st =
     (let (overall, q, s) = st; full = dir_path @ [47] @ de_name ent
      in if length full \<ge> QFS_PATH_MAX then
           (SVC_SHELL_CMD_E_FAIL, q, fs_say x pif (bytes ''skip (path too long): '' @ de_name ent @ [13, 10]) s)
         else if de_is_dir ent = 1 then (overall, q, fs_say x pif (bytes ''skip dir: '' @ full @ [13, 10]) s)
         else
           (let (rc, q) = qo_unlink f full q
            in if rc < 0 then (SVC_SHELL_CMD_E_FAIL, q, fs_say x pif (bytes ''error '' @ dec_int rc @ bytes '' deleting '' @ full @ [13, 10]) s)
               else (overall, q, fs_say x pif (bytes ''deleted: '' @ full @ [13, 10]) s)))"

partial_function (option) rm_loop ::
    "'q qfs_ops \<Rightarrow> fs_cmd_env \<Rightarrow> addr \<Rightarrow> u8 list \<Rightarrow> u8 list \<Rightarrow> addr \<Rightarrow> qfs_dirent_t \<Rightarrow> int \<times> 'q \<times> shell_state \<Rightarrow> (int \<times> 'q \<times> shell_state) option" where
  "rm_loop f x pif dir_path pattern d ent st =
     (let (overall, q, s) = st; (rc, ent, q) = qo_dir_read f d ent q
      in if rc \<le> 0 then Some (overall, q, s)
         else if de_name ent = [] then rm_loop f x pif dir_path pattern d ent (overall, q, s)
         else
           (case qo_match f pattern (de_name ent) of
              None \<Rightarrow> None
            | Some m \<Rightarrow>
                if m = 0 then rm_loop f x pif dir_path pattern d ent (overall, q, s)
                else rm_loop f x pif dir_path pattern d ent (rm_entry f x pif dir_path ent (overall, q, s))))"

text \<open>The directory and the pattern: the text before and behind the last slash.\<close>

definition rm_split :: "'q qfs_ops \<Rightarrow> u8 list \<Rightarrow> 'q \<Rightarrow> u8 list \<times> u8 list \<times> 'q" where
  "rm_split f path q =
     (if 47 \<in> set path then
        (copy_text QFS_PATH_MAX (butlast (rev (dropWhile (\<lambda>c. c \<noteq> 47) (rev path)))), rev (takeWhile (\<lambda>c. c \<noteq> 47) (rev path)), q)
      else (let (cwd, q) = qo_getcwd f q in (copy_text QFS_PATH_MAX cwd, path, q)))"

definition rm_pattern :: "'q qfs_ops \<Rightarrow> fs_cmd_env \<Rightarrow> addr \<Rightarrow> u8 list \<Rightarrow> 'q \<Rightarrow> shell_state \<Rightarrow> (int \<times> 'q \<times> shell_state) option" where
  "rm_pattern f x pif arg q s =
     (case qo_make_abs f QFS_PATH_MAX arg q of
        (Inl _, q) \<Rightarrow> Some (SVC_SHELL_CMD_E_FAIL, q, fs_say x pif (bytes ''error: bad path'' @ [13, 10]) s)
      | (Inr path, q) \<Rightarrow>
          (let (dir_path, pattern, q) = rm_split f path q; (rc, d, q) = qo_dir_open f dir_path q
           in if rc \<noteq> 0 \<or> d = NULL then Some (SVC_SHELL_CMD_E_FAIL, q, fs_say x pif (bytes ''error opening directory'' @ [13, 10]) s)
              else map_option (\<lambda>(overall, q, s). (overall, qo_dir_close f d q, s))
                     (rm_loop f x pif dir_path pattern d (fx_entry x) (SVC_SHELL_CMD_E_OK, q, s))))"

definition qshell_cmd_rm :: "'q qfs_ops \<Rightarrow> fs_cmd_env \<Rightarrow> addr \<Rightarrow> u8 list list \<Rightarrow> 'q \<Rightarrow> shell_state \<Rightarrow> (int \<times> 'q \<times> shell_state) option" where
  "qshell_cmd_rm f x pif argv q s =
     (if length argv < 2 then Some (SVC_SHELL_CMD_E_PARMS, q, s)
      else if 42 \<notin> set (argv ! 1) \<and> 63 \<notin> set (argv ! 1) then Some (rm_single f x pif (argv ! 1) q s)
      else rm_pattern f x pif (argv ! 1) q s)"

section \<open>mkdir\<close>

text \<open>The loop over the positions in the path: the directories before a slash.\<close>

fun mkdir_slashes :: "'q qfs_ops \<Rightarrow> u8 list \<Rightarrow> nat list \<Rightarrow> 'q \<Rightarrow> 'q" where
  "mkdir_slashes f path [] q = q"
| "mkdir_slashes f path (i # is) q =
     mkdir_slashes f path is (if path ! i = 47 \<and> take i path \<noteq> [] then snd (qo_mkdir f (take i path) q) else q)"

definition mkdir_parents :: "'q qfs_ops \<Rightarrow> u8 list \<Rightarrow> 'q \<Rightarrow> int \<times> 'q" where
  "mkdir_parents f path_in q =
     (if path_in = [] then (-1, q)
      else
        (let path = copy_text QFS_PATH_MAX path_in; i = (if hd path = 47 then 1 else 0)
         in qo_mkdir f path (mkdir_slashes f path [i..<length path] q)))"

fun mkdir_args :: "'q qfs_ops \<Rightarrow> fs_cmd_env \<Rightarrow> addr \<Rightarrow> bool \<Rightarrow> u8 list list \<Rightarrow> int \<times> 'q \<times> shell_state \<Rightarrow> int \<times> 'q \<times> shell_state" where
  "mkdir_args f x pif parents [] st = st"
| "mkdir_args f x pif parents (arg # args) (overall, q, s) =
     mkdir_args f x pif parents args
       (case qo_make_abs f QFS_PATH_MAX arg q of
          (Inl _, q) \<Rightarrow> (SVC_SHELL_CMD_E_FAIL, q, fs_say x pif (bytes ''error: bad path: '' @ arg @ [13, 10]) s)
        | (Inr abs', q) \<Rightarrow>
            (let (rc, q) = (if parents then mkdir_parents f abs' q else qo_mkdir f abs' q)
             in if rc < 0 then (SVC_SHELL_CMD_E_FAIL, q, fs_say x pif (bytes ''mkdir failed ('' @ dec_int rc @ bytes ''): '' @ abs' @ [13, 10]) s)
                else (overall, q, fs_say x pif (bytes ''created: '' @ abs' @ [13, 10]) s)))"

definition qshell_cmd_mkdir :: "'q qfs_ops \<Rightarrow> fs_cmd_env \<Rightarrow> addr \<Rightarrow> u8 list list \<Rightarrow> 'q \<Rightarrow> shell_state \<Rightarrow> int \<times> 'q \<times> shell_state" where
  "qshell_cmd_mkdir f x pif argv q s =
     (if length argv < 2 then (SVC_SHELL_CMD_E_PARMS, q, s)
      else
        (let parents = (argv ! 1 = bytes ''-p'')
         in if parents \<and> length argv < 3 then (SVC_SHELL_CMD_E_PARMS, q, s)
            else mkdir_args f x pif parents (drop (if parents then 2 else 1) argv) (SVC_SHELL_CMD_E_OK, q, s)))"

section \<open>fwrite and fwriteln\<close>

text \<open>The two commands have the same code but for the line end, which \<open>fwriteln\<close> writes behind the words.\<close>

fun write_args :: "'q qfs_ops \<Rightarrow> addr \<Rightarrow> bool \<Rightarrow> u8 list list \<Rightarrow> 'q \<Rightarrow> 'q" where
  "write_args f h first [] q = q"
| "write_args f h first (a # as) q =
     write_args f h False as (snd (qo_write f h a (if first then q else snd (qo_write f h [32] q))))"

definition fwrite_file :: "'q qfs_ops \<Rightarrow> fs_cmd_env \<Rightarrow> addr \<Rightarrow> bool \<Rightarrow> u8 list list \<Rightarrow> 'q \<Rightarrow> shell_state \<Rightarrow> int \<times> 'q \<times> shell_state" where
  "fwrite_file f x pif newline argv q s =
     (if length argv < 3 then (SVC_SHELL_CMD_E_PARMS, q, s)
      else
        (case qo_make_abs f QFS_PATH_MAX (argv ! 1) q of
           (Inl _, q) \<Rightarrow> (SVC_SHELL_CMD_E_FAIL, q, fs_say x pif (bytes ''error: bad path'' @ [13, 10]) s)
         | (Inr abs', q) \<Rightarrow>
             (let (rc, h, q) = qo_open f abs' QFS_OPEN_APPEND q
              in if rc < 0 \<or> h = NULL then
                   (SVC_SHELL_CMD_E_FAIL, q, fs_say x pif (bytes ''unable to open for append: '' @ abs' @ [13, 10]) s)
                 else
                   (let q = write_args f h True (drop 2 argv) q; q = (if newline then snd (qo_write f h [10] q) else q)
                    in (SVC_SHELL_CMD_E_OK, snd (qo_close f h q), s)))))"

definition qshell_cmd_fwrite :: "'q qfs_ops \<Rightarrow> fs_cmd_env \<Rightarrow> addr \<Rightarrow> u8 list list \<Rightarrow> 'q \<Rightarrow> shell_state \<Rightarrow> int \<times> 'q \<times> shell_state" where
  "qshell_cmd_fwrite f x pif argv q s = fwrite_file f x pif False argv q s"

definition qshell_cmd_fwriteln :: "'q qfs_ops \<Rightarrow> fs_cmd_env \<Rightarrow> addr \<Rightarrow> u8 list list \<Rightarrow> 'q \<Rightarrow> shell_state \<Rightarrow> int \<times> 'q \<times> shell_state" where
  "qshell_cmd_fwriteln f x pif argv q s = fwrite_file f x pif True argv q s"

section \<open>Paths from the file system\<close>

text \<open>What the commands rely on: the path they get for a path that is not empty is not empty and fits with its zero.\<close>

locale path_maker =
  fixes mk :: "nat \<Rightarrow> u8 list \<Rightarrow> 'q \<Rightarrow> (int + u8 list) \<times> 'q"
  assumes mk_fits: "fst (mk QFS_PATH_MAX p q) = Inr a \<Longrightarrow> length a < QFS_PATH_MAX"
    and mk_nonempty: "p \<noteq> [] \<Longrightarrow> fst (mk QFS_PATH_MAX p q) = Inr a \<Longrightarrow> a \<noteq> []"

definition ancestors :: "u8 list \<Rightarrow> u8 list list" where
  "ancestors a = map (\<lambda>i. take i a) (filter (\<lambda>i. a ! i = 47) [1..<length a])"

lemma mkdir_slashes_fold:
  "mkdir_slashes f path is q = fold (\<lambda>p q. snd (qo_mkdir f p q)) (map (\<lambda>i. take i path) (filter (\<lambda>i. path ! i = 47 \<and> take i path \<noteq> []) is)) q"
  by (induction "is" arbitrary: q) auto

lemma ancestors_from:
  assumes "a \<noteq> []" "i = (if hd a = 47 then 1 else 0)"
  shows "map (\<lambda>i. take i a) (filter (\<lambda>i. a ! i = 47 \<and> take i a \<noteq> []) [i..<length a]) = ancestors a"
proof -
  have "[0..<length a] = 0 # [1..<length a]" using assms(1) by (simp add: upt_conv_Cons)
  moreover have "filter (\<lambda>i. a ! i = 47 \<and> take i a \<noteq> []) [1..<length a] = filter (\<lambda>i. a ! i = 47) [1..<length a]"
    using assms(1) by (intro filter_cong) auto
  ultimately have "filter (\<lambda>i. a ! i = 47 \<and> take i a \<noteq> []) [i..<length a] = filter (\<lambda>i. a ! i = 47) [1..<length a]"
    using assms(2) by simp
  then show ?thesis by (simp add: ancestors_def)
qed

context path_maker begin

text \<open>Nothing is cut, and the ancestors are made before the directory itself, the shortest first.\<close>

lemma parents_in_order:
  assumes "qo_make_abs f = mk" "p \<noteq> []" "fst (mk QFS_PATH_MAX p q) = Inr a"
  shows "mkdir_parents f a q' = qo_mkdir f a (fold (\<lambda>p q. snd (qo_mkdir f p q)) (ancestors a) q')"
proof -
  have a: "copy_text QFS_PATH_MAX a = a" "a \<noteq> []" using mk_fits [OF assms(3)] mk_nonempty [OF assms(2,3)] by simp_all
  show ?thesis unfolding mkdir_parents_def Let_def mkdir_slashes_fold a(1) ancestors_from [OF a(2) refl] using a(2) by simp
qed

end

interpretation zephyr_path: path_maker "qo_make_abs (zephyr_ops e)" for e
proof unfold_locales
  fix p q a
  assume "fst (qo_make_abs (zephyr_ops e) QFS_PATH_MAX p q) = Inr a"
  then have m: "make_path (zf_cwd q) QFS_PATH_MAX (Some p) = Inr a" by (simp add: zephyr_ops_def qfs_make_abs_def)
  have n: "p \<noteq> [] \<Longrightarrow> below_root a"
    using m by (cases p) (auto simp: make_path_def normalize_path_below split: if_splits)
  show "length a < QFS_PATH_MAX"
    using n m copy_text_less [of QFS_PATH_MAX "zf_cwd q"] by (cases "p = []") (auto simp: make_path_def below_root_def QFS_PATH_MAX_def)
  assume "p \<noteq> []"
  then show "a \<noteq> []" using n by (auto simp: below_root_def QFS_ROOT_eq)
qed

interpretation posix_path: path_maker "qo_make_abs (posix_ops e)" for e
proof unfold_locales
  fix p q a
  assume "fst (qo_make_abs (posix_ops e) QFS_PATH_MAX p q) = Inr a"
  then have m: "fst (posix_make_abs e QFS_PATH_MAX (Some p) q) = Inr a" by (simp add: posix_ops_def)
  then show "length a < QFS_PATH_MAX"
    using copy_text_less [of QFS_PATH_MAX p] by (auto simp: posix_make_abs_def case_prod_unfold Let_def QFS_PATH_MAX_def split: if_splits)
  assume "p \<noteq> []"
  then show "a \<noteq> []"
    using m by (cases p) (auto simp: posix_make_abs_def case_prod_unfold Let_def copy_text_def QFS_PATH_MAX_def split: if_splits)
qed

section \<open>What mkdir -p makes\<close>

lemma posix_mkdir_call: "snd (posix_mkdir e p z) = pcall (P_mkdir p) z"
  by (simp add: posix_mkdir_def Let_def)

lemma posix_mkdir_calls:
  "fold (\<lambda>p q. snd (qo_mkdir (posix_ops e) p q)) ps z = z\<lparr>pf_calls := pf_calls z @ map P_mkdir ps\<rparr>"
  by (induction ps arbitrary: z) (simp_all add: posix_ops_def posix_mkdir_call pcall_def)

lemma mkdir_p_calls:
  assumes "posix_make_abs e QFS_PATH_MAX (Some path) z = (Inr a, z1)"
  shows "fst (snd (qshell_cmd_mkdir (posix_ops e) x pif [c, bytes ''-p'', path] z s)) = z1\<lparr>pf_calls := pf_calls z1 @ map P_mkdir (ancestors a @ [a])\<rparr> \<and>
    (fst (qshell_cmd_mkdir (posix_ops e) x pif [c, bytes ''-p'', path] z s) = SVC_SHELL_CMD_E_OK \<longleftrightarrow>
      (let cs = pf_calls z1 @ map P_mkdir (ancestors a @ [a]) in 0 \<le> pe_rc e cs \<or> pe_errno e cs = EEXIST))"
proof -
  let ?f = "posix_ops e" and ?z2 = "z1\<lparr>pf_calls := pf_calls z1 @ map P_mkdir (ancestors a)\<rparr>"
  have "path \<noteq> []" using assms by (auto simp: posix_make_abs_def)
  then have par: "mkdir_parents ?f a z1 = posix_mkdir e a ?z2"
    using posix_path.parents_in_order [of ?f e path z a z1] assms posix_mkdir_calls [of e "ancestors a" z1] by (simp add: posix_ops_def)
  have abs: "qo_make_abs ?f QFS_PATH_MAX path z = (Inr a, z1)" using assms by (simp add: posix_ops_def)
  obtain rc z3 where rc: "posix_mkdir e a ?z2 = (rc, z3)" by fastforce
  have z3: "z3 = z1\<lparr>pf_calls := pf_calls z1 @ map P_mkdir (ancestors a @ [a])\<rparr>"
    using posix_mkdir_call [of e a ?z2] rc by (simp add: pcall_def)
  have "rc < 0 \<longleftrightarrow> \<not> (let cs = pf_calls z1 @ map P_mkdir (ancestors a @ [a]) in 0 \<le> pe_rc e cs \<or> pe_errno e cs = EEXIST)"
    using rc by (auto simp: posix_mkdir_def pcall_def Let_def split: if_splits)
  then show ?thesis
    using par abs rc z3 by (auto simp: qshell_cmd_mkdir_def shell_codes)
qed
text \<open>\<open>mkdir -p\<close> on POSIX makes every directory from the first to the last slash of the absolute path, the shortest first, and
  then the directory itself, without a look at the results but the last; it succeeds exactly if the last was made or existed.\<close>

theorem mkdir_p_makes_ancestors:
  assumes "posix_make_abs e QFS_PATH_MAX (Some path) z = (Inr a, z1)"
  shows "fst (snd (qshell_cmd_mkdir (posix_ops e) x pif [c, bytes ''-p'', path] z s)) = z1\<lparr>pf_calls := pf_calls z1 @ map P_mkdir (ancestors a @ [a])\<rparr> \<and>
    (fst (qshell_cmd_mkdir (posix_ops e) x pif [c, bytes ''-p'', path] z s) = SVC_SHELL_CMD_E_OK \<longleftrightarrow>
      (let cs = pf_calls z1 @ map P_mkdir (ancestors a @ [a]) in 0 \<le> pe_rc e cs \<or> pe_errno e cs = EEXIST))"
  using assms by (rule mkdir_p_calls)

theorem mkdir_p_makes_ancestors_witness:
  "\<forall>e x pif c s fp dp. pf_calls (fst (snd (qshell_cmd_mkdir (posix_ops e) x pif [c, bytes ''-p'', [47, 97, 47, 98]] \<lparr>pf_calls = [], pf_dp = dp, pf_fp = fp\<rparr> s))) =
    [P_mkdir [47, 97], P_mkdir [47, 97, 47, 98]]"
proof (intro allI)
  fix e x pif c s fp dp
  let ?z = "\<lparr>pf_calls = [], pf_dp = dp, pf_fp = fp\<rparr>"
  have "posix_make_abs e QFS_PATH_MAX (Some [47, 97, 47, 98]) ?z = (Inr [47, 97, 47, 98], ?z)"
    by (simp add: posix_make_abs_def QFS_PATH_MAX_def)
  moreover have "ancestors [47, 97, 47, 98] = [[47, 97]]" by (simp add: ancestors_def upt_conv_Cons)
  ultimately show "pf_calls (fst (snd (qshell_cmd_mkdir (posix_ops e) x pif [c, bytes ''-p'', [47, 97, 47, 98]] ?z s))) =
      [P_mkdir [47, 97], P_mkdir [47, 97, 47, 98]]"
    using mkdir_p_makes_ancestors [where e = e and path = "[47, 97, 47, 98]" and z = ?z and x = x and pif = pif and c = c and s = s] by simp
qed

section \<open>What fwrite appends\<close>

fun join_words :: "u8 list list \<Rightarrow> u8 list" where
  "join_words [] = []"
| "join_words [a] = a"
| "join_words (a # b # as) = a @ 32 # join_words (b # as)"

lemma zephyr_write: "h \<noteq> NULL \<Longrightarrow> zf_opened z h \<Longrightarrow> snd (qfs_write e h t z) = zcall (Fs_write h t) z"
  by (simp add: qfs_write_def Let_def)

lemma write_args_calls:
  assumes "h \<noteq> NULL" "zf_opened z h"
  shows "write_args (zephyr_ops e) h first as z =
    z\<lparr>zf_calls := zf_calls z @ map (Fs_write h) ((if first then tl else (\<lambda>x. x)) (concat (map (\<lambda>a. [[32], a]) as)))\<rparr>"
  using assms
proof (induction as arbitrary: first z)
  case (Cons a as)
  let ?z = "snd (qfs_write e h a (if first then z else snd (qfs_write e h [32] z)))"
  have z: "?z = z\<lparr>zf_calls := zf_calls z @ (if first then [] else [Fs_write h [32]]) @ [Fs_write h a]\<rparr>"
    using Cons.prems zephyr_write [of h "zcall (Fs_write h [32]) z" e a] zephyr_write [of h z e] by (simp add: zcall_def)
  then have "zf_opened ?z h" using Cons.prems by simp
  then show ?case using Cons.IH [of ?z False] Cons.prems z by (auto simp: zephyr_ops_def)
qed simp

lemma concat_join: "as \<noteq> [] \<Longrightarrow> concat (tl (concat (map (\<lambda>a. [[32], a]) as))) = join_words as"
  by (induction as rule: join_words.induct) auto

text \<open>The commands that write to a file open it once to append, write the arguments behind its name with one blank between
  them and, for \<open>fwriteln\<close>, a line end, and close it.\<close>

theorem fwrite_appends_words:
  assumes "qfs_make_abs QFS_PATH_MAX (Some (argv ! 1)) z = Inr a" "3 \<le> length argv" "qfs_open e (Some a) QFS_OPEN_APPEND z = (0, h, z1)" "h \<noteq> NULL"
  shows "\<exists>ws. concat ws = join_words (drop 2 argv) @ (if newline then [10] else []) \<and>
    zf_calls (fst (snd (fwrite_file (zephyr_ops e) x pif newline argv z s))) = zf_calls z1 @ map (Fs_write h) ws @ [Fs_close h, Free h] \<and>
    fst (fwrite_file (zephyr_ops e) x pif newline argv z s) = SVC_SHELL_CMD_E_OK"
proof -
  let ?ws = "tl (concat (map (\<lambda>a. [[32], a]) (drop 2 argv)))"
  have op: "zf_opened z1 h" using assms(3,4) by (auto simp: qfs_open_def Let_def split: option.splits sum.splits if_splits)
  define z2 where "z2 = write_args (zephyr_ops e) h True (drop 2 argv) z1"
  have z2: "z2 = z1\<lparr>zf_calls := zf_calls z1 @ map (Fs_write h) ?ws\<rparr>" using write_args_calls [OF assms(4) op, of e True] by (simp add: z2_def)
  have "concat ?ws = join_words (drop 2 argv)" using assms(2) by (intro concat_join) simp
  then have "concat (?ws @ (if newline then [[10]] else [])) = join_words (drop 2 argv) @ (if newline then [10] else [])" by simp
  moreover have "zf_calls (fst (snd (fwrite_file (zephyr_ops e) x pif newline argv z s))) =
      zf_calls z1 @ map (Fs_write h) (?ws @ (if newline then [[10]] else [])) @ [Fs_close h, Free h] \<and>
      fst (fwrite_file (zephyr_ops e) x pif newline argv z s) = SVC_SHELL_CMD_E_OK"
  proof -
    have op2: "zf_opened z2 h" using op z2 by simp
    have "qo_make_abs (zephyr_ops e) QFS_PATH_MAX (argv ! 1) z = (Inr a, z)" "qo_open (zephyr_ops e) a QFS_OPEN_APPEND z = (0, h, z1)"
      using assms(1,3) by (simp_all add: zephyr_ops_def)
    moreover have "zf_calls (snd (qo_close (zephyr_ops e) h (if newline then snd (qo_write (zephyr_ops e) h [10] z2) else z2))) =
        zf_calls z2 @ (if newline then [Fs_write h [10]] else []) @ [Fs_close h, Free h]"
      using op2 assms(4) by (simp add: zephyr_ops_def qfs_close_def zephyr_write Let_def)
    moreover have "zf_calls z2 = zf_calls z1 @ map (Fs_write h) ?ws" using z2 by simp
    ultimately show ?thesis using assms(2,4) by (cases newline) (simp_all add: fwrite_file_def z2_def [symmetric] Let_def)
  qed
  ultimately show ?thesis by blast
qed
theorem fwrite_appends_words_witness:
  "\<forall>x pif c s. \<exists>ws. concat ws = [97, 32, 98, 10] \<and>
    zf_calls (fst (snd (qshell_cmd_fwriteln (zephyr_ops demo_zephyr) x pif [c, [102], [97], [98]] demo_zephyr_fs s))) =
      [Malloc, Fs_open 4096 (QFS_ROOT @ [47, 102]) [FS_O_CREATE, FS_O_WRITE, FS_O_APPEND]] @ map (Fs_write 4096) ws @ [Fs_close 4096, Free 4096]"
proof (intro allI)
  fix x pif c s
  have mk: "make_path s_cwd_init QFS_PATH_MAX (Some [102]) = Inr (QFS_ROOT @ [47, 102])"
    using resolve_paths [of _ "[]" "[102]"] by (simp add: s_cwd_init_def QFS_ROOT_eq QFS_PATH_MAX_def comps_def climb_def)
  have mk2: "make_path s_cwd_init QFS_PATH_MAX (Some (QFS_ROOT @ [47, 102])) = Inr (QFS_ROOT @ [47, 102])"
    using resolve_paths [of _ "[]" "QFS_ROOT @ [47, 102]"] by (simp add: s_cwd_init_def QFS_ROOT_eq QFS_PATH_MAX_def comps_def climb_def)
  let ?z1 = "demo_zephyr_fs\<lparr>zf_calls := [Malloc, Fs_open 4096 (QFS_ROOT @ [47, 102]) [FS_O_CREATE, FS_O_WRITE, FS_O_APPEND]], zf_opened := (\<lambda>_. False)(4096 := True)\<rparr>"
  have op: "qfs_open demo_zephyr (Some (QFS_ROOT @ [47, 102])) QFS_OPEN_APPEND demo_zephyr_fs = (0, 4096, ?z1)"
    by (simp add: qfs_open_def demo_zephyr_fs_def zephyr_start_def mk2 demo_zephyr_def zcall_def Let_def QFS_OPEN_APPEND_def QFS_OPEN_READ_def)
  have "qfs_make_abs QFS_PATH_MAX (Some ([c, [102], [97], [98]] ! 1)) demo_zephyr_fs = Inr (QFS_ROOT @ [47, 102])"
    using mk by (simp add: qfs_make_abs_def demo_zephyr_fs_def zephyr_start_def)
  from fwrite_appends_words [where newline = True and x = x and pif = pif and s = s, OF this _ op]
  obtain ws where "concat ws = [97, 32, 98, 10]" "zf_calls (fst (snd (fwrite_file (zephyr_ops demo_zephyr) x pif True [c, [102], [97], [98]] demo_zephyr_fs s))) =
      zf_calls ?z1 @ map (Fs_write 4096) ws @ [Fs_close 4096, Free 4096]" by auto
  then show "\<exists>ws. concat ws = [97, 32, 98, 10] \<and>
    zf_calls (fst (snd (qshell_cmd_fwriteln (zephyr_ops demo_zephyr) x pif [c, [102], [97], [98]] demo_zephyr_fs s))) =
      [Malloc, Fs_open 4096 (QFS_ROOT @ [47, 102]) [FS_O_CREATE, FS_O_WRITE, FS_O_APPEND]] @ map (Fs_write 4096) ws @ [Fs_close 4096, Free 4096]"
    by (intro exI [of _ ws]) (simp add: qshell_cmd_fwriteln_def)
qed

section \<open>What rm deletes\<close>

fun is_unlink :: "fs_call \<Rightarrow> bool" where
  "is_unlink (Fs_unlink p) = True"
| "is_unlink c = False"

text \<open>\<open>directory\<close>: the reads of the handle give the entries one after the other, whatever is called in between; behind them
  comes an entry without a name.\<close>

definition directory :: "zephyr_env \<Rightarrow> addr \<Rightarrow> fs_dirent list \<Rightarrow> bool" where
  "directory e d es \<longleftrightarrow> (\<forall>x \<in> set es. plain_comp (fd_name x) \<and> length (fd_name x) < 256) \<and>
     (\<forall>cs. ze_rc e (cs @ [Fs_readdir d]) = 0 \<and>
       (let k = count_list cs (Fs_readdir d) in
          if k < length es then ze_entry e (cs @ [Fs_readdir d]) = es ! k else fd_name (ze_entry e (cs @ [Fs_readdir d])) = []))"

definition wanted :: "u8 list \<Rightarrow> u8 list \<Rightarrow> fs_dirent \<Rightarrow> bool" where
  "wanted dir pattern x \<longleftrightarrow> glob pattern (fd_name x) \<and> fd_type x \<noteq> FS_DIR_ENTRY_DIR \<and> length (dir @ 47 # fd_name x) < QFS_PATH_MAX"

lemma make_path_itself: "below_root p \<Longrightarrow> make_path cwd QFS_PATH_MAX (Some p) = Inr p"
  using normalize_path_idempotent [of p] by (auto simp: make_path_def below_root_def QFS_ROOT_eq)

lemma below_root_entry:
  assumes "below_root dir" "plain_comp c" "length (dir @ 47 # c) < QFS_PATH_MAX"
  shows "below_root (dir @ 47 # c)"
proof -
  obtain stk where "dir = QFS_ROOT @ path_of stk" "\<forall>c \<in> set stk. plain_comp c" using assms(1) by (auto simp: below_root_def)
  then show ?thesis using below_root_render [of "stk @ [c]"] assms(2,3) by simp
qed

lemma rm_entry_unlinks:
  assumes "below_root dir" "plain_comp (fd_name x)" "length (fd_name x) < 256" "glob pattern (fd_name x)"
    "ent = \<lparr>de_name = copy_text 256 (fd_name x), de_is_dir = (if fd_type x = FS_DIR_ENTRY_DIR then 1 else if fd_type x = FS_DIR_ENTRY_FILE then 0 else -1)\<rparr>"
  obtains ov' s' where "rm_entry (zephyr_ops e) y pif dir ent (ov, z, s) =
    (ov', if wanted dir pattern x then zcall (Fs_unlink (dir @ 47 # fd_name x)) z else z, s')"
proof -
  have n: "de_name ent = fd_name x" using assms(3,5) by simp
  have "length (dir @ 47 # fd_name x) < QFS_PATH_MAX \<Longrightarrow> make_path (zf_cwd z) QFS_PATH_MAX (Some (dir @ 47 # fd_name x)) = Inr (dir @ 47 # fd_name x)"
    using make_path_itself below_root_entry [OF assms(1,2)] by blast
  then have "\<exists>ov' s'. rm_entry (zephyr_ops e) y pif dir ent (ov, z, s) =
      (ov', if wanted dir pattern x then zcall (Fs_unlink (dir @ 47 # fd_name x)) z else z, s')"
    using assms(4,5) n by (auto simp: rm_entry_def wanted_def Let_def zephyr_ops_def qfs_unlink_def not_less)
  then show thesis using that by blast
qed

lemma rm_loop_unlinks:
  assumes "directory e d es" "d \<noteq> NULL" "below_root dir" "count_list (zf_calls z) (Fs_readdir d) \<le> length es"
  shows "\<exists>ov' z' s'. rm_loop (zephyr_ops e) y pif dir pattern d ent (ov, z, s) = Some (ov', z', s') \<and> zf_opened z' = zf_opened z \<and>
    filter is_unlink (zf_calls z') = filter is_unlink (zf_calls z) @
      map (\<lambda>x. Fs_unlink (dir @ 47 # fd_name x)) (filter (wanted dir pattern) (drop (count_list (zf_calls z) (Fs_readdir d)) es))"
  using assms(4)
proof (induction "length es - count_list (zf_calls z) (Fs_readdir d)" arbitrary: z ent ov s)
  case 0
  then have k: "\<not> count_list (zf_calls z) (Fs_readdir d) < length es" by simp
  let ?z = "zcall (Fs_readdir d) z"
  have "zrc e ?z = 0" "fd_name (zentry e ?z) = []" using assms(1) k by (simp_all add: directory_def Let_def)
  then have "rm_loop (zephyr_ops e) y pif dir pattern d ent (ov, z, s) = Some (ov, ?z, s)"
    using assms(2) by (subst rm_loop.simps) (simp add: zephyr_ops_def qfs_dir_read_def Let_def)
  then show ?case using k by simp
next
  case (Suc n)
  let ?k = "count_list (zf_calls z) (Fs_readdir d)" and ?z = "zcall (Fs_readdir d) z"
  define x where "x = es ! ?k"
  define en where "en = \<lparr>de_name = copy_text 256 (fd_name x), de_is_dir = (if fd_type x = FS_DIR_ENTRY_DIR then 1 else if fd_type x = FS_DIR_ENTRY_FILE then 0 else -1)\<rparr>"
  have k: "?k < length es" using Suc.hyps(2) by simp
  then have x: "plain_comp (fd_name x)" "length (fd_name x) < 256" using assms(1) by (simp_all add: directory_def x_def)
  have "zrc e ?z = 0" "zentry e ?z = x" using assms(1) k by (simp_all add: directory_def x_def Let_def)
  then have read: "qfs_dir_read e d ent z = (1, en, ?z)"
    using assms(2) x by (simp add: qfs_dir_read_def en_def plain_comp_def Let_def)
  have name: "de_name en = fd_name x" "de_name en \<noteq> []" using x by (auto simp: en_def plain_comp_def)
  obtain ov1 s1 z1 where st: "z1 = (if wanted dir pattern x then zcall (Fs_unlink (dir @ 47 # fd_name x)) ?z else ?z)"
      "rm_loop (zephyr_ops e) y pif dir pattern d ent (ov, z, s) = rm_loop (zephyr_ops e) y pif dir pattern d en (ov1, z1, s1)"
  proof (cases "glob pattern (fd_name x)")
    case True
    then obtain ov1 s1 where "rm_entry (zephyr_ops e) y pif dir en (ov, ?z, s) =
        (ov1, if wanted dir pattern x then zcall (Fs_unlink (dir @ 47 # fd_name x)) ?z else ?z, s1)"
      using rm_entry_unlinks [OF assms(3) x True en_def] by blast
    then show thesis using read name True
      by (intro that) (rule refl, subst rm_loop.simps, simp add: zephyr_ops_def qfs_match_def match_simple_decides)
  next
    case False
    then have "rm_loop (zephyr_ops e) y pif dir pattern d ent (ov, z, s) = rm_loop (zephyr_ops e) y pif dir pattern d en (ov, ?z, s)"
      using read name by (subst rm_loop.simps) (simp add: zephyr_ops_def qfs_match_def match_simple_decides)
    then show thesis using False by (intro that) (simp add: wanted_def)
  qed
  have c1: "count_list (zf_calls z1) (Fs_readdir d) = Suc ?k" using st(1) by simp
  have "drop ?k es = x # drop (Suc ?k) es" using k by (simp add: x_def Cons_nth_drop_Suc)
  moreover have "filter is_unlink (zf_calls z1) = filter is_unlink (zf_calls z) @ (if wanted dir pattern x then [Fs_unlink (dir @ 47 # fd_name x)] else [])"
    "zf_opened z1 = zf_opened z" using st(1) by simp_all
  moreover have le: "n = length es - Suc ?k" "Suc ?k \<le> length es" using Suc.hyps(2) k by simp_all
  obtain ov' z' s' where "rm_loop (zephyr_ops e) y pif dir pattern d en (ov1, z1, s1) = Some (ov', z', s')" "zf_opened z' = zf_opened z1"
      "filter is_unlink (zf_calls z') = filter is_unlink (zf_calls z1) @ map (\<lambda>x. Fs_unlink (dir @ 47 # fd_name x)) (filter (wanted dir pattern) (drop (Suc ?k) es))"
    using Suc.hyps(1) [of z1 en ov1 s1, unfolded c1, OF le(1,2)] by blast
  ultimately show ?case unfolding st(2) by (intro exI [of _ ov'] exI [of _ z'] exI [of _ s']) simp
qed
lemma rm_split_slash:
  assumes "47 \<notin> set pattern" "length dir < QFS_PATH_MAX"
  shows "rm_split f (dir @ 47 # pattern) q = (dir, pattern, q)"
proof -
  have "takeWhile (\<lambda>c. c \<noteq> 47) (rev (dir @ 47 # pattern)) = rev pattern" using assms(1) by (simp add: takeWhile_append)
  moreover have "dropWhile (\<lambda>c. c \<noteq> 47) (rev (dir @ 47 # pattern)) = 47 # rev dir" using assms(1) by (simp add: dropWhile_append)
  ultimately show ?thesis using assms(2) by (simp add: rm_split_def)
qed


text \<open>A directory with the files a and b and the directory c.\<close>

definition demo_entries :: "fs_dirent list" where
  "demo_entries = [\<lparr>fd_type = FS_DIR_ENTRY_FILE, fd_name = [97], fd_size = 0\<rparr>, \<lparr>fd_type = FS_DIR_ENTRY_DIR, fd_name = [99], fd_size = 0\<rparr>,
     \<lparr>fd_type = FS_DIR_ENTRY_FILE, fd_name = [98], fd_size = 0\<rparr>]"

definition demo_dir :: zephyr_env where
  "demo_dir = \<lparr>ze_rc = (\<lambda>_. 0), ze_entry = (\<lambda>cs. let k = count_list (butlast cs) (Fs_readdir 64) in
     if k < 3 then demo_entries ! k else \<lparr>fd_type = FS_DIR_ENTRY_FILE, fd_name = [], fd_size = 0\<rparr>),
     ze_data = (\<lambda>_. []), ze_mem = (\<lambda>_. 64), ze_errno = (\<lambda>_. 5)\<rparr>"


section \<open>Errors\<close>

text \<open>\<open>ls\<close> does not end when the directory of Zephyr cannot be read: the error comes as a positive number, an entry.\<close>

theorem ls_never_ends:
  assumes "d \<noteq> NULL" "\<forall>cs. ze_rc e (cs @ [Fs_readdir d]) < 0"
  shows "ls_loop (zephyr_ops e) x pif d en z s = None"
proof (rule ccontr)
  assume "ls_loop (zephyr_ops e) x pif d en z s \<noteq> None"
  then obtain y where "ls_loop (zephyr_ops e) x pif d en z s = Some y" by blast
  moreover have "f = zephyr_ops e \<longrightarrow> d' = d \<longrightarrow> False" if "ls_loop f x' pif' d' en' z' s' = Some y'" for f x' pif' d' en' z' s' y'
  proof (rule ls_loop.raw_induct [where xa = "((((((f, x'), pif'), d'), en'), z'), s')" and P = "\<lambda>f x pif d' en q s y. f = zephyr_ops e \<longrightarrow> d' = d \<longrightarrow> False",
      unfolded prod.case, OF _ that], goal_cases)
    case (1 loop f x pif d' en q s y)
    show ?case
    proof (intro impI)
      assume f: "f = zephyr_ops e" "d' = d"
      have "qo_dir_read f d' en q = (- ze_rc e (zf_calls q @ [Fs_readdir d]), en, zcall (Fs_readdir d) q)"
        using assms f by (simp add: zephyr_ops_def qfs_dir_read_def Let_def less_imp_neq)
      moreover have "- ze_rc e (zf_calls q @ [Fs_readdir d]) > 0" using assms(2) by simp
      ultimately have "loop (zephyr_ops e) x pif d en (zcall (Fs_readdir d) q) (fs_say x pif (de_name en @ [13, 10]) s) = Some y"
        using 1(2) f by simp
      from 1(1) [OF this] show False by simp
    qed
  qed
  ultimately show False by blast
qed

text \<open>The buffer of an empty file is never released.\<close>

theorem cat_leaks_empty_file:
  assumes "qo_read_all f (argv ! 1) q = (0, b, t, q')" "2 \<le> length argv" "b \<noteq> NULL"
  shows "qshell_cmd_cat f x pif argv q s = (0, q', s) \<and> qshell_cmd_source f x pif argv q s = (0, q', s)"
  using assms by (simp add: qshell_cmd_cat_def qshell_cmd_source_def read_file_qfs_def)

end
