(* ===== verification/ZephyrOs.thy ===== *)
theory ZephyrOs
  imports OsSync
begin

text \<open>
  The port for Zephyr, src/os_zephyr.c. The kernel of Zephyr is given with its documented behaviour: counting semaphores
  with a limit, recursive mutexes, events, timers and the priorities of threads. The sizes and alignments of the build
  are an argument. An optional object stands for a handle, \<open>None\<close> for a null one.
\<close>

section \<open>The platform\<close>

text \<open>\<open>zp_sizeof\<close>, \<open>zp_align\<close>: size and alignment of \<open>os_zephyr_thread_t\<close>; \<open>zp_stack_align\<close>: \<open>Z_KERNEL_STACK_OBJ_ALIGN\<close>;
  \<open>zp_stack_len\<close>: \<open>K_THREAD_STACK_LEN\<close>; \<open>zp_hi\<close>, \<open>zp_lo\<close>: the priorities for applications, the highest is the smallest
  number; \<open>zp_sem_max\<close>: \<open>K_SEM_MAX_LIMIT\<close>.\<close>

record zephyr_platform =
  zp_sizeof :: nat
  zp_align :: nat
  zp_stack_align :: nat
  zp_stack_len :: "nat \<Rightarrow> nat"
  zp_hi :: int
  zp_lo :: int
  zp_sem_max :: nat

definition ROUND_UP :: "nat \<Rightarrow> nat \<Rightarrow> nat" where "ROUND_UP x a = (x + (a - 1)) div a * a"
definition ROUND_DOWN :: "nat \<Rightarrow> nat \<Rightarrow> nat" where "ROUND_DOWN x a = x div a * a"

datatype k_timeout = K_FOREVER | K_NO_WAIT | K_TICKS u32 | K_MSEC u32
datatype k_result = K_OK | K_EAGAIN | K_EBUSY | K_EINVAL | K_EPERM

definition os_zephyr_timeout_from_ticks :: "u32 \<Rightarrow> k_timeout" where
  "os_zephyr_timeout_from_ticks ticks =
     (if ticks = OS_TIME_INFINITE then K_FOREVER else if ticks = OS_TIME_IMMEDIATE then K_NO_WAIT else K_TICKS ticks)"

definition os_zephyr_timeout_from_ms :: "u32 \<Rightarrow> k_timeout" where
  "os_zephyr_timeout_from_ms ms = (if ms = OS_TIME_INFINITE then K_FOREVER else K_MSEC ms)"

section \<open>Priorities\<close>

definition prio_level :: "int \<Rightarrow> int" where
  "prio_level lvl = (let lvl = (if lvl < 1 then 1 else lvl) in if lvl > 14 then 14 else lvl)"

definition z_map_os_to_kprio :: "int \<Rightarrow> int \<Rightarrow> int \<Rightarrow> int" where
  "z_map_os_to_kprio k_hi k_lo os_prio =
     (let lvl = prio_level (c_div os_prio 8);
          span = (if k_lo - k_hi > 0 then k_lo - k_hi else 0);
          offset = (if span \<noteq> 0 then c_div (span * (14 - lvl)) 13 else 0)
      in k_hi + offset)"

definition z_map_kprio_to_os :: "int \<Rightarrow> int \<Rightarrow> int \<Rightarrow> u32" where
  "z_map_kprio_to_os k_hi k_lo kprio =
     (let span = (if k_lo - k_hi > 0 then k_lo - k_hi else 0)
      in if kprio \<le> k_hi then 14 * 8
         else if kprio \<ge> k_lo then 1 * 8
         else
           (let num = (kprio - k_hi) * 13 + c_div span 2;
                lvl = prio_level (14 - (if span \<noteq> 0 then c_div num span else 0))
            in word_of_int (lvl * 8)))"

text \<open>The result of \<open>os_thread_set_prio\<close> and the priority the kernel has then; \<open>old\<close>: the one before.\<close>

definition z_thread_set_prio :: "zephyr_platform \<Rightarrow> int \<Rightarrow> u32 \<Rightarrow> u32 \<times> int" where
  "z_thread_set_prio zp old prio = (z_map_kprio_to_os (zp_hi zp) (zp_lo zp) old, z_map_os_to_kprio (zp_hi zp) (zp_lo zp) (sint prio))"

definition z_thread_get_prio :: "zephyr_platform \<Rightarrow> int \<Rightarrow> u32" where
  "z_thread_get_prio zp kprio = z_map_kprio_to_os (zp_hi zp) (zp_lo zp) kprio"

section \<open>Semaphores of the kernel\<close>

record k_sem =
  ks_count :: nat
  ks_limit :: nat

definition k_sem_init :: "nat \<Rightarrow> nat \<Rightarrow> k_result \<times> k_sem option" where
  "k_sem_init n limit = (if limit = 0 \<or> n > limit then (K_EINVAL, None) else (K_OK, Some \<lparr>ks_count = n, ks_limit = limit\<rparr>))"

definition k_sem_give :: "k_sem \<Rightarrow> k_sem" where
  "k_sem_give s = (if ks_count s < ks_limit s then s\<lparr>ks_count := ks_count s + 1\<rparr> else s)"

text \<open>\<open>None\<close>: the thread waits on, until another gives the semaphore. A wait that a give ends within its time is the call behind
  that give.\<close>

definition k_sem_take :: "k_timeout \<Rightarrow> k_sem \<Rightarrow> (k_result \<times> k_sem) option" where
  "k_sem_take timeout s =
     (if ks_count s > 0 then Some (K_OK, s\<lparr>ks_count := ks_count s - 1\<rparr>)
      else if timeout = K_NO_WAIT then Some (K_EBUSY, s)
      else if timeout = K_FOREVER then None
      else Some (K_EAGAIN, s))"

section \<open>The working area of a thread\<close>

text \<open>The address of the semaphore in \<open>pthread_sem\<close> is that of \<open>thread_sem\<close>; the kernel object of the thread is left out.\<close>

record os_zephyr_thread =
  zt_join_sem :: k_sem
  zt_thread_sem :: k_sem
  zt_notify_sem :: k_sem
  zt_entry :: addr
  zt_arg :: addr
  zt_heap :: bool
  zt_errno_val :: int
  zt_tls_values :: "nat \<Rightarrow> u32"
  zt_tls_bitmap :: u32
  zt_notify_value :: int
  zt_stack_mem :: addr
  zt_stack_size :: nat
  zt_terminated :: bool
  zt_name :: addr
  zt_workspace_base :: addr
  zt_workspace_size :: nat

definition thread_zero :: os_zephyr_thread where
  "thread_zero = \<lparr>zt_join_sem = \<lparr>ks_count = 0, ks_limit = 0\<rparr>, zt_thread_sem = \<lparr>ks_count = 0, ks_limit = 0\<rparr>, zt_notify_sem = \<lparr>ks_count = 0, ks_limit = 0\<rparr>,
     zt_entry = NULL, zt_arg = NULL, zt_heap = False, zt_errno_val = 0, zt_tls_values = (\<lambda>i. 0), zt_tls_bitmap = 0, zt_notify_value = 0,
     zt_stack_mem = NULL, zt_stack_size = 0, zt_terminated = False, zt_name = NULL, zt_workspace_base = NULL, zt_workspace_size = 0\<rparr>"

text \<open>The address of the thread object and the object; \<open>ws\<close>, \<open>n\<close>: the workspace and its size. The size of the stack that
  the header of an allocated workspace gets is not read by anyone. The memory behind the header is set to zero.\<close>

definition os_zephyr_thread_layout :: "zephyr_platform \<Rightarrow> addr \<Rightarrow> nat \<Rightarrow> nat \<Rightarrow> (addr \<times> os_zephyr_thread) option" where
  "os_zephyr_thread_layout zp ws n stack_size =
     (if n < 4 then None
      else
        (let base = ws + 4; ws_end = base + (n - 4);
             thread_addr = ROUND_UP base (zp_align zp); after_thread = thread_addr + zp_sizeof zp;
             t = thread_zero\<lparr>zt_workspace_base := ws, zt_workspace_size := n\<rparr>
         in if stack_size > 0 then
              (let stack_len = zp_stack_len zp stack_size; stack_addr = ROUND_UP after_thread (zp_stack_align zp)
               in if stack_addr + stack_len > ws_end then None
                  else Some (thread_addr, t\<lparr>zt_stack_mem := stack_addr, zt_stack_size := stack_len\<rparr>))
            else
              (let tmp_end = ROUND_DOWN ws_end (zp_stack_align zp)
               in if after_thread > tmp_end then None
                  else
                    (let stack_len = ROUND_DOWN (tmp_end - after_thread) (zp_stack_align zp)
                     in if stack_len = 0 then None
                        else Some (thread_addr, t\<lparr>zt_stack_mem := tmp_end - stack_len, zt_stack_size := stack_len\<rparr>)))))"

definition OS_THREAD_WA_SIZE_Z :: "zephyr_platform \<Rightarrow> nat \<Rightarrow> nat" where
  "OS_THREAD_WA_SIZE_Z zp stack_size = zp_sizeof zp + zp_stack_len zp stack_size + zp_stack_align zp"

text \<open>The thread and the blocks that stay allocated; \<open>buffer\<close>: what \<open>qoraal_malloc\<close> returns.\<close>

definition os_zephyr_thread_alloc :: "zephyr_platform \<Rightarrow> addr \<Rightarrow> nat \<Rightarrow> (addr \<times> os_zephyr_thread) option \<times> addr set" where
  "os_zephyr_thread_alloc zp buffer stack_size =
     (let workspace_size = OS_THREAD_WA_SIZE_Z zp stack_size
      in if buffer = NULL then (None, {})
         else case os_zephyr_thread_layout zp buffer workspace_size stack_size of
                None \<Rightarrow> (None, {buffer} - {buffer})
              | Some (a, t) \<Rightarrow> (Some (a, t\<lparr>zt_heap := True\<rparr>), {buffer}))"

definition os_zephyr_thread_common_init :: "zephyr_platform \<Rightarrow> os_zephyr_thread \<Rightarrow> os_zephyr_thread" where
  "os_zephyr_thread_common_init zp t =
     t\<lparr>zt_join_sem := \<lparr>ks_count = 0, ks_limit = 1\<rparr>, zt_thread_sem := \<lparr>ks_count = 0, ks_limit = zp_sem_max zp\<rparr>,
       zt_notify_sem := \<lparr>ks_count = 0, ks_limit = zp_sem_max zp\<rparr>, zt_errno_val := 0, zt_tls_bitmap := 0, zt_notify_value := 0, zt_terminated := False\<rparr>"

text \<open>The status, the handle, the blocks that stay allocated, and the thread with its priority if one runs; \<open>tid_ok\<close>: whether
  \<open>k_thread_create\<close> returns a thread.\<close>

definition z_thread_create ::
    "zephyr_platform \<Rightarrow> addr \<Rightarrow> bool \<Rightarrow> u16 \<Rightarrow> u32 \<Rightarrow> addr \<Rightarrow> addr \<Rightarrow> addr \<Rightarrow> int \<times> addr \<times> addr set \<times> (os_zephyr_thread \<times> int) option" where
  "z_thread_create zp buffer tid_ok stack_size prio pf arg nm =
     (if stack_size = 0 then (E_PARM, NULL, {}, None)
      else case os_zephyr_thread_alloc zp buffer (unat stack_size) of
             (None, blocks) \<Rightarrow> (E_NOMEM, NULL, blocks, None)
           | (Some (a, t), blocks) \<Rightarrow>
               (let t = (os_zephyr_thread_common_init zp t)\<lparr>zt_entry := pf, zt_arg := arg, zt_name := nm\<rparr>
                in if \<not> tid_ok then (EFAIL, NULL, blocks - {zt_workspace_base t}, None)
                   else (EOK, a, blocks, Some (t, z_map_os_to_kprio (zp_hi zp) (zp_lo zp) (sint prio)))))"

definition z_thread_create_static ::
    "zephyr_platform \<Rightarrow> addr \<Rightarrow> bool \<Rightarrow> u16 \<Rightarrow> u32 \<Rightarrow> addr \<Rightarrow> addr \<Rightarrow> addr \<Rightarrow> int \<times> addr \<times> (os_zephyr_thread \<times> int) option" where
  "z_thread_create_static zp wsp tid_ok n prio pf arg nm =
     (case os_zephyr_thread_layout zp wsp (unat n) 0 of
        None \<Rightarrow> (E_PARM, NULL, None)
      | Some (a, t) \<Rightarrow>
          (let t = (os_zephyr_thread_common_init zp (t\<lparr>zt_heap := False, zt_workspace_base := wsp, zt_workspace_size := unat n\<rparr>))
                     \<lparr>zt_entry := pf, zt_arg := arg, zt_name := nm\<rparr>
           in if \<not> tid_ok then (EFAIL, NULL, None)
              else (EOK, a, Some (t, z_map_os_to_kprio (zp_hi zp) (zp_lo zp) (sint prio)))))"
section \<open>Priorities of Zephyr\<close>

lemma c_div_nonneg: "0 \<le> a \<Longrightarrow> 0 < b \<Longrightarrow> c_div a b = a div b"
  by (simp add: c_div_def)

lemma prio_level_range: "1 \<le> prio_level l" "prio_level l \<le> 14" "1 \<le> l \<Longrightarrow> l \<le> 14 \<Longrightarrow> prio_level l = l"
  by (auto simp: prio_level_def Let_def)

lemma map_os_to_kprio:
  assumes "k_hi < k_lo"
  shows "z_map_os_to_kprio k_hi k_lo p = k_hi + (k_lo - k_hi) * (14 - prio_level (c_div p 8)) div 13"
  using assms prio_level_range [of "c_div p 8"] by (simp add: z_map_os_to_kprio_def Let_def c_div_nonneg)

lemma kprio_in_range:
  assumes "k_hi < k_lo"
  shows "k_hi \<le> z_map_os_to_kprio k_hi k_lo p" "z_map_os_to_kprio k_hi k_lo p \<le> k_lo"
proof -
  let ?d = "14 - prio_level (c_div p 8)"
  have d: "0 \<le> ?d" "?d \<le> 13" using prio_level_range [of "c_div p 8"] by auto
  have "(k_lo - k_hi) * ?d \<le> (k_lo - k_hi) * 13" using assms d by (intro mult_left_mono) auto
  then have "(k_lo - k_hi) * ?d div 13 \<le> (k_lo - k_hi) * 13 div 13" by (rule zdiv_mono1) simp
  then show "z_map_os_to_kprio k_hi k_lo p \<le> k_lo" using map_os_to_kprio [OF assms] by simp
  have "0 \<le> (k_lo - k_hi) * ?d" using assms d by (intro mult_nonneg_nonneg) auto
  then show "k_hi \<le> z_map_os_to_kprio k_hi k_lo p" using map_os_to_kprio [OF assms, of p] by (simp add: pos_imp_zdiv_nonneg_iff)
qed

lemma c_div_mono: "p \<le> q \<Longrightarrow> 0 < b \<Longrightarrow> c_div p b \<le> c_div q b"
  by (auto simp: c_div_def zdiv_mono1 pos_imp_zdiv_nonneg_iff intro: order_trans [of _ 0])

lemma kprio_mono:
  assumes "k_hi < k_lo" "p \<le> q"
  shows "z_map_os_to_kprio k_hi k_lo q \<le> z_map_os_to_kprio k_hi k_lo p"
proof -
  have "prio_level (c_div p 8) \<le> prio_level (c_div q 8)" using c_div_mono [OF assms(2), of 8] by (auto simp: prio_level_def Let_def)
  then have "(k_lo - k_hi) * (14 - prio_level (c_div q 8)) \<le> (k_lo - k_hi) * (14 - prio_level (c_div p 8))"
    using assms(1) by (intro mult_left_mono) auto
  then show ?thesis using map_os_to_kprio [OF assms(1)] zdiv_mono1 [of _ _ 13] by auto
qed

text \<open>The level of a priority comes back from the kernel where its range has at least 25 priorities.\<close>

lemma level_of_kprio:
  fixes sp d :: int
  assumes "24 \<le> sp" "0 \<le> d" "d \<le> 13"
  shows "(sp * d div 13 * 13 + sp div 2) div sp = d"
proof -
  define r where "r = sp * d mod 13"
  have r: "0 \<le> r" "r < 13" by (simp_all add: r_def)
  have "sp * d div 13 * 13 = sp * d - r" by (simp add: r_def minus_mod_eq_div_mult)
  then have e: "sp * d div 13 * 13 + sp div 2 = (sp div 2 - r) + sp * d" by simp
  have "((sp div 2 - r) + sp * d) div sp = d + (sp div 2 - r) div sp" using assms(1) by (intro div_mult_self2) simp
  moreover have "(sp div 2 - r) div sp = 0" using r assms(1) by (intro div_pos_pos_trivial) linarith+
  ultimately show ?thesis unfolding e by (simp only: add_0_right)
qed

lemma os_prio_of_kprio:
  assumes "24 \<le> k_lo - k_hi"
  shows "z_map_kprio_to_os k_hi k_lo (z_map_os_to_kprio k_hi k_lo p) = word_of_int (prio_level (c_div p 8) * 8)"
proof -
  let ?l = "prio_level (c_div p 8)" and ?sp = "k_lo - k_hi"
  let ?k = "z_map_os_to_kprio k_hi k_lo p"
  have lt: "k_hi < k_lo" using assms by simp
  note k = map_os_to_kprio [OF lt, of p]
  have l: "1 \<le> ?l" "?l \<le> 14" using prio_level_range by auto
  have lev: "(?sp * (14 - ?l) div 13 * 13 + ?sp div 2) div ?sp = 14 - ?l" using level_of_kprio [OF assms] l by auto
  consider "?k \<le> k_hi" | "k_lo \<le> ?k" "\<not> ?k \<le> k_hi" | "k_hi < ?k" "?k < k_lo" by linarith
  then show ?thesis
  proof cases
    case 1
    then have z: "?sp * (14 - ?l) div 13 = 0" using k kprio_in_range(1) [OF lt, of p] by linarith
    have "?sp div 2 div ?sp = 0" using lt by simp
    then have "14 - ?l = 0" using lev unfolding z by simp
    then show ?thesis using 1 by (simp add: z_map_kprio_to_os_def Let_def)
  next
    case 2
    then have "?sp * (14 - ?l) div 13 = ?sp" using k kprio_in_range(2) [OF lt, of p] by linarith
    then have "(?sp * 13 + ?sp div 2) div ?sp = 14 - ?l" using lev by simp
    moreover have "(?sp div 2 + ?sp * 13) div ?sp = 13 + ?sp div 2 div ?sp" using lt by (intro div_mult_self2) simp
    moreover have "?sp div 2 div ?sp = 0" using lt by (intro div_pos_pos_trivial) linarith+
    ultimately have "?l = 1" by (simp only: add.commute)
    then show ?thesis using 2 by (simp add: z_map_kprio_to_os_def Let_def)
  next
    case 3
    have e: "(?k - k_hi) * 13 = ?sp * (14 - ?l) div 13 * 13" using k by simp
    have "0 \<le> ?sp * (14 - ?l)" using lt l by (intro mult_nonneg_nonneg) auto
    then have n: "0 \<le> ?sp * (14 - ?l) div 13 * 13 + ?sp div 2" using lt by (simp add: pos_imp_zdiv_nonneg_iff)
    have "c_div ((?k - k_hi) * 13 + c_div ?sp 2) ?sp = 14 - ?l"
      unfolding e using lev n lt by (simp add: c_div_nonneg)
    then show ?thesis using 3 lt prio_level_range(3) [OF l] by (simp add: z_map_kprio_to_os_def Let_def)
  qed
qed
text \<open>The priority a thread gets is one of an application; a higher one of the library is never a lower one of the kernel; and the
  priority \<open>os_thread_set_prio\<close> returns restores, where the range has at least 25 priorities, the one the thread had, if the
  port has set that.\<close>

theorem zephyr_prio_restored:
  assumes "zp_hi zp < zp_lo zp" "k = z_map_os_to_kprio (zp_hi zp) (zp_lo zp) p" "24 \<le> zp_lo zp - zp_hi zp"
  shows "snd (z_thread_set_prio zp k' (fst (z_thread_set_prio zp k prio))) = k \<and>
    zp_hi zp \<le> snd (z_thread_set_prio zp k prio) \<and> snd (z_thread_set_prio zp k prio) \<le> zp_lo zp \<and>
    (sint prio \<le> sint prio' \<longrightarrow> snd (z_thread_set_prio zp k prio') \<le> snd (z_thread_set_prio zp k prio))"
proof -
  let ?l = "prio_level (c_div p 8)"
  have "1 \<le> ?l" "?l \<le> 14" using prio_level_range by auto
  then have "sint (word_of_int (?l * 8) :: u32) = ?l * 8" unfolding int_word_sint by simp
  then have b: "sint (z_map_kprio_to_os (zp_hi zp) (zp_lo zp) k) = ?l * 8" unfolding assms(2) os_prio_of_kprio [OF assms(3)] .
  have "c_div (?l * 8) 8 = ?l" using \<open>1 \<le> ?l\<close> by (simp add: c_div_nonneg)
  moreover have "prio_level ?l = ?l" using prio_level_range by simp
  ultimately have "z_map_os_to_kprio (zp_hi zp) (zp_lo zp) (sint (z_map_kprio_to_os (zp_hi zp) (zp_lo zp) k)) = k"
    using map_os_to_kprio [OF assms(1), of p] map_os_to_kprio [OF assms(1), of "?l * 8"] assms(2) unfolding b by simp
  then show ?thesis using kprio_in_range [OF assms(1)] kprio_mono [OF assms(1)] by (simp add: z_thread_set_prio_def)
qed

definition demo_zephyr_build :: zephyr_platform where
  "demo_zephyr_build = \<lparr>zp_sizeof = 200, zp_align = 8, zp_stack_align = 16, zp_stack_len = (\<lambda>n. ROUND_UP n 16), zp_hi = - 16, zp_lo = 14, zp_sem_max = 1000\<rparr>"

theorem zephyr_prio_restored_witness:
  "snd (z_thread_set_prio demo_zephyr_build 0 (fst (z_thread_set_prio demo_zephyr_build (z_map_os_to_kprio (- 16) 14 48) 112))) = z_map_os_to_kprio (- 16) 14 48"
  using zephyr_prio_restored [of demo_zephyr_build "z_map_os_to_kprio (- 16) 14 48" 48 0 112] by (simp add: demo_zephyr_build_def)

text \<open>In the range of 0 to 14 it does not: a thread with the priority 8 has 7 behind a lock that raises it and gives the old one back.\<close>

theorem zephyr_prio_drifts:
  "zp_hi zp = 0 \<Longrightarrow> zp_lo zp = 14 \<Longrightarrow>
    z_map_os_to_kprio 0 14 48 = 8 \<and> snd (z_thread_set_prio zp 0 (fst (z_thread_set_prio zp 8 112))) = 7"
  by (simp add: z_thread_set_prio_def z_map_os_to_kprio_def z_map_kprio_to_os_def prio_level_def c_div_def Let_def)
section \<open>Where a thread lies\<close>

text \<open>The object and the stack of a thread: aligned, apart from each other and within the workspace, behind its header.\<close>

definition thread_within :: "zephyr_platform \<Rightarrow> addr \<Rightarrow> nat \<Rightarrow> addr \<Rightarrow> os_zephyr_thread \<Rightarrow> bool" where
  "thread_within zp ws n a t \<longleftrightarrow>
     zp_align zp dvd a \<and> ws + 4 \<le> a \<and> a + zp_sizeof zp \<le> zt_stack_mem t \<and>
     zp_stack_align zp dvd zt_stack_mem t \<and> zt_stack_mem t + zt_stack_size t \<le> ws + n"

text \<open>What holds of every platform: the alignments and the size of the object fit each other.\<close>

definition platform_ok :: "zephyr_platform \<Rightarrow> bool" where
  "platform_ok zp \<longleftrightarrow> 0 < zp_stack_align zp \<and> 4 dvd zp_align zp \<and> zp_align zp dvd zp_stack_align zp \<and> zp_align zp dvd zp_sizeof zp"

lemma round_up:
  assumes "0 < a"
  shows "a dvd ROUND_UP x a" "x \<le> ROUND_UP x a" "ROUND_UP x a < x + a"
proof -
  show "a dvd ROUND_UP x a" by (simp add: ROUND_UP_def)
  have "ROUND_UP x a = x + (a - 1) - (x + (a - 1)) mod a" by (simp add: ROUND_UP_def minus_mod_eq_div_mult)
  moreover have "(x + (a - 1)) mod a < a" using assms by simp
  ultimately show "x \<le> ROUND_UP x a" "ROUND_UP x a < x + a" using assms by linarith+
qed

lemma round_down:
  assumes "0 < a"
  shows "a dvd ROUND_DOWN x a" "ROUND_DOWN x a \<le> x" "x < ROUND_DOWN x a + a"
proof -
  show "a dvd ROUND_DOWN x a" by (simp add: ROUND_DOWN_def)
  have "ROUND_DOWN x a = x - x mod a" by (simp add: ROUND_DOWN_def minus_mod_eq_div_mult)
  moreover have "x mod a < a" "x mod a \<le> x" using assms by simp_all
  ultimately show "ROUND_DOWN x a \<le> x" "x < ROUND_DOWN x a + a" by linarith+
qed

text \<open>A rounded multiple of \<open>b\<close> is at most \<open>a - b\<close> above it, where \<open>b\<close> divides \<open>a\<close>.\<close>

lemma round_up_multiple:
  assumes "0 < a" "b dvd a" "b dvd x"
  shows "ROUND_UP x a + b \<le> x + a"
proof -
  have "b dvd ROUND_UP x a" using dvd_trans [OF assms(2) round_up(1) [OF assms(1)]] .
  then have "b dvd (x + a) - ROUND_UP x a" using assms by (intro dvd_diff_nat dvd_add)
  moreover have "0 < (x + a) - ROUND_UP x a" using round_up(3) [OF assms(1), of x] by simp
  ultimately have "b \<le> (x + a) - ROUND_UP x a" by (intro dvd_imp_le)
  then show ?thesis using round_up(3) [OF assms(1), of x] by linarith
qed

lemma layout_within:
  assumes "0 < zp_align zp" "0 < zp_stack_align zp" "os_zephyr_thread_layout zp ws n sz = Some (a, t)"
  shows "thread_within zp ws n a t \<and> zt_workspace_base t = ws"
proof -
  let ?b = "ws + 4" and ?a = "ROUND_UP (ws + 4) (zp_align zp)"
  note ra = round_up [OF assms(1), of ?b]
  have n: "4 \<le> n" "?b + (n - 4) = ws + n" using assms(3) by (auto simp: os_zephyr_thread_layout_def split: if_splits)
  show ?thesis
  proof (cases "sz > 0")
    case True
    then show ?thesis using assms(3) n ra round_up [OF assms(2), of "?a + zp_sizeof zp"]
      by (auto simp: os_zephyr_thread_layout_def thread_within_def Let_def split: if_splits)
  next
    case False
    let ?e = "ROUND_DOWN (ws + n) (zp_stack_align zp)"
    let ?l = "ROUND_DOWN (?e - (?a + zp_sizeof zp)) (zp_stack_align zp)"
    have e: "?a + zp_sizeof zp \<le> ?e" "a = ?a" "zt_stack_mem t = ?e - ?l" "zt_stack_size t = ?l" "zt_workspace_base t = ws"
      using assms(3) False n by (auto simp: os_zephyr_thread_layout_def Let_def split: if_splits)
    have "zp_stack_align zp dvd ?e - ?l" using round_down(1) [OF assms(2)] by (intro dvd_diff_nat)
    then show ?thesis using e ra round_down(2) [OF assms(2), of "?e - (?a + zp_sizeof zp)"] round_down(2) [OF assms(2), of "ws + n"]
      by (auto simp: thread_within_def)
  qed
qed

lemma layout_fits:
  assumes "platform_ok zp" "4 dvd ws" "0 < sz"
  shows "\<exists>a t. os_zephyr_thread_layout zp ws (OS_THREAD_WA_SIZE_Z zp sz) sz = Some (a, t) \<and> zt_stack_size t = zp_stack_len zp sz"
proof -
  let ?al = "zp_align zp" and ?sa = "zp_stack_align zp"
  have ok: "0 < ?sa" "0 < ?al" "4 dvd ?al" "?al dvd ?sa" "?al dvd zp_sizeof zp"
    using assms(1) dvd_pos_nat [of ?sa ?al] by (auto simp: platform_ok_def)
  let ?a = "ROUND_UP (ws + 4) ?al"
  have "4 \<le> ?al" using ok dvd_imp_le by blast
  then have "4 \<le> ?sa" using ok dvd_imp_le [of ?al ?sa] by linarith
  have "?a + 4 \<le> (ws + 4) + ?al" using ok assms(2) by (intro round_up_multiple) auto
  moreover have "ROUND_UP (?a + zp_sizeof zp) ?sa + ?al \<le> (?a + zp_sizeof zp) + ?sa"
    using ok round_up(1) by (intro round_up_multiple dvd_add) auto
  ultimately have "ROUND_UP (?a + zp_sizeof zp) ?sa + zp_stack_len zp sz \<le> ws + OS_THREAD_WA_SIZE_Z zp sz"
    by (simp add: OS_THREAD_WA_SIZE_Z_def)
  then show ?thesis using assms(3) \<open>4 \<le> ?sa\<close> by (simp add: os_zephyr_thread_layout_def OS_THREAD_WA_SIZE_Z_def Let_def)
qed

text \<open>C19: On a block of the size \<open>os_thread_create\<close> asks for the creation of a thread never fails for lack of room: the object of
  the thread and its stack of the size asked for lie in the block, aligned and apart from each other and from the header; the
  block stays allocated; and the thread starts with its function, with semaphores that are not given and nothing stored.\<close>

theorem zephyr_thread_fits:
  assumes "platform_ok zp" "buffer \<noteq> NULL" "4 dvd buffer" "stack_size \<noteq> 0"
  shows "\<exists>a t. z_thread_create zp buffer True stack_size prio pf arg nm = (EOK, a, {buffer}, Some (t, z_map_os_to_kprio (zp_hi zp) (zp_lo zp) (sint prio))) \<and>
    thread_within zp buffer (OS_THREAD_WA_SIZE_Z zp (unat stack_size)) a t \<and> zt_stack_size t = zp_stack_len zp (unat stack_size) \<and>
    zt_heap t \<and> zt_workspace_base t = buffer \<and> zt_entry t = pf \<and> zt_arg t = arg \<and> ks_count (zt_join_sem t) = 0 \<and> ks_count (zt_notify_sem t) = 0 \<and>
    zt_tls_bitmap t = 0 \<and> \<not> zt_terminated t"
proof -
  have sz: "0 < unat stack_size" using assms(4) by (simp add: unat_gt_0)
  obtain a t where l: "os_zephyr_thread_layout zp buffer (OS_THREAD_WA_SIZE_Z zp (unat stack_size)) (unat stack_size) = Some (a, t)"
      "zt_stack_size t = zp_stack_len zp (unat stack_size)"
    using layout_fits [OF assms(1,3) sz] by auto
  have "0 < zp_align zp" "0 < zp_stack_align zp" using assms(1) dvd_pos_nat [of "zp_stack_align zp" "zp_align zp"] by (auto simp: platform_ok_def)
  note w = layout_within [OF this l(1)]
  show ?thesis using assms(2,4) l w
    by (simp add: z_thread_create_def os_zephyr_thread_alloc_def os_zephyr_thread_common_init_def thread_within_def Let_def)
qed

theorem zephyr_thread_fits_witness:
  "\<exists>a t k. z_thread_create demo_zephyr_build 28 True 1000 48 5 6 7 = (EOK, a, {28}, Some (t, k)) \<and> 232 \<le> zt_stack_mem t \<and> zt_stack_mem t + 1008 \<le> 1252"
  using zephyr_thread_fits [where zp = demo_zephyr_build and buffer = 28 and stack_size = 1000 and prio = 48 and pf = 5 and arg = 6 and nm = 7]
  by (auto simp: demo_zephyr_build_def platform_ok_def thread_within_def OS_THREAD_WA_SIZE_Z_def ROUND_UP_def)
text \<open>An area declared with \<open>OS_THREAD_WORKING_AREA\<close> is an array of 64-bit words; its size in bytes.\<close>

definition OS_THREAD_WORKING_AREA_Z :: "zephyr_platform \<Rightarrow> nat \<Rightarrow> nat" where
  "OS_THREAD_WORKING_AREA_Z zp n = (OS_THREAD_WA_SIZE_Z zp n + 8) div 8 * 8"

lemma static_layout_fits:
  assumes "platform_ok zp" "zp_align zp dvd 8" "8 dvd ws" "zp_stack_align zp dvd zp_stack_len zp sz" "0 < zp_stack_len zp sz"
  shows "\<exists>a t. os_zephyr_thread_layout zp ws (OS_THREAD_WORKING_AREA_Z zp sz) 0 = Some (a, t) \<and> zp_stack_len zp sz \<le> zt_stack_size t"
proof -
  let ?al = "zp_align zp" and ?sa = "zp_stack_align zp" and ?n = "OS_THREAD_WORKING_AREA_Z zp sz" and ?len = "zp_stack_len zp sz"
  have ok: "0 < ?sa" "0 < ?al" "4 dvd ?al" "?al dvd ?sa" "?al dvd zp_sizeof zp"
    using assms(1) dvd_pos_nat [of ?sa ?al] by (auto simp: platform_ok_def)
  have al: "4 \<le> ?al" "?al \<le> ?sa" using ok dvd_imp_le by blast+
  have "x < (x + 8) div 8 * 8" for x :: nat by presburger
  then have n: "zp_sizeof zp + ?len + ?sa < ?n" by (simp add: OS_THREAD_WORKING_AREA_Z_def OS_THREAD_WA_SIZE_Z_def)
  have "4 dvd ws" using assms(3) by (rule dvd_trans [rotated]) simp
  let ?a = "ROUND_UP (ws + 4) ?al" and ?e = "ROUND_DOWN (ws + ?n) ?sa"
  have "?a + 4 \<le> (ws + 4) + ?al" using ok \<open>4 dvd ws\<close> by (intro round_up_multiple) auto
  moreover have e: "ws + ?n + ?al \<le> ?e + ?sa"
  proof -
    have "?al dvd ws" "?al dvd ?n" using dvd_trans [OF assms(2,3)] dvd_trans [OF assms(2)] by (auto simp: OS_THREAD_WORKING_AREA_Z_def)
    moreover have "?al dvd ?e" using ok(4) round_down(1) [OF ok(1)] by (rule dvd_trans)
    ultimately have "?al dvd ?e + ?sa - (ws + ?n)" using ok(4) by (intro dvd_diff_nat dvd_add)
    moreover have "0 < ?e + ?sa - (ws + ?n)" using round_down(3) [OF ok(1), of "ws + ?n"] by simp
    ultimately have "?al \<le> ?e + ?sa - (ws + ?n)" by (intro dvd_imp_le)
    then show ?thesis using \<open>0 < ?e + ?sa - (ws + ?n)\<close> by linarith
  qed
  ultimately have room: "?a + zp_sizeof zp + ?len < ?e" using n by linarith
  let ?l = "ROUND_DOWN (?e - (?a + zp_sizeof zp)) ?sa"
  have "?len div ?sa \<le> (?e - (?a + zp_sizeof zp)) div ?sa" using room by (intro div_le_mono) linarith
  then have "?len \<le> ?l" using assms(4) by (metis ROUND_DOWN_def dvd_div_mult_self mult_le_mono1)
  then have "os_zephyr_thread_layout zp ws ?n 0 = Some (?a, thread_zero\<lparr>zt_workspace_base := ws, zt_workspace_size := ?n, zt_stack_mem := ?e - ?l, zt_stack_size := ?l\<rparr>)"
    using room n assms(5) al by (simp add: os_zephyr_thread_layout_def Let_def)
  then show ?thesis using \<open>?len \<le> ?l\<close> by simp
qed

text \<open>The creation of a thread in an area declared for a stack succeeds and gives it at least that stack, within the area.\<close>

theorem zephyr_static_fits:
  assumes "platform_ok zp" "zp_align zp dvd 8" "8 dvd ws" "zp_stack_align zp dvd zp_stack_len zp sz" "0 < zp_stack_len zp sz"
    "OS_THREAD_WORKING_AREA_Z zp sz < 65536"
  shows "\<exists>a t. z_thread_create_static zp ws True (of_nat (OS_THREAD_WORKING_AREA_Z zp sz)) prio pf arg nm =
      (EOK, a, Some (t, z_map_os_to_kprio (zp_hi zp) (zp_lo zp) (sint prio))) \<and>
    thread_within zp ws (OS_THREAD_WORKING_AREA_Z zp sz) a t \<and> zp_stack_len zp sz \<le> zt_stack_size t \<and> \<not> zt_heap t"
proof -
  have u: "unat (of_nat (OS_THREAD_WORKING_AREA_Z zp sz) :: u16) = OS_THREAD_WORKING_AREA_Z zp sz"
    using assms(6) by (simp add: unat_of_nat)
  obtain a t where l: "os_zephyr_thread_layout zp ws (OS_THREAD_WORKING_AREA_Z zp sz) 0 = Some (a, t)" "zp_stack_len zp sz \<le> zt_stack_size t"
    using static_layout_fits [OF assms(1-5)] by auto
  have "0 < zp_align zp" "0 < zp_stack_align zp" using assms(1) dvd_pos_nat [of "zp_stack_align zp" "zp_align zp"] by (auto simp: platform_ok_def)
  note w = layout_within [OF this l(1)]
  show ?thesis using l w u by (simp add: z_thread_create_static_def os_zephyr_thread_common_init_def thread_within_def Let_def)
qed

section \<open>The life of a thread on Zephyr\<close>

text \<open>Where the thread is in \<open>os_zephyr_thread_entry\<close>: before it, in its function, behind it, behind the mark, behind the semaphore, ended.\<close>

datatype entry_phase = Z_created | Z_running | Z_returned | Z_marked | Z_given | Z_ended

text \<open>\<open>zl_exists\<close>: the memory of the object and of the stack may be used; \<open>zl_handle\<close>: the handle is not null; \<open>zl_aborted\<close>: the
  kernel was told to end the thread.\<close>

record zephyr_life =
  zl_thread :: os_zephyr_thread
  zl_phase :: entry_phase
  zl_exists :: bool
  zl_handle :: bool
  zl_aborted :: bool

definition entry_mark :: "zephyr_life \<Rightarrow> zephyr_life" where
  "entry_mark l = l\<lparr>zl_thread := (zl_thread l)\<lparr>zt_terminated := True\<rparr>, zl_phase := Z_marked\<rparr>"

definition entry_give :: "zephyr_life \<Rightarrow> zephyr_life" where
  "entry_give l = l\<lparr>zl_thread := (zl_thread l)\<lparr>zt_join_sem := k_sem_give (zt_join_sem (zl_thread l))\<rparr>, zl_phase := Z_given\<rparr>"

definition z_thread_release :: "zephyr_life \<Rightarrow> zephyr_life" where
  "z_thread_release l =
     (if \<not> zl_handle l then l
      else
        (let t = zl_thread l;
             l = (if \<not> zt_terminated t then
                    l\<lparr>zl_thread := t\<lparr>zt_terminated := True, zt_join_sem := k_sem_give (zt_join_sem t)\<rparr>, zl_phase := Z_ended, zl_aborted := True\<rparr>
                  else l);
             l = (if zt_heap t \<and> zt_workspace_base t \<noteq> NULL then l\<lparr>zl_exists := False\<rparr> else l)
         in l\<lparr>zl_handle := False\<rparr>))"

text \<open>The status and the state; \<open>None\<close>: the call waits for the thread.\<close>

definition z_thread_join_timeout :: "u32 \<Rightarrow> zephyr_life \<Rightarrow> (int \<times> zephyr_life) option" where
  "z_thread_join_timeout ticks l =
     (if \<not> zl_handle l then Some (E_PARM, l)
      else case k_sem_take (os_zephyr_timeout_from_ticks ticks) (zt_join_sem (zl_thread l)) of
             None \<Rightarrow> None
           | Some (rc, s) \<Rightarrow>
               (let l = l\<lparr>zl_thread := (zl_thread l)\<lparr>zt_join_sem := s\<rparr>\<rparr>
                in Some (if rc = K_OK then (EOK, z_thread_release l) else (E_TIMEOUT, l))))"

definition z_thread_join :: "zephyr_life \<Rightarrow> zephyr_life option" where
  "z_thread_join l = map_option snd (z_thread_join_timeout OS_TIME_INFINITE l)"
text \<open>The steps of the thread and of those that join or release it.\<close>

inductive zephyr_step :: "zephyr_life \<Rightarrow> zephyr_life \<Rightarrow> bool" where
  zs_start: "zl_phase l = Z_created \<Longrightarrow> zephyr_step l (l\<lparr>zl_phase := Z_running\<rparr>)"
| zs_return: "zl_phase l = Z_running \<Longrightarrow> zephyr_step l (l\<lparr>zl_phase := Z_returned\<rparr>)"
| zs_mark: "zl_phase l = Z_returned \<Longrightarrow> zephyr_step l (entry_mark l)"
| zs_give: "zl_phase l = Z_marked \<Longrightarrow> zephyr_step l (entry_give l)"
| zs_end: "zl_phase l = Z_given \<Longrightarrow> zephyr_step l (l\<lparr>zl_phase := Z_ended\<rparr>)"
| zs_join: "z_thread_join_timeout ticks l = Some (rc, l') \<Longrightarrow> zephyr_step l l'"
| zs_release: "zephyr_step l (z_thread_release l)"

definition zephyr_born :: "os_zephyr_thread \<Rightarrow> zephyr_life" where
  "zephyr_born t = \<lparr>zl_thread = t, zl_phase = Z_created, zl_exists = True, zl_handle = True, zl_aborted = False\<rparr>"

text \<open>The states of a thread that \<open>os_thread_create\<close> or \<open>os_thread_create_static\<close> has made.\<close>

definition zephyr_reach :: "bool \<Rightarrow> zephyr_life \<Rightarrow> bool" where
  "zephyr_reach heap l \<longleftrightarrow>
     (\<exists>t. zt_heap t = heap \<and> zt_workspace_base t \<noteq> NULL \<and> zt_join_sem t = \<lparr>ks_count = 0, ks_limit = 1\<rparr> \<and> \<not> zt_terminated t \<and>
        zephyr_step\<^sup>*\<^sup>* (zephyr_born t) l)"

lemma created_is_born:
  assumes "z_thread_create zp buffer tid_ok stack_size prio pf arg nm = (EOK, a, blocks, Some (t, k))" "0 < zp_align zp" "0 < zp_stack_align zp"
  shows "zephyr_reach True (zephyr_born t)"
proof -
  have "zt_heap t \<and> zt_workspace_base t \<noteq> NULL \<and> zt_join_sem t = \<lparr>ks_count = 0, ks_limit = 1\<rparr> \<and> \<not> zt_terminated t"
    using assms layout_within [of zp buffer]
    by (auto simp: z_thread_create_def os_zephyr_thread_alloc_def os_zephyr_thread_common_init_def err_codes Let_def
        split: if_splits option.splits)
  then show ?thesis unfolding zephyr_reach_def by blast
qed

definition life_inv :: "bool \<Rightarrow> zephyr_life \<Rightarrow> bool" where
  "life_inv heap l \<longleftrightarrow> (let t = zl_thread l in
     zt_heap t = heap \<and> zt_workspace_base t \<noteq> NULL \<and> (\<not> heap \<longrightarrow> zl_exists l) \<and>
     (zl_handle l \<longrightarrow> zl_exists l \<and> \<not> zl_aborted l \<and> zt_terminated t = (zl_phase l \<in> {Z_marked, Z_given, Z_ended}) \<and>
        zt_join_sem t = \<lparr>ks_count = (if zl_phase l \<in> {Z_given, Z_ended} then 1 else 0), ks_limit = 1\<rparr>) \<and>
     (\<not> zl_handle l \<and> heap \<longrightarrow> \<not> zl_exists l))"

lemma life_inv_release: "life_inv heap l \<Longrightarrow> life_inv heap (z_thread_release l) \<and> \<not> zl_handle (z_thread_release l)"
  by (auto simp: life_inv_def z_thread_release_def Let_def)

lemma release_terminated:
  assumes "zl_handle l" "zt_terminated (zl_thread l)" "zt_workspace_base (zl_thread l) \<noteq> NULL"
  shows "z_thread_release l = l\<lparr>zl_exists := (zl_exists l \<and> \<not> zt_heap (zl_thread l)), zl_handle := False\<rparr>"
  using assms by (simp add: z_thread_release_def Let_def)

lemma join_result:
  assumes "life_inv heap l" "z_thread_join_timeout ticks l = Some (rc, l')"
  shows "(\<not> zl_handle l \<and> rc = E_PARM \<and> l' = l) \<or> (zl_handle l \<and> rc = E_TIMEOUT \<and> l' = l \<and> zl_phase l \<notin> {Z_given, Z_ended}) \<or>
    (zl_handle l \<and> rc = EOK \<and> zl_phase l \<in> {Z_given, Z_ended} \<and> zl_phase l' = zl_phase l \<and> \<not> zl_aborted l' \<and> \<not> zl_handle l' \<and> zl_exists l' = (\<not> heap) \<and> life_inv heap l')"
proof (cases "zl_handle l")
  case True
  let ?t = "zl_thread l"
  have inv: "zt_heap ?t = heap" "zt_workspace_base ?t \<noteq> NULL" "zl_exists l" "\<not> zl_aborted l"
    "zt_terminated ?t = (zl_phase l \<in> {Z_marked, Z_given, Z_ended})"
    "zt_join_sem ?t = \<lparr>ks_count = (if zl_phase l \<in> {Z_given, Z_ended} then 1 else 0), ks_limit = 1\<rparr>"
    using assms(1) True unfolding life_inv_def Let_def by simp_all
  show ?thesis
  proof (cases "zl_phase l \<in> {Z_given, Z_ended}")
    case given: True
    let ?l = "l\<lparr>zl_thread := ?t\<lparr>zt_join_sem := \<lparr>ks_count = 0, ks_limit = 1\<rparr>\<rparr>\<rparr>"
    have "rc = EOK" "l' = z_thread_release ?l" using assms(2) inv given True by (auto simp: z_thread_join_timeout_def k_sem_take_def)
    moreover have "z_thread_release ?l = ?l\<lparr>zl_exists := (\<not> heap), zl_handle := False\<rparr>"
      using release_terminated [of ?l] inv given True by auto
    ultimately show ?thesis using inv given True by (auto simp: life_inv_def Let_def)
  next
    case False
    then have "ks_count (zt_join_sem ?t) = 0" using inv by simp
    then have "rc = E_TIMEOUT" "l' = l" using assms(2) True by (auto simp: z_thread_join_timeout_def k_sem_take_def split: if_splits)
    then show ?thesis using True False by simp
  qed
next
  case False
  then show ?thesis using assms(2) by (simp add: z_thread_join_timeout_def)
qed

lemma life_inv_step: "zephyr_step l l' \<Longrightarrow> life_inv heap l \<Longrightarrow> life_inv heap l'"
proof (induction rule: zephyr_step.induct)
  case (zs_join ticks l rc l')
  then show ?case using join_result [of heap l ticks rc l'] by auto
next
  case (zs_release l)
  then show ?case using life_inv_release by simp
qed (auto simp: life_inv_def entry_mark_def entry_give_def k_sem_give_def Let_def)

lemma life_inv_reach: "zephyr_reach heap l \<Longrightarrow> life_inv heap l"
proof -
  have "zephyr_step\<^sup>*\<^sup>* l0 l \<Longrightarrow> life_inv heap l0 \<Longrightarrow> life_inv heap l" for l0
    by (induction rule: rtranclp_induct) (auto intro: life_inv_step)
  moreover have "zt_heap t = heap \<Longrightarrow> zt_workspace_base t \<noteq> NULL \<Longrightarrow> zt_join_sem t = \<lparr>ks_count = 0, ks_limit = 1\<rparr> \<Longrightarrow> \<not> zt_terminated t \<Longrightarrow>
      life_inv heap (zephyr_born t)" for t by (simp add: life_inv_def zephyr_born_def)
  ultimately show "zephyr_reach heap l \<Longrightarrow> life_inv heap l" unfolding zephyr_reach_def by blast
qed

lemma reaches_given:
  assumes "life_inv heap l" "zl_handle l"
  shows "\<exists>l'. zephyr_step\<^sup>*\<^sup>* l l' \<and> zl_handle l' \<and> zl_phase l' \<in> {Z_given, Z_ended}"
proof -
  have go: "zl_phase l = Z_marked \<Longrightarrow> zl_handle l \<Longrightarrow> \<exists>l'. zephyr_step\<^sup>*\<^sup>* l l' \<and> zl_handle l' \<and> zl_phase l' \<in> {Z_given, Z_ended}" for l
    by (intro exI [of _ "entry_give l"]) (simp add: zs_give r_into_rtranclp, simp add: entry_give_def)
  have go2: "zl_phase l = Z_returned \<Longrightarrow> zl_handle l \<Longrightarrow> \<exists>l'. zephyr_step\<^sup>*\<^sup>* l l' \<and> zl_handle l' \<and> zl_phase l' \<in> {Z_given, Z_ended}" for l
    using go [of "entry_mark l"] zs_mark [of l] by (auto simp: entry_mark_def intro: converse_rtranclp_into_rtranclp)
  have go3: "zl_phase l = Z_running \<Longrightarrow> zl_handle l \<Longrightarrow> \<exists>l'. zephyr_step\<^sup>*\<^sup>* l l' \<and> zl_handle l' \<and> zl_phase l' \<in> {Z_given, Z_ended}" for l
    using go2 [of "l\<lparr>zl_phase := Z_returned\<rparr>"] zs_return [of l] by (auto intro: converse_rtranclp_into_rtranclp)
  have go4: "zl_phase l = Z_created \<Longrightarrow> zl_handle l \<Longrightarrow> \<exists>l'. zephyr_step\<^sup>*\<^sup>* l l' \<and> zl_handle l' \<and> zl_phase l' \<in> {Z_given, Z_ended}" for l
    using go3 [of "l\<lparr>zl_phase := Z_running\<rparr>"] zs_start [of l] by (auto intro: converse_rtranclp_into_rtranclp)
  show ?thesis using assms(2) go go2 go3 go4 by (cases "zl_phase l") auto
qed

text \<open>C20: As long as its handle is not cleared the memory of a thread may be used, and that of the caller always. A join that
  succeeds comes after the function of the thread has returned, not after an abort, clears the handle and gives the memory back; and a
  thread with a handle can come to the point where a join without limit succeeds.\<close>

theorem zephyr_join_after_return:
  assumes "zephyr_reach heap l"
  shows "(zl_handle l \<or> \<not> heap \<longrightarrow> zl_exists l) \<and>
    (\<forall>ticks l'. z_thread_join_timeout ticks l = Some (EOK, l') \<longrightarrow>
       zl_phase l \<in> {Z_given, Z_ended} \<and> \<not> zl_aborted l \<and> \<not> zl_handle l' \<and> zl_exists l' = (\<not> heap)) \<and>
    (zl_handle l \<longrightarrow> (\<exists>l1 l2. zephyr_step\<^sup>*\<^sup>* l l1 \<and> z_thread_join l1 = Some l2 \<and> \<not> zl_handle l2))"
proof (intro conjI allI impI)
  note inv = life_inv_reach [OF assms]
  show "zl_handle l \<or> \<not> heap \<Longrightarrow> zl_exists l" using inv by (auto simp: life_inv_def Let_def)
  show "zl_phase l \<in> {Z_given, Z_ended}" "\<not> zl_aborted l" "\<not> zl_handle l'" "zl_exists l' = (\<not> heap)"
    if "z_thread_join_timeout ticks l = Some (EOK, l')" for ticks l'
    using join_result [OF inv that] inv by (auto simp: err_codes life_inv_def Let_def)
  assume "zl_handle l"
  then obtain l1 where l1: "zephyr_step\<^sup>*\<^sup>* l l1" "zl_handle l1" "zl_phase l1 \<in> {Z_given, Z_ended}" using reaches_given [OF inv] by auto
  have "zephyr_reach heap l1" using assms l1(1) unfolding zephyr_reach_def by (meson rtranclp_trans)
  then have inv1: "life_inv heap l1" by (rule life_inv_reach)
  then have "z_thread_join l1 \<noteq> None" using l1
    by (auto simp: z_thread_join_def z_thread_join_timeout_def k_sem_take_def life_inv_def Let_def)
  then obtain l2 rc where "z_thread_join_timeout OS_TIME_INFINITE l1 = Some (rc, l2)" by (auto simp: z_thread_join_def)
  with join_result [OF inv1 this] l1 show "\<exists>l1 l2. zephyr_step\<^sup>*\<^sup>* l l1 \<and> z_thread_join l1 = Some l2 \<and> \<not> zl_handle l2"
    by (intro exI [of _ l1] exI [of _ l2]) (auto simp: z_thread_join_def)
qed
text \<open>A thread of the heap that the demonstration platform has made, run up to the semaphore.\<close>

definition demo_thread :: os_zephyr_thread where
  "demo_thread = os_zephyr_thread_common_init demo_zephyr_build (thread_zero\<lparr>zt_heap := True, zt_workspace_base := 28\<rparr>)"

definition demo_marked :: zephyr_life where
  "demo_marked = entry_mark ((zephyr_born demo_thread)\<lparr>zl_phase := Z_returned\<rparr>)"

lemma demo_marked_reached: "zephyr_reach True demo_marked" "zephyr_reach True (entry_give demo_marked)"
proof -
  let ?b = "zephyr_born demo_thread"
  have t: "zt_heap demo_thread = True" "zt_workspace_base demo_thread \<noteq> NULL" "zt_join_sem demo_thread = \<lparr>ks_count = 0, ks_limit = 1\<rparr>" "\<not> zt_terminated demo_thread"
    by (simp_all add: demo_thread_def os_zephyr_thread_common_init_def thread_zero_def)
  have "zephyr_step ?b (?b\<lparr>zl_phase := Z_running\<rparr>)" by (rule zs_start) (simp add: zephyr_born_def)
  moreover have "zephyr_step (?b\<lparr>zl_phase := Z_running\<rparr>) (?b\<lparr>zl_phase := Z_returned\<rparr>)" using zs_return [of "?b\<lparr>zl_phase := Z_running\<rparr>"] by simp
  moreover have "zephyr_step (?b\<lparr>zl_phase := Z_returned\<rparr>) demo_marked" unfolding demo_marked_def by (rule zs_mark) simp
  ultimately have r: "zephyr_step\<^sup>*\<^sup>* ?b demo_marked" by (meson converse_rtranclp_into_rtranclp r_into_rtranclp)
  then show "zephyr_reach True demo_marked" using t unfolding zephyr_reach_def by blast
  have "zephyr_step demo_marked (entry_give demo_marked)" by (rule zs_give) (simp add: demo_marked_def entry_mark_def)
  then show "zephyr_reach True (entry_give demo_marked)" using t r unfolding zephyr_reach_def by (meson rtranclp.rtrancl_into_rtrancl)
qed

theorem zephyr_join_after_return_witness:
  "\<exists>l1 l2. zephyr_step\<^sup>*\<^sup>* demo_marked l1 \<and> z_thread_join l1 = Some l2 \<and> \<not> zl_handle l2"
  using zephyr_join_after_return [OF demo_marked_reached(1)] by (simp add: demo_marked_def entry_mark_def zephyr_born_def)

text \<open>But the memory is given back too early: behind the semaphore the thread still runs, on its stack in the block that a join has freed;
  and a release between the mark and the semaphore frees the block with the semaphore that the thread then gives.\<close>

lemma release_frees:
  assumes "zephyr_reach True l" "zl_handle l" "zl_phase l \<in> {Z_marked, Z_given}"
  shows "\<not> zl_exists (z_thread_release l) \<and> zl_phase (z_thread_release l) = zl_phase l"
  using life_inv_reach [OF assms(1)] assms(2,3) by (auto simp: z_thread_release_def life_inv_def Let_def)

theorem zephyr_frees_running_thread:
  "(\<exists>l. zephyr_reach True l \<and> \<not> zl_exists l \<and> zl_phase l = Z_given) \<and> (\<exists>l. zephyr_reach True l \<and> \<not> zl_exists l \<and> zl_phase l = Z_marked)"
proof -
  have h: "zl_handle demo_marked" "zl_phase demo_marked = Z_marked" "zl_handle (entry_give demo_marked)" "zl_phase (entry_give demo_marked) = Z_given"
    by (simp_all add: demo_marked_def entry_mark_def entry_give_def zephyr_born_def)
  have "zephyr_reach True l \<Longrightarrow> zephyr_reach True (z_thread_release l)" for l
    unfolding zephyr_reach_def by (meson rtranclp.rtrancl_into_rtrancl zs_release)
  then show ?thesis using release_frees [OF demo_marked_reached(1)] release_frees [OF demo_marked_reached(2)] demo_marked_reached h by auto
qed

section \<open>Notifications and thread-local storage\<close>

definition z_thread_notify :: "int \<Rightarrow> os_zephyr_thread option \<Rightarrow> int \<times> os_zephyr_thread option" where
  "z_thread_notify msg handle =
     (case handle of
        None \<Rightarrow> (E_PARM, None)
      | Some t \<Rightarrow> (EOK, Some (t\<lparr>zt_notify_value := msg, zt_notify_sem := k_sem_give (zt_notify_sem t)\<rparr>)))"

definition z_thread_notify_isr :: "int \<Rightarrow> os_zephyr_thread option \<Rightarrow> int \<times> os_zephyr_thread option" where
  "z_thread_notify_isr msg handle = z_thread_notify msg handle"

definition z_thread_wait :: "u32 \<Rightarrow> os_zephyr_thread \<Rightarrow> (int \<times> os_zephyr_thread) option" where
  "z_thread_wait ticks t =
     (case k_sem_take (os_zephyr_timeout_from_ticks ticks) (zt_notify_sem t) of
        None \<Rightarrow> None
      | Some (rc, s) \<Rightarrow>
          (let t = t\<lparr>zt_notify_sem := s\<rparr>
           in Some (if rc = K_OK then (zt_notify_value t, t)
                    else if rc = K_EAGAIN \<or> rc = K_EBUSY then (E_TIMEOUT, t)
                    else (EFAIL, t))))"

text \<open>\<open>zo_custom\<close>: the custom data of a thread of the kernel, which is the address of its object or null; \<open>zo_thread\<close>: the objects; the
  bits of \<open>zo_bitmap\<close> are the indices in use. 1 is the address of \<open>_main_thread\<close>.\<close>

record zephyr_os =
  zo_bitmap :: u32
  zo_thread :: "addr \<Rightarrow> os_zephyr_thread"
  zo_custom :: "nat \<Rightarrow> addr"
  zo_main_ready :: bool

definition main_thread :: addr where "main_thread = 1"

definition os_zephyr_thread_set_current :: "nat \<Rightarrow> addr \<Rightarrow> zephyr_os \<Rightarrow> zephyr_os" where
  "os_zephyr_thread_set_current tid t s = s\<lparr>zo_custom := (zo_custom s)(tid := t)\<rparr>"

text \<open>\<open>nm\<close>: the name the kernel has for the current thread \<open>tid\<close>.\<close>

definition os_zephyr_thread_get_current :: "zephyr_platform \<Rightarrow> addr \<Rightarrow> nat \<Rightarrow> zephyr_os \<Rightarrow> addr \<times> zephyr_os" where
  "os_zephyr_thread_get_current zp nm tid s =
     (if zo_custom s tid \<noteq> NULL then (zo_custom s tid, s)
      else
        (let s = (if \<not> zo_main_ready s then
                    s\<lparr>zo_thread := (zo_thread s)(main_thread := (os_zephyr_thread_common_init zp thread_zero)\<lparr>zt_name := nm\<rparr>), zo_main_ready := True\<rparr>
                  else s)
         in (main_thread, os_zephyr_thread_set_current tid main_thread s)))"

definition tls_bit :: "nat \<Rightarrow> u32" where "tls_bit i = push_bit i 1"

definition z_thread_tls_alloc :: "zephyr_os \<Rightarrow> int \<times> int \<times> zephyr_os" where
  "z_thread_tls_alloc s =
     (case find (\<lambda>i. NOT (zo_bitmap s) AND tls_bit i \<noteq> 0) [0..<MAX_TLS_ID] of
        Some i \<Rightarrow> (EOK, int i, s\<lparr>zo_bitmap := zo_bitmap s OR tls_bit i\<rparr>)
      | None \<Rightarrow> (E_BUSY, -1, s))"

definition z_thread_tls_free :: "int \<Rightarrow> zephyr_os \<Rightarrow> zephyr_os" where
  "z_thread_tls_free index s =
     (if index < 0 \<or> index \<ge> int MAX_TLS_ID then s else s\<lparr>zo_bitmap := zo_bitmap s AND NOT (tls_bit (nat index))\<rparr>)"

definition z_thread_tls_set :: "zephyr_platform \<Rightarrow> addr \<Rightarrow> nat \<Rightarrow> int \<Rightarrow> u32 \<Rightarrow> zephyr_os \<Rightarrow> int \<times> zephyr_os" where
  "z_thread_tls_set zp nm tid idx value s =
     (let (a, s) = os_zephyr_thread_get_current zp nm tid s
      in if idx < 0 \<or> idx \<ge> int MAX_TLS_ID then (E_PARM, s)
         else
           (let t = zo_thread s a;
                t = t\<lparr>zt_tls_values := (zt_tls_values t)(nat idx := value), zt_tls_bitmap := zt_tls_bitmap t OR tls_bit (nat idx)\<rparr>
            in (EOK, s\<lparr>zo_thread := (zo_thread s)(a := t)\<rparr>)))"

definition z_thread_tls_get :: "zephyr_platform \<Rightarrow> addr \<Rightarrow> nat \<Rightarrow> int \<Rightarrow> zephyr_os \<Rightarrow> u32 \<times> zephyr_os" where
  "z_thread_tls_get zp nm tid idx s =
     (let (a, s) = os_zephyr_thread_get_current zp nm tid s
      in if idx < 0 \<or> idx \<ge> int MAX_TLS_ID then (0, s)
         else if zt_tls_bitmap (zo_thread s a) AND tls_bit (nat idx) = 0 then (0, s)
         else (zt_tls_values (zo_thread s a) (nat idx), s))"

text \<open>The addresses of the fields of the current thread: \<open>at\<close> is the place of the field in the object.\<close>

definition z_thread_thdsem_get :: "zephyr_platform \<Rightarrow> addr \<Rightarrow> nat \<Rightarrow> nat \<Rightarrow> zephyr_os \<Rightarrow> addr \<times> zephyr_os" where
  "z_thread_thdsem_get zp nm tid at s = (let (a, s) = os_zephyr_thread_get_current zp nm tid s in (a + at, s))"

definition z_thread_errno :: "zephyr_platform \<Rightarrow> addr \<Rightarrow> nat \<Rightarrow> nat \<Rightarrow> zephyr_os \<Rightarrow> addr \<times> zephyr_os" where
  "z_thread_errno zp nm tid at s = (let (a, s) = os_zephyr_thread_get_current zp nm tid s in (a + at, s))"

definition z_thread_current :: "zephyr_platform \<Rightarrow> addr \<Rightarrow> nat \<Rightarrow> zephyr_os \<Rightarrow> addr \<times> zephyr_os" where
  "z_thread_current zp nm tid s = os_zephyr_thread_get_current zp nm tid s"

text \<open>\<open>knm\<close>: the name of the thread in the kernel, null without names.\<close>

definition z_thread_get_name :: "addr \<Rightarrow> os_zephyr_thread option \<Rightarrow> addr" where
  "z_thread_get_name knm handle = (case handle of None \<Rightarrow> NULL | Some t \<Rightarrow> if knm \<noteq> NULL then knm else zt_name t)"
text \<open>A notification is kept: the wait behind it returns its message at once. Of two, both waits return the second message.\<close>

theorem zephyr_notify_kept:
  assumes "ks_count (zt_notify_sem t) + 1 < ks_limit (zt_notify_sem t)" "z_thread_notify msg (Some t) = (rc, Some t')"
  shows "z_thread_wait ticks t' = Some (msg, t\<lparr>zt_notify_value := msg\<rparr>) \<and>
    (\<exists>t2. z_thread_wait ticks (the (snd (z_thread_notify msg2 (Some t')))) = Some (msg2, t2) \<and> map_option fst (z_thread_wait ticks t2) = Some msg2)"
  using assms by (auto simp: z_thread_notify_def z_thread_wait_def k_sem_give_def k_sem_take_def)

theorem zephyr_notify_kept_witness:
  "map_option fst (z_thread_wait 0 (the (snd (z_thread_notify 5 (Some demo_thread))))) = Some 5"
proof -
  let ?t = "the (snd (z_thread_notify 5 (Some demo_thread)))"
  have c: "ks_count (zt_notify_sem demo_thread) + 1 < ks_limit (zt_notify_sem demo_thread)"
    by (simp add: demo_thread_def os_zephyr_thread_common_init_def demo_zephyr_build_def)
  have n: "z_thread_notify 5 (Some demo_thread) = (EOK, Some ?t)" by (simp add: z_thread_notify_def)
  from zephyr_notify_kept [OF c n, where ticks = 0] show ?thesis by simp
qed

lemma bit_tls_bit: "i < 4 \<Longrightarrow> bit (tls_bit i) j = (i = j)"
  by (auto simp: tls_bit_def bit_simps)

lemma tls_bit_and:
  fixes w :: u32
  assumes "i < 4"
  shows "(w AND tls_bit i = 0) = (\<not> bit w i)"
proof -
  have "(w AND tls_bit i = 0) = (\<forall>n. \<not> bit (w AND tls_bit i) n)" by (metis bit_0_eq bot_apply bot_bool_def bit_eqI)
  then show ?thesis by (auto simp: bit_and_iff bit_tls_bit [OF assms])
qed

lemma tls_bit_not: "i < 4 \<Longrightarrow> (NOT w AND tls_bit i \<noteq> 0) = (\<not> bit w i)" for w :: u32
  using tls_bit_and [of i "NOT w"] by (simp add: bit_simps)

lemma find_free:
  "find (\<lambda>i. NOT w AND tls_bit i \<noteq> 0) [0..<MAX_TLS_ID] = find (\<lambda>i. \<not> bit w i) [0..<MAX_TLS_ID]" for w :: u32
  by (rule find_cong) (simp_all add: tls_bit_not MAX_TLS_ID_def)

lemma bit_cleared: "i < 4 \<Longrightarrow> bit (w AND NOT (tls_bit i)) j = (bit w j \<and> j \<noteq> i)" for w :: u32
  using bit_imp_le_length [of w j] by (auto simp: bit_simps bit_tls_bit)

text \<open>An index handed out was free and is in use then, as those in use before; none is handed out only if all are in use. A free
  index can be handed out again.\<close>

theorem zephyr_tls_index:
  "(case z_thread_tls_alloc s of (rc, i, s') \<Rightarrow>
     (rc = EOK \<and> 0 \<le> i \<and> i < int MAX_TLS_ID \<and> \<not> bit (zo_bitmap s) (nat i) \<and> (\<forall>j. bit (zo_bitmap s') j = (bit (zo_bitmap s) j \<or> j = nat i)) \<and>
        z_thread_tls_free i s' = s) \<or>
     (rc = E_BUSY \<and> s' = s \<and> (\<forall>j < MAX_TLS_ID. bit (zo_bitmap s) j)))"
proof (cases "find (\<lambda>i. \<not> bit (zo_bitmap s) i) [0..<MAX_TLS_ID]")
  case None
  then have "z_thread_tls_alloc s = (E_BUSY, - 1, s)" by (simp add: z_thread_tls_alloc_def find_free)
  then show ?thesis using None by (simp add: find_None_iff)
next
  case (Some i)
  then have i: "i < 4" "\<not> bit (zo_bitmap s) i" by (auto simp: find_Some_iff MAX_TLS_ID_def)
  have a: "z_thread_tls_alloc s = (EOK, int i, s\<lparr>zo_bitmap := zo_bitmap s OR tls_bit i\<rparr>)" using Some by (simp add: z_thread_tls_alloc_def find_free)
  have "(zo_bitmap s OR tls_bit i) AND NOT (tls_bit i) = zo_bitmap s"
    using i by (intro bit_word_eqI) (auto simp: bit_simps bit_tls_bit)
  then have "z_thread_tls_free (int i) (s\<lparr>zo_bitmap := zo_bitmap s OR tls_bit i\<rparr>) = s"
    using i by (simp add: z_thread_tls_free_def MAX_TLS_ID_def)
  then show ?thesis using i unfolding a by (auto simp: bit_simps bit_tls_bit MAX_TLS_ID_def)
qed

text \<open>For threads the port has made: what a thread stores under an index it gets back, and no other index or thread sees it.\<close>

theorem zephyr_tls_storage:
  assumes "zo_custom s tid \<noteq> NULL" "zo_custom s tid' \<noteq> NULL" "0 \<le> idx" "idx < int MAX_TLS_ID" "z_thread_tls_set zp nm tid idx v s = (rc, s')"
  shows "fst (z_thread_tls_get zp nm tid idx s') = v \<and>
    (zo_custom s tid' \<noteq> zo_custom s tid \<or> idx' \<noteq> idx \<longrightarrow> fst (z_thread_tls_get zp nm' tid' idx' s') = fst (z_thread_tls_get zp nm' tid' idx' s))"
proof -
  let ?a = "zo_custom s tid" and ?i = "nat idx"
  have i: "?i < 4" using assms(3,4) by (simp add: MAX_TLS_ID_def)
  have s': "s' = s\<lparr>zo_thread := (zo_thread s)(?a := (zo_thread s ?a)\<lparr>zt_tls_values := (zt_tls_values (zo_thread s ?a))(?i := v),
      zt_tls_bitmap := zt_tls_bitmap (zo_thread s ?a) OR tls_bit ?i\<rparr>)\<rparr>"
    using assms(1,3-5) by (simp add: z_thread_tls_set_def os_zephyr_thread_get_current_def Let_def)
  have "fst (z_thread_tls_get zp nm tid idx s') = v"
    using assms(1,3,4) i unfolding s' by (simp add: z_thread_tls_get_def os_zephyr_thread_get_current_def tls_bit_and bit_simps bit_tls_bit)
  moreover have "fst (z_thread_tls_get zp nm' tid' idx' s') = fst (z_thread_tls_get zp nm' tid' idx' s)" if "zo_custom s tid' \<noteq> ?a \<or> idx' \<noteq> idx"
  proof (cases "idx' < 0 \<or> idx' \<ge> int MAX_TLS_ID")
    case True
    then show ?thesis using assms(2) unfolding s' by (auto simp: z_thread_tls_get_def os_zephyr_thread_get_current_def)
  next
    case False
    then have j: "nat idx' < 4" "idx' \<noteq> idx \<Longrightarrow> nat idx' \<noteq> ?i" using assms(3) by (auto simp: MAX_TLS_ID_def)
    then show ?thesis using that False assms(2) i unfolding s'
      by (auto simp: z_thread_tls_get_def os_zephyr_thread_get_current_def tls_bit_and bit_simps bit_tls_bit)
  qed
  ultimately show ?thesis by blast
qed

theorem zephyr_tls_storage_witness:
  "fst (z_thread_tls_get demo_zephyr_build 0 3 2 (snd (z_thread_tls_set demo_zephyr_build 0 3 2 77
     \<lparr>zo_bitmap = 4, zo_thread = (\<lambda>a. demo_thread), zo_custom = (\<lambda>t. 100 * t + 100), zo_main_ready = False\<rparr>))) = 77"
  using zephyr_tls_storage [where zp = demo_zephyr_build and nm = 0 and tid = 3 and tid' = 4 and idx = 2 and v = 77 and
      s = "\<lparr>zo_bitmap = 4, zo_thread = (\<lambda>a. demo_thread), zo_custom = (\<lambda>t. 100 * t + 100), zo_main_ready = False\<rparr>", OF _ _ _ _ prod.collapse [symmetric]]
  by (simp add: MAX_TLS_ID_def)

text \<open>A value outlives the release of its index: the next one that gets the index finds it.\<close>

theorem zephyr_tls_value_stays:
  "fst (z_thread_tls_get zp nm tid idx (snd (snd (z_thread_tls_alloc (z_thread_tls_free idx s))))) = fst (z_thread_tls_get zp nm tid idx s)"
  by (cases "zo_custom s tid = NULL")
    (auto simp: z_thread_tls_alloc_def z_thread_tls_free_def z_thread_tls_get_def os_zephyr_thread_get_current_def os_zephyr_thread_set_current_def
      Let_def split: option.split)

text \<open>All threads the port has not made are one: they share their storage, their error number and their semaphore.\<close>

theorem zephyr_foreign_threads_shared:
  "zo_custom s t1 = NULL \<Longrightarrow> zo_custom s t2 = NULL \<Longrightarrow>
    fst (z_thread_current zp nm t1 s) = main_thread \<and> fst (z_thread_current zp nm t2 (snd (z_thread_current zp nm t1 s))) = main_thread"
  by (simp add: z_thread_current_def os_zephyr_thread_get_current_def os_zephyr_thread_set_current_def Let_def main_thread_def)
section \<open>Mutexes of Zephyr\<close>

record k_mutex =
  km_owner :: "nat option"
  km_count :: nat

definition k_mutex_init :: k_mutex where "k_mutex_init = \<lparr>km_owner = None, km_count = 0\<rparr>"

text \<open>\<open>None\<close>: the thread \<open>t\<close> waits for the owner.\<close>

definition k_mutex_lock :: "nat \<Rightarrow> k_timeout \<Rightarrow> k_mutex \<Rightarrow> (k_result \<times> k_mutex) option" where
  "k_mutex_lock t timeout m =
     (if km_owner m \<in> {None, Some t} then Some (K_OK, m\<lparr>km_owner := Some t, km_count := km_count m + 1\<rparr>)
      else if timeout = K_NO_WAIT then Some (K_EBUSY, m)
      else if timeout = K_FOREVER then None
      else Some (K_EAGAIN, m))"

definition k_mutex_unlock :: "nat \<Rightarrow> k_mutex \<Rightarrow> k_result \<times> k_mutex" where
  "k_mutex_unlock t m =
     (if km_owner m = None then (K_EINVAL, m)
      else if km_owner m \<noteq> Some t then (K_EPERM, m)
      else if km_count m > 1 then (K_OK, m\<lparr>km_count := km_count m - 1\<rparr>)
      else (K_OK, \<lparr>km_owner = None, km_count = 0\<rparr>))"

text \<open>The status, the handle, the blocks that stay allocated and the mutex; \<open>mem\<close>: what \<open>qoraal_malloc\<close> returns.\<close>

definition z_mutex_create :: "addr \<Rightarrow> int \<times> addr \<times> addr set \<times> k_mutex option" where
  "z_mutex_create mem = (if mem = NULL then (E_NOMEM, NULL, {}, None) else (EOK, mem, {mem}, Some k_mutex_init))"

definition z_mutex_delete :: "addr \<Rightarrow> addr set \<Rightarrow> addr \<times> addr set" where
  "z_mutex_delete h blocks = (if h = NULL then (h, blocks) else (NULL, blocks - {h}))"

definition z_mutex_init :: "k_mutex \<Rightarrow> int \<times> k_mutex" where "z_mutex_init m = (EOK, k_mutex_init)"
definition z_mutex_deinit :: "k_mutex \<Rightarrow> k_mutex" where "z_mutex_deinit m = m"

definition z_mutex_lock :: "nat \<Rightarrow> k_mutex \<Rightarrow> (int \<times> k_mutex) option" where
  "z_mutex_lock t m = (case k_mutex_lock t K_FOREVER m of None \<Rightarrow> None | Some (rc, m) \<Rightarrow> Some (if rc = K_OK then EOK else EFAIL, m))"

definition z_mutex_unlock :: "nat \<Rightarrow> k_mutex \<Rightarrow> k_mutex" where "z_mutex_unlock t m = snd (k_mutex_unlock t m)"

definition z_mutex_trylock :: "nat \<Rightarrow> k_mutex \<Rightarrow> (int \<times> k_mutex) option" where
  "z_mutex_trylock t m =
     (case k_mutex_lock t K_NO_WAIT m of
        None \<Rightarrow> None
      | Some (rc, m) \<Rightarrow> Some (if rc = K_OK then EOK else if rc = K_EBUSY then E_BUSY else EFAIL, m))"

section \<open>Semaphores of Zephyr\<close>

text \<open>The status and the semaphore, as it was where the kernel refuses.\<close>

definition z_sem_configure :: "k_sem \<Rightarrow> int \<Rightarrow> nat \<Rightarrow> int \<times> k_sem" where
  "z_sem_configure ks n limit =
     (let n = (if n < 0 then 0 else n); n = (if nat n > limit then int limit else n)
      in case k_sem_init (nat n) limit of
           (rc, ks') \<Rightarrow> (if rc = K_OK then EOK else EFAIL, case ks' of Some k \<Rightarrow> k | None \<Rightarrow> ks))"

definition z_bsem_configure :: "k_sem \<Rightarrow> int \<Rightarrow> int \<times> k_sem" where
  "z_bsem_configure ks taken =
     (case k_sem_init (if taken \<noteq> 0 then 0 else 1) 1 of
        (rc, ks') \<Rightarrow> (if rc = K_OK then EOK else EFAIL, case ks' of Some k \<Rightarrow> k | None \<Rightarrow> ks))"

text \<open>\<open>raw\<close>: what is in the memory before.\<close>

definition z_sem_create :: "zephyr_platform \<Rightarrow> addr \<Rightarrow> k_sem \<Rightarrow> int \<Rightarrow> int \<times> addr \<times> addr set \<times> k_sem option" where
  "z_sem_create zp mem raw n =
     (if mem = NULL then (E_NOMEM, NULL, {}, None)
      else
        (let (rc, ks) = z_sem_configure raw n (zp_sem_max zp)
         in if rc \<noteq> EOK then (EFAIL, NULL, {mem} - {mem}, None) else (EOK, mem, {mem}, Some ks)))"

definition z_sem_delete :: "addr \<Rightarrow> addr set \<Rightarrow> addr \<times> addr set" where
  "z_sem_delete h blocks = (if h = NULL then (h, blocks) else (NULL, blocks - {h}))"

definition z_sem_init :: "zephyr_platform \<Rightarrow> int \<Rightarrow> k_sem option \<Rightarrow> int \<times> k_sem option" where
  "z_sem_init zp n sem =
     (case sem of None \<Rightarrow> (E_PARM, None) | Some ks \<Rightarrow> (let (rc, ks) = z_sem_configure ks n (zp_sem_max zp) in (rc, Some ks)))"

definition z_sem_deinit :: "k_sem option \<Rightarrow> k_sem option" where "z_sem_deinit sem = sem"

definition z_sem_reset :: "zephyr_platform \<Rightarrow> int \<Rightarrow> k_sem option \<Rightarrow> int \<times> k_sem option" where
  "z_sem_reset zp n sem =
     (case sem of None \<Rightarrow> (E_PARM, None) | Some ks \<Rightarrow> (let (rc, ks) = z_sem_configure ks n (zp_sem_max zp) in (rc, Some ks)))"

definition z_sem_wait :: "k_sem option \<Rightarrow> (int \<times> k_sem option) option" where
  "z_sem_wait sem =
     (case sem of
        None \<Rightarrow> Some (E_PARM, None)
      | Some ks \<Rightarrow> (case k_sem_take K_FOREVER ks of None \<Rightarrow> None | Some (rc, ks) \<Rightarrow> Some (if rc = K_OK then EOK else EFAIL, Some ks)))"

definition z_sem_wait_timeout :: "u32 \<Rightarrow> k_sem option \<Rightarrow> (int \<times> k_sem option) option" where
  "z_sem_wait_timeout ticks sem =
     (case sem of
        None \<Rightarrow> Some (E_PARM, None)
      | Some ks \<Rightarrow>
          (case k_sem_take (os_zephyr_timeout_from_ticks ticks) ks of
             None \<Rightarrow> None
           | Some (rc, ks) \<Rightarrow>
               Some (if rc = K_OK then EOK else if rc = K_EAGAIN \<or> rc = K_EBUSY then E_TIMEOUT else EFAIL, Some ks)))"

definition z_sem_signal :: "k_sem option \<Rightarrow> k_sem option" where "z_sem_signal sem = map_option k_sem_give sem"
definition z_sem_signal_isr :: "k_sem option \<Rightarrow> k_sem option" where "z_sem_signal_isr sem = z_sem_signal sem"
definition z_sem_count :: "k_sem option \<Rightarrow> int" where "z_sem_count sem = (case sem of None \<Rightarrow> 0 | Some ks \<Rightarrow> int (ks_count ks))"

definition z_bsem_create :: "addr \<Rightarrow> k_sem \<Rightarrow> int \<Rightarrow> int \<times> addr \<times> addr set \<times> k_sem option" where
  "z_bsem_create mem raw taken =
     (if mem = NULL then (E_NOMEM, NULL, {}, None)
      else
        (let (rc, ks) = z_bsem_configure raw taken
         in if rc \<noteq> EOK then (EFAIL, NULL, {mem} - {mem}, None) else (EOK, mem, {mem}, Some ks)))"

definition z_bsem_delete :: "addr \<Rightarrow> addr set \<Rightarrow> addr \<times> addr set" where "z_bsem_delete h blocks = z_sem_delete h blocks"

definition z_bsem_init :: "int \<Rightarrow> k_sem option \<Rightarrow> int \<times> k_sem option" where
  "z_bsem_init taken sem =
     (case sem of None \<Rightarrow> (E_PARM, None) | Some ks \<Rightarrow> (let (rc, ks) = z_bsem_configure ks taken in (rc, Some ks)))"

definition z_bsem_deinit :: "k_sem option \<Rightarrow> k_sem option" where "z_bsem_deinit sem = sem"

definition z_bsem_reset :: "int \<Rightarrow> k_sem option \<Rightarrow> int \<times> k_sem option" where
  "z_bsem_reset taken sem =
     (case sem of None \<Rightarrow> (E_PARM, None) | Some ks \<Rightarrow> (let (rc, ks) = z_bsem_configure ks taken in (rc, Some ks)))"

definition z_bsem_wait :: "k_sem option \<Rightarrow> (int \<times> k_sem option) option" where "z_bsem_wait sem = z_sem_wait sem"
definition z_bsem_wait_timeout :: "u32 \<Rightarrow> k_sem option \<Rightarrow> (int \<times> k_sem option) option" where
  "z_bsem_wait_timeout ticks sem = z_sem_wait_timeout ticks sem"
definition z_bsem_signal :: "k_sem option \<Rightarrow> k_sem option" where "z_bsem_signal sem = z_sem_signal sem"
definition z_bsem_signal_isr :: "k_sem option \<Rightarrow> k_sem option" where "z_bsem_signal_isr sem = z_sem_signal_isr sem"

text \<open>Calls on a semaphore, of any threads; the waits that would not return are left out. The result has how many waits got it.\<close>

datatype sem_call = Sem_signal | Sem_wait u32

fun sem_run :: "sem_call list \<Rightarrow> k_sem \<Rightarrow> nat \<times> k_sem" where
  "sem_run [] ks = (0, ks)"
| "sem_run (Sem_signal # cs) ks = sem_run cs (the (z_sem_signal (Some ks)))"
| "sem_run (Sem_wait ticks # cs) ks =
     (case z_sem_wait_timeout ticks (Some ks) of
        Some (rc, Some ks) \<Rightarrow> (let (n, ks) = sem_run cs ks in ((if rc = EOK then n + 1 else n), ks))
      | _ \<Rightarrow> sem_run cs ks)"

definition signals :: "sem_call list \<Rightarrow> nat" where "signals cs = length (filter (\<lambda>c. c = Sem_signal) cs)"

lemma sem_run_bounds:
  assumes "ks_count ks \<le> ks_limit ks" "sem_run cs ks = (n, ks')"
  shows "ks_count ks' \<le> ks_limit ks' \<and> ks_limit ks' = ks_limit ks \<and> n + ks_count ks' \<le> ks_count ks + signals cs \<and>
    (ks_count ks + signals cs \<le> ks_limit ks \<longrightarrow> n + ks_count ks' = ks_count ks + signals cs)"
  using assms
proof (induction cs arbitrary: ks n)
  case Nil
  then show ?case by (simp add: signals_def)
next
  case (Cons c cs)
  show ?case
  proof (cases c)
    case Sem_signal
    then have "sem_run cs (k_sem_give ks) = (n, ks')" using Cons.prems(2) by (simp add: z_sem_signal_def)
    from Cons.IH [OF _ this] show ?thesis using Cons.prems(1) Sem_signal by (auto simp: k_sem_give_def signals_def split: if_splits)
  next
    case (Sem_wait ticks)
    show ?thesis
    proof (cases "ks_count ks = 0")
      case True
      then have "sem_run cs ks = (n, ks')" using Cons.prems(2) Sem_wait
        by (auto simp: z_sem_wait_timeout_def k_sem_take_def err_codes split: if_splits option.splits prod.splits)
      from Cons.IH [OF Cons.prems(1) this] show ?thesis using Sem_wait by (simp add: signals_def)
    next
      case False
      let ?k = "ks\<lparr>ks_count := ks_count ks - 1\<rparr>"
      obtain m where m: "sem_run cs ?k = (m, ks')" "n = m + 1" using Cons.prems(2) Sem_wait False
        by (auto simp: z_sem_wait_timeout_def k_sem_take_def split: prod.splits)
      obtain k where k: "ks_count ks = Suc k" using False by (cases "ks_count ks") auto
      then have "ks_count ?k \<le> ks_limit ?k" using Cons.prems(1) by simp
      from Cons.IH [OF this m(1)] show ?thesis using Sem_wait m(2) k by (simp add: signals_def)
    qed
  qed
qed

text \<open>A binary semaphore is binary on Zephyr, whatever happens to it: it never counts more than one, and no more waits get it than it was
  signalled, and once if it was not taken at the start. A counting semaphore loses no signal below its limit.\<close>

theorem zephyr_semaphores_count:
  assumes "z_bsem_create mem raw taken = (EOK, h, blocks, Some b)" "z_sem_create zp mem' raw' n = (EOK, h', blocks', Some c)"
  shows "(case sem_run cs b of (got, b') \<Rightarrow> ks_count b' \<le> 1 \<and> got + ks_count b' \<le> (if taken \<noteq> 0 then 0 else 1) + signals cs) \<and>
    (case sem_run cs c of (got, c') \<Rightarrow> ks_count c' \<le> zp_sem_max zp \<and>
       (ks_count c + signals cs \<le> zp_sem_max zp \<longrightarrow> got + ks_count c' = ks_count c + signals cs)) \<and>
    z_sem_count (Some c) = min (max n 0) (int (zp_sem_max zp))"
proof -
  have b: "b = \<lparr>ks_count = (if taken \<noteq> 0 then 0 else 1), ks_limit = 1\<rparr>"
    using assms(1) by (auto simp: z_bsem_create_def z_bsem_configure_def k_sem_init_def err_codes split: if_splits)
  have c: "ks_limit c = zp_sem_max zp" "int (ks_count c) = min (max n 0) (int (zp_sem_max zp))" "ks_count c \<le> ks_limit c"
    using assms(2) by (auto simp: z_sem_create_def z_sem_configure_def k_sem_init_def err_codes Let_def split: if_splits)
  obtain got b' where rb: "sem_run cs b = (got, b')" by fastforce
  obtain got' c' where rc: "sem_run cs c = (got', c')" by fastforce
  have "ks_count b \<le> ks_limit b" using b by simp
  from sem_run_bounds [OF this rb] sem_run_bounds [OF c(3) rc] show ?thesis using b c rb rc by (simp add: z_sem_count_def)
qed

theorem zephyr_semaphores_count_witness:
  "case sem_run [Sem_signal, Sem_signal, Sem_wait 0, Sem_wait 0] \<lparr>ks_count = 0, ks_limit = 1\<rparr> of (got, b') \<Rightarrow> ks_count b' \<le> 1"
  using zephyr_semaphores_count [where mem = 4 and raw = "\<lparr>ks_count = 9, ks_limit = 9\<rparr>" and taken = 1 and h = 4 and blocks = "{4}" and
      b = "\<lparr>ks_count = 0, ks_limit = 1\<rparr>" and zp = demo_zephyr_build and mem' = 4 and raw' = "\<lparr>ks_count = 9, ks_limit = 9\<rparr>" and n = 3 and h' = 4 and
      blocks' = "{4}" and c = "\<lparr>ks_count = 3, ks_limit = 1000\<rparr>" and cs = "[Sem_signal, Sem_signal, Sem_wait 0, Sem_wait 0]"]
  by (simp add: z_bsem_create_def z_bsem_configure_def z_sem_create_def z_sem_configure_def k_sem_init_def demo_zephyr_build_def split: prod.splits)
section \<open>Events of Zephyr\<close>

text \<open>The events that are set. The third argument of \<open>k_event_wait\<close> says whether all of them are cleared before the wait; it waits
  for any event of its mask. The result is those found and what is set then; \<open>None\<close>: the thread waits on; \<open>posted\<close>: what
  is posted during the wait.\<close>

definition k_event_wait :: "u32 \<Rightarrow> u32 \<Rightarrow> bool \<Rightarrow> k_timeout \<Rightarrow> u32 \<Rightarrow> (u32 \<times> u32) option" where
  "k_event_wait posted events reset timeout ev =
     (let ev = (if reset then 0 else ev)
      in if ev AND events \<noteq> 0 then Some (ev AND events, ev)
         else if timeout = K_NO_WAIT then Some (0, ev)
         else if (ev OR posted) AND events \<noteq> 0 then Some ((ev OR posted) AND events, ev OR posted)
         else if timeout = K_FOREVER then None
         else Some (0, ev OR posted))"

definition k_event_clear :: "u32 \<Rightarrow> u32 \<Rightarrow> u32" where "k_event_clear events ev = ev AND NOT events"
definition k_event_post :: "u32 \<Rightarrow> u32 \<Rightarrow> u32" where "k_event_post events ev = ev OR events"

definition z_event_create :: "addr \<Rightarrow> int \<times> addr \<times> addr set \<times> u32 option" where
  "z_event_create mem = (if mem = NULL then (E_NOMEM, NULL, {}, None) else (EOK, mem, {mem}, Some 0))"

definition z_event_delete :: "addr \<Rightarrow> addr set \<Rightarrow> addr \<times> addr set" where
  "z_event_delete h blocks = (if h = NULL then (h, blocks) else (NULL, blocks - {h}))"

definition z_event_init :: "u32 option \<Rightarrow> int \<times> u32 option" where
  "z_event_init event = (case event of None \<Rightarrow> (E_PARM, None) | Some ev \<Rightarrow> (EOK, Some 0))"

definition z_event_deinit :: "u32 option \<Rightarrow> u32 option" where "z_event_deinit event = event"

definition os_event_wait_common :: "u32 \<Rightarrow> u32 \<Rightarrow> u32 \<Rightarrow> u32 \<Rightarrow> k_timeout \<Rightarrow> u32 \<Rightarrow> (u32 \<times> u32) option" where
  "os_event_wait_common posted clear_on_exit msk al timeout ev =
     (case k_event_wait posted msk (al \<noteq> 0) timeout ev of
        None \<Rightarrow> None
      | Some (events, ev) \<Rightarrow> Some (events, if events \<noteq> 0 \<and> clear_on_exit \<noteq> 0 then k_event_clear clear_on_exit ev else ev))"

definition z_event_wait :: "u32 \<Rightarrow> u32 \<Rightarrow> u32 \<Rightarrow> u32 \<Rightarrow> u32 option \<Rightarrow> (u32 \<times> u32 option) option" where
  "z_event_wait posted clear_on_exit msk al event =
     (case event of None \<Rightarrow> Some (0, None)
      | Some ev \<Rightarrow> map_option (apsnd Some) (os_event_wait_common posted clear_on_exit msk al K_FOREVER ev))"

definition z_event_wait_timeout :: "u32 \<Rightarrow> u32 \<Rightarrow> u32 \<Rightarrow> u32 \<Rightarrow> u32 \<Rightarrow> u32 option \<Rightarrow> (u32 \<times> u32 option) option" where
  "z_event_wait_timeout posted clear_on_exit msk al ticks event =
     (case event of None \<Rightarrow> Some (0, None)
      | Some ev \<Rightarrow> map_option (apsnd Some) (os_event_wait_common posted clear_on_exit msk al (os_zephyr_timeout_from_ticks ticks) ev))"

definition z_event_clear :: "u32 \<Rightarrow> u32 option \<Rightarrow> u32 option" where "z_event_clear msk event = map_option (k_event_clear msk) event"
definition z_event_signal :: "u32 \<Rightarrow> u32 option \<Rightarrow> u32 option" where "z_event_signal msk event = map_option (k_event_post msk) event"
definition z_event_signal_isr :: "u32 \<Rightarrow> u32 option \<Rightarrow> u32 option" where "z_event_signal_isr msk event = z_event_signal msk event"

text \<open>A signal is not lost to a wait for any of its events, which clears the events it is told to.\<close>

theorem zephyr_event_reaches:
  assumes "msk AND events \<noteq> 0"
  shows "z_event_wait posted clear msk 0 (z_event_signal events (Some ev)) =
    Some ((ev OR events) AND msk, Some (if clear \<noteq> 0 then (ev OR events) AND NOT clear else ev OR events))"
proof -
  have "(ev OR events) AND msk \<noteq> 0" using assms by (metis and.commute bit.conj_disj_distrib2 or_eq_0_iff)
  then show ?thesis by (auto simp: z_event_wait_def z_event_signal_def k_event_post_def os_event_wait_common_def k_event_wait_def k_event_clear_def Let_def)
qed

theorem zephyr_event_reaches_witness:
  "z_event_wait 0 4 (- 1) 0 (z_event_signal 6 (Some 1)) = Some (7, Some 3)"
  using zephyr_event_reaches [where msk = "- 1" and events = 6 and posted = 0 and clear = 4 and ev = 1] by simp

text \<open>The wait of the event service, for any event and with 1 for the events to clear, leaves all but the first set, so that the
  next wait returns with them at once.\<close>

theorem zephyr_event_service_spins:
  assumes "ev AND NOT 1 \<noteq> 0"
  shows "z_event_wait posted 1 (- 1) 0 (Some ev) = Some (ev, Some (ev AND NOT 1)) \<and>
    z_event_wait posted' 1 (- 1) 0 (Some (ev AND NOT 1)) = Some (ev AND NOT 1, Some (ev AND NOT 1))"
proof -
  have "ev \<noteq> 0" using assms by auto
  moreover have "ev AND NOT 1 AND NOT 1 = ev AND NOT 1" for ev :: u32 by (simp add: and.assoc)
  ultimately show ?thesis using assms
    by (simp add: z_event_wait_def os_event_wait_common_def k_event_wait_def k_event_clear_def Let_def)
qed

theorem zephyr_event_service_spins_witness: "z_event_wait 0 1 (- 1) 0 (Some 2) = Some (2, Some 2)"
  using zephyr_event_service_spins [where ev = 2 and posted = 0 and posted' = 0] by simp

text \<open>A wait for all events of a mask forgets the events that are set, and returns with any of the mask.\<close>

theorem zephyr_event_all_is_reset:
  "z_event_wait_timeout 0 0 msk 1 OS_TIME_IMMEDIATE (Some msk) = Some (0, Some 0) \<and> z_event_wait 1 0 3 1 (Some 2) = Some (1, Some 1)"
  by (simp add: z_event_wait_timeout_def z_event_wait_def os_event_wait_common_def k_event_wait_def os_zephyr_timeout_from_ticks_def
      OS_TIME_INFINITE_def OS_TIME_IMMEDIATE_def)

section \<open>Timers of Zephyr\<close>

text \<open>\<open>zt_expires\<close>: the tick of the kernel at which the timer expires, \<open>None\<close> for one that does not run.\<close>

record os_zephyr_timer =
  zt_expires :: "nat option"
  zt_callback :: addr
  zt_callback_param :: addr

definition z_timer_init_at :: "addr \<Rightarrow> addr \<Rightarrow> os_zephyr_timer" where
  "z_timer_init_at fp parm = \<lparr>zt_expires = None, zt_callback = fp, zt_callback_param = parm\<rparr>"

definition z_timer_create :: "addr \<Rightarrow> addr \<Rightarrow> addr \<Rightarrow> int \<times> addr \<times> addr set \<times> os_zephyr_timer option" where
  "z_timer_create mem fp parm =
     (if mem = NULL then (E_NOMEM, NULL, {}, None) else (EOK, mem, {mem}, Some (z_timer_init_at fp parm)))"

definition z_timer_init :: "addr \<Rightarrow> addr \<Rightarrow> os_zephyr_timer option \<Rightarrow> int \<times> os_zephyr_timer option" where
  "z_timer_init fp parm timer = (case timer of None \<Rightarrow> (E_PARM, None) | Some w \<Rightarrow> (EOK, Some (z_timer_init_at fp parm)))"

definition z_timer_deinit :: "os_zephyr_timer option \<Rightarrow> os_zephyr_timer option" where
  "z_timer_deinit timer = map_option (\<lambda>w. w\<lparr>zt_expires := None\<rparr>) timer"

text \<open>The handle, the blocks and the timer, which has been stopped.\<close>

definition z_timer_delete :: "addr \<Rightarrow> addr set \<Rightarrow> os_zephyr_timer \<Rightarrow> addr \<times> addr set \<times> os_zephyr_timer" where
  "z_timer_delete h blocks w = (if h = NULL then (h, blocks, w) else (NULL, blocks - {h}, w\<lparr>zt_expires := None\<rparr>))"

text \<open>\<open>now\<close>: the tick of the kernel.\<close>

definition os_timer_start_common :: "nat \<Rightarrow> u32 \<Rightarrow> os_zephyr_timer option \<Rightarrow> os_zephyr_timer option" where
  "os_timer_start_common now ticks timer =
     (case timer of None \<Rightarrow> None
      | Some w \<Rightarrow> (let ticks = (if ticks = 0 then 1 else ticks) in Some (w\<lparr>zt_expires := Some (now + unat ticks)\<rparr>)))"

definition z_timer_set :: "nat \<Rightarrow> u32 \<Rightarrow> os_zephyr_timer option \<Rightarrow> os_zephyr_timer option" where
  "z_timer_set now ticks timer = os_timer_start_common now ticks timer"

definition z_timer_set_i :: "nat \<Rightarrow> u32 \<Rightarrow> os_zephyr_timer option \<Rightarrow> os_zephyr_timer option" where
  "z_timer_set_i now ticks timer = os_timer_start_common now ticks timer"

definition z_timer_is_set :: "nat \<Rightarrow> os_zephyr_timer option \<Rightarrow> int" where
  "z_timer_is_set now timer =
     (case timer of None \<Rightarrow> 0
      | Some w \<Rightarrow> (case zt_expires w of None \<Rightarrow> 0 | Some t \<Rightarrow> if t - now > 0 then 1 else 0))"

definition z_timer_reset :: "os_zephyr_timer option \<Rightarrow> os_zephyr_timer option" where
  "z_timer_reset timer = map_option (\<lambda>w. w\<lparr>zt_expires := None\<rparr>) timer"

text \<open>The calls of \<open>os_timer_expiry_handler\<close>, and a tick of the kernel.\<close>

definition os_timer_expiry_handler :: "os_zephyr_timer \<Rightarrow> (addr \<times> addr) list" where
  "os_timer_expiry_handler w = (if zt_callback w \<noteq> NULL then [(zt_callback w, zt_callback_param w)] else [])"

definition k_tick :: "nat \<Rightarrow> os_zephyr_timer \<Rightarrow> (addr \<times> addr) list \<times> os_zephyr_timer" where
  "k_tick now w =
     (case zt_expires w of
        None \<Rightarrow> ([], w)
      | Some t \<Rightarrow> if t \<le> now then (os_timer_expiry_handler w, w\<lparr>zt_expires := None\<rparr>) else ([], w))"

fun k_ticks :: "nat \<Rightarrow> nat \<Rightarrow> os_zephyr_timer \<Rightarrow> (addr \<times> addr) list \<times> os_zephyr_timer" where
  "k_ticks now 0 w = ([], w)"
| "k_ticks now (Suc n) w = (let (c1, w) = k_tick (now + 1) w; (c2, w) = k_ticks (now + 1) n w in (c1 @ c2, w))"

lemma k_ticks_idle: "zt_expires w = None \<Longrightarrow> k_ticks now n w = ([], w)"
  by (induction n arbitrary: now) (simp_all add: k_tick_def)

lemma k_ticks_run:
  "zt_expires w = Some t \<Longrightarrow> now < t \<Longrightarrow>
    k_ticks now n w = (if t \<le> now + n then (os_timer_expiry_handler w, w\<lparr>zt_expires := None\<rparr>) else ([], w))"
proof (induction n arbitrary: now)
  case 0
  then show ?case by simp
next
  case (Suc n)
  show ?case
  proof (cases "t \<le> now + 1")
    case True
    then show ?thesis using Suc.prems by (simp add: k_tick_def k_ticks_idle)
  next
    case False
    then show ?thesis using Suc.IH [of "now + 1"] Suc.prems by (simp add: k_tick_def)
  qed
qed

text \<open>A timer that is set calls its function once, with its argument, at the end of its time (at least one tick), is set until
  then and not after it; one that is reset does not call it.\<close>

theorem zephyr_timer_calls_once:
  assumes "zt_callback w \<noteq> NULL" "z_timer_set now ticks (Some w) = Some v"
  shows "k_ticks now n v = (if max 1 (unat ticks) \<le> n then ([(zt_callback w, zt_callback_param w)], v\<lparr>zt_expires := None\<rparr>) else ([], v)) \<and>
    z_timer_is_set (now + n) (Some (snd (k_ticks now n v))) = (if max 1 (unat ticks) \<le> n then 0 else 1) \<and>
    fst (k_ticks now n (the (z_timer_reset (Some v)))) = []"
proof -
  have u: "unat ticks = 0 \<longleftrightarrow> ticks = 0" by (simp add: unat_eq_0)
  have v: "v = w\<lparr>zt_expires := Some (now + max 1 (unat ticks))\<rparr>"
    using assms(2) u by (auto simp: z_timer_set_def os_timer_start_common_def Let_def max_def split: if_splits)
  have "k_ticks now n v = (if max 1 (unat ticks) \<le> n then ([(zt_callback w, zt_callback_param w)], v\<lparr>zt_expires := None\<rparr>) else ([], v))"
    using k_ticks_run [of v "now + max 1 (unat ticks)" now n] assms(1) unfolding v by (simp add: os_timer_expiry_handler_def)
  moreover have "fst (k_ticks now n (the (z_timer_reset (Some v)))) = []" by (simp add: z_timer_reset_def k_ticks_idle)
  ultimately show ?thesis unfolding v by (auto simp: z_timer_is_set_def)
qed

theorem zephyr_timer_calls_once_witness:
  "k_ticks 10 5 (\<lparr>zt_expires = Some 13, zt_callback = 7, zt_callback_param = 8\<rparr>) = ([(7, 8)], \<lparr>zt_expires = None, zt_callback = 7, zt_callback_param = 8\<rparr>)"
  using zephyr_timer_calls_once [where w = "\<lparr>zt_expires = None, zt_callback = 7, zt_callback_param = 8\<rparr>" and now = 10 and ticks = 3 and n = 5 and
      v = "\<lparr>zt_expires = Some 13, zt_callback = 7, zt_callback_param = 8\<rparr>"]
  by (simp add: z_timer_set_def os_timer_start_common_def)

section \<open>The clock and the system on Zephyr\<close>

definition z_sys_started :: int where "z_sys_started = 1"

text \<open>\<open>up\<close>: the ticks or milliseconds since the start; \<open>in_isr\<close>: what \<open>k_is_in_isr\<close> returns; \<open>rate\<close>: the ticks in a second.\<close>

definition z_sys_is_irq :: "bool \<Rightarrow> u32" where "z_sys_is_irq in_isr = (if in_isr then 1 else 0)"
definition z_sys_ticks :: "nat \<Rightarrow> u32" where "z_sys_ticks up = of_nat up"
definition z_sys_tick_freq :: "nat \<Rightarrow> u32" where "z_sys_tick_freq rate = of_nat rate"
definition z_sys_timestamp :: "nat \<Rightarrow> u32" where "z_sys_timestamp up = of_nat up"

text \<open>The arguments of \<open>k_sleep\<close>.\<close>

definition z_thread_sleep :: "u32 \<Rightarrow> k_timeout" where "z_thread_sleep msec = os_zephyr_timeout_from_ms msec"
definition z_thread_sleep_ticks :: "u32 \<Rightarrow> k_timeout" where "z_thread_sleep_ticks ticks = os_zephyr_timeout_from_ticks ticks"

text \<open>The difference of two tick counts is the time between them, over the overflow of the counts.\<close>

theorem zephyr_ticks_measure_time:
  "d < 2147483648 \<Longrightarrow> tick_diff (z_sys_ticks (up + d)) (z_sys_ticks up) = int d"
proof -
  assume d: "d < 2147483648"
  have "z_sys_ticks (up + d) - z_sys_ticks up = of_nat d" by (simp add: z_sys_ticks_def)
  moreover have "unat (of_nat d :: u32) = d" using d by (simp add: unat_of_nat)
  ultimately show ?thesis using sint_u32_small [of "of_nat d :: u32"] d unfolding tick_diff_def by simp
qed

end
