(* ===== verification/RtosOs.thy ===== *)
theory RtosOs
  imports OsSync
begin

text \<open>
  The port for FreeRTOS and ThreadX, src/os.c; its build for ChibiOS is not finished in the source. The kernels are given
  with their documented behaviour; they make an object in memory they are given, and FreeRTOS is built with pointers for
  thread-local storage. A message of 0 from an interrupt on FreeRTOS, which ends a wait with the status of a timeout, is left out. A call that waits is the call behind what ends its wait; \<open>None\<close> is a wait without end.
  The targets have 32-bit words, so that the long constants of the source have 32 bits.
\<close>

datatype rtos = FreeRTOS | ThreadX

section \<open>Priorities and time\<close>

definition OS_THREAD_PRIO :: "rtos \<Rightarrow> u32 \<Rightarrow> u32" where
  "OS_THREAD_PRIO k prio = (case k of FreeRTOS \<Rightarrow> prio div 8 | ThreadX \<Rightarrow> 32 - prio div 4)"

definition OS_THREAD_GET_PRIO :: "rtos \<Rightarrow> u32 \<Rightarrow> u32" where
  "OS_THREAD_GET_PRIO k p = (case k of FreeRTOS \<Rightarrow> p * 8 | ThreadX \<Rightarrow> 4 * (32 - p))"

definition rtos_thread_get_prio :: "rtos \<Rightarrow> u32 \<Rightarrow> u32" where "rtos_thread_get_prio k p = OS_THREAD_GET_PRIO k p"

text \<open>The result and the priority of the kernel, which was \<open>old\<close>.\<close>

definition rtos_thread_set_prio :: "rtos \<Rightarrow> u32 \<Rightarrow> u32 \<Rightarrow> u32 \<times> u32" where
  "rtos_thread_set_prio k prio old = (OS_THREAD_GET_PRIO k old, OS_THREAD_PRIO k prio)"

text \<open>\<open>freq\<close>: \<open>OS_ST_FREQUENCY\<close>.\<close>

definition OS_MS2TICKS :: "u32 \<Rightarrow> u32 \<Rightarrow> u32" where "OS_MS2TICKS freq msec = (msec * freq + 999) div 1000"
definition OS_TICKS2MS_32 :: "u32 \<Rightarrow> u32 \<Rightarrow> u32" where "OS_TICKS2MS_32 freq ticks = (ticks * 1000 + freq - 1) div freq"

definition rtos_sys_ticks :: "nat \<Rightarrow> u32" where "rtos_sys_ticks up = of_nat up"
definition rtos_sys_tick_freq :: "u32 \<Rightarrow> u32" where "rtos_sys_tick_freq freq = freq"
definition rtos_sys_timestamp :: "u32 \<Rightarrow> nat \<Rightarrow> u32" where "rtos_sys_timestamp freq up = OS_TICKS2MS_32 freq (of_nat up)"

text \<open>The ticks a sleep asks the kernel for, 0 for a yield.\<close>

definition rtos_thread_sleep :: "u32 \<Rightarrow> u32 \<Rightarrow> u32" where "rtos_thread_sleep freq msec = (if msec \<noteq> 0 then OS_MS2TICKS freq msec else 0)"
definition rtos_thread_sleep_ticks :: "u32 \<Rightarrow> u32" where "rtos_thread_sleep_ticks ticks = (if ticks \<noteq> 0 then ticks else 0)"

section \<open>The lock of the system\<close>

text \<open>ThreadX: \<open>rl_enter\<close> is \<open>_tx_control_enter\<close>, \<open>rl_enabled\<close> whether interrupts are enabled.\<close>

record rtos_lock =
  rl_enter :: u32
  rl_enabled :: bool

definition rtos_sys_lock :: "rtos_lock \<Rightarrow> rtos_lock" where
  "rtos_sys_lock l = l\<lparr>rl_enabled := False, rl_enter := rl_enter l + 1\<rparr>"

definition rtos_sys_unlock :: "rtos_lock \<Rightarrow> rtos_lock" where
  "rtos_sys_unlock l =
     (let l = l\<lparr>rl_enter := rl_enter l - 1\<rparr> in if rl_enter l = 0 then l\<lparr>rl_enabled := True\<rparr> else l)"

definition rtos_sys_start :: "bool \<Rightarrow> bool \<times> bool" where
  "rtos_sys_start started = (if \<not> started then (True, True) else (started, False))"

definition rtos_sys_started :: "bool \<Rightarrow> int" where "rtos_sys_started started = (if started then 1 else 0)"

section \<open>Threads\<close>

text \<open>The sizes of the objects in a working area: \<open>ra_tcb\<close>, of the kernel's own; \<open>ra_sem\<close>, of a semaphore; \<open>ra_evt\<close>, of the group of
  event flags on ThreadX. Words and pointers have 4 bytes.\<close>

record rtos_sizes =
  ra_tcb :: nat
  ra_sem :: nat
  ra_evt :: nat

text \<open>\<open>sizeof (OS_THREAD_WA_T)\<close>, without the stack at its end, and the size declared for a stack of \<open>n\<close> bytes.\<close>

definition wa_sizeof :: "rtos \<Rightarrow> rtos_sizes \<Rightarrow> nat" where
  "wa_sizeof k z =
     (case k of FreeRTOS \<Rightarrow> ra_tcb z + 4 + ra_sem z + 4 + ra_sem z + 4 + 4 + 4 + 4
      | ThreadX \<Rightarrow> ra_tcb z + 4 + ra_sem z + 4 + ra_sem z + ra_evt z + 4 + 4 + 4 + 4 + MAX_TLS_ID * 4)"

definition OS_THREAD_WA_SIZE_R :: "rtos_sizes \<Rightarrow> nat \<Rightarrow> nat" where "OS_THREAD_WA_SIZE_R z n = ra_tcb z + 6 * 4 + n"

text \<open>The bytes of a working area that is declared.\<close>

definition OS_THREAD_WORKING_AREA_R :: "rtos_sizes \<Rightarrow> nat \<Rightarrow> nat" where "OS_THREAD_WORKING_AREA_R z n = OS_THREAD_WA_SIZE_R z n div 8 * 8"

text \<open>What the creation of a thread hands to the kernel. \<open>rt_stack\<close>: the size of the stack, in words on FreeRTOS and bytes on ThreadX.\<close>

record rtos_thread =
  rt_heap :: bool
  rt_pf :: addr
  rt_arg :: addr
  rt_prio :: u32
  rt_stack :: u32

text \<open>The status, the handle, the blocks that stay allocated and the thread; \<open>ok\<close>: whether the kernel creates it.\<close>

definition rtos_thread_create ::
    "rtos \<Rightarrow> addr \<Rightarrow> bool \<Rightarrow> u16 \<Rightarrow> u32 \<Rightarrow> addr \<Rightarrow> addr \<Rightarrow> int \<times> addr \<times> addr set \<times> rtos_thread option" where
  "rtos_thread_create k mem ok stack_size prio pf arg =
     (if mem = NULL then (E_NOMEM, NULL, {}, None)
      else if \<not> ok then (EFAIL, NULL, {mem} - {mem}, None)
      else (EOK, mem, {mem}, Some \<lparr>rt_heap = True, rt_pf = pf, rt_arg = arg, rt_prio = OS_THREAD_PRIO k prio,
              rt_stack = (case k of FreeRTOS \<Rightarrow> ucast stack_size div 4 | ThreadX \<Rightarrow> ucast stack_size)\<rparr>))"

definition rtos_thread_create_static ::
    "rtos \<Rightarrow> rtos_sizes \<Rightarrow> addr \<Rightarrow> bool \<Rightarrow> u16 \<Rightarrow> u32 \<Rightarrow> addr \<Rightarrow> addr \<Rightarrow> int \<times> addr \<times> rtos_thread option" where
  "rtos_thread_create_static k z wsp ok n prio pf arg =
     (if \<not> ok then (EFAIL, NULL, None)
      else (EOK, wsp, Some \<lparr>rt_heap = False, rt_pf = pf, rt_arg = arg, rt_prio = OS_THREAD_PRIO k prio,
              rt_stack = (case k of FreeRTOS \<Rightarrow> ucast n div 4 - of_nat (wa_sizeof k z) | ThreadX \<Rightarrow> ucast n - of_nat (wa_sizeof k z))\<rparr>))"

text \<open>Notifications. \<open>rn_value\<close>: on FreeRTOS the value of the notification of the task, on ThreadX the flags of \<open>suspend_evt\<close>.\<close>

record rtos_notify =
  rn_value :: u32
  rn_msg :: int

definition rtos_thread_wait :: "rtos \<Rightarrow> u32 \<Rightarrow> rtos_notify \<Rightarrow> (int \<times> rtos_notify) option" where
  "rtos_thread_wait k ticks t =
     (if (case k of FreeRTOS \<Rightarrow> rn_value t \<noteq> 0 | ThreadX \<Rightarrow> rn_value t AND 1 \<noteq> 0) then
        Some (rn_msg t, t\<lparr>rn_value := (case k of FreeRTOS \<Rightarrow> rn_value t - 1 | ThreadX \<Rightarrow> rn_value t AND NOT 1)\<rparr>)
      else if ticks = OS_TIME_INFINITE then None
      else Some (E_TIMEOUT, t))"

definition rtos_thread_notify :: "rtos \<Rightarrow> int \<Rightarrow> rtos_notify \<Rightarrow> int \<times> rtos_notify" where
  "rtos_thread_notify k msg t =
     (let t = t\<lparr>rn_msg := msg\<rparr>
      in case k of FreeRTOS \<Rightarrow> (E_NOIMPL, t\<lparr>rn_value := rn_value t + 1\<rparr>) | ThreadX \<Rightarrow> (EOK, t\<lparr>rn_value := rn_value t OR 1\<rparr>))"

definition rtos_thread_notify_isr :: "rtos \<Rightarrow> int \<Rightarrow> rtos_notify \<Rightarrow> int \<times> rtos_notify" where
  "rtos_thread_notify_isr k msg t =
     (let t = t\<lparr>rn_msg := msg\<rparr>
      in case k of FreeRTOS \<Rightarrow> (E_NOIMPL, t\<lparr>rn_value := rn_value t OR word_of_int msg\<rparr>) | ThreadX \<Rightarrow> (EOK, t\<lparr>rn_value := rn_value t OR 1\<rparr>))"

text \<open>Thread-local storage: \<open>_os_tls_values\<close> and the slots of the threads of the kernel.\<close>

definition rtos_thread_tls_set :: "nat \<Rightarrow> int \<Rightarrow> u32 \<Rightarrow> tls_state \<Rightarrow> int \<times> tls_state" where
  "rtos_thread_tls_set tid idx v s =
     (if idx < 0 \<or> idx \<ge> int MAX_TLS_ID then (E_PARM, s)
      else (EOK, s\<lparr>tls_slot := (tls_slot s)(tid := (tls_slot s tid)(nat idx := v))\<rparr>))"

definition rtos_thread_tls_get :: "nat \<Rightarrow> int \<Rightarrow> tls_state \<Rightarrow> u32" where
  "rtos_thread_tls_get tid idx s = (if idx < 0 \<or> idx \<ge> int MAX_TLS_ID then 0 else tls_slot s tid (nat idx))"

definition rtos_thread_tls_alloc :: "nat \<Rightarrow> tls_state \<Rightarrow> int \<times> int \<times> tls_state" where
  "rtos_thread_tls_alloc tid s =
     (let i = tls_search (tls_values s) [0..<MAX_TLS_ID]
      in if i \<ge> MAX_TLS_ID then (EFAIL, -1, s)
         else (EOK, int i, snd (rtos_thread_tls_set tid (int i) 0 (s\<lparr>tls_values := (tls_values s)(i := True)\<rparr>))))"

definition rtos_thread_tls_free :: "int \<Rightarrow> tls_state \<Rightarrow> tls_state" where
  "rtos_thread_tls_free index s =
     (if index \<ge> 0 \<and> index < int MAX_TLS_ID then s\<lparr>tls_values := (tls_values s)(nat index := False)\<rparr> else s)"
text \<open>The end of a thread: in its function, behind the semaphore of \<open>task_start\<close>, ended. \<open>rj_join\<close>: the count of the semaphore;
  \<open>rj_deletes\<close>: how often the kernel was told to delete the thread; \<open>rj_exists\<close>: the memory of the area may be used.\<close>

datatype rtos_phase = R_running | R_given | R_ended

record rtos_life =
  rj_heap :: bool
  rj_phase :: rtos_phase
  rj_join :: nat
  rj_deletes :: nat
  rj_exists :: bool

definition rtos_task_start_give :: "rtos_life \<Rightarrow> rtos_life" where
  "rtos_task_start_give l = l\<lparr>rj_join := rj_join l + 1, rj_phase := R_given\<rparr>"

definition rtos_task_start_end :: "rtos \<Rightarrow> rtos_life \<Rightarrow> rtos_life" where
  "rtos_task_start_end k l =
     (case k of FreeRTOS \<Rightarrow> (if \<not> rj_heap l then l\<lparr>rj_deletes := rj_deletes l + 1\<rparr> else l) | ThreadX \<Rightarrow> l)\<lparr>rj_phase := R_ended\<rparr>"

definition rtos_thread_release :: "rtos_life \<Rightarrow> rtos_life" where
  "rtos_thread_release l =
     (let l = l\<lparr>rj_phase := R_ended, rj_deletes := rj_deletes l + 1\<rparr> in if rj_heap l then l\<lparr>rj_exists := False\<rparr> else l)"

text \<open>The wait of FreeRTOS and ThreadX: the count of a semaphore, or \<open>None\<close> for a wait that goes on.\<close>

definition rtos_take :: "u32 \<Rightarrow> nat \<Rightarrow> (bool \<times> nat) option" where
  "rtos_take ticks n = (if n > 0 then Some (True, n - 1) else if ticks = OS_TIME_INFINITE then None else Some (False, n))"

definition rtos_thread_join_timeout :: "u32 \<Rightarrow> rtos_life \<Rightarrow> (int \<times> rtos_life) option" where
  "rtos_thread_join_timeout ticks l =
     (case rtos_take ticks (rj_join l) of
        None \<Rightarrow> None
      | Some (ok, n) \<Rightarrow> Some (if ok then (EOK, rtos_thread_release (l\<lparr>rj_join := n\<rparr>)) else (E_TIMEOUT, l)))"

definition rtos_thread_join :: "rtos_life \<Rightarrow> rtos_life option" where
  "rtos_thread_join l = (case rtos_take OS_TIME_INFINITE (rj_join l) of None \<Rightarrow> None | Some (ok, n) \<Rightarrow> Some (rtos_thread_release (l\<lparr>rj_join := n\<rparr>)))"

section \<open>Mutexes\<close>

text \<open>A recursive mutex of the kernel: its owner and how often it holds it; the status, or \<open>None\<close> for a thread that waits for the owner.\<close>

record rtos_mutex =
  rm_owner :: "nat option"
  rm_count :: nat

definition rtos_mutex_init :: rtos_mutex where "rtos_mutex_init = \<lparr>rm_owner = None, rm_count = 0\<rparr>"

definition rtos_mutex_create :: "rtos \<Rightarrow> addr \<Rightarrow> int \<times> addr \<times> rtos_mutex option" where
  "rtos_mutex_create k mem =
     (if mem = NULL then (case k of FreeRTOS \<Rightarrow> EFAIL | ThreadX \<Rightarrow> E_NOMEM, NULL, None) else (EOK, mem, Some rtos_mutex_init))"

definition rtos_mutex_lock :: "nat \<Rightarrow> rtos_mutex \<Rightarrow> (int \<times> rtos_mutex) option" where
  "rtos_mutex_lock t m =
     (if rm_owner m \<in> {None, Some t} then Some (EOK, \<lparr>rm_owner = Some t, rm_count = rm_count m + 1\<rparr>) else None)"

definition rtos_mutex_trylock :: "nat \<Rightarrow> rtos_mutex \<Rightarrow> int \<times> rtos_mutex" where
  "rtos_mutex_trylock t m =
     (if rm_owner m \<in> {None, Some t} then (EOK, \<lparr>rm_owner = Some t, rm_count = rm_count m + 1\<rparr>) else (EFAIL, m))"

definition rtos_mutex_unlock :: "nat \<Rightarrow> rtos_mutex \<Rightarrow> rtos_mutex" where
  "rtos_mutex_unlock t m =
     (if rm_owner m \<noteq> Some t then m
      else if rm_count m > 1 then m\<lparr>rm_count := rm_count m - 1\<rparr>
      else rtos_mutex_init)"

section \<open>Semaphores\<close>

record rtos_sem =
  rs_count :: nat
  rs_limit :: nat

definition rtos_sem_max :: nat where "rtos_sem_max = 2 ^ 32 - 1"

definition rtos_give :: "rtos_sem \<Rightarrow> rtos_sem" where
  "rtos_give s = (if rs_count s < rs_limit s then s\<lparr>rs_count := rs_count s + 1\<rparr> else s)"

definition rtos_sem_init :: "int \<Rightarrow> rtos_sem" where
  "rtos_sem_init cnt = \<lparr>rs_count = unat (word_of_int cnt :: u32), rs_limit = rtos_sem_max\<rparr>"

text \<open>\<open>mem\<close>: the object, null where there is no memory.\<close>

definition rtos_sem_create :: "addr \<Rightarrow> int \<Rightarrow> int \<times> addr \<times> rtos_sem option" where
  "rtos_sem_create mem cnt = (if mem = NULL then (E_NOMEM, NULL, None) else (EOK, mem, Some (rtos_sem_init cnt)))"

text \<open>The number of steps of the loop on FreeRTOS is not negative.\<close>

definition rtos_sem_reset :: "rtos \<Rightarrow> nat \<Rightarrow> rtos_sem \<Rightarrow> rtos_sem" where
  "rtos_sem_reset k cnt s =
     (case k of FreeRTOS \<Rightarrow> (rtos_give ^^ cnt) (s\<lparr>rs_count := 0\<rparr>) | ThreadX \<Rightarrow> rtos_sem_init (int cnt))"

definition rtos_sem_wait_timeout :: "u32 \<Rightarrow> rtos_sem \<Rightarrow> (int \<times> rtos_sem) option" where
  "rtos_sem_wait_timeout ticks s =
     (case rtos_take ticks (rs_count s) of None \<Rightarrow> None | Some (ok, n) \<Rightarrow> Some (if ok then EOK else EFAIL, s\<lparr>rs_count := n\<rparr>))"

definition rtos_sem_wait :: "rtos_sem \<Rightarrow> (int \<times> rtos_sem) option" where
  "rtos_sem_wait s = rtos_sem_wait_timeout OS_TIME_INFINITE s"

definition rtos_sem_signal :: "rtos_sem \<Rightarrow> rtos_sem" where "rtos_sem_signal s = rtos_give s"
definition rtos_sem_signal_isr :: "rtos_sem \<Rightarrow> rtos_sem" where "rtos_sem_signal_isr s = rtos_give s"
definition rtos_sem_count :: "rtos_sem \<Rightarrow> int" where "rtos_sem_count s = sint (of_nat (rs_count s) :: u32)"

text \<open>On ThreadX a binary semaphore is a counting one that is put with a ceiling of 1.\<close>

definition rtos_bsem_init :: "rtos \<Rightarrow> int \<Rightarrow> rtos_sem" where
  "rtos_bsem_init k taken =
     (case k of
        FreeRTOS \<Rightarrow> (let s = \<lparr>rs_count = 0, rs_limit = 1\<rparr> in if taken = 0 then rtos_give s else s)
      | ThreadX \<Rightarrow> \<lparr>rs_count = (if taken \<noteq> 0 then 0 else 1), rs_limit = rtos_sem_max\<rparr>)"

definition rtos_bsem_create :: "rtos \<Rightarrow> addr \<Rightarrow> int \<Rightarrow> int \<times> addr \<times> rtos_sem option" where
  "rtos_bsem_create k mem taken = (if mem = NULL then (E_NOMEM, NULL, None) else (EOK, mem, Some (rtos_bsem_init k taken)))"

definition rtos_bsem_reset :: "rtos \<Rightarrow> int \<Rightarrow> rtos_sem \<Rightarrow> rtos_sem" where
  "rtos_bsem_reset k taken s = (case k of FreeRTOS \<Rightarrow> s\<lparr>rs_count := 0\<rparr> | ThreadX \<Rightarrow> rtos_bsem_init ThreadX taken)"

definition rtos_bsem_wait_timeout :: "u32 \<Rightarrow> rtos_sem \<Rightarrow> (int \<times> rtos_sem) option" where
  "rtos_bsem_wait_timeout ticks s = rtos_sem_wait_timeout ticks s"

definition rtos_bsem_wait :: "rtos_sem \<Rightarrow> (int \<times> rtos_sem) option" where "rtos_bsem_wait s = rtos_sem_wait s"

definition rtos_bsem_signal :: "rtos \<Rightarrow> rtos_sem \<Rightarrow> rtos_sem" where
  "rtos_bsem_signal k s =
     (case k of FreeRTOS \<Rightarrow> rtos_give s | ThreadX \<Rightarrow> if rs_count s < 1 then s\<lparr>rs_count := rs_count s + 1\<rparr> else s)"

definition rtos_bsem_signal_isr :: "rtos \<Rightarrow> rtos_sem \<Rightarrow> rtos_sem" where "rtos_bsem_signal_isr k s = rtos_bsem_signal k s"

section \<open>Events\<close>

text \<open>FreeRTOS has 24 bits in a group. The result of a wait is all the bits that were set when it ended, and those set then;
  \<open>posted\<close>: what is posted during the wait.\<close>

definition rtos_event_bits :: "rtos \<Rightarrow> u32 \<Rightarrow> u32" where
  "rtos_event_bits k msk = (case k of FreeRTOS \<Rightarrow> msk AND NOT 0xff000000 | ThreadX \<Rightarrow> msk)"

definition rtos_event_found :: "u32 \<Rightarrow> u32 \<Rightarrow> u32 \<Rightarrow> bool" where
  "rtos_event_found bits al ev \<longleftrightarrow> (if al \<noteq> 0 then ev AND bits = bits else ev AND bits \<noteq> 0)"

definition rtos_event_wait_timeout :: "rtos \<Rightarrow> u32 \<Rightarrow> u32 \<Rightarrow> u32 \<Rightarrow> u32 \<Rightarrow> u32 \<Rightarrow> u32 \<Rightarrow> (u32 \<times> u32) option" where
  "rtos_event_wait_timeout k posted clear_on_exit msk al ticks ev =
     (let bits = rtos_event_bits k msk; ev = (if rtos_event_found bits al ev \<or> ticks = 0 then ev else ev OR posted)
      in if rtos_event_found bits al ev then Some (ev, if clear_on_exit \<noteq> 0 then ev AND NOT bits else ev)
         else if ticks = OS_TIME_INFINITE then None
         else Some (case k of FreeRTOS \<Rightarrow> ev | ThreadX \<Rightarrow> 0, ev))"

definition rtos_event_wait :: "rtos \<Rightarrow> u32 \<Rightarrow> u32 \<Rightarrow> u32 \<Rightarrow> u32 \<Rightarrow> u32 \<Rightarrow> (u32 \<times> u32) option" where
  "rtos_event_wait k posted clear_on_exit msk al ev = rtos_event_wait_timeout k posted clear_on_exit msk al OS_TIME_INFINITE ev"

definition rtos_event_init :: u32 where "rtos_event_init = 0"

definition rtos_event_create :: "rtos \<Rightarrow> addr \<Rightarrow> int \<times> addr \<times> u32 option" where
  "rtos_event_create k mem =
     (if mem = NULL then (case k of FreeRTOS \<Rightarrow> EFAIL | ThreadX \<Rightarrow> E_NOMEM, NULL, None) else (EOK, mem, Some rtos_event_init))"

definition rtos_event_signal :: "rtos \<Rightarrow> u32 \<Rightarrow> u32 \<Rightarrow> u32" where "rtos_event_signal k msk ev = ev OR rtos_event_bits k msk"
definition rtos_event_signal_isr :: "rtos \<Rightarrow> u32 \<Rightarrow> u32 option \<Rightarrow> u32 option" where
  "rtos_event_signal_isr k msk event = map_option (rtos_event_signal k msk) event"
definition rtos_event_clear :: "rtos \<Rightarrow> u32 \<Rightarrow> u32 \<Rightarrow> u32" where "rtos_event_clear k msk ev = ev AND NOT (rtos_event_bits k msk)"
definition rtos_event_clear_isr :: "rtos \<Rightarrow> u32 \<Rightarrow> u32 \<Rightarrow> u32" where "rtos_event_clear_isr k msk ev = ev AND NOT (rtos_event_bits k msk)"

section \<open>Timers\<close>

text \<open>\<open>rv_arg\<close>: what the kernel hands to the function when the timer expires. FreeRTOS hands it the handle of the timer, \<open>h\<close>.\<close>

record rtos_timer =
  rv_expires :: "nat option"
  rv_callback :: addr
  rv_arg :: addr

definition rtos_timer_init :: "rtos \<Rightarrow> addr \<Rightarrow> addr \<Rightarrow> addr \<Rightarrow> rtos_timer" where
  "rtos_timer_init k h fp parm = \<lparr>rv_expires = None, rv_callback = fp, rv_arg = (case k of FreeRTOS \<Rightarrow> h | ThreadX \<Rightarrow> parm)\<rparr>"

definition rtos_timer_create :: "rtos \<Rightarrow> addr \<Rightarrow> addr \<Rightarrow> addr \<Rightarrow> int \<times> addr \<times> rtos_timer option" where
  "rtos_timer_create k mem fp parm =
     (if mem = NULL then (case k of FreeRTOS \<Rightarrow> EFAIL | ThreadX \<Rightarrow> E_NOMEM, NULL, None) else (EOK, mem, Some (rtos_timer_init k mem fp parm)))"

text \<open>\<open>ticks\<close> is not 0, which the kernels refuse.\<close>

definition rtos_timer_set :: "nat \<Rightarrow> u32 \<Rightarrow> rtos_timer \<Rightarrow> rtos_timer" where
  "rtos_timer_set now ticks w = (w\<lparr>rv_expires := None\<rparr>)\<lparr>rv_expires := Some (now + unat ticks)\<rparr>"

definition rtos_timer_set_i :: "nat \<Rightarrow> u32 \<Rightarrow> rtos_timer \<Rightarrow> rtos_timer" where "rtos_timer_set_i now ticks w = rtos_timer_set now ticks w"
definition rtos_timer_reset :: "rtos_timer \<Rightarrow> rtos_timer" where "rtos_timer_reset w = w\<lparr>rv_expires := None\<rparr>"

definition rtos_timer_is_set :: "rtos \<Rightarrow> rtos_timer \<Rightarrow> int" where
  "rtos_timer_is_set k w = (case k of FreeRTOS \<Rightarrow> 1 | ThreadX \<Rightarrow> if rv_expires w = None then 0 else 1)"

section \<open>What holds\<close>

text \<open>The priorities of the library come back from the kernel.\<close>

theorem rtos_prio_roundtrip:
  "p \<in> set [8, 16, 24, 32, 40, 48, 56, 64, 72, 80, 88, 96, 104, 112] \<Longrightarrow>
    fst (rtos_thread_set_prio k q (snd (rtos_thread_set_prio k p old))) = p"
  by (cases k) (auto simp: rtos_thread_set_prio_def OS_THREAD_PRIO_def OS_THREAD_GET_PRIO_def)

theorem rtos_prio_roundtrip_witness: "fst (rtos_thread_set_prio ThreadX 8 (snd (rtos_thread_set_prio ThreadX 48 0))) = 48"
  using rtos_prio_roundtrip [of 48 ThreadX 8 0] by simp

text \<open>Nested locks: interrupts stay disabled until the last unlock.\<close>

lemma locks: "(rtos_sys_lock ^^ n) l = l\<lparr>rl_enter := rl_enter l + of_nat n, rl_enabled := (n = 0 \<and> rl_enabled l)\<rparr>"
  by (induction n) (simp_all add: rtos_sys_lock_def algebra_simps)

lemma unlocks: "m < n \<Longrightarrow> n < 4294967296 \<Longrightarrow> rl_enter l = of_nat n \<Longrightarrow> \<not> rl_enabled l \<Longrightarrow> (rtos_sys_unlock ^^ m) l = l\<lparr>rl_enter := of_nat (n - m)\<rparr>"
proof (induction m)
  case (Suc m)
  have step: "x - 1 \<noteq> 0 \<Longrightarrow> rtos_sys_unlock (l\<lparr>rl_enter := x\<rparr>) = l\<lparr>rl_enter := x - 1\<rparr>" for x by (simp add: rtos_sys_unlock_def)
  have "of_nat (n - m) - 1 = (of_nat (n - Suc m) :: u32)" using Suc.prems(1) by (simp add: of_nat_diff)
  moreover have "unat (of_nat (n - Suc m) :: u32) = n - Suc m" using Suc.prems(2) by (simp only: unat_of_nat) simp
  then have "(of_nat (n - Suc m) :: u32) \<noteq> 0" using Suc.prems(1) by (metis unat_0 zero_less_diff less_numeral_extra(3))
  moreover have "(rtos_sys_unlock ^^ m) l = l\<lparr>rl_enter := of_nat (n - m)\<rparr>" using Suc by simp
  ultimately show ?case using step [of "of_nat (n - m)"] by (simp only: funpow.simps o_apply simp_thms)
qed simp

theorem rtos_lock_nests:
  assumes "0 < n" "n < 4294967296" "m < n"
  shows "\<not> rl_enabled ((rtos_sys_unlock ^^ m) ((rtos_sys_lock ^^ n) \<lparr>rl_enter = 0, rl_enabled = True\<rparr>)) \<and>
    (rtos_sys_unlock ^^ n) ((rtos_sys_lock ^^ n) \<lparr>rl_enter = 0, rl_enabled = True\<rparr>) = \<lparr>rl_enter = 0, rl_enabled = True\<rparr>"
proof -
  let ?l = "(rtos_sys_lock ^^ n) \<lparr>rl_enter = 0, rl_enabled = True\<rparr>"
  have l: "?l = \<lparr>rl_enter = of_nat n, rl_enabled = False\<rparr>" using assms(1) by (simp add: locks)
  have m: "(rtos_sys_unlock ^^ j) ?l = \<lparr>rl_enter = of_nat (n - j), rl_enabled = False\<rparr>" if "j < n" for j
    using unlocks [OF that assms(2), of ?l] unfolding l by simp
  obtain n' where n': "n = Suc n'" using assms(1) by (cases n) auto
  have "(rtos_sys_unlock ^^ n) ?l = rtos_sys_unlock ((rtos_sys_unlock ^^ n') ?l)" unfolding n' by simp
  also have "\<dots> = \<lparr>rl_enter = 0, rl_enabled = True\<rparr>" using m [of n'] unfolding n' by (simp add: rtos_sys_unlock_def)
  finally show ?thesis using m [OF assms(3)] by simp
qed

theorem rtos_lock_nests_witness: "(rtos_sys_unlock ^^ 2) ((rtos_sys_lock ^^ 2) \<lparr>rl_enter = 0, rl_enabled = True\<rparr>) = \<lparr>rl_enter = 0, rl_enabled = True\<rparr>"
  using rtos_lock_nests [of 2 1] by simp
text \<open>A declared area has no room for the stack it was declared for: it lacks the two semaphores, on ThreadX also the flags and the
  thread-local storage.\<close>

lemma div8: "x div 8 * 8 \<le> (x :: nat)"
  by simp

theorem rtos_static_area_short:
  assumes "0 < ra_sem z"
  shows "OS_THREAD_WORKING_AREA_R z n < wa_sizeof k z + n \<and>
    (k = FreeRTOS \<longrightarrow> OS_THREAD_WORKING_AREA_R z n + 2 * ra_sem z \<le> wa_sizeof k z + n) \<and>
    (k = ThreadX \<longrightarrow> OS_THREAD_WORKING_AREA_R z n + 2 * ra_sem z + ra_evt z + 16 \<le> wa_sizeof k z + n)"
proof -
  have "OS_THREAD_WORKING_AREA_R z n \<le> ra_tcb z + 24 + n"
    using div8 [of "OS_THREAD_WA_SIZE_R z n"] by (simp add: OS_THREAD_WORKING_AREA_R_def OS_THREAD_WA_SIZE_R_def)
  then show ?thesis using assms by (cases k) (simp_all add: wa_sizeof_def MAX_TLS_ID_def)
qed

theorem rtos_static_area_short_witness: "OS_THREAD_WORKING_AREA_R \<lparr>ra_tcb = 100, ra_sem = 80, ra_evt = 40\<rparr> 1024 < wa_sizeof ThreadX \<lparr>ra_tcb = 100, ra_sem = 80, ra_evt = 40\<rparr> + 1024"
  using rtos_static_area_short [of "\<lparr>ra_tcb = 100, ra_sem = 80, ra_evt = 40\<rparr>" 1024 ThreadX] by simp

text \<open>And FreeRTOS is told a size in words from which that of the area in bytes is subtracted: an area of 1600 bytes, 284 of which
  are the object, has a stack of 116 instead of 329 words, and a smaller one a stack of nearly all the memory there is.\<close>

theorem rtos_static_stack_units:
  "map_option rt_stack (snd (snd (rtos_thread_create_static FreeRTOS \<lparr>ra_tcb = 100, ra_sem = 80, ra_evt = 40\<rparr> wsp True 1600 prio pf arg))) = Some 116 \<and>
   map_option rt_stack (snd (snd (rtos_thread_create_static FreeRTOS \<lparr>ra_tcb = 100, ra_sem = 80, ra_evt = 40\<rparr> wsp True 1000 prio pf arg))) = Some 4294967262"
  by (simp add: rtos_thread_create_static_def wa_sizeof_def)

text \<open>A join comes back after the function of the thread, and then the kernel has ended the thread before its memory is given
  back; but a thread in an area of the caller deletes itself as well.\<close>

theorem rtos_join_ends_thread:
  assumes "rj_phase l = R_running" "rj_join l = 0" "rj_exists l" "rj_deletes l = 0"
  shows "rtos_thread_join l = None \<and>
    (\<exists>l'. rtos_thread_join (rtos_task_start_give l) = Some l' \<and> rj_phase l' = R_ended \<and> rj_exists l' = (\<not> rj_heap l) \<and> rj_deletes l' = 1) \<and>
    (\<exists>l'. rtos_thread_join (rtos_task_start_end k (rtos_task_start_give l)) = Some l' \<and> rj_phase l' = R_ended \<and> rj_exists l' = (\<not> rj_heap l) \<and>
       rj_deletes l' = (if k = FreeRTOS \<and> \<not> rj_heap l then 2 else 1))"
  using assms by (cases k) (simp_all add: rtos_thread_join_def rtos_task_start_give_def rtos_task_start_end_def rtos_thread_release_def rtos_take_def Let_def)

theorem rtos_join_ends_thread_witness:
  "rtos_thread_join \<lparr>rj_heap = True, rj_phase = R_running, rj_join = 0, rj_deletes = 0, rj_exists = True\<rparr> = None"
  using rtos_join_ends_thread [of "\<lparr>rj_heap = True, rj_phase = R_running, rj_join = 0, rj_deletes = 0, rj_exists = True\<rparr>" FreeRTOS] by simp

text \<open>A notification reaches the wait behind it. On FreeRTOS it reports that it is not implemented, and one from an interrupt counts as
  often as its message is great.\<close>

theorem rtos_notify_reaches:
  assumes "rn_value t = 0"
  shows "(\<exists>t'. rtos_thread_wait k ticks (snd (rtos_thread_notify k msg t)) = Some (msg, t') \<and> rn_value t' = 0) \<and>
    (fst (rtos_thread_notify k msg t) = EOK \<longleftrightarrow> k = ThreadX)"
  using assms by (cases k) (simp_all add: rtos_thread_wait_def rtos_thread_notify_def err_codes)

theorem rtos_notify_reaches_witness: "fst (rtos_thread_notify FreeRTOS 5 \<lparr>rn_value = 0, rn_msg = 0\<rparr>) \<noteq> EOK"
  using rtos_notify_reaches [of "\<lparr>rn_value = 0, rn_msg = 0\<rparr>" FreeRTOS 0 5] by simp

theorem rtos_isr_notify_counts:
  "rn_value (snd (rtos_thread_notify_isr FreeRTOS 5 \<lparr>rn_value = 0, rn_msg = 0\<rparr>)) = 5 \<and>
   (\<exists>t'. rtos_thread_wait FreeRTOS 0 (snd (rtos_thread_notify_isr FreeRTOS 5 \<lparr>rn_value = 0, rn_msg = 0\<rparr>)) = Some (5, t') \<and>
      map_option fst (rtos_thread_wait FreeRTOS 0 t') = Some 5)"
  by (simp add: rtos_thread_notify_isr_def rtos_thread_wait_def)

text \<open>A binary semaphore is binary on both kernels; on FreeRTOS a reset leaves it taken, whatever it is asked for.\<close>

theorem rtos_bsem_binary:
  "rs_count (rtos_bsem_init k taken) = (if taken \<noteq> 0 then 0 else 1) \<and> (rs_count s \<le> 1 \<and> (k = FreeRTOS \<longrightarrow> rs_limit s = 1) \<longrightarrow> rs_count (rtos_bsem_signal k s) = 1) \<and>
    rs_count (rtos_bsem_reset FreeRTOS 0 s) = 0 \<and> rs_count (rtos_bsem_reset ThreadX 0 s) = 1"
  by (cases k) (auto simp: rtos_bsem_init_def rtos_bsem_signal_def rtos_bsem_reset_def rtos_give_def)

theorem rtos_bsem_binary_witness: "rs_count (rtos_bsem_signal FreeRTOS \<lparr>rs_count = 1, rs_limit = 1\<rparr>) = 1"
  using rtos_bsem_binary [of FreeRTOS 0 "\<lparr>rs_count = 1, rs_limit = 1\<rparr>"] by simp

text \<open>An event that the kernel has a bit for ends a wait for it, which clears what it waited for.\<close>

theorem rtos_event_reaches:
  assumes "rtos_event_bits k msk AND rtos_event_bits k events \<noteq> 0"
  shows "rtos_event_wait k posted clear msk 0 (rtos_event_signal k events ev) =
    Some (ev OR rtos_event_bits k events, if clear \<noteq> 0 then (ev OR rtos_event_bits k events) AND NOT (rtos_event_bits k msk) else ev OR rtos_event_bits k events)"
proof -
  have "(ev OR rtos_event_bits k events) AND rtos_event_bits k msk \<noteq> 0"
    using assms by (metis and.commute bit.conj_disj_distrib2 or_eq_0_iff)
  then show ?thesis by (simp add: rtos_event_wait_def rtos_event_wait_timeout_def rtos_event_signal_def rtos_event_found_def Let_def)
qed

theorem rtos_event_reaches_witness: "rtos_event_wait FreeRTOS 0 1 6 0 (rtos_event_signal FreeRTOS 4 1) = Some (5, 1)"
  using rtos_event_reaches [where k = FreeRTOS and msk = 6 and events = 4 and posted = 0 and clear = 1 and ev = 1] by (simp add: rtos_event_bits_def)

text \<open>FreeRTOS drops the upper eight events; and a wait that timed out returns the other events that are set, which its callers take for success.\<close>

theorem rtos_event_traps:
  "rtos_event_signal FreeRTOS 0x01000000 ev = ev \<and> rtos_event_wait_timeout FreeRTOS 0 0 1 0 ticks 2 = (if ticks = OS_TIME_INFINITE then None else Some (2, 2)) \<and>
   rtos_event_wait_timeout ThreadX 0 0 1 0 ticks 2 = (if ticks = OS_TIME_INFINITE then None else Some (0, 2))"
  by (simp add: rtos_event_signal_def rtos_event_bits_def rtos_event_wait_timeout_def rtos_event_found_def Let_def)

text \<open>The timestamp in milliseconds is the time up to the overflow of the product, after 71 minutes at 1000 ticks in a second.\<close>

theorem rtos_timestamp_wraps:
  "(up < 4294967 \<longrightarrow> unat (rtos_sys_timestamp 1000 up) = up) \<and> rtos_sys_timestamp 1000 4294968 = 1"
proof -
  have "unat (rtos_sys_timestamp 1000 up) = up" if "up < 4294967"
  proof -
    have e: "(of_nat up * 1000 + 1000 - 1 :: u32) = of_nat (up * 1000 + 999)" by simp
    have u: "unat (of_nat (up * 1000 + 999) :: u32) = up * 1000 + 999" using that by (simp only: unat_of_nat) simp
    have "unat (rtos_sys_timestamp 1000 up) = (up * 1000 + 999) div unat (1000 :: u32)"
      unfolding rtos_sys_timestamp_def OS_TICKS2MS_32_def unat_div_distrib e u ..
    then show ?thesis by simp
  qed
  moreover have "rtos_sys_timestamp 1000 4294968 = 1" by (simp add: rtos_sys_timestamp_def OS_TICKS2MS_32_def)
  ultimately show ?thesis by blast
qed

theorem rtos_timestamp_wraps_witness: "unat (rtos_sys_timestamp 1000 77) = 77"
  using rtos_timestamp_wraps [of 77] by simp

text \<open>The function of a timer on FreeRTOS gets the handle of the timer for its argument, and a timer that never ran is set.\<close>

theorem rtos_timer_traps:
  "rv_arg (rtos_timer_init FreeRTOS h fp parm) = h \<and> rv_arg (rtos_timer_init ThreadX h fp parm) = parm \<and>
   rtos_timer_is_set FreeRTOS (rtos_timer_init FreeRTOS h fp parm) = 1 \<and> rtos_timer_is_set ThreadX (rtos_timer_init ThreadX h fp parm) = 0"
  by (simp add: rtos_timer_init_def rtos_timer_is_set_def)

end
